(* ===== verification/Prelude.thy ===== *)
theory Prelude
  imports Main "HOL-Library.Word"
begin

text \<open>
  The vocabulary every component of the kernel model shares.

  \<^item> \<open>'a res\<close>: the outcome of a kernel routine. \<open>Ok x\<close> is a normal return, \<open>Panic msg\<close> the
    call of \<open>panic(msg)\<close> (kernel/printf.c), which never returns.
  \<^item> \<open>add64\<close>, \<open>sub64\<close>, \<open>mul64\<close>: \<open>uint64\<close> arithmetic on natural numbers with the wrap-around
    written out. Addresses are natural numbers, flag words and bit masks are machine words.
  \<^item> \<open>mem\<close>: physical memory, a byte per address. The kernel is mapped one to one, so a kernel
    pointer is a physical address. \<open>ld_le\<close> and \<open>st_le\<close> read and write little-endian integers,
    the way the RISC-V core does for the C code's loads and stores.
  \<^item> \<open>find_first\<close>: the "scan the table for the first entry that fits" loop that many components
    use.
\<close>

named_theorems mem_simps \<open>reading memory after writing it\<close>
named_theorems res_simps \<open>outcomes of sequenced kernel routines\<close>

type_synonym u8 = "8 word"
type_synonym u16 = "16 word"
type_synonym u32 = "32 word"
type_synonym u64 = "64 word"
type_synonym mem = "nat \<Rightarrow> u8"

section \<open>Outcomes\<close>

datatype 'a res = Ok 'a | Panic string

primrec bindR :: "'a res \<Rightarrow> ('a \<Rightarrow> 'b res) \<Rightarrow> 'b res" where
  "bindR (Ok x) f = f x"
| "bindR (Panic e) f = Panic e"

lemma bindR_eq_Ok [res_simps]: "bindR r f = Ok y \<longleftrightarrow> (\<exists>x. r = Ok x \<and> f x = Ok y)"
  by (cases r) auto

lemma bindR_eq_Panic [res_simps]:
  "bindR r f = Panic e \<longleftrightarrow> r = Panic e \<or> (\<exists>x. r = Ok x \<and> f x = Panic e)"
  by (cases r) auto

lemma bindR_Ok_right [simp]: "bindR r Ok = r"
  by (cases r) auto

lemma bindR_assoc: "bindR (bindR r f) g = bindR r (\<lambda>x. bindR (f x) g)"
  by (cases r) auto

lemma bindR_cong [fundef_cong]:
  "r = r' \<Longrightarrow> (\<And>x. r' = Ok x \<Longrightarrow> f x = g x) \<Longrightarrow> bindR r f = bindR r' g"
  by (cases r') auto

text \<open>Routines that may not return, or run on fuel: \<open>None\<close> is no result.\<close>

definition bindF :: "'a res option \<Rightarrow> ('a \<Rightarrow> 'b res option) \<Rightarrow> 'b res option" where
  "bindF m f = (case m of None \<Rightarrow> None | Some (Panic e) \<Rightarrow> Some (Panic e) | Some (Ok x) \<Rightarrow> f x)"

lemma bindF_eq_Ok [res_simps]: "bindF m f = Some (Ok y) \<longleftrightarrow> (\<exists>x. m = Some (Ok x) \<and> f x = Some (Ok y))"
  by (auto simp: bindF_def split: option.splits res.splits)

lemma bindF_eq_None [res_simps]: "bindF m f = None \<longleftrightarrow> m = None \<or> (\<exists>x. m = Some (Ok x) \<and> f x = None)"
  by (auto simp: bindF_def split: option.splits res.splits)

lemma bindF_Ok [simp]: "bindF (Some (Ok x)) f = f x"
  by (simp add: bindF_def)

section \<open>64-bit unsigned arithmetic on naturals\<close>

definition add64 :: "nat \<Rightarrow> nat \<Rightarrow> nat" where
  "add64 a b = (a + b) mod 2 ^ 64"

definition sub64 :: "nat \<Rightarrow> nat \<Rightarrow> nat" where
  "sub64 a b = (a + (2 ^ 64 - b mod 2 ^ 64)) mod 2 ^ 64"

definition mul64 :: "nat \<Rightarrow> nat \<Rightarrow> nat" where
  "mul64 a b = (a * b) mod 2 ^ 64"

lemma add64_small: "a + b < 2 ^ 64 \<Longrightarrow> add64 a b = a + b"
  by (simp add: add64_def)

lemma sub64_small: "b \<le> a \<Longrightarrow> a < 2 ^ 64 \<Longrightarrow> sub64 a b = a - b"
proof -
  assume "b \<le> a" "a < 2 ^ 64"
  then have "a + (2 ^ 64 - b mod 2 ^ 64) = (a - b) + 2 ^ 64" by simp
  then show ?thesis using \<open>a < 2 ^ 64\<close> unfolding sub64_def by (simp only: mod_add_self2) simp
qed

lemma mul64_small: "a * b < 2 ^ 64 \<Longrightarrow> mul64 a b = a * b"
  by (simp add: mul64_def)

lemma add64_less [simp]: "add64 a b < 18446744073709551616"
  by (simp add: add64_def)

lemma unat64_less [simp]: "unat (w :: u64) < 18446744073709551616"
  using unsigned_less [of w] by simp

lemma unat_of_nat64: "n < 2 ^ 64 \<Longrightarrow> unat (of_nat n :: u64) = n"
  by (simp add: unat_of_nat)

lemma unat_push_bit64: "unat (push_bit k w :: u64) = unat w * 2 ^ k mod 18446744073709551616"
  by (subst unsigned_push_bit_eq) (simp add: push_bit_eq_mult take_bit_eq_mod)

lemma unat_drop_bit64: "unat (drop_bit k w :: u64) = unat w div 2 ^ k"
  by (subst unsigned_drop_bit_eq) (simp add: drop_bit_eq_div take_bit_eq_mod)

section \<open>Little-endian memory access\<close>

primrec ld_le :: "nat \<Rightarrow> mem \<Rightarrow> nat \<Rightarrow> nat" where
  "ld_le 0 m a = 0"
| "ld_le (Suc n) m a = unat (m a) + 256 * ld_le n m (Suc a)"

primrec st_le :: "nat \<Rightarrow> mem \<Rightarrow> nat \<Rightarrow> nat \<Rightarrow> mem" where
  "st_le 0 m a v = m"
| "st_le (Suc n) m a v = st_le n (m(a := of_nat v)) (Suc a) (v div 256)"

abbreviation ld64 :: "mem \<Rightarrow> nat \<Rightarrow> u64" where
  "ld64 m a \<equiv> of_nat (ld_le 8 m a)"

abbreviation st64 :: "mem \<Rightarrow> nat \<Rightarrow> u64 \<Rightarrow> mem" where
  "st64 m a w \<equiv> st_le 8 m a (unat w)"

lemma st_le_outside: "x < a \<or> a + n \<le> x \<Longrightarrow> st_le n m a v x = m x"
  by (induction n arbitrary: m a v) auto

lemma st_le_at: "i < n \<Longrightarrow> st_le n m a v (a + i) = of_nat (v div 256 ^ i)"
proof (induction n arbitrary: m a v i)
  case 0
  then show ?case by simp
next
  case (Suc n)
  show ?case
  proof (cases i)
    case 0
    then show ?thesis by (simp add: st_le_outside)
  next
    case (Suc j)
    then have "j < n" using Suc.prems by simp
    then have "st_le n (m(a := of_nat v)) (Suc a) (v div 256) (Suc a + j) = of_nat (v div 256 div 256 ^ j)"
      by (rule Suc.IH)
    then show ?thesis
      by (simp only: st_le.simps \<open>i = Suc j\<close> add_Suc add_Suc_right power_Suc div_mult2_eq)
  qed
qed

lemma ld_le_cong: "(\<And>i. i < n \<Longrightarrow> m (a + i) = m' (a' + i)) \<Longrightarrow> ld_le n m a = ld_le n m' a'"
proof (induction n arbitrary: a a')
  case 0
  then show ?case by simp
next
  case (Suc n)
  have "m a = m' a'" using Suc.prems [of 0] by simp
  moreover have "ld_le n m (Suc a) = ld_le n m' (Suc a')"
    by (rule Suc.IH) (use Suc.prems [of "Suc i" for i] in simp)
  ultimately show ?case by simp
qed

lemma ld_le_less: "ld_le n m a < 256 ^ n"
proof (induction n arbitrary: a)
  case 0
  then show ?case by simp
next
  case (Suc n)
  have "unat (m a) < 256" using unsigned_less [of "m a"] by simp
  then show ?case using Suc.IH [of "Suc a"] by simp
qed

lemma ld_le_8_less [simp]: "ld_le 8 m a < 18446744073709551616"
  using ld_le_less [of 8 m a] by simp

lemma ld_st_same: "ld_le n (st_le n m a v) a = v mod 256 ^ n"
proof (induction n arbitrary: m a v)
  case 0
  then show ?case by simp
next
  case (Suc n)
  have "unat (of_nat v :: u8) = v mod 256"
    by (simp add: unat_of_nat)
  then show ?case
    by (simp add: st_le_outside Suc.IH mod_mult2_eq)
qed

lemma ld_st_other: "a + n \<le> b \<or> b + k \<le> a \<Longrightarrow> ld_le k (st_le n m a v) b = ld_le k m b"
  by (rule ld_le_cong) (auto intro!: st_le_outside)

lemma ld64_st64_same [mem_simps]: "ld64 (st64 m a w) a = w"
  by (simp add: ld_st_same)

lemma ld_st_8_same [mem_simps]: "v < 2 ^ 64 \<Longrightarrow> ld_le 8 (st_le 8 m a v) a = v"
  by (simp add: ld_st_same)

section \<open>Page-aligned addresses\<close>

lemma aligned_disjoint:
  assumes "x mod n = 0" "y mod n = 0" "x \<noteq> (y::nat)"
  shows "x + n \<le> y \<or> y + n \<le> x"
proof -
  obtain i j where ij: "x = n * i" "y = n * j"
    using assms by (auto elim!: dvdE simp: mod_eq_0_iff_dvd)
  with assms consider "i < j" | "j < i" by fastforce
  then show ?thesis
  proof cases
    case 1
    then have "n * Suc i \<le> n * j" by (intro mult_le_mono2) simp
    then show ?thesis using ij by simp
  next
    case 2
    then have "n * Suc j \<le> n * i" by (intro mult_le_mono2) simp
    then show ?thesis using ij by simp
  qed
qed

section \<open>The first entry of a table that fits\<close>

function find_first :: "(nat \<Rightarrow> bool) \<Rightarrow> nat \<Rightarrow> nat \<Rightarrow> nat option" where
  "find_first P i n = (if i < n then (if P i then Some i else find_first P (Suc i) n) else None)"
  by pat_completeness auto
termination
  by (relation "measure (\<lambda>(P, i, n). n - i)") auto

declare find_first.simps [simp del]

lemma find_first_Some:
  "find_first P i n = Some j \<Longrightarrow> i \<le> j \<and> j < n \<and> P j \<and> (\<forall>k. i \<le> k \<and> k < j \<longrightarrow> \<not> P k)"
proof (induction P i n rule: find_first.induct)
  case (1 P i n)
  from "1.prems" have i: "i < n"
    by (simp add: find_first.simps [of P i n] split: if_splits)
  show ?case
  proof (cases "P i")
    case True
    with i "1.prems" show ?thesis by (auto simp: find_first.simps [of P i n])
  next
    case False
    with i "1.prems" have "find_first P (Suc i) n = Some j"
      by (simp add: find_first.simps [of P i n])
    then have IH: "Suc i \<le> j \<and> j < n \<and> P j \<and> (\<forall>k. Suc i \<le> k \<and> k < j \<longrightarrow> \<not> P k)"
      using "1.IH" i False by blast
    with False show ?thesis by (metis Suc_leD not_less_eq_eq le_antisym)
  qed
qed

lemma find_first_None: "find_first P i n = None \<longleftrightarrow> (\<forall>k. i \<le> k \<and> k < n \<longrightarrow> \<not> P k)"
proof (induction P i n rule: find_first.induct)
  case (1 P i n)
  show ?case
  proof (cases "i < n")
    case True
    show ?thesis
    proof (cases "P i")
      case True
      with \<open>i < n\<close> show ?thesis by (subst find_first.simps) auto
    next
      case False
      with \<open>i < n\<close> have "find_first P i n = None \<longleftrightarrow> (\<forall>k. Suc i \<le> k \<and> k < n \<longrightarrow> \<not> P k)"
        using "1.IH" by (subst find_first.simps) simp
      with False show ?thesis by (metis Suc_leI Suc_leD le_eq_less_or_eq)
    qed
  next
    case False
    then show ?thesis by (subst find_first.simps) auto
  qed
qed

lemma find_first_Some_iff:
  "find_first P 0 n = Some j \<longleftrightarrow> j < n \<and> P j \<and> (\<forall>k < j. \<not> P k)"
proof
  assume "find_first P 0 n = Some j"
  then show "j < n \<and> P j \<and> (\<forall>k < j. \<not> P k)" using find_first_Some by blast
next
  assume j: "j < n \<and> P j \<and> (\<forall>k < j. \<not> P k)"
  then obtain i where i: "find_first P 0 n = Some i"
    using find_first_None [of P 0 n] by (cases "find_first P 0 n") auto
  then have "i < n \<and> P i \<and> (\<forall>k < i. \<not> P k)" using find_first_Some by blast
  with j have "i = j" by (metis nat_neq_iff)
  with i show "find_first P 0 n = Some j" by simp
qed

section \<open>Linked lists\<close>

text \<open>\<open>lseg nx p xs\<close>: following \<open>nx\<close> from \<open>p\<close> visits the nodes \<open>xs\<close> and then reaches the null pointer.\<close>

fun lseg :: "(nat \<Rightarrow> nat) \<Rightarrow> nat \<Rightarrow> nat list \<Rightarrow> bool" where
  "lseg nx p [] \<longleftrightarrow> p = 0"
| "lseg nx p (x # xs) \<longleftrightarrow> p = x \<and> x \<noteq> 0 \<and> lseg nx (nx x) xs"

lemma lseg_upd [simp]: "x \<notin> set xs \<Longrightarrow> lseg (nx(x := v)) p xs \<longleftrightarrow> lseg nx p xs"
  by (induction xs arbitrary: p) auto

lemma lseg_cong: "(\<And>x. x \<in> set xs \<Longrightarrow> nx x = nx' x) \<Longrightarrow> lseg nx p xs \<longleftrightarrow> lseg nx' p xs"
  by (induction xs arbitrary: p) auto

lemma lseg_0_iff: "lseg nx p xs \<Longrightarrow> p = 0 \<longleftrightarrow> xs = []"
  by (cases xs) auto

lemma lseg_nonzero: "lseg nx p xs \<Longrightarrow> x \<in> set xs \<Longrightarrow> x \<noteq> 0"
  by (induction xs arbitrary: p) auto

lemma lseg_remove_mid:
  "lseg nx p (as @ a # x # bs) \<Longrightarrow> distinct (as @ a # x # bs) \<Longrightarrow> lseg (nx(a := nx x)) p (as @ a # bs)"
  by (induction as arbitrary: p) auto

end
