(* ===== verification/Riscv.thy ===== *)
theory Riscv
  imports Prelude
begin

text \<open>
  The constants and macros of kernel/riscv.h, kernel/memlayout.h, kernel/param.h and
  kernel/signal.h: page size and rounding, page-table-entry flags, the packing of a physical
  address into a page-table entry, the three 9-bit indices of a virtual address, and the
  physical and virtual memory layout.
\<close>

unbundle bit_operations_syntax

section \<open>Sizes and limits\<close>

definition PGSIZE :: nat where "PGSIZE = 4096"
definition PGSHIFT :: nat where "PGSHIFT = 12"
definition HUGEPGORDER :: nat where "HUGEPGORDER = 9"
definition HUGEPGSIZE :: nat where "HUGEPGSIZE = PGSIZE * 2 ^ HUGEPGORDER"
definition KERNBASE :: nat where "KERNBASE = 0x80000000"
definition PHYSTOP :: nat where "PHYSTOP = KERNBASE + 128 * 1024 * 1024"
definition MAXVA :: nat where "MAXVA = 2 ^ (9 + 9 + 9 + 12 - 1)"
definition TRAMPOLINE :: nat where "TRAMPOLINE = MAXVA - PGSIZE"
definition TRAPFRAME :: nat where "TRAPFRAME = TRAMPOLINE - PGSIZE"
definition KSTACK :: "nat \<Rightarrow> nat" where "KSTACK p = TRAMPOLINE - (p + 1) * 2 * PGSIZE"
definition NPROC :: nat where "NPROC = 64"
definition NOFILE :: nat where "NOFILE = 16"
definition NFILE :: nat where "NFILE = 100"
definition NINODE :: nat where "NINODE = 50"
definition MAXOPBLOCKS :: nat where "MAXOPBLOCKS = 10"
definition LOGBLOCKS :: nat where "LOGBLOCKS = MAXOPBLOCKS * 3"
definition NBUF :: nat where "NBUF = MAXOPBLOCKS * 3"
definition NSIG :: nat where "NSIG = 32"
definition SIGINT :: nat where "SIGINT = 2"
definition SIGKILL :: nat where "SIGKILL = 9"

lemmas size_defs [simp] = PGSIZE_def PGSHIFT_def HUGEPGORDER_def HUGEPGSIZE_def
  KERNBASE_def PHYSTOP_def MAXVA_def TRAMPOLINE_def TRAPFRAME_def NPROC_def NOFILE_def
  NFILE_def NINODE_def MAXOPBLOCKS_def LOGBLOCKS_def NBUF_def NSIG_def SIGINT_def SIGKILL_def

section \<open>Rounding to pages\<close>

definition PGROUNDUP :: "nat \<Rightarrow> nat" where
  "PGROUNDUP sz = unat ((of_nat sz + of_nat PGSIZE - 1 :: u64) AND NOT (of_nat PGSIZE - 1))"

definition PGROUNDDOWN :: "nat \<Rightarrow> nat" where
  "PGROUNDDOWN a = unat ((of_nat a :: u64) AND NOT (of_nat PGSIZE - 1))"

lemma and_not_mask_div: "w AND NOT (2 ^ k - 1) = (push_bit k (drop_bit k w) :: 'a::len word)"
  by (rule bit_word_eqI) (auto simp: bit_simps mask_eq_exp_minus_1 [symmetric])

lemma unat_page_mask: "unat (w AND (- 4096 :: u64)) = unat w div 4096 * 4096"
proof -
  have w: "unat w < 18446744073709551616" by simp
  then have b: "unat w div 4096 * 4096 < 18446744073709551616" by linarith
  have "w AND NOT (2 ^ 12 - 1) = push_bit 12 (drop_bit 12 w)" by (rule and_not_mask_div)
  then have "unat (w AND (- 4096 :: u64)) = unat (push_bit 12 (drop_bit 12 w))" by simp
  also have "\<dots> = unat w div 4096 * 4096"
    using b by (simp add: unat_push_bit64 unat_drop_bit64)
  finally show ?thesis .
qed

lemma PGROUNDDOWN_eq: "a < 2 ^ 64 \<Longrightarrow> PGROUNDDOWN a = a div 4096 * 4096"
  by (simp add: PGROUNDDOWN_def unat_page_mask unat_of_nat)

lemma PGROUNDUP_eq: "sz + 4095 < 2 ^ 64 \<Longrightarrow> PGROUNDUP sz = (sz + 4095) div 4096 * 4096"
proof -
  assume sz: "sz + 4095 < 2 ^ 64"
  have "PGROUNDUP sz = unat (of_nat (sz + 4095) :: u64) div 4096 * 4096"
    by (simp add: PGROUNDUP_def unat_page_mask add.commute)
  also have "unat (of_nat (sz + 4095) :: u64) = sz + 4095"
    using sz by (rule unat_of_nat64)
  finally show ?thesis .
qed

lemma PGROUNDUP_aligned [simp]: "PGROUNDUP sz mod 4096 = 0"
  by (simp add: PGROUNDUP_def unat_page_mask)

lemma PGROUNDDOWN_aligned [simp]: "PGROUNDDOWN a mod 4096 = 0"
  by (simp add: PGROUNDDOWN_def unat_page_mask)

section \<open>Page-table entries\<close>

type_synonym pte = u64

definition PTE_V :: pte where "PTE_V = 1"
definition PTE_R :: pte where "PTE_R = 2"
definition PTE_W :: pte where "PTE_W = 4"
definition PTE_X :: pte where "PTE_X = 8"
definition PTE_U :: pte where "PTE_U = 16"

lemmas pte_flag_defs = PTE_V_def PTE_R_def PTE_W_def PTE_X_def PTE_U_def

definition PA2PTE :: "nat \<Rightarrow> pte" where
  "PA2PTE pa = push_bit 10 (drop_bit 12 (of_nat pa))"

definition PTE2PA :: "pte \<Rightarrow> nat" where
  "PTE2PA e = unat (push_bit 12 (drop_bit 10 e))"

definition PTE_FLAGS :: "pte \<Rightarrow> u64" where
  "PTE_FLAGS e = e AND 0x3FF"

definition PXSHIFT :: "nat \<Rightarrow> nat" where
  "PXSHIFT level = PGSHIFT + 9 * level"

definition PX :: "nat \<Rightarrow> nat \<Rightarrow> nat" where
  "PX level va = drop_bit (PXSHIFT level) va AND 0x1FF"

lemma PX_eq: "PX level va = va div 2 ^ (12 + 9 * level) mod 512"
proof -
  have m: "(511 :: nat) = mask 9" by (simp add: mask_eq_exp_minus_1)
  have "PX level va = take_bit 9 (drop_bit (12 + 9 * level) va)"
    unfolding PX_def PXSHIFT_def m take_bit_eq_mask by simp
  then show ?thesis by (simp add: take_bit_eq_mod drop_bit_eq_div)
qed

lemma PX_less [simp]: "PX level va < 512"
  by (simp add: PX_eq)

lemma mask_0x3FF: "(0x3FF :: u64) = mask 10"
  by (simp add: mask_eq_exp_minus_1)

lemma PTE_FLAGS_PA2PTE: "f AND 0x3FF = f \<Longrightarrow> PTE_FLAGS (PA2PTE pa OR f) = f"
proof -
  assume f: "f AND 0x3FF = f"
  have "PA2PTE pa AND 0x3FF = 0"
    unfolding PA2PTE_def mask_0x3FF by (rule bit_word_eqI) (auto simp: bit_simps)
  then show ?thesis using f by (simp add: PTE_FLAGS_def bit.conj_disj_distrib2)
qed

lemma drop_PA2PTE: "f AND 0x3FF = f \<Longrightarrow>
    drop_bit 10 (PA2PTE pa OR f) = drop_bit 10 (push_bit 10 (drop_bit 12 (of_nat pa :: u64)))"
proof -
  assume f: "f AND 0x3FF = f"
  have "drop_bit 10 (f AND mask 10) = 0"
    by (rule bit_word_eqI) (auto simp: bit_simps)
  then have "drop_bit 10 f = 0" using f unfolding mask_0x3FF by simp
  then show ?thesis by (simp add: PA2PTE_def drop_bit_or)
qed

lemma PTE2PA_PA2PTE:
  assumes f: "f AND 0x3FF = f" and al: "pa mod 4096 = 0" and pa: "pa < 2 ^ 56"
  shows "PTE2PA (PA2PTE pa OR f) = pa"
proof -
  obtain q where q: "pa = 4096 * q" using al by (auto elim!: dvdE simp: mod_eq_0_iff_dvd)
  with pa have qb: "q < 2 ^ 44" by simp
  have "push_bit 12 (drop_bit 10 (PA2PTE pa OR f))
      = push_bit 12 (drop_bit 10 (push_bit 10 (drop_bit 12 (of_nat pa :: u64))))"
    by (simp only: drop_PA2PTE [OF f])
  then have "PTE2PA (PA2PTE pa OR f)
      = unat (push_bit 12 (drop_bit 10 (push_bit 10 (drop_bit 12 (of_nat pa :: u64)))))"
    by (simp add: PTE2PA_def)
  also have "\<dots> = pa"
    using qb unfolding q
    by (simp add: unat_push_bit64 unat_drop_bit64 unat_of_nat64 del: of_nat_mult)
  finally show ?thesis .
qed

lemma unat_push_page: "unat (push_bit 12 w :: u64) mod 4096 = 0"
proof -
  have "unat (push_bit 12 w) = unat w * 4096 mod 18446744073709551616"
    by (simp add: unat_push_bit64)
  moreover have "(4096::nat) dvd 18446744073709551616" by simp
  ultimately show ?thesis by (simp only: mod_mod_cancel mod_mult_self2_is_0)
qed

lemma PTE2PA_aligned [simp]: "PTE2PA e mod 4096 = 0"
  unfolding PTE2PA_def by (rule unat_push_page)

end
