(* ===== verification/Kstring.thy ===== *)
theory Kstring
  imports Riscv
begin

text \<open>
  kernel/string.c. Routines that write take the memory and return it; routines that only read
  take the bytes behind a pointer as a function of the offset. Sizes are naturals (the callers
  pass at most a few megabytes), and \<open>strlen\<close>, whose loop ends only at a NUL byte, is a partial
  function. The last section proves each loop equal to the update it is meant to make:
  \<open>memset\<close> fills, \<open>memmove\<close> copies even when the two ranges overlap, \<open>strncmp\<close> compares the
  strings cut at \<open>n\<close>, \<open>safestrcpy\<close> always leaves a terminated string inside its buffer.
\<close>

section \<open>Definitions\<close>

primrec memset_loop :: "nat \<Rightarrow> mem \<Rightarrow> nat \<Rightarrow> u8 \<Rightarrow> nat \<Rightarrow> mem" where
  "memset_loop 0 m dst c i = m"
| "memset_loop (Suc k) m dst c i = memset_loop k (m(dst + i := c)) dst c (Suc i)"

definition memset :: "mem \<Rightarrow> nat \<Rightarrow> u8 \<Rightarrow> nat \<Rightarrow> mem" where
  "memset m dst c n = memset_loop n m dst c 0"

primrec memcmp :: "(nat \<Rightarrow> u8) \<Rightarrow> (nat \<Rightarrow> u8) \<Rightarrow> nat \<Rightarrow> int" where
  "memcmp s1 s2 0 = 0"
| "memcmp s1 s2 (Suc n) =
     (if s1 0 \<noteq> s2 0 then int (unat (s1 0)) - int (unat (s2 0))
      else memcmp (\<lambda>i. s1 (Suc i)) (\<lambda>i. s2 (Suc i)) n)"

primrec copy_forward :: "nat \<Rightarrow> mem \<Rightarrow> nat \<Rightarrow> nat \<Rightarrow> mem" where
  "copy_forward 0 m d s = m"
| "copy_forward (Suc n) m d s = copy_forward n (m(d := m s)) (Suc d) (Suc s)"

primrec copy_backward :: "nat \<Rightarrow> mem \<Rightarrow> nat \<Rightarrow> nat \<Rightarrow> mem" where
  "copy_backward 0 m d s = m"
| "copy_backward (Suc n) m d s = copy_backward n (m(d + n := m (s + n))) d s"

definition memmove :: "mem \<Rightarrow> nat \<Rightarrow> nat \<Rightarrow> nat \<Rightarrow> mem" where
  "memmove m dst src n =
     (if n = 0 then m
      else if src < dst \<and> src + n > dst then copy_backward n m dst src
      else copy_forward n m dst src)"

primrec strncmp :: "(nat \<Rightarrow> u8) \<Rightarrow> (nat \<Rightarrow> u8) \<Rightarrow> nat \<Rightarrow> int" where
  "strncmp p q 0 = 0"
| "strncmp p q (Suc n) =
     (if p 0 \<noteq> 0 \<and> p 0 = q 0 then strncmp (\<lambda>i. p (Suc i)) (\<lambda>i. q (Suc i)) n
      else int (unat (p 0)) - int (unat (q 0)))"

primrec strncpy_copy :: "nat \<Rightarrow> mem \<Rightarrow> nat \<Rightarrow> nat \<Rightarrow> mem \<times> nat \<times> nat" where
  "strncpy_copy 0 m s t = (m, s, 0)"
| "strncpy_copy (Suc n) m s t =
     (if m t \<noteq> 0 then strncpy_copy n (m(s := m t)) (Suc s) (Suc t)
      else (m(s := m t), Suc s, n))"

primrec strncpy_pad :: "nat \<Rightarrow> mem \<Rightarrow> nat \<Rightarrow> mem" where
  "strncpy_pad 0 m s = m"
| "strncpy_pad (Suc n) m s = strncpy_pad n (m(s := 0)) (Suc s)"

definition strncpy :: "mem \<Rightarrow> nat \<Rightarrow> nat \<Rightarrow> nat \<Rightarrow> mem" where
  "strncpy m s t n = (case strncpy_copy n m s t of (m', s', n') \<Rightarrow> strncpy_pad n' m' s')"

primrec safestrcpy_copy :: "nat \<Rightarrow> mem \<Rightarrow> nat \<Rightarrow> nat \<Rightarrow> mem \<times> nat" where
  "safestrcpy_copy 0 m s t = (m, s)"
| "safestrcpy_copy (Suc n) m s t =
     (if m t \<noteq> 0 then safestrcpy_copy n (m(s := m t)) (Suc s) (Suc t)
      else (m(s := m t), Suc s))"

definition safestrcpy :: "mem \<Rightarrow> nat \<Rightarrow> nat \<Rightarrow> nat \<Rightarrow> mem" where
  "safestrcpy m s t n =
     (if n \<le> 0 then m
      else case safestrcpy_copy (n - 1) m s t of (m', s') \<Rightarrow> m'(s' := 0))"

partial_function (option) strlen_from :: "(nat \<Rightarrow> u8) \<Rightarrow> nat \<Rightarrow> nat option" where
  "strlen_from s n = (if s n \<noteq> 0 then strlen_from s (Suc n) else Some n)"

definition strlen :: "(nat \<Rightarrow> u8) \<Rightarrow> nat option" where
  "strlen s = strlen_from s 0"

section \<open>The bytes of a C string\<close>

definition cstr :: "(nat \<Rightarrow> u8) \<Rightarrow> nat \<Rightarrow> u8 list" where
  "cstr p n = takeWhile (\<lambda>c. c \<noteq> 0) (map p [0..<n])"

lemma cstr_0 [simp]: "cstr p 0 = []"
  by (simp add: cstr_def)

lemma cstr_Suc: "cstr p (Suc n) = (if p 0 = 0 then [] else p 0 # cstr (\<lambda>i. p (Suc i)) n)"
proof -
  have "map p [0..<Suc n] = p 0 # map (\<lambda>i. p (Suc i)) [0..<n]"
    by (simp del: upt_Suc add: upt_conv_Cons map_Suc_upt [symmetric])
  then show ?thesis by (simp add: cstr_def)
qed

lemma cstr_cong: "(\<And>i. i < n \<Longrightarrow> p i = q i) \<Longrightarrow> cstr p n = cstr q n"
proof -
  assume "\<And>i. i < n \<Longrightarrow> p i = q i"
  then have "map p [0..<n] = map q [0..<n]" by (intro map_cong) auto
  then show ?thesis by (simp only: cstr_def)
qed

section \<open>What the loops compute\<close>

lemma memset_loop_eq:
  "memset_loop k m dst c i = (\<lambda>x. if dst + i \<le> x \<and> x < dst + i + k then c else m x)"
  by (induction k arbitrary: m i) (auto simp: fun_eq_iff)

lemma memset_eq [mem_simps]:
  "memset m dst c n = (\<lambda>x. if dst \<le> x \<and> x < dst + n then c else m x)"
  by (simp add: memset_def memset_loop_eq)

lemma copy_forward_eq:
  "\<not> (s < d \<and> d < s + n) \<Longrightarrow>
   copy_forward n m d s = (\<lambda>x. if d \<le> x \<and> x < d + n then m (s + (x - d)) else m x)"
proof (induction n arbitrary: m d s)
  case 0
  then show ?case by (auto simp: fun_eq_iff)
next
  case (Suc n)
  have "copy_forward n (m(d := m s)) (Suc d) (Suc s) =
      (\<lambda>x. if Suc d \<le> x \<and> x < Suc d + n then (m(d := m s)) (Suc s + (x - Suc d))
            else (m(d := m s)) x)"
    by (rule Suc.IH) (use Suc.prems in auto)
  also have "\<dots> = (\<lambda>x. if d \<le> x \<and> x < d + Suc n then m (s + (x - d)) else m x)"
  proof
    fix x
    show "(if Suc d \<le> x \<and> x < Suc d + n then (m(d := m s)) (Suc s + (x - Suc d))
            else (m(d := m s)) x) = (if d \<le> x \<and> x < d + Suc n then m (s + (x - d)) else m x)"
    proof (cases "Suc d \<le> x \<and> x < Suc d + n")
      case True
      then obtain k where k: "x = Suc d + k" "k < n"
        by (metis add_less_cancel_left le_Suc_ex)
      with Suc.prems show ?thesis by auto
    next
      case False
      then show ?thesis by auto
    qed
  qed
  finally show ?case by simp
qed

lemma copy_backward_eq:
  "s < d \<Longrightarrow> copy_backward n m d s = (\<lambda>x. if d \<le> x \<and> x < d + n then m (s + (x - d)) else m x)"
  by (induction n arbitrary: m) (auto simp: fun_eq_iff less_Suc_eq)

lemma memmove_eq [mem_simps]:
  "memmove m d s n = (\<lambda>x. if d \<le> x \<and> x < d + n then m (s + (x - d)) else m x)"
proof (cases "s < d \<and> d < s + n")
  case True
  then show ?thesis by (auto simp: memmove_def copy_backward_eq)
next
  case False
  then have "copy_forward n m d s = (\<lambda>x. if d \<le> x \<and> x < d + n then m (s + (x - d)) else m x)"
    by (rule copy_forward_eq)
  with False show ?thesis by (auto simp: memmove_def fun_eq_iff)
qed

lemma byte_diff_0: "int (unat (x :: u8)) - int (unat y) = 0 \<longleftrightarrow> x = y"
proof -
  have "int (unat x) - int (unat y) = 0 \<longleftrightarrow> unat x = unat y" by linarith
  then show ?thesis by (simp only: word_unat_eq_iff)
qed

lemma memcmp_0_iff: "memcmp p q n = 0 \<longleftrightarrow> (\<forall>i < n. p i = q i)"
proof (induction n arbitrary: p q)
  case 0
  then show ?case by simp
next
  case (Suc n)
  show ?case
    by (cases "p 0 = q 0") (use byte_diff_0 [of "p 0" "q 0"] in \<open>auto simp: Suc.IH All_less_Suc2\<close>)
qed

lemma strncmp_0_iff: "strncmp p q n = 0 \<longleftrightarrow> cstr p n = cstr q n"
proof (induction n arbitrary: p q)
  case 0
  then show ?case by simp
next
  case (Suc n)
  show ?case
    by (cases "p 0 = q 0") (use byte_diff_0 [of "p 0" "q 0"] in \<open>auto simp: Suc.IH cstr_Suc\<close>)
qed

lemma strlen_from_eq:
  "s k = 0 \<Longrightarrow> n \<le> k \<Longrightarrow> (\<And>i. n \<le> i \<Longrightarrow> i < k \<Longrightarrow> s i \<noteq> 0) \<Longrightarrow> strlen_from s n = Some k"
proof (induction "k - n" arbitrary: n)
  case 0
  then show ?case by (simp add: strlen_from.simps)
next
  case (Suc d)
  then have "strlen_from s (Suc n) = Some k" by (intro Suc.hyps(1)) auto
  moreover have "s n \<noteq> 0" using Suc by auto
  ultimately show ?case by (simp add: strlen_from.simps)
qed

lemma strlen_eq: "s k = 0 \<Longrightarrow> (\<And>i. i < k \<Longrightarrow> s i \<noteq> 0) \<Longrightarrow> strlen s = Some k"
  unfolding strlen_def by (rule strlen_from_eq) auto

lemma cstr_eqI:
  assumes "length xs < n" "\<And>i. i < length xs \<Longrightarrow> p i = xs ! i" "p (length xs) = 0" "0 \<notin> set xs"
  shows "cstr p n = xs"
  using assms
proof (induction xs arbitrary: p n)
  case Nil
  then obtain k where "n = Suc k" by (cases n) auto
  with Nil show ?case by (simp add: cstr_Suc)
next
  case (Cons x xs)
  then obtain k where k: "n = Suc k" by (cases n) auto
  have "cstr (\<lambda>i. p (Suc i)) k = xs"
  proof (rule Cons.IH)
    fix i assume "i < length xs"
    then show "p (Suc i) = xs ! i" using Cons.prems(2) [of "Suc i"] by simp
  qed (use Cons.prems k in auto)
  moreover have "p 0 = x" using Cons.prems(2) [of 0] by simp
  ultimately show ?case using Cons.prems(4) by (simp add: k cstr_Suc)
qed

lemma cstr_no_nul: "0 \<notin> set (cstr p n)"
  by (auto simp: cstr_def dest: set_takeWhileD)

lemma length_cstr: "length (cstr p n) \<le> n"
  unfolding cstr_def by (rule order_trans [OF length_takeWhile_le]) simp

lemma cstr_nth: "i < length (cstr p n) \<Longrightarrow> cstr p n ! i = p i"
proof -
  assume i: "i < length (cstr p n)"
  then have "i < n" using length_cstr [of p n] by simp
  moreover have "cstr p n ! i = map p [0..<n] ! i"
    using i unfolding cstr_def by (rule takeWhile_nth)
  ultimately show ?thesis by simp
qed

lemma safestrcpy_copy_spec:
  assumes "safestrcpy_copy k m s t = (m', s')" "s + k \<le> t \<or> t + k \<le> s"
  defines "L \<equiv> length (cstr (\<lambda>i. m (t + i)) k)"
  shows "s + L \<le> s' \<and> s' \<le> s + k \<and> (\<forall>x. x < s \<or> s' \<le> x \<longrightarrow> m' x = m x)
    \<and> (\<forall>i < L. m' (s + i) = m (t + i)) \<and> (s' = s + L \<or> m' (s + L) = 0)"
  using assms(1,2) unfolding L_def
proof (induction k arbitrary: m s t)
  case 0
  then show ?case by auto
next
  case (Suc k)
  show ?case
  proof (cases "m t = 0")
    case True
    with Suc.prems show ?thesis by (auto simp: cstr_Suc)
  next
    case False
    let ?m = "m(s := m t)"
    let ?L = "length (cstr (\<lambda>i. m (Suc t + i)) k)"
    have same: "cstr (\<lambda>i. ?m (Suc t + i)) k = cstr (\<lambda>i. m (Suc t + i)) k"
      using Suc.prems(2) by (intro cstr_cong) auto
    have "safestrcpy_copy k ?m (Suc s) (Suc t) = (m', s')"
      using Suc.prems(1) False by simp
    moreover have "Suc s + k \<le> Suc t \<or> Suc t + k \<le> Suc s" using Suc.prems(2) by auto
    ultimately have IH: "Suc s + ?L \<le> s' \<and> s' \<le> Suc s + k \<and> (\<forall>x. x < Suc s \<or> s' \<le> x \<longrightarrow> m' x = ?m x)
        \<and> (\<forall>i < ?L. m' (Suc s + i) = ?m (Suc t + i)) \<and> (s' = Suc s + ?L \<or> m' (Suc s + ?L) = 0)"
      using Suc.IH [of ?m "Suc s" "Suc t", unfolded same] by blast
    have at: "m' (Suc s + i) = m (Suc t + i)" if "i < ?L" for i
    proof -
      have "i < k" using that length_cstr [of "\<lambda>i. m (Suc t + i)" k] by simp
      then have "Suc t + i \<noteq> s" using Suc.prems(2) by auto
      then show ?thesis using IH that by simp
    qed
    have L: "length (cstr (\<lambda>i. m (t + i)) (Suc k)) = Suc ?L"
      using False by (simp add: cstr_Suc)
    have "m' s = m t" using IH by simp
    then have "\<forall>i < Suc ?L. m' (s + i) = m (t + i)"
      using at by (simp add: All_less_Suc2)
    moreover have "\<forall>x. x < s \<or> s' \<le> x \<longrightarrow> m' x = m x" using IH by auto
    ultimately show ?thesis using IH unfolding L by simp
  qed
qed

lemma safestrcpy_cstr:
  assumes n: "0 < n" and dis: "s + n \<le> t \<or> t + n \<le> s"
  shows "cstr (\<lambda>i. safestrcpy m s t n (s + i)) n = cstr (\<lambda>i. m (t + i)) (n - 1)"
proof -
  obtain m' s' where c: "safestrcpy_copy (n - 1) m s t = (m', s')" by fastforce
  let ?c = "cstr (\<lambda>i. m (t + i)) (n - 1)"
  have "s + (n - 1) \<le> t \<or> t + (n - 1) \<le> s" using dis by auto
  note spec = safestrcpy_copy_spec [OF c this]
  have res: "safestrcpy m s t n = m'(s' := 0)" using n c by (simp add: safestrcpy_def)
  show ?thesis
  proof (rule cstr_eqI)
    show "length ?c < n" using n length_cstr [of "\<lambda>i. m (t + i)" "n - 1"] by simp
    show "safestrcpy m s t n (s + i) = ?c ! i" if "i < length ?c" for i
      using spec that by (simp add: res cstr_nth)
    show "safestrcpy m s t n (s + length ?c) = 0" using spec by (auto simp: res)
    show "0 \<notin> set ?c" by (rule cstr_no_nul)
  qed
qed

lemma safestrcpy_frame:
  assumes dis: "s + n \<le> t \<or> t + n \<le> s" and x: "x < s \<or> s + n \<le> x"
  shows "safestrcpy m s t n x = m x"
proof (cases "n = 0")
  case True
  then show ?thesis by (simp add: safestrcpy_def)
next
  case False
  obtain m' s' where c: "safestrcpy_copy (n - 1) m s t = (m', s')" by fastforce
  have "s + (n - 1) \<le> t \<or> t + (n - 1) \<le> s" using dis by auto
  note spec = safestrcpy_copy_spec [OF c this]
  have "s' \<le> s + (n - 1)" using spec by blast
  then have far: "x < s \<or> s' \<le> x" "x \<noteq> s'" using x False spec by linarith+
  have "m' x = m x" using spec far(1) by blast
  with far(2) show ?thesis using False c by (simp add: safestrcpy_def)
qed

lemma strncpy_pad_eq:
  "strncpy_pad n m s = (\<lambda>x. if s \<le> x \<and> x < s + n then 0 else m x)"
  by (induction n arbitrary: m s) (auto simp: fun_eq_iff)

text \<open>The buffer \<open>strncpy\<close> fills holds the string cut at \<open>n\<close> bytes and padded with NULs.\<close>

lemma strncpy_spec:
  "s + n \<le> t \<or> t + n \<le> s \<Longrightarrow> strncpy m s t n =
     (\<lambda>x. if s \<le> x \<and> x < s + n then
            (if x - s < length (cstr (\<lambda>i. m (t + i)) n) then m (t + (x - s)) else 0) else m x)"
proof (induction n arbitrary: m s t)
  case 0
  show ?case by (rule ext) (auto simp: strncpy_def)
next
  case (Suc n)
  show ?case
  proof (cases "m t = 0")
    case True
    then have "strncpy m s t (Suc n) = (\<lambda>x. if s \<le> x \<and> x < s + Suc n then 0 else m x)"
      by (intro ext) (simp add: strncpy_def strncpy_pad_eq)
    moreover have "cstr (\<lambda>i. m (t + i)) (Suc n) = []" using True by (simp add: cstr_Suc)
    ultimately show ?thesis by (simp only: list.size if_False not_less_zero)
  next
    case False
    let ?m = "m(s := m t)"
    let ?L = "length (cstr (\<lambda>i. m (Suc t + i)) n)"
    have same: "cstr (\<lambda>i. ?m (Suc t + i)) n = cstr (\<lambda>i. m (Suc t + i)) n"
      using Suc.prems by (intro cstr_cong) auto
    have "strncpy m s t (Suc n) = strncpy ?m (Suc s) (Suc t) n"
      using False by (simp add: strncpy_def)
    also have "\<dots> = (\<lambda>x. if Suc s \<le> x \<and> x < Suc s + n then
            (if x - Suc s < ?L then ?m (Suc t + (x - Suc s)) else 0) else ?m x)"
    proof -
      have "Suc s + n \<le> Suc t \<or> Suc t + n \<le> Suc s" using Suc.prems by auto
      from Suc.IH [OF this, of ?m] show ?thesis by (simp only: same)
    qed
    also have "\<dots> = (\<lambda>x. if s \<le> x \<and> x < s + Suc n then
            (if x - s < Suc ?L then m (t + (x - s)) else 0) else m x)"
    proof
      fix x
      show "(if Suc s \<le> x \<and> x < Suc s + n then
            (if x - Suc s < ?L then ?m (Suc t + (x - Suc s)) else 0) else ?m x) =
          (if s \<le> x \<and> x < s + Suc n then (if x - s < Suc ?L then m (t + (x - s)) else 0) else m x)"
      proof (cases "Suc s \<le> x \<and> x < Suc s + n")
        case True
        then obtain k where k: "x = Suc s + k" "k < n"
          by (metis add_less_cancel_left le_Suc_ex)
        then have "Suc t + k \<noteq> s" using Suc.prems by auto
        with k show ?thesis by simp
      next
        case False
        then show ?thesis by auto
      qed
    qed
    also have "Suc ?L = length (cstr (\<lambda>i. m (t + i)) (Suc n))"
      using False by (simp add: cstr_Suc)
    finally show ?thesis .
  qed
qed

end
