(* ===== verification/Kalloc.thy ===== *)
theory Kalloc
  imports Kstring
begin

text \<open>
  kernel/kalloc.c: the buddy allocator for physical pages.

  The state \<open>kmem\<close> is the anonymous struct \<open>buddy\<close> with the array \<open>page_state\<close>, the linker
  symbol \<open>end\<close> and physical memory. A free block starts with a \<open>struct run\<close> (next pointer at
  offset 0, previous pointer at 8, order at 16) stored in the free memory itself, as in the
  code. The spinlock around each entry point makes it one atomic step.

  \<open>buddy_inv\<close> says that the free lists are well-formed doubly linked lists of exactly the
  blocks that \<open>page_state\<close> marks free, that free blocks are aligned and disjoint, and that no
  two free buddies are left unmerged.
\<close>

section \<open>Definitions\<close>

definition MIN_ORDER :: nat where "MIN_ORDER = 0"
definition MAX_ORDER :: nat where "MAX_ORDER = 15"
definition HUGE_ORDER :: nat where "HUGE_ORDER = HUGEPGORDER"
definition NPAGES :: nat where "NPAGES = (PHYSTOP - KERNBASE) div PGSIZE"
definition PAGE_STATE_ALLOC :: int where "PAGE_STATE_ALLOC = -1"

lemmas kalloc_consts [simp] =
  MIN_ORDER_def MAX_ORDER_def HUGE_ORDER_def NPAGES_def PAGE_STATE_ALLOC_def

record kmem =
  pmem :: mem
  freelist :: "nat \<Rightarrow> nat"
  base :: nat
  limit :: nat
  page_state :: "nat \<Rightarrow> int"
  kend :: nat

definition run_next :: "mem \<Rightarrow> nat \<Rightarrow> nat" where "run_next m r = ld_le 8 m r"
definition run_prev :: "mem \<Rightarrow> nat \<Rightarrow> nat" where "run_prev m r = ld_le 8 m (r + 8)"
definition run_order :: "mem \<Rightarrow> nat \<Rightarrow> nat" where "run_order m r = ld_le 4 m (r + 16)"
definition set_next :: "mem \<Rightarrow> nat \<Rightarrow> nat \<Rightarrow> mem" where "set_next m r v = st_le 8 m r v"
definition set_prev :: "mem \<Rightarrow> nat \<Rightarrow> nat \<Rightarrow> mem" where "set_prev m r v = st_le 8 m (r + 8) v"
definition set_order :: "mem \<Rightarrow> nat \<Rightarrow> nat \<Rightarrow> mem" where "set_order m r v = st_le 4 m (r + 16) v"

definition order_size :: "nat \<Rightarrow> nat" where
  "order_size order = PGSIZE * 2 ^ order"

definition pa_to_index :: "nat \<Rightarrow> kmem \<Rightarrow> nat res" where
  "pa_to_index pa s =
     (if pa < base s \<or> pa \<ge> limit s then Panic ''pa_to_index''
      else Ok ((pa - base s) div PGSIZE))"

definition set_page_state :: "nat \<Rightarrow> int \<Rightarrow> kmem \<Rightarrow> kmem" where
  "set_page_state i v s = s\<lparr>page_state := (page_state s)(i := v)\<rparr>"

definition list_insert :: "nat \<Rightarrow> nat \<Rightarrow> kmem \<Rightarrow> kmem" where
  "list_insert order r s =
     (let m1 = set_order (pmem s) r order;
          m2 = set_prev m1 r 0;
          m3 = set_next m2 r (freelist s order);
          m4 = (if run_next m3 r \<noteq> 0 then set_prev m3 (run_next m3 r) r else m3)
      in s\<lparr>pmem := m4, freelist := (freelist s)(order := r)\<rparr>)"

definition list_remove :: "nat \<Rightarrow> nat \<Rightarrow> kmem \<Rightarrow> kmem" where
  "list_remove order r s =
     (let m = pmem s;
          m1 = (if run_prev m r \<noteq> 0 then set_next m (run_prev m r) (run_next m r) else m);
          fl = (if run_prev m r \<noteq> 0 then freelist s
                else if freelist s order = r then (freelist s)(order := run_next m r)
                else freelist s);
          m2 = (if run_next m1 r \<noteq> 0 then set_prev m1 (run_next m1 r) (run_prev m1 r) else m1);
          m3 = set_next (set_prev m2 r 0) r 0
      in s\<lparr>pmem := m3, freelist := fl\<rparr>)"

text \<open>The coalescing loop of \<open>buddy_free_locked\<close>: it returns the block to insert.\<close>

function buddy_merge :: "nat \<Rightarrow> nat \<Rightarrow> nat \<Rightarrow> kmem \<Rightarrow> (nat \<times> nat \<times> nat \<times> kmem) res" where
  "buddy_merge pa idx order s =
     (if order < MAX_ORDER then
        (let offset = sub64 pa (base s);
             buddy_off = offset XOR order_size order;
             buddy_pa = add64 (base s) buddy_off
         in if buddy_pa < base s \<or> add64 buddy_pa (order_size order) > limit s
            then Ok (pa, idx, order, s)
            else bindR (pa_to_index buddy_pa s) (\<lambda>buddy_idx.
              if page_state s buddy_idx \<noteq> int order then Ok (pa, idx, order, s)
              else let s1 = list_remove order buddy_pa s;
                       s2 = set_page_state buddy_idx PAGE_STATE_ALLOC s1;
                       pa' = (if buddy_pa < pa then buddy_pa else pa)
                   in bindR (pa_to_index pa' s2) (\<lambda>idx'. buddy_merge pa' idx' (Suc order) s2)))
      else Ok (pa, idx, order, s))"
  by pat_completeness auto
termination
  by (relation "measure (\<lambda>(pa, idx, order, s). MAX_ORDER - order)") auto

declare buddy_merge.simps [simp del]

definition buddy_free_locked :: "nat \<Rightarrow> nat \<Rightarrow> kmem \<Rightarrow> kmem res" where
  "buddy_free_locked pa order s =
     (if order < MIN_ORDER \<or> order > MAX_ORDER then Panic ''buddy_free_locked order''
      else if pa mod order_size order \<noteq> 0 then Panic ''buddy_free_locked align''
      else bindR (pa_to_index pa s) (\<lambda>idx.
        if page_state s idx \<noteq> PAGE_STATE_ALLOC then Panic ''buddy double free''
        else bindR (buddy_merge pa idx order s) (\<lambda>(pa', idx', order', s').
          Ok (set_page_state idx' (int order') (list_insert order' pa' s')))))"

text \<open>The splitting loop of \<open>buddy_alloc_locked\<close>: give back the upper halves.\<close>

fun buddy_split :: "nat \<Rightarrow> nat \<Rightarrow> nat \<Rightarrow> kmem \<Rightarrow> kmem res" where
  "buddy_split r order current s =
     (if current > order then
        (let current' = current - 1;
             pa = add64 r (order_size current');
             s1 = list_insert current' pa s
         in bindR (pa_to_index pa s1) (\<lambda>i.
              buddy_split r order current' (set_page_state i (int current') s1)))
      else Ok s)"

declare buddy_split.simps [simp del]

function buddy_scan :: "nat \<Rightarrow> nat \<Rightarrow> kmem \<Rightarrow> (nat \<times> kmem) res" where
  "buddy_scan order current s =
     (if current \<le> MAX_ORDER then
        (let r = freelist s current in
         if r = 0 then buddy_scan order (Suc current) s
         else let s1 = list_remove current r s in
           bindR (pa_to_index r s1) (\<lambda>i.
           bindR (buddy_split r order current (set_page_state i PAGE_STATE_ALLOC s1)) (\<lambda>s2.
             Ok (r, s2\<lparr>pmem := memset (pmem s2) r 5 (order_size order)\<rparr>))))
      else Ok (0, s))"
  by pat_completeness auto
termination
  by (relation "measure (\<lambda>(order, current, s). Suc MAX_ORDER - current)") auto

declare buddy_scan.simps [simp del]

definition buddy_alloc_locked :: "nat \<Rightarrow> kmem \<Rightarrow> (nat \<times> kmem) res" where
  "buddy_alloc_locked order s =
     (if order < MIN_ORDER \<or> order > MAX_ORDER then Panic ''buddy_alloc_locked order''
      else buddy_scan order order s)"

definition kfree :: "nat \<Rightarrow> kmem \<Rightarrow> kmem res" where
  "kfree pa s =
     (if pa mod PGSIZE \<noteq> 0 \<or> pa < kend s \<or> pa \<ge> limit s then Panic ''kfree''
      else buddy_free_locked pa MIN_ORDER (s\<lparr>pmem := memset (pmem s) pa 1 PGSIZE\<rparr>))"

definition kalloc :: "kmem \<Rightarrow> (nat \<times> kmem) res" where
  "kalloc s = buddy_alloc_locked MIN_ORDER s"

definition kalloc_huge :: "kmem \<Rightarrow> (nat \<times> kmem) res" where
  "kalloc_huge s = buddy_alloc_locked HUGE_ORDER s"

definition kfree_huge :: "nat \<Rightarrow> kmem \<Rightarrow> kmem res" where
  "kfree_huge pa s =
     (if pa mod HUGEPGSIZE \<noteq> 0 \<or> pa < base s \<or> add64 pa HUGEPGSIZE > limit s
      then Panic ''kfree_huge''
      else buddy_free_locked pa HUGE_ORDER (s\<lparr>pmem := memset (pmem s) pa 1 HUGEPGSIZE\<rparr>))"

text \<open>The largest order at which a block starting at \<open>start\<close> fits below \<open>end\<close>.\<close>

fun range_order :: "nat \<Rightarrow> nat \<Rightarrow> nat \<Rightarrow> nat" where
  "range_order start stop order =
     (if order > MIN_ORDER then
        (if start mod order_size order = 0 \<and> start + order_size order \<le> stop then order
         else range_order start stop (order - 1))
      else order)"

declare range_order.simps [simp del]

lemma order_size_pos [simp]: "0 < order_size k"
  by (simp add: order_size_def)

function add_range_loop :: "nat \<Rightarrow> nat \<Rightarrow> kmem \<Rightarrow> kmem res" where
  "add_range_loop start stop s =
     (if start + PGSIZE \<le> stop then
        (let order = range_order start stop MAX_ORDER;
             sz = order_size order
         in bindR (buddy_free_locked start order s) (\<lambda>s'. add_range_loop (start + sz) stop s'))
      else Ok s)"
  by pat_completeness auto
termination
  by (relation "measure (\<lambda>(start, stop, s). stop - start)") (auto simp: diff_less_mono2)

declare add_range_loop.simps [simp del]

definition buddy_add_range :: "nat \<Rightarrow> nat \<Rightarrow> kmem \<Rightarrow> kmem res" where
  "buddy_add_range start stop s =
     (if start \<ge> stop then Ok s
      else add_range_loop (PGROUNDUP start) (PGROUNDDOWN stop) s)"

definition kinit :: "kmem \<Rightarrow> kmem res" where
  "kinit s =
     (let s1 = s\<lparr>base := KERNBASE, limit := PHYSTOP,
                 freelist := (\<lambda>i. if i \<le> MAX_ORDER then 0 else freelist s i),
                 page_state := (\<lambda>i. if i < NPAGES then PAGE_STATE_ALLOC else page_state s i)\<rparr>;
          managed_start = PGROUNDUP (kend s1)
      in buddy_add_range managed_start (limit s1) s1)"

end
