(* ===== verification/Kalloc_Inv.thy ===== *)
theory Kalloc_Inv
  imports Kalloc
begin

text \<open>
  Correctness of the buddy allocator of \<open>Kalloc\<close>. Pages are numbered from \<open>KERNBASE\<close>;
  \<open>head_at s i k\<close> says that page \<open>i\<close> heads a free block of order \<open>k\<close> and \<open>freepages s\<close> is the set
  of free pages. \<open>remove_head\<close> and \<open>insert_head\<close> describe the two block operations; every entry
  point is a sequence of them.
\<close>

section \<open>The fields of a \<open>struct run\<close>\<close>

definition pg_ok :: "nat \<Rightarrow> bool" where
  "pg_ok p \<longleftrightarrow> p mod 4096 = 0 \<and> p < 2 ^ 64"

lemma field_far:
  assumes "pg_ok r" "pg_ok x" "r \<noteq> x"
  shows "r + 4096 \<le> x \<or> x + 4096 \<le> r"
  using assms aligned_disjoint [of r 4096 x] by (auto simp: pg_ok_def)

lemma run_fields [mem_simps]:
  assumes "pg_ok r" "pg_ok x"
  shows "v < 2 ^ 64 \<Longrightarrow> run_next (set_next m r v) x = (if x = r then v else run_next m x)"
    and "run_next (set_prev m r v) x = run_next m x"
    and "run_next (set_order m r v) x = run_next m x"
    and "v < 2 ^ 64 \<Longrightarrow> run_prev (set_prev m r v) x = (if x = r then v else run_prev m x)"
    and "run_prev (set_next m r v) x = run_prev m x"
    and "run_prev (set_order m r v) x = run_prev m x"
proof -
  have far: "r \<noteq> x \<Longrightarrow> r + 4096 \<le> x \<or> x + 4096 \<le> r" using field_far assms by blast
  show "run_next (set_next m r v) x = (if x = r then v else run_next m x)" if "v < 2 ^ 64"
    using far that by (auto simp: run_next_def set_next_def ld_st_8_same intro!: ld_st_other)
  show "run_next (set_prev m r v) x = run_next m x"
    using far by (cases "x = r") (auto simp: run_next_def set_prev_def intro!: ld_st_other)
  show "run_next (set_order m r v) x = run_next m x"
    using far by (cases "x = r") (auto simp: run_next_def set_order_def intro!: ld_st_other)
  show "run_prev (set_prev m r v) x = (if x = r then v else run_prev m x)" if "v < 2 ^ 64"
    using far that by (auto simp: run_prev_def set_prev_def ld_st_8_same intro!: ld_st_other)
  show "run_prev (set_next m r v) x = run_prev m x"
    using far by (cases "x = r") (auto simp: run_prev_def set_next_def intro!: ld_st_other)
  show "run_prev (set_order m r v) x = run_prev m x"
    using far by (cases "x = r") (auto simp: run_prev_def set_order_def intro!: ld_st_other)
qed

lemma run_ptr_less [simp]:
  "run_next m r < 18446744073709551616" "run_prev m r < 18446744073709551616"
  by (simp_all add: run_next_def run_prev_def)

lemma run_fields_frame:
  assumes "x < r \<or> r + 4096 \<le> x"
  shows "set_next m r v x = m x" "set_prev m r v x = m x" "set_order m r v x = m x"
  using assms by (auto simp: set_next_def set_prev_def set_order_def intro!: st_le_outside)

section \<open>Doubly linked lists\<close>

text \<open>
  \<open>dseg m p h xs q e\<close>: from pointer \<open>h\<close>, whose predecessor is \<open>p\<close>, the nodes \<open>xs\<close> lead to pointer
  \<open>e\<close>, whose predecessor is \<open>q\<close>.
\<close>

primrec dseg :: "mem \<Rightarrow> nat \<Rightarrow> nat \<Rightarrow> nat list \<Rightarrow> nat \<Rightarrow> nat \<Rightarrow> bool" where
  "dseg m p h [] q e \<longleftrightarrow> p = q \<and> h = e"
| "dseg m p h (x # xs) q e \<longleftrightarrow>
     h = x \<and> x \<noteq> 0 \<and> pg_ok x \<and> run_prev m x = p \<and> dseg m x (run_next m x) xs q e"

definition dll :: "mem \<Rightarrow> nat \<Rightarrow> nat list \<Rightarrow> bool" where
  "dll m h xs \<longleftrightarrow> (\<exists>q. dseg m 0 h xs q 0)"

lemma dseg_append:
  "dseg m p h (xs @ ys) q e \<longleftrightarrow> (\<exists>q' e'. dseg m p h xs q' e' \<and> dseg m q' e' ys q e)"
  by (induction xs arbitrary: p h) auto

lemma dseg_cong:
  "(\<And>x. x \<in> set xs \<Longrightarrow> run_next m x = run_next m' x \<and> run_prev m x = run_prev m' x) \<Longrightarrow>
   dseg m p h xs q e = dseg m' p h xs q e"
  by (induction xs arbitrary: p h) auto

lemma dseg_pg_ok: "dseg m p h xs q e \<Longrightarrow> x \<in> set xs \<Longrightarrow> pg_ok x \<and> x \<noteq> 0"
  by (induction xs arbitrary: p h) auto

lemma dseg_head: "dseg m p h (x # xs) q e \<Longrightarrow> h = x"
  by simp

lemma dseg_last: "dseg m p h xs q e \<Longrightarrow> xs \<noteq> [] \<Longrightarrow> q = last xs"
  by (induction xs arbitrary: p h) auto

lemma dseg_set_prev:
  assumes "dseg m p x (x # xs) q e" "distinct (x # xs)" "p' < 2 ^ 64"
  shows "dseg (set_prev m x p') p' x (x # xs) q e"
proof -
  from assms have h: "pg_ok x" "x \<noteq> 0" "dseg m x (run_next m x) xs q e" "x \<notin> set xs" by auto
  have "dseg (set_prev m x p') x (run_next m x) xs q e = dseg m x (run_next m x) xs q e"
    using h assms(3) dseg_pg_ok [OF h(3)] by (intro dseg_cong) (auto simp: run_fields)
  with h assms(3) show ?thesis by (auto simp: run_fields)
qed

lemma dseg_set_next:
  assumes "dseg m p h xs q e" "xs \<noteq> []" "distinct xs" "e' < 2 ^ 64"
  shows "dseg (set_next m q e') p h xs q e'"
proof -
  from assms(2) obtain ys where ys: "xs = ys @ [q]"
    using dseg_last [OF assms(1,2)] by (metis append_butlast_last_id)
  with assms(1) obtain q' e'' where 1: "dseg m p h ys q' e''" "dseg m q' e'' [q] q e"
    by (auto simp: dseg_append)
  have "dseg (set_next m q e') p h ys q' e'' = dseg m p h ys q' e''"
    using 1 assms(3,4) ys dseg_pg_ok [OF 1(1)] by (intro dseg_cong) (auto simp: run_fields)
  with 1 assms(4) show ?thesis unfolding ys by (auto simp: dseg_append run_fields)
qed

lemma dll_pg_ok: "dll m h xs \<Longrightarrow> x \<in> set xs \<Longrightarrow> pg_ok x \<and> x \<noteq> 0"
  by (auto simp: dll_def dest: dseg_pg_ok)

lemma dll_cong:
  "(\<And>x. x \<in> set xs \<Longrightarrow> run_next m x = run_next m' x \<and> run_prev m x = run_prev m' x) \<Longrightarrow>
   dll m h xs = dll m' h xs"
  unfolding dll_def by (metis dseg_cong)

lemma dll_head_cases:
  "dll m h xs \<Longrightarrow> (xs = [] \<and> h = 0) \<or> (\<exists>ys. xs = h # ys \<and> h \<noteq> 0)"
  by (cases xs) (auto simp: dll_def)

lemma dll_insert:
  assumes l: "dll (pmem s) (freelist s k) xs" and d: "distinct xs"
    and r: "pg_ok r" "r \<noteq> 0" "r \<notin> set xs"
  shows "dll (pmem (list_insert k r s)) r (r # xs)"
proof -
  let ?m = "pmem s" and ?h = "freelist s k"
  let ?m3 = "set_next (set_prev (set_order ?m r k) r 0) r ?h"
  have ok: "\<And>x. x \<in> set xs \<Longrightarrow> pg_ok x \<and> x \<noteq> r" using dll_pg_ok [OF l] r by auto
  have h: "?h < 2 ^ 64" using dll_head_cases [OF l] ok by (auto simp: pg_ok_def)
  have "dll ?m3 ?h xs"
    using l ok h r by (subst dll_cong [where m' = ?m]) (auto simp: run_fields)
  then obtain q where m3: "dseg ?m3 0 ?h xs q 0" by (auto simp: dll_def)
  have nx: "run_next ?m3 r = ?h" "run_prev ?m3 r = 0" using r h by (auto simp: run_fields)
  show ?thesis
  proof (cases xs)
    case Nil
    with nx m3 r show ?thesis by (auto simp: list_insert_def dll_def)
  next
    case (Cons x ys)
    with m3 have hx: "?h = x" "x \<noteq> 0" by auto
    have "dseg (set_prev ?m3 x r) r x (x # ys) q 0"
      using m3 d r by (intro dseg_set_prev) (auto simp: Cons hx pg_ok_def)
    moreover have "run_next (set_prev ?m3 x r) r = x" "run_prev (set_prev ?m3 x r) r = 0"
      using nx ok [of x] r hx by (auto simp: Cons run_fields pg_ok_def)
    ultimately show ?thesis using hx nx r Cons
      by (auto simp: list_insert_def Let_def dll_def simp del: dseg.simps(2)) auto
  qed
qed

lemma dll_remove:
  assumes l: "dll (pmem s) (freelist s k) (xs @ r # ys)" and d: "distinct (xs @ r # ys)"
  shows "dll (pmem (list_remove k r s)) (freelist (list_remove k r s) k) (xs @ ys)"
proof -
  let ?m = "pmem s" and ?h = "freelist s k"
  from l obtain q p where xs: "dseg ?m 0 ?h xs p r" and pr: "run_prev ?m r = p"
    and ys: "dseg ?m r (run_next ?m r) ys q 0" and r: "pg_ok r" "r \<noteq> 0"
    by (auto simp: dll_def dseg_append)
  let ?n = "run_next ?m r"
  have n: "?n < 2 ^ 64" by simp
  have ok: "\<And>x. x \<in> set xs \<union> set ys \<Longrightarrow> pg_ok x \<and> x \<noteq> r \<and> x \<noteq> 0"
    using dseg_pg_ok [OF xs] dseg_pg_ok [OF ys] d by auto
  have p: "p = (if xs = [] then 0 else last xs)" using xs dseg_last by auto
  have pok: "p < 2 ^ 64" using p ok by (auto simp: pg_ok_def)
  let ?m1 = "if p \<noteq> 0 then set_next ?m p ?n else ?m"
  let ?h1 = "if p \<noteq> 0 then ?h else ?n"
  have p0: "p \<noteq> 0 \<longleftrightarrow> xs \<noteq> []" using p ok by auto
  have 1: "dseg ?m1 0 ?h1 xs p ?n" if "xs \<noteq> []"
    using dseg_set_next [OF xs that _ n] d that p0 by auto
  have 2: "dseg ?m1 r ?n ys q 0"
  proof (cases "xs = []")
    case False
    then have "p \<in> set xs" using p by auto
    then have "p \<notin> set ys" "pg_ok p" using d ok by auto
    then have "dseg (set_next ?m p ?n) r ?n ys q 0 = dseg ?m r ?n ys q 0"
      using n ok by (intro dseg_cong) (auto simp: run_fields)
    with ys show ?thesis by simp
  qed (use ys p0 in simp)
  have nx: "run_next ?m1 r = ?n" "run_prev ?m1 r = p"
    using p0 pr p ok r n by (auto simp: run_fields)
  let ?m2 = "if ?n \<noteq> 0 then set_prev ?m1 ?n p else ?m1"
  have 3: "dseg ?m2 0 ?h1 (xs @ ys) (if ys = [] then p else q) 0"
  proof (cases ys)
    case Nil
    with 2 have "?n = 0" by auto
    with 1 p0 p Nil show ?thesis by (cases "xs = []") auto
  next
    case (Cons y zs)
    with 2 have y: "?n = y" "y \<noteq> 0" by auto
    have y2: "dseg (set_prev ?m1 y p) p y (y # zs) q 0"
      using 2 d pok y unfolding Cons by (intro dseg_set_prev) auto
    show ?thesis
    proof (cases "xs = []")
      case True
      with y2 y p0 p Cons show ?thesis by auto
    next
      case False
      have "dseg (set_prev ?m1 y p) 0 ?h1 xs p y = dseg ?m1 0 ?h1 xs p y"
        using ok pok d Cons by (intro dseg_cong) (auto simp: run_fields)
      moreover have "dseg ?m1 0 ?h1 xs p y" using 1 [OF False] y by (simp only:)
      ultimately have "dseg (set_prev ?m1 y p) 0 ?h1 (xs @ y # zs) q 0"
        unfolding dseg_append using y2 by blast
      moreover have "?m2 = set_prev ?m1 y p" "ys \<noteq> []" using y Cons by simp_all
      ultimately show ?thesis unfolding Cons by (simp only: list.distinct if_False)
    qed
  qed
  have 4: "dseg (set_next (set_prev ?m2 r 0) r 0) 0 ?h1 (xs @ ys) (if ys = [] then p else q) 0"
    using 3 ok r by (subst dseg_cong [where m' = ?m2]) (auto simp: run_fields)
  have "pmem (list_remove k r s) = set_next (set_prev ?m2 r 0) r 0"
    by (simp only: list_remove_def Let_def pr nx) simp
  moreover have "freelist (list_remove k r s) k = ?h1"
    using p0 xs pr by (auto simp: list_remove_def Let_def)
  ultimately show ?thesis using 4 by (auto simp: dll_def)
qed

text \<open>Both list operations write only into the pages of the list and of the node itself.\<close>

definition outside :: "nat \<Rightarrow> nat set \<Rightarrow> bool" where
  "outside x P \<longleftrightarrow> (\<forall>p \<in> P. x < p \<or> p + 4096 \<le> x)"

lemma outside_Un [simp]: "outside x (P \<union> Q) \<longleftrightarrow> outside x P \<and> outside x Q"
  by (auto simp: outside_def)

lemma outside_insert [simp]: "outside x (insert p P) \<longleftrightarrow> (x < p \<or> p + 4096 \<le> x) \<and> outside x P"
  by (auto simp: outside_def)

lemma outside_mono: "outside x P \<Longrightarrow> Q \<subseteq> P \<Longrightarrow> outside x Q"
  by (auto simp: outside_def)

lemma list_insert_frame:
  assumes l: "dll (pmem s) (freelist s k) xs" and r: "pg_ok r"
    and x: "outside x (insert r (set xs))"
  shows "pmem (list_insert k r s) x = pmem s x"
proof -
  have h: "freelist s k = 0 \<or> freelist s k \<in> set xs \<and> pg_ok (freelist s k)"
    using dll_head_cases [OF l] dll_pg_ok [OF l] by auto
  then have "freelist s k < 2 ^ 64" by (auto simp: pg_ok_def)
  then have "run_next (set_next (set_prev (set_order (pmem s) r k) r 0) r (freelist s k)) r = freelist s k"
    using r by (simp add: run_fields)
  moreover have "freelist s k \<noteq> 0 \<Longrightarrow> x < freelist s k \<or> freelist s k + 4096 \<le> x"
    using h x by (auto simp: outside_def)
  ultimately show ?thesis using x
    by (simp add: list_insert_def Let_def run_fields_frame)
qed

lemma list_remove_frame:
  assumes l: "dll (pmem s) (freelist s k) (xs @ r # ys)" and d: "distinct (xs @ r # ys)"
    and x: "outside x (set (xs @ r # ys))"
  shows "pmem (list_remove k r s) x = pmem s x"
proof -
  let ?m = "pmem s"
  from l obtain q p where xs: "dseg ?m 0 (freelist s k) xs p r" and pr: "run_prev ?m r = p"
    and ys: "dseg ?m r (run_next ?m r) ys q 0" and r: "pg_ok r" "r \<noteq> 0"
    by (auto simp: dll_def dseg_append)
  have p: "p = 0 \<or> p \<in> set xs \<and> pg_ok p \<and> p \<noteq> r"
    using dseg_last [OF xs] dseg_pg_ok [OF xs] xs d by (cases "xs = []") auto
  have n: "run_next ?m r = 0 \<or> run_next ?m r \<in> set ys"
    using ys by (cases ys) auto
  have "run_next (if p \<noteq> 0 then set_next ?m p (run_next ?m r) else ?m) r = run_next ?m r"
    using p r by (auto simp: run_fields)
  note nx = this
  have "p \<noteq> 0 \<Longrightarrow> x < p \<or> p + 4096 \<le> x" "run_next ?m r \<noteq> 0 \<Longrightarrow>
      x < run_next ?m r \<or> run_next ?m r + 4096 \<le> x" "x < r \<or> r + 4096 \<le> x"
    using p n x by (auto simp: outside_def)
  then show ?thesis
    by (simp only: list_remove_def Let_def pr nx) (simp add: run_fields_frame)
qed

lemma dll_frame:
  assumes "dll m h zs" "\<And>x. outside x P \<Longrightarrow> m' x = m x" "\<And>z. z \<in> set zs \<Longrightarrow> z \<notin> P"
    "\<And>p. p \<in> P \<Longrightarrow> p mod 4096 = 0"
  shows "dll m' h zs"
proof -
  have "m' (z + i) = m (z + i)" if "z \<in> set zs" "i < 16" for z i
  proof (rule assms(2))
    have z: "z mod 4096 = 0" using dll_pg_ok [OF assms(1)] that by (simp add: pg_ok_def)
    have "z + i < p \<or> p + 4096 \<le> z + i" if "p \<in> P" for p
    proof -
      have "z \<noteq> p" using assms(3) [OF \<open>z \<in> set zs\<close>] that by auto
      from aligned_disjoint [OF z assms(4) [OF that] this] show ?thesis
        using \<open>i < 16\<close> by linarith
    qed
    then show "outside (z + i) P" by (simp add: outside_def)
  qed
  then have "run_next m' z = run_next m z \<and> run_prev m' z = run_prev m z" if "z \<in> set zs" for z
    unfolding run_next_def run_prev_def using that
    by (auto intro!: ld_le_cong simp: add.assoc)
  then show ?thesis using assms(1) by (metis dll_cong)
qed

section \<open>The invariant\<close>

definition pg :: "nat \<Rightarrow> nat" where
  "pg i = KERNBASE + 4096 * i"

definition head_at :: "kmem \<Rightarrow> nat \<Rightarrow> nat \<Rightarrow> bool" where
  "head_at s i k \<longleftrightarrow> i < NPAGES \<and> k \<le> MAX_ORDER \<and> page_state s i = int k"

definition blk :: "nat \<Rightarrow> nat \<Rightarrow> nat set" where
  "blk i k = {i ..< i + 2 ^ k}"

definition freepages :: "kmem \<Rightarrow> nat set" where
  "freepages s = (\<Union>(i, k) \<in> {(i, k). head_at s i k}. blk i k)"

definition lists_ok :: "kmem \<Rightarrow> bool" where
  "lists_ok s \<longleftrightarrow> (\<forall>k \<le> MAX_ORDER. \<exists>xs. dll (pmem s) (freelist s k) xs \<and> distinct xs
     \<and> set xs = pg ` {i. head_at s i k})"

definition heads_ok :: "kmem \<Rightarrow> bool" where
  "heads_ok s \<longleftrightarrow>
     (\<forall>i < NPAGES. page_state s i = PAGE_STATE_ALLOC \<or> (\<exists>k \<le> MAX_ORDER. page_state s i = int k)) \<and>
     (\<forall>i k. head_at s i k \<longrightarrow> i mod 2 ^ k = 0) \<and>
     (\<forall>i k j l. head_at s i k \<longrightarrow> head_at s j l \<longrightarrow> i \<noteq> j \<longrightarrow> blk i k \<inter> blk j l = {}) \<and>
     (\<forall>i k. head_at s i k \<longrightarrow> k < MAX_ORDER \<longrightarrow> \<not> head_at s (i XOR 2 ^ k) k)"

definition buddy_inv :: "kmem \<Rightarrow> bool" where
  "buddy_inv s \<longleftrightarrow> base s = KERNBASE \<and> limit s = PHYSTOP \<and> heads_ok s \<and> lists_ok s"

definition same_outside :: "nat set \<Rightarrow> kmem \<Rightarrow> kmem \<Rightarrow> bool" where
  "same_outside P s s' \<longleftrightarrow> (\<forall>x. outside x (pg ` P) \<longrightarrow> pmem s' x = pmem s x)"

lemma same_outside_refl [simp]: "same_outside P s s"
  by (simp add: same_outside_def)

lemma same_outside_trans:
  "same_outside P s t \<Longrightarrow> same_outside Q t u \<Longrightarrow> P \<subseteq> R \<Longrightarrow> Q \<subseteq> R \<Longrightarrow> same_outside R s u"
  unfolding same_outside_def by (metis image_mono outside_mono)

lemma pg_inj [simp]: "pg i = pg j \<longleftrightarrow> i = j"
  by (simp add: pg_def)

lemma pg_less [simp]: "pg i < pg j \<longleftrightarrow> i < j"
  by (simp add: pg_def)

lemma pg_aligned [simp]: "pg i mod 4096 = 0"
  by (simp add: pg_def)

lemma pg_pg_ok: "i < NPAGES \<Longrightarrow> pg_ok (pg i) \<and> pg i \<noteq> 0"
  by (simp add: pg_ok_def) (simp add: pg_def)

lemma head_at_fun: "head_at s i k \<Longrightarrow> head_at s i l \<Longrightarrow> k = l"
  by (simp add: head_at_def)

lemma in_blk [simp]: "i \<in> blk i k"
  by (simp add: blk_def)

lemma head_in_free: "head_at s i k \<Longrightarrow> blk i k \<subseteq> freepages s"
  by (auto simp: freepages_def)

lemma pa_to_index_pg:
  assumes "base s = KERNBASE" "limit s = PHYSTOP" "i < NPAGES"
  shows "pa_to_index (pg i) s = Ok i"
  using assms by (simp add: pa_to_index_def pg_def)

section \<open>Taking a block off its list and putting one on\<close>

lemma list_op_simps [simp]:
  "page_state (list_remove k r s) = page_state s" "base (list_remove k r s) = base s"
  "limit (list_remove k r s) = limit s" "kend (list_remove k r s) = kend s"
  "page_state (list_insert k r s) = page_state s" "base (list_insert k r s) = base s"
  "limit (list_insert k r s) = limit s" "kend (list_insert k r s) = kend s"
  "freelist (list_insert k r s) = (freelist s)(k := r)"
  "j \<noteq> k \<Longrightarrow> freelist (list_remove k r s) j = freelist s j"
  by (simp_all add: list_remove_def list_insert_def Let_def)

lemma set_page_state_simps [simp]:
  "pmem (set_page_state i v s) = pmem s" "freelist (set_page_state i v s) = freelist s"
  "base (set_page_state i v s) = base s" "limit (set_page_state i v s) = limit s"
  "kend (set_page_state i v s) = kend s"
  "page_state (set_page_state i v s) = (page_state s)(i := v)"
  by (simp_all add: set_page_state_def)

lemma lists_okD:
  assumes "lists_ok s" "k \<le> MAX_ORDER"
  obtains xs where "dll (pmem s) (freelist s k) xs" "distinct xs" "set xs = pg ` {i. head_at s i k}"
  using assms unfolding lists_ok_def by blast

definition take_head :: "nat \<Rightarrow> nat \<Rightarrow> kmem \<Rightarrow> kmem" where
  "take_head i k s = set_page_state i PAGE_STATE_ALLOC (list_remove k (pg i) s)"

definition put_head :: "nat \<Rightarrow> nat \<Rightarrow> kmem \<Rightarrow> kmem" where
  "put_head i k s = set_page_state i (int k) (list_insert k (pg i) s)"

lemma page_state_take: "page_state (take_head i k s) = (page_state s)(i := PAGE_STATE_ALLOC)"
  by (simp add: take_head_def)

lemma head_at_take [simp]: "head_at (take_head i k s) j l \<longleftrightarrow> head_at s j l \<and> j \<noteq> i"
  by (auto simp: take_head_def head_at_def)

lemma head_at_put:
  "i < NPAGES \<Longrightarrow> k \<le> MAX_ORDER \<Longrightarrow>
   head_at (put_head i k s) j l \<longleftrightarrow> (if j = i then l = k else head_at s j l)"
  by (auto simp: put_head_def head_at_def)

lemma take_head_lists:
  assumes inv: "lists_ok s" and h: "head_at s i k"
  shows "lists_ok (take_head i k s)" "same_outside (freepages s) s (take_head i k s)"
proof -
  have k: "k \<le> MAX_ORDER" and i: "i < NPAGES" using h by (auto simp: head_at_def)
  from inv k obtain zs where zs: "dll (pmem s) (freelist s k) zs" "distinct zs"
    "set zs = pg ` {i. head_at s i k}" by (rule lists_okD)
  have "pg i \<in> set zs" using h zs by auto
  then obtain xs ys where sp: "zs = xs @ pg i # ys" by (auto dest: split_list)
  have fr: "pmem (take_head i k s) x = pmem s x" if "outside x (set zs)" for x
    using list_remove_frame [OF zs(1,2) [unfolded sp] that [unfolded sp]] by (simp add: take_head_def)
  show "same_outside (freepages s) s (take_head i k s)"
    unfolding same_outside_def
  proof (intro allI impI)
    fix x assume "outside x (pg ` freepages s)"
    moreover have "set zs \<subseteq> pg ` freepages s"
      using zs(3) by (auto simp: freepages_def intro!: imageI)
    ultimately show "pmem (take_head i k s) x = pmem s x" by (blast intro: fr outside_mono)
  qed
  show "lists_ok (take_head i k s)"
    unfolding lists_ok_def
  proof (intro allI impI)
    fix j assume j: "j \<le> MAX_ORDER"
    show "\<exists>xs. dll (pmem (take_head i k s)) (freelist (take_head i k s) j) xs \<and> distinct xs
        \<and> set xs = pg ` {i'. head_at (take_head i k s) i' j}"
    proof (cases "j = k")
      case True
      have "dll (pmem (take_head i k s)) (freelist (take_head i k s) k) (xs @ ys)"
        using dll_remove [OF zs(1,2) [unfolded sp]] by (simp add: take_head_def)
      moreover have "set (xs @ ys) = pg ` {i'. head_at (take_head i k s) i' k}"
      proof -
        have "set (xs @ ys) = set zs - {pg i}" using zs(2) sp by auto
        then show ?thesis using zs(3) by auto
      qed
      moreover have "distinct (xs @ ys)" using zs(2) sp by simp
      ultimately show ?thesis unfolding True by blast
    next
      case False
      from inv j obtain ws where ws: "dll (pmem s) (freelist s j) ws" "distinct ws"
        "set ws = pg ` {i. head_at s i j}" by (rule lists_okD)
      have dis: "z \<notin> set zs" if "z \<in> set ws" for z
        using that zs(3) ws(3) False by (auto dest: head_at_fun)
      have "dll (pmem (take_head i k s)) (freelist s j) ws"
        using ws(1) fr dis by (rule dll_frame) (use zs(3) in auto)
      moreover have "freelist (take_head i k s) j = freelist s j"
        using False by (simp add: take_head_def)
      moreover have "set ws = pg ` {i'. head_at (take_head i k s) i' j}"
        using ws(3) h False by (auto dest: head_at_fun)
      ultimately show ?thesis using ws(2) by metis
    qed
  qed
qed

lemma put_head_lists:
  assumes inv: "lists_ok s" and k: "k \<le> MAX_ORDER" and i: "i < NPAGES" "page_state s i = PAGE_STATE_ALLOC"
  shows "lists_ok (put_head i k s)" "same_outside (insert i (freepages s)) s (put_head i k s)"
proof -
  have nh: "\<not> head_at s i l" for l using i by (simp add: head_at_def)
  have pgi: "pg_ok (pg i)" "pg i \<noteq> 0" using pg_pg_ok i by auto
  from inv k obtain zs where zs: "dll (pmem s) (freelist s k) zs" "distinct zs"
    "set zs = pg ` {i. head_at s i k}" by (rule lists_okD)
  have fr: "pmem (put_head i k s) x = pmem s x" if "outside x (insert (pg i) (set zs))" for x
    using list_insert_frame [OF zs(1) pgi(1) that] by (simp add: put_head_def)
  show "same_outside (insert i (freepages s)) s (put_head i k s)"
    unfolding same_outside_def
  proof (intro allI impI)
    fix x assume "outside x (pg ` insert i (freepages s))"
    moreover have "insert (pg i) (set zs) \<subseteq> pg ` insert i (freepages s)"
      using zs(3) by (auto simp: freepages_def intro!: imageI)
    ultimately show "pmem (put_head i k s) x = pmem s x" by (blast intro: fr outside_mono)
  qed
  show "lists_ok (put_head i k s)"
    unfolding lists_ok_def
  proof (intro allI impI)
    fix j assume j: "j \<le> MAX_ORDER"
    show "\<exists>xs. dll (pmem (put_head i k s)) (freelist (put_head i k s) j) xs \<and> distinct xs
        \<and> set xs = pg ` {i'. head_at (put_head i k s) i' j}"
    proof (cases "j = k")
      case True
      have new: "pg i \<notin> set zs" using zs(3) nh by auto
      have "dll (pmem (put_head i k s)) (freelist (put_head i k s) k) (pg i # zs)"
        using dll_insert [OF zs(1,2) pgi new] by (simp add: put_head_def)
      moreover have "set (pg i # zs) = pg ` {i'. head_at (put_head i k s) i' k}"
        using zs(3) nh i k by (auto simp: head_at_put)
      moreover have "distinct (pg i # zs)" using zs(2) new by simp
      ultimately show ?thesis unfolding True by blast
    next
      case False
      from inv j obtain ws where ws: "dll (pmem s) (freelist s j) ws" "distinct ws"
        "set ws = pg ` {i. head_at s i j}" by (rule lists_okD)
      have dis: "z \<notin> insert (pg i) (set zs)" if "z \<in> set ws" for z
        using that zs(3) ws(3) False nh by (auto dest: head_at_fun)
      have "dll (pmem (put_head i k s)) (freelist s j) ws"
        using ws(1) fr dis by (rule dll_frame) (use zs(3) in auto)
      moreover have "freelist (put_head i k s) j = freelist s j"
        using False by (simp add: put_head_def)
      moreover have "set ws = pg ` {i'. head_at (put_head i k s) i' j}"
        using ws(3) nh i k False by (auto simp: head_at_put)
      ultimately show ?thesis using ws(2) by metis
    qed
  qed
qed

lemma freepages_take:
  assumes "heads_ok s" "head_at s i k"
  shows "freepages (take_head i k s) = freepages s - blk i k"
proof -
  have dis: "j \<noteq> i \<Longrightarrow> head_at s j l \<Longrightarrow> blk j l \<inter> blk i k = {}" for j l
    using assms unfolding heads_ok_def by blast
  have "head_at s i l \<Longrightarrow> l = k" for l using assms(2) head_at_fun by blast
  with dis show ?thesis by (force simp: freepages_def)
qed

lemma take_head_inv:
  assumes "buddy_inv s" "head_at s i k"
  shows "buddy_inv (take_head i k s)"
proof -
  have h: "heads_ok s" "lists_ok s" using assms(1) by (auto simp: buddy_inv_def)
  have "heads_ok (take_head i k s)"
    using h(1) unfolding heads_ok_def page_state_take head_at_take by simp
  then show ?thesis
    using assms take_head_lists [OF h(2) assms(2)] by (simp add: buddy_inv_def take_head_def)
qed

lemma freepages_put:
  assumes "i < NPAGES" "k \<le> MAX_ORDER" "page_state s i = PAGE_STATE_ALLOC"
  shows "freepages (put_head i k s) = blk i k \<union> freepages s"
proof -
  have "\<not> head_at s i l" for l using assms by (simp add: head_at_def)
  then have "{(j, l). head_at (put_head i k s) j l} = insert (i, k) {(j, l). head_at s j l}"
    using assms by (auto simp: head_at_put)
  then show ?thesis by (simp add: freepages_def)
qed

lemma alloc_state:
  assumes "heads_ok s" "i < NPAGES" "i \<notin> freepages s"
  shows "page_state s i = PAGE_STATE_ALLOC"
proof (rule ccontr)
  assume "page_state s i \<noteq> PAGE_STATE_ALLOC"
  with assms(1,2) obtain k where "head_at s i k" by (auto simp: heads_ok_def head_at_def)
  with assms(3) show False using head_in_free in_blk by blast
qed

lemma xor_twice [simp]: "(i XOR n) XOR n = (i :: nat)"
  by (simp add: xor.assoc)

lemma put_head_inv:
  assumes inv: "buddy_inv s" and i: "i < NPAGES" "k \<le> MAX_ORDER" "i mod 2 ^ k = 0"
    and dis: "blk i k \<inter> freepages s = {}"
    and bud: "k < MAX_ORDER \<Longrightarrow> \<not> head_at s (i XOR 2 ^ k) k"
  shows "buddy_inv (put_head i k s)" "page_state s i = PAGE_STATE_ALLOC"
proof -
  have h: "heads_ok s" "lists_ok s" using inv by (auto simp: buddy_inv_def)
  have "i \<notin> freepages s" using dis in_blk by blast
  then show st: "page_state s i = PAGE_STATE_ALLOC" using alloc_state h i by blast
  have dis2: "head_at s j l \<Longrightarrow> blk i k \<inter> blk j l = {}" for j l
    using dis head_in_free by blast
  let ?s = "put_head i k s"
  note hp = head_at_put [OF i(1,2), of s]
  have "heads_ok ?s"
    unfolding heads_ok_def
  proof (intro conjI allI impI)
    fix j assume "j < NPAGES"
    then show "page_state ?s j = PAGE_STATE_ALLOC \<or> (\<exists>l \<le> MAX_ORDER. page_state ?s j = int l)"
      using h(1) i unfolding heads_ok_def put_head_def by auto
  next
    fix j l assume "head_at ?s j l"
    then show "j mod 2 ^ l = 0" using hp h(1) i unfolding heads_ok_def by (auto split: if_splits)
  next
    fix a l b n assume "head_at ?s a l" "head_at ?s b n" "a \<noteq> b"
    then show "blk a l \<inter> blk b n = {}"
      using hp dis2 h(1) unfolding heads_ok_def by (metis Int_commute)
  next
    fix j l assume j: "head_at ?s j l" "l < MAX_ORDER"
    show "\<not> head_at ?s (j XOR 2 ^ l) l"
    proof
      assume b: "head_at ?s (j XOR 2 ^ l) l"
      have ne: "j XOR 2 ^ l \<noteq> j"
        by (metis xor_twice xor.commute xor_self_eq power_not_zero xor.right_neutral zero_neq_numeral)
      consider "j = i" | "j XOR 2 ^ l = i" | "j \<noteq> i" "j XOR 2 ^ l \<noteq> i" by blast
      then show False
      proof cases
        case 1
        with j hp have "l = k" by simp
        with 1 b ne hp bud j show False by auto
      next
        case 2
        with b hp have "l = k" by simp
        moreover have "j = i XOR 2 ^ l" using 2 by (metis xor_twice)
        ultimately show False using j hp bud ne 2 by auto
      next
        case 3
        with j b hp h(1) show False unfolding heads_ok_def by auto
      qed
    qed
  qed
  then show "buddy_inv ?s"
    using inv put_head_lists [OF h(2) i(2,1) st] by (simp add: buddy_inv_def put_head_def)
qed

section \<open>Buddies\<close>

lemma buddy_index:
  assumes "i mod 2 ^ k = 0" "i < 32768" "k < 15"
  defines "b \<equiv> i XOR 2 ^ k"
  shows "b + 2 ^ k \<le> 32768" "b mod 2 ^ k = 0" "b \<noteq> i"
    "min i b mod 2 ^ Suc k = 0" "blk (min i b) (Suc k) = blk i k \<union> blk b k"
proof -
  obtain q where q: "i = 2 ^ k * q" using assms(1) by (auto elim!: dvdE simp: mod_eq_0_iff_dvd)
  have e: "(2::nat) ^ 15 = 2 ^ k * 2 ^ (15 - k)" "even ((2::nat) ^ (15 - k))"
    using assms(3) by (simp_all flip: power_add)
  have "2 ^ k * q < 2 ^ k * 2 ^ (15 - k)" using assms(2) q e(1) by simp
  then have qb: "q < 2 ^ (15 - k)" by simp
  have flip: "b = (if bit i k then i - 2 ^ k else i + 2 ^ k)"
  proof -
    have "flip_bit k i = b" by (simp add: b_def flip_bit_def push_bit_eq_mult)
    moreover have "bit i k \<Longrightarrow> unset_bit k i = i - 2 ^ k"
    proof -
      assume "bit i k"
      then have "set_bit k (unset_bit k i) = i" by (intro bit_eqI) (auto simp: bit_simps)
      moreover have "\<not> bit (unset_bit k i) k" by (simp add: bit_simps)
      ultimately show ?thesis using set_bit_eq [of k "unset_bit k i"] by simp
    qed
    ultimately show ?thesis by (auto simp: flip_bit_eq_if set_bit_eq)
  qed
  have bq: "bit i k \<longleftrightarrow> odd q" by (simp add: q bit_iff_odd)
  have pw: "odd q \<Longrightarrow> 2 ^ k \<le> i" using q by (cases q) auto
  have "i - 2 ^ k < i" if "odd q"
    by (rule diff_less) (use pw [OF that] in \<open>auto intro: less_le_trans [of 0 "2 ^ k" i]\<close>)
  then show "b \<noteq> i"
    using flip bq by (cases "odd q") auto
  define q' where "q' = (if odd q then q - 1 else q + 1)"
  have m: "b = 2 ^ k * q'"
    by (cases "odd q") (simp_all add: flip bq q'_def diff_mult_distrib2, simp_all add: q)
  then show "b mod 2 ^ k = 0" by simp
  have "q' < 2 ^ (15 - k)"
  proof (cases "odd q")
    case True
    then show ?thesis using qb by (simp add: q'_def)
  next
    case False
    then have "Suc q \<noteq> 2 ^ (15 - k)" using e(2) by (metis even_Suc)
    then show ?thesis using qb False by (simp add: q'_def)
  qed
  then have "2 ^ k * Suc q' \<le> 2 ^ k * 2 ^ (15 - k)"
    by (intro mult_le_mono2) simp
  then show "b + 2 ^ k \<le> 32768" using e(1) unfolding m by simp
  show "min i b mod 2 ^ Suc k = 0" and "blk (min i b) (Suc k) = blk i k \<union> blk b k"
  proof -
    show "min i b mod 2 ^ Suc k = 0"
    proof (cases "odd q")
      case True
      then obtain r where "q = 2 * r + 1" by (rule oddE)
      then show ?thesis using m q by (simp add: min_def q'_def)
    next
      case False
      then obtain r where "q = 2 * r" by auto
      then show ?thesis using m q by (simp add: min_def q'_def)
    qed
    show "blk (min i b) (Suc k) = blk i k \<union> blk b k"
    proof (cases "odd q")
      case True
      then have "2 ^ k \<le> i" using pw by blast
      then have "i = b + 2 ^ k" using flip bq True by simp
      then show ?thesis by (auto simp: blk_def min_def)
    next
      case False
      then have "b = i + 2 ^ k" using flip bq by simp
      then show ?thesis by (auto simp: blk_def min_def)
    qed
  qed
qed

end
