(* ===== verification/Kalloc_Spec.thy ===== *)
theory Kalloc_Spec
  imports Kalloc_Inv
begin

text \<open>
  What the entry points of kernel/kalloc.c promise. Freeing a block that is not free never
  panics, keeps the invariant and adds exactly its pages to the free pages; allocating returns
  a block of the right size and alignment out of the free pages, or 0 when no block of that
  order or above is free; neither touches memory outside the free pages and the block. \<open>kinit\<close>
  establishes the invariant with every page from \<open>end\<close> to \<open>PHYSTOP\<close> free. The locale
  \<open>page_allocator\<close> is the contract the rest of the kernel relies on.
\<close>

section \<open>Freeing\<close>

lemma order_size_eq: "order_size k = 4096 * 2 ^ k"
  by (simp add: order_size_def)

lemma xor_pages: "(4096 * i) XOR order_size k = 4096 * (i XOR 2 ^ k)"
proof -
  have "push_bit 12 i XOR push_bit 12 (2 ^ k) = push_bit 12 (i XOR 2 ^ k :: nat)"
    by simp
  then show ?thesis unfolding order_size_eq push_bit_eq_mult by (simp add: mult.commute)
qed

lemma power_le_15: "k \<le> 15 \<Longrightarrow> (2::nat) ^ k \<le> 32768"
  using power_increasing [of k 15 "2::nat"] by simp

lemma buddy_merge_ok:
  assumes "buddy_inv s" "i < NPAGES" "k \<le> MAX_ORDER" "i mod 2 ^ k = 0" "blk i k \<inter> freepages s = {}"
  shows "\<exists>j l s'. buddy_merge (pg i) i k s = Ok (pg j, j, l, s') \<and> buddy_inv s' \<and> j < NPAGES
     \<and> l \<le> MAX_ORDER \<and> j mod 2 ^ l = 0 \<and> blk j l \<inter> freepages s' = {}
     \<and> blk j l \<union> freepages s' = blk i k \<union> freepages s
     \<and> (l < MAX_ORDER \<longrightarrow> \<not> head_at s' (j XOR 2 ^ l) l)
     \<and> same_outside (freepages s) s s' \<and> kend s' = kend s"
  using assms
proof (induction "15 - k" arbitrary: i k s)
  case 0
  then have "k = 15" by simp
  then have "buddy_merge (pg i) i k s = Ok (pg i, i, k, s)"
    by (simp add: buddy_merge.simps)
  with 0 \<open>k = 15\<close> show ?case by auto
next
  case (Suc d)
  then have k: "k < 15" by simp
  let ?b = "i XOR 2 ^ k"
  have i: "i < 32768" using Suc.prems by simp
  note bi = buddy_index [OF \<open>i mod 2 ^ k = 0\<close> i k]
  have bs: "base s = 2147483648" "limit s = 2281701376" using Suc.prems(1) by (auto simp: buddy_inv_def)
  have blt: "?b < 32768" using bi(1) by (metis add_leD1 le_neq_implies_less add_le_same_cancel1 le_zero_eq power_not_zero zero_neq_numeral)
  have off: "sub64 (pg i) (base s) XOR order_size k = 4096 * ?b"
    using i bs by (simp add: sub64_small pg_def xor_pages)
  have bpa: "add64 (base s) (4096 * ?b) = pg ?b"
    using blt bs by (simp add: add64_small pg_def)
  have fits: "add64 (pg ?b) (order_size k) \<le> limit s"
    using bi(1) bs by (simp add: add64_small pg_def order_size_eq)
  have idx: "pa_to_index (pg ?b) s = Ok ?b"
    using blt bs by (intro pa_to_index_pg) auto
  show ?case
  proof (cases "page_state s ?b = int k")
    case False
    then have "buddy_merge (pg i) i k s = Ok (pg i, i, k, s)"
      using k off bpa fits idx bs by (subst buddy_merge.simps) (simp add: Let_def pg_def)
    moreover have "\<not> head_at s ?b k" using False by (simp add: head_at_def)
    ultimately show ?thesis using Suc.prems by auto
  next
    case True
    then have hb: "head_at s ?b k" using blt k by (simp add: head_at_def)
    let ?s = "take_head ?b k s" and ?j = "min i ?b"
    have inv': "buddy_inv ?s" using take_head_inv Suc.prems(1) hb by blast
    have fp: "freepages ?s = freepages s - blk ?b k"
      using freepages_take hb Suc.prems(1) by (simp add: buddy_inv_def)
    have j: "?j < NPAGES" using i by simp
    have "buddy_merge (pg i) i k s = buddy_merge (pg ?j) ?j (Suc k) ?s"
    proof -
      have idj: "pa_to_index (pg ?j) ?s = Ok ?j"
        using inv' j by (intro pa_to_index_pg) (auto simp: buddy_inv_def)
      have lim: "\<not> pg ?b < base s" using bs by (simp add: pg_def)
      show ?thesis
        using k off bpa fits idx True lim idj
        by (cases "?b < i"; subst buddy_merge.simps)
          (simp_all add: Let_def take_head_def not_le not_less min_def del: PAGE_STATE_ALLOC_def)
    qed
    moreover have "blk ?j (Suc k) \<inter> freepages ?s = {}"
      using bi(5) fp Suc.prems(5) by auto
    moreover have un: "blk ?j (Suc k) \<union> freepages ?s = blk i k \<union> freepages s"
      using bi(5) fp head_in_free [OF hb] by auto
    moreover have "15 - Suc k = d" "Suc k \<le> MAX_ORDER" using Suc.hyps(2) k by auto
    ultimately obtain j' l s' where r: "buddy_merge (pg i) i k s = Ok (pg j', j', l, s')" "buddy_inv s'"
      "j' < NPAGES" "l \<le> MAX_ORDER" "j' mod 2 ^ l = 0" "blk j' l \<inter> freepages s' = {}"
      "blk j' l \<union> freepages s' = blk i k \<union> freepages s"
      "l < MAX_ORDER \<longrightarrow> \<not> head_at s' (j' XOR 2 ^ l) l"
      "same_outside (freepages ?s) ?s s'" "kend s' = kend ?s"
      using Suc.hyps(1) [of "Suc k" ?s ?j] inv' j bi(4) by metis
    have "same_outside (freepages s) s s'"
    proof (rule same_outside_trans [OF take_head_lists(2) [OF _ hb] r(9)])
      show "lists_ok s" using Suc.prems(1) by (simp add: buddy_inv_def)
      show "freepages ?s \<subseteq> freepages s" using fp by blast
    qed simp
    moreover have "kend s' = kend s" using r(10) by (simp add: take_head_def)
    ultimately show ?thesis using r(1-8)
      by (intro exI [of _ j'] exI [of _ l] exI [of _ s'] conjI)
  qed
qed

theorem buddy_free_locked_ok:
  assumes "buddy_inv s" "i < NPAGES" "k \<le> MAX_ORDER" "i mod 2 ^ k = 0" "blk i k \<inter> freepages s = {}"
  shows "\<exists>s'. buddy_free_locked (pg i) k s = Ok s' \<and> buddy_inv s'
     \<and> freepages s' = blk i k \<union> freepages s
     \<and> same_outside (blk i k \<union> freepages s) s s' \<and> kend s' = kend s"
proof -
  from buddy_merge_ok [OF assms] obtain j l s1 where r:
    "buddy_merge (pg i) i k s = Ok (pg j, j, l, s1)" "buddy_inv s1" "j < NPAGES" "l \<le> MAX_ORDER"
    "j mod 2 ^ l = 0" "blk j l \<inter> freepages s1 = {}" "blk j l \<union> freepages s1 = blk i k \<union> freepages s"
    "l < MAX_ORDER \<longrightarrow> \<not> head_at s1 (j XOR 2 ^ l) l" "same_outside (freepages s) s s1" "kend s1 = kend s"
    by (elim exE conjE) (rule that, assumption+)
  have al: "pg i mod order_size k = 0"
  proof -
    obtain q where q: "i = 2 ^ k * q" using assms(4) by (auto elim!: dvdE simp: mod_eq_0_iff_dvd)
    have "(2147483648::nat) = 4096 * 2 ^ k * (16 * 2 ^ (15 - k))"
      using assms(3) by (simp add: algebra_simps flip: power_add)
    then have "pg i = 4096 * 2 ^ k * (16 * 2 ^ (15 - k) + q)"
      unfolding pg_def KERNBASE_def q by (simp only: distrib_left)
    then show ?thesis by (simp add: order_size_eq)
  qed
  have "i \<notin> freepages s" using assms(5) in_blk by blast
  then have st: "page_state s i = PAGE_STATE_ALLOC"
    using alloc_state assms by (simp add: buddy_inv_def)
  have idx: "pa_to_index (pg i) s = Ok i"
    using assms by (intro pa_to_index_pg) (auto simp: buddy_inv_def)
  have res: "buddy_free_locked (pg i) k s = Ok (put_head j l s1)"
    using assms(3) al st idx r(1) by (simp add: buddy_free_locked_def put_head_def)
  note ph = put_head_inv [OF r(2-6) r(8) [rule_format]]
  have "freepages (put_head j l s1) = blk i k \<union> freepages s"
    using freepages_put [OF r(3,4) ph(2)] r(7) by simp
  moreover have "same_outside (blk i k \<union> freepages s) s (put_head j l s1)"
  proof (rule same_outside_trans [OF r(9)])
    show "same_outside (insert j (freepages s1)) s1 (put_head j l s1)"
      using put_head_lists(2) [OF _ r(4,3) ph(2)] r(2) by (simp add: buddy_inv_def)
    show "insert j (freepages s1) \<subseteq> blk i k \<union> freepages s"
      using r(7) in_blk [of j l] by blast
  qed simp
  moreover have "kend (put_head j l s1) = kend s" using r(10) by (simp add: put_head_def)
  ultimately show ?thesis using res ph(1) by blast
qed

section \<open>Allocating\<close>

lemma xor_upper: "i mod 2 ^ Suc k = 0 \<Longrightarrow> (i + 2 ^ k) XOR 2 ^ k = (i :: nat)"
proof -
  assume "i mod 2 ^ Suc k = 0"
  then have "\<not> bit i k" by (auto simp: bit_iff_odd)
  then have "i XOR 2 ^ k = i + 2 ^ k"
    using flip_bit_eq_if [of k i] by (simp add: flip_bit_def set_bit_eq push_bit_eq_mult)
  then show ?thesis by (metis xor_twice)
qed

lemma page_of_byte:
  assumes "pg i \<le> x" "x < pg i + order_size k"
  shows "\<not> outside x (pg ` blk i k)"
proof -
  let ?j = "(x - KERNBASE) div 4096"
  have x: "KERNBASE + 4096 * i \<le> x" "x < KERNBASE + 4096 * i + 4096 * 2 ^ k"
    using assms by (auto simp: pg_def order_size_eq)
  then have "i \<le> ?j" by (simp add: less_eq_div_iff_mult_less_eq)
  moreover have "?j < i + 2 ^ k"
    using x by (subst div_less_iff_less_mult) auto
  ultimately have "?j \<in> blk i k" by (simp add: blk_def)
  moreover have "pg ?j \<le> x" "x < pg ?j + 4096"
    using x by (auto simp: pg_def)
  ultimately show ?thesis by (auto simp: outside_def not_le not_less intro!: bexI [of _ ?j])
qed

lemma buddy_inv_pmem:
  assumes inv: "buddy_inv s" and P: "P \<inter> freepages s = {}"
    and m: "\<And>x. outside x (pg ` P) \<Longrightarrow> m x = pmem s x"
  shows "buddy_inv (s\<lparr>pmem := m\<rparr>)" "freepages (s\<lparr>pmem := m\<rparr>) = freepages s"
proof -
  have h: "head_at (s\<lparr>pmem := m\<rparr>) i k = head_at s i k" for i k by (simp add: head_at_def)
  show "freepages (s\<lparr>pmem := m\<rparr>) = freepages s" by (simp add: freepages_def h)
  have "lists_ok (s\<lparr>pmem := m\<rparr>)"
    unfolding lists_ok_def
  proof (intro allI impI)
    fix k assume k: "k \<le> MAX_ORDER"
    from inv obtain xs where xs: "dll (pmem s) (freelist s k) xs" "distinct xs"
      "set xs = pg ` {i. head_at s i k}"
      unfolding buddy_inv_def using k lists_okD by blast
    have "dll m (freelist s k) xs"
    proof (rule dll_frame [OF xs(1) m])
      fix z assume "z \<in> set xs"
      then obtain i where "z = pg i" "head_at s i k" using xs(3) by auto
      then show "z \<notin> pg ` P" using head_in_free P in_blk by (fastforce simp: image_iff)
    qed auto
    with xs show "\<exists>xs. dll (pmem (s\<lparr>pmem := m\<rparr>)) (freelist (s\<lparr>pmem := m\<rparr>) k) xs \<and> distinct xs
        \<and> set xs = pg ` {i. head_at (s\<lparr>pmem := m\<rparr>) i k}"
      by (auto simp: h)
  qed
  then show "buddy_inv (s\<lparr>pmem := m\<rparr>)"
    using inv by (simp add: buddy_inv_def heads_ok_def h)
qed

lemma blk_halves:
  "blk i (Suc c) = blk i c \<union> blk (i + 2 ^ c) c" "blk i c \<inter> blk (i + 2 ^ c) c = {}"
  by (auto simp: blk_def)

lemma blk_mono: "k \<le> c \<Longrightarrow> blk i k \<subseteq> blk i c"
  using power_increasing [of k c "2::nat"] by (auto simp: blk_def)

lemma aligned_fits:
  fixes i :: nat
  assumes "i mod 2 ^ c = 0" "i < 32768" "c \<le> 15"
  shows "i + 2 ^ c \<le> 32768"
proof -
  have "(32768::nat) mod 2 ^ c = 0"
    using assms(3) le_imp_power_dvd [of c 15 "2::nat"] by (simp add: mod_eq_0_iff_dvd)
  from aligned_disjoint [OF assms(1) this] assms(2) show ?thesis by auto
qed

lemma buddy_split_ok:
  assumes "buddy_inv s" "i < NPAGES" "c \<le> MAX_ORDER" "i mod 2 ^ c = 0" "blk i c \<inter> freepages s = {}"
    "k \<le> c"
  shows "\<exists>s'. buddy_split (pg i) k c s = Ok s' \<and> buddy_inv s'
     \<and> freepages s' = freepages s \<union> (blk i c - blk i k)
     \<and> same_outside (freepages s \<union> blk i c) s s' \<and> kend s' = kend s"
  using assms
proof (induction c arbitrary: s)
  case 0
  then show ?case by (auto simp: buddy_split.simps)
next
  case (Suc c)
  show ?case
  proof (cases "k = Suc c")
    case True
    then show ?thesis using Suc.prems by (auto simp: buddy_split.simps)
  next
    case False
    then have kc: "k \<le> c" using Suc.prems(6) by simp
    let ?j = "i + 2 ^ c" and ?s = "put_head (i + 2 ^ c) c s"
    have fit: "i + 2 ^ Suc c \<le> 32768" using Suc.prems by (intro aligned_fits) auto
    have "?j < i + 2 ^ Suc c" by simp
    then have j: "?j < NPAGES" "c \<le> MAX_ORDER"
      using less_le_trans [OF _ fit] Suc.prems(3) by auto
    have "(2::nat) ^ c dvd 2 ^ Suc c" by simp
    then have ic: "i mod 2 ^ c = 0" using Suc.prems(4) by (meson dvd_trans mod_eq_0_iff_dvd)
    then have jc: "?j mod 2 ^ c = 0" by simp
    have jd: "blk ?j c \<inter> freepages s = {}" using Suc.prems(5) blk_halves(1) by blast
    have "i \<notin> freepages s" using Suc.prems(5) in_blk by blast
    then have "\<not> head_at s i c" using head_in_free in_blk by blast
    then have nb: "\<not> head_at s (?j XOR 2 ^ c) c" using xor_upper Suc.prems(4) by metis
    note ph = put_head_inv [OF Suc.prems(1) j jc jd nb]
    have fp: "freepages ?s = blk ?j c \<union> freepages s" using freepages_put [OF j ph(2)] .
    have "blk i c \<inter> freepages ?s = {}"
      unfolding fp using Suc.prems(5) blk_halves [of i c] by blast
    then obtain s' where s': "buddy_split (pg i) k c ?s = Ok s'" "buddy_inv s'"
      "freepages s' = freepages ?s \<union> (blk i c - blk i k)"
      "same_outside (freepages ?s \<union> blk i c) ?s s'" "kend s' = kend ?s"
      using Suc.IH [OF ph(1) Suc.prems(2) j(2) ic _ kc] by blast
    have pa: "add64 (pg i) (order_size c) = pg ?j"
      using fit by (simp add: pg_def order_size_eq add64_small)
    have "pa_to_index (pg ?j) (list_insert c (pg ?j) s) = Ok ?j"
      using Suc.prems(1) j by (intro pa_to_index_pg) (auto simp: buddy_inv_def)
    then have run: "buddy_split (pg i) k (Suc c) s = Ok s'"
      using kc s'(1) pa by (subst buddy_split.simps) (simp add: Let_def put_head_def)
    have "freepages s' = freepages s \<union> (blk i (Suc c) - blk i k)"
      unfolding s'(3) fp using blk_halves [of i c] blk_mono [OF kc, of i] by blast
    moreover have "same_outside (freepages s \<union> blk i (Suc c)) s s'"
    proof (rule same_outside_trans)
      show "same_outside (insert ?j (freepages s)) s ?s"
        using put_head_lists(2) [OF _ j(2,1) ph(2)] Suc.prems(1) by (simp add: buddy_inv_def)
      show "same_outside (freepages ?s \<union> blk i c) ?s s'" by (rule s'(4))
      show "insert ?j (freepages s) \<subseteq> freepages s \<union> blk i (Suc c)"
        using blk_halves(1) [of i c] in_blk [of ?j c] by blast
      show "freepages ?s \<union> blk i c \<subseteq> freepages s \<union> blk i (Suc c)"
        using fp blk_halves(1) [of i c] by blast
    qed
    ultimately show ?thesis using run s'(2,5) by (simp add: put_head_def)
  qed
qed

lemma freelist_head:
  assumes "buddy_inv s" "k \<le> MAX_ORDER"
  shows "freelist s k = 0 \<and> (\<forall>i. \<not> head_at s i k) \<or> (\<exists>i. freelist s k = pg i \<and> head_at s i k)"
proof -
  from assms obtain xs where xs: "dll (pmem s) (freelist s k) xs" "set xs = pg ` {i. head_at s i k}"
    unfolding buddy_inv_def using lists_okD by metis
  from dll_head_cases [OF xs(1)] show ?thesis
  proof (elim disjE conjE exE)
    assume "xs = []" "freelist s k = 0"
    then show ?thesis using xs(2) by auto
  next
    fix ys assume "xs = freelist s k # ys"
    then have "freelist s k \<in> pg ` {i. head_at s i k}" using xs(2) by (metis list.set_intros(1))
    then show ?thesis by auto
  qed
qed

definition alloc_post :: "nat \<Rightarrow> kmem \<Rightarrow> nat \<Rightarrow> kmem \<Rightarrow> bool" where
  "alloc_post k s i s' \<longleftrightarrow> buddy_inv s' \<and> i < NPAGES \<and> i mod 2 ^ k = 0 \<and> blk i k \<subseteq> freepages s
     \<and> freepages s' = freepages s - blk i k \<and> same_outside (freepages s) s s' \<and> kend s' = kend s
     \<and> (\<forall>x. pg i \<le> x \<and> x < pg i + order_size k \<longrightarrow> pmem s' x = 5)"

lemma buddy_scan_ok:
  assumes "buddy_inv s" "k \<le> c"
  shows "(\<exists>i s'. buddy_scan k c s = Ok (pg i, s') \<and> alloc_post k s i s')
    \<or> (buddy_scan k c s = Ok (0, s) \<and> (\<forall>i l. head_at s i l \<longrightarrow> l < c))"
  using assms
proof (induction "16 - c" arbitrary: c)
  case 0
  then show ?case by (auto simp: buddy_scan.simps head_at_def)
next
  case (Suc d)
  then have c: "c \<le> MAX_ORDER" by simp
  from freelist_head [OF Suc.prems(1) c] show ?case
  proof (elim disjE conjE exE)
    assume none: "freelist s c = 0" "\<forall>i. \<not> head_at s i c"
    have step: "buddy_scan k c s = buddy_scan k (Suc c) s"
      using none c by (subst buddy_scan.simps) simp
    have nc: "(\<forall>i l. head_at s i l \<longrightarrow> l < Suc c) \<Longrightarrow> (\<forall>i l. head_at s i l \<longrightarrow> l < c)"
      using none(2) by (metis less_antisym)
    from Suc.hyps(1) [of "Suc c"] Suc.hyps(2) Suc.prems step nc show ?case by auto
  next
    fix i assume fl: "freelist s c = pg i" and h: "head_at s i c"
    let ?s1 = "take_head i c s"
    have hk: "heads_ok s" "lists_ok s" using Suc.prems(1) by (auto simp: buddy_inv_def)
    have i: "i < NPAGES" using h by (simp add: head_at_def)
    have al: "i mod 2 ^ c = 0" using h hk(1) by (simp add: heads_ok_def)
    have inv1: "buddy_inv ?s1" using take_head_inv [OF Suc.prems(1) h] .
    have fp1: "freepages ?s1 = freepages s - blk i c" using freepages_take [OF hk(1) h] .
    then have "blk i c \<inter> freepages ?s1 = {}" by blast
    then obtain s2 where s2: "buddy_split (pg i) k c ?s1 = Ok s2" "buddy_inv s2"
      "freepages s2 = freepages ?s1 \<union> (blk i c - blk i k)"
      "same_outside (freepages ?s1 \<union> blk i c) ?s1 s2" "kend s2 = kend ?s1"
      using buddy_split_ok [OF inv1 i c al _ Suc.prems(2)] by blast
    have sub: "blk i k \<subseteq> blk i c" "blk i c \<subseteq> freepages s"
      using blk_mono [OF Suc.prems(2)] head_in_free [OF h] by auto
    have fp2: "freepages s2 = freepages s - blk i k" using s2(3) fp1 sub by blast
    let ?m = "memset (pmem s2) (pg i) 5 (order_size k)"
    let ?s3 = "s2\<lparr>pmem := ?m\<rparr>"
    have m: "?m x = pmem s2 x" if "outside x (pg ` blk i k)" for x
      using page_of_byte [of i x k] that by (auto simp: memset_eq)
    have inv3: "buddy_inv ?s3" "freepages ?s3 = freepages s2"
      using buddy_inv_pmem [OF s2(2) _ m] fp2 by auto
    have "pa_to_index (pg i) (list_remove c (pg i) s) = Ok i"
      using Suc.prems(1) i by (intro pa_to_index_pg) (auto simp: buddy_inv_def)
    moreover have "pg i \<noteq> 0" using pg_pg_ok [OF i] by simp
    ultimately have run: "buddy_scan k c s = Ok (pg i, ?s3)"
      using c fl s2(1) by (subst buddy_scan.simps) (simp add: Let_def take_head_def)
    have "same_outside (freepages s) s ?s3"
    proof (rule same_outside_trans)
      show "same_outside (freepages s) s ?s1" using take_head_lists(2) [OF hk(2) h] .
      show "same_outside (freepages s) ?s1 ?s3"
      proof (rule same_outside_trans [OF s2(4)])
        show "same_outside (blk i k) s2 ?s3" using m by (simp add: same_outside_def)
      qed (use sub fp1 in auto)
    qed auto
    moreover have "i mod 2 ^ k = 0"
      using al Suc.prems(2) le_imp_power_dvd [of k c "2::nat"] by (meson dvd_trans mod_eq_0_iff_dvd)
    ultimately have "alloc_post k s i ?s3"
      using inv3 fp2 i sub s2(5) by (simp add: alloc_post_def take_head_def memset_eq)
    with run show ?case by blast
  qed
qed

theorem buddy_alloc_locked_ok:
  assumes "buddy_inv s" "k \<le> MAX_ORDER"
  shows "(\<exists>i s'. buddy_alloc_locked k s = Ok (pg i, s') \<and> alloc_post k s i s')
    \<or> (buddy_alloc_locked k s = Ok (0, s) \<and> (\<forall>i l. head_at s i l \<longrightarrow> l < k))"
  using buddy_scan_ok [OF assms(1), of k k] assms(2) by (simp add: buddy_alloc_locked_def)

section \<open>The entry points\<close>

lemma blk_0 [simp]: "blk i 0 = {i}"
  by (auto simp: blk_def)

lemma memset_outside_blk:
  "outside x (pg ` blk i k) \<Longrightarrow> memset m (pg i) c (order_size k) x = m x"
  using page_of_byte [of i x k] by (auto simp: memset_eq)

text \<open>Filling an allocated block with junk and then freeing it.\<close>

lemma fill_and_free:
  assumes "buddy_inv s" "i < NPAGES" "k \<le> MAX_ORDER" "i mod 2 ^ k = 0" "blk i k \<inter> freepages s = {}"
  shows "\<exists>s'. buddy_free_locked (pg i) k (s\<lparr>pmem := memset (pmem s) (pg i) c (order_size k)\<rparr>) = Ok s'
     \<and> buddy_inv s' \<and> freepages s' = blk i k \<union> freepages s
     \<and> same_outside (blk i k \<union> freepages s) s s' \<and> kend s' = kend s"
proof -
  let ?s = "s\<lparr>pmem := memset (pmem s) (pg i) c (order_size k)\<rparr>"
  note pm = buddy_inv_pmem [OF assms(1,5), of "memset (pmem s) (pg i) c (order_size k)",
      OF memset_outside_blk]
  from buddy_free_locked_ok [OF pm(1) assms(2-4)] assms(5) pm(2) obtain s' where
    s': "buddy_free_locked (pg i) k ?s = Ok s'" "buddy_inv s'" "freepages s' = blk i k \<union> freepages s"
    "same_outside (blk i k \<union> freepages s) ?s s'" "kend s' = kend s"
    by auto
  have "same_outside (blk i k) s ?s" by (simp add: same_outside_def memset_outside_blk)
  from same_outside_trans [OF this s'(4), of "blk i k \<union> freepages s"] s' show ?thesis by blast
qed

lemma kfree_ok:
  assumes "buddy_inv s" "i < NPAGES" "kend s \<le> pg i" "i \<notin> freepages s"
  shows "\<exists>s'. kfree (pg i) s = Ok s' \<and> buddy_inv s' \<and> freepages s' = insert i (freepages s)
     \<and> same_outside (insert i (freepages s)) s s' \<and> kend s' = kend s"
proof -
  have "pg i mod PGSIZE = 0" "\<not> pg i < kend s" "\<not> pg i \<ge> limit s"
    using assms by (simp_all add: buddy_inv_def) (simp add: pg_def)
  then show ?thesis
    using fill_and_free [OF assms(1,2), of 0 1] assms(4) by (simp add: kfree_def order_size_eq)
qed

lemma kfree_huge_ok:
  assumes "buddy_inv s" "i < NPAGES" "i mod 512 = 0" "blk i 9 \<inter> freepages s = {}"
  shows "\<exists>s'. kfree_huge (pg i) s = Ok s' \<and> buddy_inv s' \<and> freepages s' = blk i 9 \<union> freepages s
     \<and> same_outside (blk i 9 \<union> freepages s) s s' \<and> kend s' = kend s"
proof -
  obtain q where q: "i = 512 * q" using assms(3) by (auto elim!: dvdE simp: mod_eq_0_iff_dvd)
  have "i + 512 \<le> 32768" using aligned_fits [of i 9] assms by simp
  then have "add64 (pg i) HUGEPGSIZE \<le> limit s" "\<not> pg i < base s"
    using assms(1) by (simp_all add: buddy_inv_def add64_small pg_def)
  moreover have "pg i mod HUGEPGSIZE = 0"
  proof -
    have "pg i = 2097152 * (1024 + q)" by (simp add: pg_def q)
    then show ?thesis by simp
  qed
  ultimately show ?thesis
    using fill_and_free [OF assms(1,2), of 9 1] assms(3,4) by (simp add: kfree_huge_def order_size_eq)
qed

lemma kalloc_ok:
  assumes "buddy_inv s"
  shows "(\<exists>i s'. kalloc s = Ok (pg i, s') \<and> alloc_post 0 s i s')
    \<or> (kalloc s = Ok (0, s) \<and> freepages s = {})"
  using buddy_alloc_locked_ok [OF assms, of 0] by (auto simp: kalloc_def freepages_def)

lemma kalloc_huge_ok:
  assumes "buddy_inv s"
  shows "(\<exists>i s'. kalloc_huge s = Ok (pg i, s') \<and> alloc_post 9 s i s')
    \<or> (kalloc_huge s = Ok (0, s) \<and> (\<forall>i l. head_at s i l \<longrightarrow> l < 9))"
  using buddy_alloc_locked_ok [OF assms, of 9] by (simp add: kalloc_huge_def)

section \<open>Initialisation\<close>

lemma range_order_fits:
  assumes "a < NPAGES"
  shows "k \<le> MAX_ORDER \<Longrightarrow> range_order (pg a) PHYSTOP k \<le> k \<and> a mod 2 ^ range_order (pg a) PHYSTOP k = 0
    \<and> a + 2 ^ range_order (pg a) PHYSTOP k \<le> NPAGES"
proof (induction k)
  case 0
  then show ?case using assms by (simp add: range_order.simps)
next
  case (Suc k)
  show ?case
  proof (cases "pg a mod order_size (Suc k) = 0 \<and> pg a + order_size (Suc k) \<le> PHYSTOP")
    case True
    then have r: "range_order (pg a) PHYSTOP (Suc k) = Suc k" by (subst range_order.simps) simp
    have "(2147483648::nat) = 4096 * 2 ^ Suc k * (16 * 2 ^ (15 - Suc k))"
      using Suc.prems by (simp add: algebra_simps flip: power_add)
    then have "4096 * 2 ^ Suc k dvd (2147483648::nat)" by (metis dvd_triv_left)
    moreover have "4096 * 2 ^ Suc k dvd 2147483648 + 4096 * a"
      using True unfolding order_size_eq pg_def KERNBASE_def by (simp only: mod_eq_0_iff_dvd)
    ultimately have "4096 * 2 ^ Suc k dvd 4096 * a" using dvd_add_right_iff by blast
    then have "a mod 2 ^ Suc k = 0" by (simp add: mod_eq_0_iff_dvd)
    moreover have "a + 2 ^ Suc k \<le> NPAGES" using True by (simp add: pg_def order_size_eq)
    ultimately show ?thesis using r by simp
  next
    case False
    then have "range_order (pg a) PHYSTOP (Suc k) = range_order (pg a) PHYSTOP k"
      by (subst range_order.simps) auto
    then show ?thesis using Suc by simp
  qed
qed

lemma add_range_ok:
  assumes "buddy_inv s" "a \<le> NPAGES" "{a ..< NPAGES} \<inter> freepages s = {}"
  shows "\<exists>s'. add_range_loop (pg a) PHYSTOP s = Ok s' \<and> buddy_inv s'
     \<and> freepages s' = {a ..< NPAGES} \<union> freepages s \<and> kend s' = kend s"
  using assms
proof (induction "NPAGES - a" arbitrary: a s rule: less_induct)
  case less
  show ?case
  proof (cases "a = NPAGES")
    case True
    then show ?thesis using less.prems by (subst add_range_loop.simps) (simp add: pg_def)
  next
    case False
    then have a: "a < NPAGES" using less.prems by simp
    let ?k = "range_order (pg a) PHYSTOP MAX_ORDER"
    have k: "?k \<le> MAX_ORDER" "a mod 2 ^ ?k = 0" "a + 2 ^ ?k \<le> NPAGES"
      using range_order_fits [OF a, of MAX_ORDER] by auto
    have "blk a ?k \<subseteq> {a ..< NPAGES}" using k(3) by (auto simp: blk_def)
    then have "blk a ?k \<inter> freepages s = {}" using less.prems(3) by blast
    from buddy_free_locked_ok [OF less.prems(1) a k(1,2) this] obtain s1 where
      s1: "buddy_free_locked (pg a) ?k s = Ok s1" "buddy_inv s1" "freepages s1 = blk a ?k \<union> freepages s"
      "kend s1 = kend s" by blast
    have "{a + 2 ^ ?k ..< NPAGES} \<inter> freepages s1 = {}"
    proof -
      have "{a + 2 ^ ?k ..< NPAGES} \<subseteq> {a ..< NPAGES}" by auto
      moreover have "{a + 2 ^ ?k ..< NPAGES} \<inter> blk a ?k = {}" by (auto simp: blk_def)
      ultimately show ?thesis using s1(3) less.prems(3) by blast
    qed
    moreover have "NPAGES - (a + 2 ^ ?k) < NPAGES - a" using a k(3) by (simp add: diff_less_mono2)
    ultimately obtain s2 where s2: "add_range_loop (pg (a + 2 ^ ?k)) PHYSTOP s1 = Ok s2" "buddy_inv s2"
      "freepages s2 = {a + 2 ^ ?k ..< NPAGES} \<union> freepages s1" "kend s2 = kend s1"
      using less.hyps [OF _ s1(2) k(3)] by blast
    have "pg a + order_size ?k = pg (a + 2 ^ ?k)" by (simp add: pg_def order_size_eq)
    moreover have "pg a + PGSIZE \<le> PHYSTOP" using a by (simp add: pg_def)
    ultimately have "add_range_loop (pg a) PHYSTOP s = Ok s2"
      using s1(1) s2(1) by (subst add_range_loop.simps) (simp add: Let_def)
    moreover have "freepages s2 = {a ..< NPAGES} \<union> freepages s"
      using s2(3) s1(3) k(3) by (auto simp: blk_def)
    ultimately show ?thesis using s2(2,4) s1(4) by auto
  qed
qed

lemma buddy_inv_empty:
  assumes "base s = KERNBASE" "limit s = PHYSTOP" "\<And>i. i \<le> MAX_ORDER \<Longrightarrow> freelist s i = 0"
    "\<And>i. i < NPAGES \<Longrightarrow> page_state s i = PAGE_STATE_ALLOC"
  shows "buddy_inv s" "freepages s = {}"
proof -
  have nh: "\<not> head_at s i k" for i k using assms(4) by (auto simp: head_at_def)
  then show "freepages s = {}" by (simp add: freepages_def)
  have "lists_ok s" unfolding lists_ok_def
    using assms(3) nh by (auto simp: dll_def intro!: exI [of _ "[]"])
  then show "buddy_inv s" using assms nh by (simp add: buddy_inv_def heads_ok_def)
qed

lemma round_page:
  assumes "KERNBASE \<le> e" "e \<le> PHYSTOP"
  shows "\<exists>a \<le> NPAGES. PGROUNDUP e = pg a \<and> {i. i < NPAGES \<and> e \<le> pg i} = {a ..< NPAGES}"
proof -
  define a where "a = (e - KERNBASE + 4095) div 4096"
  have e: "e + 4095 = e - KERNBASE + 4095 + 524288 * 4096" using assms by simp
  have "PGROUNDUP e = (e + 4095) div 4096 * 4096" using assms by (intro PGROUNDUP_eq) simp
  also have "\<dots> = pg a" unfolding a_def pg_def e by (subst div_mult_self1) simp_all
  finally have "PGROUNDUP e = pg a" .
  moreover have "a \<le> NPAGES" using assms by (simp add: a_def)
  moreover have iff: "e \<le> pg i \<longleftrightarrow> a \<le> i" for i
  proof -
    obtain d where d: "e = KERNBASE + d" using assms(1) le_Suc_ex by blast
    have "a \<le> i \<longleftrightarrow> a < Suc i" by linarith
    also have "\<dots> \<longleftrightarrow> e - KERNBASE + 4095 < Suc i * 4096"
      unfolding a_def by (subst div_less_iff_less_mult) simp_all
    also have "\<dots> \<longleftrightarrow> d \<le> 4096 * i" unfolding d add_diff_cancel_left' by auto
    finally show ?thesis unfolding d pg_def by (simp only: add_le_cancel_left)
  qed
  moreover have "{i. i < NPAGES \<and> e \<le> pg i} = {a ..< NPAGES}"
    unfolding iff atLeastLessThan_def atLeast_def lessThan_def by blast
  ultimately show ?thesis by blast
qed

lemma kinit_inv:
  assumes "KERNBASE \<le> kend s" "kend s \<le> PHYSTOP"
  shows "\<exists>s'. kinit s = Ok s' \<and> buddy_inv s' \<and> freepages s' = {i. i < NPAGES \<and> kend s \<le> pg i}
     \<and> kend s' = kend s"
proof -
  let ?s = "s\<lparr>base := KERNBASE, limit := PHYSTOP,
                 freelist := (\<lambda>i. if i \<le> MAX_ORDER then 0 else freelist s i),
                 page_state := (\<lambda>i. if i < NPAGES then PAGE_STATE_ALLOC else page_state s i)\<rparr>"
  obtain a where a: "a \<le> NPAGES" "PGROUNDUP (kend s) = pg a"
    "{i. i < NPAGES \<and> kend s \<le> pg i} = {a ..< NPAGES}"
    using round_page [OF assms] by blast
  have inv: "buddy_inv ?s" "freepages ?s = {}" by (rule buddy_inv_empty; simp)+
  have pa: "PGROUNDUP (pg a) = pg a" "PGROUNDDOWN PHYSTOP = PHYSTOP"
    using a(1) by (simp_all add: PGROUNDUP_eq PGROUNDDOWN_eq pg_def)
  obtain s' where s': "add_range_loop (pg a) PHYSTOP ?s = Ok s'" "buddy_inv s'"
    "freepages s' = {a ..< NPAGES}" "kend s' = kend s"
    using add_range_ok [OF inv(1) a(1)] inv(2) by auto
  show ?thesis
  proof (cases "pg a \<ge> PHYSTOP")
    case True
    then have "a = NPAGES" using a(1) by (simp add: pg_def)
    with True inv a show ?thesis by (simp add: kinit_def buddy_add_range_def)
  next
    case False
    then have "kinit s = add_range_loop (pg a) PHYSTOP ?s"
      using a(2) pa by (simp add: kinit_def buddy_add_range_def Let_def del: PHYSTOP_def KERNBASE_def kalloc_consts)
    then show ?thesis using s' a(3) by simp
  qed
qed

section \<open>The page allocator contract\<close>

text \<open>
  \<open>avail s\<close> are the addresses of the free pages, \<open>managed s\<close> those the allocator was given.
\<close>

locale page_allocator =
  fixes alloc :: "'s \<Rightarrow> (nat \<times> 's) res"
    and free :: "nat \<Rightarrow> 's \<Rightarrow> 's res"
    and inv :: "'s \<Rightarrow> bool"
    and avail :: "'s \<Rightarrow> nat set"
    and managed :: "'s \<Rightarrow> nat set"
    and content :: "'s \<Rightarrow> mem"
    and put :: "mem \<Rightarrow> 's \<Rightarrow> 's"
  assumes alloc_total: "inv s \<Longrightarrow> \<exists>p s'. alloc s = Ok (p, s')"
    and alloc_inv: "inv s \<Longrightarrow> alloc s = Ok (p, s') \<Longrightarrow> inv s' \<and> managed s' = managed s"
    and alloc_none: "inv s \<Longrightarrow> alloc s = Ok (0, s') \<Longrightarrow> s' = s \<and> avail s = {}"
    and alloc_some: "inv s \<Longrightarrow> alloc s = Ok (p, s') \<Longrightarrow> p \<noteq> 0 \<Longrightarrow>
      p \<in> avail s \<and> avail s' = avail s - {p}"
    and alloc_frame: "inv s \<Longrightarrow> alloc s = Ok (p, s') \<Longrightarrow> outside x (avail s) \<Longrightarrow> content s' x = content s x"
    and free_total: "inv s \<Longrightarrow> p \<in> managed s \<Longrightarrow> p \<notin> avail s \<Longrightarrow> \<exists>s'. free p s = Ok s'"
    and free_inv: "inv s \<Longrightarrow> p \<in> managed s \<Longrightarrow> p \<notin> avail s \<Longrightarrow> free p s = Ok s' \<Longrightarrow>
      inv s' \<and> managed s' = managed s \<and> avail s' = insert p (avail s)"
    and free_frame: "inv s \<Longrightarrow> p \<in> managed s \<Longrightarrow> p \<notin> avail s \<Longrightarrow> free p s = Ok s' \<Longrightarrow>
      outside x (insert p (avail s)) \<Longrightarrow> content s' x = content s x"
    and avail_managed: "inv s \<Longrightarrow> avail s \<subseteq> managed s"
    and managed_page: "p \<in> managed s \<Longrightarrow> p mod 4096 = 0 \<and> p \<noteq> 0 \<and> p + 4096 \<le> PHYSTOP \<and> KERNBASE \<le> p"
    and put_held: "inv s \<Longrightarrow> q \<in> managed s \<Longrightarrow> q \<notin> avail s \<Longrightarrow>
      (\<And>x. outside x {q} \<Longrightarrow> m x = content s x) \<Longrightarrow> inv (put m s) \<and> avail (put m s) = avail s"
    and put_managed: "managed (put m s) = managed s"
    and put_content: "content (put m s) = m"
begin

lemma alloc_then_free:
  assumes "inv s" "alloc s = Ok (p, s')" "p \<noteq> 0"
  shows "\<exists>s''. free p s' = Ok s'' \<and> inv s'' \<and> avail s'' = avail s"
proof -
  have p: "p \<in> avail s" "avail s' = avail s - {p}" "inv s'" "managed s' = managed s"
    using alloc_some [OF assms] alloc_inv [OF assms(1,2)] by auto
  then have m: "p \<in> managed s'" "p \<notin> avail s'" using avail_managed [OF assms(1)] by auto
  from free_total [OF p(3) m] obtain s'' where "free p s' = Ok s''" ..
  with free_inv [OF p(3) m this] p show ?thesis by auto
qed

lemma alloc_twice_distinct:
  assumes "inv s" "alloc s = Ok (p, s')" "p \<noteq> 0" "alloc s' = Ok (q, s'')" "q \<noteq> 0"
  shows "p \<noteq> q"
  using alloc_some [OF assms(1-3)] alloc_some [OF _ assms(4,5)] alloc_inv [OF assms(1,2)] by blast

text \<open>A page somebody holds keeps its content whatever the allocator does.\<close>

lemma held_page_outside:
  assumes "inv s" "q \<in> managed s" "q \<notin> avail s" "i < 4096"
  shows "outside (q + i) (avail s)"
  unfolding outside_def
proof
  fix p assume p: "p \<in> avail s"
  then have "p \<in> managed s" "p \<noteq> q" using avail_managed [OF assms(1)] assms(3) by auto
  then have "p + 4096 \<le> q \<or> q + 4096 \<le> p"
    using aligned_disjoint [of p 4096 q] managed_page [of p s] managed_page [OF assms(2)] by auto
  then show "q + i < p \<or> p + 4096 \<le> q + i" using assms(4) by linarith
qed

lemma alloc_keeps_held_page:
  assumes "inv s" "alloc s = Ok (p, s')" "q \<in> managed s" "q \<notin> avail s" "i < 4096"
  shows "content s' (q + i) = content s (q + i)"
  using alloc_frame [OF assms(1,2) held_page_outside [OF assms(1,3-5)]] .

lemma free_keeps_held_page:
  assumes "inv s" "p \<in> managed s" "p \<notin> avail s" "free p s = Ok s'"
    "q \<in> managed s" "q \<notin> avail s" "q \<noteq> p" "i < 4096"
  shows "content s' (q + i) = content s (q + i)"
proof (rule free_frame [OF assms(1-4)])
  have "p + 4096 \<le> q \<or> q + 4096 \<le> p"
    using aligned_disjoint [of p 4096 q] managed_page [OF assms(2)] managed_page [OF assms(5)] assms(7)
    by auto
  then show "outside (q + i) (insert p (avail s))"
    using held_page_outside [OF assms(1,5,6,8)] assms(8) by auto
qed

end

definition kmem_inv :: "kmem \<Rightarrow> bool" where
  "kmem_inv s \<longleftrightarrow> buddy_inv s \<and> (\<forall>i \<in> freepages s. kend s \<le> pg i)"

definition avail_pages :: "kmem \<Rightarrow> nat set" where
  "avail_pages s = pg ` freepages s"

definition managed_pages :: "kmem \<Rightarrow> nat set" where
  "managed_pages s = pg ` {i. i < NPAGES \<and> kend s \<le> pg i}"

lemma freepages_less: "buddy_inv s \<Longrightarrow> i \<in> freepages s \<Longrightarrow> i < NPAGES"
proof -
  assume inv: "buddy_inv s" and "i \<in> freepages s"
  then obtain j k where jk: "head_at s j k" "i \<in> blk j k" by (auto simp: freepages_def)
  then have "j mod 2 ^ k = 0" "j < 32768" "k \<le> 15"
    using inv by (auto simp: buddy_inv_def heads_ok_def head_at_def)
  then have "j + 2 ^ k \<le> 32768" by (rule aligned_fits)
  with jk(2) show "i < NPAGES" by (simp add: blk_def)
qed

lemma kalloc_step:
  assumes "kmem_inv s" "kalloc s = Ok (p, s')"
  shows "kmem_inv s' \<and> kend s' = kend s \<and> (p = 0 \<longrightarrow> s' = s \<and> freepages s = {})
    \<and> (p \<noteq> 0 \<longrightarrow> p \<in> avail_pages s \<and> avail_pages s' = avail_pages s - {p})
    \<and> (\<forall>x. outside x (avail_pages s) \<longrightarrow> pmem s' x = pmem s x)"
proof -
  have inv: "buddy_inv s" using assms by (simp add: kmem_inv_def)
  from kalloc_ok [OF inv] show ?thesis
  proof (elim disjE exE conjE)
    fix i t assume "kalloc s = Ok (pg i, t)" and post: "alloc_post 0 s i t"
    then have "p = pg i" "s' = t" using assms(2) by auto
    moreover have "pg i \<noteq> 0" using pg_pg_ok post by (simp add: alloc_post_def)
    moreover have "pg ` (freepages s - {i}) = pg ` freepages s - {pg i}" by auto
    ultimately show ?thesis
      using post assms(1) by (auto simp: alloc_post_def kmem_inv_def avail_pages_def same_outside_def)
  next
    assume "kalloc s = Ok (0, s)" "freepages s = {}"
    then show ?thesis using assms by auto
  qed
qed

lemma kfree_step:
  assumes "kmem_inv s" "p \<in> managed_pages s" "p \<notin> avail_pages s"
  shows "\<exists>s'. kfree p s = Ok s' \<and> kmem_inv s' \<and> kend s' = kend s
    \<and> avail_pages s' = insert p (avail_pages s)
    \<and> (\<forall>x. outside x (insert p (avail_pages s)) \<longrightarrow> pmem s' x = pmem s x)"
proof -
  obtain i where i: "p = pg i" "i < NPAGES" "kend s \<le> pg i" using assms(2) by (auto simp: managed_pages_def)
  have "buddy_inv s" using assms by (simp add: kmem_inv_def)
  moreover have "i \<notin> freepages s" using assms(3) i by (auto simp: avail_pages_def)
  ultimately obtain s' where "kfree (pg i) s = Ok s'" "buddy_inv s'" "freepages s' = insert i (freepages s)"
    "same_outside (insert i (freepages s)) s s'" "kend s' = kend s"
    using kfree_ok i by blast
  then show ?thesis using assms(1) i
    by (auto simp: kmem_inv_def avail_pages_def same_outside_def)
qed

lemma kmem_put_held:
  assumes "kmem_inv s" "q \<in> managed_pages s" "q \<notin> avail_pages s"
    and m: "\<And>x. outside x {q} \<Longrightarrow> m x = pmem s x"
  shows "kmem_inv (s\<lparr>pmem := m\<rparr>) \<and> avail_pages (s\<lparr>pmem := m\<rparr>) = avail_pages s"
proof -
  obtain i where i: "q = pg i" using assms(2) by (auto simp: managed_pages_def)
  then have "{i} \<inter> freepages s = {}" using assms(3) by (auto simp: avail_pages_def)
  from buddy_inv_pmem [OF _ this, of m] m i assms(1) show ?thesis
    by (auto simp: kmem_inv_def avail_pages_def)
qed

interpretation kpages: page_allocator kalloc kfree kmem_inv avail_pages managed_pages pmem
  "\<lambda>m s. s\<lparr>pmem := m\<rparr>"
proof
  fix s assume "kmem_inv s"
  then show "\<exists>p s'. kalloc s = Ok (p, s')" using kalloc_ok by (fastforce simp: kmem_inv_def)
next
  fix s p s' assume "kmem_inv s" "kalloc s = Ok (p, s')"
  from kalloc_step [OF this] show "kmem_inv s' \<and> managed_pages s' = managed_pages s"
    by (simp add: managed_pages_def)
next
  fix s s' assume "kmem_inv s" "kalloc s = Ok (0, s')"
  from kalloc_step [OF this] show "s' = s \<and> avail_pages s = {}" by (simp add: avail_pages_def)
next
  fix s p s' assume "kmem_inv s" "kalloc s = Ok (p, s')" "p \<noteq> 0"
  then show "p \<in> avail_pages s \<and> avail_pages s' = avail_pages s - {p}" using kalloc_step by blast
next
  fix s p s' x assume "kmem_inv s" "kalloc s = Ok (p, s')" "outside x (avail_pages s)"
  then show "pmem s' x = pmem s x" using kalloc_step by blast
next
  fix s p assume "kmem_inv s" "p \<in> managed_pages s" "p \<notin> avail_pages s"
  then show "\<exists>s'. kfree p s = Ok s'" using kfree_step by blast
next
  fix s p s' assume "kmem_inv s" "p \<in> managed_pages s" "p \<notin> avail_pages s" "kfree p s = Ok s'"
  then show "kmem_inv s' \<and> managed_pages s' = managed_pages s \<and> avail_pages s' = insert p (avail_pages s)"
    using kfree_step [of s p] by (auto simp: managed_pages_def)
next
  fix s p s' x assume "kmem_inv s" "p \<in> managed_pages s" "p \<notin> avail_pages s" "kfree p s = Ok s'"
    "outside x (insert p (avail_pages s))"
  then show "pmem s' x = pmem s x" using kfree_step [of s p] by auto
next
  fix s assume "kmem_inv s"
  then show "avail_pages s \<subseteq> managed_pages s"
    using freepages_less by (auto simp: kmem_inv_def avail_pages_def managed_pages_def)
next
  fix s p assume "p \<in> managed_pages s"
  then show "p mod 4096 = 0 \<and> p \<noteq> 0 \<and> p + 4096 \<le> PHYSTOP \<and> KERNBASE \<le> p"
    by (auto simp: managed_pages_def) (auto simp: pg_def)
next
  fix s :: kmem and q m
  assume "kmem_inv s" "q \<in> managed_pages s" "q \<notin> avail_pages s" "\<And>x. outside x {q} \<Longrightarrow> m x = pmem s x"
  then show "kmem_inv (s\<lparr>pmem := m\<rparr>) \<and> avail_pages (s\<lparr>pmem := m\<rparr>) = avail_pages s"
    by (rule kmem_put_held)
qed (simp_all add: managed_pages_def)

end
