(* ===== verification/Kalloc_Correct.thy ===== *)
theory Kalloc_Correct
  imports Kalloc_Spec
begin

text \<open>
  What kernel/kalloc.c guarantees to its callers: start-up, allocation, release, the pairing of
  the two, and what its double-free check does and does not catch.
\<close>

section \<open>Free memory is never fragmented by the allocator\<close>

lemma aligned_nested:
  fixes a b :: nat
  assumes "a mod 2 ^ k = 0" "b mod 2 ^ l = 0" "k \<le> l" "blk a k \<inter> blk b l \<noteq> {}"
  shows "blk a k \<subseteq> blk b l"
proof -
  obtain x where x: "a \<le> x" "x < a + 2 ^ k" "b \<le> x" "x < b + 2 ^ l"
    using assms(4) unfolding blk_def by (metis Int_iff atLeastLessThan_iff ex_in_conv)
  have bk: "b mod 2 ^ k = 0" "(b + 2 ^ l) mod 2 ^ k = 0"
    using assms(2) le_imp_power_dvd [OF assms(3), of "2::nat"]
    by (auto simp flip: dvd_eq_mod_eq_0 intro: dvd_trans)
  have "b \<le> a"
    using aligned_disjoint [OF assms(1) bk(1)] x by (cases "a = b") auto
  moreover have "a + 2 ^ k \<le> b + 2 ^ l"
    using aligned_disjoint [OF assms(1) bk(2)] x by (cases "a = b + 2 ^ l") auto
  ultimately show ?thesis by (auto simp: blk_def)
qed

lemma head_aligned: "buddy_inv s \<Longrightarrow> head_at s i k \<Longrightarrow> i mod 2 ^ k = 0"
  unfolding buddy_inv_def heads_ok_def by blast

lemma free_block_covered:
  assumes inv: "buddy_inv s" and "k \<le> MAX_ORDER" "i mod 2 ^ k = 0" "blk i k \<subseteq> freepages s"
  shows "\<exists>j l. head_at s j l \<and> k \<le> l \<and> blk i k \<subseteq> blk j l"
  using assms(2-4)
proof (induction k arbitrary: i)
  case 0
  then show ?case by (auto simp: freepages_def)
next
  case (Suc k)
  have al: "i mod 2 ^ k = 0" "(i + 2 ^ k) mod 2 ^ k = 0"
    using Suc.prems(2) by (auto simp flip: dvd_eq_mod_eq_0 intro: dvd_trans [of _ "2 ^ Suc k"])
  note halves = blk_halves [of i k]
  obtain j l where j: "head_at s j l" "k \<le> l" "blk i k \<subseteq> blk j l"
    using Suc.IH [OF _ al(1)] Suc.prems halves(1) by auto
  obtain j' l' where j': "head_at s j' l'" "k \<le> l'" "blk (i + 2 ^ k) k \<subseteq> blk j' l'"
    using Suc.IH [OF _ al(2)] Suc.prems halves(1) by auto
  note heads = head_aligned [OF inv j(1)] head_aligned [OF inv j'(1)]
  consider "Suc k \<le> l" | "Suc k \<le> l'" | "l = k" "l' = k" using j(2) j'(2) by linarith
  then show ?case
  proof cases
    case 1
    have "blk i (Suc k) \<inter> blk j l \<noteq> {}" using halves(1) j(3) in_blk [of i k] by blast
    from aligned_nested [OF Suc.prems(2) heads(1) 1 this] j(1) 1 show ?thesis by blast
  next
    case 2
    have "blk i (Suc k) \<inter> blk j' l' \<noteq> {}" using halves(1) j'(3) in_blk [of "i + 2 ^ k" k] by blast
    from aligned_nested [OF Suc.prems(2) heads(2) 2 this] j'(1) 2 show ?thesis by blast
  next
    case 3
    have "j = i" "j' = i + 2 ^ k"
      using j(3) j'(3) 3 by (auto simp: blk_def atLeastLessThan_subset_iff)
    moreover have "(i + 2 ^ k) XOR 2 ^ k = i" using xor_upper [OF Suc.prems(2)] .
    ultimately have False
      using inv j(1) j'(1) 3 Suc.prems(1) unfolding buddy_inv_def heads_ok_def by (metis Suc_le_lessD)
    then show ?thesis ..
  qed
qed

section \<open>The double-free check\<close>

lemma head_free_panics:
  assumes "buddy_inv s" "head_at s i k" "kend s \<le> pg i"
  shows "kfree (pg i) s = Panic ''buddy double free''"
proof -
  have i: "i < NPAGES" "page_state s i = int k" using assms(2) by (auto simp: head_at_def)
  have "pa_to_index (pg i) (s\<lparr>pmem := m\<rparr>) = Ok i" for m
    using assms(1) i by (intro pa_to_index_pg) (auto simp: buddy_inv_def)
  moreover have "\<not> limit s \<le> pg i" using assms(1) i by (simp add: buddy_inv_def) (simp add: pg_def)
  ultimately show ?thesis
    using i assms(3) by (simp add: kfree_def buddy_free_locked_def order_size_eq)
qed

lemma inner_not_head:
  assumes "buddy_inv s" "head_at s i k" "j \<in> blk i k" "j \<noteq> i"
  shows "\<not> head_at s j l"
proof
  assume "head_at s j l"
  then have "blk i k \<inter> blk j l = {}"
    using assms unfolding buddy_inv_def heads_ok_def by metis
  then show False using assms(3) in_blk by blast
qed

lemma buddy_page_in_block:
  assumes "buddy_inv s" "head_at s i (Suc k)" "j \<in> blk i (Suc k)"
  shows "j XOR 1 \<in> blk i (Suc k)" "j < NPAGES" "j XOR 1 < NPAGES"
proof -
  have i: "i mod 2 ^ Suc k = 0" "i < 32768" "Suc k \<le> 15"
    using assms(1,2) head_aligned [OF assms(1,2)] by (auto simp: head_at_def)
  have fits: "blk i (Suc k) \<subseteq> {..< NPAGES}" using aligned_fits [OF i] by (auto simp: blk_def)
  then show j: "j < NPAGES" using assms(3) by auto
  let ?m = "min j (j XOR 1)"
  from buddy_index [of j 0] j have m: "?m mod 2 ^ 1 = 0" "blk ?m 1 = {j, j XOR 1}" by auto
  have "blk ?m 1 \<subseteq> blk i (Suc k)"
    by (rule aligned_nested [OF m(1) i(1)]) (use m(2) assms(3) in auto)
  then show "j XOR 1 \<in> blk i (Suc k)" using m(2) by auto
  then show "j XOR 1 < NPAGES" using fits by auto
qed

lemma inner_free_result:
  assumes inv: "buddy_inv s" and h: "head_at s i (Suc k)" and j: "j \<in> blk i (Suc k)" "j \<noteq> i"
    and "kend s \<le> pg j"
  shows "kfree (pg j) s = Ok (put_head j 0 (s\<lparr>pmem := memset (pmem s) (pg j) 1 PGSIZE\<rparr>))"
proof -
  define t where "t = s\<lparr>pmem := memset (pmem s) (pg j) 1 PGSIZE\<rparr>"
  define n where "n = j XOR 1"
  note b = buddy_page_in_block [OF inv h j(1), folded n_def]
  have st: "page_state s j = PAGE_STATE_ALLOC"
    using inner_not_head [OF inv h j] inv b(2) unfolding buddy_inv_def heads_ok_def head_at_def by blast
  have bst: "page_state s n \<noteq> 0"
  proof
    assume "page_state s n = 0"
    then have z: "head_at s n 0" using b(3) by (simp add: head_at_def)
    then have "n = i" using inner_not_head [OF inv h b(1)] by blast
    with z h show False using head_at_fun by blast
  qed
  have bl: "base s = KERNBASE" "limit s = PHYSTOP" using inv by (auto simp: buddy_inv_def)
  have t: "base t = KERNBASE" "limit t = PHYSTOP" "page_state t = page_state s" using bl by (auto simp: t_def)
  have idx: "pa_to_index (pg j) t = Ok j" "pa_to_index (pg n) t = Ok n"
    using t b(2,3) by (auto intro: pa_to_index_pg)
  have off: "sub64 (pg j) KERNBASE XOR order_size 0 = 4096 * n"
    using xor_pages [of j 0] b(2) by (simp add: sub64_small pg_def n_def)
  have addr: "add64 KERNBASE (4096 * n) = pg n"
    using b(3) by (simp add: add64_small pg_def)
  have top: "add64 (pg n) (order_size 0) \<le> PHYSTOP"
    using b(3) by (simp add: add64_small pg_def order_size_eq)
  have lo: "KERNBASE \<le> pg n" by (simp add: pg_def)
  have "buddy_merge (pg j) j 0 t = Ok (pg j, j, 0, t)"
    using bst top lo idx(2)
    by (subst buddy_merge.simps) (simp add: t off addr Let_def del: KERNBASE_def PHYSTOP_def)
  then have "buddy_free_locked (pg j) 0 t = Ok (put_head j 0 t)"
    using st idx(1) t(3) by (simp add: buddy_free_locked_def order_size_eq put_head_def)
  moreover have "\<not> limit s \<le> pg j" using bl b(2) by (simp add: pg_def)
  ultimately show ?thesis
    using assms(5) by (simp add: kfree_def t_def)
qed

lemma inner_free_breaks:
  assumes "buddy_inv s" "head_at s i (Suc k)" "j \<in> blk i (Suc k)" "j \<noteq> i"
  shows "\<not> buddy_inv (put_head j 0 (s\<lparr>pmem := m\<rparr>))"
proof
  let ?s = "put_head j 0 (s\<lparr>pmem := m\<rparr>)"
  assume inv: "buddy_inv ?s"
  have "page_state ?s = (page_state s)(j := 0)" by (simp add: put_head_def)
  then have "head_at ?s j 0" "head_at ?s i (Suc k)"
    using assms(2,4) buddy_page_in_block [OF assms(1-3)] by (auto simp: head_at_def)
  then have "blk i (Suc k) \<inter> blk j 0 = {}"
    using inv assms(4) unfolding buddy_inv_def heads_ok_def by metis
  then show False using assms(3) by simp
qed

section \<open>A booted machine\<close>

definition boot_kmem :: kmem where
  "boot_kmem = \<lparr>pmem = (\<lambda>_. 0), freelist = (\<lambda>_. 0), base = 0, limit = 0, page_state = (\<lambda>_. 0),
                kend = 0x80025000\<rparr>"

definition booted :: kmem where
  "booted = (case kinit boot_kmem of Ok s \<Rightarrow> s | Panic _ \<Rightarrow> boot_kmem)"

lemma booted_inv:
  "buddy_inv booted" "freepages booted = {37 ..< 32768}" "kend booted = 0x80025000" "kmem_inv booted"
proof -
  obtain s where s: "kinit boot_kmem = Ok s" "buddy_inv s"
    "freepages s = {i. i < NPAGES \<and> kend boot_kmem \<le> pg i}" "kend s = kend boot_kmem"
    using kinit_inv [of boot_kmem] by (auto simp: boot_kmem_def)
  have "freepages s = {37 ..< 32768}" unfolding s(3) by (auto simp: boot_kmem_def pg_def)
  with s show "buddy_inv booted" "freepages booted = {37 ..< 32768}" "kend booted = 0x80025000"
    by (auto simp: booted_def boot_kmem_def)
  then show "kmem_inv booted" by (auto simp: kmem_inv_def pg_def)
qed

lemma booted_managed: "managed_pages booted = avail_pages booted"
  by (auto simp: managed_pages_def avail_pages_def booted_inv pg_def)

section \<open>Properties\<close>

text \<open>
  (C1) \<open>kinit\<close> returns, and the pages it puts on the free lists are exactly the pages of
  physical memory that start at or after the end of the kernel image; the free lists, the
  page states and the block structure are consistent.
\<close>

theorem kinit_frees_all_memory:
  assumes "KERNBASE \<le> kend s" "kend s \<le> PHYSTOP"
  shows "\<exists>s'. kinit s = Ok s' \<and> buddy_inv s' \<and> kend s' = kend s
    \<and> freepages s' = {i. i < NPAGES \<and> kend s \<le> KERNBASE + PGSIZE * i}"
  using kinit_inv [OF assms] unfolding pg_def PGSIZE_def by blast

theorem kinit_frees_all_memory_witness:
  "KERNBASE \<le> kend boot_kmem \<and> kend boot_kmem \<le> PHYSTOP \<and>
   (\<exists>s'. kinit boot_kmem = Ok s' \<and> buddy_inv s' \<and> kend s' = kend boot_kmem
    \<and> freepages s' = {i. i < NPAGES \<and> kend boot_kmem \<le> KERNBASE + PGSIZE * i})"
proof -
  have "KERNBASE \<le> kend boot_kmem" "kend boot_kmem \<le> PHYSTOP" by (simp_all add: boot_kmem_def)
  with kinit_frees_all_memory [OF this] show ?thesis by blast
qed

text \<open>
  (C2) Allocating a block of order \<open>k\<close> never panics and keeps the invariant. It returns an
  aligned block of \<open>2 ^ k\<close> pages that were all free, removes exactly those pages from the free
  memory, fills them with the junk byte 5 and writes to no page that was in use. It returns 0
  only when no aligned run of \<open>2 ^ k\<close> free pages exists, and then changes nothing.
\<close>

theorem buddy_alloc_correct:
  assumes "buddy_inv s" "k \<le> MAX_ORDER"
  shows "(\<exists>i s'. buddy_alloc_locked k s = Ok (pg i, s') \<and> buddy_inv s' \<and> i mod 2 ^ k = 0
            \<and> blk i k \<subseteq> freepages s \<and> freepages s' = freepages s - blk i k
            \<and> (\<forall>x. pg i \<le> x \<and> x < pg i + order_size k \<longrightarrow> pmem s' x = 5)
            \<and> (\<forall>x. outside x (pg ` freepages s) \<longrightarrow> pmem s' x = pmem s x))
       \<or> (buddy_alloc_locked k s = Ok (0, s) \<and> (\<forall>i. i mod 2 ^ k = 0 \<longrightarrow> \<not> blk i k \<subseteq> freepages s))"
  using buddy_alloc_locked_ok [OF assms]
proof (elim disjE exE conjE)
  fix i s' assume "buddy_alloc_locked k s = Ok (pg i, s')" "alloc_post k s i s'"
  then show ?thesis unfolding alloc_post_def same_outside_def
    by - (intro disjI1 exI [of _ i] exI [of _ s'], elim conjE, intro conjI, assumption+)
next
  assume r: "buddy_alloc_locked k s = Ok (0, s)" and none: "\<forall>i l. head_at s i l \<longrightarrow> l < k"
  have "\<not> blk i k \<subseteq> freepages s" if "i mod 2 ^ k = 0" for i
    using free_block_covered [OF assms that] none by (meson leD)
  with r show ?thesis by blast
qed

theorem buddy_alloc_correct_witness:
  "buddy_inv booted \<and> (9 :: nat) \<le> MAX_ORDER \<and> (\<exists>i s'. buddy_alloc_locked 9 booted = Ok (pg i, s') \<and> i mod 512 = 0)"
proof -
  have "blk 512 9 \<subseteq> freepages booted" by (auto simp: blk_def booted_inv)
  then have "\<not> (\<forall>i. i mod 2 ^ 9 = 0 \<longrightarrow> \<not> blk i 9 \<subseteq> freepages booted)"
    by (auto intro: exI [of _ 512])
  with buddy_alloc_correct [OF booted_inv(1), of 9] show ?thesis by (auto simp: booted_inv)
qed

text \<open>
  (C3) Freeing an aligned block of order \<open>k\<close> whose pages are all in use never panics, keeps
  the invariant (in particular every pair of free buddies is merged), makes exactly those pages
  free again and writes to no other page in use.
\<close>

theorem buddy_free_correct:
  assumes "buddy_inv s" "i < NPAGES" "k \<le> MAX_ORDER" "i mod 2 ^ k = 0" "blk i k \<inter> freepages s = {}"
  shows "\<exists>s'. buddy_free_locked (pg i) k s = Ok s' \<and> buddy_inv s' \<and> freepages s' = blk i k \<union> freepages s
     \<and> (\<forall>x. outside x (pg ` (blk i k \<union> freepages s)) \<longrightarrow> pmem s' x = pmem s x)"
  using buddy_free_locked_ok [OF assms] unfolding same_outside_def by blast

theorem buddy_free_correct_witness:
  "buddy_inv booted \<and> blk 4 2 \<inter> freepages booted = {} \<and>
   (\<exists>s'. buddy_free_locked (pg 4) 2 booted = Ok s' \<and> freepages s' = blk 4 2 \<union> freepages booted)"
proof -
  have d: "blk 4 2 \<inter> freepages booted = {}" by (auto simp: blk_def booted_inv)
  from buddy_free_correct [OF booted_inv(1) _ _ _ d] d show ?thesis by (auto simp: booted_inv)
qed

text \<open>
  (C4) A page obtained from \<open>kalloc\<close> can be given back with \<open>kfree\<close>, which succeeds and makes
  the set of free pages what it was before the allocation. In between, every page that was in
  use keeps its content.
\<close>

theorem kalloc_kfree_roundtrip:
  assumes "kmem_inv s" "kalloc s = Ok (p, s')" "p \<noteq> 0"
  shows "(\<exists>s''. kfree p s' = Ok s'' \<and> kmem_inv s'' \<and> avail_pages s'' = avail_pages s)
    \<and> (\<forall>q i. q \<in> managed_pages s \<longrightarrow> q \<notin> avail_pages s \<longrightarrow> i < PGSIZE \<longrightarrow>
         pmem s' (q + i) = pmem s (q + i))"
  using kpages.alloc_then_free [OF assms] kpages.alloc_keeps_held_page [OF assms(1,2)] by simp

theorem kalloc_kfree_roundtrip_witness:
  "\<exists>p s' s''. kalloc booted = Ok (p, s') \<and> p \<noteq> 0 \<and> kfree p s' = Ok s'' \<and> avail_pages s'' = avail_pages booted"
proof -
  obtain p s' where r: "kalloc booted = Ok (p, s')" using kpages.alloc_total [OF booted_inv(4)] by blast
  have "p \<noteq> 0" using kpages.alloc_none [OF booted_inv(4)] r by (auto simp: avail_pages_def booted_inv)
  with kalloc_kfree_roundtrip [OF booted_inv(4) r] r show ?thesis by blast
qed

text \<open>
  (C5) The double-free check of \<open>kfree\<close> catches a page that starts a free block, but not a page
  inside a larger free block: freeing such a page again succeeds, and leaves two overlapping
  blocks on the free lists.
\<close>

theorem double_free_check:
  assumes "buddy_inv s" "head_at s i k" "j \<in> blk i k" "kend s \<le> pg j"
  shows "if j = i then kfree (pg j) s = Panic ''buddy double free''
         else \<exists>s'. kfree (pg j) s = Ok s' \<and> \<not> buddy_inv s'"
proof (cases "j = i")
  case True
  then show ?thesis using head_free_panics assms by simp
next
  case False
  with assms(3) obtain k' where k: "k = Suc k'" by (cases k) auto
  from inner_free_result [OF assms(1) _ _ False assms(4), of k'] inner_free_breaks [OF assms(1) _ _ False]
  show ?thesis using assms k False by auto
qed

theorem double_free_check_witness:
  "\<exists>i k. head_at booted i k \<and> 1025 \<in> blk i k \<and> (1025 = i \<longrightarrow> kfree (pg 1025) booted = Panic ''buddy double free'')
     \<and> (1025 \<noteq> i \<longrightarrow> (\<exists>s'. kfree (pg 1025) booted = Ok s' \<and> \<not> buddy_inv s'))"
proof -
  have "1025 \<in> freepages booted" by (simp add: booted_inv)
  then obtain i k where "head_at booted i k" "1025 \<in> blk i k" by (auto simp: freepages_def)
  moreover have "kend booted \<le> pg 1025" by (simp add: booted_inv pg_def)
  ultimately show ?thesis using double_free_check [OF booted_inv(1), of i k 1025] by (auto split: if_splits)
qed

end
