(* ===== verification/Slab.thy ===== *)
theory Slab
  imports Kalloc_Correct
begin

text \<open>
  kernel/slab.c: caches of small objects on top of the page allocator.

  A \<open>struct slab\<close> fills the start of a page of its own and is kept in a typed heap \<open>sheap\<close>
  from page addresses to slab records; the objects live in a second page, in the byte memory of
  the page allocator. The three lists of a cache are linked through \<open>slab_next\<close> as in the code.
  A list traversal need not end when the list is cyclic, so traversals are partial functions and
  \<open>None\<close> is a traversal that never ends.
\<close>

section \<open>Definitions\<close>

record slab =
  slab_next :: nat
  slab_mem :: nat
  capacity :: nat
  nr_free :: nat
  freemap :: u64

record kmem_cache =
  obj_size :: nat
  partial :: nat
  full :: nat
  empty :: nat

record slab_st =
  sheap :: "nat \<Rightarrow> slab"
  km :: kmem

definition slab_init :: "nat \<Rightarrow> nat \<Rightarrow> slab" where
  "slab_init m cap = \<lparr>slab_next = 0, slab_mem = m, capacity = cap, nr_free = cap,
     freemap = drop_bit (64 - cap) (NOT 0)\<rparr>"

definition slab_alloc :: "slab \<Rightarrow> nat \<Rightarrow> mem \<Rightarrow> nat \<times> slab \<times> mem" where
  "slab_alloc s osz m =
     (if nr_free s = 0 then (0, s, m)
      else case find_first (\<lambda>i. freemap s AND push_bit i 1 \<noteq> 0) 0 (capacity s) of
        None \<Rightarrow> (0, s, m)
      | Some i \<Rightarrow>
          (slab_mem s + i * osz,
           s\<lparr>freemap := freemap s AND NOT (push_bit i 1), nr_free := nr_free s - 1\<rparr>,
           memset m (slab_mem s + i * osz) 0xAA osz))"

definition slab_free :: "slab \<Rightarrow> nat \<Rightarrow> nat \<Rightarrow> mem \<Rightarrow> slab \<times> mem" where
  "slab_free s obj osz m =
     (let i = (obj - slab_mem s) div osz in
      if i \<ge> capacity s then (s, m)
      else if freemap s AND push_bit i 1 \<noteq> 0 then (s, m)
      else (s\<lparr>freemap := freemap s OR push_bit i 1, nr_free := nr_free s + 1\<rparr>,
            memset m obj 0xDD osz))"

definition kmem_cache_init :: "nat \<Rightarrow> kmem_cache" where
  "kmem_cache_init osz = \<lparr>obj_size = osz, partial = 0, full = 0, empty = 0\<rparr>"

definition set_slab :: "nat \<Rightarrow> slab \<Rightarrow> slab_st \<Rightarrow> slab_st" where
  "set_slab a s st = st\<lparr>sheap := (sheap st)(a := s)\<rparr>"

definition set_slab_next :: "nat \<Rightarrow> nat \<Rightarrow> slab_st \<Rightarrow> slab_st" where
  "set_slab_next a v st = set_slab a ((sheap st a)\<lparr>slab_next := v\<rparr>) st"

text \<open>\<open>slab_alloc\<close> and \<open>slab_free\<close> on a slab in the heap.\<close>

definition heap_slab_alloc :: "nat \<Rightarrow> nat \<Rightarrow> slab_st \<Rightarrow> nat \<times> slab_st" where
  "heap_slab_alloc a osz st =
     (case slab_alloc (sheap st a) osz (pmem (km st)) of
        (r, s, m) \<Rightarrow> (r, (set_slab a s st)\<lparr>km := (km st)\<lparr>pmem := m\<rparr>\<rparr>))"

definition heap_slab_free :: "nat \<Rightarrow> nat \<Rightarrow> nat \<Rightarrow> slab_st \<Rightarrow> slab_st" where
  "heap_slab_free a obj osz st =
     (case slab_free (sheap st a) obj osz (pmem (km st)) of
        (s, m) \<Rightarrow> (set_slab a s st)\<lparr>km := (km st)\<lparr>pmem := m\<rparr>\<rparr>)"

definition kmem_cache_alloc :: "kmem_cache \<Rightarrow> slab_st \<Rightarrow> (nat \<times> kmem_cache \<times> slab_st) res" where
  "kmem_cache_alloc c st =
     (if partial c \<noteq> 0 then
        (let s = partial c; (r, st1) = heap_slab_alloc s (obj_size c) st in
         if nr_free (sheap st1 s) = 0 then
           Ok (r, c\<lparr>partial := slab_next (sheap st1 s), full := s\<rparr>, set_slab_next s (full c) st1)
         else Ok (r, c, st1))
      else if empty c \<noteq> 0 then
        (let s = empty c; (r, st1) = heap_slab_alloc s (obj_size c) st in
         if nr_free (sheap st1 s) = 0 then
           Ok (r, c\<lparr>empty := slab_next (sheap st1 s), full := s\<rparr>, set_slab_next s (full c) st1)
         else
           Ok (r, c\<lparr>empty := slab_next (sheap st1 s), partial := s\<rparr>, set_slab_next s (partial c) st1))
      else
        bindR (kalloc (km st)) (\<lambda>(s, k1).
          if s = 0 then Ok (0, c, st\<lparr>km := k1\<rparr>)
          else bindR (kalloc k1) (\<lambda>(p, k2).
            if p = 0 then bindR (kfree s k2) (\<lambda>k3. Ok (0, c, st\<lparr>km := k3\<rparr>))
            else
              (let st1 = set_slab s (slab_init p (min 64 (4096 div obj_size c))) (st\<lparr>km := k2\<rparr>);
                   (r, st2) = heap_slab_alloc s (obj_size c) st1
               in if nr_free (sheap st2 s) = 0
                  then Ok (r, c\<lparr>full := s\<rparr>, set_slab_next s (full c) st2)
                  else Ok (r, c\<lparr>partial := s\<rparr>, set_slab_next s (partial c) st2)))))"

text \<open>The loop that looks for the slab an object belongs to; 0 when there is none.\<close>

partial_function (option) find_slab :: "(nat \<Rightarrow> slab) \<Rightarrow> nat \<Rightarrow> nat \<Rightarrow> nat \<Rightarrow> nat option" where
  "find_slab h osz obj s =
     (if s = 0 then Some 0
      else if slab_mem (h s) \<le> obj \<and> obj < slab_mem (h s) + capacity (h s) * osz then Some s
      else find_slab h osz obj (slab_next (h s)))"

text \<open>
  The \<open>slab **pp\<close> loop that unlinks \<open>s\<close>: the predecessor \<open>q\<close> whose \<open>next\<close> field is \<open>*pp\<close>,
  0 for the list head, and \<open>*pp\<close> itself.
\<close>

partial_function (option) find_link :: "(nat \<Rightarrow> slab) \<Rightarrow> nat \<Rightarrow> nat \<Rightarrow> nat \<Rightarrow> (nat \<times> nat) option" where
  "find_link h s q p =
     (if p \<noteq> 0 \<and> p \<noteq> s then find_link h s p (slab_next (h p)) else Some (q, p))"

text \<open>Move \<open>s\<close> from the list at \<open>h1\<close> to the list at \<open>h2\<close>; the new heads and heap.\<close>

definition move_slab :: "nat \<Rightarrow> nat \<Rightarrow> nat \<Rightarrow> slab_st \<Rightarrow> (nat \<times> nat \<times> slab_st) option" where
  "move_slab s h1 h2 st =
     (case find_link (sheap st) s 0 h1 of
        None \<Rightarrow> None
      | Some (q, p) \<Rightarrow>
          if p = s then
            (let nx = slab_next (sheap st s);
                 (h1', st1) = (if q = 0 then (nx, st) else (h1, set_slab_next q nx st))
             in Some (h1', s, set_slab_next s h2 st1))
          else Some (h1, h2, st))"

text \<open>The loop that gives surplus empty slabs back to the page allocator.\<close>

partial_function (option) trim_empty :: "nat \<Rightarrow> nat \<Rightarrow> slab_st \<Rightarrow> (nat \<times> slab_st) res option" where
  "trim_empty counter pp st =
     (if pp \<noteq> 0 \<and> slab_next (sheap st pp) \<noteq> 0 then
        (if counter \<ge> 1 then
           (let tofree = slab_next (sheap st pp);
                st1 = set_slab_next pp (slab_next (sheap st tofree)) st
            in case bindR (kfree (slab_mem (sheap st1 tofree)) (km st1)) (kfree tofree) of
                 Panic e \<Rightarrow> Some (Panic e)
               | Ok k \<Rightarrow> trim_empty counter pp (st1\<lparr>km := k\<rparr>))
         else trim_empty (counter + 1) (slab_next (sheap st pp)) st)
      else Some (Ok (pp, st)))"

definition free_tail :: "kmem_cache \<Rightarrow> slab_st \<Rightarrow> (kmem_cache \<times> slab_st) res option" where
  "free_tail c st =
     (case trim_empty 0 (empty c) st of
        None \<Rightarrow> None
      | Some (Panic e) \<Rightarrow> Some (Panic e)
      | Some (Ok (pp, st1)) \<Rightarrow> Some (Ok (c, if pp \<noteq> 0 then set_slab_next pp 0 st1 else st1)))"

definition free_in_partial :: "kmem_cache \<Rightarrow> nat \<Rightarrow> nat \<Rightarrow> slab_st \<Rightarrow> (kmem_cache \<times> slab_st) res option" where
  "free_in_partial c s obj st =
     (let st1 = heap_slab_free s obj (obj_size c) st in
      if nr_free (sheap st1 s) = capacity (sheap st1 s) then
        (case move_slab s (partial c) (empty c) st1 of
           None \<Rightarrow> None
         | Some (p, e, st2) \<Rightarrow> free_tail (c\<lparr>partial := p, empty := e\<rparr>) st2)
      else free_tail c st1)"

definition free_in_full :: "kmem_cache \<Rightarrow> nat \<Rightarrow> nat \<Rightarrow> slab_st \<Rightarrow> (kmem_cache \<times> slab_st) res option" where
  "free_in_full c s obj st =
     (let st1 = heap_slab_free s obj (obj_size c) st in
      if nr_free (sheap st1 s) = 1 then
        (case move_slab s (full c) (partial c) st1 of
           None \<Rightarrow> None
         | Some (f, p, st2) \<Rightarrow> free_tail (c\<lparr>full := f, partial := p\<rparr>) st2)
      else if nr_free (sheap st1 s) = capacity (sheap st1 s) then
        (case move_slab s (full c) (empty c) st1 of
           None \<Rightarrow> None
         | Some (f, e, st2) \<Rightarrow> free_tail (c\<lparr>full := f, empty := e\<rparr>) st2)
      else free_tail c st1)"

definition kmem_cache_free :: "kmem_cache \<Rightarrow> nat \<Rightarrow> slab_st \<Rightarrow> (kmem_cache \<times> slab_st) res option" where
  "kmem_cache_free c obj st =
     (case find_slab (sheap st) (obj_size c) obj (partial c) of
        None \<Rightarrow> None
      | Some s \<Rightarrow>
          if s \<noteq> 0 then free_in_partial c s obj st
          else (case find_slab (sheap st) (obj_size c) obj (full c) of
                  None \<Rightarrow> None
                | Some s \<Rightarrow> if s \<noteq> 0 then free_in_full c s obj st else Some (Ok (c, st))))"

definition assist_size :: "nat \<Rightarrow> nat" where
  "assist_size sz =
     (if sz \<le> 64 then 64 else if sz \<le> 128 then 128 else if sz \<le> 256 then 256
      else if sz \<le> 512 then 512 else if sz \<le> 1024 then 1024 else if sz \<le> 2048 then 2048 else 0)"

record slab_sys =
  kmem_caches :: "nat \<Rightarrow> kmem_cache"
  sst :: slab_st

definition init_all_slabs :: "slab_sys \<Rightarrow> slab_sys" where
  "init_all_slabs y = y\<lparr>kmem_caches := (kmem_caches y)
     (0 := kmem_cache_init 64, 1 := kmem_cache_init 128, 2 := kmem_cache_init 256,
      3 := kmem_cache_init 512, 4 := kmem_cache_init 1024, 5 := kmem_cache_init 2048)\<rparr>"

definition kmalloc :: "nat \<Rightarrow> slab_sys \<Rightarrow> (nat \<times> slab_sys) res" where
  "kmalloc sz y =
     (let asize = assist_size sz in
      if asize = 0 then
        bindR (kalloc (km (sst y))) (\<lambda>(p, k). Ok (p, y\<lparr>sst := (sst y)\<lparr>km := k\<rparr>\<rparr>))
      else case find_first (\<lambda>i. obj_size (kmem_caches y i) = asize) 0 6 of
        None \<Rightarrow> Panic ''kerneltrap''
      | Some i \<Rightarrow> bindR (kmem_cache_alloc (kmem_caches y i) (sst y)) (\<lambda>(r, c, st).
          Ok (r, y\<lparr>kmem_caches := (kmem_caches y)(i := c), sst := st\<rparr>)))"

definition kmfree :: "nat \<Rightarrow> nat \<Rightarrow> slab_sys \<Rightarrow> slab_sys res option" where
  "kmfree obj sz y =
     (let asize = assist_size sz in
      if asize = 0 then
        Some (bindR (kfree obj (km (sst y))) (\<lambda>k. Ok (y\<lparr>sst := (sst y)\<lparr>km := k\<rparr>\<rparr>)))
      else case find_first (\<lambda>i. obj_size (kmem_caches y i) = asize) 0 6 of
        None \<Rightarrow> Some (Panic ''kerneltrap'')
      | Some i \<Rightarrow>
          (case kmem_cache_free (kmem_caches y i) obj (sst y) of
             None \<Rightarrow> None
           | Some (Panic e) \<Rightarrow> Some (Panic e)
           | Some (Ok (c, st)) \<Rightarrow> Some (Ok (y\<lparr>kmem_caches := (kmem_caches y)(i := c), sst := st\<rparr>))))"

end
