(* ===== verification/Slab_Spec.thy ===== *)
theory Slab_Spec
  imports Slab "HOL-Library.Multiset"
begin

text \<open>
  Correctness of kernel/slab.c. \<open>cache_inv\<close> is the invariant of one cache over the slabs on its
  three lists; \<open>live\<close> is the set of objects the cache has handed out. Allocation adds one fresh
  object to \<open>live\<close>, release removes exactly the given one, and neither touches the bytes of any
  other live object.
\<close>

section \<open>One slab\<close>

definition fbits :: "slab \<Rightarrow> nat set" where
  "fbits s = {i. bit (freemap s) i}"

definition slab_ok :: "nat \<Rightarrow> slab \<Rightarrow> bool" where
  "slab_ok osz s \<longleftrightarrow> capacity s = min 64 (4096 div osz) \<and> fbits s \<subseteq> {..< capacity s}
     \<and> nr_free s = card (fbits s)"

definition slab_live :: "nat \<Rightarrow> slab \<Rightarrow> nat set" where
  "slab_live osz s = (\<lambda>i. slab_mem s + i * osz) ` ({..< capacity s} - fbits s)"

lemma mask_iff_bit [simp]: "(w :: u64) AND 2 ^ i = 0 \<longleftrightarrow> \<not> bit w i"
  by (simp add: bit_iff_and_push_bit_not_eq_0)

lemma fbits_simps [simp]:
  "fbits (s\<lparr>slab_next := v\<rparr>) = fbits s" "fbits (s\<lparr>nr_free := n\<rparr>) = fbits s"
  by (simp_all add: fbits_def)

lemma slab_ok_next [simp]: "slab_ok osz (s\<lparr>slab_next := v\<rparr>) = slab_ok osz s"
  by (simp add: slab_ok_def)

lemma slab_live_next [simp]: "slab_live osz (s\<lparr>slab_next := v\<rparr>) = slab_live osz s"
  by (simp add: slab_live_def)

lemma slab_okD:
  assumes "slab_ok osz s"
  shows "capacity s \<le> 64" "finite (fbits s)" "i \<in> fbits s \<Longrightarrow> i < capacity s" "nr_free s = card (fbits s)"
  using assms finite_subset [of "fbits s" "{..< capacity s}"] by (auto simp: slab_ok_def)

lemma slab_full_bits: "slab_ok osz s \<Longrightarrow> nr_free s = 0 \<Longrightarrow> fbits s = {}"
  using slab_okD [of osz s] by simp

lemma slab_empty_bits: "slab_ok osz s \<Longrightarrow> nr_free s = capacity s \<Longrightarrow> fbits s = {..< capacity s}"
  unfolding slab_ok_def by (metis card_lessThan card_subset_eq finite_lessThan)

lemma obj_in_page:
  assumes "slab_ok osz s" "i < capacity s"
  shows "i * osz + osz \<le> 4096"
proof -
  have "Suc i \<le> 4096 div osz" using assms by (auto simp: slab_ok_def)
  then have "Suc i * osz \<le> (4096 div osz) * osz" by (rule mult_le_mono1)
  also have "\<dots> \<le> 4096" by (rule div_times_less_eq_dividend)
  finally show ?thesis by simp
qed

lemma slab_init_ok:
  assumes "0 < osz" "osz \<le> 4096"
  shows "slab_ok osz (slab_init p (min 64 (4096 div osz)))"
    "fbits (slab_init p (min 64 (4096 div osz))) = {..< min 64 (4096 div osz)}"
proof -
  let ?c = "min 64 (4096 div osz)"
  have "bit (drop_bit (64 - ?c) (NOT 0 :: u64)) i \<longleftrightarrow> i < ?c" for i
    by (auto simp: bit_drop_bit_eq bit_not_iff bit_mask_iff)
  then have "{i. bit (drop_bit (64 - ?c) (NOT 0 :: u64)) i} = {..< ?c}" by blast
  then show b: "fbits (slab_init p ?c) = {..< ?c}" unfolding fbits_def slab_init_def slab.simps .
  show "slab_ok osz (slab_init p ?c)"
    unfolding slab_ok_def b by (simp add: slab_init_def)
qed

lemma slab_alloc_ok:
  assumes "slab_ok osz s" "nr_free s \<noteq> 0"
  shows "\<exists>i s'. i \<in> fbits s
    \<and> slab_alloc s osz m = (slab_mem s + i * osz, s', memset m (slab_mem s + i * osz) 0xAA osz)
    \<and> slab_ok osz s' \<and> fbits s' = fbits s - {i} \<and> nr_free s' = nr_free s - 1
    \<and> slab_mem s' = slab_mem s \<and> capacity s' = capacity s \<and> slab_next s' = slab_next s"
proof -
  obtain j where j: "j \<in> fbits s" using assms slab_okD(4) [OF assms(1)] by fastforce
  have "find_first (\<lambda>i. freemap s AND push_bit i 1 \<noteq> 0) 0 (capacity s) \<noteq> None"
    unfolding find_first_None using j slab_okD(3) [OF assms(1) j] by (auto simp: fbits_def)
  then obtain i where i: "find_first (\<lambda>i. freemap s AND push_bit i 1 \<noteq> 0) 0 (capacity s) = Some i" by auto
  from find_first_Some [OF i] have bi: "i \<in> fbits s" by (simp add: fbits_def)
  let ?s = "s\<lparr>freemap := freemap s AND NOT (push_bit i 1), nr_free := nr_free s - 1\<rparr>"
  have b: "fbits ?s = fbits s - {i}" by (auto simp: fbits_def bit_simps dest: bit_imp_le_length)
  have "slab_ok osz ?s"
    using assms(1) bi slab_okD(2) [OF assms(1)] unfolding slab_ok_def b by (auto simp: card_Diff_singleton)
  with i assms(2) bi b show ?thesis
    by (intro exI [of _ i] exI [of _ ?s]) (simp add: slab_alloc_def)
qed

lemma slab_free_ok:
  assumes "slab_ok osz s" "0 < osz" "i < capacity s" "i \<notin> fbits s"
  shows "\<exists>s'. slab_free s (slab_mem s + i * osz) osz m = (s', memset m (slab_mem s + i * osz) 0xDD osz)
    \<and> slab_ok osz s' \<and> fbits s' = insert i (fbits s) \<and> nr_free s' = Suc (nr_free s)
    \<and> slab_mem s' = slab_mem s \<and> capacity s' = capacity s \<and> slab_next s' = slab_next s"
proof -
  let ?s = "s\<lparr>freemap := freemap s OR push_bit i 1, nr_free := nr_free s + 1\<rparr>"
  have "i < 64" using slab_okD(1) [OF assms(1)] assms(3) by simp
  then have b: "fbits ?s = insert i (fbits s)" by (auto simp: fbits_def bit_simps)
  have "slab_ok osz ?s"
    using assms(1,3,4) slab_okD(2) [OF assms(1)] unfolding slab_ok_def b by auto
  moreover have "\<not> bit (freemap s) i" using assms(4) by (simp add: fbits_def)
  ultimately show ?thesis using assms(2,3) b by (intro exI [of _ ?s]) (simp add: slab_free_def Let_def)
qed

section \<open>The invariant of a cache\<close>

definition pages_of :: "slab_st \<Rightarrow> nat list \<Rightarrow> nat list" where
  "pages_of st xs = xs @ map (\<lambda>x. slab_mem (sheap st x)) xs"

definition live :: "kmem_cache \<Rightarrow> slab_st \<Rightarrow> nat list \<Rightarrow> nat set" where
  "live c st xs = (\<Union>x \<in> set xs. slab_live (obj_size c) (sheap st x))"

definition lists_inv :: "kmem_cache \<Rightarrow> slab_st \<Rightarrow> nat list \<Rightarrow> nat list \<Rightarrow> nat list \<Rightarrow> bool" where
  "lists_inv c st P F E \<longleftrightarrow>
     lseg (\<lambda>a. slab_next (sheap st a)) (partial c) P \<and> lseg (\<lambda>a. slab_next (sheap st a)) (full c) F \<and>
     lseg (\<lambda>a. slab_next (sheap st a)) (empty c) E \<and>
     (\<forall>x \<in> set (P @ F @ E). slab_ok (obj_size c) (sheap st x)) \<and>
     (\<forall>x \<in> set P. 0 < nr_free (sheap st x) \<and> nr_free (sheap st x) < capacity (sheap st x)) \<and>
     (\<forall>x \<in> set F. nr_free (sheap st x) = 0) \<and>
     (\<forall>x \<in> set E. nr_free (sheap st x) = capacity (sheap st x))"

definition mem_inv :: "slab_st \<Rightarrow> nat list \<Rightarrow> bool" where
  "mem_inv st xs \<longleftrightarrow> kmem_inv (km st) \<and> distinct (pages_of st xs)
     \<and> set (pages_of st xs) \<subseteq> managed_pages (km st) - avail_pages (km st)"

definition cache_inv :: "kmem_cache \<Rightarrow> slab_st \<Rightarrow> nat list \<Rightarrow> nat list \<Rightarrow> nat list \<Rightarrow> bool" where
  "cache_inv c st P F E \<longleftrightarrow> 0 < obj_size c \<and> obj_size c \<le> 2048 \<and> lists_inv c st P F E
     \<and> mem_inv st (P @ F @ E) \<and> length E \<le> 2"

text \<open>Relinking a slab changes no slab but for its \<open>next\<close> field.\<close>

lemma set_slab_next_simps [simp]:
  "slab_mem (sheap (set_slab_next a v st) y) = slab_mem (sheap st y)"
  "capacity (sheap (set_slab_next a v st) y) = capacity (sheap st y)"
  "nr_free (sheap (set_slab_next a v st) y) = nr_free (sheap st y)"
  "fbits (sheap (set_slab_next a v st) y) = fbits (sheap st y)"
  "slab_ok osz (sheap (set_slab_next a v st) y) = slab_ok osz (sheap st y)"
  "slab_live osz (sheap (set_slab_next a v st) y) = slab_live osz (sheap st y)"
  "km (set_slab_next a v st) = km st"
  by (simp_all add: set_slab_next_def set_slab_def)

lemma sheap_relink_other: "y \<noteq> a \<Longrightarrow> sheap (set_slab_next a v st) y = sheap st y"
  by (simp add: set_slab_next_def set_slab_def)

lemma relink_simps [simp]:
  "pages_of (set_slab_next a v st) xs = pages_of st xs"
  "live c (set_slab_next a v st) xs = live c st xs"
  "mem_inv (set_slab_next a v st) xs = mem_inv st xs"
  by (simp_all add: pages_of_def live_def mem_inv_def)

lemma next_set_slab_next [simp]:
  "(\<lambda>a. slab_next (sheap (set_slab_next b v st) a)) = (\<lambda>a. slab_next (sheap st a))(b := v)"
  by (auto simp: set_slab_next_def set_slab_def)

lemma next_at_relink [simp]: "slab_next (sheap (set_slab_next b v st) b) = v"
  by (simp add: set_slab_next_def set_slab_def)

lemma mem_inv_perm: "mset xs = mset ys \<Longrightarrow> mem_inv st xs = mem_inv st ys"
proof -
  assume "mset xs = mset ys"
  then have "mset (pages_of st xs) = mset (pages_of st ys)" by (simp add: pages_of_def)
  then show ?thesis unfolding mem_inv_def using mset_eq_imp_distinct_iff mset_eq_setD by metis
qed

lemma live_perm: "set xs = set ys \<Longrightarrow> live c st xs = live c st ys"
  by (simp add: live_def)

section \<open>Objects do not overlap\<close>

lemma mem_pages_disjoint:
  assumes "mem_inv st xs" "x \<in> set xs" "y \<in> set xs" "x \<noteq> y"
  shows "slab_mem (sheap st x) + 4096 \<le> slab_mem (sheap st y) \<or> slab_mem (sheap st y) + 4096 \<le> slab_mem (sheap st x)"
proof -
  let ?m = "\<lambda>x. slab_mem (sheap st x)"
  have "inj_on ?m (set xs)" using assms(1) by (auto simp: mem_inv_def pages_of_def distinct_map)
  then have "?m x \<noteq> ?m y" using assms by (auto dest: inj_onD)
  moreover have "?m x \<in> managed_pages (km st)" "?m y \<in> managed_pages (km st)"
    using assms by (auto simp: mem_inv_def pages_of_def)
  ultimately show ?thesis using aligned_disjoint [of "?m x" 4096 "?m y"] kpages.managed_page by auto
qed

lemma mult_disjoint: "i < j \<Longrightarrow> i * n + n \<le> j * (n :: nat)"
  using mult_le_mono1 [of "Suc i" j n] by simp

lemma obj_disjoint:
  assumes "mem_inv st xs" "x \<in> set xs" "y \<in> set xs" "slab_ok osz (sheap st x)" "slab_ok osz (sheap st y)"
    "i < capacity (sheap st x)" "j < capacity (sheap st y)" "(x, i) \<noteq> (y, j)"
  defines "p \<equiv> slab_mem (sheap st x) + i * osz" and "q \<equiv> slab_mem (sheap st y) + j * osz"
  shows "p + osz \<le> q \<or> q + osz \<le> p"
proof (cases "x = y")
  case True
  then have "i < j \<or> j < i" using assms(8) by auto
  then show ?thesis using mult_disjoint [of i j osz] mult_disjoint [of j i osz] True p_def q_def by auto
next
  case False
  then show ?thesis
    using mem_pages_disjoint [OF assms(1-3)] obj_in_page [OF assms(4,6)] obj_in_page [OF assms(5,7)]
    unfolding p_def q_def by linarith
qed

section \<open>One object leaves or enters a slab of the cache\<close>

text \<open>
  \<open>slab_step x i add st st'\<close>: slab \<open>x\<close> changes only in slot \<open>i\<close>, which becomes free or used,
  and only the bytes of that slot are written.
\<close>

definition slab_step :: "nat \<Rightarrow> nat \<Rightarrow> nat \<Rightarrow> u8 \<Rightarrow> nat set \<Rightarrow> slab_st \<Rightarrow> slab_st \<Rightarrow> bool" where
  "slab_step osz x i b B st st' \<longleftrightarrow>
     (\<forall>y. y \<noteq> x \<longrightarrow> sheap st' y = sheap st y) \<and> slab_ok osz (sheap st' x)
     \<and> slab_mem (sheap st' x) = slab_mem (sheap st x) \<and> capacity (sheap st' x) = capacity (sheap st x)
     \<and> slab_next (sheap st' x) = slab_next (sheap st x) \<and> fbits (sheap st' x) = B
     \<and> km st' = (km st)\<lparr>pmem := memset (pmem (km st)) (slab_mem (sheap st x) + i * osz) b osz\<rparr>"

lemma slab_step_fields:
  assumes "slab_step osz x i b B st st'"
  shows "slab_mem (sheap st' y) = slab_mem (sheap st y)" "capacity (sheap st' y) = capacity (sheap st y)"
    "slab_next (sheap st' y) = slab_next (sheap st y)" "y \<noteq> x \<Longrightarrow> sheap st' y = sheap st y"
    "pages_of st' xs = pages_of st xs" "managed_pages (km st') = managed_pages (km st)"
  using assms by (cases "y = x"; auto simp: slab_step_def pages_of_def managed_pages_def)+

lemma slab_step_mem_inv:
  assumes "slab_step osz x i b B st st'" "mem_inv st xs" "x \<in> set xs" "slab_ok osz (sheap st x)"
    "i < capacity (sheap st x)"
  shows "mem_inv st' xs" "avail_pages (km st') = avail_pages (km st)"
proof -
  let ?q = "slab_mem (sheap st x)"
  let ?m = "memset (pmem (km st)) (?q + i * osz) b osz"
  have q: "?q \<in> managed_pages (km st)" "?q \<notin> avail_pages (km st)" "kmem_inv (km st)"
    using assms(2,3) by (auto simp: mem_inv_def pages_of_def)
  have "?m x = pmem (km st) x" if "outside x {?q}" for x
    using that obj_in_page [OF assms(4,5)] by (auto simp: memset_eq)
  from kpages.put_held [OF q(3,1,2) this] assms(1)
  have "kmem_inv (km st')" and a: "avail_pages (km st') = avail_pages (km st)" by (auto simp: slab_step_def)
  then show "mem_inv st' xs" "avail_pages (km st') = avail_pages (km st)"
    using assms(2) slab_step_fields(5,6) [OF assms(1)] by (auto simp: mem_inv_def)
qed

lemma heap_slab_alloc_step:
  assumes "slab_ok osz (sheap st x)" "nr_free (sheap st x) \<noteq> 0"
  shows "\<exists>i st'. i \<in> fbits (sheap st x) \<and> heap_slab_alloc x osz st = (slab_mem (sheap st x) + i * osz, st')
    \<and> slab_step osz x i 0xAA (fbits (sheap st x) - {i}) st st' \<and> nr_free (sheap st' x) = nr_free (sheap st x) - 1"
proof -
  from slab_alloc_ok [OF assms, of "pmem (km st)"] obtain i where
    "i \<in> fbits (sheap st x)" "\<exists>s'. slab_alloc (sheap st x) osz (pmem (km st)) =
       (slab_mem (sheap st x) + i * osz, s', memset (pmem (km st)) (slab_mem (sheap st x) + i * osz) 0xAA osz)
    \<and> slab_ok osz s' \<and> fbits s' = fbits (sheap st x) - {i} \<and> nr_free s' = nr_free (sheap st x) - 1
    \<and> slab_mem s' = slab_mem (sheap st x) \<and> capacity s' = capacity (sheap st x)
    \<and> slab_next s' = slab_next (sheap st x)"
    by blast
  then show ?thesis
    by (intro exI [of _ i]) (auto simp: heap_slab_alloc_def slab_step_def set_slab_def)
qed

lemma heap_slab_free_step:
  assumes "slab_ok osz (sheap st x)" "0 < osz" "i < capacity (sheap st x)" "i \<notin> fbits (sheap st x)"
  shows "\<exists>st'. heap_slab_free x (slab_mem (sheap st x) + i * osz) osz st = st'
    \<and> slab_step osz x i 0xDD (insert i (fbits (sheap st x))) st st' \<and> nr_free (sheap st' x) = Suc (nr_free (sheap st x))"
  using slab_free_ok [OF assms, of "pmem (km st)"]
  by (elim exE conjE) (simp add: heap_slab_free_def slab_step_def set_slab_def)

lemma live_cache_simps [simp]:
  "live (c\<lparr>partial := p\<rparr>) st xs = live c st xs" "live (c\<lparr>full := p\<rparr>) st xs = live c st xs"
  "live (c\<lparr>empty := p\<rparr>) st xs = live c st xs"
  by (simp_all add: live_def)

lemma in_liveE:
  assumes "p \<in> live c st S"
  obtains y j where "y \<in> set S" "p = slab_mem (sheap st y) + j * obj_size c" "j < capacity (sheap st y)"
    "j \<notin> fbits (sheap st y)"
  using assms by (auto simp: live_def slab_live_def)

text \<open>A slot of slab \<open>x\<close> is disjoint from every live object, unless it is one.\<close>

lemma live_disjoint:
  assumes "mem_inv st S" "\<forall>y \<in> set S. slab_ok (obj_size c) (sheap st y)" "x \<in> set S" "i < capacity (sheap st x)"
    "p \<in> live c st S" "p \<noteq> slab_mem (sheap st x) + i * obj_size c \<or> i \<in> fbits (sheap st x)"
  shows "p + obj_size c \<le> slab_mem (sheap st x) + i * obj_size c \<or>
         slab_mem (sheap st x) + i * obj_size c + obj_size c \<le> p"
proof -
  from assms(5) obtain y j where y: "y \<in> set S" "p = slab_mem (sheap st y) + j * obj_size c"
    "j < capacity (sheap st y)" "j \<notin> fbits (sheap st y)" by (rule in_liveE)
  have "(y, j) \<noteq> (x, i)" using y assms(6) by auto
  from obj_disjoint [OF assms(1) y(1) assms(3) _ _ y(3) assms(4) this] show ?thesis
    using assms(2,3) y(1,2) by blast
qed

lemma alloc_live:
  assumes st: "slab_step (obj_size c) x i 0xAA (fbits (sheap st x) - {i}) st st'"
    and inv: "mem_inv st S" "\<forall>y \<in> set S. slab_ok (obj_size c) (sheap st y)" "0 < obj_size c"
    and x: "x \<in> set S" "i \<in> fbits (sheap st x)"
  defines "r \<equiv> slab_mem (sheap st x) + i * obj_size c"
  shows "r \<notin> live c st S" "live c st' S = insert r (live c st S)"
    "p \<in> live c st S \<Longrightarrow> b < obj_size c \<Longrightarrow> pmem (km st') (p + b) = pmem (km st) (p + b)"
    "b < obj_size c \<Longrightarrow> pmem (km st') (r + b) = 0xAA"
proof -
  have i: "i < capacity (sheap st x)" using slab_okD(3) inv(2) x by blast
  note d = live_disjoint [OF inv(1,2) x(1) i, folded r_def]
  show "r \<notin> live c st S" using d [of r] x(2) inv(3) by auto
  have "{..< capacity (sheap st x)} - (fbits (sheap st x) - {i}) = insert i ({..< capacity (sheap st x)} - fbits (sheap st x))"
    using i by auto
  then have lx: "slab_live (obj_size c) (sheap st' x) = insert r (slab_live (obj_size c) (sheap st x))"
    using st by (simp add: slab_live_def slab_step_def r_def)
  have lo: "y \<noteq> x \<Longrightarrow> slab_live (obj_size c) (sheap st' y) = slab_live (obj_size c) (sheap st y)" for y
    using st by (simp add: slab_step_def)
  have "live c st' S = (\<Union>y \<in> set S. if y = x then insert r (slab_live (obj_size c) (sheap st x))
     else slab_live (obj_size c) (sheap st y))"
    unfolding live_def by (rule SUP_cong) (use lx lo in auto)
  also have "\<dots> = insert r (live c st S)" using x(1) by (auto simp: live_def split: if_splits)
  finally show "live c st' S = insert r (live c st S)" .
  have pm: "pmem (km st') = memset (pmem (km st)) r 0xAA (obj_size c)" using st by (simp add: slab_step_def r_def)
  then show "b < obj_size c \<Longrightarrow> pmem (km st') (r + b) = 0xAA" by (simp add: memset_eq)
  show "p \<in> live c st S \<Longrightarrow> b < obj_size c \<Longrightarrow> pmem (km st') (p + b) = pmem (km st) (p + b)"
    using d [of p] x(2) unfolding pm memset_eq by auto
qed

lemma free_live:
  assumes st: "slab_step (obj_size c) x i 0xDD (insert i (fbits (sheap st x))) st st'"
    and inv: "mem_inv st S" "\<forall>y \<in> set S. slab_ok (obj_size c) (sheap st y)" "0 < obj_size c"
    and x: "x \<in> set S" "i < capacity (sheap st x)" "i \<notin> fbits (sheap st x)"
  defines "r \<equiv> slab_mem (sheap st x) + i * obj_size c"
  shows "live c st' S = live c st S - {r}"
    "p \<in> live c st S \<Longrightarrow> p \<noteq> r \<Longrightarrow> b < obj_size c \<Longrightarrow> pmem (km st') (p + b) = pmem (km st) (p + b)"
proof -
  note d = live_disjoint [OF inv(1,2) x(1,2), folded r_def]
  have "slab_live (obj_size c) (sheap st' x) = (\<lambda>j. slab_mem (sheap st x) + j * obj_size c) `
    ({..< capacity (sheap st x)} - fbits (sheap st x) - {i})"
    using st by (auto simp: slab_live_def slab_step_def)
  also have "\<dots> = slab_live (obj_size c) (sheap st x) - {r}"
    using inv(3) by (auto simp: slab_live_def r_def)
  finally have lx: "slab_live (obj_size c) (sheap st' x) = slab_live (obj_size c) (sheap st x) - {r}" .
  have lo: "slab_live (obj_size c) (sheap st' y) = slab_live (obj_size c) (sheap st y) - {r}"
    if "y \<noteq> x" "y \<in> set S" for y
  proof -
    have "r \<notin> slab_live (obj_size c) (sheap st y)"
    proof
      assume "r \<in> slab_live (obj_size c) (sheap st y)"
      then obtain j where "j < capacity (sheap st y)" "r = slab_mem (sheap st y) + j * obj_size c"
        by (auto simp: slab_live_def)
      then show False
        using obj_disjoint [OF inv(1) that(2) x(1), of "obj_size c" j i] inv(2,3) that x(1,2) r_def by auto
    qed
    then show ?thesis using st that(1) by (simp add: slab_step_def)
  qed
  have "slab_live (obj_size c) (sheap st' y) = slab_live (obj_size c) (sheap st y) - {r}" if "y \<in> set S" for y
    by (cases "y = x") (simp only: lx, rule lo [OF _ that])
  then have "live c st' S = (\<Union>y \<in> set S. slab_live (obj_size c) (sheap st y) - {r})"
    unfolding live_def by (rule SUP_cong [OF refl])
  then show "live c st' S = live c st S - {r}" unfolding live_def by auto
  have pm: "pmem (km st') = memset (pmem (km st)) r 0xDD (obj_size c)" using st by (simp add: slab_step_def r_def)
  show "p \<in> live c st S \<Longrightarrow> p \<noteq> r \<Longrightarrow> b < obj_size c \<Longrightarrow> pmem (km st') (p + b) = pmem (km st) (p + b)"
    using d [of p] unfolding pm memset_eq by auto
qed

section \<open>Allocation\<close>

text \<open>
  \<open>step_frame\<close>: an operation on a cache moves pages only between that cache and the page
  allocator, and writes only to those pages.
\<close>

definition step_frame :: "slab_st \<Rightarrow> nat list \<Rightarrow> slab_st \<Rightarrow> nat list \<Rightarrow> bool" where
  "step_frame st S st' S' \<longleftrightarrow> managed_pages (km st') = managed_pages (km st)
     \<and> avail_pages (km st') \<union> set (pages_of st' S') = avail_pages (km st) \<union> set (pages_of st S)
     \<and> (\<forall>a. outside a (avail_pages (km st) \<union> set (pages_of st S)) \<longrightarrow> pmem (km st') a = pmem (km st) a)
     \<and> (\<forall>y. y \<notin> avail_pages (km st) \<union> set (pages_of st S) \<longrightarrow> sheap st' y = sheap st y)"

definition alloc_done :: "kmem_cache \<Rightarrow> slab_st \<Rightarrow> nat list \<Rightarrow> nat \<Rightarrow> kmem_cache \<Rightarrow> slab_st \<Rightarrow> nat list \<Rightarrow> bool" where
  "alloc_done c st S r c' st' S' \<longleftrightarrow> r \<noteq> 0 \<and> obj_size c' = obj_size c \<and> r \<notin> live c st S
     \<and> live c' st' S' = insert r (live c st S)
     \<and> (\<forall>p \<in> live c st S. \<forall>b < obj_size c. pmem (km st') (p + b) = pmem (km st) (p + b))
     \<and> (\<forall>b < obj_size c. pmem (km st') (r + b) = 0xAA)"

lemma step_frame_relink:
  "step_frame st S st' S' \<Longrightarrow> x \<in> avail_pages (km st) \<union> set (pages_of st S) \<Longrightarrow>
   step_frame st S (set_slab_next x v st') S'"
  unfolding step_frame_def relink_simps set_slab_next_simps by (metis sheap_relink_other)

lemma step_frame_perm: "set S' = set S'' \<Longrightarrow> step_frame st S st' S' = step_frame st S st' S''"
  by (simp add: step_frame_def pages_of_def)

lemma slab_step_frame:
  assumes "slab_step osz x i b B st st'" "mem_inv st S" "x \<in> set S" "slab_ok osz (sheap st x)"
    "i < capacity (sheap st x)"
  shows "step_frame st S st' S"
proof -
  let ?q = "slab_mem (sheap st x)"
  have q: "x \<in> set (pages_of st S)" "?q \<in> set (pages_of st S)" using assms(3) by (auto simp: pages_of_def)
  have "pmem (km st') a = pmem (km st) a" if "outside a (avail_pages (km st) \<union> set (pages_of st S))" for a
  proof -
    have "outside a {?q}" by (rule outside_mono [OF that]) (use q in auto)
    then show ?thesis using assms(1) obj_in_page [OF assms(4,5)] by (auto simp: slab_step_def memset_eq)
  qed
  moreover have "sheap st' y = sheap st y" if "y \<notin> avail_pages (km st) \<union> set (pages_of st S)" for y
    by (rule slab_step_fields(4) [OF assms(1)]) (use that q in auto)
  ultimately show ?thesis
    using slab_step_fields(5,6) [OF assms(1)] slab_step_mem_inv(2) [OF assms] by (simp add: step_frame_def)
qed

lemma mem_nonzero: "mem_inv st S \<Longrightarrow> x \<in> set S \<Longrightarrow> slab_mem (sheap st x) \<noteq> 0"
  using kpages.managed_page [of "slab_mem (sheap st x)" "km st"] by (auto simp: mem_inv_def pages_of_def)

text \<open>Allocating from slab \<open>x\<close> of the cache, before the list it is on is adjusted.\<close>

lemma alloc_in_slab:
  assumes inv: "mem_inv st S" "\<forall>y \<in> set S. slab_ok (obj_size c) (sheap st y)" "0 < obj_size c"
    and x: "x \<in> set S" "nr_free (sheap st x) \<noteq> 0"
  shows "\<exists>r st'. heap_slab_alloc x (obj_size c) st = (r, st') \<and> alloc_done c st S r c st' S \<and> step_frame st S st' S
    \<and> mem_inv st' S \<and> (\<forall>y \<in> set S. slab_ok (obj_size c) (sheap st' y))
    \<and> nr_free (sheap st' x) = nr_free (sheap st x) - 1
    \<and> (\<forall>y. y \<noteq> x \<longrightarrow> sheap st' y = sheap st y)
    \<and> capacity (sheap st' x) = capacity (sheap st x) \<and> (\<forall>y. slab_next (sheap st' y) = slab_next (sheap st y))"
proof -
  have okx: "slab_ok (obj_size c) (sheap st x)" using inv(2) x(1) by blast
  from heap_slab_alloc_step [OF okx x(2)] obtain i st' where
    st': "i \<in> fbits (sheap st x)" "heap_slab_alloc x (obj_size c) st = (slab_mem (sheap st x) + i * obj_size c, st')"
    "slab_step (obj_size c) x i 0xAA (fbits (sheap st x) - {i}) st st'" "nr_free (sheap st' x) = nr_free (sheap st x) - 1"
    by blast
  note i = slab_okD(3) [OF okx st'(1)]
  note al = alloc_live [OF st'(3) inv x(1) st'(1)]
  have ok': "slab_ok (obj_size c) (sheap st' y)" if "y \<in> set S" for y
    using that inv(2) slab_step_fields(4) [OF st'(3)] st'(3) by (cases "y = x") (auto simp: slab_step_def)
  have done_r: "alloc_done c st S (slab_mem (sheap st x) + i * obj_size c) c st' S"
    unfolding alloc_done_def using al mem_nonzero [OF inv(1) x(1)] by auto
  show ?thesis
    using st'(2,4) done_r slab_step_frame [OF st'(3) inv(1) x(1) okx i] slab_step_mem_inv(1) [OF st'(3) inv(1) x(1) okx i]
      ok' slab_step_fields(2,3,4) [OF st'(3)]
    by blast
qed

lemma alloc_partial:
  assumes "cache_inv c st (x # P) F E"
  shows "\<exists>r c' st' P' F'. kmem_cache_alloc c st = Ok (r, c', st') \<and> cache_inv c' st' P' F' E
    \<and> alloc_done c st (x # P @ F @ E) r c' st' (P' @ F' @ E) \<and> step_frame st (x # P @ F @ E) st' (P' @ F' @ E)"
proof -
  let ?S = "x # P @ F @ E"
  have inv: "mem_inv st ?S" "\<forall>y \<in> set ?S. slab_ok (obj_size c) (sheap st y)" "0 < obj_size c"
    and li: "lists_inv c st (x # P) F E" using assms by (auto simp: cache_inv_def lists_inv_def)
  have px: "partial c = x" "x \<noteq> 0" "nr_free (sheap st x) \<noteq> 0" using li by (auto simp: lists_inv_def)
  from alloc_in_slab [OF inv _ px(3)] obtain r st1 where
    r: "heap_slab_alloc x (obj_size c) st = (r, st1)" "alloc_done c st ?S r c st1 ?S" "step_frame st ?S st1 ?S"
    "mem_inv st1 ?S" "\<forall>y \<in> set ?S. slab_ok (obj_size c) (sheap st1 y)"
    "nr_free (sheap st1 x) = nr_free (sheap st x) - 1" "\<forall>y. y \<noteq> x \<longrightarrow> sheap st1 y = sheap st y"
    "capacity (sheap st1 x) = capacity (sheap st x)" "\<forall>y. slab_next (sheap st1 y) = slab_next (sheap st y)" by auto
  have nx: "(\<lambda>y. slab_next (sheap st1 y)) = (\<lambda>y. slab_next (sheap st y))" using r(9) by auto
  note nxt = r(9) [rule_format]
  have d: "x \<notin> set P" "x \<notin> set F" "x \<notin> set E" using inv(1) by (auto simp: mem_inv_def pages_of_def)
  have same: "y \<in> set (P @ F @ E) \<Longrightarrow> sheap st1 y = sheap st y" for y using r(7) d by auto
  show ?thesis
  proof (cases "nr_free (sheap st1 x) = 0")
    case True
    let ?c = "c\<lparr>partial := slab_next (sheap st1 x), full := x\<rparr>" and ?st = "set_slab_next x (full c) st1"
    have "kmem_cache_alloc c st = Ok (r, ?c, ?st)"
      using px(1,2) r(1) True by (simp add: kmem_cache_alloc_def)
    moreover have "lists_inv ?c ?st P (x # F) E"
      using li True d r(5) same px(2) unfolding lists_inv_def by (auto simp: nx nxt)
    moreover have "mem_inv ?st (P @ (x # F) @ E)"
      using r(4) mem_inv_perm [of ?S "P @ (x # F) @ E" st1] by simp
    moreover have "alloc_done c st ?S r ?c ?st (P @ (x # F) @ E)"
      using r(2) live_perm [of ?S "P @ (x # F) @ E" c st1] by (simp add: alloc_done_def)
    moreover have "step_frame st ?S ?st (P @ (x # F) @ E)"
      using step_frame_relink [OF r(3), of x "full c"] step_frame_perm [of ?S "P @ (x # F) @ E" st ?S ?st]
      by (auto simp: pages_of_def)
    ultimately show ?thesis using assms
      by (intro exI [of _ r] exI [of _ ?c] exI [of _ ?st] exI [of _ P] exI [of _ "x # F"]) (simp add: cache_inv_def)
  next
    case False
    have "kmem_cache_alloc c st = Ok (r, c, st1)"
      using px(1,2) r(1) False by (simp add: kmem_cache_alloc_def)
    moreover have "lists_inv c st1 (x # P) F E"
      using li False d r(5,6,8) same unfolding lists_inv_def by (auto simp: nx nxt)
    ultimately show ?thesis using assms r(2,3,4)
      by (intro exI [of _ r] exI [of _ c] exI [of _ st1] exI [of _ "x # P"] exI [of _ F]) (simp add: cache_inv_def)
  qed
qed

lemma capacity_ge_2:
  assumes "slab_ok osz s" "0 < osz" "osz \<le> 2048"
  shows "2 \<le> capacity s"
  using div_le_mono2 [OF assms(2,3), of 4096] assms(1) by (auto simp: slab_ok_def)

lemma alloc_empty:
  assumes "cache_inv c st [] F (x # E)"
  shows "\<exists>r c' st'. kmem_cache_alloc c st = Ok (r, c', st') \<and> cache_inv c' st' [x] F E
    \<and> alloc_done c st (F @ x # E) r c' st' ([x] @ F @ E) \<and> step_frame st (F @ x # E) st' ([x] @ F @ E)"
proof -
  let ?S = "F @ x # E"
  have inv: "mem_inv st ?S" "\<forall>y \<in> set ?S. slab_ok (obj_size c) (sheap st y)" "0 < obj_size c"
    and li: "lists_inv c st [] F (x # E)" using assms by (auto simp: cache_inv_def lists_inv_def)
  have px: "partial c = 0" "empty c = x" "x \<noteq> 0" "nr_free (sheap st x) = capacity (sheap st x)"
    using li by (auto simp: lists_inv_def)
  have c2: "2 \<le> capacity (sheap st x)" using capacity_ge_2 inv(2,3) assms by (auto simp: cache_inv_def)
  then have nz: "nr_free (sheap st x) \<noteq> 0" using px(4) by simp
  from alloc_in_slab [OF inv _ nz] obtain r st1 where
    r: "heap_slab_alloc x (obj_size c) st = (r, st1)" "alloc_done c st ?S r c st1 ?S" "step_frame st ?S st1 ?S"
    "mem_inv st1 ?S" "\<forall>y \<in> set ?S. slab_ok (obj_size c) (sheap st1 y)"
    "nr_free (sheap st1 x) = nr_free (sheap st x) - 1" "\<forall>y. y \<noteq> x \<longrightarrow> sheap st1 y = sheap st y"
    "capacity (sheap st1 x) = capacity (sheap st x)" "\<forall>y. slab_next (sheap st1 y) = slab_next (sheap st y)" by auto
  have nx: "(\<lambda>y. slab_next (sheap st1 y)) = (\<lambda>y. slab_next (sheap st y))" using r(9) by auto
  note nxt = r(9) [rule_format]
  have d: "x \<notin> set F" "x \<notin> set E" using inv(1) by (auto simp: mem_inv_def pages_of_def)
  have same: "y \<in> set (F @ E) \<Longrightarrow> sheap st1 y = sheap st y" for y using r(7) d by auto
  let ?c = "c\<lparr>empty := slab_next (sheap st1 x), partial := x\<rparr>" and ?st = "set_slab_next x (partial c) st1"
  have "kmem_cache_alloc c st = Ok (r, ?c, ?st)"
    using px r(1,6) c2 by (simp add: kmem_cache_alloc_def)
  moreover have "lists_inv ?c ?st [x] F E"
    using li d r(5,6,8) same px c2 unfolding lists_inv_def by (auto simp: nx nxt)
  moreover have "mem_inv ?st ([x] @ F @ E)"
    using r(4) mem_inv_perm [of ?S "[x] @ F @ E" st1] by simp
  moreover have "alloc_done c st ?S r ?c ?st ([x] @ F @ E)"
    using r(2) live_perm [of ?S "[x] @ F @ E" c st1] by (simp add: alloc_done_def)
  moreover have "step_frame st ?S ?st ([x] @ F @ E)"
    using step_frame_relink [OF r(3), of x "partial c"] step_frame_perm [of ?S "[x] @ F @ E" st ?S ?st]
    by (auto simp: pages_of_def)
  ultimately show ?thesis using assms
    by (intro exI [of _ r] exI [of _ ?c] exI [of _ ?st]) (simp add: cache_inv_def)
qed

lemma step_frame_trans:
  "step_frame st S st1 S1 \<Longrightarrow> step_frame st1 S1 st2 S2 \<Longrightarrow> step_frame st S st2 S2"
  unfolding step_frame_def by metis

lemma live_outside:
  assumes "mem_inv st S" "\<forall>y \<in> set S. slab_ok (obj_size c) (sheap st y)" "p \<in> live c st S" "b < obj_size c"
  shows "outside (p + b) (avail_pages (km st))"
proof -
  from assms(3) obtain y j where y: "y \<in> set S" "p = slab_mem (sheap st y) + j * obj_size c"
    "j < capacity (sheap st y)" by (rule in_liveE)
  have "slab_mem (sheap st y) \<in> managed_pages (km st)" "slab_mem (sheap st y) \<notin> avail_pages (km st)"
    using assms(1) y(1) by (auto simp: mem_inv_def pages_of_def)
  moreover have "j * obj_size c + b < 4096" using obj_in_page [OF _ y(3)] assms(2,4) y(1) by fastforce
  ultimately show ?thesis
    using kpages.held_page_outside [of "km st" _ "j * obj_size c + b"] assms(1) y(2)
    by (simp add: mem_inv_def add.assoc)
qed

lemma mem_inv_km:
  assumes "mem_inv st S" "kmem_inv k" "managed_pages k = managed_pages (km st)"
    "avail_pages k \<inter> set (pages_of st S) = {}"
  shows "mem_inv (st\<lparr>km := k\<rparr>) S"
  using assms by (auto simp: mem_inv_def pages_of_def)

lemma km_simps [simp]:
  "lists_inv c (st\<lparr>km := k\<rparr>) P F E = lists_inv c st P F E" "live c (st\<lparr>km := k\<rparr>) S = live c st S"
  "pages_of (st\<lparr>km := k\<rparr>) S = pages_of st S"
  by (simp_all add: lists_inv_def live_def pages_of_def)

text \<open>Two fresh pages become an empty slab of the cache.\<close>

lemma add_slab:
  assumes inv: "mem_inv st S" "\<forall>y \<in> set S. slab_ok (obj_size c) (sheap st y)" "0 < obj_size c" "obj_size c \<le> 2048"
    and k1: "kalloc (km st) = Ok (s, k1)" "s \<noteq> 0" and k2: "kalloc k1 = Ok (p, k2)" "p \<noteq> 0"
  defines "st' \<equiv> set_slab s (slab_init p (min 64 (4096 div obj_size c))) (st\<lparr>km := k2\<rparr>)"
  shows "mem_inv st' (s # S)" "\<forall>y \<in> set (s # S). slab_ok (obj_size c) (sheap st' y)" "s \<notin> set S"
    "live c st' (s # S) = live c st S" "step_frame st S st' (s # S)"
    "q \<in> live c st S \<Longrightarrow> b < obj_size c \<Longrightarrow> pmem (km st') (q + b) = pmem (km st) (q + b)"
proof -
  have ki: "kmem_inv (km st)" using inv(1) by (simp add: mem_inv_def)
  note a1 = kpages.alloc_some [OF ki k1] kpages.alloc_inv [OF ki k1(1)]
  then have ki1: "kmem_inv k1" by simp
  note a2 = kpages.alloc_some [OF ki1 k2] kpages.alloc_inv [OF ki1 k2(1)]
  have av: "avail_pages k2 = avail_pages (km st) - {s, p}" "s \<in> avail_pages (km st)" "p \<in> avail_pages (km st)" "p \<noteq> s"
    "managed_pages k2 = managed_pages (km st)" "kmem_inv k2" using a1 a2 by auto
  have held: "set (pages_of st S) \<inter> avail_pages (km st) = {}" using inv(1) by (auto simp: mem_inv_def)
  then show sS: "s \<notin> set S" using av(2) by (auto simp: pages_of_def)
  have sh: "sheap st' s = slab_init p (min 64 (4096 div obj_size c))" "y \<noteq> s \<Longrightarrow> sheap st' y = sheap st y"
    "km st' = k2" for y by (simp_all add: st'_def set_slab_def)
  have shS: "y \<in> set S \<Longrightarrow> sheap st' y = sheap st y" for y using sh(2) sS by metis
  have m: "map (\<lambda>x. slab_mem (sheap st' x)) S = map (\<lambda>x. slab_mem (sheap st x)) S" using shS by simp
  have pgs: "pages_of st' (s # S) = s # S @ p # map (\<lambda>x. slab_mem (sheap st x)) S"
    using m sh(1) by (simp add: pages_of_def slab_init_def)
  then have set_pgs: "set (pages_of st' (s # S)) = {s, p} \<union> set (pages_of st S)" by (auto simp: pages_of_def)
  have "distinct (pages_of st' (s # S))"
    unfolding pgs using inv(1) held av(2-4) by (auto simp: mem_inv_def pages_of_def)
  then show "mem_inv st' (s # S)"
    using inv(1) av set_pgs sh(3) kpages.avail_managed [OF ki] by (auto simp: mem_inv_def)
  have ok: "slab_ok (obj_size c) (sheap st' s)" "fbits (sheap st' s) = {..< capacity (sheap st' s)}"
    using slab_init_ok [of "obj_size c" p] inv(3,4) sh(1) by (auto simp: slab_init_def)
  then show "\<forall>y \<in> set (s # S). slab_ok (obj_size c) (sheap st' y)" using inv(2) sh(2) by (metis set_ConsD)
  have "slab_live (obj_size c) (sheap st' s) = {}" unfolding slab_live_def ok(2) by simp
  then show "live c st' (s # S) = live c st S" using shS by (simp add: live_def)
  have pm: "outside x (avail_pages (km st)) \<Longrightarrow> pmem k2 x = pmem (km st) x" for x
    using kpages.alloc_frame [OF ki k1(1)] kpages.alloc_frame [OF ki1 k2(1)] a1 outside_mono [of x _ "avail_pages k1"]
    by (metis Diff_subset)
  have "y \<notin> avail_pages (km st) \<Longrightarrow> sheap st' y = sheap st y" for y using sh(2) av(2) by metis
  with pm show "step_frame st S st' (s # S)"
    unfolding step_frame_def set_pgs using av(1-5) sh(3) by auto
  show "q \<in> live c st S \<Longrightarrow> b < obj_size c \<Longrightarrow> pmem (km st') (q + b) = pmem (km st) (q + b)"
    using pm live_outside [OF inv(1,2)] sh(3) by simp
qed

lemma alloc_new:
  assumes ci: "cache_inv c st [] F []"
    and k1: "kalloc (km st) = Ok (s, k1)" "s \<noteq> 0" and k2: "kalloc k1 = Ok (p, k2)" "p \<noteq> 0"
  shows "\<exists>r c' st'. kmem_cache_alloc c st = Ok (r, c', st') \<and> cache_inv c' st' [s] F []
    \<and> alloc_done c st F r c' st' (s # F) \<and> step_frame st F st' (s # F)"
proof -
  have inv: "mem_inv st F" "\<forall>y \<in> set F. slab_ok (obj_size c) (sheap st y)" "0 < obj_size c" "obj_size c \<le> 2048"
    and li: "lists_inv c st [] F []" using ci by (auto simp: cache_inv_def lists_inv_def)
  define st1 where "st1 = set_slab s (slab_init p (min 64 (4096 div obj_size c))) (st\<lparr>km := k2\<rparr>)"
  note n = add_slab [OF inv k1 k2, folded st1_def]
  have sh: "sheap st1 s = slab_init p (min 64 (4096 div obj_size c))" "y \<noteq> s \<Longrightarrow> sheap st1 y = sheap st y"
    for y by (simp_all add: st1_def set_slab_def)
  have c2: "2 \<le> capacity (sheap st1 s)" using capacity_ge_2 n(2) inv(3,4) by auto
  have nf: "nr_free (sheap st1 s) = capacity (sheap st1 s)" using sh(1) by (simp add: slab_init_def)
  have nz: "nr_free (sheap st1 s) \<noteq> 0" using c2 nf by simp
  from alloc_in_slab [OF n(1,2) inv(3) _ nz] obtain r st2 where
    r: "heap_slab_alloc s (obj_size c) st1 = (r, st2)" "alloc_done c st1 (s # F) r c st2 (s # F)"
    "step_frame st1 (s # F) st2 (s # F)" "mem_inv st2 (s # F)"
    "\<forall>y \<in> set (s # F). slab_ok (obj_size c) (sheap st2 y)"
    "nr_free (sheap st2 s) = nr_free (sheap st1 s) - 1" "\<forall>y. y \<noteq> s \<longrightarrow> sheap st2 y = sheap st1 y"
    "capacity (sheap st2 s) = capacity (sheap st1 s)" by auto
  have same: "y \<in> set F \<Longrightarrow> sheap st2 y = sheap st y" for y using r(7) sh(2) n(3) by metis
  let ?c = "c\<lparr>partial := s\<rparr>" and ?st = "set_slab_next s (partial c) st2"
  have p0: "partial c = 0" "empty c = 0" using li by (auto simp: lists_inv_def)
  then have "kmem_cache_alloc c st = Ok (r, ?c, ?st)"
    using k1 k2 r(1,6) c2 nf by (simp add: kmem_cache_alloc_def Let_def flip: st1_def)
  moreover have "lists_inv ?c ?st [s] F []"
  proof -
    have "lseg (\<lambda>a. slab_next (sheap st2 a)) (full c) F"
      using li lseg_cong [of F "\<lambda>a. slab_next (sheap st2 a)" "\<lambda>a. slab_next (sheap st a)"] same
      by (simp add: lists_inv_def)
    moreover have "\<forall>x \<in> set F. nr_free (sheap st2 x) = 0" using li same by (simp add: lists_inv_def)
    ultimately show ?thesis
      using n(3) r(5,6,8) p0 c2 nf k1(2) unfolding lists_inv_def by simp
  qed
  moreover have "alloc_done c st F r ?c ?st (s # F)"
    using r(2) n(4,6) by (simp add: alloc_done_def)
  moreover have "step_frame st F ?st (s # F)"
    using step_frame_trans [OF n(5) step_frame_relink [OF r(3)], of s "partial c"] by (simp add: pages_of_def)
  ultimately show ?thesis using r(4) inv(3,4)
    by (intro exI [of _ r] exI [of _ ?c] exI [of _ ?st]) (simp add: cache_inv_def)
qed

text \<open>When the pages run out the cache is as before, and so is the set of free pages.\<close>

lemma alloc_fails:
  assumes ci: "cache_inv c st [] F []" and ca: "kalloc (km st) = Ok (s, k1)"
    and z: "s = 0 \<or> kalloc k1 = Ok (0, k2)"
  shows "\<exists>st'. kmem_cache_alloc c st = Ok (0, c, st') \<and> cache_inv c st' [] F [] \<and> live c st' F = live c st F
    \<and> step_frame st F st' F \<and> avail_pages (km st') = avail_pages (km st) \<and> card (avail_pages (km st)) < 2
    \<and> (\<forall>q \<in> live c st F. \<forall>b < obj_size c. pmem (km st') (q + b) = pmem (km st) (q + b))"
proof -
  have p0: "partial c = 0" "empty c = 0" and mi: "mem_inv st F"
    and oks: "\<forall>y \<in> set F. slab_ok (obj_size c) (sheap st y)"
    using ci by (auto simp: cache_inv_def lists_inv_def)
  then have ki: "kmem_inv (km st)" by (simp add: mem_inv_def)
  show ?thesis
  proof (cases "s = 0")
    case True
    then have "k1 = km st" "avail_pages (km st) = {}" using kpages.alloc_none [OF ki] ca by auto
    with True p0 ca ci show ?thesis
      by (intro exI [of _ st]) (simp add: kmem_cache_alloc_def step_frame_def)
  next
    case False
    then have k2: "kalloc k1 = Ok (0, k2)" using z by simp
    note a = kpages.alloc_some [OF ki ca False] kpages.alloc_inv [OF ki ca]
    from a have e: "k2 = k1" "avail_pages k1 = {}" using kpages.alloc_none [of k1 k2] k2 by auto
    have sm: "s \<in> managed_pages k1" "s \<notin> avail_pages k1" using a kpages.avail_managed [OF ki] by auto
    obtain k3 where k3: "kfree s k1 = Ok k3" using kpages.free_total [OF _ sm] a by blast
    note f = kpages.free_inv [OF _ sm k3]
    have av: "avail_pages (km st) = {s}" using a e(2) by auto
    have av3: "avail_pages k3 = avail_pages (km st)" using f a e(2) av by auto
    have run: "kmem_cache_alloc c st = Ok (0, c, st\<lparr>km := k3\<rparr>)"
      using p0 ca False k2 e(1) k3 by (simp add: kmem_cache_alloc_def)
    have pm: "pmem k3 x = pmem (km st) x" if "outside x (avail_pages (km st))" for x
      using that kpages.alloc_frame [OF ki ca] kpages.free_frame [OF _ sm k3, of x] a e(2) av by simp
    have "mem_inv (st\<lparr>km := k3\<rparr>) F"
      by (rule mem_inv_km [OF mi]) (use f a av3 mi in \<open>auto simp: mem_inv_def\<close>)
    moreover have "step_frame st F (st\<lparr>km := k3\<rparr>) F" unfolding step_frame_def using f a av3 pm by simp
    moreover have "pmem k3 (q + b) = pmem (km st) (q + b)" if "q \<in> live c st F" "b < obj_size c" for q b
      by (rule pm [OF live_outside [OF mi oks that]])
    ultimately show ?thesis using run ci av av3
      by (intro exI [of _ "st\<lparr>km := k3\<rparr>"]) (simp add: cache_inv_def)
  qed
qed

lemma kmem_cache_alloc_ok:
  assumes "cache_inv c st P F E"
  shows "\<exists>r c' st' P' F' E'. kmem_cache_alloc c st = Ok (r, c', st') \<and> cache_inv c' st' P' F' E'
    \<and> step_frame st (P @ F @ E) st' (P' @ F' @ E')
    \<and> (alloc_done c st (P @ F @ E) r c' st' (P' @ F' @ E')
        \<or> r = 0 \<and> c' = c \<and> P = [] \<and> E = [] \<and> P' = [] \<and> E' = [] \<and> F' = F \<and> live c st' F = live c st F
          \<and> card (avail_pages (km st)) < 2
          \<and> (\<forall>q \<in> live c st F. \<forall>b < obj_size c. pmem (km st') (q + b) = pmem (km st) (q + b)))"
proof -
  have ki: "kmem_inv (km st)" using assms by (simp add: cache_inv_def mem_inv_def)
  consider x P2 where "P = x # P2" | x E2 where "P = []" "E = x # E2" | "P = []" "E = []"
    by (cases P; cases E) auto
  then show ?thesis
  proof cases
    case 1
    with alloc_partial [of c st x P2 F E] assms show ?thesis by fastforce
  next
    case 2
    with alloc_empty [of c st F x E2] assms show ?thesis by fastforce
  next
    case 3
    obtain s k1 where s: "kalloc (km st) = Ok (s, k1)" using kpages.alloc_total [OF ki] by blast
    obtain p k2 where p: "kalloc k1 = Ok (p, k2)"
      using kpages.alloc_total [of k1] kpages.alloc_inv [OF ki s] by blast
    show ?thesis
    proof (cases "s \<noteq> 0 \<and> p \<noteq> 0")
      case True
      with alloc_new [of c st F s k1 p k2] assms 3 s p show ?thesis by fastforce
    next
      case False
      with alloc_fails [of c st F s k1 k2] assms 3 s p show ?thesis by fastforce
    qed
  qed
qed

end
