(* ===== verification/Slab_Free.thy ===== *)
theory Slab_Free
  imports Slab_Spec
begin

text \<open>
  Releasing an object to a slab cache (\<open>kmem_cache_free\<close> of kernel/slab.c): the traversals end,
  the slab moves to the list it belongs on, and surplus empty slabs go back to the page
  allocator. The last section states the properties of the slab allocator.
\<close>

section \<open>List traversals\<close>

abbreviation nexts :: "slab_st \<Rightarrow> nat \<Rightarrow> nat" where
  "nexts st \<equiv> \<lambda>a. slab_next (sheap st a)"

definition in_slab :: "slab_st \<Rightarrow> nat \<Rightarrow> nat \<Rightarrow> nat \<Rightarrow> bool" where
  "in_slab st osz obj x \<longleftrightarrow> slab_mem (sheap st x) \<le> obj \<and> obj < slab_mem (sheap st x) + capacity (sheap st x) * osz"

lemma find_slab_eq:
  "lseg (nexts st) s xs \<Longrightarrow> find_slab (sheap st) osz obj s =
     Some (case find (in_slab st osz obj) xs of None \<Rightarrow> 0 | Some x \<Rightarrow> x)"
proof (induction xs arbitrary: s)
  case Nil
  then show ?case by (subst find_slab.simps) simp
next
  case (Cons x xs)
  then show ?case by (subst find_slab.simps) (simp flip: in_slab_def)
qed

lemma find_link_eq:
  "lseg (nexts st) p (as @ x # bs) \<Longrightarrow> x \<notin> set as \<Longrightarrow> find_link (sheap st) x q p = Some (last (q # as), x)"
proof (induction as arbitrary: q p)
  case Nil
  then show ?case by (subst find_link.simps) simp
next
  case (Cons a as)
  then have "find_link (sheap st) x a (slab_next (sheap st a)) = Some (last (a # as), x)" by simp
  with Cons.prems show ?case by (subst find_link.simps) auto
qed

text \<open>\<open>relinked A st st'\<close>: only \<open>next\<close> fields of slabs in \<open>A\<close> differ.\<close>

definition relinked :: "nat set \<Rightarrow> slab_st \<Rightarrow> slab_st \<Rightarrow> bool" where
  "relinked A st st' \<longleftrightarrow> km st' = km st \<and> (\<forall>y. y \<notin> A \<longrightarrow> sheap st' y = sheap st y)
     \<and> (\<forall>y. (sheap st' y)\<lparr>slab_next := 0\<rparr> = (sheap st y)\<lparr>slab_next := 0\<rparr>)"

lemma relinked_refl [simp]: "relinked A st st"
  by (simp add: relinked_def)

lemma relinked_set: "relinked A st st' \<Longrightarrow> a \<in> A \<Longrightarrow> relinked A st (set_slab_next a v st')"
  by (auto simp: relinked_def set_slab_next_def set_slab_def)

lemma relinked_fields:
  assumes "relinked A st st'"
  shows "slab_mem (sheap st' y) = slab_mem (sheap st y)" "capacity (sheap st' y) = capacity (sheap st y)"
    "nr_free (sheap st' y) = nr_free (sheap st y)" "fbits (sheap st' y) = fbits (sheap st y)"
    "slab_ok osz (sheap st' y) = slab_ok osz (sheap st y)" "slab_live osz (sheap st' y) = slab_live osz (sheap st y)"
proof -
  have e: "(sheap st' y)\<lparr>slab_next := 0\<rparr> = (sheap st y)\<lparr>slab_next := 0\<rparr>" using assms by (simp add: relinked_def)
  from arg_cong [OF e, of slab_mem] show "slab_mem (sheap st' y) = slab_mem (sheap st y)" by simp
  from arg_cong [OF e, of capacity] show "capacity (sheap st' y) = capacity (sheap st y)" by simp
  from arg_cong [OF e, of nr_free] show "nr_free (sheap st' y) = nr_free (sheap st y)" by simp
  from arg_cong [OF e, of fbits] show "fbits (sheap st' y) = fbits (sheap st y)" by simp
  from arg_cong [OF e, of "slab_ok osz"] show "slab_ok osz (sheap st' y) = slab_ok osz (sheap st y)" by simp
  from arg_cong [OF e, of "slab_live osz"] show "slab_live osz (sheap st' y) = slab_live osz (sheap st y)" by simp
qed

lemma relinked_state:
  assumes "relinked A st st'"
  shows "pages_of st' S = pages_of st S" "live c st' S = live c st S" "mem_inv st' S = mem_inv st S" "km st' = km st"
proof -
  show "km st' = km st" using assms by (simp add: relinked_def)
  then show "pages_of st' S = pages_of st S" "live c st' S = live c st S" "mem_inv st' S = mem_inv st S"
    using relinked_fields [OF assms] by (simp_all add: pages_of_def live_def mem_inv_def)
qed

lemma relinked_frame:
  assumes "relinked A st1 st2" "A \<subseteq> set S" "step_frame st S st1 S'"
  shows "step_frame st S st2 S'"
proof -
  have "sheap st2 y = sheap st y" if "y \<notin> avail_pages (km st) \<union> set (pages_of st S)" for y
  proof -
    have "y \<notin> A" using that assms(2) by (auto simp: pages_of_def)
    then have "sheap st2 y = sheap st1 y" using assms(1) by (simp add: relinked_def)
    also have "\<dots> = sheap st y" using assms(3) that by (simp add: step_frame_def)
    finally show ?thesis .
  qed
  with assms(3) show ?thesis unfolding step_frame_def relinked_state [OF assms(1)] by simp
qed

lemma move_slab_ok:
  assumes l: "lseg (nexts st) h1 (as @ x # bs)" "lseg (nexts st) h2 ys"
    and d: "distinct (as @ x # bs @ ys)"
  shows "\<exists>h1' st'. move_slab x h1 h2 st = Some (h1', x, st') \<and> relinked (insert x (set as)) st st'
    \<and> lseg (nexts st') h1' (as @ bs) \<and> lseg (nexts st') x (x # ys)"
proof (cases as rule: rev_cases)
  case Nil
  let ?st = "set_slab_next x h2 st"
  have "find_link (sheap st) x 0 h1 = Some (0, x)" using find_link_eq [of st h1 as x bs 0] l Nil by simp
  then have "move_slab x h1 h2 st = Some (slab_next (sheap st x), x, ?st)"
    by (simp add: move_slab_def Let_def)
  moreover have "relinked (insert x (set as)) st ?st" by (intro relinked_set) auto
  ultimately show ?thesis using l d Nil by auto
next
  case (snoc cs q)
  let ?nx = "slab_next (sheap st x)"
  let ?st = "set_slab_next x h2 (set_slab_next q ?nx st)"
  have nz: "q \<noteq> 0" "x \<noteq> 0" using lseg_nonzero [OF l(1)] snoc by auto
  have "find_link (sheap st) x 0 h1 = Some (q, x)" using find_link_eq [of st h1 as x bs 0] l d snoc by auto
  then have "move_slab x h1 h2 st = Some (h1, x, ?st)" using nz by (simp add: move_slab_def Let_def)
  moreover have "relinked (insert x (set as)) st ?st" by (intro relinked_set) (auto simp: snoc)
  moreover have "lseg ((nexts st)(q := ?nx)) h1 (as @ bs)"
    using lseg_remove_mid [of "nexts st" h1 cs q x bs] l(1) d snoc by auto
  ultimately show ?thesis using l d snoc nz by (intro exI [of _ h1] exI [of _ ?st]) auto
qed

section \<open>Giving empty slabs back\<close>

lemma return_slab:
  assumes mi: "mem_inv st (S @ d # ys)"
  shows "\<exists>k. bindR (kfree (slab_mem (sheap st d)) (km st)) (kfree d) = Ok k \<and> mem_inv (st\<lparr>km := k\<rparr>) (S @ ys)
    \<and> managed_pages k = managed_pages (km st)
    \<and> avail_pages k = avail_pages (km st) \<union> {d, slab_mem (sheap st d)}
    \<and> (\<forall>q \<in> set (pages_of st (S @ ys)). \<forall>i < 4096. pmem k (q + i) = pmem (km st) (q + i))
    \<and> (\<forall>a. outside a (avail_pages (km st) \<union> {d, slab_mem (sheap st d)}) \<longrightarrow> pmem k a = pmem (km st) a)"
proof -
  let ?m = "slab_mem (sheap st d)"
  have ki: "kmem_inv (km st)" using mi by (simp add: mem_inv_def)
  have m: "?m \<in> managed_pages (km st)" "?m \<notin> avail_pages (km st)" "d \<in> managed_pages (km st)"
    "d \<notin> avail_pages (km st)" "d \<noteq> ?m" using mi by (auto simp: mem_inv_def pages_of_def)
  obtain k1 where k1: "kfree ?m (km st) = Ok k1" using kpages.free_total [OF ki m(1,2)] by blast
  note f1 = kpages.free_inv [OF ki m(1,2) k1]
  have d1: "kmem_inv k1" "d \<in> managed_pages k1" "d \<notin> avail_pages k1" using f1 m by auto
  obtain k2 where k2: "kfree d k1 = Ok k2" using kpages.free_total [OF d1] by blast
  note f2 = kpages.free_inv [OF d1 k2]
  have run: "bindR (kfree ?m (km st)) (kfree d) = Ok k2" using k1 k2 by simp
  have av: "avail_pages k2 = avail_pages (km st) \<union> {d, ?m}" "managed_pages k2 = managed_pages (km st)" using f1 f2 by auto
  have sep: "q \<in> managed_pages (km st)" "q \<notin> avail_pages (km st)" "q \<noteq> d" "q \<noteq> ?m"
    if "q \<in> set (pages_of st (S @ ys))" for q
    using that mi by (auto simp: mem_inv_def pages_of_def)
  have "mem_inv st (S @ ys)" using mi by (auto simp: mem_inv_def pages_of_def)
  then have inv': "mem_inv (st\<lparr>km := k2\<rparr>) (S @ ys)"
  proof (rule mem_inv_km)
    show "avail_pages k2 \<inter> set (pages_of st (S @ ys)) = {}" unfolding av(1) using sep by blast
  qed (use f2 av(2) in auto)
  have keep: "pmem k2 (q + i) = pmem (km st) (q + i)" if q: "q \<in> set (pages_of st (S @ ys))" and i: "i < 4096" for q i
    using kpages.free_keeps_held_page [OF ki m(1,2) k1 sep(1,2) [OF q] sep(4) [OF q] i]
      kpages.free_keeps_held_page [OF d1 k2 _ _ sep(3) [OF q] i] sep [OF q] f1 by simp
  have fr: "pmem k2 a = pmem (km st) a" if "outside a (avail_pages (km st) \<union> {d, ?m})" for a
    using kpages.free_frame [OF ki m(1,2) k1, of a] kpages.free_frame [OF d1 k2, of a] that f1 by auto
  show ?thesis
    by (intro exI [of _ k2] conjI run inv' av ballI allI impI) (use keep fr in blast)+
qed

lemma trim_loop:
  assumes "lseg (nexts st) (slab_next (sheap st pp)) ys" "mem_inv st (S @ ys)" "pp \<in> set S" "pp \<noteq> 0"
  shows "\<exists>st'. trim_empty (Suc n) pp st = Some (Ok (pp, st')) \<and> slab_next (sheap st' pp) = 0
    \<and> relinked {pp} st (st'\<lparr>km := km st\<rparr>) \<and> mem_inv st' S \<and> step_frame st (S @ ys) st' S
    \<and> (\<forall>q \<in> set (pages_of st S). \<forall>i < 4096. pmem (km st') (q + i) = pmem (km st) (q + i))"
  using assms
proof (induction ys arbitrary: st)
  case Nil
  then have "trim_empty (Suc n) pp st = Some (Ok (pp, st))" by (subst trim_empty.simps) simp
  with Nil show ?case by (auto simp: step_frame_def)
next
  case (Cons d ys)
  let ?st1 = "set_slab_next pp (slab_next (sheap st d)) st"
  have d: "slab_next (sheap st pp) = d" "d \<noteq> 0" "d \<noteq> pp" "lseg (nexts st) (slab_next (sheap st d)) ys" "pp \<notin> set ys"
    using Cons.prems by (auto simp: mem_inv_def pages_of_def)
  have mi1: "mem_inv ?st1 (S @ d # ys)" using Cons.prems by simp
  from return_slab [OF mi1] obtain k where
    k: "bindR (kfree (slab_mem (sheap ?st1 d)) (km ?st1)) (kfree d) = Ok k" "mem_inv (?st1\<lparr>km := k\<rparr>) (S @ ys)"
    "managed_pages k = managed_pages (km ?st1)"
    "avail_pages k = avail_pages (km ?st1) \<union> {d, slab_mem (sheap ?st1 d)}"
    "\<forall>q \<in> set (pages_of ?st1 (S @ ys)). \<forall>i < 4096. pmem k (q + i) = pmem (km ?st1) (q + i)"
    "\<forall>a. outside a (avail_pages (km ?st1) \<union> {d, slab_mem (sheap ?st1 d)}) \<longrightarrow> pmem k a = pmem (km ?st1) a"
    by blast
  let ?st2 = "?st1\<lparr>km := k\<rparr>"
  have step: "trim_empty (Suc n) pp st = trim_empty (Suc n) pp ?st2"
    using d Cons.prems(4) k(1) by (subst trim_empty.simps) (simp add: Let_def)
  have l2: "lseg (nexts ?st2) (slab_next (sheap ?st2 pp)) ys" using d by simp
  from Cons.IH [OF l2 k(2) Cons.prems(3,4)] obtain st' where
    st': "trim_empty (Suc n) pp ?st2 = Some (Ok (pp, st'))" "slab_next (sheap st' pp) = 0"
    "relinked {pp} ?st2 (st'\<lparr>km := km ?st2\<rparr>)" "mem_inv st' S" "step_frame ?st2 (S @ ys) st' S"
    "\<forall>q \<in> set (pages_of ?st2 S). \<forall>i < 4096. pmem (km st') (q + i) = pmem (km ?st2) (q + i)" by blast
  have rl: "relinked {pp} st (st'\<lparr>km := km st\<rparr>)"
    using st'(3) relinked_set [OF relinked_refl, of pp "{pp}" st] by (auto simp: relinked_def)
  have fr: "step_frame st (S @ d # ys) ?st2 (S @ ys)"
  proof -
    have "pp \<in> set (pages_of st (S @ d # ys))" using Cons.prems(3) by (simp add: pages_of_def)
    then have "y \<noteq> pp" if "y \<notin> avail_pages (km st) \<union> set (pages_of st (S @ d # ys))" for y
      using that by auto
    then have "sheap ?st2 y = sheap st y" if "y \<notin> avail_pages (km st) \<union> set (pages_of st (S @ d # ys))" for y
      using that by (simp add: sheap_relink_other)
    moreover have "pmem k a = pmem (km st) a"
      if o: "outside a (avail_pages (km st) \<union> set (pages_of st (S @ d # ys)))" for a
    proof -
      have "outside a (avail_pages (km ?st1) \<union> {d, slab_mem (sheap ?st1 d)})"
        by (rule outside_mono [OF o]) (auto simp: pages_of_def)
      from k(6) [rule_format, OF this] show ?thesis by simp
    qed
    moreover have "avail_pages k \<union> set (pages_of ?st2 (S @ ys)) = avail_pages (km st) \<union> set (pages_of st (S @ d # ys))"
      unfolding k(4) by (auto simp: pages_of_def)
    ultimately show ?thesis
      unfolding step_frame_def using k(3) by simp
  qed
  have "pmem (km st') (q + i) = pmem (km st) (q + i)" if "q \<in> set (pages_of st S)" "i < 4096" for q i
    using st'(6) k(5) that by (auto simp: pages_of_def)
  with step st' rl step_frame_trans [OF fr st'(5)] show ?case by auto
qed

text \<open>What \<open>free_tail\<close> makes of a state: at most two empty slabs are left.\<close>

definition trimmed :: "kmem_cache \<Rightarrow> slab_st \<Rightarrow> nat list \<Rightarrow> nat list \<Rightarrow> nat list \<Rightarrow> slab_st \<Rightarrow> bool" where
  "trimmed c st P F E st' \<longleftrightarrow> lists_inv c st' P F (take 2 E) \<and> mem_inv st' (P @ F @ take 2 E)
     \<and> step_frame st (P @ F @ E) st' (P @ F @ take 2 E) \<and> live c st' (P @ F @ take 2 E) = live c st (P @ F @ E)
     \<and> (\<forall>q \<in> set (pages_of st (P @ F)). \<forall>i < 4096. pmem (km st') (q + i) = pmem (km st) (q + i))"

lemma lists_inv_relinked:
  assumes li: "lists_inv c st P F E" and rl: "relinked A st (st'\<lparr>km := km st\<rparr>)"
    and A: "A \<inter> set (P @ F) = {}" and e: "lseg (nexts st') (empty c) E'" "set E' \<subseteq> set E"
  shows "lists_inv c st' P F E'"
proof -
  note f = relinked_fields [OF rl, simplified]
  have "slab_next (sheap st' y) = slab_next (sheap st y)" if "y \<in> set (P @ F)" for y
    using that A rl by (auto simp: relinked_def)
  then have "lseg (nexts st') p P = lseg (nexts st) p P" "lseg (nexts st') p F = lseg (nexts st) p F" for p
    by (intro lseg_cong; simp)+
  with li e f show ?thesis unfolding lists_inv_def by auto
qed

lemma live_free_slab: "slab_ok osz s \<Longrightarrow> nr_free s = capacity s \<Longrightarrow> slab_live osz s = {}"
  by (simp add: slab_live_def slab_empty_bits)

lemma live_drop_empty:
  assumes "lists_inv c st P F E" "set E' \<subseteq> set E"
  shows "live c st (P @ F @ E') = live c st (P @ F)"
proof -
  have "slab_live (obj_size c) (sheap st x) = {}" if "x \<in> set E'" for x
    using live_free_slab assms that by (auto simp: lists_inv_def)
  then show ?thesis by (simp add: live_def)
qed

lemma free_tail_ok:
  assumes li: "lists_inv c st P F E" and mi: "mem_inv st (P @ F @ E)"
  shows "\<exists>st'. free_tail c st = Some (Ok (c, st')) \<and> trimmed c st P F E st'"
proof -
  consider "E = []" | a where "E = [a]" | a b ys where "E = a # b # ys" by (cases E rule: remdups_adj.cases) auto
  then show ?thesis
  proof cases
    case 1
    then have "free_tail c st = Some (Ok (c, st))" using li
      by (simp add: free_tail_def lists_inv_def trim_empty.simps)
    with 1 li mi show ?thesis by (auto simp: trimmed_def step_frame_def)
  next
    case 2
    let ?st = "set_slab_next a 0 st"
    have e: "empty c = a" "a \<noteq> 0" "slab_next (sheap st a) = 0" using li 2 by (auto simp: lists_inv_def)
    then have run: "free_tail c st = Some (Ok (c, ?st))" by (simp add: free_tail_def trim_empty.simps)
    have "(nexts st)(a := 0) = nexts st" using e by auto
    then have "lists_inv c ?st P F [a]" using li 2 e by (auto simp: lists_inv_def)
    moreover have "step_frame st (P @ F @ E) ?st (P @ F @ E)"
      by (rule step_frame_relink) (auto simp: step_frame_def pages_of_def 2)
    ultimately show ?thesis using run mi 2 by (auto simp: trimmed_def)
  next
    case 3
    let ?S = "P @ F @ [a, b]"
    have e: "empty c = a" "a \<noteq> 0" "slab_next (sheap st a) = b" "b \<noteq> 0" "lseg (nexts st) (slab_next (sheap st b)) ys"
      using li 3 by (auto simp: lists_inv_def)
    have mi': "mem_inv st (?S @ ys)" using mi 3 by simp
    have dst: "b \<notin> set (P @ F)" "a \<noteq> b" using mi 3 by (auto simp: mem_inv_def pages_of_def)
    from trim_loop [OF e(5) mi', of 0] e(4) obtain st' where
      st': "trim_empty (Suc 0) b st = Some (Ok (b, st'))" "slab_next (sheap st' b) = 0"
      "relinked {b} st (st'\<lparr>km := km st\<rparr>)" "mem_inv st' ?S" "step_frame st (?S @ ys) st' ?S"
      "\<forall>q \<in> set (pages_of st ?S). \<forall>i < 4096. pmem (km st') (q + i) = pmem (km st) (q + i)" by auto
    let ?st = "set_slab_next b 0 st'"
    have "trim_empty 0 a st = trim_empty (Suc 0) b st" using e by (subst trim_empty.simps) simp
    then have run: "free_tail c st = Some (Ok (c, ?st))" using st'(1) e by (simp add: free_tail_def)
    have rl: "relinked {b} st (?st\<lparr>km := km st\<rparr>)"
      using st'(3) by (auto simp: relinked_def set_slab_next_def set_slab_def)
    have na: "slab_next (sheap ?st a) = b"
      using rl dst(2) e(3) by (auto simp: relinked_def)
    then have "lseg (nexts ?st) a [a, b]"
      using e(2,4) dst(2) unfolding lseg.simps next_at_relink by simp
    then have li': "lists_inv c ?st P F [a, b]"
      using lists_inv_relinked [OF li rl] dst(1) e(1) 3 by auto
    have "step_frame st (?S @ ys) ?st ?S"
      by (rule step_frame_relink [OF st'(5)]) (auto simp: pages_of_def)
    moreover have "live c ?st ?S = live c st (P @ F @ E)"
      using relinked_state(2) [OF st'(3), of c ?S] live_drop_empty [OF li, of "[a, b]"] live_drop_empty [OF li, of E] 3 by simp
    ultimately show ?thesis
      using run li' st'(4,6) 3 by (intro exI [of _ ?st]) (auto simp: trimmed_def pages_of_def numeral_2_eq_2)
  qed
qed

section \<open>Release\<close>

definition free_done :: "kmem_cache \<Rightarrow> slab_st \<Rightarrow> nat list \<Rightarrow> nat \<Rightarrow> kmem_cache \<Rightarrow> slab_st \<Rightarrow> nat list \<Rightarrow> bool" where
  "free_done c st S p c' st' S' \<longleftrightarrow> obj_size c' = obj_size c \<and> live c' st' S' = live c st S - {p}
     \<and> (\<forall>q \<in> live c st S - {p}. \<forall>b < obj_size c. pmem (km st') (q + b) = pmem (km st) (q + b))"

lemma live_cong_size: "obj_size c' = obj_size c \<Longrightarrow> live c' st S = live c st S"
  by (simp add: live_def)

lemma trimmed_keeps_live:
  assumes "trimmed c st P F E st'" "lists_inv c st P F E" "q \<in> live c st (P @ F @ E)" "b < obj_size c"
  shows "pmem (km st') (q + b) = pmem (km st) (q + b)"
proof -
  have "q \<in> live c st (P @ F)" using assms(3) live_drop_empty [OF assms(2), of E] by simp
  then obtain y j where y: "y \<in> set (P @ F)" "q = slab_mem (sheap st y) + j * obj_size c" "j < capacity (sheap st y)"
    by (rule in_liveE)
  have "slab_ok (obj_size c) (sheap st y)" using assms(2) y(1) by (auto simp: lists_inv_def)
  from obj_in_page [OF this y(3)] have "j * obj_size c + b < 4096" using assms(4) by linarith
  moreover have "slab_mem (sheap st y) \<in> set (pages_of st (P @ F))" using y(1) by (auto simp: pages_of_def)
  ultimately have "pmem (km st') (slab_mem (sheap st y) + (j * obj_size c + b)) =
     pmem (km st) (slab_mem (sheap st y) + (j * obj_size c + b))"
    using assms(1) unfolding trimmed_def by blast
  then show ?thesis by (simp add: y(2) add.assoc)
qed

lemma free_finish:
  assumes step: "slab_step (obj_size c) x i 0xDD (insert i (fbits (sheap st x))) st st1"
    and inv: "mem_inv st S" "\<forall>y \<in> set S. slab_ok (obj_size c) (sheap st y)" "0 < obj_size c" "obj_size c \<le> 2048"
    and x: "x \<in> set S" "i < capacity (sheap st x)" "i \<notin> fbits (sheap st x)"
    and rl: "relinked A st1 st2" "A \<subseteq> set S"
    and li: "lists_inv c1 st2 P F E" "mset (P @ F @ E) = mset S" "obj_size c1 = obj_size c"
  defines "p \<equiv> slab_mem (sheap st x) + i * obj_size c"
  shows "\<exists>st'. free_tail c1 st2 = Some (Ok (c1, st')) \<and> cache_inv c1 st' P F (take 2 E)
    \<and> free_done c st S p c1 st' (P @ F @ take 2 E) \<and> step_frame st S st' (P @ F @ take 2 E)"
proof -
  have okx: "slab_ok (obj_size c) (sheap st x)" using inv(2) x(1) by blast
  note fl = free_live [OF step inv(1-3) x, folded p_def]
  note rs = relinked_state [OF rl(1)]
  have mi: "mem_inv st2 (P @ F @ E)"
    using slab_step_mem_inv(1) [OF step inv(1) x(1) okx x(2)] mem_inv_perm [OF li(2)] rs(3) by simp
  have l2: "live c1 st2 (P @ F @ E) = live c st S - {p}"
    using fl(1) rs(2) live_cong_size [OF li(3)] live_perm [OF mset_eq_setD [OF li(2)]] by metis
  from free_tail_ok [OF li(1) mi] obtain st' where
    st': "free_tail c1 st2 = Some (Ok (c1, st'))" "trimmed c1 st2 P F E st'" by blast
  have "step_frame st S st2 S" by (rule relinked_frame [OF rl slab_step_frame [OF step inv(1) x(1) okx x(2)]])
  then have "step_frame st S st2 (P @ F @ E)" using step_frame_perm [OF mset_eq_setD [OF li(2)]] by blast
  then have fr: "step_frame st S st' (P @ F @ take 2 E)"
    by (rule step_frame_trans) (use st'(2) in \<open>simp add: trimmed_def\<close>)
  have "pmem (km st') (q + b) = pmem (km st) (q + b)" if "q \<in> live c st S - {p}" "b < obj_size c" for q b
  proof -
    have "pmem (km st') (q + b) = pmem (km st2) (q + b)"
      using trimmed_keeps_live [OF st'(2) li(1), of q b] that l2 li(3) by simp
    also have "\<dots> = pmem (km st) (q + b)" using fl(2) [of q b] that rs(4) by simp
    finally show ?thesis .
  qed
  with st'(2) l2 li(3) have "free_done c st S p c1 st' (P @ F @ take 2 E)"
    unfolding free_done_def trimmed_def by simp
  with st' fr inv(3,4) li(3) show ?thesis
    by (intro exI [of _ st']) (simp add: trimmed_def cache_inv_def)
qed

lemma find_unique:
  assumes "mem_inv st S" "\<forall>y \<in> set S. slab_ok (obj_size c) (sheap st y)" "x \<in> set S"
    "i < capacity (sheap st x)" "0 < obj_size c" "set xs \<subseteq> set S"
  shows "find (in_slab st (obj_size c) (slab_mem (sheap st x) + i * obj_size c)) xs = (if x \<in> set xs then Some x else None)"
proof -
  let ?o = "slab_mem (sheap st x) + i * obj_size c"
  have self: "in_slab st (obj_size c) ?o x" using assms(4,5) by (simp add: in_slab_def)
  have other: "\<not> in_slab st (obj_size c) ?o y" if "y \<in> set S" "y \<noteq> x" for y
  proof -
    have cap: "capacity (sheap st y) * obj_size c \<le> 4096"
    proof -
      have "capacity (sheap st y) \<le> 4096 div obj_size c" using assms(2) that(1) by (simp add: slab_ok_def)
      then show ?thesis using assms(5) by (simp only: less_eq_div_iff_mult_less_eq)
    qed
    have "i * obj_size c + obj_size c \<le> 4096" using obj_in_page assms(2-4) by blast
    with cap mem_pages_disjoint [OF assms(1) assms(3) that(1)] that(2) assms(5) show ?thesis
      by (auto simp: in_slab_def)
  qed
  show ?thesis using assms(6)
  proof (induction xs)
    case (Cons y ys)
    then show ?case using self other [of y] by (cases "y = x") auto
  qed simp
qed

lemma lists_inv_parts:
  assumes "cache_inv c st P F E"
  shows "mem_inv st (P @ F @ E)" "\<forall>y \<in> set (P @ F @ E). slab_ok (obj_size c) (sheap st y)" "0 < obj_size c"
    "obj_size c \<le> 2048" "lists_inv c st P F E" "distinct (P @ F @ E)"
  using assms by (auto simp: cache_inv_def lists_inv_def mem_inv_def pages_of_def)

text \<open>After the slot is freed every list but the one of slab \<open>x\<close> is as it was.\<close>

lemma step_lists:
  assumes step: "slab_step osz x i b B st st1" and "x \<notin> set xs"
  shows "lseg (nexts st1) p xs = lseg (nexts st) p xs" "y \<in> set xs \<Longrightarrow> sheap st1 y = sheap st y"
proof -
  show "lseg (nexts st1) p xs = lseg (nexts st) p xs"
    by (rule lseg_cong) (use slab_step_fields(3) [OF step] in simp)
  show "y \<in> set xs \<Longrightarrow> sheap st1 y = sheap st y"
    using slab_step_fields(4) [OF step, of y] assms(2) by metis
qed

lemma nr_free_le: "slab_ok osz s \<Longrightarrow> nr_free s \<le> capacity s"
  unfolding slab_ok_def by (metis card_lessThan card_mono finite_lessThan)

lemma free_partial:
  assumes ci: "cache_inv c st P F E" and x: "x \<in> set P" "i < capacity (sheap st x)" "i \<notin> fbits (sheap st x)"
  defines "p \<equiv> slab_mem (sheap st x) + i * obj_size c"
  shows "\<exists>c' st' P' E'. kmem_cache_free c p st = Some (Ok (c', st')) \<and> cache_inv c' st' P' F E'
    \<and> free_done c st (P @ F @ E) p c' st' (P' @ F @ E') \<and> step_frame st (P @ F @ E) st' (P' @ F @ E')"
proof -
  note ip = lists_inv_parts [OF ci]
  let ?S = "P @ F @ E"
  have xS: "x \<in> set ?S" using x(1) by simp
  have okx: "slab_ok (obj_size c) (sheap st x)" using ip(2) x(1) by simp
  from heap_slab_free_step [OF okx ip(3) x(2,3), folded p_def] obtain st1 where
    st1: "heap_slab_free x p (obj_size c) st = st1"
      "slab_step (obj_size c) x i 0xDD (insert i (fbits (sheap st x))) st st1"
      "nr_free (sheap st1 x) = Suc (nr_free (sheap st x))" by blast
  have lp: "lseg (nexts st) (partial c) P" "lseg (nexts st) (full c) F" "lseg (nexts st) (empty c) E"
    using ip(5) by (auto simp: lists_inv_def)
  have nx: "nexts st1 = nexts st" using slab_step_fields(3) [OF st1(2)] by auto
  have "find_slab (sheap st) (obj_size c) p (partial c) = Some x"
    using find_slab_eq [OF lp(1)] find_unique [OF ip(1,2) xS x(2) ip(3), of P] x(1) by (simp add: p_def)
  moreover have "x \<noteq> 0" using lseg_nonzero [OF lp(1) x(1)] .
  ultimately have run: "kmem_cache_free c p st = free_in_partial c x p st" by (simp add: kmem_cache_free_def)
  have nfe: "x \<notin> set F" "x \<notin> set E" using ip(6) x(1) by auto
  have cap1: "capacity (sheap st1 x) = capacity (sheap st x)" "slab_ok (obj_size c) (sheap st1 x)"
    using st1(2) by (auto simp: slab_step_def)
  have keep: "y \<in> set ?S \<Longrightarrow> y \<noteq> x \<Longrightarrow> sheap st1 y = sheap st y" for y using slab_step_fields(4) [OF st1(2)] by metis
  note fin = free_finish [OF st1(2) ip(1-4) xS x(2,3), folded p_def]
  show ?thesis
  proof (cases "nr_free (sheap st1 x) = capacity (sheap st1 x)")
    case True
    obtain as bs where ab: "P = as @ x # bs" using x(1) by (meson split_list)
    have dst: "distinct (as @ x # bs @ E)" using ip(6) ab by auto
    from move_slab_ok [of st1 "partial c" as x bs "empty c" E] lp dst ab nx obtain h st2 where
      h: "move_slab x (partial c) (empty c) st1 = Some (h, x, st2)" "relinked (insert x (set as)) st1 st2"
      "lseg (nexts st2) h (as @ bs)" "lseg (nexts st2) x (x # E)" by auto
    let ?c = "c\<lparr>partial := h, empty := x\<rparr>"
    note rf = relinked_fields [OF h(2)]
    have "slab_next (sheap st2 y) = slab_next (sheap st y)" if "y \<in> set F" for y
    proof -
      have "y \<notin> insert x (set as)" using that ip(6) ab by auto
      then have "sheap st2 y = sheap st1 y" using h(2) by (simp add: relinked_def)
      then show ?thesis using nx by (metis)
    qed
    then have "lseg (nexts st2) (full c) F" using lp(2) lseg_cong [of F "nexts st2" "nexts st"] by simp
    moreover have ks: "sheap st1 y = sheap st y" if "y \<in> set (as @ bs @ F @ E)" for y
      by (rule step_lists(2) [OF st1(2) _ that]) (use ip(6) ab in auto)
    ultimately have "lists_inv ?c st2 (as @ bs) F (x # E)"
      using ip(5) h(3,4) True cap1 ab unfolding lists_inv_def rf by auto
    from fin [OF h(2) _ this] ab obtain st' where
      "free_tail ?c st2 = Some (Ok (?c, st'))" "cache_inv ?c st' (as @ bs) F (take 2 (x # E))"
      "free_done c st ?S p ?c st' ((as @ bs) @ F @ take 2 (x # E))" "step_frame st ?S st' ((as @ bs) @ F @ take 2 (x # E))"
      by auto
    moreover have "free_in_partial c x p st = free_tail ?c st2"
      using st1(1) True h(1) by (simp add: free_in_partial_def)
    ultimately show ?thesis using run by metis
  next
    case False
    have "lists_inv c st1 P F E"
    proof -
      have "nr_free (sheap st1 x) \<le> capacity (sheap st1 x)" by (rule nr_free_le [OF cap1(2)])
      then have "nr_free (sheap st1 x) < capacity (sheap st1 x)" using False by simp
      then show ?thesis
        using ip(5,6) keep cap1 st1(3) nfe unfolding lists_inv_def nx by (metis Un_iff set_append zero_less_Suc)
    qed
    from fin [OF relinked_refl _ this, of "{}"] obtain st' where
      "free_tail c st1 = Some (Ok (c, st'))" "cache_inv c st' P F (take 2 E)"
      "free_done c st ?S p c st' (P @ F @ take 2 E)" "step_frame st ?S st' (P @ F @ take 2 E)" by auto
    moreover have "free_in_partial c x p st = free_tail c st1"
      using st1(1) False by (simp add: free_in_partial_def)
    ultimately show ?thesis using run by metis
  qed
qed

lemma free_full:
  assumes ci: "cache_inv c st P F E" and x: "x \<in> set F" "i < capacity (sheap st x)"
  defines "p \<equiv> slab_mem (sheap st x) + i * obj_size c"
  shows "\<exists>c' st' P' F' E'. kmem_cache_free c p st = Some (Ok (c', st')) \<and> cache_inv c' st' P' F' E'
    \<and> free_done c st (P @ F @ E) p c' st' (P' @ F' @ E') \<and> step_frame st (P @ F @ E) st' (P' @ F' @ E')"
proof -
  note ip = lists_inv_parts [OF ci]
  let ?S = "P @ F @ E"
  have xS: "x \<in> set ?S" using x(1) by simp
  have okx: "slab_ok (obj_size c) (sheap st x)" using ip(2) x(1) by simp
  have nf: "nr_free (sheap st x) = 0" using ip(5) x(1) by (simp add: lists_inv_def)
  then have fb: "i \<notin> fbits (sheap st x)" using slab_full_bits [OF okx] by simp
  from heap_slab_free_step [OF okx ip(3) x(2) fb, folded p_def] obtain st1 where
    st1: "heap_slab_free x p (obj_size c) st = st1"
      "slab_step (obj_size c) x i 0xDD (insert i (fbits (sheap st x))) st st1"
      "nr_free (sheap st1 x) = Suc (nr_free (sheap st x))" by blast
  have lp: "lseg (nexts st) (partial c) P" "lseg (nexts st) (full c) F" "lseg (nexts st) (empty c) E"
    using ip(5) by (auto simp: lists_inv_def)
  have nx: "nexts st1 = nexts st" using slab_step_fields(3) [OF st1(2)] by auto
  have nfe: "x \<notin> set P" "x \<notin> set E" using ip(6) x(1) by auto
  have fF: "set F \<subseteq> set ?S" by auto
  have "find_slab (sheap st) (obj_size c) p (partial c) = Some 0" "find_slab (sheap st) (obj_size c) p (full c) = Some x"
    using find_slab_eq [OF lp(1)] find_unique [OF ip(1,2) xS x(2) ip(3), of P]
      find_slab_eq [OF lp(2)] find_unique [OF ip(1,2) xS x(2) ip(3) fF] x(1) nfe by (simp_all add: p_def)
  moreover have "x \<noteq> 0" using lseg_nonzero [OF lp(2) x(1)] .
  ultimately have run: "kmem_cache_free c p st = free_in_full c x p st" by (simp add: kmem_cache_free_def)
  have cap1: "capacity (sheap st1 x) = capacity (sheap st x)" "slab_ok (obj_size c) (sheap st1 x)"
    using st1(2) by (auto simp: slab_step_def)
  have c2: "2 \<le> capacity (sheap st x)" using capacity_ge_2 [OF okx] ip(3,4) by blast
  obtain as bs where ab: "F = as @ x # bs" using x(1) by (meson split_list)
  have dst: "distinct (as @ x # bs @ P)" using ip(6) ab by auto
  from move_slab_ok [of st1 "full c" as x bs "partial c" P] lp dst ab nx obtain h st2 where
    h: "move_slab x (full c) (partial c) st1 = Some (h, x, st2)" "relinked (insert x (set as)) st1 st2"
    "lseg (nexts st2) h (as @ bs)" "lseg (nexts st2) x (x # P)" by auto
  let ?c = "c\<lparr>full := h, partial := x\<rparr>"
  note rf = relinked_fields [OF h(2)]
  have "slab_next (sheap st2 y) = slab_next (sheap st y)" if "y \<in> set E" for y
  proof -
    have "y \<notin> insert x (set as)" using that ip(6) ab by auto
    then have "sheap st2 y = sheap st1 y" using h(2) by (simp add: relinked_def)
    then show ?thesis using nx by (metis)
  qed
  then have "lseg (nexts st2) (empty c) E" using lp(3) lseg_cong [of E "nexts st2" "nexts st"] by simp
  moreover have ks: "sheap st1 y = sheap st y" if "y \<in> set (as @ bs @ P @ E)" for y
    by (rule step_lists(2) [OF st1(2) _ that]) (use ip(6) ab in auto)
  ultimately have "lists_inv ?c st2 (x # P) (as @ bs) E"
    using ip(5) h(3,4) cap1 c2 nf st1(3) ab unfolding lists_inv_def rf by auto
  from free_finish [OF st1(2) ip(1-4) xS x(2) fb h(2) _ this] ab obtain st' where
    "free_tail ?c st2 = Some (Ok (?c, st'))" "cache_inv ?c st' (x # P) (as @ bs) (take 2 E)"
    "free_done c st ?S p ?c st' ((x # P) @ (as @ bs) @ take 2 E)"
    "step_frame st ?S st' ((x # P) @ (as @ bs) @ take 2 E)"
    unfolding p_def by auto
  moreover have "free_in_full c x p st = free_tail ?c st2"
    using st1(1,3) nf h(1) by (simp add: free_in_full_def)
  ultimately show ?thesis using run by metis
qed

lemma kmem_cache_free_ok:
  assumes "cache_inv c st P F E" "p \<in> live c st (P @ F @ E)"
  shows "\<exists>c' st' P' F' E'. kmem_cache_free c p st = Some (Ok (c', st')) \<and> cache_inv c' st' P' F' E'
    \<and> free_done c st (P @ F @ E) p c' st' (P' @ F' @ E') \<and> step_frame st (P @ F @ E) st' (P' @ F' @ E')"
proof -
  note ip = lists_inv_parts [OF assms(1)]
  have "p \<in> live c st (P @ F)" using assms(2) live_drop_empty [OF ip(5), of E] by simp
  then obtain x i where x: "x \<in> set (P @ F)" "p = slab_mem (sheap st x) + i * obj_size c" "i < capacity (sheap st x)"
    "i \<notin> fbits (sheap st x)" by (rule in_liveE)
  show ?thesis
  proof (cases "x \<in> set P")
    case True
    from free_partial [OF assms(1) True x(3,4)] show ?thesis unfolding x(2) by blast
  next
    case False
    then have "x \<in> set F" using x(1) by simp
    from free_full [OF assms(1) this x(3)] show ?thesis unfolding x(2) by blast
  qed
qed

end
