(* ===== verification/Slab_Correct.thy ===== *)
theory Slab_Correct
  imports Slab_Free
begin

text \<open>
  The six size classes of kernel/slab.c together: \<open>kmalloc\<close> and \<open>kmfree\<close> keep every cache
  consistent and the memory of every live object intact.
\<close>

section \<open>Caches do not disturb each other\<close>

lemma other_cache:
  assumes ci: "cache_inv c st P F E" and fr: "step_frame st S st' S'" and ki: "kmem_inv (km st')" and mS: "mem_inv st S"
    and dj: "set (pages_of st (P @ F @ E)) \<inter> set (pages_of st S) = {}"
  shows "cache_inv c st' P F E" "live c st' (P @ F @ E) = live c st (P @ F @ E)"
    "pages_of st' (P @ F @ E) = pages_of st (P @ F @ E)"
    "set (pages_of st' (P @ F @ E)) \<inter> set (pages_of st' S') = {}"
    "q \<in> live c st (P @ F @ E) \<Longrightarrow> b < obj_size c \<Longrightarrow> pmem (km st') (q + b) = pmem (km st) (q + b)"
proof -
  let ?L = "P @ F @ E"
  note ip = lists_inv_parts [OF ci]
  have pl: "set (pages_of st ?L) \<subseteq> managed_pages (km st) - avail_pages (km st)" using ip(1) by (simp add: mem_inv_def)
  have sh: "sheap st' y = sheap st y" if "y \<in> set ?L" for y
  proof -
    have "y \<in> set (pages_of st ?L)" using that by (auto simp: pages_of_def)
    then have "y \<notin> avail_pages (km st) \<union> set (pages_of st S)" using pl dj by blast
    then show ?thesis using fr by (simp add: step_frame_def)
  qed
  show pg': "pages_of st' ?L = pages_of st ?L" using sh by (simp add: pages_of_def)
  show "live c st' ?L = live c st ?L" using sh by (simp add: live_def)
  have av: "avail_pages (km st') \<union> set (pages_of st' S') = avail_pages (km st) \<union> set (pages_of st S)"
    and mg: "managed_pages (km st') = managed_pages (km st)" using fr by (simp_all add: step_frame_def)
  have off: "set (pages_of st ?L) \<inter> (avail_pages (km st) \<union> set (pages_of st S)) = {}" using pl dj by blast
  show "set (pages_of st' ?L) \<inter> set (pages_of st' S') = {}" unfolding pg' using off av by blast
  have "mem_inv st' ?L" unfolding mem_inv_def pg' mg using ip(1) ki off av by (auto simp: mem_inv_def)
  moreover have "lists_inv c st' P F E"
  proof -
    have "lseg (nexts st') p xs = lseg (nexts st) p xs" if "set xs \<subseteq> set ?L" for p xs
      by (rule lseg_cong) (use sh that in auto)
    then show ?thesis using ip(5) sh unfolding lists_inv_def by auto
  qed
  ultimately show "cache_inv c st' P F E" using ci by (simp add: cache_inv_def)
  assume q: "q \<in> live c st ?L" and b: "b < obj_size c"
  obtain y j where y: "y \<in> set ?L" "q = slab_mem (sheap st y) + j * obj_size c" "j < capacity (sheap st y)"
    using q by (rule in_liveE)
  have jb: "j * obj_size c + b < 4096" using obj_in_page [OF _ y(3)] ip(2) y(1) b by fastforce
  let ?p = "slab_mem (sheap st y)"
  have pin: "?p \<in> set (pages_of st ?L)" using y(1) by (auto simp: pages_of_def)
  have "outside (?p + (j * obj_size c + b)) (avail_pages (km st) \<union> set (pages_of st S))"
    unfolding outside_def
  proof
    fix r assume r: "r \<in> avail_pages (km st) \<union> set (pages_of st S)"
    then have "r \<in> managed_pages (km st)" "r \<noteq> ?p"
      using mS kpages.avail_managed [of "km st"] ip(1) pin off by (auto simp: mem_inv_def)
    moreover have "?p \<in> managed_pages (km st)" using pin pl by blast
    ultimately have "r + 4096 \<le> ?p \<or> ?p + 4096 \<le> r"
      using aligned_disjoint [of r 4096 ?p] kpages.managed_page by auto
    then show "?p + (j * obj_size c + b) < r \<or> r + 4096 \<le> ?p + (j * obj_size c + b)" using jb by linarith
  qed
  then show "pmem (km st') (q + b) = pmem (km st) (q + b)" using fr unfolding step_frame_def y(2) by (simp add: add.assoc)
qed

section \<open>All caches\<close>

text \<open>\<open>sys_inv y P F E\<close>: cache \<open>i\<close> has the partial, full and empty slabs \<open>P i\<close>, \<open>F i\<close> and \<open>E i\<close>.\<close>

definition sys_inv :: "slab_sys \<Rightarrow> (nat \<Rightarrow> nat list) \<Rightarrow> (nat \<Rightarrow> nat list) \<Rightarrow> (nat \<Rightarrow> nat list) \<Rightarrow> bool" where
  "sys_inv y P F E \<longleftrightarrow> kmem_inv (km (sst y)) \<and>
     (\<forall>i < 6. obj_size (kmem_caches y i) = 64 * 2 ^ i \<and> cache_inv (kmem_caches y i) (sst y) (P i) (F i) (E i)) \<and>
     (\<forall>i < 6. \<forall>j < 6. i \<noteq> j \<longrightarrow>
        set (pages_of (sst y) (P i @ F i @ E i)) \<inter> set (pages_of (sst y) (P j @ F j @ E j)) = {})"

definition live_of :: "slab_sys \<Rightarrow> (nat \<Rightarrow> nat list) \<Rightarrow> (nat \<Rightarrow> nat list) \<Rightarrow> (nat \<Rightarrow> nat list) \<Rightarrow> nat \<Rightarrow> nat set" where
  "live_of y P F E i = live (kmem_caches y i) (sst y) (P i @ F i @ E i)"

definition size_class :: "nat \<Rightarrow> nat" where
  "size_class sz = (if sz \<le> 64 then 0 else if sz \<le> 128 then 1 else if sz \<le> 256 then 2
     else if sz \<le> 512 then 3 else if sz \<le> 1024 then 4 else 5)"

lemma size_class_props:
  assumes "sz \<le> 2048"
  shows "size_class sz < 6" "assist_size sz = 64 * 2 ^ size_class sz" "sz \<le> 64 * 2 ^ size_class sz" "assist_size sz \<noteq> 0"
  using assms by (auto simp: size_class_def assist_size_def)

lemma find_cache:
  assumes "sys_inv y P F E" "sz \<le> 2048"
  shows "find_first (\<lambda>i. obj_size (kmem_caches y i) = assist_size sz) 0 6 = Some (size_class sz)"
proof -
  note sc = size_class_props [OF assms(2)]
  have "obj_size (kmem_caches y j) = assist_size sz \<longleftrightarrow> j = size_class sz" if "j < 6" for j
    using assms(1) that sc(2) by (auto simp: sys_inv_def)
  then show ?thesis using sc(1) by (subst find_first_Some_iff) auto
qed

text \<open>An operation on one cache that keeps its own invariant and its frame keeps the whole system.\<close>

lemma sys_update:
  assumes si: "sys_inv y P F E" and i: "i < 6"
    and ci: "cache_inv c st (P' i) (F' i) (E' i)" "obj_size c = 64 * 2 ^ i"
    and fr: "step_frame (sst y) (P i @ F i @ E i) st (P' i @ F' i @ E' i)"
    and oth: "\<And>j. j \<noteq> i \<Longrightarrow> P' j = P j \<and> F' j = F j \<and> E' j = E j"
  defines "y' \<equiv> y\<lparr>kmem_caches := (kmem_caches y)(i := c), sst := st\<rparr>"
  shows "sys_inv y' P' F' E'" "j < 6 \<Longrightarrow> j \<noteq> i \<Longrightarrow> live_of y' P' F' E' j = live_of y P F E j"
    "j < 6 \<Longrightarrow> j \<noteq> i \<Longrightarrow> q \<in> live_of y P F E j \<Longrightarrow> b < 64 * 2 ^ j \<Longrightarrow>
     pmem (km st) (q + b) = pmem (km (sst y)) (q + b)"
proof -
  have ki: "kmem_inv (km st)" using ci(1) by (simp add: cache_inv_def mem_inv_def)
  have mS: "mem_inv (sst y) (P i @ F i @ E i)" using si i by (simp add: sys_inv_def cache_inv_def)
  have cj: "cache_inv (kmem_caches y j) (sst y) (P j) (F j) (E j)"
    "set (pages_of (sst y) (P j @ F j @ E j)) \<inter> set (pages_of (sst y) (P i @ F i @ E i)) = {}"
    "obj_size (kmem_caches y j) = 64 * 2 ^ j"
    if "j < 6" "j \<noteq> i" for j using si that i unfolding sys_inv_def by blast+
  have oc: "cache_inv (kmem_caches y j) st (P j) (F j) (E j)"
    "live (kmem_caches y j) st (P j @ F j @ E j) = live (kmem_caches y j) (sst y) (P j @ F j @ E j)"
    "pages_of st (P j @ F j @ E j) = pages_of (sst y) (P j @ F j @ E j)"
    "set (pages_of st (P j @ F j @ E j)) \<inter> set (pages_of st (P' i @ F' i @ E' i)) = {}"
    "\<And>q b. q \<in> live (kmem_caches y j) (sst y) (P j @ F j @ E j) \<Longrightarrow> b < obj_size (kmem_caches y j) \<Longrightarrow>
      pmem (km st) (q + b) = pmem (km (sst y)) (q + b)"
    if "j < 6" "j \<noteq> i" for j
    using other_cache [OF cj(1) [OF that] fr ki mS cj(2) [OF that]] by blast+
  show "j < 6 \<Longrightarrow> j \<noteq> i \<Longrightarrow> live_of y' P' F' E' j = live_of y P F E j"
    using oc(2) oth by (simp add: live_of_def y'_def)
  show "j < 6 \<Longrightarrow> j \<noteq> i \<Longrightarrow> q \<in> live_of y P F E j \<Longrightarrow> b < 64 * 2 ^ j \<Longrightarrow>
     pmem (km st) (q + b) = pmem (km (sst y)) (q + b)"
    using oc(5) cj(3) by (simp add: live_of_def)
  have each: "obj_size (kmem_caches y' j) = 64 * 2 ^ j \<and> cache_inv (kmem_caches y' j) (sst y') (P' j) (F' j) (E' j)"
    if "j < 6" for j
    using ci cj(3) oc(1) oth that by (cases "j = i") (auto simp: y'_def)
  have "set (pages_of st (P' j @ F' j @ E' j)) \<inter> set (pages_of st (P' k @ F' k @ E' k)) = {}"
    if "j < 6" "k < 6" "j \<noteq> k" for j k
  proof -
    consider "j = i" | "k = i" | "j \<noteq> i" "k \<noteq> i" by blast
    then show ?thesis
    proof cases
      case 1
      then have "set (pages_of st (P' k @ F' k @ E' k)) \<inter> set (pages_of st (P' i @ F' i @ E' i)) = {}"
        using oc(4) [of k] oth [of k] that by auto
      with 1 show ?thesis by blast
    next
      case 2
      then show ?thesis using oc(4) [of j] oth [of j] that by auto
    next
      case 3
      then have "pages_of st (P' j @ F' j @ E' j) = pages_of (sst y) (P j @ F j @ E j)"
        "pages_of st (P' k @ F' k @ E' k) = pages_of (sst y) (P k @ F k @ E k)"
        using oc(3) [of j] oc(3) [of k] oth that by auto
      then show ?thesis using si that by (simp add: sys_inv_def)
    qed
  qed
  with each ki show "sys_inv y' P' F' E'" unfolding sys_inv_def by (simp add: y'_def)
qed

lemma pages_apart:
  fixes p q a b m n :: nat
  shows "p + 4096 \<le> q \<or> q + 4096 \<le> p \<Longrightarrow> a + n \<le> 4096 \<Longrightarrow> b + m \<le> 4096 \<Longrightarrow>
    p + a + n \<le> q + b \<or> q + b + m \<le> p + a"
  by linarith

lemma live_no_overlap:
  assumes si: "sys_inv y P F E" and ij: "i < 6" "j < 6"
    and pq: "p \<in> live_of y P F E i" "q \<in> live_of y P F E j" "(i, p) \<noteq> (j, q)"
  shows "p + 64 * 2 ^ i \<le> q \<or> q + 64 * 2 ^ j \<le> p"
proof -
  have ci: "cache_inv (kmem_caches y i) (sst y) (P i) (F i) (E i)" "obj_size (kmem_caches y i) = 64 * 2 ^ i"
    and cj: "cache_inv (kmem_caches y j) (sst y) (P j) (F j) (E j)" "obj_size (kmem_caches y j) = 64 * 2 ^ j"
    using si ij by (simp_all add: sys_inv_def)
  note ii = lists_inv_parts [OF ci(1)] and jj = lists_inv_parts [OF cj(1)]
  obtain x k where x: "x \<in> set (P i @ F i @ E i)" "p = slab_mem (sheap (sst y) x) + k * (64 * 2 ^ i)" "k < capacity (sheap (sst y) x)"
    using pq(1) unfolding live_of_def ci(2) [symmetric] by (rule in_liveE)
  obtain z l where z: "z \<in> set (P j @ F j @ E j)" "q = slab_mem (sheap (sst y) z) + l * (64 * 2 ^ j)" "l < capacity (sheap (sst y) z)"
    using pq(2) unfolding live_of_def cj(2) [symmetric] by (rule in_liveE)
  have ok: "slab_ok (64 * 2 ^ i) (sheap (sst y) x)" "slab_ok (64 * 2 ^ j) (sheap (sst y) z)"
    using ii(2) jj(2) x(1) z(1) ci(2) cj(2) by auto
  show ?thesis
  proof (cases "i = j")
    case True
    then have "(x, k) \<noteq> (z, l)" using pq(3) x(2) z(2) by auto
    from obj_disjoint [OF ii(1) x(1) _ ok(1) _ x(3) z(3) this] show ?thesis using True z(1) ok(2) x(2) z(2) by simp
  next
    case False
    let ?p = "slab_mem (sheap (sst y) x)" and ?q = "slab_mem (sheap (sst y) z)"
    have pin: "?p \<in> set (pages_of (sst y) (P i @ F i @ E i))" and qin: "?q \<in> set (pages_of (sst y) (P j @ F j @ E j))"
      using x(1) z(1) by (auto simp: pages_of_def)
    have "set (pages_of (sst y) (P i @ F i @ E i)) \<inter> set (pages_of (sst y) (P j @ F j @ E j)) = {}"
      using si ij False by (simp add: sys_inv_def)
    then have "?p \<noteq> ?q" using pin qin by (metis IntI empty_iff)
    moreover have "?p \<in> managed_pages (km (sst y))" using ii(1) pin unfolding mem_inv_def by (meson DiffD1 subsetD)
    moreover have "?q \<in> managed_pages (km (sst y))" using jj(1) qin unfolding mem_inv_def by (meson DiffD1 subsetD)
    ultimately have "?p + 4096 \<le> ?q \<or> ?q + 4096 \<le> ?p"
      using aligned_disjoint [of ?p 4096 ?q] kpages.managed_page by auto
    from pages_apart [OF this obj_in_page [OF ok(1) x(3)] obj_in_page [OF ok(2) z(3)]]
    show ?thesis unfolding x(2) z(2) .
  qed
qed

lemma kmalloc_ok:
  assumes si: "sys_inv y P F E" and sz: "sz \<le> 2048"
  defines "i \<equiv> size_class sz"
  shows "\<exists>r y' P' F' E'. kmalloc sz y = Ok (r, y') \<and> sys_inv y' P' F' E'
    \<and> (\<forall>j < 6. \<forall>q \<in> live_of y P F E j. \<forall>b < 64 * 2 ^ j. pmem (km (sst y')) (q + b) = pmem (km (sst y)) (q + b))
    \<and> (\<forall>j < 6. j \<noteq> i \<longrightarrow> live_of y' P' F' E' j = live_of y P F E j)
    \<and> (r = 0 \<and> card (avail_pages (km (sst y))) < 2 \<and> live_of y' P' F' E' i = live_of y P F E i
       \<or> r \<noteq> 0 \<and> r \<notin> live_of y P F E i \<and> live_of y' P' F' E' i = insert r (live_of y P F E i))"
proof -
  note sc = size_class_props [OF sz, folded i_def]
  let ?c = "kmem_caches y i"
  let ?L = "P i @ F i @ E i"
  have ci: "cache_inv ?c (sst y) (P i) (F i) (E i)" "obj_size ?c = 64 * 2 ^ i"
    using si sc(1) by (auto simp: sys_inv_def)
  note ip = lists_inv_parts [OF ci(1)]
  from kmem_cache_alloc_ok [OF ci(1)] obtain r c' st' Q G D where
    k: "kmem_cache_alloc ?c (sst y) = Ok (r, c', st')" "cache_inv c' st' Q G D" "step_frame (sst y) ?L st' (Q @ G @ D)"
    "alloc_done ?c (sst y) ?L r c' st' (Q @ G @ D)
        \<or> r = 0 \<and> c' = ?c \<and> P i = [] \<and> E i = [] \<and> Q = [] \<and> D = [] \<and> G = F i \<and> live ?c st' (F i) = live ?c (sst y) (F i)
          \<and> card (avail_pages (km (sst y))) < 2
          \<and> (\<forall>q \<in> live ?c (sst y) (F i). \<forall>b < obj_size ?c. pmem (km st') (q + b) = pmem (km (sst y)) (q + b))"
    by blast
  let ?P = "P(i := Q)" and ?F = "F(i := G)" and ?E = "E(i := D)"
  define y' where "y' = y\<lparr>kmem_caches := (kmem_caches y)(i := c'), sst := st'\<rparr>"
  have run: "kmalloc sz y = Ok (r, y')"
    using find_cache [OF si sz] sc(4) k(1) by (simp add: kmalloc_def Let_def i_def y'_def)
  have os: "obj_size c' = 64 * 2 ^ i" using k(4) ci(2) by (auto simp: alloc_done_def)
  have cs': "cache_inv c' st' (?P i) (?F i) (?E i)" "step_frame (sst y) ?L st' (?P i @ ?F i @ ?E i)" using k by auto
  have "?P j = P j \<and> ?F j = F j \<and> ?E j = E j" if "j \<noteq> i" for j using that by simp
  note su = sys_update [OF si sc(1) cs'(1) os cs'(2) this, folded y'_def]
  have own: "pmem (km st') (q + b) = pmem (km (sst y)) (q + b)" if q: "q \<in> live_of y P F E i" "b < 64 * 2 ^ i" for q b
    using k(4) q ci(2) by (auto simp: alloc_done_def live_of_def)
  have res: "r = 0 \<and> card (avail_pages (km (sst y))) < 2 \<and> live_of y' ?P ?F ?E i = live_of y P F E i
       \<or> r \<noteq> 0 \<and> r \<notin> live_of y P F E i \<and> live_of y' ?P ?F ?E i = insert r (live_of y P F E i)"
    using k(4) by (auto simp: alloc_done_def live_of_def y'_def)
  have mem: "pmem (km (sst y')) (q + b) = pmem (km (sst y)) (q + b)"
    if "j < 6" "q \<in> live_of y P F E j" "b < 64 * 2 ^ j" for j q b
    using own su(3) [of j q b] that by (cases "j = i") (auto simp: y'_def)
  show ?thesis
    by (intro exI [of _ r] exI [of _ y'] exI [of _ ?P] exI [of _ ?F] exI [of _ ?E] conjI run su(1) allI impI ballI)
      (use mem su(2) res in blast)+
qed

lemma kmfree_ok:
  assumes si: "sys_inv y P F E" and sz: "sz \<le> 2048" and p: "p \<in> live_of y P F E (size_class sz)"
  defines "i \<equiv> size_class sz"
  shows "\<exists>y' P' F' E'. kmfree p sz y = Some (Ok y') \<and> sys_inv y' P' F' E'
    \<and> (\<forall>j < 6. \<forall>q \<in> live_of y P F E j. (j, q) \<noteq> (i, p) \<longrightarrow>
         (\<forall>b < 64 * 2 ^ j. pmem (km (sst y')) (q + b) = pmem (km (sst y)) (q + b)))
    \<and> (\<forall>j < 6. j \<noteq> i \<longrightarrow> live_of y' P' F' E' j = live_of y P F E j)
    \<and> live_of y' P' F' E' i = live_of y P F E i - {p}"
proof -
  note sc = size_class_props [OF sz, folded i_def]
  let ?c = "kmem_caches y i"
  let ?L = "P i @ F i @ E i"
  have ci: "cache_inv ?c (sst y) (P i) (F i) (E i)" "obj_size ?c = 64 * 2 ^ i"
    using si sc(1) by (auto simp: sys_inv_def)
  from kmem_cache_free_ok [OF ci(1)] p obtain c' st' Q G D where
    k: "kmem_cache_free ?c p (sst y) = Some (Ok (c', st'))" "cache_inv c' st' Q G D"
    "free_done ?c (sst y) ?L p c' st' (Q @ G @ D)" "step_frame (sst y) ?L st' (Q @ G @ D)"
    unfolding live_of_def i_def by blast
  let ?P = "P(i := Q)" and ?F = "F(i := G)" and ?E = "E(i := D)"
  define y' where "y' = y\<lparr>kmem_caches := (kmem_caches y)(i := c'), sst := st'\<rparr>"
  have run: "kmfree p sz y = Some (Ok y')"
    using find_cache [OF si sz] sc(4) k(1) by (simp add: kmfree_def Let_def i_def y'_def)
  have os: "obj_size c' = 64 * 2 ^ i" using k(3) ci(2) by (auto simp: free_done_def)
  have cs': "cache_inv c' st' (?P i) (?F i) (?E i)" "step_frame (sst y) ?L st' (?P i @ ?F i @ ?E i)" using k by auto
  have "?P j = P j \<and> ?F j = F j \<and> ?E j = E j" if "j \<noteq> i" for j using that by simp
  note su = sys_update [OF si sc(1) cs'(1) os cs'(2) this, folded y'_def]
  have mem: "pmem (km (sst y')) (q + b) = pmem (km (sst y)) (q + b)"
    if "j < 6" "q \<in> live_of y P F E j" "(j, q) \<noteq> (i, p)" "b < 64 * 2 ^ j" for j q b
    using k(3) ci(2) su(3) [of j q b] that by (cases "j = i") (auto simp: y'_def free_done_def live_of_def)
  have res: "live_of y' ?P ?F ?E i = live_of y P F E i - {p}"
    using k(3) by (simp add: free_done_def live_of_def y'_def)
  show ?thesis
    by (intro exI [of _ y'] exI [of _ ?P] exI [of _ ?F] exI [of _ ?E] conjI run su(1) res allI impI ballI)
      (use mem su(2) in blast)+
qed

section \<open>A machine with initialised caches\<close>

definition boot_slabs :: slab_sys where
  "boot_slabs = init_all_slabs
     \<lparr>kmem_caches = (\<lambda>_. kmem_cache_init 0), sst = \<lparr>sheap = (\<lambda>_. slab_init 0 1), km = booted\<rparr>\<rparr>"

lemma nat_less_6: "(i :: nat) < 6 \<longleftrightarrow> i = 0 \<or> i = 1 \<or> i = 2 \<or> i = 3 \<or> i = 4 \<or> i = 5"
  by auto

lemma boot_slabs_inv: "sys_inv boot_slabs (\<lambda>_. []) (\<lambda>_. []) (\<lambda>_. [])"
proof -
  have "cache_inv (kmem_cache_init n) (sst boot_slabs) [] [] []" if "0 < n" "n \<le> 2048" for n
    using that booted_inv(4)
    by (simp add: cache_inv_def lists_inv_def mem_inv_def pages_of_def kmem_cache_init_def boot_slabs_def init_all_slabs_def)
  then show ?thesis
    using booted_inv(4) unfolding sys_inv_def nat_less_6
    by (auto simp: boot_slabs_def init_all_slabs_def pages_of_def) (simp_all add: kmem_cache_init_def)
qed

lemma boot_slabs_pages: "\<not> card (avail_pages (km (sst boot_slabs))) < 2"
proof -
  have "inj pg" by (rule injI) simp
  then have "card (avail_pages booted) = card {37 ..< 32768 :: nat}"
    unfolding avail_pages_def booted_inv(2) by (metis card_image inj_on_subset subset_UNIV)
  then show ?thesis by (simp add: boot_slabs_def init_all_slabs_def)
qed

section \<open>Properties\<close>



text \<open>
  (C7) \<open>kmfree\<close> of a live object returns, never panics, keeps all caches consistent with at most two
  empty slabs each, makes exactly that object free, and changes no byte of another live object.
\<close>

theorem kmfree_correct:
  assumes "sys_inv y P F E" "sz \<le> 2048" "p \<in> live_of y P F E (size_class sz)"
  shows "\<exists>y' P' F' E'. kmfree p sz y = Some (Ok y') \<and> sys_inv y' P' F' E'
    \<and> (\<forall>j < 6. \<forall>q \<in> live_of y P F E j. (j, q) \<noteq> (size_class sz, p) \<longrightarrow>
         (\<forall>b < 64 * 2 ^ j. pmem (km (sst y')) (q + b) = pmem (km (sst y)) (q + b)))
    \<and> (\<forall>j < 6. live_of y' P' F' E' j = (if j = size_class sz then live_of y P F E j - {p} else live_of y P F E j))
    \<and> length (E' (size_class sz)) \<le> 2"
proof -
  from kmfree_ok [OF assms] obtain y' P' F' E' where
    r: "kmfree p sz y = Some (Ok y')" "sys_inv y' P' F' E'"
    "\<forall>j < 6. \<forall>q \<in> live_of y P F E j. (j, q) \<noteq> (size_class sz, p) \<longrightarrow>
         (\<forall>b < 64 * 2 ^ j. pmem (km (sst y')) (q + b) = pmem (km (sst y)) (q + b))"
    "\<forall>j < 6. j \<noteq> size_class sz \<longrightarrow> live_of y' P' F' E' j = live_of y P F E j"
    "live_of y' P' F' E' (size_class sz) = live_of y P F E (size_class sz) - {p}"
    by (elim exE conjE) (rule that, assumption+)
  have len: "length (E' (size_class sz)) \<le> 2"
    using r(2) size_class_props(1) [OF assms(2)] by (simp add: sys_inv_def cache_inv_def)
  have lv: "\<forall>j < 6. live_of y' P' F' E' j = (if j = size_class sz then live_of y P F E j - {p} else live_of y P F E j)"
    using r(4,5) by simp
  show ?thesis
    by (intro exI [of _ y'] exI [of _ P'] exI [of _ F'] exI [of _ E'] conjI r(1-3) lv len)
qed

theorem kmfree_correct_witness:
  "\<exists>r y' y''. kmalloc 100 boot_slabs = Ok (r, y') \<and> r \<noteq> 0 \<and> kmfree r 100 y' = Some (Ok y'')"
proof -
  have sz: "(100 :: nat) \<le> 2048" by simp
  from kmalloc_ok [OF boot_slabs_inv sz] obtain r y' P' F' E' where
    r: "kmalloc 100 boot_slabs = Ok (r, y')" "sys_inv y' P' F' E'" "r \<noteq> 0" "r \<in> live_of y' P' F' E' (size_class 100)"
    using boot_slabs_pages by (elim exE conjE disjE) (blast, metis insertI1)
  from kmfree_correct [OF r(2) sz r(4)] obtain y'' where "kmfree r 100 y' = Some (Ok y'')" by blast
  with r(1,3) show ?thesis by blast
qed



end
