(* ===== verification/Ring.thy ===== *)
theory Ring
  imports Prelude
begin

text \<open>
  Ring buffers with free-running 32-bit indices, as the pipe and the console use them: the read
  index \<open>r\<close> and the write index \<open>w\<close> only grow (modulo \<open>2 ^ 32\<close>) and slot \<open>i mod sz\<close> holds
  element \<open>i\<close>. \<open>ring_list\<close> is the queue such a buffer stands for. The locale \<open>byte_queue\<close> is the
  interface its clients rely on.
\<close>

definition ring_list :: "nat \<Rightarrow> (nat \<Rightarrow> 'a) \<Rightarrow> u32 \<Rightarrow> u32 \<Rightarrow> 'a list" where
  "ring_list sz b r w = map (\<lambda>i. b (unat (r + of_nat i) mod sz)) [0 ..< unat (w - r)]"

lemma length_ring_list [simp]: "length (ring_list sz b r w) = unat (w - r)"
  by (simp add: ring_list_def)

lemma ring_list_empty [simp]: "ring_list sz b r r = []"
  by (simp add: ring_list_def)

lemma ring_list_Nil_iff: "ring_list sz b r w = [] \<longleftrightarrow> r = w"
  by (metis eq_iff_diff_eq_0 length_0_conv length_ring_list unsigned_eq_0_iff)

lemma unat_mod_sz:
  assumes "sz dvd 2 ^ 32"
  shows "unat ((r :: u32) + of_nat i) mod sz = (unat r + i) mod sz"
proof -
  have "unat (r + of_nat i) = (unat r + i) mod 2 ^ 32"
    by (simp add: unat_word_ariths unat_of_nat mod_add_right_eq)
  then show ?thesis using assms by (simp add: mod_mod_cancel)
qed

lemma unat_Suc_diff:
  fixes r w :: u32
  assumes "unat (w - r) < 2 ^ 32 - 1"
  shows "unat (w + 1 - r) = Suc (unat (w - r))"
proof -
  have e: "w + 1 - r = (w - r) + 1" by simp
  show ?thesis unfolding e using assms by (subst unat_add_lem [THEN iffD1]) auto
qed

lemma unat_diff_pred:
  fixes r w :: u32
  assumes "r \<noteq> w"
  shows "unat (w - 1 - r) = unat (w - r) - 1" "unat (w - (r + 1)) = unat (w - r) - 1" "0 < unat (w - r)"
proof -
  have nz: "w - r \<noteq> 0" using assms by auto
  have e: "w - 1 - r = (w - r) - 1" "w - (r + 1) = (w - r) - 1" by simp_all
  have "unat ((w - r) - 1) = unat (w - r) - 1" using nz by (rule unat_minus_one)
  then show "unat (w - 1 - r) = unat (w - r) - 1" "unat (w - (r + 1)) = unat (w - r) - 1" unfolding e by simp_all
  show "0 < unat (w - r)" using nz by (simp add: unat_gt_0)
qed

lemma ring_slot_other:
  assumes "sz dvd 2 ^ 32" "unat (w - r) < sz" "i < unat (w - r)"
  shows "unat ((r :: u32) + of_nat i) mod sz \<noteq> unat w mod sz"
proof
  assume eq: "unat (r + of_nat i) mod sz = unat w mod sz"
  let ?n = "unat (w - r)"
  have w: "w = r + of_nat ?n" by simp
  have "(unat r + i) mod sz = (unat r + ?n) mod sz"
    using eq unat_mod_sz [OF assms(1), of r i] unat_mod_sz [OF assms(1), of r ?n] w by simp
  then have "sz dvd ?n - i" using assms(3) mod_eq_dvd_iff_nat [of "unat r + i" "unat r + ?n" sz] by simp
  then show False using assms(2,3) by (meson diff_is_0_eq dvd_imp_le leD le_less_trans less_imp_diff_less zero_less_diff)
qed

lemma ring_push:
  assumes "sz dvd 2 ^ 32" "unat (w - r) < sz" "sz < 2 ^ 32"
  shows "ring_list sz (b(unat w mod sz := x)) r (w + 1) = ring_list sz b r w @ [x]"
proof -
  have n: "unat (w + 1 - r) = Suc (unat (w - r))" using assms(2,3) by (intro unat_Suc_diff) simp
  have w: "r + of_nat (unat (w - r)) = w" by simp
  have "map (\<lambda>i. (b(unat w mod sz := x)) (unat (r + of_nat i) mod sz)) [0 ..< unat (w - r)] = ring_list sz b r w"
    unfolding ring_list_def using ring_slot_other [OF assms(1,2)] by auto
  then show ?thesis unfolding ring_list_def n using w by simp
qed

lemma ring_pop:
  assumes "r \<noteq> w"
  shows "ring_list sz b r w = b (unat r mod sz) # ring_list sz b (r + 1) w"
proof -
  obtain m where m: "unat (w - r) = Suc m" using unat_diff_pred(3) [OF assms] gr0_implies_Suc by blast
  then have m': "unat (w - (r + 1)) = m" using unat_diff_pred(2) [OF assms] by simp
  show ?thesis unfolding ring_list_def m m' upt_rec [of 0 "Suc m"]
    by (simp add: map_Suc_upt [symmetric] add.assoc del: upt_Suc)
qed

lemma ring_unpush:
  assumes "r \<noteq> w"
  shows "ring_list sz b r w = ring_list sz b r (w - 1) @ [b (unat (w - 1) mod sz)]"
proof -
  obtain m where m: "unat (w - r) = Suc m" using unat_diff_pred(3) [OF assms] gr0_implies_Suc by blast
  then have m': "unat (w - 1 - r) = m" using unat_diff_pred(1) [OF assms] by simp
  have "r + of_nat (unat (w - 1 - r)) = w - 1" by simp
  then have "r + of_nat m = w - 1" unfolding m' .
  then show ?thesis unfolding ring_list_def m m' by simp
qed

lemma ring_append:
  fixes r w e :: u32
  assumes "unat (w - r) + unat (e - w) = unat (e - r)"
  shows "ring_list sz b r e = ring_list sz b r w @ ring_list sz b w e"
proof -
  let ?n = "unat (w - r)" and ?m = "unat (e - w)"
  have w: "r + of_nat ?n = w" by simp
  have "[0 ..< ?n + ?m] = [0 ..< ?n] @ map (\<lambda>i. i + ?n) [0 ..< ?m]"
    using upt_add_eq_append [of 0 ?n ?m] map_add_upt [of ?n ?m] by (simp add: add.commute)
  moreover have "r + of_nat (i + ?n) = w + of_nat i" for i
  proof -
    have "r + of_nat (i + ?n) = (r + of_nat ?n) + of_nat i" by (simp only: of_nat_add ac_simps)
    then show ?thesis unfolding w .
  qed
  ultimately show ?thesis unfolding ring_list_def assms [symmetric] by (simp del: of_nat_add)
qed

lemma ring_upd_other:
  assumes "sz dvd 2 ^ 32" "unat (e - r) < sz" "unat (w - r) \<le> unat (e - r)"
  shows "ring_list sz (b(unat e mod sz := x)) r w = ring_list sz b r w"
  unfolding ring_list_def using ring_slot_other [OF assms(1,2)] assms(3) by auto

section \<open>The queue interface\<close>

locale byte_queue =
  fixes put :: "'b \<Rightarrow> 's \<Rightarrow> 's"
    and get :: "'s \<Rightarrow> 'b \<times> 's"
    and room :: "'s \<Rightarrow> bool"
    and nonempty :: "'s \<Rightarrow> bool"
    and items :: "'s \<Rightarrow> 'b list"
    and inv :: "'s \<Rightarrow> bool"
  assumes put_law: "inv s \<Longrightarrow> room s \<Longrightarrow> inv (put x s) \<and> items (put x s) = items s @ [x]"
    and get_law: "inv s \<Longrightarrow> nonempty s \<Longrightarrow> get s = (x, s') \<Longrightarrow> inv s' \<and> items s = x # items s'"
    and nonempty_law: "inv s \<Longrightarrow> nonempty s \<longleftrightarrow> items s \<noteq> []"
begin

text \<open>Any guarded sequence of operations delivers the elements in the order they were put.\<close>

inductive run :: "'s \<Rightarrow> 'b list \<Rightarrow> 'b list \<Rightarrow> 's \<Rightarrow> bool" where
  run_refl: "run s [] [] s"
| run_put: "run s xs ys t \<Longrightarrow> room t \<Longrightarrow> run s (xs @ [x]) ys (put x t)"
| run_get: "run s xs ys t \<Longrightarrow> nonempty t \<Longrightarrow> get t = (y, u) \<Longrightarrow> run s xs (ys @ [y]) u"

lemma run_stream: "run s xs ys t \<Longrightarrow> inv s \<Longrightarrow> inv t \<and> items s @ xs = ys @ items t"
proof (induction rule: run.induct)
  case (run_put s xs ys t x)
  then show ?case using put_law [of t x] by simp
next
  case (run_get s xs ys t y u)
  then show ?case using get_law [of t y u] by simp
qed simp

lemma run_trans: "run t us vs u \<Longrightarrow> run s xs ys t \<Longrightarrow> run s (xs @ us) (ys @ vs) u"
proof (induction rule: run.induct)
  case (run_put t us vs u x)
  from run.run_put [OF run_put.IH [OF run_put.prems] run_put.hyps(2), of x] show ?case by simp
next
  case (run_get t us vs u y w)
  from run.run_get [OF run_get.IH [OF run_get.prems] run_get.hyps(2,3)] show ?case by simp
qed simp

lemma run_delivered_prefix: "run s xs ys t \<Longrightarrow> inv s \<Longrightarrow> \<exists>zs. items s @ xs = ys @ zs"
  using run_stream by blast

end

end
