(* ===== verification/Pipe.thy ===== *)
theory Pipe
  imports Ring
begin

text \<open>
  kernel/pipe.c: the data path of pipes.

  A routine that blocks is modelled up to the next point where it gives up the lock: it either
  returns or goes to sleep on a channel, with the loop index it resumes from. \<open>pipewrite_loop\<close>
  and \<open>piperead_wait\<close> are the resumption points. The user memory is a parameter: \<open>src a\<close> is the
  byte \<open>copyin\<close> finds at user address \<open>a\<close> (\<open>None\<close> when the copy fails) and \<open>dst a\<close> says whether
  \<open>copyout\<close> to \<open>a\<close> succeeds. Each routine also returns the channels it woke up.
\<close>

section \<open>Definitions\<close>

definition PIPESIZE :: nat where "PIPESIZE = 512"

record pipe =
  data :: "nat \<Rightarrow> u8"
  nread :: u32
  nwrite :: u32
  readopen :: bool
  writeopen :: bool

datatype chan = Chan_nread | Chan_nwrite

datatype 'a blocking = Ret 'a | Sleep chan nat

definition pipe_put :: "u8 \<Rightarrow> pipe \<Rightarrow> pipe" where
  "pipe_put ch pi = pi\<lparr>data := (data pi)(unat (nwrite pi) mod PIPESIZE := ch), nwrite := nwrite pi + 1\<rparr>"

definition pipe_get :: "pipe \<Rightarrow> u8 \<times> pipe" where
  "pipe_get pi = (data pi (unat (nread pi) mod PIPESIZE), pi\<lparr>nread := nread pi + 1\<rparr>)"

definition pipe_full :: "pipe \<Rightarrow> bool" where
  "pipe_full pi \<longleftrightarrow> nwrite pi = nread pi + of_nat PIPESIZE"

function pipewrite_loop ::
  "(nat \<Rightarrow> u8 option) \<Rightarrow> bool \<Rightarrow> nat \<Rightarrow> int \<Rightarrow> nat \<Rightarrow> pipe \<Rightarrow> int blocking \<times> chan list \<times> pipe" where
  "pipewrite_loop src killed addr n i pi =
     (if int i < n then
        if \<not> readopen pi \<or> killed then (Ret (-1), [], pi)
        else if pipe_full pi then (Sleep Chan_nwrite i, [Chan_nread], pi)
        else (case src (addr + i) of
                None \<Rightarrow> (Ret (int i), [Chan_nread], pi)
              | Some ch \<Rightarrow> pipewrite_loop src killed addr n (Suc i) (pipe_put ch pi))
      else (Ret (int i), [Chan_nread], pi))"
  by pat_completeness auto
termination
  by (relation "measure (\<lambda>(src, killed, addr, n, i, pi). nat (n - int i))") auto

declare pipewrite_loop.simps [simp del]

definition pipewrite ::
  "(nat \<Rightarrow> u8 option) \<Rightarrow> bool \<Rightarrow> nat \<Rightarrow> int \<Rightarrow> pipe \<Rightarrow> int blocking \<times> chan list \<times> pipe" where
  "pipewrite src killed addr n pi = pipewrite_loop src killed addr n 0 pi"

text \<open>The copy loop of \<open>piperead\<close> returns the count and the bytes stored at \<open>addr\<close>, \<open>addr + 1\<close>, ...\<close>

function piperead_copy :: "(nat \<Rightarrow> bool) \<Rightarrow> nat \<Rightarrow> int \<Rightarrow> nat \<Rightarrow> pipe \<Rightarrow> nat \<times> u8 list \<times> pipe" where
  "piperead_copy dst addr n i pi =
     (if int i < n then
        if nread pi = nwrite pi then (i, [], pi)
        else
          (let (ch, pi1) = pipe_get pi in
           if \<not> dst (addr + i) then (i, [], pi1)
           else case piperead_copy dst addr n (Suc i) pi1 of (k, bs, pi2) \<Rightarrow> (k, ch # bs, pi2))
      else (i, [], pi))"
  by pat_completeness auto
termination
  by (relation "measure (\<lambda>(dst, addr, n, i, pi). nat (n - int i))") auto

declare piperead_copy.simps [simp del]

definition piperead ::
  "(nat \<Rightarrow> bool) \<Rightarrow> bool \<Rightarrow> nat \<Rightarrow> int \<Rightarrow> pipe \<Rightarrow> (int \<times> u8 list) blocking \<times> chan list \<times> pipe" where
  "piperead dst killed addr n pi =
     (if nread pi = nwrite pi \<and> writeopen pi then
        if killed then (Ret (-1, []), [], pi) else (Sleep Chan_nread 0, [], pi)
      else case piperead_copy dst addr n 0 pi of
        (k, bs, pi1) \<Rightarrow> (Ret (int k, bs), [Chan_nwrite], pi1))"

text \<open>\<open>pipeclose\<close> also says whether the pipe is given back to the allocator.\<close>

definition pipeclose :: "bool \<Rightarrow> pipe \<Rightarrow> bool \<times> chan list \<times> pipe" where
  "pipeclose writable pi =
     (let (ws, pi1) = (if writable then ([Chan_nread], pi\<lparr>writeopen := False\<rparr>)
                       else ([Chan_nwrite], pi\<lparr>readopen := False\<rparr>))
      in (\<not> readopen pi1 \<and> \<not> writeopen pi1, ws, pi1))"

definition pipe_new :: "(nat \<Rightarrow> u8) \<Rightarrow> pipe" where
  "pipe_new d = \<lparr>data = d, nread = 0, nwrite = 0, readopen = True, writeopen = True\<rparr>"

section \<open>The pipe is a bounded queue\<close>

definition pipe_items :: "pipe \<Rightarrow> u8 list" where
  "pipe_items pi = ring_list PIPESIZE (data pi) (nread pi) (nwrite pi)"

definition pipe_inv :: "pipe \<Rightarrow> bool" where
  "pipe_inv pi \<longleftrightarrow> unat (nwrite pi - nread pi) \<le> PIPESIZE"

lemma pipe_items_simps [simp]:
  "pipe_items (pi\<lparr>readopen := b\<rparr>) = pipe_items pi" "pipe_items (pi\<lparr>writeopen := b\<rparr>) = pipe_items pi"
  "pipe_inv (pi\<lparr>readopen := b\<rparr>) = pipe_inv pi" "pipe_inv (pi\<lparr>writeopen := b\<rparr>) = pipe_inv pi"
  by (simp_all add: pipe_items_def pipe_inv_def)

lemma pipe_full_iff: "pipe_inv pi \<Longrightarrow> pipe_full pi \<longleftrightarrow> length (pipe_items pi) = PIPESIZE"
proof
  assume "pipe_full pi"
  then show "length (pipe_items pi) = PIPESIZE" by (simp add: pipe_full_def pipe_items_def PIPESIZE_def)
next
  assume "length (pipe_items pi) = PIPESIZE"
  then have "unat (nwrite pi - nread pi) = PIPESIZE" by (simp add: pipe_items_def)
  moreover have "of_nat (unat (nwrite pi - nread pi)) = nwrite pi - nread pi" by simp
  ultimately have "nwrite pi - nread pi = of_nat PIPESIZE" by simp
  then show "pipe_full pi" by (simp add: pipe_full_def algebra_simps)
qed

interpretation pipeq: byte_queue pipe_put pipe_get "\<lambda>pi. \<not> pipe_full pi" "\<lambda>pi. nread pi \<noteq> nwrite pi" pipe_items pipe_inv
proof
  fix pi x assume inv: "pipe_inv pi" and "\<not> pipe_full pi"
  then have lt: "unat (nwrite pi - nread pi) < 512"
    using pipe_full_iff [OF inv] by (auto simp: pipe_inv_def pipe_items_def PIPESIZE_def)
  then have "unat (nwrite pi + 1 - nread pi) = Suc (unat (nwrite pi - nread pi))" by (intro unat_Suc_diff) simp
  moreover have "ring_list 512 ((data pi)(unat (nwrite pi) mod 512 := x)) (nread pi) (nwrite pi + 1) =
    ring_list 512 (data pi) (nread pi) (nwrite pi) @ [x]"
    using lt by (intro ring_push) auto
  ultimately show "pipe_inv (pipe_put x pi) \<and> pipe_items (pipe_put x pi) = pipe_items pi @ [x]"
    using lt by (simp add: pipe_inv_def pipe_items_def pipe_put_def PIPESIZE_def)
next
  fix pi x pi' assume inv: "pipe_inv pi" and ne: "nread pi \<noteq> nwrite pi" and g: "pipe_get pi = (x, pi')"
  from ring_pop [OF ne, of PIPESIZE "data pi"] unat_diff_pred(2) [OF ne] g inv
  show "pipe_inv pi' \<and> pipe_items pi = x # pipe_items pi'"
    by (auto simp: pipe_get_def pipe_items_def pipe_inv_def)
next
  fix pi show "nread pi \<noteq> nwrite pi \<longleftrightarrow> pipe_items pi \<noteq> []" by (simp add: pipe_items_def ring_list_Nil_iff)
qed

section \<open>What a writer and a reader do\<close>

text \<open>The bytes \<open>src a\<close>, ..., \<open>src (a + k - 1)\<close> of user memory.\<close>

definition user_bytes :: "(nat \<Rightarrow> u8 option) \<Rightarrow> nat \<Rightarrow> nat \<Rightarrow> u8 list" where
  "user_bytes src a k = map (\<lambda>j. the (src (a + j))) [0 ..< k]"

lemma user_bytes_0 [simp]: "user_bytes src a 0 = []"
  by (simp add: user_bytes_def)

lemma user_bytes_Suc: "user_bytes src a (Suc k) = the (src a) # user_bytes src (Suc a) k"
  unfolding user_bytes_def by (simp add: upt_rec [of 0 "Suc k"] map_Suc_upt [symmetric] del: upt_Suc)

lemma open_put [simp]: "readopen (pipe_put ch pi) = readopen pi" "writeopen (pipe_put ch pi) = writeopen pi"
  by (simp_all add: pipe_put_def)

text \<open>
  One uninterrupted run of the writer from loop index \<open>i\<close> puts the next \<open>k\<close> bytes of the user's
  buffer, where \<open>i + k\<close> is the index it stops at.
\<close>

lemma pipewrite_run:
  assumes "pipewrite_loop src killed addr n i pi = (r, ws, pi')"
  shows "\<exists>k. pipeq.run pi (user_bytes src (addr + i) k) [] pi' \<and> readopen pi' = readopen pi \<and> writeopen pi' = writeopen pi
    \<and> int (i + k) \<le> max n (int i)
    \<and> (r = Ret (int (i + k)) \<and> ws = [Chan_nread] \<and> (n \<le> int (i + k) \<or> src (addr + (i + k)) = None)
      \<or> r = Ret (-1) \<and> ws = [] \<and> (\<not> readopen pi \<or> killed) \<and> int i < n \<and> k = 0
      \<or> r = Sleep Chan_nwrite (i + k) \<and> ws = [Chan_nread] \<and> pipe_full pi' \<and> int (i + k) < n)"
  using assms
proof (induction src killed addr n i pi rule: pipewrite_loop.induct)
  case (1 src killed addr n i pi)
  consider "\<not> int i < n" | "int i < n" "\<not> readopen pi \<or> killed" | "int i < n" "readopen pi" "\<not> killed" "pipe_full pi"
    | "int i < n" "readopen pi" "\<not> killed" "\<not> pipe_full pi" "src (addr + i) = None"
    | ch where "int i < n" "readopen pi" "\<not> killed" "\<not> pipe_full pi" "src (addr + i) = Some ch"
    by (cases "src (addr + i)") blast+
  then show ?case
  proof cases
    case 5
    then have rec: "pipewrite_loop src killed addr n (Suc i) (pipe_put ch pi) = (r, ws, pi')"
      using "1.prems" by (subst (asm) pipewrite_loop.simps) simp
    from "1.IH" [OF 5(1) _ 5(4,5) rec] 5(2,3) obtain k where
      k: "pipeq.run (pipe_put ch pi) (user_bytes src (addr + Suc i) k) [] pi'" "readopen pi' = readopen pi"
      "writeopen pi' = writeopen pi" "int (Suc i + k) \<le> max n (int (Suc i))"
      "r = Ret (int (Suc i + k)) \<and> ws = [Chan_nread] \<and> (n \<le> int (Suc i + k) \<or> src (addr + (Suc i + k)) = None)
      \<or> r = Ret (-1) \<and> ws = [] \<and> (\<not> readopen pi \<or> killed) \<and> int (Suc i) < n \<and> k = 0
      \<or> r = Sleep Chan_nwrite (Suc i + k) \<and> ws = [Chan_nread] \<and> pipe_full pi' \<and> int (Suc i + k) < n" by auto
    have "pipeq.run pi ([] @ [ch]) [] (pipe_put ch pi)" by (rule pipeq.run.intros(2) [OF pipeq.run.intros(1) 5(4)])
    from pipeq.run_trans [OF k(1) this] have "pipeq.run pi (user_bytes src (addr + i) (Suc k)) [] pi'"
      using 5(5) by (simp add: user_bytes_Suc)
    then show ?thesis using k(2-5) 5(1-3) by (intro exI [of _ "Suc k"]) auto
  qed (use "1.prems" in \<open>subst (asm) pipewrite_loop.simps; auto intro!: exI [of _ 0] pipeq.run.intros\<close>)+
qed

lemma piperead_copy_run:
  assumes "piperead_copy dst addr n i pi = (k, bs, pi')" "int i \<le> n" "\<And>a. dst a"
  shows "pipeq.run pi [] bs pi' \<and> k = i + length bs \<and> readopen pi' = readopen pi \<and> writeopen pi' = writeopen pi
    \<and> (int k = n \<or> nread pi' = nwrite pi') \<and> int k \<le> n"
  using assms
proof (induction dst addr n i pi arbitrary: k bs pi' rule: piperead_copy.induct)
  case (1 dst addr n i pi)
  show ?case
  proof (cases "int i < n \<and> nread pi \<noteq> nwrite pi")
    case True
    obtain ch pi1 where g: "pipe_get pi = (ch, pi1)" by fastforce
    obtain k2 bs2 pi2 where rec: "piperead_copy dst addr n (Suc i) pi1 = (k2, bs2, pi2)" by (cases "piperead_copy dst addr n (Suc i) pi1")
    have res: "k = k2" "bs = ch # bs2" "pi' = pi2"
      using "1.prems"(1,3) True g rec by (subst (asm) piperead_copy.simps, simp)+
    from "1.IH" [OF _ _ refl g [symmetric] _ rec] True "1.prems"(3) have
      ih: "pipeq.run pi1 [] bs2 pi2" "k2 = Suc i + length bs2" "readopen pi2 = readopen pi1" "writeopen pi2 = writeopen pi1"
      "int k2 = n \<or> nread pi2 = nwrite pi2" "int k2 \<le> n" by auto
    have "pipeq.run pi [] ([] @ [ch]) pi1" by (rule pipeq.run.intros(3) [OF pipeq.run.intros(1) _ g]) (use True in simp)
    moreover have "readopen pi1 = readopen pi" "writeopen pi1 = writeopen pi" using g by (auto simp: pipe_get_def)
    ultimately show ?thesis using pipeq.run_trans [OF ih(1)] ih res by fastforce
  next
    case False
    then have "piperead_copy dst addr n i pi = (i, [], pi)" by (subst piperead_copy.simps) auto
    then show ?thesis using "1.prems" False by (auto intro: pipeq.run.intros)
  qed
qed

section \<open>Any interleaving of readers, writers and closers\<close>

text \<open>
  \<open>pipe_trace pi ws rs\<close>: from a new pipe, some sequence of uninterrupted runs of readers and
  writers has led to \<open>pi\<close>; \<open>ws\<close> are the bytes taken from writers, \<open>rs\<close> those given to readers.
\<close>

fun accepted :: "nat \<Rightarrow> int blocking \<Rightarrow> nat" where
  "accepted i (Ret m) = nat m - i"
| "accepted i (Sleep c j) = j - i"

inductive pipe_trace :: "pipe \<Rightarrow> u8 list \<Rightarrow> u8 list \<Rightarrow> bool" where
  trace_new: "pipe_trace (pipe_new d) [] []"
| trace_write: "pipe_trace pi ws rs \<Longrightarrow> pipewrite_loop src killed addr n i pi = (r, wk, pi') \<Longrightarrow>
     pipe_trace pi' (ws @ user_bytes src (addr + i) (accepted i r)) rs"
| trace_read: "pipe_trace pi ws rs \<Longrightarrow> piperead (\<lambda>a. True) killed addr n pi = (Ret (m, bs), wk, pi') \<Longrightarrow>
     pipe_trace pi' ws (rs @ bs)"
| trace_read_sleep: "pipe_trace pi ws rs \<Longrightarrow> piperead (\<lambda>a. True) killed addr n pi = (Sleep c j, wk, pi') \<Longrightarrow>
     pipe_trace pi' ws rs"
| trace_close: "pipe_trace pi ws rs \<Longrightarrow> pipeclose writable pi = (f, wk, pi') \<Longrightarrow> pipe_trace pi' ws rs"

inductive_cases pipe_trace_cases: "pipe_trace pi ws rs"

lemma accepted_run:
  assumes "pipewrite_loop src killed addr n i pi = (r, wk, pi')"
  shows "pipeq.run pi (user_bytes src (addr + i) (accepted i r)) [] pi'"
proof -
  from pipewrite_run [OF assms] obtain k where
    k: "pipeq.run pi (user_bytes src (addr + i) k) [] pi'"
    "r = Ret (int (i + k)) \<or> r = Ret (-1) \<and> k = 0 \<or> r = Sleep Chan_nwrite (i + k)" by blast
  then have "accepted i r = k" by (elim disjE) simp_all
  with k(1) show ?thesis by simp
qed

lemma piperead_run:
  assumes "piperead (\<lambda>a. True) killed addr n pi = (Ret (m, bs), wk, pi')"
  shows "pipeq.run pi [] bs pi'"
proof -
  obtain k cs pj where c: "piperead_copy (\<lambda>a. True) addr n 0 pi = (k, cs, pj)"
    by (cases "piperead_copy (\<lambda>a. True) addr n 0 pi")
  show ?thesis
  proof (cases "nread pi = nwrite pi \<and> writeopen pi")
    case True
    then show ?thesis using assms by (auto simp: piperead_def split: if_splits intro: pipeq.run.intros)
  next
    case False
    then have e: "bs = cs" "pi' = pj" using assms c by (auto simp: piperead_def)
    show ?thesis
    proof (cases "n < 0")
      case True
      then show ?thesis using c e by (subst (asm) piperead_copy.simps) (auto intro: pipeq.run.intros)
    next
      case False
      then show ?thesis using piperead_copy_run [OF c] e by auto
    qed
  qed
qed

lemma trace_inv: "pipe_trace pi ws rs \<Longrightarrow> pipe_inv pi \<and> ws = rs @ pipe_items pi"
proof (induction rule: pipe_trace.induct)
  case (trace_new d)
  then show ?case by (simp add: pipe_new_def pipe_inv_def pipe_items_def)
next
  case (trace_write pi ws rs src killed addr n i r wk pi')
  from pipeq.run_stream [OF accepted_run [OF trace_write.hyps(2)]] trace_write.IH show ?case by simp
next
  case (trace_read pi ws rs killed addr n m bs wk pi')
  from pipeq.run_stream [OF piperead_run [OF trace_read.hyps(2)]] trace_read.IH show ?case by simp
next
  case (trace_read_sleep pi ws rs killed addr n c j wk pi')
  then show ?case by (auto simp: piperead_def split: if_splits prod.splits)
next
  case (trace_close pi ws rs writable f wk pi')
  then show ?case by (auto simp: pipeclose_def Let_def split: if_splits)
qed

section \<open>Properties\<close>


definition demo_src :: "nat \<Rightarrow> u8 option" where
  "demo_src a = (if a < 3 then Some (of_nat (65 + a)) else None)"



definition demo_full :: pipe where
  "demo_full = \<lparr>data = (\<lambda>_. 7), nread = 0xFFFFFF00, nwrite = 0x100, readopen = True, writeopen = True\<rparr>"


end
