(* ===== verification/Console.thy ===== *)
theory Console
  imports Ring
begin

text \<open>
  kernel/console.c and kernel/uart.c: console input with line editing, console reads, and the
  UART driver underneath.

  The indices \<open>r\<close> (read), \<open>w\<close> (end of the committed input) and \<open>e\<close> (end of the line being edited)
  are free-running 32-bit counters into a buffer of 128 bytes. Interrupt and read handlers run
  under \<open>cons.lock\<close> and are single steps up to the point where a reader sleeps. What a handler
  does to the outside (echo, wake-up, process listing) is the list of \<open>cons_act\<close>s it returns.
\<close>

unbundle bit_operations_syntax

section \<open>Definitions\<close>

definition BACKSPACE :: nat where "BACKSPACE = 0x100"
definition INPUT_BUF_SIZE :: nat where "INPUT_BUF_SIZE = 128"

abbreviation ctrl_D :: u8 where "ctrl_D \<equiv> 4"
abbreviation ctrl_H :: u8 where "ctrl_H \<equiv> 8"
abbreviation ctrl_P :: u8 where "ctrl_P \<equiv> 16"
abbreviation ctrl_U :: u8 where "ctrl_U \<equiv> 21"
abbreviation delete_key :: u8 where "delete_key \<equiv> 0x7f"
abbreviation newline :: u8 where "newline \<equiv> 10"
abbreviation carriage_return :: u8 where "carriage_return \<equiv> 13"

record cons =
  cbuf :: "nat \<Rightarrow> u8"
  cons_r :: u32
  cons_w :: u32
  cons_e :: u32

datatype cons_act = Uart "u8 list" | Wakeup_r | Procdump

definition consputc :: "nat \<Rightarrow> cons_act" where
  "consputc c = Uart (if c = BACKSPACE then [8, 32, 8] else [of_nat c])"

function kill_line :: "cons \<Rightarrow> cons_act list \<times> cons" where
  "kill_line s =
     (if cons_e s \<noteq> cons_w s \<and> cbuf s (unat (cons_e s - 1) mod INPUT_BUF_SIZE) \<noteq> newline then
        (case kill_line (s\<lparr>cons_e := cons_e s - 1\<rparr>) of (as, s') \<Rightarrow> (consputc BACKSPACE # as, s'))
      else ([], s))"
  by pat_completeness auto
termination
  by (relation "measure (\<lambda>s. unat (cons_e s - cons_w s))")
    (auto simp: unat_diff_pred(1) [symmetric] unat_diff_pred(1) unat_diff_pred(3))

declare kill_line.simps [simp del]

definition consoleintr :: "u8 \<Rightarrow> cons \<Rightarrow> cons_act list \<times> cons" where
  "consoleintr c s =
     (if c = ctrl_P then ([Procdump], s)
      else if c = ctrl_U then kill_line s
      else if c = ctrl_H \<or> c = delete_key then
        (if cons_e s \<noteq> cons_w s then ([consputc BACKSPACE], s\<lparr>cons_e := cons_e s - 1\<rparr>) else ([], s))
      else if c \<noteq> 0 \<and> unat (cons_e s - cons_r s) < INPUT_BUF_SIZE then
        (let c' = (if c = carriage_return then newline else c);
             s1 = s\<lparr>cbuf := (cbuf s)(unat (cons_e s) mod INPUT_BUF_SIZE := c'), cons_e := cons_e s + 1\<rparr>
         in if c' = newline \<or> c' = ctrl_D \<or> unat (cons_e s1 - cons_r s1) = INPUT_BUF_SIZE
            then ([consputc (unat c'), Wakeup_r], s1\<lparr>cons_w := cons_e s1\<rparr>)
            else ([consputc (unat c')], s1))
      else ([], s))"

text \<open>
  The loop of \<open>consoleread\<close>; \<open>n\<close> bytes are still wanted of \<open>target\<close>. \<open>dst a\<close> says whether copying
  a byte out to address \<open>a\<close> works. \<open>Inr m\<close> is a return of \<open>m\<close>, \<open>Inl n\<close> a sleep with \<open>n\<close> left.
\<close>

fun consoleread_loop ::
  "(nat \<Rightarrow> bool) \<Rightarrow> bool \<Rightarrow> nat \<Rightarrow> nat \<Rightarrow> nat \<Rightarrow> cons \<Rightarrow> (nat + int) \<times> u8 list \<times> cons" where
  "consoleread_loop dst killed target d 0 s = (Inr (int target), [], s)"
| "consoleread_loop dst killed target d (Suc n) s =
     (if cons_r s = cons_w s then
        (if killed then (Inr (-1), [], s) else (Inl (Suc n), [], s))
      else
        (let c = cbuf s (unat (cons_r s) mod INPUT_BUF_SIZE);
             s1 = s\<lparr>cons_r := cons_r s + 1\<rparr>
         in if c = ctrl_D then
              (Inr (int target - int (Suc n)), [], if Suc n < target then s1\<lparr>cons_r := cons_r s1 - 1\<rparr> else s1)
            else if \<not> dst d then (Inr (int target - int (Suc n)), [], s1)
            else if c = newline then (Inr (int target - int n), [c], s1)
            else case consoleread_loop dst killed target (Suc d) n s1 of (r, bs, s2) \<Rightarrow> (r, c # bs, s2)))"

definition consoleread :: "(nat \<Rightarrow> bool) \<Rightarrow> bool \<Rightarrow> nat \<Rightarrow> int \<Rightarrow> cons \<Rightarrow> (nat + int) \<times> u8 list \<times> cons" where
  "consoleread dst killed d n s = (if n > 0 then consoleread_loop dst killed (nat n) d (nat n) s else (Inr 0, [], s))"

text \<open>
  \<open>consolewrite\<close> copies the user's bytes in chunks of up to 32 and hands each chunk to
  \<open>uartwrite\<close>; a chunk that cannot be copied in ends the loop. The result is the count and the
  bytes handed over. \<open>src a\<close> is the byte at address \<open>a\<close>, \<open>None\<close> where the copy fails.
\<close>

definition copyin_chunk :: "(nat \<Rightarrow> u8 option) \<Rightarrow> nat \<Rightarrow> nat \<Rightarrow> u8 list option" where
  "copyin_chunk src a n =
     (if \<forall>j \<in> set [0 ..< n]. src (a + j) \<noteq> None then Some (map (\<lambda>j. the (src (a + j))) [0 ..< n]) else None)"

function consolewrite_loop :: "(nat \<Rightarrow> u8 option) \<Rightarrow> nat \<Rightarrow> nat \<Rightarrow> nat \<Rightarrow> nat \<times> u8 list" where
  "consolewrite_loop src a n i =
     (if i < n then
        (let nn = (if 32 > n - i then n - i else 32) in
         case copyin_chunk src (a + i) nn of
           None \<Rightarrow> (i, [])
         | Some buf \<Rightarrow> (case consolewrite_loop src a n (i + nn) of (k, bs) \<Rightarrow> (k, buf @ bs)))
      else (i, []))"
  by pat_completeness auto
termination
  by (relation "measure (\<lambda>(src, a, n, i). n - i)") auto

declare consolewrite_loop.simps [simp del]

definition consolewrite :: "(nat \<Rightarrow> u8 option) \<Rightarrow> nat \<Rightarrow> int \<Rightarrow> nat \<times> u8 list" where
  "consolewrite src a n = consolewrite_loop src a (nat n) 0"

section \<open>The UART\<close>

definition LSR_RX_READY :: u8 where "LSR_RX_READY = 1"
definition LSR_TX_IDLE :: u8 where "LSR_TX_IDLE = 32"

text \<open>\<open>tx\<close> is what has been written to the transmit register, \<open>rx\<close> what waits in the receive FIFO.\<close>

record uart =
  tx_busy :: bool
  tx :: "u8 list"
  rx :: "u8 list"

text \<open>The register writes of \<open>uartinit\<close>: line settings for 38.4K baud, FIFOs, interrupts.\<close>

definition uartinit :: "(nat \<times> u8) list" where
  "uartinit = [(1, 0x00), (3, 0x80), (0, 0x03), (1, 0x00), (3, 0x03), (2, 0x07), (1, 0x03)]"

text \<open>\<open>uartwrite_loop\<close> stops when it has to wait; the result is the index to resume from.\<close>

fun uartwrite_loop :: "u8 list \<Rightarrow> nat \<Rightarrow> uart \<Rightarrow> nat \<times> uart" where
  "uartwrite_loop [] i u = (i, u)"
| "uartwrite_loop (b # bs) i u =
     (if tx_busy u then (i, u) else uartwrite_loop bs (Suc i) (u\<lparr>tx := tx u @ [b], tx_busy := True\<rparr>))"

definition uartwrite :: "u8 list \<Rightarrow> uart \<Rightarrow> nat \<times> uart" where
  "uartwrite buf u = uartwrite_loop buf 0 u"

definition uartputc_sync :: "u8 \<Rightarrow> uart \<Rightarrow> uart" where
  "uartputc_sync c u = u\<lparr>tx := tx u @ [c]\<rparr>"

definition uartgetc :: "uart \<Rightarrow> int \<times> uart" where
  "uartgetc u = (case rx u of [] \<Rightarrow> (-1, u) | c # cs \<Rightarrow> (int (unat c), u\<lparr>rx := cs\<rparr>))"

function uartintr_loop :: "uart \<Rightarrow> cons \<Rightarrow> cons_act list \<times> uart \<times> cons" where
  "uartintr_loop u s =
     (case uartgetc u of (c, u1) \<Rightarrow>
        if c = -1 then ([], u1, s)
        else case consoleintr (of_int c) s of (as, s1) \<Rightarrow>
          (case uartintr_loop u1 s1 of (bs, u2, s2) \<Rightarrow> (as @ bs, u2, s2)))"
  by pat_completeness auto
termination
  by (relation "measure (\<lambda>(u, s). length (rx u))") (auto simp: uartgetc_def split: list.splits)

declare uartintr_loop.simps [simp del]

text \<open>\<open>lsr\<close> is the line status; the wake-up of the sending thread is the first result.\<close>

definition uartintr :: "u8 \<Rightarrow> uart \<Rightarrow> cons \<Rightarrow> bool \<times> cons_act list \<times> uart \<times> cons" where
  "uartintr lsr u s =
     (let idle = (lsr AND LSR_TX_IDLE \<noteq> 0);
          u1 = (if idle then u\<lparr>tx_busy := False\<rparr> else u)
      in (idle, uartintr_loop u1 s))"

section \<open>The line discipline\<close>

text \<open>
  What a terminal user expects: the input that readers can take, and the line still being typed.
  A line is handed over when it ends, at end of file, or when the buffer is full.
\<close>

record terminal =
  committed :: "u8 list"
  line :: "u8 list"

definition term_type :: "u8 \<Rightarrow> terminal \<Rightarrow> terminal" where
  "term_type c t =
     (if c = ctrl_P then t
      else if c = ctrl_U then t\<lparr>line := []\<rparr>
      else if c = ctrl_H \<or> c = delete_key then t\<lparr>line := butlast (line t)\<rparr>
      else if c = 0 \<or> length (committed t) + length (line t) \<ge> INPUT_BUF_SIZE then t
      else
        (let c' = (if c = carriage_return then newline else c); l = line t @ [c']
         in if c' = newline \<or> c' = ctrl_D \<or> length (committed t) + length l = INPUT_BUF_SIZE
            then \<lparr>committed = committed t @ l, line = []\<rparr> else t\<lparr>line := l\<rparr>))"

definition cons_inv :: "cons \<Rightarrow> bool" where
  "cons_inv s \<longleftrightarrow> unat (cons_w s - cons_r s) + unat (cons_e s - cons_w s) = unat (cons_e s - cons_r s)
     \<and> unat (cons_e s - cons_r s) \<le> INPUT_BUF_SIZE
     \<and> newline \<notin> set (ring_list INPUT_BUF_SIZE (cbuf s) (cons_w s) (cons_e s))"

definition cons_abs :: "cons \<Rightarrow> terminal" where
  "cons_abs s = \<lparr>committed = ring_list INPUT_BUF_SIZE (cbuf s) (cons_r s) (cons_w s),
                 line = ring_list INPUT_BUF_SIZE (cbuf s) (cons_w s) (cons_e s)\<rparr>"

lemma kill_line_ok:
  assumes "cons_inv s"
  shows "cons_inv (snd (kill_line s)) \<and> cons_abs (snd (kill_line s)) = (cons_abs s)\<lparr>line := []\<rparr>"
  using assms
proof (induction s rule: kill_line.induct)
  case (1 s)
  show ?case
  proof (cases "cons_e s = cons_w s")
    case True
    then show ?thesis using "1.prems" by (subst (1 2) kill_line.simps) (simp add: cons_abs_def)
  next
    case False
    let ?s = "s\<lparr>cons_e := cons_e s - 1\<rparr>"
    have ne: "cons_w s \<noteq> cons_e s" using False by simp
    note un = ring_unpush [OF ne, of INPUT_BUF_SIZE "cbuf s"]
    then have nl: "cbuf s (unat (cons_e s - 1) mod INPUT_BUF_SIZE) \<noteq> newline"
      and sub: "newline \<notin> set (ring_list INPUT_BUF_SIZE (cbuf s) (cons_w s) (cons_e s - 1))"
      using "1.prems" by (auto simp: cons_inv_def)
    have ner: "cons_r s \<noteq> cons_e s" using "1.prems" unat_diff_pred(3) [OF ne] by (auto simp: cons_inv_def)
    have "cons_inv ?s"
      using "1.prems" sub unat_diff_pred [OF ne] unat_diff_pred [OF ner] by (auto simp: cons_inv_def)
    from "1.IH" [OF conjI [OF False nl] this] show ?thesis
      using False nl by (subst (1 2) kill_line.simps) (auto simp: cons_abs_def split: prod.splits)
  qed
qed

lemma consoleintr_refines:
  assumes inv: "cons_inv s"
  shows "cons_inv (snd (consoleintr c s)) \<and> cons_abs (snd (consoleintr c s)) = term_type c (cons_abs s)"
proof -
  have tot: "length (committed (cons_abs s)) + length (line (cons_abs s)) = unat (cons_e s - cons_r s)"
    using inv by (simp add: cons_abs_def cons_inv_def)
  consider "c = ctrl_P" | "c = ctrl_U" | "c = ctrl_H \<or> c = delete_key"
    | "c \<notin> {ctrl_P, ctrl_U, ctrl_H, delete_key}" "c = 0 \<or> \<not> unat (cons_e s - cons_r s) < INPUT_BUF_SIZE"
    | "c \<notin> {ctrl_P, ctrl_U, ctrl_H, delete_key}" "c \<noteq> 0" "unat (cons_e s - cons_r s) < INPUT_BUF_SIZE" by blast
  then show ?thesis
  proof cases
    case 1
    then show ?thesis using inv by (simp add: consoleintr_def term_type_def)
  next
    case 2
    then show ?thesis using kill_line_ok [OF inv] by (simp add: consoleintr_def term_type_def)
  next
    case 3
    show ?thesis
    proof (cases "cons_e s = cons_w s")
      case True
      then show ?thesis using 3 inv by (auto simp: consoleintr_def term_type_def cons_abs_def)
    next
      case False
      then have ne: "cons_w s \<noteq> cons_e s" by simp
      note un = ring_unpush [OF ne, of INPUT_BUF_SIZE "cbuf s"]
      have ner: "cons_r s \<noteq> cons_e s" using inv unat_diff_pred(3) [OF ne] by (auto simp: cons_inv_def)
      have "cons_inv (s\<lparr>cons_e := cons_e s - 1\<rparr>)"
        using inv un unat_diff_pred [OF ne] unat_diff_pred [OF ner] by (auto simp: cons_inv_def)
      with un False 3 show ?thesis by (auto simp: consoleintr_def term_type_def cons_abs_def)
    qed
  next
    case 4
    then show ?thesis using inv tot by (auto simp: consoleintr_def term_type_def)
  next
    case 5
    define c' where "c' = (if c = carriage_return then newline else c)"
    define b' where "b' = (cbuf s)(unat (cons_e s) mod INPUT_BUF_SIZE := c')"
    have dv: "INPUT_BUF_SIZE dvd 2 ^ 32" "INPUT_BUF_SIZE < 2 ^ 32" by (simp_all add: INPUT_BUF_SIZE_def)
    have sums: "unat (cons_w s - cons_r s) + unat (cons_e s - cons_w s) = unat (cons_e s - cons_r s)"
      using inv by (simp add: cons_inv_def)
    have up: "unat (cons_e s + 1 - cons_r s) = Suc (unat (cons_e s - cons_r s))"
      "unat (cons_e s + 1 - cons_w s) = Suc (unat (cons_e s - cons_w s))"
      using 5(3) sums dv(2) by (auto intro!: unat_Suc_diff)
    have com: "ring_list INPUT_BUF_SIZE b' (cons_r s) (cons_w s) = ring_list INPUT_BUF_SIZE (cbuf s) (cons_r s) (cons_w s)"
      unfolding b'_def by (rule ring_upd_other [OF dv(1) 5(3)]) (use sums in linarith)
    have lin: "ring_list INPUT_BUF_SIZE b' (cons_w s) (cons_e s + 1) = ring_list INPUT_BUF_SIZE (cbuf s) (cons_w s) (cons_e s) @ [c']"
      unfolding b'_def using 5(3) sums dv by (intro ring_push) auto
    have all: "ring_list INPUT_BUF_SIZE b' (cons_r s) (cons_e s + 1) =
      ring_list INPUT_BUF_SIZE (cbuf s) (cons_r s) (cons_w s) @ ring_list INPUT_BUF_SIZE (cbuf s) (cons_w s) (cons_e s) @ [c']"
      unfolding b'_def ring_push [OF dv(1) 5(3) dv(2)] ring_append [OF sums] by simp
    show ?thesis
    proof (cases "c' = newline \<or> c' = ctrl_D \<or> unat (cons_e s + 1 - cons_r s) = INPUT_BUF_SIZE")
      case True
      then have run: "snd (consoleintr c s) = s\<lparr>cbuf := b', cons_e := cons_e s + 1, cons_w := cons_e s + 1\<rparr>"
        using 5 by (auto simp: consoleintr_def Let_def b'_def c'_def)
      have "term_type c (cons_abs s) = \<lparr>committed = committed (cons_abs s) @ line (cons_abs s) @ [c'], line = []\<rparr>"
        using 5 True tot up(1) unfolding term_type_def c'_def [symmetric] Let_def by auto
      then show ?thesis unfolding run using all up(1) 5(3) by (simp add: cons_abs_def cons_inv_def)
    next
      case False
      then have run: "snd (consoleintr c s) = s\<lparr>cbuf := b', cons_e := cons_e s + 1\<rparr>"
        using 5 by (auto simp: consoleintr_def Let_def b'_def c'_def)
      have "term_type c (cons_abs s) = (cons_abs s)\<lparr>line := line (cons_abs s) @ [c']\<rparr>"
        using 5 False tot up(1) unfolding term_type_def c'_def [symmetric] Let_def by auto
      then show ?thesis unfolding run using com lin up 5(3) sums False inv
        by (simp add: cons_abs_def cons_inv_def)
    qed
  qed
qed

lemma uartintr_loop_ok:
  assumes "cons_inv s" "uartintr_loop u s = (as, u', s')"
  shows "cons_inv s' \<and> cons_abs s' = fold term_type (rx u) (cons_abs s) \<and> rx u' = [] \<and> tx u' = tx u \<and> tx_busy u' = tx_busy u"
  using assms
proof (induction "rx u" arbitrary: u s as u' s')
  case Nil
  have e: "rx u = []" by (rule Nil.hyps [symmetric])
  have g: "uartgetc u = (-1, u)" by (simp add: uartgetc_def e)
  have "uartintr_loop u s = ([], u, s)" by (simp add: uartintr_loop.simps [of u s] g)
  with Nil.prems e show ?case by simp
next
  case (Cons c cs)
  obtain bs s1 where c: "consoleintr c s = (bs, s1)" by fastforce
  obtain ds u2 s2 where rec: "uartintr_loop (u\<lparr>rx := cs\<rparr>) s1 = (ds, u2, s2)" by (cases "uartintr_loop (u\<lparr>rx := cs\<rparr>) s1")
  have e: "rx u = c # cs" by (rule Cons.hyps(2) [symmetric])
  have g: "uartgetc u = (int (unat c), u\<lparr>rx := cs\<rparr>)" by (simp add: uartgetc_def e)
  have "0 \<le> uint c" by simp
  then have "uint c \<noteq> -1" by linarith
  then have "uartintr_loop u s = (bs @ ds, u2, s2)" by (simp add: uartintr_loop.simps [of u s] g c rec)
  then have "u' = u2" "s' = s2" using Cons.prems(2) by auto
  moreover have "cons_inv s1" "cons_abs s1 = term_type c (cons_abs s)"
    using consoleintr_refines [OF Cons.prems(1), of c] c by auto
  ultimately show ?case using Cons.hyps(1) [OF _ _ rec] by (simp add: e)
qed

section \<open>Reads\<close>

text \<open>
  A read takes a prefix of the committed input: it stops at the end of a line, at the count, or
  at an end-of-file character, which it consumes only when it has delivered nothing.
\<close>

lemma consoleread_loop_ok:
  assumes "consoleread_loop (\<lambda>a. True) killed target d n s = (r, bs, s')" "n \<le> target"
  defines "q \<equiv> ring_list INPUT_BUF_SIZE (cbuf s) (cons_r s) (cons_w s)"
    and "q' \<equiv> ring_list INPUT_BUF_SIZE (cbuf s') (cons_r s') (cons_w s')"
  shows "cons_w s' = cons_w s \<and> cons_e s' = cons_e s \<and> cbuf s' = cbuf s \<and> length bs \<le> n
    \<and> ctrl_D \<notin> set bs \<and> newline \<notin> set (butlast bs)
    \<and> (r = Inr (-1) \<and> killed \<or> r = Inl (n - length bs) \<or> r = Inr (int target - int n + int (length bs)))
    \<and> (q = bs @ q' \<or> q = ctrl_D # q' \<and> bs = [] \<and> n = target)"
  using assms(1,2) unfolding q_def q'_def
proof (induction n arbitrary: d s r bs s')
  case 0
  then show ?case by auto
next
  case (Suc n)
  show ?case
  proof (cases "cons_r s = cons_w s")
    case True
    then show ?thesis using Suc.prems by (auto split: if_splits)
  next
    case False
    let ?c = "cbuf s (unat (cons_r s) mod INPUT_BUF_SIZE)" and ?s1 = "s\<lparr>cons_r := cons_r s + 1\<rparr>"
    note pop = ring_pop [OF False, of INPUT_BUF_SIZE "cbuf s"]
    consider "?c = ctrl_D" | "?c \<noteq> ctrl_D" "?c = newline" | "?c \<noteq> ctrl_D" "?c \<noteq> newline" by blast
    then show ?thesis
    proof cases
      case 1
      then show ?thesis using Suc.prems False pop by (auto simp: Let_def split: if_splits)
    next
      case 2
      then show ?thesis using Suc.prems False pop by (auto simp: Let_def)
    next
      case 3
      obtain r2 cs s2 where rec: "consoleread_loop (\<lambda>a. True) killed target (Suc d) n ?s1 = (r2, cs, s2)"
        by (cases "consoleread_loop (\<lambda>a. True) killed target (Suc d) n ?s1")
      then have e: "r = r2" "bs = ?c # cs" "s' = s2" using Suc.prems(1) False 3 by (auto simp: Let_def)
      from Suc.IH [OF rec] Suc.prems(2) have
        ih: "cons_w s2 = cons_w s" "cons_e s2 = cons_e s" "cbuf s2 = cbuf s" "length cs \<le> n" "ctrl_D \<notin> set cs"
        "newline \<notin> set (butlast cs)"
        "r2 = Inr (-1) \<and> killed \<or> r2 = Inl (n - length cs) \<or> r2 = Inr (int target - int n + int (length cs))"
        "ring_list INPUT_BUF_SIZE (cbuf s) (cons_r s + 1) (cons_w s) = cs @ ring_list INPUT_BUF_SIZE (cbuf s2) (cons_r s2) (cons_w s2)"
        by auto
      show ?thesis using ih e 3 pop by (auto simp: butlast_append)
    qed
  qed
qed

lemma consolewrite_loop_ok:
  assumes "\<forall>j < n. src (a + j) \<noteq> None" "i \<le> n"
  shows "consolewrite_loop src a n i = (n, map (\<lambda>j. the (src (a + j))) [i ..< n])"
  using assms
proof (induction src a n i rule: consolewrite_loop.induct)
  case (1 src a n i)
  show ?case
  proof (cases "i < n")
    case True
    define nn where "nn = (if 32 > n - i then n - i else 32)"
    have le: "i + nn \<le> n" using True by (auto simp: nn_def)
    have "map (\<lambda>j. the (src (a + i + j))) [0 ..< nn] = map (\<lambda>j. the (src (a + j))) (map (\<lambda>j. j + i) [0 ..< nn])"
      by (simp add: ac_simps)
    also have "map (\<lambda>j. j + i) [0 ..< nn] = [i ..< i + nn]" using map_add_upt [of i nn] by (simp add: add.commute)
    finally have chunk: "copyin_chunk src (a + i) nn = Some (map (\<lambda>j. the (src (a + j))) [i ..< i + nn])"
      using "1.prems"(1) le by (auto simp: copyin_chunk_def add.assoc)
    from "1.IH" [OF True nn_def chunk "1.prems"(1) le]
    have "consolewrite_loop src a n (i + nn) = (n, map (\<lambda>j. the (src (a + j))) [i + nn ..< n])" .
    moreover have "[i ..< n] = [i ..< i + nn] @ [i + nn ..< n]" using le upt_add_eq_append [of i "i + nn" "n - (i + nn)"] by simp
    ultimately show ?thesis
      using True chunk by (simp add: consolewrite_loop.simps [of src a n i] Let_def flip: nn_def)
  next
    case False
    then have "i = n" using "1.prems"(2) by simp
    then show ?thesis by (simp add: consolewrite_loop.simps [of src a n n])
  qed
qed

section \<open>Properties\<close>

text \<open>
  (C11) A UART interrupt drains the receive FIFO, and its effect on the console buffer is that of the
  abstract terminal taking the received characters one by one: erase and kill act on the
  unfinished line only, a finished line becomes readable, nothing is lost or reordered. The
  buffer indices keep their order across 32-bit wrap-around.
\<close>

theorem console_line_editing:
  assumes "cons_inv s" "uartintr lsr u s = (idle, as, u', s')"
  shows "cons_inv s' \<and> cons_abs s' = fold term_type (rx u) (cons_abs s) \<and> rx u' = [] \<and> tx u' = tx u"
proof -
  let ?u = "if lsr AND LSR_TX_IDLE \<noteq> 0 then u\<lparr>tx_busy := False\<rparr> else u"
  have "uartintr_loop ?u s = (as, u', s')" using assms(2) by (auto simp: uartintr_def Let_def)
  from uartintr_loop_ok [OF assms(1) this] show ?thesis by (auto split: if_splits)
qed

definition cons0 :: cons where
  "cons0 = \<lparr>cbuf = (\<lambda>_. 0), cons_r = 0xFFFFFFFE, cons_w = 0xFFFFFFFE, cons_e = 0xFFFFFFFE\<rparr>"

lemma cons0_inv: "cons_inv cons0"
  by (simp add: cons_inv_def cons0_def)

theorem console_line_editing_witness:
  "\<exists>as u' s'. uartintr 33 \<lparr>tx_busy = True, tx = [], rx = [97, 98, 127, 99, 13]\<rparr> cons0 = (True, as, u', s')
     \<and> committed (cons_abs s') = [97, 99, 10] \<and> line (cons_abs s') = []"
proof -
  let ?u = "\<lparr>tx_busy = True, tx = [], rx = [97, 98, 127, 99, 13]\<rparr>"
  obtain idle as u' s' where r: "uartintr 33 ?u cons0 = (idle, as, u', s')" by (metis prod_cases3)
  have "idle" using r by (auto simp: uartintr_def LSR_TX_IDLE_def)
  from console_line_editing [OF cons0_inv r] have "cons_abs s' = fold term_type (rx ?u) (cons_abs cons0)" by blast
  moreover have "cons_abs cons0 = \<lparr>committed = [], line = []\<rparr>" by (simp add: cons_abs_def cons0_def)
  moreover have "fold term_type [97, 98, 127, 99, 13] \<lparr>committed = [], line = []\<rparr> = \<lparr>committed = [97, 99, 10], line = []\<rparr>"
    by (simp add: term_type_def INPUT_BUF_SIZE_def)
  ultimately have "cons_abs s' = \<lparr>committed = [97, 99, 10], line = []\<rparr>" by simp
  then show ?thesis using r \<open>idle\<close> by (intro exI [of _ as] exI [of _ u'] exI [of _ s']) simp
qed


definition cons1 :: cons where
  "cons1 = \<lparr>cbuf = (\<lambda>i. if i = 0 then 104 else if i = 1 then 10 else 120), cons_r = 0, cons_w = 3, cons_e = 3\<rparr>"


end
