(* ===== verification/Printf.thy ===== *)
theory Printf
  imports Prelude
begin

text \<open>
  Formatted output: kernel/printf.c (\<open>printf\<close>, printed through \<open>consputc\<close>) and user/printf.c
  (\<open>vprintf\<close>, printed through \<open>putc\<close>). A C string is the list of its bytes before the NUL; an
  argument is a 64-bit word or a string pointer, \<open>None\<close> for a null pointer. The result is the
  output; \<open>None\<close> stands for a \<open>va_arg\<close> of an argument that was not passed. Both printers are
  parametrised by their table of digits, lower case in the kernel and upper case in user space.
\<close>

unbundle bit_operations_syntax

definition chr :: "char \<Rightarrow> u8" where
  "chr c = of_nat (of_char c)"

definition str :: "string \<Rightarrow> u8 list" where
  "str s = map chr s"

datatype arg = Word_arg u64 | Str_arg "u8 list option"

definition kdigits :: "u8 list" where "kdigits = str ''0123456789abcdef''"
definition udigits :: "u8 list" where "udigits = str ''0123456789ABCDEF''"

section \<open>Numbers\<close>

text \<open>The digit loop of \<open>printint\<close>: the least significant digit first, at least one digit.\<close>

function digit_loop :: "nat \<Rightarrow> nat \<Rightarrow> nat list" where
  "digit_loop base x = x mod base # (if x div base \<noteq> 0 \<and> 1 < base then digit_loop base (x div base) else [])"
  by pat_completeness auto
termination
  by (relation "measure snd") (auto intro!: div_less_dividend intro: gr0I)

declare digit_loop.simps [simp del]

definition printint :: "u8 list \<Rightarrow> u64 \<Rightarrow> nat \<Rightarrow> bool \<Rightarrow> u8 list" where
  "printint dg xx base sign =
     (let neg = (sign \<and> sint xx < 0);
          x = (if neg then - xx else xx);
          buf = map (\<lambda>d. dg ! d) (digit_loop base (unat x)) @ (if neg then [chr CHR ''-''] else [])
      in rev buf)"

fun printptr_loop :: "u8 list \<Rightarrow> nat \<Rightarrow> u64 \<Rightarrow> u8 list" where
  "printptr_loop dg 0 x = []"
| "printptr_loop dg (Suc i) x = dg ! unat (drop_bit 60 x) # printptr_loop dg i (push_bit 4 x)"

definition printptr :: "u8 list \<Rightarrow> u64 \<Rightarrow> u8 list" where
  "printptr dg x = str ''0x'' @ printptr_loop dg 16 x"

text \<open>\<open>va_arg\<close> as \<open>int\<close> (sign-extended), as \<open>uint32\<close>, as \<open>uint64\<close>, as \<open>char *\<close>.\<close>

definition as_int :: "u64 \<Rightarrow> u64" where
  "as_int w = scast (ucast w :: u32)"

definition as_uint32 :: "u64 \<Rightarrow> u64" where
  "as_uint32 w = ucast (ucast w :: u32)"

fun pop_word :: "arg list \<Rightarrow> (u64 \<times> arg list) option" where
  "pop_word (Word_arg w # as) = Some (w, as)"
| "pop_word _ = None"

fun pop_str :: "arg list \<Rightarrow> (u8 list option \<times> arg list) option" where
  "pop_str (Str_arg s # as) = Some (s, as)"
| "pop_str _ = None"

definition at :: "u8 list \<Rightarrow> nat \<Rightarrow> u8" where
  "at s i = (if i < length s then s ! i else 0)"

text \<open>What one conversion prints, how many format bytes after the first it consumes, the arguments left.\<close>

definition num :: "u8 list \<Rightarrow> (u64 \<Rightarrow> u64) \<Rightarrow> nat \<Rightarrow> bool \<Rightarrow> nat \<Rightarrow> arg list \<Rightarrow> (u8 list \<times> nat \<times> arg list) option" where
  "num dg cast base sign skip as =
     (case pop_word as of None \<Rightarrow> None | Some (w, as') \<Rightarrow> Some (printint dg (cast w) base sign, skip, as'))"

definition conv :: "u8 list \<Rightarrow> u8 \<Rightarrow> u8 \<Rightarrow> u8 \<Rightarrow> arg list \<Rightarrow> (u8 list \<times> nat \<times> arg list) option" where
  "conv dg c0 c1 c2 as =
     (if c0 = chr CHR ''d'' then num dg as_int 10 True 0 as
      else if c0 = chr CHR ''l'' \<and> c1 = chr CHR ''d'' then num dg id 10 True 1 as
      else if c0 = chr CHR ''l'' \<and> c1 = chr CHR ''l'' \<and> c2 = chr CHR ''d'' then num dg id 10 True 2 as
      else if c0 = chr CHR ''u'' then num dg as_uint32 10 False 0 as
      else if c0 = chr CHR ''l'' \<and> c1 = chr CHR ''u'' then num dg id 10 False 1 as
      else if c0 = chr CHR ''l'' \<and> c1 = chr CHR ''l'' \<and> c2 = chr CHR ''u'' then num dg id 10 False 2 as
      else if c0 = chr CHR ''x'' then num dg as_uint32 16 False 0 as
      else if c0 = chr CHR ''l'' \<and> c1 = chr CHR ''x'' then num dg id 16 False 1 as
      else if c0 = chr CHR ''l'' \<and> c1 = chr CHR ''l'' \<and> c2 = chr CHR ''x'' then num dg id 16 False 2 as
      else if c0 = chr CHR ''p'' then
        (case pop_word as of None \<Rightarrow> None | Some (w, as') \<Rightarrow> Some (printptr dg w, 0, as'))
      else if c0 = chr CHR ''c'' then
        (case pop_word as of None \<Rightarrow> None | Some (w, as') \<Rightarrow> Some ([ucast w], 0, as'))
      else if c0 = chr CHR ''s'' then
        (case pop_str as of
           None \<Rightarrow> None
         | Some (s, as') \<Rightarrow> Some (case s of None \<Rightarrow> str ''(null)'' | Some t \<Rightarrow> t, 0, as'))
      else if c0 = chr CHR ''%'' then Some ([chr CHR ''%''], 0, as)
      else Some ([chr CHR ''%'', c0], 0, as))"

section \<open>The two format loops\<close>

function printf :: "u8 list \<Rightarrow> u8 list \<Rightarrow> arg list \<Rightarrow> u8 list option" where
  "printf dg fmt as =
     (case fmt of
        [] \<Rightarrow> Some []
      | cx # rest \<Rightarrow>
          if cx \<noteq> chr CHR ''%'' then map_option (\<lambda>out. cx # out) (printf dg rest as)
          else if rest = [] then Some []
          else (case conv dg (at rest 0) (at rest 1) (at rest 2) as of
                  None \<Rightarrow> None
                | Some (bs, k, as') \<Rightarrow> map_option (\<lambda>out. bs @ out) (printf dg (drop (Suc k) rest) as')))"
  by pat_completeness auto
termination
  by (relation "measure (\<lambda>(dg, fmt, as). length fmt)") auto

declare printf.simps [simp del]

text \<open>User space keeps the pending \<open>%\<close> in a state variable.\<close>

function vprintf :: "u8 list \<Rightarrow> bool \<Rightarrow> u8 list \<Rightarrow> arg list \<Rightarrow> u8 list option" where
  "vprintf dg state fmt as =
     (case fmt of
        [] \<Rightarrow> Some []
      | c0 # rest \<Rightarrow>
          if \<not> state then
            (if c0 = chr CHR ''%'' then vprintf dg True rest as
             else map_option (\<lambda>out. c0 # out) (vprintf dg False rest as))
          else (case conv dg c0 (at fmt 1) (at fmt 2) as of
                  None \<Rightarrow> None
                | Some (bs, k, as') \<Rightarrow> map_option (\<lambda>out. bs @ out) (vprintf dg False (drop k rest) as')))"
  by pat_completeness auto
termination
  by (relation "measure (\<lambda>(dg, state, fmt, as). length fmt)") auto

declare vprintf.simps [simp del]

section \<open>Correctness of the digits\<close>

fun value_rev :: "nat \<Rightarrow> nat list \<Rightarrow> nat" where
  "value_rev base [] = 0"
| "value_rev base (d # ds) = d + base * value_rev base ds"

lemma digit_loop_value: "1 < base \<Longrightarrow> value_rev base (digit_loop base x) = x"
proof (induction base x rule: digit_loop.induct)
  case (1 base x)
  then show ?case by (subst digit_loop.simps) (auto simp: minus_mod_eq_mult_div [symmetric] div_eq_0_iff)
qed

lemma digit_loop_bound: "1 < base \<Longrightarrow> d \<in> set (digit_loop base x) \<Longrightarrow> d < base"
proof (induction base x rule: digit_loop.induct)
  case (1 base x)
  then show ?case by (subst (asm) (2) digit_loop.simps) (auto split: if_splits)
qed

lemma digit_loop_last: "1 < base \<Longrightarrow> x \<noteq> 0 \<Longrightarrow> last (digit_loop base x) \<noteq> 0"
proof (induction base x rule: digit_loop.induct)
  case (1 base x)
  then show ?case by (subst digit_loop.simps) (auto simp: digit_loop.simps [of base "x div base"] div_eq_0_iff split: if_splits)
qed

lemma digit_loop_length: "1 < base \<Longrightarrow> x < base ^ n \<Longrightarrow> 0 < n \<Longrightarrow> length (digit_loop base x) \<le> n"
proof (induction base x arbitrary: n rule: digit_loop.induct)
  case (1 base x)
  show ?case
  proof (cases "x div base = 0")
    case True
    then show ?thesis using "1.prems" by (subst digit_loop.simps) simp
  next
    case False
    obtain m where n: "n = Suc m" using "1.prems"(3) gr0_implies_Suc by blast
    have m: "0 < m" using False "1.prems"(1,2) n by (cases m) (auto simp: div_eq_0_iff)
    have "x div base < base ^ m" using "1.prems" n m by (simp add: less_mult_imp_div_less mult.commute)
    then have "length (digit_loop base (x div base)) \<le> m" using "1.IH" False "1.prems"(1) m by simp
    then show ?thesis using False "1.prems"(1) n by (subst digit_loop.simps) simp
  qed
qed

lemma length_map_digits: "length (map f (digit_loop base x)) = length (digit_loop base x)"
  by simp

lemma printint_magnitude:
  fixes xx :: u64
  assumes "sint xx < 0"
  shows "unat (- xx) = nat (- sint xx)" "unat (- xx) < 10 ^ 19"
proof -
  have lo: "- (2 ^ 63) \<le> sint xx" using sint_greater_eq [of xx] by simp
  have w: "- xx = word_of_int (- sint xx)" by simp
  have "uint (- xx) = (- sint xx) mod 2 ^ 64"
    unfolding w unsigned_of_int take_bit_eq_mod by simp
  also have "\<dots> = - sint xx" using assms lo by (intro mod_pos_pos_trivial) auto
  finally have u: "uint (- xx) = - sint xx" .
  then show "unat (- xx) = nat (- sint xx)" by (simp flip: nat_uint_eq)
  then show "unat (- xx) < 10 ^ 19" using lo by simp
qed

text \<open>How many bytes the buffer of \<open>printint\<close> needs.\<close>

lemma printint_length:
  assumes "base = 10 \<or> base = 16"
  shows "length (printint dg xx base sign) \<le> 20"
proof -
  have lt: "unat xx < 2 ^ 64" by simp
  show ?thesis
  proof (cases "sign \<and> sint xx < 0")
    case True
    then have "unat (- xx) < base ^ 19"
      using printint_magnitude(2) [of xx] power_mono [of 10 base 19] assms by auto
    then have "length (digit_loop base (unat (- xx))) \<le> 19" using assms by (intro digit_loop_length) auto
    then show ?thesis using True by (simp add: printint_def)
  next
    case False
    have "(2::nat) ^ 64 \<le> base ^ 20" using assms by auto
    with lt have "unat xx < base ^ 20" by (rule less_le_trans)
    then have "length (digit_loop base (unat xx)) \<le> 20" using assms by (intro digit_loop_length) auto
    then show ?thesis using False by (auto simp: printint_def)
  qed
qed

section \<open>The two loops print the same\<close>

lemma vprintf_eq_printf:
  "vprintf dg state fmt as =
     (if \<not> state then printf dg fmt as
      else if fmt = [] then Some []
      else (case conv dg (at fmt 0) (at fmt 1) (at fmt 2) as of
              None \<Rightarrow> None
            | Some (bs, k, as') \<Rightarrow> map_option (\<lambda>out. bs @ out) (printf dg (drop (Suc k) fmt) as')))"
proof (induction dg state fmt as rule: vprintf.induct)
  case (1 dg state fmt as)
  show ?case
  proof (cases fmt)
    case Nil
    then show ?thesis by (simp add: vprintf.simps [of dg state] printf.simps [of dg])
  next
    case (Cons c0 rest)
    show ?thesis
    proof (cases state)
      case True
      have "vprintf dg False (drop k rest) as' = printf dg (drop k rest) as'"
        if "conv dg c0 (at fmt 1) (at fmt 2) as = Some (bs, k, as')" for bs k as'
        using "1.IH"(3) [OF Cons _ that refl refl] True by simp
      then show ?thesis
        using True Cons by (subst vprintf.simps) (auto simp: at_def split: option.splits)
    next
      case False
      then show ?thesis
        using "1.IH"(1,2) [OF Cons] Cons
        by (subst vprintf.simps, subst printf.simps) simp
    qed
  qed
qed

section \<open>Properties\<close>

text \<open>
  (C13) The 20-byte buffer of \<open>printint\<close>, in the kernel and in user space, is large enough for every
  64-bit argument in base 10 (signed or unsigned) and base 16.
\<close>

theorem printint_buffer_suffices:
  assumes "base = 10 \<or> base = 16"
  shows "length (printint dg xx base sign) \<le> 20"
  using printint_length [OF assms] .

theorem printint_buffer_suffices_witness:
  "length (printint kdigits (word_of_int (- 9223372036854775808)) 10 True) \<le> 20"
  using printint_buffer_suffices [of 10] by simp


end
