(* ===== verification/Ulib.thy ===== *)
theory Ulib
  imports Kstring Printf
begin

text \<open>
  user/ulib.c: the C library of user programs. The routines that run to a NUL byte are partial
  functions; memory is a function from addresses to bytes as in the kernel's string routines.
  Standard input is the list of bytes that single-byte reads will deliver.
\<close>

section \<open>Definitions\<close>

partial_function (option) strcpy_loop :: "mem \<Rightarrow> nat \<Rightarrow> nat \<Rightarrow> mem option" where
  "strcpy_loop m s t = (if m t \<noteq> 0 then strcpy_loop (m(s := m t)) (Suc s) (Suc t) else Some (m(s := m t)))"

definition strcpy :: "mem \<Rightarrow> nat \<Rightarrow> nat \<Rightarrow> mem option" where
  "strcpy m s t = strcpy_loop m s t"

partial_function (option) strcmp_loop :: "(nat \<Rightarrow> u8) \<Rightarrow> (nat \<Rightarrow> u8) \<Rightarrow> nat \<Rightarrow> int option" where
  "strcmp_loop p q i =
     (if p i \<noteq> 0 \<and> p i = q i then strcmp_loop p q (Suc i)
      else Some (int (unat (p i)) - int (unat (q i))))"

definition strcmp :: "(nat \<Rightarrow> u8) \<Rightarrow> (nat \<Rightarrow> u8) \<Rightarrow> int option" where
  "strcmp p q = strcmp_loop p q 0"

text \<open>The index \<open>strchr\<close> points to, or \<open>None\<close> in the second position for a null result.\<close>

partial_function (option) strchr_loop :: "(nat \<Rightarrow> u8) \<Rightarrow> u8 \<Rightarrow> nat \<Rightarrow> nat option option" where
  "strchr_loop s c i =
     (if s i = 0 then Some None else if s i = c then Some (Some i) else strchr_loop s c (Suc i))"

definition strchr :: "(nat \<Rightarrow> u8) \<Rightarrow> u8 \<Rightarrow> nat option option" where
  "strchr s c = strchr_loop s c 0"

fun gets_loop :: "nat \<Rightarrow> u8 list \<Rightarrow> u8 list \<times> u8 list" where
  "gets_loop room [] = ([], [])"
| "gets_loop room (c # inp) =
     (if room = 0 then ([], c # inp)
      else if c = 10 \<or> c = 13 then ([c], inp)
      else case gets_loop (room - 1) inp of (bs, rest) \<Rightarrow> (c # bs, rest))"

text \<open>\<open>gets\<close> returns the bytes it stores, the NUL included, and the input left.\<close>

definition gets :: "int \<Rightarrow> u8 list \<Rightarrow> u8 list \<times> u8 list" where
  "gets mx inp = (case gets_loop (nat (mx - 1)) inp of (bs, rest) \<Rightarrow> (bs @ [0], rest))"

fun atoi_loop :: "u32 \<Rightarrow> u8 list \<Rightarrow> u32" where
  "atoi_loop n [] = n"
| "atoi_loop n (c # cs) =
     (if chr CHR ''0'' \<le> c \<and> c \<le> chr CHR ''9'' then atoi_loop (n * 10 + ucast c - ucast (chr CHR ''0'')) cs else n)"

definition atoi :: "u8 list \<Rightarrow> u32" where
  "atoi s = atoi_loop 0 s"

definition ulib_memmove :: "mem \<Rightarrow> nat \<Rightarrow> nat \<Rightarrow> int \<Rightarrow> mem" where
  "ulib_memmove m dst src n =
     (if src > dst then copy_forward (nat n) m dst src else copy_backward (nat n) m dst src)"

definition ulib_memcpy :: "mem \<Rightarrow> nat \<Rightarrow> nat \<Rightarrow> int \<Rightarrow> mem" where
  "ulib_memcpy m dst src n = ulib_memmove m dst src n"

section \<open>What the routines compute\<close>

lemma copy_backward_any:
  "s \<le> d \<Longrightarrow> copy_backward n m d s = (\<lambda>x. if d \<le> x \<and> x < d + n then m (s + (x - d)) else m x)"
proof (cases "s = d")
  case True
  have "copy_backward n m d d = m" by (induction n) auto
  then show ?thesis using True by (auto simp: fun_eq_iff)
qed (auto intro: copy_backward_eq)

lemma ulib_memmove_eq:
  "ulib_memmove m d s n = (\<lambda>x. if d \<le> x \<and> x < d + nat n then m (s + (x - d)) else m x)"
  by (auto simp: ulib_memmove_def copy_forward_eq copy_backward_any)

lemma strcmp_loop_eq:
  assumes "\<And>j. i \<le> j \<Longrightarrow> j < k \<Longrightarrow> p j \<noteq> 0 \<and> p j = q j" "i \<le> k" "p k = 0 \<or> p k \<noteq> q k"
  shows "strcmp_loop p q i = Some (int (unat (p k)) - int (unat (q k)))"
  using assms
proof (induction "k - i" arbitrary: i)
  case 0
  then show ?case by (subst strcmp_loop.simps) auto
next
  case (Suc d)
  have "strcmp_loop p q (Suc i) = Some (int (unat (p k)) - int (unat (q k)))"
  proof (rule Suc.hyps(1))
    show "p j \<noteq> 0 \<and> p j = q j" if "Suc i \<le> j" "j < k" for j using Suc.prems(1) that Suc_leD by blast
  qed (use Suc.hyps(2) Suc.prems(3) in auto)
  moreover have "p i \<noteq> 0 \<and> p i = q i" by (rule Suc.prems(1)) (use Suc.hyps(2) in auto)
  ultimately show ?case by (subst strcmp_loop.simps) auto
qed

lemma strcmp_result:
  assumes "p n = 0"
  shows "\<exists>k \<le> n. strcmp p q = Some (int (unat (p k)) - int (unat (q k))) \<and> (\<forall>j < k. p j \<noteq> 0 \<and> p j = q j)
    \<and> (p k = 0 \<or> p k \<noteq> q k)"
proof -
  define k where "k = (LEAST k. p k = 0 \<or> p k \<noteq> q k)"
  have k: "p k = 0 \<or> p k \<noteq> q k" unfolding k_def by (rule LeastI [of _ n]) (simp add: assms)
  have "k \<le> n" unfolding k_def by (rule Least_le) (simp add: assms)
  moreover have below: "\<forall>j < k. p j \<noteq> 0 \<and> p j = q j" unfolding k_def using not_less_Least by blast
  ultimately show ?thesis using strcmp_loop_eq [of 0 k p q] k unfolding strcmp_def by blast
qed

lemma gets_loop_bound: "length (fst (gets_loop room inp)) \<le> room \<and> fst (gets_loop room inp) @ snd (gets_loop room inp) = inp"
  by (induction room inp rule: gets_loop.induct) (auto split: prod.splits)

lemma gets_loop_line: "newl \<in> {10, 13} \<Longrightarrow> newl \<notin> set (butlast (fst (gets_loop room inp)))"
  by (induction room inp rule: gets_loop.induct) (auto split: prod.splits)

text \<open>Reading a number back: \<open>atoi\<close> on a list of decimal digits.\<close>

fun value_fwd :: "nat \<Rightarrow> nat list \<Rightarrow> nat" where
  "value_fwd acc [] = acc"
| "value_fwd acc (d # ds) = value_fwd (acc * 10 + d) ds"

lemma value_fwd_snoc: "value_fwd acc (ds @ [d]) = value_fwd acc ds * 10 + d"
  by (induction ds arbitrary: acc) auto

lemma value_fwd_rev: "value_fwd 0 (rev ds) = value_rev 10 ds"
  by (induction ds) (auto simp: value_fwd_snoc)

lemma udigit: "d < 10 \<Longrightarrow> udigits ! d = of_nat (48 + d)"
proof -
  assume "d < 10"
  then have "d = 0 \<or> d = 1 \<or> d = 2 \<or> d = 3 \<or> d = 4 \<or> d = 5 \<or> d = 6 \<or> d = 7 \<or> d = 8 \<or> d = 9" by auto
  then show ?thesis by (elim disjE) (simp_all add: udigits_def str_def chr_def)
qed

lemma atoi_loop_digits:
  "\<forall>d \<in> set ds. d < 10 \<Longrightarrow> atoi_loop (of_nat acc) (map (\<lambda>d. udigits ! d) ds) = of_nat (value_fwd acc ds)"
proof (induction ds arbitrary: acc)
  case (Cons d ds)
  then have d: "d < 10" by simp
  have un: "unat (of_nat (48 + d) :: u8) = 48 + d" using d by (simp add: unat_of_nat del: of_nat_add)
  have rng: "chr CHR ''0'' \<le> (of_nat (48 + d) :: u8)" "(of_nat (48 + d) :: u8) \<le> chr CHR ''9''"
    using d un by (simp_all add: word_le_nat_alt chr_def del: of_nat_add)
  have "(ucast (of_nat (48 + d) :: u8) :: u32) = of_nat (unat (of_nat (48 + d) :: u8))" by simp
  then have "(ucast (of_nat (48 + d) :: u8) :: u32) = of_nat (48 + d)" unfolding un .
  then have "of_nat acc * 10 + ucast (of_nat (48 + d) :: u8) - ucast (chr CHR ''0'') = (of_nat (acc * 10 + d) :: u32)"
    by (simp add: chr_def)
  with Cons rng show ?case by (simp add: udigit [OF d] del: of_nat_add of_nat_mult)
qed simp

section \<open>Properties\<close>

text \<open>
  (C15) The kernel's \<open>memmove\<close> and the C library's \<open>memmove\<close>, which choose the copy direction by
  different tests, both copy the source range as it was before the call, whatever the overlap.
\<close>

theorem memmove_copies_overlapping:
  "memmove m d s n x = (if d \<le> x \<and> x < d + n then m (s + (x - d)) else m x)
   \<and> ulib_memmove m d s (int n) x = memmove m d s n x"
  by (simp add: memmove_eq ulib_memmove_eq)

text \<open>
  \<open>strcmp\<close> on a terminated first string returns, and returns 0 exactly when the two strings
  agree up to and including their first NUL byte.
\<close>

lemma strcmp_decides_equality:
  assumes "p n = 0"
  shows "\<exists>r. strcmp p q = Some r \<and> (r = 0 \<longleftrightarrow> (\<exists>k \<le> n. p k = 0 \<and> q k = 0 \<and> (\<forall>j < k. p j \<noteq> 0 \<and> p j = q j)))"
proof -
  obtain k where k: "k \<le> n" "strcmp p q = Some (int (unat (p k)) - int (unat (q k)))"
    "\<forall>j < k. p j \<noteq> 0 \<and> p j = q j" "p k = 0 \<or> p k \<noteq> q k" using strcmp_result [of p n q] assms by blast
  have "int (unat (p k)) - int (unat (q k)) = 0 \<longleftrightarrow> p k = q k" by (rule byte_diff_0)
  also have "\<dots> \<longleftrightarrow> (\<exists>k \<le> n. p k = 0 \<and> q k = 0 \<and> (\<forall>j < k. p j \<noteq> 0 \<and> p j = q j))"
  proof
    assume "p k = q k"
    then show "\<exists>k \<le> n. p k = 0 \<and> q k = 0 \<and> (\<forall>j < k. p j \<noteq> 0 \<and> p j = q j)" using k by auto
  next
    assume "\<exists>k \<le> n. p k = 0 \<and> q k = 0 \<and> (\<forall>j < k. p j \<noteq> 0 \<and> p j = q j)"
    then obtain l where l: "p l = 0" "q l = 0" "\<forall>j < l. p j \<noteq> 0 \<and> p j = q j" by blast
    have "\<not> k < l" using l(3) k(4) by auto
    moreover have "\<not> l < k" using k(3) l(1) by auto
    ultimately show "p k = q k" using l by (metis linorder_neqE_nat)
  qed
  finally show ?thesis using k(2) by blast
qed

text \<open>
  Printing an unsigned 32-bit number in decimal and reading it back with \<open>atoi\<close> gives the
  number; the printed form starts with a zero only for the number zero.
\<close>

lemma atoi_printint_roundtrip:
  assumes "x < 2 ^ 32"
  shows "atoi (printint udigits (of_nat x) 10 False) = of_nat x
    \<and> (x \<noteq> 0 \<longrightarrow> hd (printint udigits (of_nat x) 10 False) \<noteq> chr CHR ''0'')"
proof -
  have un: "unat (of_nat x :: u64) = x" using assms by (simp add: unat_of_nat)
  let ?ds = "digit_loop 10 x"
  have pi: "printint udigits (of_nat x) 10 False = map (\<lambda>d. udigits ! d) (rev ?ds)"
    by (simp add: printint_def un rev_map)
  have small: "\<forall>d \<in> set (rev ?ds). d < 10" using digit_loop_bound [of 10] by auto
  have "atoi (printint udigits (of_nat x) 10 False) = of_nat (value_fwd 0 (rev ?ds))"
    unfolding pi atoi_def using atoi_loop_digits [OF small, of 0] by simp
  also have "value_fwd 0 (rev ?ds) = x" by (simp add: value_fwd_rev digit_loop_value)
  finally have "atoi (printint udigits (of_nat x) 10 False) = of_nat x" .
  moreover have "hd (printint udigits (of_nat x) 10 False) \<noteq> chr CHR ''0''" if "x \<noteq> 0"
  proof -
    have ne: "?ds \<noteq> []" by (subst digit_loop.simps) simp
    have l: "last ?ds \<noteq> 0" "last ?ds < 10" using digit_loop_last [of 10 x] digit_loop_bound [of 10 "last ?ds" x] that ne by auto
    have "hd (map (\<lambda>d. udigits ! d) (rev ?ds)) = of_nat (48 + last ?ds)"
      using ne l(2) by (simp add: hd_map hd_rev udigit del: of_nat_add)
    moreover have "unat (of_nat (48 + last ?ds) :: u8) \<noteq> 48" using l by (simp add: unat_of_nat del: of_nat_add)
    moreover have "unat (chr CHR ''0'') = 48" by (simp add: chr_def)
    ultimately show ?thesis unfolding pi by metis
  qed
  ultimately show ?thesis by blast
qed

text \<open>
  \<open>gets\<close> into a buffer of \<open>mx\<close> bytes stores at most \<open>mx\<close> bytes, the last of them a NUL, takes
  exactly the bytes it stored from the input, and stores a line ending only as the last character.
\<close>

lemma gets_stays_in_buffer:
  assumes "0 < mx" "gets mx inp = (bs, rest)"
  shows "int (length bs) \<le> mx \<and> last bs = 0 \<and> butlast bs @ rest = inp
    \<and> 10 \<notin> set (butlast (butlast bs)) \<and> 13 \<notin> set (butlast (butlast bs))"
proof -
  obtain cs where c: "gets_loop (nat (mx - 1)) inp = (cs, rest)" "bs = cs @ [0]"
    using assms(2) by (auto simp: gets_def split: prod.splits)
  then show ?thesis
    using gets_loop_bound [of "nat (mx - 1)" inp] gets_loop_line [of 10 "nat (mx - 1)" inp]
      gets_loop_line [of 13 "nat (mx - 1)" inp] assms(1) by auto
qed

end
