(* ===== verification/Textutils.thy ===== *)
theory Textutils
  imports Printf
begin

text \<open>
  user/grep.c and user/wc.c. A C string is the list of its bytes before the NUL, a pointer into
  it the suffix it points to. Reading a file descriptor is modelled by the bytes still to come and
  an oracle for how many of them each \<open>read\<close> returns (at least one while there are any).
\<close>

abbreviation star :: u8 where "star \<equiv> 42"
abbreviation dollar :: u8 where "dollar \<equiv> 36"
abbreviation dot :: u8 where "dot \<equiv> 46"
abbreviation caret :: u8 where "caret \<equiv> 94"
abbreviation nl :: u8 where "nl \<equiv> 10"

section \<open>The matcher\<close>

function matchhere :: "u8 list \<Rightarrow> u8 list \<Rightarrow> bool" and matchstar :: "u8 \<Rightarrow> u8 list \<Rightarrow> u8 list \<Rightarrow> bool" where
  "matchhere re text =
     (if re = [] then True
      else if at re 1 = star then matchstar (at re 0) (drop 2 re) text
      else if at re 0 = dollar \<and> at re 1 = 0 then text = []
      else if text \<noteq> [] \<and> (at re 0 = dot \<or> at re 0 = hd text) then matchhere (tl re) (tl text)
      else False)"
| "matchstar c re text =
     (if matchhere re text then True
      else if text \<noteq> [] \<and> (hd text = c \<or> c = dot) then matchstar c re (tl text)
      else False)"
  by pat_completeness auto
termination
proof (relation "measure (\<lambda>x. case x of Inl (re, text) \<Rightarrow> length re + length text
                                      | Inr (c, re, text) \<Rightarrow> Suc (length re + length text))", goal_cases)
  case (2 re t)
  then have "1 < length re" by (simp add: at_def split: if_splits)
  then show ?case by simp
qed (auto simp: at_def neq_Nil_conv)

declare matchhere.simps [simp del] matchstar.simps [simp del]

fun match_loop :: "u8 list \<Rightarrow> u8 list \<Rightarrow> bool" where
  "match_loop re [] = matchhere re []"
| "match_loop re (x # text) = (if matchhere re (x # text) then True else match_loop re text)"

definition match :: "u8 list \<Rightarrow> u8 list \<Rightarrow> bool" where
  "match re text = (if at re 0 = caret then matchhere (tl re) text else match_loop re text)"

section \<open>The file loop of grep\<close>

text \<open>
  The inner loop over the lines in the buffer: what is written out, and the incomplete rest.
  \<open>strchr\<close> stops at a NUL byte, so a NUL before the next newline ends the loop.
\<close>

function grep_lines :: "u8 list \<Rightarrow> u8 list \<Rightarrow> u8 list \<times> u8 list" where
  "grep_lines re p =
     (let line = takeWhile (\<lambda>c. c \<noteq> nl \<and> c \<noteq> 0) p; q = drop (length line) p in
      if q \<noteq> [] \<and> hd q = nl then
        (case grep_lines re (tl q) of (out, rest) \<Rightarrow>
           ((if match re line then line @ [nl] else []) @ out, rest))
      else ([], p))"
  by pat_completeness auto
termination
  by (relation "measure (\<lambda>(re, p). length p)") (auto simp: neq_Nil_conv)

declare grep_lines.simps [simp del]

function grep :: "u8 list \<Rightarrow> (nat \<Rightarrow> nat) \<Rightarrow> nat \<Rightarrow> u8 list \<Rightarrow> u8 list \<Rightarrow> u8 list" where
  "grep re rd i buf inp =
     (let n = min (1024 - length buf - 1) (min (Suc (rd i)) (length inp)) in
      if n = 0 then []
      else case grep_lines re (buf @ take n inp) of (out, rest) \<Rightarrow> out @ grep re rd (Suc i) rest (drop n inp))"
  by pat_completeness auto
termination
  by (relation "measure (\<lambda>(re, rd, i, buf, inp). length inp)") auto

declare grep.simps [simp del]

section \<open>Counting words\<close>

record wc_st =
  wc_l :: nat
  wc_w :: nat
  wc_c :: nat
  inword :: bool

definition wc_space :: "u8 \<Rightarrow> bool" where
  "wc_space b \<longleftrightarrow> b \<in> set (str '' \<newline>'') \<or> b = 13 \<or> b = 9 \<or> b = 11"

definition wc_byte :: "u8 \<Rightarrow> wc_st \<Rightarrow> wc_st" where
  "wc_byte b s =
     (let s1 = s\<lparr>wc_c := wc_c s + 1\<rparr>;
          s2 = (if b = nl then s1\<lparr>wc_l := wc_l s1 + 1\<rparr> else s1)
      in if wc_space b then s2\<lparr>inword := False\<rparr>
         else if \<not> inword s2 then s2\<lparr>wc_w := wc_w s2 + 1, inword := True\<rparr> else s2)"

function wc :: "(nat \<Rightarrow> nat) \<Rightarrow> nat \<Rightarrow> u8 list \<Rightarrow> wc_st \<Rightarrow> wc_st" where
  "wc rd i inp s =
     (let n = min 512 (min (Suc (rd i)) (length inp)) in
      if n = 0 then s else wc rd (Suc i) (drop n inp) (fold wc_byte (take n inp) s))"
  by pat_completeness auto
termination
  by (relation "measure (\<lambda>(rd, i, inp, s). length inp)") auto

declare wc.simps [simp del]

section \<open>What a pattern means\<close>

datatype atom = One u8 | Many u8

fun atoms :: "u8 list \<Rightarrow> atom list \<times> bool" where
  "atoms [] = ([], False)"
| "atoms [c] = (if c = dollar then ([], True) else ([One c], False))"
| "atoms (c # d # r) =
     (if d = star then (case atoms r of (as, e) \<Rightarrow> (Many c # as, e))
      else case atoms (d # r) of (as, e) \<Rightarrow> (One c # as, e))"

definition fits :: "u8 \<Rightarrow> u8 \<Rightarrow> bool" where
  "fits c x \<longleftrightarrow> c = dot \<or> c = x"

fun lang :: "atom list \<Rightarrow> u8 list \<Rightarrow> bool" where
  "lang [] w \<longleftrightarrow> w = []"
| "lang (One c # as) w \<longleftrightarrow> (\<exists>x w'. w = x # w' \<and> fits c x \<and> lang as w')"
| "lang (Many c # as) w \<longleftrightarrow> (\<exists>u v. w = u @ v \<and> (\<forall>x \<in> set u. fits c x) \<and> lang as v)"

definition prefix_match :: "u8 list \<Rightarrow> u8 list \<Rightarrow> bool" where
  "prefix_match re t \<longleftrightarrow> (\<exists>w s. t = w @ s \<and> lang (fst (atoms re)) w \<and> (snd (atoms re) \<longrightarrow> s = []))"

lemma prefix_match_Nil [simp]: "prefix_match [] t"
  by (auto simp: prefix_match_def)

lemma prefix_match_Many:
  "prefix_match (c # star # r) t \<longleftrightarrow> (\<exists>u v. t = u @ v \<and> (\<forall>x \<in> set u. fits c x) \<and> prefix_match r v)"
  (is "?l \<longleftrightarrow> ?r")
proof -
  obtain as e where at: "atoms r = (as, e)" by fastforce
  show ?thesis
  proof
    assume ?l
    then obtain u v s where "t = (u @ v) @ s" "\<forall>x \<in> set u. fits c x" "lang as v" "e \<longrightarrow> s = []"
      using at by (auto simp: prefix_match_def intro: that [of _ _ "[]"] that)
    then show ?r using at by (intro exI [of _ u] exI [of _ "v @ s"]) (auto simp: prefix_match_def)
  next
    assume ?r
    then obtain u w s where "t = u @ w @ s" "\<forall>x \<in> set u. fits c x" "lang as w" "e \<longrightarrow> s = []"
      using at by (auto simp: prefix_match_def)
    then show ?l using at unfolding prefix_match_def
      by (intro exI [of _ "u @ w"] exI [of _ s]) auto
  qed
qed

lemma ex_Cons_append:
  "(\<exists>w s. t = w @ s \<and> (\<exists>x w'. w = x # w' \<and> P x \<and> L w') \<and> Q s) \<longleftrightarrow>
   (\<exists>x t'. t = x # t' \<and> P x \<and> (\<exists>w s. t' = w @ s \<and> L w \<and> Q s))"
proof
  assume "\<exists>w s. t = w @ s \<and> (\<exists>x w'. w = x # w' \<and> P x \<and> L w') \<and> Q s"
  then show "\<exists>x t'. t = x # t' \<and> P x \<and> (\<exists>w s. t' = w @ s \<and> L w \<and> Q s)" by fastforce
next
  assume "\<exists>x t'. t = x # t' \<and> P x \<and> (\<exists>w s. t' = w @ s \<and> L w \<and> Q s)"
  then obtain x w s where "t = (x # w) @ s" "P x" "L w" "Q s" by auto
  then show "\<exists>w s. t = w @ s \<and> (\<exists>x w'. w = x # w' \<and> P x \<and> L w') \<and> Q s" by blast
qed

lemma prefix_match_One:
  "c \<noteq> dollar \<or> r \<noteq> [] \<Longrightarrow> at r 0 \<noteq> star \<Longrightarrow>
   prefix_match (c # r) t \<longleftrightarrow> (\<exists>x t'. t = x # t' \<and> fits c x \<and> prefix_match r t')"
proof -
  assume "c \<noteq> dollar \<or> r \<noteq> []" "at r 0 \<noteq> star"
  then have "atoms (c # r) = (One c # fst (atoms r), snd (atoms r))"
    by (cases r) (auto simp: at_def split: prod.splits)
  then show ?thesis unfolding prefix_match_def by (simp only: fst_conv snd_conv lang.simps) (rule ex_Cons_append)
qed

lemma matchstar_iff:
  assumes "\<And>t. matchhere re t \<longleftrightarrow> prefix_match re t"
  shows "matchstar c re t \<longleftrightarrow> (\<exists>u v. t = u @ v \<and> (\<forall>x \<in> set u. fits c x) \<and> prefix_match re v)"
proof (induction t)
  case Nil
  then show ?case by (subst matchstar.simps) (simp add: assms)
next
  case (Cons x t)
  show ?case
  proof (cases "prefix_match re (x # t)")
    case True
    then show ?thesis by (subst matchstar.simps) (auto simp: assms intro: exI [of _ "[]"])
  next
    case False
    have "(\<exists>u v. x # t = u @ v \<and> (\<forall>y \<in> set u. fits c y) \<and> prefix_match re v) \<longleftrightarrow>
      fits c x \<and> (\<exists>u v. t = u @ v \<and> (\<forall>y \<in> set u. fits c y) \<and> prefix_match re v)" (is "?l \<longleftrightarrow> ?r")
    proof
      assume ?l
      then obtain u v where uv: "x # t = u @ v" "\<forall>y \<in> set u. fits c y" "prefix_match re v" by blast
      then show ?r using False by (cases u) auto
    next
      assume ?r
      then obtain u v where "x # t = (x # u) @ v" "\<forall>y \<in> set (x # u). fits c y" "prefix_match re v" by auto
      then show ?l by blast
    qed
    then show ?thesis using False Cons by (subst matchstar.simps) (auto simp: assms fits_def)
  qed
qed

lemma matchhere_iff: "0 \<notin> set re \<Longrightarrow> matchhere re t \<longleftrightarrow> prefix_match re t"
proof (induction "length re" arbitrary: re t rule: less_induct)
  case less
  show ?case
  proof (cases re)
    case Nil
    then show ?thesis by (simp add: matchhere.simps)
  next
    case (Cons c r)
    show ?thesis
    proof (cases r)
      case Nil
      show ?thesis
      proof (cases "c = dollar")
        case True
        then show ?thesis using Cons Nil by (subst matchhere.simps) (auto simp: at_def prefix_match_def)
      next
        case False
        have "matchhere [] (tl t)" by (simp add: matchhere.simps)
        then show ?thesis
          using Cons Nil False prefix_match_One [of c "[]" t] by (subst matchhere.simps) (auto simp: at_def fits_def neq_Nil_conv)
      qed
    next
      case (Cons d r')
      note re = \<open>re = c # r\<close> and r = Cons
      show ?thesis
      proof (cases "d = star")
        case True
        have "matchhere r' t \<longleftrightarrow> prefix_match r' t" for t using less re r by auto
        from matchstar_iff [OF this, of c t] show ?thesis
          using re r True by (subst matchhere.simps) (simp add: at_def prefix_match_Many numeral_2_eq_2)
      next
        case False
        have d0: "d \<noteq> 0" using less.prems re r by auto
        have ih: "matchhere r t' \<longleftrightarrow> prefix_match r t'" for t' using less.hyps [of r] less.prems re by auto
        have "matchhere re t \<longleftrightarrow> t \<noteq> [] \<and> fits c (hd t) \<and> matchhere r (tl t)"
          unfolding matchhere.simps [of re t] using re r False d0 by (simp add: at_def fits_def)
        moreover have "prefix_match re t \<longleftrightarrow> (\<exists>x t'. t = x # t' \<and> fits c x \<and> prefix_match r t')"
          unfolding re by (rule prefix_match_One) (use r False in \<open>simp_all add: at_def\<close>)
        ultimately show ?thesis by (cases t) (simp_all add: ih)
      qed
    qed
  qed
qed

lemma match_loop_iff: "match_loop re t \<longleftrightarrow> (\<exists>p v. t = p @ v \<and> matchhere re v)"
proof (induction t)
  case (Cons x t)
  show ?case using Cons by (auto simp: Cons_eq_append_conv)
qed simp

section \<open>Lines and chunks\<close>

lemma grep_lines_Nil [simp]: "grep_lines re [] = ([], [])"
  by (simp add: grep_lines.simps)

lemma grep_lines_line:
  "nl \<notin> set line \<Longrightarrow> 0 \<notin> set line \<Longrightarrow>
   grep_lines re (line @ nl # q) =
     (case grep_lines re q of (out, rest) \<Rightarrow> ((if match re line then line @ [nl] else []) @ out, rest))"
proof -
  assume "nl \<notin> set line" "0 \<notin> set line"
  then have "takeWhile (\<lambda>c. c \<noteq> nl \<and> c \<noteq> 0) (line @ nl # q) = line"
    by (subst takeWhile_append2) auto
  then show ?thesis by (subst grep_lines.simps) (simp add: Let_def)
qed

lemma grep_lines_partial: "nl \<notin> set p \<Longrightarrow> grep_lines re p = ([], p)"
proof -
  assume "nl \<notin> set p"
  then have "\<not> (drop n p \<noteq> [] \<and> hd (drop n p) = nl)" for n by (metis hd_in_set in_set_dropD)
  then show ?thesis unfolding grep_lines.simps [of re p] Let_def by (simp only: if_False)
qed

lemma split_nl: "nl \<in> set p \<Longrightarrow> \<exists>line q. p = line @ nl # q \<and> nl \<notin> set line"
  by (metis split_list_first)

text \<open>The rest is an incomplete line, and the lines of two chunks are those of their concatenation.\<close>

lemma grep_lines_rest:
  "0 \<notin> set p \<Longrightarrow> grep_lines re p = (out, rest) \<Longrightarrow> nl \<notin> set rest \<and> (\<exists>a. p = a @ rest)"
proof (induction "length p" arbitrary: p out rest rule: less_induct)
  case less
  show ?case
  proof (cases "nl \<in> set p")
    case True
    then obtain line q where p: "p = line @ nl # q" "nl \<notin> set line" using split_nl by blast
    obtain o' where "grep_lines re q = (o', rest)" using less.prems p by (auto simp: grep_lines_line split: prod.splits)
    then have "nl \<notin> set rest \<and> (\<exists>a. q = a @ rest)" using less.hyps [of q] less.prems p by auto
    then obtain a where "nl \<notin> set rest" "p = (line @ nl # a) @ rest" using p by auto
    then show ?thesis by blast
  next
    case False
    then show ?thesis using less.prems by (auto simp: grep_lines_partial)
  qed
qed

lemma grep_lines_append:
  "0 \<notin> set p \<Longrightarrow> grep_lines re p = (out, rest) \<Longrightarrow>
   fst (grep_lines re (p @ q)) = out @ fst (grep_lines re (rest @ q))"
proof (induction "length p" arbitrary: p out rest rule: less_induct)
  case less
  show ?case
  proof (cases "nl \<in> set p")
    case True
    then obtain line r where p: "p = line @ nl # r" "nl \<notin> set line" using split_nl by blast
    obtain o' where o': "grep_lines re r = (o', rest)" "out = (if match re line then line @ [nl] else []) @ o'"
      using less.prems p by (auto simp: grep_lines_line split: prod.splits)
    then have "fst (grep_lines re (r @ q)) = o' @ fst (grep_lines re (rest @ q))"
      using less.hyps [of r] less.prems p by auto
    then show ?thesis using p less.prems o' by (auto simp: grep_lines_line split: prod.splits)
  next
    case False
    then show ?thesis using less.prems by (simp add: grep_lines_partial)
  qed
qed

text \<open>No newline-free stretch is longer than the buffer can hold beside one more byte.\<close>

definition short_lines :: "u8 list \<Rightarrow> bool" where
  "short_lines s \<longleftrightarrow> (\<forall>a b c. s = a @ b @ c \<longrightarrow> nl \<notin> set b \<longrightarrow> length b \<le> 1022)"

lemma short_lines_suffix: "short_lines (a @ s) \<Longrightarrow> short_lines s"
  unfolding short_lines_def by (metis append.assoc)

lemma short_lines_small: "length s \<le> 1022 \<Longrightarrow> short_lines s"
  unfolding short_lines_def by auto

lemma short_lines_concat:
  assumes "\<forall>l \<in> set ls. length l \<le> 1022" "length tail \<le> 1022"
  shows "short_lines (concat (map (\<lambda>l. l @ [nl]) ls) @ tail)"
  using assms(1)
proof (induction ls)
  case Nil
  then show ?case using assms(2) by (simp add: short_lines_small)
next
  case (Cons l ls)
  let ?r = "concat (map (\<lambda>l. l @ [nl]) ls) @ tail"
  have sr: "short_lines ?r" using Cons by simp
  show ?case unfolding short_lines_def
  proof (intro allI impI)
    fix a b c assume eq: "concat (map (\<lambda>l. l @ [nl]) (l # ls)) @ tail = a @ b @ c" and b: "nl \<notin> set b"
    then have "l @ nl # ?r = a @ b @ c" by simp
    then consider u where "l = a @ u" "u @ nl # ?r = b @ c" | v where "a = l @ v" "nl # ?r = v @ b @ c"
      by (auto simp: append_eq_append_conv2)
    then show "length b \<le> 1022"
    proof cases
      case (1 u)
      then have "length b \<le> length u" using b
        by (auto simp: append_eq_append_conv2 Cons_eq_append_conv)
      then show ?thesis using Cons.prems 1 by simp
    next
      case (2 v)
      show ?thesis
      proof (cases v)
        case Nil
        then show ?thesis using 2 b by (cases b) auto
      next
        case (Cons x v')
        then have "?r = v' @ b @ c" using 2 by simp
        then show ?thesis using sr b unfolding short_lines_def by blast
      qed
    qed
  qed
qed

lemma grep_chunks:
  assumes "nl \<notin> set buf" "0 \<notin> set (buf @ inp)" "short_lines (buf @ inp)"
  shows "grep re rd i buf inp = fst (grep_lines re (buf @ inp))"
  using assms
proof (induction "length inp" arbitrary: i buf inp rule: less_induct)
  case less
  define n where "n = min (1024 - length buf - 1) (min (Suc (rd i)) (length inp))"
  have cap: "length buf \<le> 1022" using less.prems unfolding short_lines_def by (metis append_Nil)
  show ?case
  proof (cases "inp = []")
    case True
    then show ?thesis using less.prems by (subst grep.simps) (simp add: grep_lines_partial)
  next
    case False
    then have n: "n \<noteq> 0" using cap by (cases inp) (auto simp: n_def)
    obtain out rest where g: "grep_lines re (buf @ take n inp) = (out, rest)" by fastforce
    have nz: "0 \<notin> set (buf @ take n inp)" using less.prems by (auto dest: in_set_takeD)
    from grep_lines_rest [OF nz g] obtain a where rest: "nl \<notin> set rest" "buf @ take n inp = a @ rest" by blast
    have eq: "buf @ inp = a @ (rest @ drop n inp)" using rest(2) by (metis append.assoc append_take_drop_id)
    have "grep re rd (Suc i) rest (drop n inp) = fst (grep_lines re (rest @ drop n inp))"
    proof (rule less.hyps)
      show "length (drop n inp) < length inp" using n False by simp
      show "0 \<notin> set (rest @ drop n inp)" using less.prems(2) unfolding eq by auto
      show "short_lines (rest @ drop n inp)" using less.prems(3) unfolding eq by (rule short_lines_suffix)
    qed (rule rest)
    then have "grep re rd i buf inp = out @ fst (grep_lines re (rest @ drop n inp))"
      unfolding grep.simps [of re rd i buf inp] n_def [symmetric] Let_def using n g by simp
    also have "\<dots> = fst (grep_lines re ((buf @ take n inp) @ drop n inp))"
      by (rule grep_lines_append [OF nz g, symmetric])
    finally show ?thesis by simp
  qed
qed

lemma wc_chunks: "wc rd i inp s = fold wc_byte inp s"
proof (induction "length inp" arbitrary: i inp s rule: less_induct)
  case less
  define n where "n = min 512 (min (Suc (rd i)) (length inp))"
  show ?case
  proof (cases "inp = []")
    case False
    then have n: "n \<noteq> 0" by (cases inp) (auto simp: n_def)
    have "wc rd i inp s = wc rd (Suc i) (drop n inp) (fold wc_byte (take n inp) s)"
      unfolding wc.simps [of rd i inp s] n_def [symmetric] Let_def using n by simp
    also have "\<dots> = fold wc_byte (drop n inp) (fold wc_byte (take n inp) s)"
      using n False by (intro less.hyps) simp
    also have "\<dots> = fold wc_byte (take n inp @ drop n inp) s" by (simp only: fold_append comp_apply)
    finally show ?thesis by simp
  qed (simp add: wc.simps)
qed

text \<open>A word starts at a byte that is not white space, at the beginning or after white space.\<close>

fun word_starts :: "bool \<Rightarrow> u8 list \<Rightarrow> nat" where
  "word_starts prev [] = 0"
| "word_starts prev (b # s) = (if wc_space b \<or> prev then 0 else 1) + word_starts (\<not> wc_space b) s"

lemma wc_counts:
  "wc_c (fold wc_byte inp s) = wc_c s + length inp"
  "wc_l (fold wc_byte inp s) = wc_l s + count_list inp nl"
  "wc_w (fold wc_byte inp s) = wc_w s + word_starts (inword s) inp"
  by (induction inp arbitrary: s) (auto simp: wc_byte_def Let_def)

section \<open>Properties\<close>

text \<open>
  (C18) The matcher decides the language of the pattern: a pattern without the leading
  \<open>^\<close> matches a line exactly when some stretch of the line is a word of the pattern's language
  (literal characters, \<open>.\<close> for any character, \<open>c*\<close> for any number of them), a final \<open>$\<close> requiring
  that stretch to end the line; with the \<open>^\<close> the stretch has to start the line.
\<close>

theorem match_decides_language:
  assumes "0 \<notin> set re"
  shows "(match (caret # re) line \<longleftrightarrow> prefix_match re line) \<and>
    (match re line \<longleftrightarrow>
      (if re \<noteq> [] \<and> hd re = caret then prefix_match (tl re) line
       else (\<exists>p w s. line = p @ w @ s \<and> lang (fst (atoms re)) w \<and> (snd (atoms re) \<longrightarrow> s = []))))"
proof (intro conjI)
  show "match (caret # re) line \<longleftrightarrow> prefix_match re line"
    using assms by (simp add: match_def at_def matchhere_iff)
  show "match re line \<longleftrightarrow>
      (if re \<noteq> [] \<and> hd re = caret then prefix_match (tl re) line
       else (\<exists>p w s. line = p @ w @ s \<and> lang (fst (atoms re)) w \<and> (snd (atoms re) \<longrightarrow> s = [])))"
  proof (cases "re \<noteq> [] \<and> hd re = caret")
    case True
    then have "0 \<notin> set (tl re)" using assms by (cases re) auto
    then show ?thesis using True by (simp add: match_def at_def matchhere_iff hd_conv_nth [symmetric])
  next
    case False
    then have "at re 0 \<noteq> caret" by (cases re) (auto simp: at_def)
    then show ?thesis unfolding if_not_P [OF False]
      using assms by (simp add: match_def match_loop_iff matchhere_iff prefix_match_def) blast
  qed
qed

theorem match_decides_language_witness:
  "match (str ''b*c$'') (str ''abbc'') \<and> \<not> match (str ''^b'') (str ''abbc'')"
proof
  have "\<exists>p w s. str ''abbc'' = p @ w @ s \<and> lang (fst (atoms (str ''b*c$''))) w \<and> (snd (atoms (str ''b*c$'')) \<longrightarrow> s = [])"
    by (rule exI [of _ "[97]"], rule exI [of _ "[98, 98, 99]"], rule exI [of _ "[]"])
      (simp add: str_def chr_def fits_def)
  then show "match (str ''b*c$'') (str ''abbc'')"
    using match_decides_language [of "str ''b*c$''" "str ''abbc''"] by (simp add: str_def chr_def)
  show "\<not> match (str ''^b'') (str ''abbc'')"
    using match_decides_language [of "[98]" "str ''abbc''"]
    by (simp add: str_def chr_def prefix_match_def fits_def)
qed




end
