(* ===== verification/Sh.thy ===== *)
theory Sh
  imports Ulib Textutils
begin

text \<open>
  The shell, user/sh.c. The command line is a byte list without NUL (\<open>es\<close> is its length, and the
  NUL that ends it is what \<open>at\<close> reads there); a pointer into it is an index. A parsed command keeps
  the start and end index of every word, as the C structs do, and \<open>nulterminate\<close> overwrites the end
  of each word in the buffer. Recursive descent is bounded by fuel: \<open>None\<close> is out of fuel, and
  enough fuel always gives a command or one of the parser's panics.
\<close>

section \<open>Commands\<close>

type_synonym span = "nat \<times> nat"

datatype 'w cmd =
    Exec "'w list"
  | Redir "'w cmd" 'w nat nat
  | Pipe "'w cmd" "'w cmd"
  | List "'w cmd" "'w cmd"
  | Back "'w cmd"

abbreviation MAXARGS :: nat where "MAXARGS \<equiv> 10"
abbreviation "O_RDONLY \<equiv> 0 :: nat"
abbreviation "O_WRONLY \<equiv> 1 :: nat"
abbreviation "O_RDWR \<equiv> 2 :: nat"
abbreviation "O_CREATE \<equiv> 512 :: nat"
abbreviation "O_TRUNC \<equiv> 1024 :: nat"

definition whitespace :: "u8 list" where
  "whitespace = [32, 9, 13, 10, 11]"

definition symbols :: "u8 list" where
  "symbols = str ''<|>&;()''"

definition word_char :: "u8 \<Rightarrow> bool" where
  "word_char b \<longleftrightarrow> b \<notin> set whitespace \<and> b \<notin> set symbols"

section \<open>Tokens\<close>

function scan :: "(u8 \<Rightarrow> bool) \<Rightarrow> u8 list \<Rightarrow> nat \<Rightarrow> nat" where
  "scan P buf s = (if s < length buf \<and> P (buf ! s) then scan P buf (Suc s) else s)"
  by pat_completeness auto
termination by (relation "measure (\<lambda>(P, buf, s). length buf - s)") auto

declare scan.simps [simp del]

abbreviation skip_ws :: "u8 list \<Rightarrow> nat \<Rightarrow> nat" where
  "skip_ws \<equiv> scan (\<lambda>b. b \<in> set whitespace)"

definition gettoken :: "u8 list \<Rightarrow> nat \<Rightarrow> u8 \<times> span \<times> nat" where
  "gettoken buf ps =
     (let q = skip_ws buf ps; c = at buf q;
          (ret, eq) =
            (if c = 0 then (c, q)
             else if c \<in> set (str ''|();&<'') then (c, Suc q)
             else if c = chr CHR ''>'' then
               (if at buf (Suc q) = chr CHR ''>'' then (chr CHR ''+'', Suc (Suc q)) else (c, Suc q))
             else (chr CHR ''a'', scan word_char buf q))
      in (ret, (q, eq), skip_ws buf eq))"

definition peek :: "u8 list \<Rightarrow> nat \<Rightarrow> string \<Rightarrow> bool \<times> nat" where
  "peek buf ps toks = (let s = skip_ws buf ps in (at buf s \<noteq> 0 \<and> at buf s \<in> set (str toks), s))"

lemma scan_ge: "s \<le> scan P buf s"
  by (induction P buf s rule: scan.induct) (subst scan.simps, auto)

lemma scan_le: "s \<le> length buf \<Longrightarrow> scan P buf s \<le> length buf"
  by (induction P buf s rule: scan.induct) (subst scan.simps, simp)

lemma scan_inside: "s \<le> i \<Longrightarrow> i < scan P buf s \<Longrightarrow> i < length buf \<and> P (buf ! i)"
proof (induction P buf s rule: scan.induct)
  case (1 P buf s)
  then show ?case unfolding scan.simps [of P buf s] by (cases "i = s") (auto split: if_splits)
qed

lemma scan_end: "scan P buf s < length buf \<Longrightarrow> \<not> P (buf ! scan P buf s)"
proof (induction P buf s rule: scan.induct)
  case (1 P buf s)
  show ?case
  proof (cases "s < length buf \<and> P (buf ! s)")
    case True
    then show ?thesis using 1 by (metis scan.simps)
  next
    case False
    then have "scan P buf s = s" by (subst scan.simps) auto
    then show ?thesis using False 1 by auto
  qed
qed

lemma skip_ws_skip_ws [simp]: "skip_ws buf (skip_ws buf s) = skip_ws buf s"
  using scan_end [of "\<lambda>b. b \<in> set whitespace" buf s] by (subst scan.simps) auto

lemma at_0: "0 \<notin> set buf \<Longrightarrow> at buf s = 0 \<longleftrightarrow> length buf \<le> s"
  by (auto simp: at_def) (metis nth_mem)

section \<open>The parser\<close>

text \<open>Consuming a token that \<open>peek\<close> or \<open>gettoken\<close> has seen makes progress.\<close>

lemma gettoken_ge: "gettoken buf ps = (t, (q, eq), s') \<Longrightarrow> ps \<le> q \<and> q \<le> eq \<and> eq \<le> s'"
  using scan_ge [of ps "\<lambda>b. b \<in> set whitespace" buf] scan_ge [of q word_char buf] scan_ge [of eq "\<lambda>b. b \<in> set whitespace" buf]
  by (auto simp: gettoken_def Let_def split: if_splits prod.splits)

lemma at_nz_less: "at buf s \<noteq> 0 \<Longrightarrow> s < length buf"
  by (auto simp: at_def split: if_splits)

lemma gettoken_progress:
  assumes "gettoken buf ps = (t, (q, eq), s')" "at buf (skip_ws buf ps) \<noteq> 0"
  shows "ps < s' \<and> ps < length buf"
proof -
  let ?q = "skip_ws buf ps"
  have q: "?q < length buf" "ps \<le> ?q" using assms at_nz_less scan_ge by auto
  have ws: "at buf ?q \<notin> set whitespace" using scan_end [of _ buf ps] q by (simp add: at_def)
  have "?q < eq"
  proof (cases "at buf ?q \<in> set (str ''|();&<'') \<or> at buf ?q = chr CHR ''>''")
    case True
    then show ?thesis using assms by (auto simp: gettoken_def Let_def split: if_splits)
  next
    case False
    have "word_char (at buf ?q)" using ws False by (auto simp: word_char_def symbols_def str_def)
    then have "Suc ?q \<le> scan word_char buf ?q" using q scan_ge [of "Suc ?q" word_char buf]
      by (subst (2) scan.simps) (simp add: at_def)
    then show ?thesis using assms False by (auto simp: gettoken_def Let_def split: if_splits)
  qed
  moreover have "eq \<le> s'" using gettoken_ge [OF assms(1)] by simp
  ultimately show ?thesis using q by simp
qed

lemma peek_gettoken:
  assumes "peek buf ps toks = (True, s)" "gettoken buf s = (tok, sp, s1)"
  shows "ps \<le> s \<and> s < s1 \<and> s < length buf"
proof -
  have s: "s = skip_ws buf ps" "at buf s \<noteq> 0" using assms by (auto simp: peek_def Let_def)
  then show ?thesis using gettoken_progress [of buf s tok "fst sp" "snd sp" s1] assms(2) scan_ge [of ps _ buf] by auto
qed

lemma token_decreases:
  "(True, s) = peek buf ps toks \<Longrightarrow> (tok, sp, s1) = gettoken buf s \<Longrightarrow> length buf - s1 < length buf - ps"
  using peek_gettoken [of buf ps toks s tok sp s1] by auto

lemma redirs_decreases:
  assumes "(True, s) = peek buf ps toks" "(tok, sp, s1) = gettoken buf s" "(t, f, s2) = gettoken buf s1"
  shows "length buf - s2 < length buf - ps"
proof -
  have "ps \<le> s" "s < s1" "s < length buf" using peek_gettoken [OF assms(1,2) [symmetric]] by auto
  moreover have "s1 \<le> s2" using gettoken_ge [of buf s1 t "fst f" "snd f" s2] assms(3) by simp
  ultimately show ?thesis by simp
qed

definition redircmd :: "span cmd \<Rightarrow> span \<Rightarrow> nat \<Rightarrow> nat \<Rightarrow> span cmd" where
  "redircmd subcmd file mode fd = Redir subcmd file mode fd"

function parseredirs :: "span cmd \<Rightarrow> u8 list \<Rightarrow> nat \<Rightarrow> (span cmd \<times> nat) res" where
  "parseredirs cmd buf ps =
     (let (b, s) = peek buf ps ''<>'' in
      if b then
        (case gettoken buf s of (tok, _, s1) \<Rightarrow>
         (case gettoken buf s1 of (t, file, s2) \<Rightarrow>
            if t \<noteq> chr CHR ''a'' then Panic ''missing file for redirection''
            else parseredirs
              (if tok = chr CHR ''<'' then redircmd cmd file O_RDONLY 0
               else if tok = chr CHR ''>'' then redircmd cmd file (O_WRONLY + O_CREATE + O_TRUNC) 1
               else redircmd cmd file (O_WRONLY + O_CREATE) 1) buf s2))
      else Ok (cmd, s))"
  by pat_completeness auto
termination
  by (relation "measure (\<lambda>(cmd, buf, ps). length buf - ps)") (auto intro: redirs_decreases)

declare parseredirs.simps [simp del]

text \<open>
  \<open>parseexec\<close> stores the arguments through the pointer to the \<open>execcmd\<close> it allocated, which sits
  under the redirections parsed so far.
\<close>

fun push_arg :: "span \<Rightarrow> span cmd \<Rightarrow> span cmd" where
  "push_arg sp (Exec as) = Exec (as @ [sp])"
| "push_arg sp (Redir c f m d) = Redir (push_arg sp c) f m d"
| "push_arg sp c = c"

function parseargs :: "span cmd \<Rightarrow> nat \<Rightarrow> u8 list \<Rightarrow> nat \<Rightarrow> (span cmd \<times> nat) res" where
  "parseargs ret argc buf ps =
     (let (b, s) = peek buf ps ''|)&;'' in
      if b then Ok (ret, s)
      else case gettoken buf s of (tok, sp, s1) \<Rightarrow>
        if tok = 0 then Ok (ret, s1)
        else if tok \<noteq> chr CHR ''a'' then Panic ''syntax''
        else if Suc argc \<ge> MAXARGS then Panic ''too many args''
        else bindR (parseredirs (push_arg sp ret) buf s1) (\<lambda>(ret', s2). parseargs ret' (Suc argc) buf s2))"
  by pat_completeness auto
termination by (relation "measure (\<lambda>(ret, argc, buf, ps). MAXARGS - argc)") auto

declare parseargs.simps [simp del]

function parseback :: "span cmd \<Rightarrow> u8 list \<Rightarrow> nat \<Rightarrow> span cmd \<times> nat" where
  "parseback cmd buf ps =
     (let (b, s) = peek buf ps ''&'' in
      if b then (case gettoken buf s of (_, _, s1) \<Rightarrow> parseback (Back cmd) buf s1) else (cmd, s))"
  by pat_completeness auto
termination
  by (relation "measure (\<lambda>(cmd, buf, ps). length buf - ps)") (auto intro: token_decreases)

declare parseback.simps [simp del]

fun parseline :: "nat \<Rightarrow> u8 list \<Rightarrow> nat \<Rightarrow> (span cmd \<times> nat) res option"
  and parsepipe :: "nat \<Rightarrow> u8 list \<Rightarrow> nat \<Rightarrow> (span cmd \<times> nat) res option"
  and parseexec :: "nat \<Rightarrow> u8 list \<Rightarrow> nat \<Rightarrow> (span cmd \<times> nat) res option"
  and parseblock :: "nat \<Rightarrow> u8 list \<Rightarrow> nat \<Rightarrow> (span cmd \<times> nat) res option" where
  "parseline 0 buf ps = None"
| "parseline (Suc n) buf ps =
     bindF (parsepipe n buf ps) (\<lambda>(cmd, s).
       let (cmd, s) = parseback cmd buf s; (b, s) = peek buf s '';'' in
       if b then (case gettoken buf s of (_, _, s) \<Rightarrow>
         bindF (parseline n buf s) (\<lambda>(right, s). Some (Ok (List cmd right, s))))
       else Some (Ok (cmd, s)))"
| "parsepipe 0 buf ps = None"
| "parsepipe (Suc n) buf ps =
     bindF (parseexec n buf ps) (\<lambda>(cmd, s).
       let (b, s) = peek buf s ''|'' in
       if b then (case gettoken buf s of (_, _, s) \<Rightarrow>
         bindF (parsepipe n buf s) (\<lambda>(right, s). Some (Ok (Pipe cmd right, s))))
       else Some (Ok (cmd, s)))"
| "parseexec 0 buf ps = None"
| "parseexec (Suc n) buf ps =
     (let (b, s) = peek buf ps ''('' in
      if b then parseblock n buf s
      else Some (bindR (parseredirs (Exec []) buf s) (\<lambda>(ret, s). parseargs ret 0 buf s)))"
| "parseblock 0 buf ps = None"
| "parseblock (Suc n) buf ps =
     (let (b, s) = peek buf ps ''('' in
      if \<not> b then Some (Panic ''parseblock'')
      else case gettoken buf s of (_, _, s) \<Rightarrow>
        bindF (parseline n buf s) (\<lambda>(cmd, s).
          let (b, s) = peek buf s '')'' in
          if \<not> b then Some (Panic ''syntax - missing )'')
          else case gettoken buf s of (_, _, s) \<Rightarrow> Some (parseredirs cmd buf s)))"

fun nulterminate :: "span cmd \<Rightarrow> u8 list \<Rightarrow> u8 list" where
  "nulterminate (Exec as) mem = fold (\<lambda>(q, eq) m. m[eq := 0]) as mem"
| "nulterminate (Redir c (q, eq) m d) mem = (nulterminate c mem)[eq := 0]"
| "nulterminate (Pipe l r) mem = nulterminate r (nulterminate l mem)"
| "nulterminate (List l r) mem = nulterminate r (nulterminate l mem)"
| "nulterminate (Back c) mem = nulterminate c mem"

definition parsecmd :: "u8 list \<Rightarrow> (span cmd \<times> u8 list) res option" where
  "parsecmd buf =
     bindF (parseline (4 * length buf + 4) buf 0) (\<lambda>(cmd, s).
       let (_, s) = peek buf s [] in
       if s \<noteq> length buf then Some (Panic ''syntax'')
       else Some (Ok (cmd, nulterminate cmd (buf @ [0]))))"

end
