(* ===== verification/Sh_Print.thy ===== *)
theory Sh_Print
  imports Sh_Correct
begin

text \<open>
  Printing commands: every command has a fully parenthesised form that the shell's parser reads
  back as that command.
\<close>

section \<open>The printed form\<close>

definition wf_word :: "u8 list \<Rightarrow> bool" where
  "wf_word w \<longleftrightarrow> w \<noteq> [] \<and> (\<forall>b \<in> set w. word_char b \<and> b \<noteq> 0)"

definition redir_modes :: "(nat \<times> nat) set" where
  "redir_modes = {(O_RDONLY, 0), (O_WRONLY + O_CREATE + O_TRUNC, 1), (O_WRONLY + O_CREATE, 1)}"

fun wf_cmd :: "u8 list cmd \<Rightarrow> bool" where
  "wf_cmd (Exec ws) \<longleftrightarrow> length ws < MAXARGS \<and> (\<forall>w \<in> set ws. wf_word w)"
| "wf_cmd (Redir c f m d) \<longleftrightarrow> wf_cmd c \<and> wf_word f \<and> (m, d) \<in> redir_modes"
| "wf_cmd (Pipe l r) \<longleftrightarrow> wf_cmd l \<and> wf_cmd r"
| "wf_cmd (List l r) \<longleftrightarrow> wf_cmd l \<and> wf_cmd r"
| "wf_cmd (Back c) \<longleftrightarrow> wf_cmd c"

definition print_mode :: "nat \<Rightarrow> nat \<Rightarrow> u8 list" where
  "print_mode m d = (if d = 0 then [60] else if m = O_WRONLY + O_CREATE then [62, 62] else [62])"

fun print_cmd :: "u8 list cmd \<Rightarrow> u8 list" where
  "print_cmd (Exec ws) = concat (map (\<lambda>w. w @ [32]) ws)"
| "print_cmd (Redir c f m d) = 40 # print_cmd c @ 41 # print_mode m d @ f"
| "print_cmd (Pipe l r) = 40 # print_cmd l @ 41 # 124 # 40 # print_cmd r @ [41]"
| "print_cmd (List l r) = 40 # print_cmd l @ 41 # 59 # 40 # print_cmd r @ [41]"
| "print_cmd (Back c) = 40 # print_cmd c @ [41, 38]"

section \<open>Tokens at a known place\<close>

definition stop :: "u8 list \<Rightarrow> bool" where
  "stop r \<longleftrightarrow> r = [] \<or> hd r \<notin> set whitespace"

lemma drop_at: "drop s buf = x # r \<Longrightarrow> at buf s = x \<and> buf ! s = x \<and> drop (Suc s) buf = r \<and> s < length buf"
  by (metis (no_types, lifting) Cons_nth_drop_Suc at_def drop_eq_Nil linorder_not_less list.discI list.inject)

lemma drop_Nil_at: "drop s buf = [] \<Longrightarrow> at buf s = 0"
  by (simp add: at_def)

lemma scan_stop: "drop s buf = r \<Longrightarrow> r = [] \<or> \<not> P (hd r) \<Longrightarrow> scan P buf s = s"
  by (subst scan.simps) (auto simp: hd_drop_conv_nth)

lemma skip_stop [simp]: "drop s buf = r \<Longrightarrow> stop r \<Longrightarrow> skip_ws buf s = s"
  using scan_stop [of s buf r "\<lambda>b. b \<in> set whitespace"] by (auto simp: stop_def)

lemma peek_stop:
  "drop s buf = r \<Longrightarrow> stop r \<Longrightarrow> peek buf s toks = (r \<noteq> [] \<and> hd r \<noteq> 0 \<and> hd r \<in> set (str toks), s)"
  by (cases r) (auto simp: peek_def drop_Nil_at dest: drop_at)

lemma gettoken_symbol:
  assumes "drop s buf = x # r" "x \<in> {124, 40, 41, 59, 38, 60}" "stop r"
  shows "gettoken buf s = (x, (s, Suc s), Suc s)"
proof -
  have "stop (x # r)" "x \<noteq> 0" "x \<in> set (str ''|();&<'')"
    using assms(2) by (auto simp: stop_def whitespace_def str_def chr_def)
  then show ?thesis using assms(1,3) drop_at [OF assms(1)] by (simp add: gettoken_def Let_def)
qed

lemma gettoken_gt:
  assumes "drop s buf = 62 # r" "stop r" "r \<noteq> []" "hd r \<noteq> 62"
  shows "gettoken buf s = (62, (s, Suc s), Suc s)"
proof -
  have "stop (62 # r)" by (simp add: stop_def whitespace_def)
  moreover have "at buf (Suc s) \<noteq> 62" using drop_at [OF assms(1)] assms(3,4) by (cases r) (auto dest: drop_at)
  ultimately show ?thesis using assms(1,2) drop_at [OF assms(1)] by (simp add: gettoken_def Let_def str_def chr_def)
qed

lemma gettoken_gtgt:
  assumes "drop s buf = 62 # 62 # r" "stop r"
  shows "gettoken buf s = (chr CHR ''+'', (s, Suc (Suc s)), Suc (Suc s))"
proof -
  have "stop (62 # 62 # r)" by (simp add: stop_def whitespace_def)
  moreover have "at buf (Suc s) = 62" "drop (Suc (Suc s)) buf = r" using drop_at [OF assms(1)] drop_at by auto
  ultimately show ?thesis using assms(1,2) drop_at [OF assms(1)] by (simp add: gettoken_def Let_def str_def chr_def)
qed

lemma scan_word:
  "drop s buf = w @ r \<Longrightarrow> \<forall>b \<in> set w. word_char b \<Longrightarrow> r = [] \<or> \<not> word_char (hd r) \<Longrightarrow>
   scan word_char buf s = s + length w"
proof (induction w arbitrary: s)
  case Nil
  then show ?case by (simp add: scan_stop)
next
  case (Cons b w)
  then have "drop s buf = b # (w @ r)" by simp
  from drop_at [OF this] show ?case using Cons by (subst scan.simps) simp
qed

lemma gettoken_word_at:
  assumes "drop s buf = w @ r" "wf_word w" "r = [] \<or> \<not> word_char (hd r)"
  shows "gettoken buf s = (chr CHR ''a'', (s, s + length w), skip_ws buf (s + length w)) \<and>
    word_at buf (s, s + length w) = w \<and> stop (w @ r)"
proof -
  obtain b w' where w: "w = b # w'" using assms(2) by (cases w) (auto simp: wf_word_def)
  have b: "word_char b" "b \<noteq> 0" using assms(2) w by (auto simp: wf_word_def)
  have st: "stop (w @ r)" using b w by (simp add: stop_def word_char_def)
  have "b \<notin> set (str ''|();&<'')" "b \<noteq> chr CHR ''>''" using b by (auto simp: word_char_def symbols_def str_def)
  moreover have "at buf s = b" using drop_at [of s buf b "w' @ r"] assms(1) w by simp
  moreover have "scan word_char buf s = s + length w"
    using scan_word [OF assms(1)] assms by (auto simp: wf_word_def)
  ultimately show ?thesis using st assms(1) b by (simp add: gettoken_def Let_def word_at_def)
qed

section \<open>Parsing the pieces\<close>

lemma parseredirs_none:
  assumes "drop s buf = r" "stop r" "r = [] \<or> hd r \<notin> {60, 62}"
  shows "parseredirs c buf s = Ok (c, s)"
  using assms peek_stop [OF assms(1,2), of "''<>''"] by (auto simp: parseredirs.simps [of c] str_def chr_def)

lemma parseback_none:
  assumes "drop s buf = r" "stop r" "r = [] \<or> hd r \<noteq> 38"
  shows "parseback c buf s = (c, s)"
  using assms peek_stop [OF assms(1,2), of "''&''"] by (auto simp: parseback.simps [of c] str_def chr_def)

definition closing :: "u8 list \<Rightarrow> bool" where
  "closing r \<longleftrightarrow> r = [] \<or> hd r = 41"

lemma closing_stop [simp]: "closing r \<Longrightarrow> stop r"
  by (auto simp: closing_def stop_def whitespace_def)

lemma closing_word: "closing r \<Longrightarrow> r = [] \<or> \<not> word_char (hd r)"
  by (auto simp: closing_def word_char_def symbols_def str_def chr_def)

lemma wf_word_hd: "wf_word w \<Longrightarrow> hd w \<notin> set whitespace \<and> hd w \<notin> {40, 60, 62, 124, 41, 38, 59} \<and> hd w \<noteq> 0 \<and> w \<noteq> []"
  by (cases w) (auto simp: wf_word_def word_char_def symbols_def str_def chr_def)

lemma parseredirs_one:
  assumes "drop s buf = print_mode m d @ f @ r" "(m, d) \<in> redir_modes" "wf_word f" "closing r"
  shows "\<exists>sp. parseredirs c buf s = Ok (Redir c sp m d, s + length (print_mode m d) + length f) \<and> word_at buf sp = f"
proof -
  let ?s1 = "s + length (print_mode m d)"
  let ?s2 = "?s1 + length f"
  note f = wf_word_hd [OF assms(3)]
  have d1: "drop ?s1 buf = f @ r" and d2: "drop ?s2 buf = r"
    using arg_cong [OF assms(1), of "drop (length (print_mode m d))"]
      arg_cong [OF assms(1), of "drop (length (print_mode m d) + length f)"] by (simp_all add: add.commute add.left_commute)
  from gettoken_word_at [OF d1 assms(3) closing_word [OF assms(4)]] d2 assms(4)
  have g2: "gettoken buf ?s1 = (chr CHR ''a'', (?s1, ?s2), ?s2)" "word_at buf (?s1, ?s2) = f" "stop (f @ r)" by simp_all
  have none: "parseredirs c' buf ?s2 = Ok (c', ?s2)" for c'
    using d2 assms(4) by (intro parseredirs_none) (auto simp: closing_def)
  have st: "stop (print_mode m d @ f @ r)" by (simp add: stop_def print_mode_def whitespace_def)
  have pk: "peek buf s ''<>'' = (True, s)"
    using peek_stop [OF assms(1) st, of "''<>''"] by (simp add: print_mode_def str_def chr_def split: if_splits)
  obtain tok where g1: "gettoken buf s = (tok, (s, ?s1), ?s1)"
    "redircmd c (?s1, ?s2) m d = (if tok = chr CHR ''<'' then redircmd c (?s1, ?s2) O_RDONLY 0
      else if tok = chr CHR ''>'' then redircmd c (?s1, ?s2) (O_WRONLY + O_CREATE + O_TRUNC) 1
      else redircmd c (?s1, ?s2) (O_WRONLY + O_CREATE) 1)"
  proof -
    from assms(2) consider "m = O_RDONLY \<and> d = 0" | "m = O_WRONLY + O_CREATE + O_TRUNC \<and> d = 1" | "m = O_WRONLY + O_CREATE \<and> d = 1"
      by (auto simp: redir_modes_def)
    then show thesis
    proof cases
      case 1
      then show ?thesis using gettoken_symbol [of s buf 60 "f @ r"] assms(1) g2
        by (intro that [of 60]) (simp_all add: print_mode_def chr_def)
    next
      case 2
      then show ?thesis using gettoken_gt [of s buf "f @ r"] assms(1) g2 f
        by (intro that [of 62]) (auto simp: print_mode_def chr_def)
    next
      case 3
      then show ?thesis using gettoken_gtgt [of s buf "f @ r"] assms(1) g2
        by (intro that [of 43]) (simp_all add: print_mode_def chr_def)
    qed
  qed
  have "parseredirs c buf s = parseredirs (redircmd c (?s1, ?s2) m d) buf ?s2"
    unfolding g1(2) parseredirs.simps [of c buf s] using pk g1(1) g2(1) by simp
  then show ?thesis using none g2(2) by (auto simp: redircmd_def)
qed

lemma parseargs_words:
  "drop s buf = concat (map (\<lambda>w. w @ [32]) ws) @ r \<Longrightarrow> closing r \<Longrightarrow> \<forall>w \<in> set ws. wf_word w \<Longrightarrow>
   argc + length ws < MAXARGS \<Longrightarrow>
   \<exists>sps. parseargs (Exec as) argc buf s = Ok (Exec (as @ sps), s + length (concat (map (\<lambda>w. w @ [32]) ws))) \<and>
     map (word_at buf) sps = ws"
proof (induction ws arbitrary: s argc as)
  case Nil
  then have pk: "peek buf s ''|)&;'' = (r \<noteq> [], s)"
    using peek_stop [of s buf r "''|)&;''"] by (auto simp: closing_def str_def chr_def stop_def whitespace_def)
  have "gettoken buf s = (0, (s, s), s)" if "r = []"
    using Nil that skip_stop [of s buf "[]"] drop_Nil_at [of s buf] by (simp add: gettoken_def stop_def)
  then show ?case using pk by (intro exI [of _ "[]"]) (auto simp: parseargs.simps)
next
  case (Cons w ws)
  let ?r' = "concat (map (\<lambda>w. w @ [32]) ws) @ r"
  let ?s1 = "s + length w + 1"
  note hd = wf_word_hd [of w]
  have d: "drop s buf = w @ 32 # ?r'" and wf: "wf_word w" using Cons.prems by simp_all
  have d1: "drop (s + length w) buf = 32 # ?r'"
    using arg_cong [OF d, of "drop (length w)"] by (simp add: add.commute)
  then have d2: "drop ?s1 buf = ?r'" using drop_at by simp
  have st: "stop ?r'" using Cons.prems wf_word_hd by (cases ws) (auto simp: stop_def closing_def whitespace_def)
  have "scan (\<lambda>b. b \<in> set whitespace) buf (s + length w) = ?s1"
    using drop_at [OF d1] skip_stop [OF d2 st] by (subst scan.simps) (simp add: whitespace_def)
  with gettoken_word_at [OF d wf] have g: "gettoken buf s = (chr CHR ''a'', (s, s + length w), ?s1)"
    "word_at buf (s, s + length w) = w" "stop (w @ 32 # ?r')"
    by (simp_all add: word_char_def whitespace_def)
  have pk: "peek buf s ''|)&;'' = (False, s)"
    using peek_stop [OF d g(3), of "''|)&;''"] hd wf by (cases w) (auto simp: str_def chr_def)
  have red: "parseredirs c buf ?s1 = Ok (c, ?s1)" for c
    using Cons.prems wf_word_hd by (intro parseredirs_none [OF d2 st]) (cases ws; auto simp: closing_def)
  have step: "parseargs (Exec as) argc buf s = parseargs (Exec (as @ [(s, s + length w)])) (Suc argc) buf ?s1"
    unfolding parseargs.simps [of "Exec as" argc buf s] using pk g(1) red Cons.prems by (simp add: chr_def)
  from Cons.IH [OF d2, of "Suc argc" "as @ [(s, s + length w)]"] Cons.prems obtain sps where
    "parseargs (Exec (as @ [(s, s + length w)])) (Suc argc) buf ?s1 =
       Ok (Exec ((as @ [(s, s + length w)]) @ sps), ?s1 + length (concat (map (\<lambda>w. w @ [32]) ws)))"
    "map (word_at buf) sps = ws" by auto
  then show ?case using step g(2) by (intro exI [of _ "(s, s + length w) # sps"]) simp
qed

section \<open>Parsing a printed command\<close>

definition reads_back :: "u8 list cmd \<Rightarrow> bool" where
  "reads_back a \<longleftrightarrow> (\<forall>buf s r n. drop s buf = print_cmd a @ r \<and> closing r \<and> 4 * (length buf - s) + 4 \<le> n \<longrightarrow>
     (\<exists>c. parseline n buf s = Some (Ok (c, s + length (print_cmd a))) \<and> map_cmd (word_at buf) c = a))"

lemma print_stop: "wf_cmd a \<Longrightarrow> stop (print_cmd a @ 41 # r)"
proof (cases a)
  case (Exec ws)
  assume "wf_cmd a"
  then show ?thesis using Exec wf_word_hd by (cases ws) (auto simp: stop_def whitespace_def)
qed (auto simp: stop_def whitespace_def)

lemma parse_block:
  assumes "reads_back a" "wf_cmd a" "drop s buf = 40 # print_cmd a @ 41 # r" "stop r" "4 * (length buf - s) + 2 \<le> n"
  shows "\<exists>c. parseexec n buf s = Some (parseredirs c buf (s + length (print_cmd a) + 2)) \<and> map_cmd (word_at buf) c = a"
proof -
  obtain n' where n: "n = Suc (Suc n')" using assms(5) that [of "n - 2"] by simp
  let ?p = "print_cmd a @ 41 # r"
  let ?s1 = "Suc s + length (print_cmd a)"
  note s = drop_at [OF assms(3)]
  have st: "stop (40 # ?p)" "stop ?p" using print_stop [OF assms(2)] by (simp_all add: stop_def whitespace_def)
  have pk: "peek buf s ''('' = (True, s)"
    using peek_stop [OF assms(3) st(1), of "''(''"] by (simp add: str_def chr_def)
  have g: "gettoken buf s = (40, (s, Suc s), Suc s)" using gettoken_symbol [OF assms(3)] st by simp
  have "4 * (length buf - Suc s) + 4 \<le> n'" using assms(5) n s by linarith
  then obtain c where c: "parseline n' buf (Suc s) = Some (Ok (c, ?s1))" "map_cmd (word_at buf) c = a"
    using assms(1) s unfolding reads_back_def closing_def by (metis list.sel(1))
  have d1: "drop ?s1 buf = 41 # r" using arg_cong [OF conjunct1 [OF conjunct2 [OF conjunct2 [OF s]]], of "drop (length (print_cmd a))"]
    by (simp add: add.commute)
  have "stop (41 # r)" by (simp add: stop_def whitespace_def)
  then have pk2: "peek buf ?s1 '')'' = (True, ?s1)"
    using peek_stop [OF d1, of "'')''"] by (simp add: str_def chr_def)
  have g2: "gettoken buf ?s1 = (41, (?s1, Suc ?s1), Suc ?s1)" using gettoken_symbol [OF d1] assms(4) by simp
  have "parseexec n buf s = Some (parseredirs c buf (s + length (print_cmd a) + 2))"
    using n pk g c pk2 g2 by simp
  then show ?thesis using c(2) by blast
qed

text \<open>A block without redirections, and what may follow it.\<close>

lemma parse_bare_block:
  assumes "reads_back a" "wf_cmd a" "drop s buf = 40 # print_cmd a @ 41 # r" "stop r" "r = [] \<or> hd r \<notin> {60, 62}"
    "4 * (length buf - s) + 2 \<le> n"
  shows "\<exists>c. parseexec n buf s = Some (Ok (c, s + length (print_cmd a) + 2)) \<and> map_cmd (word_at buf) c = a"
proof -
  have "drop (s + length (print_cmd a) + 2) buf = r"
    using arg_cong [OF assms(3), of "drop (length (print_cmd a) + 2)"] by (simp add: add.commute)
  then show ?thesis using parse_block [OF assms(1-4,6)] parseredirs_none assms(4,5) by metis
qed

lemma parse_pipe_block:
  assumes "reads_back a" "wf_cmd a" "drop s buf = 40 # print_cmd a @ 41 # r" "stop r" "r = [] \<or> hd r \<notin> {60, 62, 124}"
    "4 * (length buf - s) + 3 \<le> n"
  shows "\<exists>c. parsepipe n buf s = Some (Ok (c, s + length (print_cmd a) + 2)) \<and> map_cmd (word_at buf) c = a"
proof -
  obtain n' where n: "n = Suc n'" "4 * (length buf - s) + 2 \<le> n'" using assms(6) by (cases n) auto
  let ?s1 = "s + length (print_cmd a) + 2"
  from parse_bare_block [OF assms(1-4) _ n(2)] assms(5) obtain c where
    c: "parseexec n' buf s = Some (Ok (c, ?s1))" "map_cmd (word_at buf) c = a" by auto
  have "drop ?s1 buf = r"
    using arg_cong [OF assms(3), of "drop (length (print_cmd a) + 2)"] by (simp add: add.commute)
  then have "peek buf ?s1 ''|'' = (False, ?s1)" using peek_stop assms(4,5) by (fastforce simp: str_def chr_def)
  then show ?thesis using c n by simp
qed

lemma parseline_pipe:
  assumes "parsepipe n buf s = Some (Ok (c, s1))" "drop s1 buf = r" "closing r"
  shows "parseline (Suc n) buf s = Some (Ok (c, s1))"
proof -
  have st: "stop r" using assms by simp
  have "parseback c buf s1 = (c, s1)" using assms by (intro parseback_none) (auto simp: closing_def)
  moreover have "peek buf s1 '';'' = (False, s1)" using peek_stop [OF assms(2) st, of "'';''"] assms(3)
    by (auto simp: closing_def str_def chr_def)
  ultimately show ?thesis using assms by simp
qed

lemma parsepipe_exec:
  assumes "parseexec n buf s = Some (Ok (c, s1))" "drop s1 buf = r" "closing r"
  shows "parsepipe (Suc n) buf s = Some (Ok (c, s1))"
proof -
  have "stop r" using assms by simp
  then have "peek buf s1 ''|'' = (False, s1)" using peek_stop [OF assms(2), of "''|''"] assms(3)
    by (auto simp: closing_def str_def chr_def)
  then show ?thesis using assms by simp
qed

lemma drop_after: "drop s buf = p @ r \<Longrightarrow> drop (s + length p) buf = r"
  by (metis add.commute append_eq_conv_conj drop_drop)

lemma fuel_Suc: "4 * k + Suc m \<le> n \<Longrightarrow> \<exists>n'. n = Suc n' \<and> 4 * k + m \<le> n'"
  by (cases n) auto

lemma reads_back_Exec:
  assumes "wf_cmd (Exec ws)"
  shows "reads_back (Exec ws)"
  unfolding reads_back_def
proof (intro allI impI, elim conjE)
  fix buf s r n assume d: "drop s buf = print_cmd (Exec ws) @ r" and r: "closing r" and n: "4 * (length buf - s) + 4 \<le> n"
  obtain n' where n: "n = Suc (Suc (Suc n'))" using n that [of "n - 3"] by simp
  let ?p = "concat (map (\<lambda>w. w @ [32]) ws)"
  have st: "stop (?p @ r)" using assms wf_word_hd r by (cases ws) (auto simp: stop_def closing_def whitespace_def)
  have "?p @ r = [] \<or> hd (?p @ r) \<notin> {40, 60, 62}" using assms wf_word_hd r by (cases ws) (auto simp: closing_def)
  then have pk: "peek buf s ''('' = (False, s)" and pr: "parseredirs (Exec []) buf s = Ok (Exec [], s)"
    using peek_stop [of s buf "?p @ r" "''(''"] parseredirs_none [of s buf "?p @ r"] d st by (auto simp: str_def chr_def)
  from parseargs_words [of s buf ws r 0 "[]"] d r assms obtain sps where
    "parseargs (Exec []) 0 buf s = Ok (Exec sps, s + length ?p)" "map (word_at buf) sps = ws" by auto
  then have "parseexec (Suc n') buf s = Some (Ok (Exec sps, s + length ?p))" "map_cmd (word_at buf) (Exec sps) = Exec ws"
    using pk pr by simp_all
  moreover have "drop (s + length ?p) buf = r" using d by (intro drop_after) simp
  ultimately show "\<exists>c. parseline n buf s = Some (Ok (c, s + length (print_cmd (Exec ws)))) \<and> map_cmd (word_at buf) c = Exec ws"
    unfolding n using r by (metis parseline_pipe parsepipe_exec print_cmd.simps(1))
qed

lemma reads_back_Redir:
  assumes "reads_back a" "wf_cmd (Redir a f m d)"
  shows "reads_back (Redir a f m d)"
  unfolding reads_back_def
proof (intro allI impI, elim conjE)
  fix buf s r n
  assume d: "drop s buf = print_cmd (Redir a f m d) @ r" and r: "closing r" and n: "4 * (length buf - s) + 4 \<le> n"
  obtain n' where n': "n = Suc (Suc n')" "4 * (length buf - s) + 2 \<le> n'" using n that [of "n - 2"] by simp
  let ?r = "print_mode m d @ f @ r"
  let ?s1 = "s + length (print_cmd a) + 2"
  let ?s2 = "?s1 + length (print_mode m d) + length f"
  have d0: "drop s buf = 40 # print_cmd a @ 41 # ?r" using d by simp
  have "stop ?r" by (simp add: stop_def print_mode_def whitespace_def)
  from parse_block [OF assms(1) _ d0 this n'(2)] assms(2) obtain c where
    c: "parseexec n' buf s = Some (parseredirs c buf ?s1)" "map_cmd (word_at buf) c = a" by auto
  have "drop ?s1 buf = ?r" using drop_after [of s buf "40 # print_cmd a @ [41]" ?r] d0 by simp
  from parseredirs_one [OF this, of c] assms(2) r obtain sp where
    sp: "parseredirs c buf ?s1 = Ok (Redir c sp m d, ?s2)" "word_at buf sp = f" by auto
  have "drop ?s2 buf = r" using drop_after [OF d] by (simp add: ac_simps)
  then have "parseline n buf s = Some (Ok (Redir c sp m d, ?s2))"
    unfolding n' using c sp r by (intro parseline_pipe parsepipe_exec) simp_all
  then show "\<exists>c. parseline n buf s = Some (Ok (c, s + length (print_cmd (Redir a f m d)))) \<and>
      map_cmd (word_at buf) c = Redir a f m d"
    using c(2) sp(2) by (intro exI [of _ "Redir c sp m d"]) (simp add: ac_simps)
qed

lemma reads_back_Pipe:
  assumes "reads_back l" "reads_back q" "wf_cmd (Pipe l q)"
  shows "reads_back (Pipe l q)"
  unfolding reads_back_def
proof (intro allI impI, elim conjE)
  fix buf s r n
  assume d: "drop s buf = print_cmd (Pipe l q) @ r" and r: "closing r" and n: "4 * (length buf - s) + 4 \<le> n"
  obtain n' where n': "n = Suc (Suc n')" "4 * (length buf - s) + 2 \<le> n'" using n that [of "n - 2"] by simp
  let ?r = "40 # print_cmd q @ 41 # r"
  let ?s1 = "s + length (print_cmd l) + 2"
  have d0: "drop s buf = 40 # print_cmd l @ 41 # 124 # ?r" using d by simp
  have st: "stop (124 # ?r)" "stop ?r" by (simp_all add: stop_def whitespace_def)
  from parse_bare_block [OF assms(1) _ d0 st(1) _ n'(2)] assms(3) obtain c where
    c: "parseexec n' buf s = Some (Ok (c, ?s1))" "map_cmd (word_at buf) c = l" by auto
  have d1: "drop ?s1 buf = 124 # ?r" using drop_after [of s buf "40 # print_cmd l @ [41]" "124 # ?r"] d0 by simp
  have pk: "peek buf ?s1 ''|'' = (True, ?s1)" using peek_stop [OF d1 st(1), of "''|''"] by (simp add: str_def chr_def)
  have g: "gettoken buf ?s1 = (124, (?s1, Suc ?s1), Suc ?s1)" using gettoken_symbol [OF d1] st by simp
  have d2: "drop (Suc ?s1) buf = ?r" using drop_at [OF d1] by simp
  have "4 * (length buf - Suc ?s1) + 3 \<le> n'" using n'(2) conjunct2 [OF conjunct2 [OF conjunct2 [OF drop_at [OF d1]]]] by linarith
  from parse_pipe_block [OF assms(2) _ d2 _ _ this] assms(3) r obtain c' where
    c': "parsepipe n' buf (Suc ?s1) = Some (Ok (c', Suc ?s1 + length (print_cmd q) + 2))" "map_cmd (word_at buf) c' = q"
    by (auto simp: closing_def)
  have "drop (s + length (print_cmd (Pipe l q))) buf = r" using drop_after [OF d] .
  then have "parseline n buf s = Some (Ok (Pipe c c', s + length (print_cmd (Pipe l q))))"
    unfolding n' using c pk g c' r by (intro parseline_pipe) (simp_all add: ac_simps)
  then show "\<exists>c. parseline n buf s = Some (Ok (c, s + length (print_cmd (Pipe l q)))) \<and> map_cmd (word_at buf) c = Pipe l q"
    using c(2) c'(2) by (intro exI [of _ "Pipe c c'"]) simp
qed

lemma reads_back_List:
  assumes "reads_back l" "reads_back q" "wf_cmd (List l q)"
  shows "reads_back (List l q)"
  unfolding reads_back_def
proof (intro allI impI, elim conjE)
  fix buf s r n
  assume d: "drop s buf = print_cmd (List l q) @ r" and r: "closing r" and n: "4 * (length buf - s) + 4 \<le> n"
  obtain n' where n': "n = Suc (Suc n')" "4 * (length buf - s) + 2 \<le> n'" using n that [of "n - 2"] by simp
  let ?r = "40 # print_cmd q @ 41 # r"
  let ?s1 = "s + length (print_cmd l) + 2"
  have d0: "drop s buf = 40 # print_cmd l @ 41 # 59 # ?r" using d by simp
  have st: "stop (59 # ?r)" "stop ?r" by (simp_all add: stop_def whitespace_def)
  have "4 * (length buf - s) + 3 \<le> Suc n'" using n'(2) by simp
  from parse_pipe_block [OF assms(1) _ d0 st(1) _ this] assms(3) obtain c where
    c: "parsepipe (Suc n') buf s = Some (Ok (c, ?s1))" "map_cmd (word_at buf) c = l" by auto
  have d1: "drop ?s1 buf = 59 # ?r" using drop_after [of s buf "40 # print_cmd l @ [41]" "59 # ?r"] d0 by simp
  have pb: "parseback c buf ?s1 = (c, ?s1)" using parseback_none [OF d1 st(1)] by simp
  have pk: "peek buf ?s1 '';'' = (True, ?s1)" using peek_stop [OF d1 st(1), of "'';''"] by (simp add: str_def chr_def)
  have g: "gettoken buf ?s1 = (59, (?s1, Suc ?s1), Suc ?s1)" using gettoken_symbol [OF d1] st by simp
  have d2: "drop (Suc ?s1) buf = ?r" using drop_at [OF d1] by simp
  have "4 * (length buf - Suc ?s1) + 3 \<le> n'" using n'(2) conjunct2 [OF conjunct2 [OF conjunct2 [OF drop_at [OF d1]]]] by linarith
  from parse_pipe_block [OF assms(2) _ d2 _ _ this] assms(3) r obtain c' where
    c': "parsepipe n' buf (Suc ?s1) = Some (Ok (c', Suc ?s1 + length (print_cmd q) + 2))" "map_cmd (word_at buf) c' = q"
    by (auto simp: closing_def)
  have "drop (Suc ?s1 + length (print_cmd q) + 2) buf = r" using drop_after [OF d] by (simp add: ac_simps)
  then have "parseline (Suc n') buf (Suc ?s1) = Some (Ok (c', Suc ?s1 + length (print_cmd q) + 2))"
    by (rule parseline_pipe [OF c'(1) _ r])
  then have "parseline n buf s = Some (Ok (List c c', s + length (print_cmd (List l q))))"
    unfolding n' parseline.simps(2) [of "Suc n'"] using c(1) pb pk g by (simp del: parseline.simps parsepipe.simps add: ac_simps)
  then show "\<exists>c. parseline n buf s = Some (Ok (c, s + length (print_cmd (List l q)))) \<and> map_cmd (word_at buf) c = List l q"
    using c(2) c'(2) by (intro exI [of _ "List c c'"]) simp
qed

lemma reads_back_Back:
  assumes "reads_back a" "wf_cmd a"
  shows "reads_back (Back a)"
  unfolding reads_back_def
proof (intro allI impI, elim conjE)
  fix buf s r n
  assume d: "drop s buf = print_cmd (Back a) @ r" and r: "closing r" and n: "4 * (length buf - s) + 4 \<le> n"
  obtain n' where n': "n = Suc n'" "4 * (length buf - s) + 3 \<le> n'" using n that [of "n - 1"] by simp
  let ?s1 = "s + length (print_cmd a) + 2"
  have d0: "drop s buf = 40 # print_cmd a @ 41 # 38 # r" using d by simp
  have st: "stop (38 # r)" "stop r" using r by (simp_all add: stop_def whitespace_def closing_def) auto
  from parse_pipe_block [OF assms d0 st(1) _ n'(2)] obtain c where
    c: "parsepipe n' buf s = Some (Ok (c, ?s1))" "map_cmd (word_at buf) c = a" by auto
  have d1: "drop ?s1 buf = 38 # r" using drop_after [of s buf "40 # print_cmd a @ [41]" "38 # r"] d0 by simp
  have d2: "drop (Suc ?s1) buf = r" using drop_at [OF d1] by simp
  have "peek buf ?s1 ''&'' = (True, ?s1)" using peek_stop [OF d1 st(1), of "''&''"] by (simp add: str_def chr_def)
  moreover have "gettoken buf ?s1 = (38, (?s1, Suc ?s1), Suc ?s1)" using gettoken_symbol [OF d1] st by simp
  moreover have "parseback (Back c) buf (Suc ?s1) = (Back c, Suc ?s1)"
    using parseback_none [OF d2 st(2)] r by (auto simp: closing_def)
  ultimately have pb: "parseback c buf ?s1 = (Back c, Suc ?s1)" by (simp add: parseback.simps [of c])
  have "peek buf (Suc ?s1) '';'' = (False, Suc ?s1)"
    using peek_stop [OF d2 st(2), of "'';''"] r by (auto simp: closing_def str_def chr_def)
  then have "parseline n buf s = Some (Ok (Back c, s + length (print_cmd (Back a))))"
    unfolding n' using c pb by (simp add: ac_simps)
  then show "\<exists>c. parseline n buf s = Some (Ok (c, s + length (print_cmd (Back a)))) \<and> map_cmd (word_at buf) c = Back a"
    using c(2) by (intro exI [of _ "Back c"]) simp
qed

lemma wf_reads_back: "wf_cmd a \<Longrightarrow> reads_back a"
  by (induction a) (simp_all add: reads_back_Exec reads_back_Redir reads_back_Pipe reads_back_List reads_back_Back)

lemma print_cmd_nul: "wf_cmd a \<Longrightarrow> 0 \<notin> set (print_cmd a)"
  by (induction a) (auto simp: wf_word_def print_mode_def)

lemma parse_printed:
  assumes "wf_cmd a"
  shows "\<exists>c mem. parsecmd (print_cmd a) = Some (Ok (c, mem)) \<and> map_cmd (\<lambda>sp. cstr_from mem (fst sp)) c = a"
proof -
  let ?l = "print_cmd a"
  note z = print_cmd_nul [OF assms]
  from wf_reads_back [OF assms] have
    "\<exists>c. parseline (4 * length ?l + 4) ?l 0 = Some (Ok (c, 0 + length ?l)) \<and> map_cmd (word_at ?l) c = a"
    unfolding reads_back_def by (elim allE [of _ ?l] allE [of _ 0] allE [of _ "[]"] allE [of _ "4 * length ?l + 4"] impE)
      (simp_all add: closing_def)
  then obtain c where c: "parseline (4 * length ?l + 4) ?l 0 = Some (Ok (c, length ?l))" "map_cmd (word_at ?l) c = a"
    by auto
  have "skip_ws ?l (length ?l) = length ?l" by (subst scan.simps) simp
  then have p: "parsecmd ?l = Some (Ok (c, nulterminate c (?l @ [0])))"
    using c(1) by (simp add: parsecmd_def peek_def Let_def)
  have "cmd_ok ?l c" using goodD [OF parse_good(1) [OF z] c(1)] by blast
  then have "map_cmd (\<lambda>sp. cstr_from (nulterminate c (?l @ [0])) (fst sp)) c = map_cmd (word_at ?l) c"
    by (intro cmd.map_cong refl cstr_nulterminate [OF z]) (auto simp: cmd_ok_def)
  then show ?thesis using p c(2) by auto
qed

section \<open>Properties\<close>

text \<open>
  (C23) Parsing terminates on every line: the recursion depth that \<open>parsecmd\<close> allows is always enough.
\<close>

theorem parsecmd_returns:
  assumes "0 \<notin> set line"
  shows "\<exists>r. parsecmd line = Some r"
proof -
  have "parseline (4 * length line + 4) line 0 \<noteq> None" using parse_total [OF assms, of 0 "4 * length line + 4"] by simp
  then show ?thesis unfolding parsecmd_def by (auto simp: bindF_def Let_def case_prod_unfold split: option.splits res.splits)
qed

theorem parsecmd_returns_witness: "\<exists>r. parsecmd (str ''((;)'') = Some r"
  by (rule parsecmd_returns) (simp add: str_def chr_def)

text \<open>
  (C22) After a successful parse every word of the command, read as a C string from the NUL-terminated
  buffer, is the text the lexer delimited in the line (the NUL that ends one word never damages
  another), no word is empty, and no command has more arguments than \<open>argv\<close> can hold with its
  terminating null pointer.
\<close>

theorem parsecmd_words:
  assumes "0 \<notin> set line" "parsecmd line = Some (Ok (c, mem))"
  shows "map_cmd (\<lambda>sp. cstr_from mem (fst sp)) c = map_cmd (word_at line) c \<and>
    (\<forall>w. w \<in> set_cmd (map_cmd (\<lambda>sp. cstr_from mem (fst sp)) c) \<longrightarrow> wf_word w) \<and>
    argc_ok c"
proof -
  obtain s where "parseline (4 * length line + 4) line 0 = Some (Ok (c, s))" and mem: "mem = nulterminate c (line @ [0])"
    using assms(2) by (auto simp: parsecmd_def bindF_eq_Ok Let_def case_prod_unfold split: if_splits)
  then have "cmd_ok line c" using goodD [OF parse_good(1) [OF assms(1)]] by blast
  then have ok: "\<forall>sp \<in> set_cmd c. tok_ok line sp" "argc_ok c" by (simp_all add: cmd_ok_def)
  have eq: "cstr_from mem (fst sp) = word_at line sp" if "sp \<in> set_cmd c" for sp
    unfolding mem by (rule cstr_nulterminate [OF assms(1) ok(1) that])
  have "wf_word (word_at line sp)" if "sp \<in> set_cmd c" for sp
  proof -
    have t: "tok_ok line sp" using ok that by blast
    have "b \<in> set line \<and> word_char b" if b: "b \<in> set (word_at line sp)" for b
    proof -
      from b obtain i where "i < snd sp - fst sp" "b = line ! (fst sp + i)" "fst sp + i < length line"
        using t by (auto simp: word_at_def in_set_conv_nth tok_ok_def)
      then show ?thesis using t by (auto simp: tok_ok_def)
    qed
    then show ?thesis using t assms(1) by (auto simp: wf_word_def word_at_def tok_ok_def)
  qed
  then show ?thesis using ok(2) eq by (auto simp: cmd.set_map intro!: cmd.map_cong)
qed

theorem parsecmd_words_witness:
  "\<exists>c mem. parsecmd (print_cmd (Back (Exec [str ''ls'', str ''x'']))) = Some (Ok (c, mem)) \<and>
     map_cmd (\<lambda>sp. cstr_from mem (fst sp)) c = map_cmd (word_at (print_cmd (Back (Exec [str ''ls'', str ''x''])))) c \<and>
     argc_ok c"
proof -
  let ?a = "Back (Exec [str ''ls'', str ''x''])"
  have wf: "wf_cmd ?a" by (simp add: wf_word_def word_char_def whitespace_def symbols_def str_def chr_def)
  from parse_printed [OF wf] obtain c mem where p: "parsecmd (print_cmd ?a) = Some (Ok (c, mem))" by blast
  from parsecmd_words [OF print_cmd_nul [OF wf] p] p show ?thesis by blast
qed

text \<open>
  (C21) Print and parse: a command whose words are non-empty runs of word characters, with fewer than
  \<open>MAXARGS\<close> arguments each, is what the shell obtains, pipes, lists, background jobs and redirections
  alike, when it parses that command's printed form and reads its words from the buffer.
\<close>

theorem parse_print_roundtrip:
  assumes "wf_cmd a"
  shows "\<exists>c mem. parsecmd (print_cmd a) = Some (Ok (c, mem)) \<and> map_cmd (\<lambda>sp. cstr_from mem (fst sp)) c = a"
  using parse_printed [OF assms] by blast

theorem parse_print_roundtrip_witness:
  "\<exists>c mem. parsecmd (print_cmd (Pipe (Exec [str ''ls'', str ''x'']) (Redir (Exec [str ''wc'']) (str ''f'') (O_WRONLY + O_CREATE) 1)))
     = Some (Ok (c, mem)) \<and>
     map_cmd (\<lambda>sp. cstr_from mem (fst sp)) c = Pipe (Exec [str ''ls'', str ''x'']) (Redir (Exec [str ''wc'']) (str ''f'') (O_WRONLY + O_CREATE) 1)"
  by (rule parse_print_roundtrip)
    (simp add: wf_word_def word_char_def whitespace_def symbols_def str_def chr_def redir_modes_def)

end
