(* ===== verification/Vm.thy ===== *)
theory Vm
  imports Kalloc_Spec
begin

text \<open>
  kernel/vm.c: Sv39 page tables. A page table is a page of physical memory holding 512 entries; a
  \<open>pagetable_t\<close> is its address, a \<open>pte_t *\<close> the address of an entry, and all of them live in the
  memory that the page allocator manages (\<open>pmem\<close> of \<open>kmem\<close>), so allocating and freeing table
  pages and reading and writing entries act on the same memory as in the kernel. \<open>None\<close> for a
  pointer is the null pointer. The TLB is not modelled (\<open>sfence_vma\<close> has no effect), and neither
  is the installation of a page table in \<open>satp\<close>.
\<close>

unbundle bit_operations_syntax

section \<open>Walking page tables\<close>

definition level_page_size :: "nat \<Rightarrow> nat" where
  "level_page_size level = PGSIZE * 2 ^ (level * 9)"

definition RWX :: pte where "RWX = PTE_R OR PTE_W OR PTE_X"

abbreviation get_pte :: "kmem \<Rightarrow> nat \<Rightarrow> pte" where
  "get_pte s a \<equiv> ld64 (pmem s) a"

definition set_pte :: "nat \<Rightarrow> pte \<Rightarrow> kmem \<Rightarrow> kmem" where
  "set_pte a e s = s\<lparr>pmem := st64 (pmem s) a e\<rparr>"

definition zero_page :: "nat \<Rightarrow> kmem \<Rightarrow> kmem" where
  "zero_page p s = s\<lparr>pmem := memset (pmem s) p 0 PGSIZE\<rparr>"

abbreviation pte_addr :: "nat \<Rightarrow> nat \<Rightarrow> nat \<Rightarrow> nat" where
  "pte_addr pt level va \<equiv> pt + 8 * PX level va"

text \<open>The loop of \<open>walk_to_level\<close>; level 0 always is the stop level or below it.\<close>

fun walk_loop :: "nat \<Rightarrow> nat \<Rightarrow> nat \<Rightarrow> bool \<Rightarrow> nat \<Rightarrow> kmem \<Rightarrow> ((nat \<times> nat) option \<times> kmem) res" where
  "walk_loop 0 pt va alloc stop s = Ok (Some (pte_addr pt 0 va, 0), s)"
| "walk_loop (Suc l) pt va alloc stop s =
     (let pte = pte_addr pt (Suc l) va; e = get_pte s pte in
      if Suc l = stop then Ok (Some (pte, Suc l), s)
      else if e AND PTE_V \<noteq> 0 then
        (if e AND RWX \<noteq> 0 then Ok (Some (pte, Suc l), s) else walk_loop l (PTE2PA e) va alloc stop s)
      else if \<not> alloc then Ok (None, s)
      else bindR (kalloc s) (\<lambda>(next, s1).
        if next = 0 then Ok (None, s1)
        else walk_loop l next va alloc stop (set_pte pte (PA2PTE next OR PTE_V) (zero_page next s1))))"

definition walk_to_level :: "nat \<Rightarrow> nat \<Rightarrow> bool \<Rightarrow> nat \<Rightarrow> kmem \<Rightarrow> ((nat \<times> nat) option \<times> kmem) res" where
  "walk_to_level pt va alloc stop s =
     (if va \<ge> MAXVA then Panic ''walk''
      else if stop > 2 then Panic ''walk level''
      else walk_loop 2 pt va alloc stop s)"

definition walk_with_level :: "nat \<Rightarrow> nat \<Rightarrow> bool \<Rightarrow> kmem \<Rightarrow> ((nat \<times> nat) option \<times> kmem) res" where
  "walk_with_level pt va alloc s = walk_to_level pt va alloc 0 s"

definition walk :: "nat \<Rightarrow> nat \<Rightarrow> bool \<Rightarrow> kmem \<Rightarrow> (nat option \<times> kmem) res" where
  "walk pt va alloc s = bindR (walk_with_level pt va alloc s) (\<lambda>(r, s1). Ok (map_option fst r, s1))"

definition walkaddr :: "nat \<Rightarrow> nat \<Rightarrow> kmem \<Rightarrow> nat res" where
  "walkaddr pt va s =
     (if va \<ge> MAXVA then Ok 0
      else bindR (walk_with_level pt va False s) (\<lambda>(r, _).
        case r of None \<Rightarrow> Ok 0
        | Some (pte, level) \<Rightarrow>
            let e = get_pte s pte in
            if e AND PTE_V = 0 then Ok 0
            else if e AND PTE_U = 0 then Ok 0
            else Ok (add64 (PTE2PA e) (va mod level_page_size level))))"

definition ismapped :: "nat \<Rightarrow> nat \<Rightarrow> kmem \<Rightarrow> bool res" where
  "ismapped pt va s =
     bindR (walk pt va False s) (\<lambda>(r, _).
       case r of None \<Rightarrow> Ok False | Some pte \<Rightarrow> Ok (get_pte s pte AND PTE_V \<noteq> 0))"

section \<open>Mapping\<close>

text \<open>
  The loops of \<open>mappages_flags\<close> visit \<open>size / step\<close> pages, the last one at \<open>va + size - step\<close>.
  They differ in the step and in the level at which the walk stops.
\<close>

fun map_loop :: "nat \<Rightarrow> nat \<Rightarrow> nat \<Rightarrow> nat \<Rightarrow> nat \<Rightarrow> nat \<Rightarrow> pte \<Rightarrow> kmem \<Rightarrow> (int \<times> kmem) res" where
  "map_loop 0 step stop pt a pa perm s = Ok (0, s)"
| "map_loop (Suc n) step stop pt a pa perm s =
     bindR (walk_to_level pt a True stop s) (\<lambda>(r, s1).
       case r of None \<Rightarrow> Ok (-1, s1)
       | Some (pte, _) \<Rightarrow>
           if get_pte s1 pte AND PTE_V \<noteq> 0 then Panic ''mappages: remap''
           else map_loop n step stop pt (add64 a step) (add64 pa step) perm
                  (set_pte pte (PA2PTE pa OR perm OR PTE_V) s1))"

definition mappages_flags :: "nat \<Rightarrow> nat \<Rightarrow> nat \<Rightarrow> nat \<Rightarrow> pte \<Rightarrow> bool \<Rightarrow> kmem \<Rightarrow> (int \<times> kmem) res" where
  "mappages_flags pt va sz pa perm huge s =
     (if sz = 0 then Panic ''mappages: size''
      else if huge then
        (if va mod HUGEPGSIZE \<noteq> 0 \<or> pa mod HUGEPGSIZE \<noteq> 0 \<or> sz mod HUGEPGSIZE \<noteq> 0
         then Panic ''mappages: huge align''
         else map_loop (sz div HUGEPGSIZE) HUGEPGSIZE 1 pt va pa perm s)
      else if va mod PGSIZE \<noteq> 0 then Panic ''mappages: va not aligned''
      else if sz mod PGSIZE \<noteq> 0 then Panic ''mappages: size not aligned''
      else map_loop (sz div PGSIZE) PGSIZE 0 pt va pa perm s)"

definition mappages :: "nat \<Rightarrow> nat \<Rightarrow> nat \<Rightarrow> nat \<Rightarrow> pte \<Rightarrow> kmem \<Rightarrow> (int \<times> kmem) res" where
  "mappages pt va sz pa perm s = mappages_flags pt va sz pa perm False s"

definition kvmmap :: "nat \<Rightarrow> nat \<Rightarrow> nat \<Rightarrow> nat \<Rightarrow> pte \<Rightarrow> kmem \<Rightarrow> kmem res" where
  "kvmmap pt va pa sz perm s =
     bindR (mappages pt va sz pa perm s) (\<lambda>(r, s1). if r \<noteq> 0 then Panic ''kvmmap'' else Ok s1)"

definition uvmcreate :: "kmem \<Rightarrow> (nat \<times> kmem) res" where
  "uvmcreate s = bindR (kalloc s) (\<lambda>(pt, s1). if pt = 0 then Ok (0, s1) else Ok (pt, zero_page pt s1))"

section \<open>Huge pages\<close>

definition copy_page :: "nat \<Rightarrow> nat \<Rightarrow> kmem \<Rightarrow> kmem" where
  "copy_page dst src s = s\<lparr>pmem := memmove (pmem s) dst src PGSIZE\<rparr>"

text \<open>
  The allocation loop of \<open>split_huge_page\<close>: the page copied last is \<open>i - 1\<close>; the pages allocated so
  far are also stored in the scratch page. The flag tells whether all 512 pages were allocated.
\<close>

fun split_loop :: "nat \<Rightarrow> nat \<Rightarrow> nat \<Rightarrow> nat \<Rightarrow> pte \<Rightarrow> nat \<Rightarrow> kmem \<Rightarrow> (bool \<times> nat \<times> kmem) res" where
  "split_loop 0 l0 scratch pa flags i s = Ok (True, i, s)"
| "split_loop (Suc n) l0 scratch pa flags i s =
     bindR (kalloc s) (\<lambda>(page, s1).
       if page = 0 then Ok (False, i, s1)
       else split_loop n l0 scratch pa flags (Suc i)
              (set_pte (l0 + 8 * i) (PA2PTE page OR flags)
                (set_pte (scratch + 8 * i) (of_nat page) (copy_page page (pa + i * PGSIZE) s1))))"

fun kfree_entries :: "nat \<Rightarrow> nat \<Rightarrow> kmem \<Rightarrow> kmem res" where
  "kfree_entries 0 scratch s = Ok s"
| "kfree_entries (Suc n) scratch s =
     bindR (kfree_entries n scratch s) (\<lambda>s1. kfree (unat (get_pte s1 (scratch + 8 * n))) s1)"

definition split_huge_page :: "nat \<Rightarrow> nat \<Rightarrow> kmem \<Rightarrow> (int \<times> kmem) res" where
  "split_huge_page pt va0 s =
     (let va = va0 - va0 mod HUGEPGSIZE in
      bindR (walk_with_level pt va False s) (\<lambda>(r, s).
        case r of None \<Rightarrow> Ok (-1, s)
        | Some (pte, level) \<Rightarrow>
            if level \<noteq> 1 \<or> get_pte s pte AND PTE_V = 0 then Ok (-1, s)
            else let pa = PTE2PA (get_pte s pte); flags = PTE_FLAGS (get_pte s pte) in
              bindR (kalloc s) (\<lambda>(l0, s1).
              if l0 = 0 then Ok (-1, s1)
              else bindR (kalloc (zero_page l0 s1)) (\<lambda>(scratch, s2).
              if scratch = 0 then bindR (kfree l0 s2) (\<lambda>s3. Ok (-1, s3))
              else bindR (split_loop 512 l0 scratch pa flags 0 s2) (\<lambda>(done, allocated, s3).
              if done then
                bindR (kfree_huge pa (set_pte pte (PA2PTE l0 OR PTE_V) s3)) (\<lambda>s4.
                bindR (kfree scratch s4) (\<lambda>s5. Ok (0, s5)))
              else
                bindR (kfree_entries allocated scratch s3) (\<lambda>s4.
                bindR (kfree l0 s4) (\<lambda>s5.
                bindR (kfree scratch s5) (\<lambda>s6. Ok (-1, s6)))))))))"

text \<open>
  \<open>vm_try_collapse\<close> on a process with page table \<open>pt\<close> and size \<open>sz\<close> whose lock is held: the flags of
  the 512 entries have to agree, then they are replaced by one huge page.
\<close>

fun collapse_flags :: "nat \<Rightarrow> nat \<Rightarrow> kmem \<Rightarrow> bool" where
  "collapse_flags 0 l0 s = True"
| "collapse_flags (Suc i) l0 s \<longleftrightarrow>
     collapse_flags i l0 s \<and>
     (let entry = get_pte s (l0 + 8 * i) in
      entry AND PTE_V \<noteq> 0 \<and> entry AND PTE_U \<noteq> 0 \<and> PTE_FLAGS entry = PTE_FLAGS (get_pte s l0))"

fun collapse_copy :: "nat \<Rightarrow> nat \<Rightarrow> nat \<Rightarrow> kmem \<Rightarrow> kmem" where
  "collapse_copy 0 l0 new_page s = s"
| "collapse_copy (Suc i) l0 new_page s =
     (let s1 = collapse_copy i l0 new_page s in
      copy_page (new_page + i * PGSIZE) (PTE2PA (get_pte s1 (l0 + 8 * i))) s1)"

fun collapse_free :: "nat \<Rightarrow> nat \<Rightarrow> kmem \<Rightarrow> kmem res" where
  "collapse_free 0 l0 s = Ok s"
| "collapse_free (Suc i) l0 s =
     bindR (collapse_free i l0 s) (\<lambda>s1. kfree (PTE2PA (get_pte s1 (l0 + 8 * i))) s1)"

definition vm_try_collapse :: "nat \<Rightarrow> nat \<Rightarrow> nat \<Rightarrow> kmem \<Rightarrow> (int \<times> kmem) res" where
  "vm_try_collapse pt sz va s =
     (if pt = 0 then Ok (0, s)
      else if va mod HUGEPGSIZE \<noteq> 0 then Ok (0, s)
      else if add64 va HUGEPGSIZE > sz then Ok (0, s)
      else bindR (walk_to_level pt va False 1 s) (\<lambda>(r, s).
        case r of None \<Rightarrow> Ok (0, s)
        | Some (l1, _) \<Rightarrow>
            if get_pte s l1 AND PTE_V = 0 then Ok (0, s)
            else if get_pte s l1 AND RWX \<noteq> 0 then Ok (0, s)
            else let l0 = PTE2PA (get_pte s l1); flags = PTE_FLAGS (get_pte s l0) in
              if \<not> collapse_flags 512 l0 s then Ok (0, s)
              else bindR (kalloc_huge s) (\<lambda>(new_page, s1).
                if new_page = 0 then Ok (0, s1)
                else bindR (collapse_free 512 l0 (collapse_copy 512 l0 new_page s1)) (\<lambda>s2.
                  bindR (kfree l0 s2) (\<lambda>s3. Ok (1, set_pte l1 (PA2PTE new_page OR flags) s3))))))"

section \<open>Unmapping\<close>

text \<open>The loop of \<open>uvmunmap\<close> tries an address again after splitting the huge page it lies in.\<close>

partial_function (option) uvmunmap_loop :: "nat \<Rightarrow> nat \<Rightarrow> nat \<Rightarrow> bool \<Rightarrow> kmem \<Rightarrow> kmem res option" where
  "uvmunmap_loop pt a end do_free s =
     (if a \<ge> end then Some (Ok s)
      else case walk_with_level pt a False s of Panic e \<Rightarrow> Some (Panic e)
      | Ok (r, s) \<Rightarrow>
          (case r of None \<Rightarrow> uvmunmap_loop pt (add64 a PGSIZE) end do_free s
           | Some (pte, level) \<Rightarrow>
               if get_pte s pte AND PTE_V = 0 then uvmunmap_loop pt (add64 a PGSIZE) end do_free s
               else let leaf_size = level_page_size level;
                        block_start = a - a mod leaf_size;
                        block_end = add64 block_start leaf_size in
                 if level > 0 \<and> (block_start \<noteq> a \<or> block_end > end) then
                   (case split_huge_page pt block_start s of Panic e \<Rightarrow> Some (Panic e)
                    | Ok (r, s1) \<Rightarrow>
                        if r \<noteq> 0 then Some (Panic ''uvmunmap split'')
                        else uvmunmap_loop pt a end do_free s1)
                 else
                   (case (if \<not> do_free then Ok s
                          else if level = 0 then kfree (PTE2PA (get_pte s pte)) s
                          else if level = 1 then kfree_huge (PTE2PA (get_pte s pte)) s
                          else Panic ''uvmunmap lvl'') of Panic e \<Rightarrow> Some (Panic e)
                    | Ok s1 \<Rightarrow>
                        uvmunmap_loop pt (if level > 0 then block_end else add64 a PGSIZE) end do_free
                          (set_pte pte 0 s1))))"

definition uvmunmap :: "nat \<Rightarrow> nat \<Rightarrow> nat \<Rightarrow> bool \<Rightarrow> kmem \<Rightarrow> kmem res option" where
  "uvmunmap pt va npages do_free s =
     (if va mod PGSIZE \<noteq> 0 then Some (Panic ''uvmunmap: not aligned'')
      else uvmunmap_loop pt va (add64 va (mul64 npages PGSIZE)) do_free s)"

text \<open>The page count passes through an \<open>int\<close>: it is truncated to 32 bits and sign-extended.\<close>

definition as_int32 :: "nat \<Rightarrow> nat" where
  "as_int32 n = unat (scast (of_nat n :: u32) :: u64)"

definition uvmdealloc :: "nat \<Rightarrow> nat \<Rightarrow> nat \<Rightarrow> kmem \<Rightarrow> (nat \<times> kmem) res option" where
  "uvmdealloc pt oldsz newsz s =
     (if newsz \<ge> oldsz then Some (Ok (oldsz, s))
      else if PGROUNDUP newsz < PGROUNDUP oldsz then
        bindF (uvmunmap pt (PGROUNDUP newsz) (as_int32 ((PGROUNDUP oldsz - PGROUNDUP newsz) div PGSIZE)) True s)
          (\<lambda>s1. Some (Ok (newsz, s1)))
      else Some (Ok (newsz, s)))"

section \<open>Growing, freeing and copying address spaces\<close>

function uvmalloc_loop :: "nat \<Rightarrow> nat \<Rightarrow> nat \<Rightarrow> nat \<Rightarrow> pte \<Rightarrow> kmem \<Rightarrow> (nat \<times> kmem) res option" where
  "uvmalloc_loop pt a oldsz newsz xperm s =
     (if a \<ge> newsz then Some (Ok (newsz, s))
      else bindF (Some (kalloc s)) (\<lambda>(mem, s1).
        if mem = 0 then bindF (uvmdealloc pt a oldsz s1) (\<lambda>(_, s2). Some (Ok (0, s2)))
        else bindF (Some (mappages pt a PGSIZE mem (PTE_R OR PTE_U OR xperm) (zero_page mem s1))) (\<lambda>(r, s2).
          if r \<noteq> 0 then
            bindF (Some (kfree mem s2)) (\<lambda>s3. bindF (uvmdealloc pt a oldsz s3) (\<lambda>(_, s4). Some (Ok (0, s4))))
          else uvmalloc_loop pt (a + PGSIZE) oldsz newsz xperm s2)))"
  by pat_completeness auto
termination by (relation "measure (\<lambda>(pt, a, oldsz, newsz, xperm, s). newsz - a)") auto

declare uvmalloc_loop.simps [simp del]

definition uvmalloc :: "nat \<Rightarrow> nat \<Rightarrow> nat \<Rightarrow> pte \<Rightarrow> kmem \<Rightarrow> (nat \<times> kmem) res option" where
  "uvmalloc pt oldsz newsz xperm s =
     (if newsz < oldsz then Some (Ok (oldsz, s))
      else uvmalloc_loop pt (PGROUNDUP oldsz) (PGROUNDUP oldsz) newsz xperm s)"

text \<open>\<open>freewalk\<close> recurses into every table an entry points to; the fuel bounds the depth.\<close>

fun freewalk :: "nat \<Rightarrow> nat \<Rightarrow> kmem \<Rightarrow> kmem res option"
  and freewalk_loop :: "nat \<Rightarrow> nat \<Rightarrow> nat \<Rightarrow> kmem \<Rightarrow> kmem res option" where
  "freewalk 0 pt s = None"
| "freewalk (Suc d) pt s = bindF (freewalk_loop d 512 pt s) (\<lambda>s1. Some (kfree pt s1))"
| "freewalk_loop d 0 pt s = Some (Ok s)"
| "freewalk_loop d (Suc n) pt s =
     (let a = pt + 8 * (511 - n); e = get_pte s a in
      if e AND PTE_V \<noteq> 0 \<and> e AND RWX = 0 then
        bindF (freewalk d (PTE2PA e) s) (\<lambda>s1. freewalk_loop d n pt (set_pte a 0 s1))
      else if e AND PTE_V \<noteq> 0 then Some (Panic ''freewalk: leaf'')
      else freewalk_loop d n pt s)"

definition uvmfree :: "nat \<Rightarrow> nat \<Rightarrow> kmem \<Rightarrow> kmem res option" where
  "uvmfree pt sz s =
     bindF (if sz > 0 then uvmunmap pt 0 (PGROUNDUP sz div PGSIZE) True s else Some (Ok s)) (freewalk 3 pt)"

definition copy_bytes :: "nat \<Rightarrow> nat \<Rightarrow> nat \<Rightarrow> kmem \<Rightarrow> kmem" where
  "copy_bytes dst src n s = s\<lparr>pmem := memmove (pmem s) dst src n\<rparr>"

text \<open>
  The walk panics at \<open>MAXVA\<close>, so \<open>i\<close> never wraps around. The error path unmaps what was copied.
\<close>

function uvmcopy :: "nat \<Rightarrow> nat \<Rightarrow> nat \<Rightarrow> nat \<Rightarrow> kmem \<Rightarrow> (int \<times> kmem) res option" where
  "uvmcopy old new sz i s =
     (let err = (\<lambda>s. bindF (uvmunmap new 0 (PGROUNDUP i div PGSIZE) True s) (\<lambda>s1. Some (Ok (-1, s1)))) in
      if i \<ge> sz then Some (Ok (0, s))
      else bindF (Some (walk_with_level old i False s)) (\<lambda>(r, s).
        case r of None \<Rightarrow> uvmcopy old new sz (i + PGSIZE) s
        | Some (pte, level) \<Rightarrow>
            if get_pte s pte AND PTE_V = 0 then uvmcopy old new sz (i + PGSIZE) s
            else let pa = PTE2PA (get_pte s pte); flags = PTE_FLAGS (get_pte s pte) in
              if level = 1 then
                bindF (Some (kalloc_huge s)) (\<lambda>(mem, s1).
                if mem = 0 then err s1
                else bindF (Some (mappages_flags new i HUGEPGSIZE mem flags True (copy_bytes mem pa HUGEPGSIZE s1))) (\<lambda>(r, s2).
                if r \<noteq> 0 then bindF (Some (kfree_huge mem s2)) err
                else uvmcopy old new sz (i + HUGEPGSIZE) s2))
              else
                bindF (Some (kalloc s)) (\<lambda>(mem, s1).
                if mem = 0 then err s1
                else bindF (Some (mappages new i PGSIZE mem flags (copy_bytes mem pa PGSIZE s1))) (\<lambda>(r, s2).
                if r \<noteq> 0 then bindF (Some (kfree mem s2)) err
                else uvmcopy old new sz (i + PGSIZE) s2))))"
  by pat_completeness auto
termination by (relation "measure (\<lambda>(old, new, sz, i, s). sz - i)") auto

declare uvmcopy.simps [simp del]

definition uvmclear :: "nat \<Rightarrow> nat \<Rightarrow> kmem \<Rightarrow> kmem res" where
  "uvmclear pt va s =
     bindR (walk pt va False s) (\<lambda>(r, s1).
       case r of None \<Rightarrow> Panic ''uvmclear'' | Some pte \<Rightarrow> Ok (set_pte pte (get_pte s1 pte AND NOT PTE_U) s1))"

section \<open>Lazy allocation and copies between user and kernel\<close>

text \<open>\<open>psz\<close> and \<open>ppt\<close> are the size and the page table of the running process.\<close>

definition vmfault :: "nat \<Rightarrow> nat \<Rightarrow> nat \<Rightarrow> nat \<Rightarrow> kmem \<Rightarrow> (nat \<times> kmem) res" where
  "vmfault psz ppt pt va0 s =
     (if va0 \<ge> psz then Ok (0, s)
      else let va = PGROUNDDOWN va0 in
        bindR (ismapped pt va s) (\<lambda>m.
        if m then Ok (0, s)
        else bindR (kalloc s) (\<lambda>(mem, s1).
        if mem = 0 then Ok (0, s1)
        else bindR (mappages ppt va PGSIZE mem (PTE_W OR PTE_U OR PTE_R) (zero_page mem s1)) (\<lambda>(r, s2).
        if r \<noteq> 0 then bindR (kfree mem s2) (\<lambda>s3. Ok (0, s3))
        else Ok (mem, s2)))))"

definition store_bytes :: "nat \<Rightarrow> u8 list \<Rightarrow> kmem \<Rightarrow> kmem" where
  "store_bytes a bs s = s\<lparr>pmem := (\<lambda>x. if a \<le> x \<and> x < a + length bs then bs ! (x - a) else pmem s x)\<rparr>"

definition load_bytes :: "nat \<Rightarrow> nat \<Rightarrow> kmem \<Rightarrow> u8 list" where
  "load_bytes a n s = map (pmem s) [a..<a + n]"

lemma page_offset: "sub64 va (PGROUNDDOWN va) < 4096"
proof -
  let ?w = "unat (of_nat va :: u64)"
  have "PGROUNDDOWN va = ?w div 4096 * 4096" by (simp add: PGROUNDDOWN_def unat_page_mask)
  moreover have "?w = va mod 2 ^ 64" by (simp add: unat_of_nat)
  moreover have "sub64 va b = sub64 (va mod 2 ^ 64) b" for b
    unfolding sub64_def by (simp only: mod_add_left_eq)
  moreover have "?w div 4096 * 4096 \<le> ?w" "?w < 2 ^ 64" by simp_all
  ultimately have "sub64 va (PGROUNDDOWN va) = ?w - ?w div 4096 * 4096" using sub64_small by metis
  also have "\<dots> = ?w mod 4096" by (simp add: minus_div_mult_eq_mod)
  finally show ?thesis by simp
qed

text \<open>
  The kernel side of a copy is a list of bytes: what \<open>copyout\<close> copies, and what \<open>copyin\<close> and
  \<open>copyinstr\<close> have put at their destination, the flag telling success.
\<close>

function copyout :: "nat \<Rightarrow> nat \<Rightarrow> nat \<Rightarrow> nat \<Rightarrow> u8 list \<Rightarrow> kmem \<Rightarrow> (int \<times> kmem) res" where
  "copyout psz ppt pt dstva src s =
     (if src = [] then Ok (0, s)
      else let va0 = PGROUNDDOWN dstva; off = sub64 dstva va0; n = min (PGSIZE - off) (length src) in
        if va0 \<ge> MAXVA then Ok (-1, s)
        else bindR (walkaddr pt va0 s) (\<lambda>pa.
          bindR (if pa = 0 then vmfault psz ppt pt va0 s else Ok (pa, s)) (\<lambda>(pa0, s1).
          if pa0 = 0 then Ok (-1, s1)
          else bindR (walk pt va0 False s1) (\<lambda>(r, s2).
            case r of None \<Rightarrow> Panic ''kerneltrap''
            | Some pte \<Rightarrow>
                if get_pte s2 pte AND PTE_W = 0 then Ok (-1, s2)
                else copyout psz ppt pt (add64 va0 PGSIZE) (drop n src) (store_bytes (pa0 + off) (take n src) s2)))))"
  by pat_completeness auto
termination
proof (relation "measure (\<lambda>(psz, ppt, pt, dstva, src, s). length src)", goal_cases)
  case 2
  then show ?case using page_offset by (auto simp: min_def not_le)
qed simp

declare copyout.simps [simp del]

function copyin :: "nat \<Rightarrow> nat \<Rightarrow> nat \<Rightarrow> nat \<Rightarrow> nat \<Rightarrow> kmem \<Rightarrow> (u8 list \<times> bool \<times> kmem) res" where
  "copyin psz ppt pt srcva len s =
     (if len = 0 then Ok ([], True, s)
      else let va0 = PGROUNDDOWN srcva; off = sub64 srcva va0; n = min (PGSIZE - off) len in
        bindR (walkaddr pt va0 s) (\<lambda>pa.
        bindR (if pa = 0 then vmfault psz ppt pt va0 s else Ok (pa, s)) (\<lambda>(pa0, s1).
        if pa0 = 0 then Ok ([], False, s1)
        else bindR (copyin psz ppt pt (add64 va0 PGSIZE) (len - n) s1) (\<lambda>(bs, ok, s2).
          Ok (load_bytes (pa0 + off) n s1 @ bs, ok, s2)))))"
  by pat_completeness auto
termination
proof (relation "measure (\<lambda>(psz, ppt, pt, srcva, len, s). len)", goal_cases)
  case 2
  then show ?case using page_offset by (auto simp: min_def not_le)
qed simp

declare copyin.simps [simp del]

function copyinstr :: "nat \<Rightarrow> nat \<Rightarrow> nat \<Rightarrow> kmem \<Rightarrow> (u8 list \<times> bool) res" where
  "copyinstr pt srcva mx s =
     (if mx = 0 then Ok ([], False)
      else let va0 = PGROUNDDOWN srcva; off = sub64 srcva va0; n = min (PGSIZE - off) mx in
        bindR (walkaddr pt va0 s) (\<lambda>pa0.
        if pa0 = 0 then Ok ([], False)
        else let str = takeWhile (\<lambda>b. b \<noteq> 0) (load_bytes (pa0 + off) n s) in
          if length str < n then Ok (str @ [0], True)
          else bindR (copyinstr pt (add64 va0 PGSIZE) (mx - n) s) (\<lambda>(bs, ok). Ok (str @ bs, ok))))"
  by pat_completeness auto
termination
proof (relation "measure (\<lambda>(pt, srcva, mx, s). mx)", goal_cases)
  case 2
  then show ?case using page_offset by (auto simp: min_def not_le)
qed simp

declare copyinstr.simps [simp del]

section \<open>The kernel's page table\<close>

definition UART0 :: nat where "UART0 = 0x10000000"
definition VIRTIO0 :: nat where "VIRTIO0 = 0x10001000"
definition PLIC :: nat where "PLIC = 0x0c000000"

text \<open>\<open>proc_mapstacks\<close> of kernel/proc.c: a kernel stack per process, each below a guard page.\<close>

fun proc_mapstacks :: "nat \<Rightarrow> nat \<Rightarrow> kmem \<Rightarrow> kmem res" where
  "proc_mapstacks 0 kpgtbl s = Ok s"
| "proc_mapstacks (Suc n) kpgtbl s =
     bindR (kalloc s) (\<lambda>(pa, s1).
       if pa = 0 then Panic ''kalloc''
       else bindR (kvmmap kpgtbl (KSTACK (NPROC - Suc n)) pa PGSIZE (PTE_R OR PTE_W) s1) (proc_mapstacks n kpgtbl))"

text \<open>\<open>etext\<close> and \<open>trampoline\<close> are symbols of the linker script.\<close>

definition kvmmake :: "nat \<Rightarrow> nat \<Rightarrow> kmem \<Rightarrow> (nat \<times> kmem) res" where
  "kvmmake etext trampoline s =
     bindR (kalloc s) (\<lambda>(kpgtbl, s).
     bindR (kvmmap kpgtbl UART0 UART0 PGSIZE (PTE_R OR PTE_W) (zero_page kpgtbl s)) (\<lambda>s.
     bindR (kvmmap kpgtbl VIRTIO0 VIRTIO0 PGSIZE (PTE_R OR PTE_W) s) (\<lambda>s.
     bindR (kvmmap kpgtbl PLIC PLIC 0x4000000 (PTE_R OR PTE_W) s) (\<lambda>s.
     bindR (kvmmap kpgtbl KERNBASE KERNBASE (etext - KERNBASE) (PTE_R OR PTE_X) s) (\<lambda>s.
     bindR (kvmmap kpgtbl etext etext (PHYSTOP - etext) (PTE_R OR PTE_W) s) (\<lambda>s.
     bindR (kvmmap kpgtbl TRAMPOLINE trampoline PGSIZE (PTE_R OR PTE_X) s) (\<lambda>s.
     bindR (proc_mapstacks NPROC kpgtbl s) (\<lambda>s. Ok (kpgtbl, s)))))))))"

end
