(* ===== verification/Vm_Tree.thy ===== *)
theory Vm_Tree
  imports Vm
begin

text \<open>
  Page tables as trees. \<open>tables l M pt\<close> are the table pages of the tree of height \<open>l + 1\<close> rooted at
  \<open>pt\<close>, \<open>wf_pt\<close> says that no table page is used twice, \<open>hw_walk\<close> is the translation of the
  hardware (the Sv39 page walk): the address, the level and the value of the leaf entry for a virtual address.
\<close>

unbundle bit_operations_syntax

section \<open>Trees of table pages\<close>

abbreviation ent :: "mem \<Rightarrow> nat \<Rightarrow> nat \<Rightarrow> pte" where
  "ent M pt i \<equiv> ld64 M (pt + 8 * i)"

definition is_table :: "pte \<Rightarrow> bool" where
  "is_table e \<longleftrightarrow> e AND PTE_V \<noteq> 0 \<and> e AND RWX = 0"

primrec tables :: "nat \<Rightarrow> mem \<Rightarrow> nat \<Rightarrow> nat set" where
  "tables 0 M pt = {pt}"
| "tables (Suc l) M pt =
     insert pt (\<Union>i\<in>{..<512}. if is_table (ent M pt i) then tables l M (PTE2PA (ent M pt i)) else {})"

definition sub :: "nat \<Rightarrow> mem \<Rightarrow> nat \<Rightarrow> nat \<Rightarrow> nat set" where
  "sub l M pt i = (if is_table (ent M pt i) then tables l M (PTE2PA (ent M pt i)) else {})"

primrec wf_pt :: "nat \<Rightarrow> mem \<Rightarrow> nat \<Rightarrow> bool" where
  "wf_pt 0 M pt \<longleftrightarrow> pt mod 4096 = 0"
| "wf_pt (Suc l) M pt \<longleftrightarrow> pt mod 4096 = 0 \<and>
     (\<forall>i<512. is_table (ent M pt i) \<longrightarrow> wf_pt l M (PTE2PA (ent M pt i)) \<and> pt \<notin> sub l M pt i) \<and>
     (\<forall>i<512. \<forall>j<512. i \<noteq> j \<longrightarrow> sub l M pt i \<inter> sub l M pt j = {})"

primrec hw_walk :: "nat \<Rightarrow> mem \<Rightarrow> nat \<Rightarrow> nat \<Rightarrow> (nat \<times> nat \<times> pte) option" where
  "hw_walk 0 M pt va =
     (let e = ent M pt (PX 0 va) in if e AND PTE_V = 0 then None else Some (pte_addr pt 0 va, 0, e))"
| "hw_walk (Suc l) M pt va =
     (let e = ent M pt (PX (Suc l) va) in
      if e AND PTE_V = 0 then None
      else if e AND RWX \<noteq> 0 then Some (pte_addr pt (Suc l) va, Suc l, e)
      else hw_walk l M (PTE2PA e) va)"

text \<open>The entry at which a walk that does not allocate ends.\<close>

primrec slot :: "nat \<Rightarrow> mem \<Rightarrow> nat \<Rightarrow> nat \<Rightarrow> nat \<Rightarrow> (nat \<times> nat) option" where
  "slot 0 M pt va stop = Some (pte_addr pt 0 va, 0)"
| "slot (Suc l) M pt va stop =
     (let e = ent M pt (PX (Suc l) va) in
      if Suc l = stop then Some (pte_addr pt (Suc l) va, Suc l)
      else if e AND PTE_V = 0 then None
      else if e AND RWX \<noteq> 0 then Some (pte_addr pt (Suc l) va, Suc l)
      else slot l M (PTE2PA e) va stop)"

definition agree :: "mem \<Rightarrow> mem \<Rightarrow> nat set \<Rightarrow> bool" where
  "agree M M' P \<longleftrightarrow> (\<forall>p \<in> P. \<forall>i<4096. M' (p + i) = M (p + i))"

lemma agree_mono: "agree M M' P \<Longrightarrow> Q \<subseteq> P \<Longrightarrow> agree M M' Q"
  by (auto simp: agree_def)

lemma agree_trans: "agree M M' P \<Longrightarrow> agree M' M'' P \<Longrightarrow> agree M M'' P"
  by (simp add: agree_def)

lemma agree_refl [simp]: "agree M M P"
  by (simp add: agree_def)

lemma agree_ent: "agree M M' P \<Longrightarrow> pt \<in> P \<Longrightarrow> i < 512 \<Longrightarrow> ent M' pt i = ent M pt i"
proof -
  assume a: "agree M M' P" "pt \<in> P" "i < 512"
  have "ld_le 8 M' (pt + 8 * i) = ld_le 8 M (pt + 8 * i)"
  proof (rule ld_le_cong)
    fix k :: nat assume "k < 8"
    then have "8 * i + k < 4096" using a by linarith
    then show "M' (pt + 8 * i + k) = M (pt + 8 * i + k)" using a by (simp add: agree_def add.assoc)
  qed
  then show ?thesis by simp
qed

lemma tables_Suc: "tables (Suc l) M pt = insert pt (\<Union>i\<in>{..<512}. sub l M pt i)"
  by (simp add: sub_def)

lemma root_in_tables [simp]: "pt \<in> tables l M pt"
  by (cases l) simp_all

lemma sub_subset: "i < 512 \<Longrightarrow> sub l M pt i \<subseteq> tables (Suc l) M pt"
  unfolding tables_Suc by blast

lemma tables_frame:
  "agree M M' (tables l M pt) \<Longrightarrow>
   tables l M' pt = tables l M pt \<and> (wf_pt l M pt \<longrightarrow> wf_pt l M' pt) \<and>
   hw_walk l M' pt va = hw_walk l M pt va \<and> slot l M' pt va stop = slot l M pt va stop"
proof (induction l arbitrary: pt)
  case 0
  then show ?case using agree_ent [OF 0, of pt "PX 0 va"] by simp
next
  case (Suc l)
  have e: "ent M' pt i = ent M pt i" if "i < 512" for i using agree_ent [OF Suc.prems] that by simp
  have ih: "tables l M' c = tables l M c \<and> (wf_pt l M c \<longrightarrow> wf_pt l M' c) \<and> hw_walk l M' c va = hw_walk l M c va \<and>
     slot l M' c va stop = slot l M c va stop" if "i < 512" "is_table (ent M pt i)" "c = PTE2PA (ent M pt i)" for i c
    using that sub_subset [OF that(1), of l M pt] by (intro Suc.IH agree_mono [OF Suc.prems]) (simp add: sub_def)
  have s: "sub l M' pt i = sub l M pt i" if "i < 512" for i using ih [OF that] e [OF that] by (simp add: sub_def)
  have "wf_pt (Suc l) M pt \<longrightarrow> wf_pt (Suc l) M' pt" using ih e s by (auto simp: sub_def)
  moreover have "tables (Suc l) M' pt = tables (Suc l) M pt" unfolding tables_Suc using s by simp
  moreover have "hw_walk (Suc l) M' pt va = hw_walk (Suc l) M pt va"
    using ih [of "PX (Suc l) va", OF _ _ refl] e [of "PX (Suc l) va"] by (auto simp: is_table_def Let_def)
  moreover have "slot (Suc l) M' pt va stop = slot (Suc l) M pt va stop"
    using ih [of "PX (Suc l) va", OF _ _ refl] e [of "PX (Suc l) va"] by (auto simp: is_table_def Let_def)
  ultimately show ?case by blast
qed

lemma wf_root_aligned: "wf_pt l M pt \<Longrightarrow> pt mod 4096 = 0"
  by (cases l) simp_all

lemma tables_aligned: "wf_pt l M pt \<Longrightarrow> p \<in> tables l M pt \<Longrightarrow> p mod 4096 = 0"
proof (induction l arbitrary: pt)
  case (Suc l)
  then show ?case by (auto split: if_splits)
qed simp

text \<open>Writing an entry of one table page leaves the other aligned pages alone.\<close>

lemma agree_st64:
  assumes "q mod 4096 = 0" "i < 512" "\<And>p. p \<in> P \<Longrightarrow> p mod 4096 = 0" "q \<notin> P"
  shows "agree M (st64 M (q + 8 * i) e) P"
  unfolding agree_def
proof (intro ballI allI impI)
  fix p k :: nat assume p: "p \<in> P" "k < 4096"
  then have "p + 4096 \<le> q \<or> q + 4096 \<le> p" using aligned_disjoint [of p 4096 q] assms by fastforce
  then show "st64 M (q + 8 * i) e (p + k) = M (p + k)" using p assms(2) by (intro st_le_outside) auto
qed

lemma ent_st64_same [simp]: "ent (st64 M (q + 8 * i) e) q i = e"
  by (rule ld64_st64_same)

lemma ent_st64_other: "i \<noteq> j \<Longrightarrow> ent (st64 M (q + 8 * i) e) q j = ent M q j"
proof -
  assume "i \<noteq> j"
  then have "q + 8 * i + 8 \<le> q + 8 * j \<or> q + 8 * j + 8 \<le> q + 8 * i" by linarith
  then show ?thesis by (simp only: ld_st_other)
qed

section \<open>Replacing one subtree\<close>

text \<open>
  The tree below entry \<open>i\<close> of the root changes, the other entries and their subtrees stay.
\<close>

definition others :: "nat \<Rightarrow> mem \<Rightarrow> nat \<Rightarrow> nat \<Rightarrow> nat set" where
  "others l M pt i = (\<Union>j\<in>{..<512} - {i}. sub l M pt j)"

lemma tables_split: "i < 512 \<Longrightarrow> tables (Suc l) M pt = insert pt (sub l M pt i \<union> others l M pt i)"
  unfolding tables_Suc others_def by blast

lemma wf_pt_parts:
  assumes "wf_pt (Suc l) M pt" "i < 512"
  shows "pt \<notin> sub l M pt i" "pt \<notin> others l M pt i" "sub l M pt i \<inter> others l M pt i = {}" "pt mod 4096 = 0"
    "is_table (ent M pt i) \<Longrightarrow> wf_pt l M (PTE2PA (ent M pt i))"
proof -
  have s: "pt \<notin> sub l M pt j" if "j < 512" for j using assms that by (cases "is_table (ent M pt j)") (auto simp: sub_def)
  show "pt \<notin> sub l M pt i" using s assms by simp
  show "pt \<notin> others l M pt i" using s by (auto simp: others_def)
  show "sub l M pt i \<inter> others l M pt i = {}" using assms unfolding others_def by (auto simp: disjoint_iff)
  show "pt mod 4096 = 0" using assms by simp
  show "is_table (ent M pt i) \<Longrightarrow> wf_pt l M (PTE2PA (ent M pt i))" using assms by simp
qed

definition subtree_change :: "nat \<Rightarrow> mem \<Rightarrow> mem \<Rightarrow> nat \<Rightarrow> nat \<Rightarrow> bool" where
  "subtree_change l M M' pt i \<longleftrightarrow> wf_pt (Suc l) M pt \<and> i < 512 \<and>
     (\<forall>j<512. j \<noteq> i \<longrightarrow> ent M' pt j = ent M pt j) \<and>
     agree M M' (others l M pt i) \<and>
     (is_table (ent M' pt i) \<longrightarrow> wf_pt l M' (PTE2PA (ent M' pt i))) \<and>
     sub l M' pt i \<inter> insert pt (others l M pt i) = {}"

lemma subtree_changeD:
  assumes "subtree_change l M M' pt i"
  shows "wf_pt (Suc l) M pt" "i < 512" "j < 512 \<Longrightarrow> j \<noteq> i \<Longrightarrow> ent M' pt j = ent M pt j"
    "agree M M' (others l M pt i)" "is_table (ent M' pt i) \<Longrightarrow> wf_pt l M' (PTE2PA (ent M' pt i))"
    "sub l M' pt i \<inter> insert pt (others l M pt i) = {}"
  using assms by (auto simp: subtree_change_def)

lemma sub_other:
  assumes sc: "subtree_change l M M' pt i" and j: "j < 512" "j \<noteq> i"
  shows "sub l M' pt j = sub l M pt j"
proof -
  have "agree M M' (sub l M pt j)" using j by (intro agree_mono [OF subtree_changeD(4) [OF sc]]) (auto simp: others_def)
  then show ?thesis using subtree_changeD(3) [OF sc j] tables_frame [of M M' l] by (auto simp: sub_def)
qed

lemma child_other:
  assumes sc: "subtree_change l M M' pt i" and "j < 512" "j \<noteq> i" "is_table (ent M pt j)"
  shows "wf_pt l M' (PTE2PA (ent M pt j))"
    "hw_walk l M' (PTE2PA (ent M pt j)) va = hw_walk l M (PTE2PA (ent M pt j)) va"
    "slot l M' (PTE2PA (ent M pt j)) va stop = slot l M (PTE2PA (ent M pt j)) va stop"
proof -
  have "agree M M' (tables l M (PTE2PA (ent M pt j)))"
    using assms by (intro agree_mono [OF subtree_changeD(4) [OF sc]]) (auto simp: others_def sub_def)
  from tables_frame [OF this] wf_pt_parts(5) [OF subtree_changeD(1) [OF sc] assms(2,4)] show
    "wf_pt l M' (PTE2PA (ent M pt j))"
    "hw_walk l M' (PTE2PA (ent M pt j)) va = hw_walk l M (PTE2PA (ent M pt j)) va"
    "slot l M' (PTE2PA (ent M pt j)) va stop = slot l M (PTE2PA (ent M pt j)) va stop" by blast+
qed

lemma tables_change:
  assumes sc: "subtree_change l M M' pt i"
  shows "tables (Suc l) M' pt = insert pt (sub l M' pt i \<union> others l M pt i)"
proof -
  have "others l M' pt i = others l M pt i" using sub_other [OF sc] by (auto simp: others_def)
  then show ?thesis using tables_split [OF subtree_changeD(2) [OF sc], of l M' pt] by simp
qed

lemma wf_change:
  assumes sc: "subtree_change l M M' pt i"
  shows "wf_pt (Suc l) M' pt"
proof -
  note wf = subtree_changeD(1) [OF sc] and entries = subtree_changeD(3) [OF sc] and wf' = subtree_changeD(5) [OF sc]
    and fresh = subtree_changeD(6) [OF sc] and sub_other = sub_other [OF sc] and child_other = child_other [OF sc]
  have "is_table (ent M' pt j) \<longrightarrow> wf_pt l M' (PTE2PA (ent M' pt j)) \<and> pt \<notin> sub l M' pt j" if j: "j < 512" for j
  proof (cases "j = i")
    case True
    then show ?thesis using wf' fresh by auto
  next
    case False
    then show ?thesis using child_other(1) [OF j False] entries [OF j False] sub_other [OF j False] wf_pt_parts(1) [OF wf j]
      by simp
  qed
  moreover have "sub l M' pt j \<inter> sub l M' pt k = {}" if j: "j < 512" "k < 512" "j \<noteq> k" for j k
  proof -
    have dis: "sub l M' pt i \<inter> sub l M pt j = {}" if "j < 512" "j \<noteq> i" for j using that fresh by (auto simp: others_def)
    consider "j = i" | "k = i" | "j \<noteq> i" "k \<noteq> i" by blast
    then show ?thesis
    proof cases
      case 1
      then show ?thesis using dis [of k] sub_other [of k] j by simp
    next
      case 2
      then show ?thesis using dis [of j] sub_other [of j] j by (simp add: Int_commute)
    next
      case 3
      then show ?thesis using sub_other j wf by simp
    qed
  qed
  ultimately show ?thesis using wf by simp
qed

lemma hw_change:
  assumes sc: "subtree_change l M M' pt i"
  shows "hw_walk (Suc l) M' pt va =
     (if PX (Suc l) va = i \<and> is_table (ent M' pt i) then hw_walk l M' (PTE2PA (ent M' pt i)) va
      else if PX (Suc l) va = i then (if ent M' pt i AND PTE_V = 0 then None else Some (pte_addr pt (Suc l) va, Suc l, ent M' pt i))
      else hw_walk (Suc l) M pt va)"
proof (cases "PX (Suc l) va = i")
  case True
  then show ?thesis by (auto simp: is_table_def Let_def)
next
  case False
  then show ?thesis
    using subtree_changeD(3) [OF sc, of "PX (Suc l) va"] child_other(2) [OF sc, of "PX (Suc l) va" va]
    by (auto simp: is_table_def Let_def)
qed

end
