(* ===== verification/Vm_Walk.thy ===== *)
theory Vm_Walk
  imports Vm_Tree
begin

text \<open>
  What the walk of kernel/vm.c does to a page-table tree: without allocation it follows the
  hardware, with allocation it links zeroed table pages and changes no translation; and what
  writing the entry it returns does to the translation.
\<close>

unbundle bit_operations_syntax

section \<open>Entries\<close>

lemma PTE_V_mask: "PTE_V AND 0x3FF = PTE_V"
  by (simp add: PTE_V_def)

lemma PA2PTE_and: "f AND 0x3FF = f \<Longrightarrow> PA2PTE pa AND f = 0"
proof -
  assume f: "f AND 0x3FF = f"
  have "PA2PTE pa AND 0x3FF = 0"
    unfolding PA2PTE_def mask_0x3FF by (rule bit_word_eqI) (auto simp: bit_simps)
  then have "PA2PTE pa AND (f AND 0x3FF) = 0" by (metis and.assoc and.commute and_zero_eq)
  then show ?thesis using f by simp
qed

lemma link_is_table: "is_table (PA2PTE p OR PTE_V)"
proof -
  have "PA2PTE p AND PTE_V = 0" "PA2PTE p AND RWX = 0"
    by (rule PA2PTE_and, simp add: pte_flag_defs RWX_def)+
  moreover have "PTE_V AND RWX = 0" "PTE_V AND PTE_V = PTE_V" "PTE_V \<noteq> 0" by (simp_all add: pte_flag_defs RWX_def)
  ultimately show ?thesis by (simp add: is_table_def bit.conj_disj_distrib2)
qed

lemma link_target: "p mod 4096 = 0 \<Longrightarrow> p < 2 ^ 56 \<Longrightarrow> PTE2PA (PA2PTE p OR PTE_V) = p"
  by (rule PTE2PA_PA2PTE [OF PTE_V_mask])

section \<open>Writing the entry a walk ends at\<close>

definition same_path :: "nat \<Rightarrow> nat \<Rightarrow> nat \<Rightarrow> nat \<Rightarrow> bool" where
  "same_path lv l va v \<longleftrightarrow> (\<forall>i. lv \<le> i \<and> i \<le> l \<longrightarrow> PX i v = PX i va)"

lemma same_path_Suc: "lv \<le> l \<Longrightarrow> same_path lv (Suc l) va v \<longleftrightarrow> PX (Suc l) v = PX (Suc l) va \<and> same_path lv l va v"
  unfolding same_path_def by (metis le_Suc_eq le_SucI)

lemma same_path_refl [simp]: "same_path l l va v \<longleftrightarrow> PX l v = PX l va"
  by (auto simp: same_path_def)

lemma slot_level: "slot l M pt va stop = Some (a, lv) \<Longrightarrow> lv \<le> l"
proof (induction l arbitrary: pt)
  case (Suc l)
  then show ?case by (fastforce simp: Let_def split: if_splits)
qed simp

lemma slot_table: "slot l M pt va stop = Some (a, lv) \<Longrightarrow> \<exists>q \<in> tables l M pt. a = q + 8 * PX lv va"
proof (induction l arbitrary: pt)
  case (Suc l)
  let ?i = "PX (Suc l) va"
  show ?case
  proof (cases "Suc l = stop \<or> ent M pt ?i AND RWX \<noteq> 0")
    case True
    then show ?thesis using Suc.prems by (auto simp: Let_def split: if_splits)
  next
    case False
    then have "is_table (ent M pt ?i)" "slot l M (PTE2PA (ent M pt ?i)) va stop = Some (a, lv)"
      using Suc.prems by (auto simp: Let_def is_table_def split: if_splits)
    then show ?thesis using Suc.IH sub_subset [of ?i l M pt] by (fastforce simp: sub_def)
  qed
qed simp

lemma slot_write:
  assumes "wf_pt l M pt" "slot l M pt va stop = Some (a, lv)" "lv = 0 \<or> \<not> is_table e"
  shows "wf_pt l (st64 M a e) pt \<and> tables l (st64 M a e) pt \<subseteq> tables l M pt \<and>
    (lv = 0 \<or> \<not> is_table (ld64 M a) \<longrightarrow> tables l (st64 M a e) pt = tables l M pt) \<and>
    (\<forall>m. lv = Suc m \<and> is_table (ld64 M a) \<longrightarrow>
      tables m M (PTE2PA (ld64 M a)) \<subseteq> tables l M pt - tables l (st64 M a e) pt) \<and>
    (\<forall>v. hw_walk l (st64 M a e) pt v =
      (if same_path lv l va v then (if e AND PTE_V = 0 then None else Some (a, lv, e)) else hw_walk l M pt v))"
  using assms(1,2)
proof (induction l arbitrary: pt)
  case 0
  then have a: "a = pt + 8 * PX 0 va" "lv = 0" by simp_all
  have "ent (st64 M a e) pt (PX 0 v) = (if PX 0 v = PX 0 va then e else ent M pt (PX 0 v))" for v
    unfolding a using ent_st64_other [of "PX 0 va" "PX 0 v" M pt e] by simp
  then show ?case using a 0 by simp
next
  case (Suc l)
  let ?i = "PX (Suc l) va" and ?M' = "st64 M a e"
  have i: "?i < 512" by simp
  note parts = wf_pt_parts [OF Suc.prems(1) i]
  have al: "\<And>p. p \<in> others l M pt ?i \<Longrightarrow> p mod 4096 = 0"
    using tables_aligned [OF Suc.prems(1)] tables_split [OF i, of l M pt] by blast
  show ?case
  proof (cases "Suc l = stop \<or> ent M pt ?i AND RWX \<noteq> 0")
    case True
    then have a: "a = pt + 8 * ?i" "lv = Suc l" using Suc.prems by (auto simp: Let_def split: if_splits)
    then have nt: "\<not> is_table e" using assms(3) by simp
    have e': "ent ?M' pt ?i = e" unfolding a by (rule ent_st64_same)
    then have sub': "sub l ?M' pt ?i = {}" using nt by (simp add: sub_def)
    have "subtree_change l M ?M' pt ?i" unfolding subtree_change_def
      using Suc.prems(1) nt e' sub' ent_st64_other [of ?i _ M pt e] agree_st64 [OF parts(4) i al parts(2)] unfolding a by auto
    note sc = this
    show ?thesis
    proof (intro conjI allI)
      show "wf_pt (Suc l) ?M' pt" by (rule wf_change [OF sc])
      show "tables (Suc l) ?M' pt \<subseteq> tables (Suc l) M pt"
        unfolding tables_change [OF sc] tables_split [OF i, of l M pt] sub' by blast
      show "lv = 0 \<or> \<not> is_table (ld64 M a) \<longrightarrow> tables (Suc l) ?M' pt = tables (Suc l) M pt"
        unfolding tables_change [OF sc] tables_split [OF i, of l M pt] sub' using a by (auto simp: sub_def)
      show "lv = Suc m \<and> is_table (ld64 M a) \<longrightarrow>
        tables m M (PTE2PA (ld64 M a)) \<subseteq> tables (Suc l) M pt - tables (Suc l) ?M' pt" for m
        unfolding tables_change [OF sc] tables_split [OF i, of l M pt] sub' using a parts(1,3) by (auto simp: sub_def)
      show "hw_walk (Suc l) ?M' pt v =
        (if same_path lv (Suc l) va v then (if e AND PTE_V = 0 then None else Some (a, lv, e)) else hw_walk (Suc l) M pt v)" for v
        using hw_change [OF sc, of v] nt e' a by auto
    qed
  next
    case False
    let ?c = "PTE2PA (ent M pt ?i)"
    have t: "is_table (ent M pt ?i)" and sl: "slot l M ?c va stop = Some (a, lv)"
      using False Suc.prems by (auto simp: Let_def is_table_def split: if_splits)
    note ih = Suc.IH [OF parts(5) [OF t] sl]
    have lv: "lv \<le> l" by (rule slot_level [OF sl])
    obtain q where q: "q \<in> tables l M ?c" "a = q + 8 * PX lv va" using slot_table [OF sl] by blast
    have sub: "sub l M pt ?i = tables l M ?c" using t by (simp add: sub_def)
    have ag: "agree M ?M' (insert pt (others l M pt ?i))"
      unfolding q(2) using q(1) parts al sub tables_aligned [OF parts(5) [OF t] q(1)] by (intro agree_st64) auto
    have e': "ent ?M' pt j = ent M pt j" if "j < 512" for j using agree_ent [OF ag] that by simp
    have sub': "sub l ?M' pt ?i = tables l ?M' ?c" using t e' by (simp add: sub_def)
    have sc: "subtree_change l M ?M' pt ?i" unfolding subtree_change_def
      using Suc.prems(1) e' ih agree_mono [OF ag] parts sub sub' by auto
    show ?thesis
    proof (intro conjI allI)
      show "wf_pt (Suc l) ?M' pt" by (rule wf_change [OF sc])
      show "tables (Suc l) ?M' pt \<subseteq> tables (Suc l) M pt"
        unfolding tables_change [OF sc] tables_split [OF i, of l M pt] sub sub' using ih by blast
      show "lv = 0 \<or> \<not> is_table (ld64 M a) \<longrightarrow> tables (Suc l) ?M' pt = tables (Suc l) M pt"
        unfolding tables_change [OF sc] tables_split [OF i, of l M pt] sub sub' using ih by blast
      show "lv = Suc m \<and> is_table (ld64 M a) \<longrightarrow>
        tables m M (PTE2PA (ld64 M a)) \<subseteq> tables (Suc l) M pt - tables (Suc l) ?M' pt" for m
        unfolding tables_change [OF sc] tables_split [OF i, of l M pt] sub sub' using ih parts(1,3) sub by blast
      show "hw_walk (Suc l) ?M' pt v =
        (if same_path lv (Suc l) va v then (if e AND PTE_V = 0 then None else Some (a, lv, e)) else hw_walk (Suc l) M pt v)" for v
      proof -
        have "hw_walk (Suc l) M pt v = hw_walk l M ?c v" if "PX (Suc l) v = ?i"
          using t that by (auto simp: is_table_def Let_def)
        then show ?thesis using hw_change [OF sc, of v] t e' ih by (auto simp: same_path_Suc [OF lv])
      qed
    qed
  qed
qed

section \<open>Walking\<close>

lemma walk_loop_lookup: "walk_loop l pt va False stop s = Ok (slot l (pmem s) pt va stop, s)"
  by (induction l arbitrary: pt) (auto simp: Let_def)

lemma hw_walk_slot:
  "hw_walk l M pt va =
     (case slot l M pt va 0 of None \<Rightarrow> None
      | Some (a, lv) \<Rightarrow> if ld64 M a AND PTE_V = 0 then None else Some (a, lv, ld64 M a))"
  by (induction l arbitrary: pt) (auto simp: Let_def)

definition held :: "kmem \<Rightarrow> nat set" where
  "held s = managed_pages s - avail_pages s"

lemma managed_facts: "p \<in> managed_pages s \<Longrightarrow> p mod 4096 = 0 \<and> p \<noteq> 0 \<and> p < 2 ^ 56"
  using kpages.managed_page [of p s] by simp

lemma held_aligned: "p \<in> held s \<Longrightarrow> p mod 4096 = 0"
  using managed_facts by (auto simp: held_def)

lemma outside_empty [simp]: "outside x {}"
  by (simp add: outside_def)

lemma outside_page:
  assumes "p mod 4096 = 0" "\<And>q. q \<in> Q \<Longrightarrow> q mod 4096 = 0" "p \<notin> Q" "k < 4096"
  shows "outside (p + k) Q"
  unfolding outside_def
proof
  fix q assume "q \<in> Q"
  then have "p + 4096 \<le> q \<or> q + 4096 \<le> p" using aligned_disjoint [of p 4096 q] assms by auto
  then show "p + k < q \<or> q + 4096 \<le> p + k" using assms(4) by linarith
qed

lemma agree_outside:
  assumes "\<And>x. outside x Q \<Longrightarrow> M' x = M x" "\<And>q. q \<in> P \<union> Q \<Longrightarrow> q mod 4096 = 0" "P \<inter> Q = {}"
  shows "agree M M' P"
  unfolding agree_def using assms(1) outside_page [of _ Q] assms(2,3) by (metis UnCI disjoint_iff)

text \<open>A zeroed page is an empty table.\<close>

lemma ent_zero: "(\<And>x. p \<le> x \<Longrightarrow> x < p + 4096 \<Longrightarrow> M x = 0) \<Longrightarrow> i < 512 \<Longrightarrow> ent M p i = 0"
proof -
  assume z: "\<And>x. p \<le> x \<Longrightarrow> x < p + 4096 \<Longrightarrow> M x = 0" and i: "i < 512"
  have "ld_le 8 M (p + 8 * i) = ld_le 8 (\<lambda>_. 0) 0" by (rule ld_le_cong) (use i in \<open>auto intro: z\<close>)
  moreover have "ld_le n (\<lambda>_. 0) a = 0" for n a by (induction n arbitrary: a) simp_all
  ultimately show ?thesis by simp
qed

lemma empty_table:
  assumes "\<And>i. i < 512 \<Longrightarrow> ent M p i = 0" "p mod 4096 = 0"
  shows "tables l M p = {p} \<and> wf_pt l M p \<and> hw_walk l M p va = None"
  using assms by (cases l) (auto simp: sub_def is_table_def Let_def)

lemma zero_page_held:
  assumes "kmem_inv s" "p \<in> held s"
  shows "kmem_inv (zero_page p s)" "avail_pages (zero_page p s) = avail_pages s"
    "managed_pages (zero_page p s) = managed_pages s"
proof -
  have "memset (pmem s) p 0 PGSIZE x = pmem s x" if "outside x {p}" for x using that by (auto simp: memset_eq)
  with kpages.put_held [OF assms(1), of p] assms(2) show
    "kmem_inv (zero_page p s)" "avail_pages (zero_page p s) = avail_pages s"
    by (auto simp: zero_page_def held_def)
  show "managed_pages (zero_page p s) = managed_pages s" by (simp add: zero_page_def managed_pages_def)
qed

lemma set_pte_held:
  assumes "kmem_inv s" "q \<in> held s" "i < 512"
  shows "kmem_inv (set_pte (q + 8 * i) e s)" "avail_pages (set_pte (q + 8 * i) e s) = avail_pages s"
    "managed_pages (set_pte (q + 8 * i) e s) = managed_pages s"
    "outside x {q} \<Longrightarrow> pmem (set_pte (q + 8 * i) e s) x = pmem s x"
proof -
  have fr: "st64 (pmem s) (q + 8 * i) e x = pmem s x" if "outside x {q}" for x
    using that assms(3) by (intro st_le_outside) auto
  with kpages.put_held [OF assms(1), of q] assms(2) show
    "kmem_inv (set_pte (q + 8 * i) e s)" "avail_pages (set_pte (q + 8 * i) e s) = avail_pages s"
    by (auto simp: set_pte_def held_def)
  show "managed_pages (set_pte (q + 8 * i) e s) = managed_pages s" by (simp add: set_pte_def managed_pages_def)
  show "outside x {q} \<Longrightarrow> pmem (set_pte (q + 8 * i) e s) x = pmem s x" using fr by (simp add: set_pte_def)
qed

text \<open>A fresh table page linked into an invalid entry.\<close>

lemma fresh_table:
  assumes s: "kmem_inv s" "q \<in> held s" "i < 512" "kalloc s = Ok (p, s1)" "p \<noteq> 0"
  defines "s2 \<equiv> set_pte (q + 8 * i) (PA2PTE p OR PTE_V) (zero_page p s1)"
  shows "kmem_inv s2" "avail_pages s2 = avail_pages s - {p}" "managed_pages s2 = managed_pages s"
    "p \<in> avail_pages s" "p \<in> held s2" "p mod 4096 = 0" "p < 2 ^ 56"
    "\<And>x. outside x (insert q (avail_pages s)) \<Longrightarrow> pmem s2 x = pmem s x"
    "\<And>j. j < 512 \<Longrightarrow> ent (pmem s2) q j = (if j = i then PA2PTE p OR PTE_V else ent (pmem s) q j)"
    "\<And>j. j < 512 \<Longrightarrow> ent (pmem s2) p j = 0"
proof -
  note k = kpages.alloc_inv [OF s(1,4)] kpages.alloc_some [OF s(1,4,5)]
  have p: "p \<in> avail_pages s" "avail_pages s1 = avail_pages s - {p}" "managed_pages s1 = managed_pages s" "kmem_inv s1"
    using k by auto
  have pm: "p \<in> managed_pages s" using p kpages.avail_managed [OF s(1)] by blast
  have ph: "p \<in> held s1" using p pm by (simp add: held_def)
  have qh: "q \<in> held s1" "q \<noteq> p" using s(2) p by (auto simp: held_def)
  note z = zero_page_held [OF p(4) ph]
  have qz: "q \<in> held (zero_page p s1)" using qh z by (simp add: held_def)
  note w = set_pte_held [OF z(1) qz s(3), folded s2_def]
  show "kmem_inv s2" using w unfolding s2_def by blast
  show av: "avail_pages s2 = avail_pages s - {p}" using w z p unfolding s2_def by simp
  show mg: "managed_pages s2 = managed_pages s" using w z p unfolding s2_def by simp
  show "p \<in> avail_pages s" by (rule p)
  show "p \<in> held s2" using av mg pm by (simp add: held_def)
  show pal: "p mod 4096 = 0" and "p < 2 ^ 56" using managed_facts [OF pm] by auto
  have qal: "q mod 4096 = 0" using held_aligned [OF s(2)] .
  have zp: "pmem (zero_page p s1) x = (if p \<le> x \<and> x < p + 4096 then 0 else pmem s1 x)" for x
    by (simp add: zero_page_def memset_eq)
  show "pmem s2 x = pmem s x" if o: "outside x (insert q (avail_pages s))" for x
  proof -
    have "pmem s2 x = pmem (zero_page p s1) x" unfolding s2_def using w(4) o by simp
    also have "\<dots> = pmem s1 x" using zp [of x] o p(1) by (auto simp: outside_def)
    also have "\<dots> = pmem s x" using kpages.alloc_frame [OF s(1,4)] o by simp
    finally show ?thesis .
  qed
  have qs: "pmem (zero_page p s1) (q + k) = pmem s (q + k)" if "k < 4096" for k
  proof -
    have "q + 4096 \<le> p \<or> p + 4096 \<le> q" using aligned_disjoint [OF qal pal qh(2)] .
    then show ?thesis using zp [of "q + k"] that kpages.alloc_keeps_held_page [OF s(1,4), of q k] s(2)
      by (auto simp: held_def)
  qed
  show "ent (pmem s2) q j = (if j = i then PA2PTE p OR PTE_V else ent (pmem s) q j)" if j: "j < 512" for j
  proof -
    have "ent (pmem (zero_page p s1)) q j = ent (pmem s) q j"
      by (rule agree_ent [of _ _ "{q}"]) (use qs j in \<open>auto simp: agree_def\<close>)
    then show ?thesis unfolding s2_def set_pte_def using ent_st64_other [of i j _ q] by simp
  qed
  show "ent (pmem s2) p j = 0" if j: "j < 512" for j
  proof -
    have "agree (pmem (zero_page p s1)) (pmem s2) {p}" unfolding s2_def set_pte_def
      using agree_st64 [OF qal s(3), of "{p}"] pal qh(2) by simp
    then have "ent (pmem s2) p j = ent (pmem (zero_page p s1)) p j" using agree_ent j by blast
    also have "\<dots> = 0" using j by (intro ent_zero) (simp_all add: zp)
    finally show ?thesis .
  qed
qed

section \<open>Walking with allocation\<close>

definition walk_post :: "nat \<Rightarrow> nat \<Rightarrow> nat \<Rightarrow> nat \<Rightarrow> kmem \<Rightarrow> (nat \<times> nat) option \<Rightarrow> kmem \<Rightarrow> bool" where
  "walk_post l pt va stop s r s' \<longleftrightarrow>
     kmem_inv s' \<and> managed_pages s' = managed_pages s \<and> avail_pages s' \<subseteq> avail_pages s \<and>
     wf_pt l (pmem s') pt \<and> tables l (pmem s) pt \<subseteq> tables l (pmem s') pt \<and>
     tables l (pmem s') pt \<subseteq> tables l (pmem s) pt \<union> (avail_pages s - avail_pages s') \<and>
     (\<forall>x. outside x (tables l (pmem s) pt \<union> avail_pages s) \<longrightarrow> pmem s' x = pmem s x) \<and>
     (\<forall>v. hw_walk l (pmem s') pt v = hw_walk l (pmem s) pt v) \<and>
     (case r of None \<Rightarrow> avail_pages s' = {} | Some x \<Rightarrow> slot l (pmem s') pt va stop = Some x)"

lemma walk_post_refl:
  "kmem_inv s \<Longrightarrow> wf_pt l (pmem s) pt \<Longrightarrow>
   (case r of None \<Rightarrow> avail_pages s = {} | Some x \<Rightarrow> slot l (pmem s) pt va stop = Some x) \<Longrightarrow>
   walk_post l pt va stop s r s"
  by (simp add: walk_post_def)

lemma walk_postD:
  assumes "walk_post l pt va stop s r s'"
  shows "kmem_inv s'" "managed_pages s' = managed_pages s" "avail_pages s' \<subseteq> avail_pages s" "wf_pt l (pmem s') pt"
    "tables l (pmem s) pt \<subseteq> tables l (pmem s') pt"
    "tables l (pmem s') pt \<subseteq> tables l (pmem s) pt \<union> (avail_pages s - avail_pages s')"
    "outside x (tables l (pmem s) pt \<union> avail_pages s) \<Longrightarrow> pmem s' x = pmem s x"
    "hw_walk l (pmem s') pt v = hw_walk l (pmem s) pt v"
    "case r of None \<Rightarrow> avail_pages s' = {} | Some x \<Rightarrow> slot l (pmem s') pt va stop = Some x"
  using assms unfolding walk_post_def by blast+

lemma avail_aligned: "kmem_inv s \<Longrightarrow> q \<in> avail_pages s \<Longrightarrow> q mod 4096 = 0"
  using kpages.avail_managed managed_facts by blast

text \<open>The walk continues in the table that entry \<open>PX (Suc l) va\<close> links.\<close>

lemma walk_post_table:
  assumes s: "kmem_inv s" "wf_pt (Suc l) (pmem s) pt" "tables (Suc l) (pmem s) pt \<subseteq> held s" "Suc l \<noteq> stop"
    and t: "is_table (ent (pmem s) pt (PX (Suc l) va))"
    and ih: "walk_post l (PTE2PA (ent (pmem s) pt (PX (Suc l) va))) va stop s r s'"
  shows "walk_post (Suc l) pt va stop s r s'"
proof -
  let ?M = "pmem s" and ?M' = "pmem s'" and ?i = "PX (Suc l) va"
  let ?c = "PTE2PA (ent ?M pt ?i)" and ?o = "others l ?M pt ?i"
  have i: "?i < 512" by simp
  note parts = wf_pt_parts [OF s(2) i] and p = walk_postD [OF ih]
  have sub: "sub l ?M pt ?i = tables l ?M ?c" using t by (simp add: sub_def)
  have h: "insert pt ?o \<subseteq> held s" "tables l ?M ?c \<subseteq> held s"
    using s(3) unfolding tables_split [OF i, of l ?M pt] sub by blast+
  have ag: "agree ?M ?M' (insert pt ?o)"
  proof (rule agree_outside)
    show "?M' x = ?M x" if "outside x (tables l ?M ?c \<union> avail_pages s)" for x using p(7) [OF that] .
    show "q mod 4096 = 0" if "q \<in> insert pt ?o \<union> (tables l ?M ?c \<union> avail_pages s)" for q
    proof -
      have "q \<in> held s \<or> q \<in> avail_pages s" using that h by blast
      then show ?thesis using held_aligned avail_aligned [OF s(1)] by metis
    qed
    show "insert pt ?o \<inter> (tables l ?M ?c \<union> avail_pages s) = {}"
      using h parts(1,3) unfolding sub held_def by blast
  qed
  have e': "ent ?M' pt j = ent ?M pt j" if "j < 512" for j using agree_ent [OF ag] that by simp
  have sub': "sub l ?M' pt ?i = tables l ?M' ?c" using t e' by (simp add: sub_def)
  have dis: "tables l ?M' ?c \<inter> insert pt ?o = {}"
    using p(6) parts(1,3) h(1) unfolding sub held_def by blast
  have sc: "subtree_change l ?M ?M' pt ?i" unfolding subtree_change_def
    using s(2) e' t p(4) agree_mono [OF ag] sub' dis by auto
  note tc = tables_change [OF sc, unfolded sub'] and ts = tables_split [OF i, of l ?M pt, unfolded sub]
  have hw: "hw_walk (Suc l) ?M' pt v = hw_walk (Suc l) ?M pt v" for v
    using hw_change [OF sc, of v] t e' p(8) by (auto simp: is_table_def Let_def)
  have sl: "slot (Suc l) ?M' pt va stop = slot l ?M' ?c va stop"
    using t e' [OF i] s(4) by (simp add: is_table_def Let_def)
  show ?thesis unfolding walk_post_def
  proof (intro conjI)
    show "tables (Suc l) ?M pt \<subseteq> tables (Suc l) ?M' pt" unfolding tc ts using p(5) by blast
    show "tables (Suc l) ?M' pt \<subseteq> tables (Suc l) ?M pt \<union> (avail_pages s - avail_pages s')" unfolding tc ts using p(6) by blast
    show "\<forall>x. outside x (tables (Suc l) ?M pt \<union> avail_pages s) \<longrightarrow> ?M' x = ?M x"
      using p(7) unfolding ts by (auto simp: outside_def)
    show "case r of None \<Rightarrow> avail_pages s' = {} | Some x \<Rightarrow> slot (Suc l) ?M' pt va stop = Some x"
      using p(9) unfolding sl .
    show "\<forall>v. hw_walk (Suc l) ?M' pt v = hw_walk (Suc l) ?M pt v" using hw by blast
  qed (rule p(1) p(2) p(3) wf_change [OF sc])+
qed

text \<open>The walk links a fresh table and continues there.\<close>

lemma walk_post_fresh:
  assumes s: "kmem_inv s" "wf_pt (Suc l) (pmem s) pt" "tables (Suc l) (pmem s) pt \<subseteq> held s" "Suc l \<noteq> stop"
    and inv: "ent (pmem s) pt (PX (Suc l) va) AND PTE_V = 0"
    and k: "kalloc s = Ok (next, s1)" "next \<noteq> 0"
  defines "s2 \<equiv> set_pte (pte_addr pt (Suc l) va) (PA2PTE next OR PTE_V) (zero_page next s1)"
  assumes ih: "walk_post l next va stop s2 r s'"
  shows "walk_post (Suc l) pt va stop s r s'"
proof -
  let ?M = "pmem s" and ?M2 = "pmem s2" and ?M' = "pmem s'" and ?i = "PX (Suc l) va" and ?e = "PA2PTE next OR PTE_V"
  let ?o = "others l ?M pt ?i"
  have i: "?i < 512" by simp
  have pth: "pt \<in> held s" using s(3) by auto
  note f = fresh_table [OF s(1) pth i k, folded s2_def]
  note parts = wf_pt_parts [OF s(2) i] and p = walk_postD [OF ih]
  have nt: "\<not> is_table (ent ?M pt ?i)" using inv by (simp add: is_table_def)
  have sub: "sub l ?M pt ?i = {}" using nt by (simp add: sub_def)
  have h: "insert pt ?o \<subseteq> held s" using s(3) unfolding tables_split [OF i, of l ?M pt] sub by blast
  have t2: "tables l ?M2 next = {next}" using empty_table [OF f(10,6)] by simp
  have m2: "tables l ?M2 next \<union> avail_pages s2 = avail_pages s" using t2 f(2,4) by auto
  have al: "q mod 4096 = 0" if "q \<in> insert pt ?o \<union> avail_pages s" for q
  proof -
    have "q \<in> held s \<or> q \<in> avail_pages s" using that h by blast
    then show ?thesis using held_aligned avail_aligned [OF s(1)] by metis
  qed
  have dh: "insert pt ?o \<inter> avail_pages s = {}" using h by (auto simp: held_def)
  have fr: "?M' x = ?M2 x" if "outside x (avail_pages s)" for x using p(7) [of x] that unfolding m2 by blast
  have ag: "agree ?M2 ?M' (insert pt ?o)" by (rule agree_outside [OF fr al dh])
  have e': "ent ?M' pt j = (if j = ?i then ?e else ent ?M pt j)" if "j < 512" for j
    using agree_ent [OF ag _ that, of pt] f(9) [OF that] by simp
  have ag2: "agree ?M ?M' ?o"
  proof (rule agree_outside)
    show "?M' x = ?M x" if "outside x (insert pt (avail_pages s))" for x
      using fr [of x] f(8) [of x] that by simp
    show "q mod 4096 = 0" if "q \<in> ?o \<union> insert pt (avail_pages s)" for q
      by (rule al) (use that in blast)
    show "?o \<inter> insert pt (avail_pages s) = {}" using dh parts(2) by blast
  qed
  have tgt: "PTE2PA ?e = next" "is_table ?e" using link_target f(6,7) link_is_table by auto
  have sub': "sub l ?M' pt ?i = tables l ?M' next" using e' [OF i] tgt by (simp add: sub_def)
  have tn: "tables l ?M' next \<subseteq> avail_pages s - avail_pages s'" "next \<in> tables l ?M' next"
    using p(3,5,6) f(2,4) unfolding t2 by auto
  have sc: "subtree_change l ?M ?M' pt ?i" unfolding subtree_change_def
    using s(2) e' p(4) ag2 sub' tgt tn dh by auto
  note tc = tables_change [OF sc, unfolded sub'] and ts = tables_split [OF i, of l ?M pt, unfolded sub]
  have none: "hw_walk l ?M' next v = None" for v using p(8) empty_table [OF f(10,6)] by simp
  have hw: "hw_walk (Suc l) ?M' pt v = hw_walk (Suc l) ?M pt v" for v
    using hw_change [OF sc, of v] e' [OF i] tgt none inv by (auto simp: Let_def)
  have sl: "slot (Suc l) ?M' pt va stop = slot l ?M' next va stop"
    using e' [OF i] tgt s(4) by (simp add: is_table_def Let_def)
  show ?thesis unfolding walk_post_def
  proof (intro conjI)
    show "tables (Suc l) ?M pt \<subseteq> tables (Suc l) ?M' pt" unfolding tc ts by blast
    show "tables (Suc l) ?M' pt \<subseteq> tables (Suc l) ?M pt \<union> (avail_pages s - avail_pages s')" unfolding tc ts using tn by blast
    show "\<forall>x. outside x (tables (Suc l) ?M pt \<union> avail_pages s) \<longrightarrow> ?M' x = ?M x"
      using fr f(8) unfolding ts by (auto simp: outside_def)
    show "case r of None \<Rightarrow> avail_pages s' = {} | Some x \<Rightarrow> slot (Suc l) ?M' pt va stop = Some x"
      using p(9) unfolding sl .
    show "\<forall>v. hw_walk (Suc l) ?M' pt v = hw_walk (Suc l) ?M pt v" using hw by blast
    show "managed_pages s' = managed_pages s" "avail_pages s' \<subseteq> avail_pages s" using p(2,3) f(2,3) by auto
  qed (rule p(1) wf_change [OF sc])+
qed

lemma walk_loop_alloc:
  "kmem_inv s \<Longrightarrow> wf_pt l (pmem s) pt \<Longrightarrow> tables l (pmem s) pt \<subseteq> held s \<Longrightarrow>
   \<exists>r s'. walk_loop l pt va True stop s = Ok (r, s') \<and> walk_post l pt va stop s r s'"
proof (induction l arbitrary: pt s)
  case 0
  then show ?case using walk_post_refl [of s 0 pt va stop "Some (pte_addr pt 0 va, 0)"] by simp
next
  case (Suc l)
  let ?i = "PX (Suc l) va"
  let ?e = "ent (pmem s) pt ?i"
  have i: "?i < 512" by simp
  consider "Suc l = stop \<or> ?e AND PTE_V \<noteq> 0 \<and> ?e AND RWX \<noteq> 0" | "Suc l \<noteq> stop" "is_table ?e" | "Suc l \<noteq> stop" "?e AND PTE_V = 0"
    by (auto simp: is_table_def)
  then show ?case
  proof cases
    case 1
    then show ?thesis using walk_post_refl [OF Suc.prems(1,2), of va stop "Some (pte_addr pt (Suc l) va, Suc l)"] by (auto simp: Let_def)
  next
    case 2
    have "tables l (pmem s) (PTE2PA ?e) \<subseteq> held s" using Suc.prems(3) sub_subset [OF i, of l "pmem s" pt] 2 by (auto simp: sub_def)
    from Suc.IH [OF Suc.prems(1) wf_pt_parts(5) [OF Suc.prems(2) i 2(2)] this] obtain r s' where
      r: "walk_loop l (PTE2PA ?e) va True stop s = Ok (r, s')" "walk_post l (PTE2PA ?e) va stop s r s'" by blast
    from walk_post_table [OF Suc.prems 2 r(2)] r(1) 2 show ?thesis by (auto simp: is_table_def Let_def)
  next
    case 3
    obtain next_pt s1 where k: "kalloc s = Ok (next_pt, s1)" using kpages.alloc_total [OF Suc.prems(1)] by blast
    show ?thesis
    proof (cases "next_pt = 0")
      case True
      then have "s1 = s" "avail_pages s = {}" using kpages.alloc_none [OF Suc.prems(1)] k by auto
      then show ?thesis using walk_post_refl [OF Suc.prems(1,2), of va stop None] 3 k True by (simp add: Let_def)
    next
      case False
      let ?s2 = "set_pte (pte_addr pt (Suc l) va) (PA2PTE next_pt OR PTE_V) (zero_page next_pt s1)"
      have "pt \<in> held s" using Suc.prems(3) by auto
      note f = fresh_table [OF Suc.prems(1) this i k False]
      have e: "tables l (pmem ?s2) next_pt = {next_pt}" "wf_pt l (pmem ?s2) next_pt"
        using empty_table [OF f(10) f(6)] by blast+
      from Suc.IH [OF f(1) e(2)] e(1) f(5) obtain r s' where
        r: "walk_loop l next_pt va True stop ?s2 = Ok (r, s')" "walk_post l next_pt va stop ?s2 r s'" by auto
      from walk_post_fresh [OF Suc.prems 3 k False r(2)] r(1) 3 k False show ?thesis by (simp add: Let_def)
    qed
  qed
qed

end
