(* ===== verification/Vm_Map.thy ===== *)
theory Vm_Map
  imports Vm_Walk
begin

text \<open>
  Address translation: \<open>translate\<close> is what the hardware makes of a virtual address, \<open>walkaddr\<close>
  computes it for user pages, and \<open>mappages\<close> changes it exactly on the range it is given.
\<close>

unbundle bit_operations_syntax

section \<open>Pages and paths\<close>

definition translate :: "mem \<Rightarrow> nat \<Rightarrow> nat \<Rightarrow> (nat \<times> u64) option" where
  "translate M pt va =
     (case hw_walk 2 M pt va of None \<Rightarrow> None
      | Some (_, level, e) \<Rightarrow> Some (add64 (PTE2PA e) (va mod level_page_size level), PTE_FLAGS e))"

definition pt_inv :: "kmem \<Rightarrow> nat \<Rightarrow> bool" where
  "pt_inv s pt \<longleftrightarrow> kmem_inv s \<and> wf_pt 2 (pmem s) pt \<and> tables 2 (pmem s) pt \<subseteq> held s"

lemma PX_digit: "PX i va = va div 4096 div 512 ^ i mod 512"
proof -
  have "(2 :: nat) ^ (12 + 9 * i) = 4096 * 512 ^ i" by (simp add: power_add power_mult)
  then show ?thesis by (simp only: PX_eq div_mult2_eq)
qed

lemma next_digit: "(x :: nat) = y \<longleftrightarrow> x mod 512 = y mod 512 \<and> x div 512 = y div 512"
  by (metis div_mult_mod_eq)

lemma three_digits:
  assumes "(x :: nat) < 512 ^ 3" "y < 512 ^ 3" "lv \<le> 2"
  shows "(\<forall>i. lv \<le> i \<and> i \<le> 2 \<longrightarrow> x div 512 ^ i mod 512 = y div 512 ^ i mod 512) \<longleftrightarrow> x div 512 ^ lv = y div 512 ^ lv"
proof -
  have b: "x div 262144 mod 512 = x div 262144" "y div 262144 mod 512 = y div 262144"
    using assms(1,2) by (simp_all add: div_less_iff_less_mult)
  have dd: "z div 512 div 512 = z div 262144" for z :: nat by (simp only: div_mult2_eq [symmetric]) simp
  have all2: "(\<forall>i. lv \<le> i \<and> i \<le> 2 \<longrightarrow> P i) \<longleftrightarrow> (lv \<le> 0 \<longrightarrow> P 0) \<and> (lv \<le> 1 \<longrightarrow> P 1) \<and> (lv \<le> 2 \<longrightarrow> P 2)" for P :: "nat \<Rightarrow> bool"
  proof -
    have "i = 0 \<or> i = 1 \<or> i = 2" if "i \<le> 2" for i :: nat using that by linarith
    then show ?thesis by (metis le_refl one_le_numeral zero_le)
  qed
  consider "lv = 0" | "lv = 1" | "lv = 2" using assms(3) by linarith
  then show ?thesis
  proof cases
    case 1
    then show ?thesis unfolding all2 using b next_digit [of x y] next_digit [of "x div 512" "y div 512"] by (auto simp: dd)
  next
    case 2
    then show ?thesis unfolding all2 using b next_digit [of "x div 512" "y div 512"] by (auto simp: dd)
  next
    case 3
    then show ?thesis unfolding all2 using b by auto
  qed
qed

lemma same_path_iff:
  assumes "va < 2 ^ 39" "v < 2 ^ 39" "lv \<le> 2"
  shows "same_path lv 2 va v \<longleftrightarrow> v div level_page_size lv = va div level_page_size lv"
proof -
  have "va div 4096 < 512 ^ 3" "v div 4096 < 512 ^ 3" using assms by (simp_all add: div_less_iff_less_mult)
  then show ?thesis unfolding same_path_def PX_digit level_page_size_def
    using three_digits [of "v div 4096" "va div 4096" lv] assms(3)
    by (simp add: power_mult mult.commute [of _ 9] div_mult2_eq)
qed

section \<open>Looking up\<close>

lemma walk_with_level_lookup:
  "va < MAXVA \<Longrightarrow> walk_with_level pt va False s = Ok (slot 2 (pmem s) pt va 0, s)"
  by (simp add: walk_with_level_def walk_to_level_def walk_loop_lookup)

lemma PTE_FLAGS_and: "f AND 0x3FF = f \<Longrightarrow> PTE_FLAGS e AND f = e AND f"
  unfolding PTE_FLAGS_def by (metis and.assoc and.commute)

lemma walkaddr_translate:
  "walkaddr pt va s =
     Ok (if va < MAXVA then
           (case translate (pmem s) pt va of None \<Rightarrow> 0 | Some (pa, fl) \<Rightarrow> if fl AND PTE_U = 0 then 0 else pa)
         else 0)"
proof (cases "va < MAXVA")
  case True
  have u: "PTE_FLAGS e AND PTE_U = e AND PTE_U" for e by (rule PTE_FLAGS_and) (simp add: PTE_U_def)
  show ?thesis using True
    by (auto simp: walkaddr_def walk_with_level_lookup translate_def hw_walk_slot [of 2] Let_def u split: option.splits)
qed (simp add: walkaddr_def)

section \<open>Mapping pages\<close>

lemma leaf_entry:
  assumes "perm AND 0x3FF = perm" "pa mod 4096 = 0" "pa < 2 ^ 56"
  shows "PTE2PA (PA2PTE pa OR perm OR PTE_V) = pa" "PTE_FLAGS (PA2PTE pa OR perm OR PTE_V) = perm OR PTE_V"
    "(PA2PTE pa OR perm OR PTE_V) AND PTE_V \<noteq> 0"
proof -
  have m: "(perm OR PTE_V) AND 0x3FF = perm OR PTE_V"
    using assms(1) PTE_V_mask by (simp add: bit.conj_disj_distrib2)
  show "PTE2PA (PA2PTE pa OR perm OR PTE_V) = pa" using PTE2PA_PA2PTE [OF m assms(2,3)] by (simp add: or.assoc)
  show fl: "PTE_FLAGS (PA2PTE pa OR perm OR PTE_V) = perm OR PTE_V" using PTE_FLAGS_PA2PTE [OF m] by (simp add: or.assoc)
  have "(PA2PTE pa OR perm OR PTE_V) AND PTE_V = PTE_V" by (simp add: bit.conj_disj_distrib2 or.assoc [symmetric])
  then show "(PA2PTE pa OR perm OR PTE_V) AND PTE_V \<noteq> 0" by (simp add: PTE_V_def)
qed

lemma slot_above: "slot l M pt va stop = Some (a, lv) \<Longrightarrow> stop \<le> l \<Longrightarrow> lv \<noteq> stop \<Longrightarrow> ld64 M a AND PTE_V \<noteq> 0"
proof (induction l arbitrary: pt)
  case (Suc l)
  then show ?case by (fastforce simp: Let_def le_Suc_eq split: if_splits)
qed simp

text \<open>One iteration: the walk, then the entry.\<close>

definition maps_only :: "kmem \<Rightarrow> kmem \<Rightarrow> nat \<Rightarrow> bool" where
  "maps_only s s' pt \<longleftrightarrow> managed_pages s' = managed_pages s \<and> avail_pages s' \<subseteq> avail_pages s \<and>
     tables 2 (pmem s) pt \<subseteq> tables 2 (pmem s') pt \<and>
     tables 2 (pmem s') pt \<subseteq> tables 2 (pmem s) pt \<union> (avail_pages s - avail_pages s') \<and>
     (\<forall>x. outside x (tables 2 (pmem s) pt \<union> avail_pages s) \<longrightarrow> pmem s' x = pmem s x)"

lemma maps_only_refl [simp]: "maps_only s s pt"
  by (simp add: maps_only_def)

lemma maps_only_trans:
  assumes 1: "maps_only s s' pt" and 2: "maps_only s' s'' pt"
  shows "maps_only s s'' pt"
proof -
  note m = 1 [unfolded maps_only_def] 2 [unfolded maps_only_def]
  have "tables 2 (pmem s') pt \<union> avail_pages s' \<subseteq> tables 2 (pmem s) pt \<union> avail_pages s" using m by blast
  then have "pmem s'' x = pmem s x" if "outside x (tables 2 (pmem s) pt \<union> avail_pages s)" for x
    using m outside_mono [OF that] that by metis
  moreover have "tables 2 (pmem s'') pt \<subseteq> tables 2 (pmem s) pt \<union> (avail_pages s - avail_pages s'')" using m by blast
  ultimately show ?thesis unfolding maps_only_def using m by (intro conjI allI impI) (blast | simp)+
qed

lemma walk_alloc_step:
  assumes "pt_inv s pt" "a < MAXVA" "hw_walk 2 (pmem s) pt a = None"
  shows "\<exists>r s'. walk_to_level pt a True 0 s = Ok (r, s') \<and> pt_inv s' pt \<and> maps_only s s' pt \<and>
    (\<forall>v. hw_walk 2 (pmem s') pt v = hw_walk 2 (pmem s) pt v) \<and>
    (case r of None \<Rightarrow> avail_pages s' = {}
     | Some (pte, _) \<Rightarrow> slot 2 (pmem s') pt a 0 = Some (pte, 0) \<and> get_pte s' pte AND PTE_V = 0)"
proof -
  from walk_loop_alloc [of s 2 pt a 0] assms(1) [unfolded pt_inv_def] obtain r s' where
    r: "walk_loop 2 pt a True 0 s = Ok (r, s')" and p: "walk_post 2 pt a 0 s r s'" by (elim conjE) auto
  note p = walk_postD [OF p]
  have "tables 2 (pmem s') pt \<subseteq> held s'" using p(2,3,6) assms(1) kpages.avail_managed unfolding pt_inv_def held_def by blast
  then have "pt_inv s' pt" using p(1,4) by (simp add: pt_inv_def)
  moreover have "maps_only s s' pt" unfolding maps_only_def using p(2,3,5,6,7) by simp
  moreover have "case r of None \<Rightarrow> avail_pages s' = {}
     | Some (pte, _) \<Rightarrow> slot 2 (pmem s') pt a 0 = Some (pte, 0) \<and> get_pte s' pte AND PTE_V = 0"
  proof (cases r)
    case None
    then show ?thesis using p(9) by simp
  next
    case (Some x)
    then obtain pte lv where x: "x = (pte, lv)" "slot 2 (pmem s') pt a 0 = Some (pte, lv)" using p(9) by (cases x) simp
    have "hw_walk 2 (pmem s') pt a = None" using p(8) assms(3) by simp
    then have "get_pte s' pte AND PTE_V = 0" using x by (simp add: hw_walk_slot [of 2] split: if_splits)
    then show ?thesis using Some x slot_above [OF x(2)] by auto
  qed
  ultimately show ?thesis using r p(8) assms(2) by (simp add: walk_to_level_def)
qed

lemma set_leaf:
  assumes "pt_inv s pt" "slot 2 (pmem s) pt a stop = Some (pte, lv)" "lv = 0 \<or> \<not> is_table e"
    "lv = 0 \<or> \<not> is_table (get_pte s pte)"
  shows "pt_inv (set_pte pte e s) pt" "maps_only s (set_pte pte e s) pt"
    "hw_walk 2 (pmem (set_pte pte e s)) pt v =
      (if same_path lv 2 a v then (if e AND PTE_V = 0 then None else Some (pte, lv, e)) else hw_walk 2 (pmem s) pt v)"
proof -
  note inv = assms(1) [unfolded pt_inv_def]
  obtain q where q: "q \<in> tables 2 (pmem s) pt" "pte = q + 8 * PX lv a" using slot_table [OF assms(2)] by blast
  have qh: "q \<in> held s" using q inv by blast
  have "PX lv a < 512" "kmem_inv s" using inv by simp_all
  note h = set_pte_held [OF this(2) qh this(1), folded q(2)]
  have w: "wf_pt 2 (pmem (set_pte pte e s)) pt \<and> tables 2 (pmem (set_pte pte e s)) pt = tables 2 (pmem s) pt \<and>
    (\<forall>v. hw_walk 2 (pmem (set_pte pte e s)) pt v =
      (if same_path lv 2 a v then (if e AND PTE_V = 0 then None else Some (pte, lv, e)) else hw_walk 2 (pmem s) pt v))"
    using slot_write [of 2 "pmem s" pt a stop pte lv e] assms(2-4) inv unfolding set_pte_def by auto
  then show "hw_walk 2 (pmem (set_pte pte e s)) pt v =
      (if same_path lv 2 a v then (if e AND PTE_V = 0 then None else Some (pte, lv, e)) else hw_walk 2 (pmem s) pt v)" by blast
  show "pt_inv (set_pte pte e s) pt" using w inv h(1-3) unfolding pt_inv_def held_def by simp
  show "maps_only s (set_pte pte e s) pt"
    unfolding maps_only_def using w h q(1) by (auto simp: outside_def)
qed

lemma translate_page:
  assumes "hw_walk 2 M' pt v = (if same_path 0 2 a v then Some (pte, 0, PA2PTE pa OR perm OR PTE_V) else hw_walk 2 M pt v)"
    and "perm AND 0x3FF = perm" "pa mod 4096 = 0" "pa + 4096 \<le> 2 ^ 56" "a mod 4096 = 0" "a < MAXVA" "v < MAXVA"
  shows "translate M' pt v =
    (if a \<le> v \<and> v < a + 4096 then Some (pa + (v - a), perm OR PTE_V) else translate M pt v)"
proof -
  obtain q where q: "a = 4096 * q" using assms(5) by auto
  have iff: "same_path 0 2 a v \<longleftrightarrow> a \<le> v \<and> v < a + 4096"
  proof -
    have "same_path 0 2 a v \<longleftrightarrow> v div 4096 = q" using same_path_iff [of a v 0] assms(6,7) q by (simp add: level_page_size_def)
    also have "\<dots> \<longleftrightarrow> a \<le> v \<and> v < a + 4096"
    proof
      assume "v div 4096 = q"
      then have "v = 4096 * q + v mod 4096" by (metis mult_div_mod_eq)
      moreover have "v mod 4096 < 4096" by simp
      ultimately show "a \<le> v \<and> v < a + 4096" unfolding q by linarith
    next
      assume "a \<le> v \<and> v < a + 4096"
      then show "v div 4096 = q" unfolding q by (intro div_nat_eqI) simp_all
    qed
    finally show ?thesis .
  qed
  have off: "v mod 4096 = v - a" if r: "a \<le> v" "v < a + 4096"
  proof -
    obtain d where "v = a + d" using le_Suc_ex [OF r(1)] by blast
    then show ?thesis using r(2) by (simp add: q)
  qed
  then show ?thesis
    using assms(1) iff leaf_entry [OF assms(2,3)] assms(4) unfolding translate_def
    by (auto simp: level_page_size_def add64_small split: option.splits)
qed

text \<open>The range as far as it was mapped: all of it, or up to the page for which memory ran out.\<close>

definition map_result :: "nat \<Rightarrow> nat \<Rightarrow> nat \<Rightarrow> nat \<Rightarrow> pte \<Rightarrow> kmem \<Rightarrow> int \<Rightarrow> kmem \<Rightarrow> bool" where
  "map_result n pt a pa perm s r s' \<longleftrightarrow> pt_inv s' pt \<and> maps_only s s' pt \<and>
     (\<exists>k. (r = 0 \<and> k = n \<or> r = -1 \<and> k < n \<and> avail_pages s' = {}) \<and>
       (\<forall>v < MAXVA. translate (pmem s') pt v =
         (if a \<le> v \<and> v < a + 4096 * k then Some (pa + (v - a), perm OR PTE_V) else translate (pmem s) pt v)))"

lemma map_result_Suc:
  assumes "pt_inv s1 pt" "maps_only s s1 pt" "map_result n pt (a + 4096) (pa + 4096) perm s1 r s'"
    and "\<And>v. v < MAXVA \<Longrightarrow> translate (pmem s1) pt v =
      (if a \<le> v \<and> v < a + 4096 then Some (pa + (v - a), perm OR PTE_V) else translate (pmem s) pt v)"
  shows "map_result (Suc n) pt a pa perm s r s'"
proof -
  note m = assms(3) [unfolded map_result_def]
  from m obtain k where k: "r = 0 \<and> k = n \<or> r = -1 \<and> k < n \<and> avail_pages s' = {}"
    "\<forall>v < MAXVA. translate (pmem s') pt v =
       (if a + 4096 \<le> v \<and> v < a + 4096 + 4096 * k then Some (pa + 4096 + (v - (a + 4096)), perm OR PTE_V)
        else translate (pmem s1) pt v)" by blast
  have "translate (pmem s') pt v =
       (if a \<le> v \<and> v < a + 4096 * Suc k then Some (pa + (v - a), perm OR PTE_V) else translate (pmem s) pt v)"
    if v: "v < MAXVA" for v
    using k(2) [rule_format, OF v] assms(4) [OF v] by auto
  then show ?thesis unfolding map_result_def using m maps_only_trans [OF assms(2)] k(1)
    by (intro conjI exI [of _ "Suc k"]) auto
qed

lemma map_loop_pages:
  assumes "pt_inv s pt" "a mod 4096 = 0" "a + 4096 * n \<le> MAXVA" "pa mod 4096 = 0" "pa + 4096 * n \<le> 2 ^ 56"
    "perm AND 0x3FF = perm" "\<And>v. a \<le> v \<Longrightarrow> v < a + 4096 * n \<Longrightarrow> translate (pmem s) pt v = None"
  shows "\<exists>r s'. map_loop n PGSIZE 0 pt a pa perm s = Ok (r, s') \<and> map_result n pt a pa perm s r s'"
  using assms
proof (induction n arbitrary: s a pa)
  case 0
  then show ?case by (auto simp: map_result_def)
next
  case (Suc n)
  have a: "a < MAXVA" "a + 4096 \<le> MAXVA" using Suc.prems(3) by simp_all
  have "translate (pmem s) pt a = None" using Suc.prems(7) by simp
  then have hw: "hw_walk 2 (pmem s) pt a = None" by (auto simp: translate_def split: option.splits)
  obtain w s1 where w: "walk_to_level pt a True 0 s = Ok (w, s1)" "pt_inv s1 pt" "maps_only s s1 pt"
    "\<forall>v. hw_walk 2 (pmem s1) pt v = hw_walk 2 (pmem s) pt v"
    "case w of None \<Rightarrow> avail_pages s1 = {}
     | Some (pte, _) \<Rightarrow> slot 2 (pmem s1) pt a 0 = Some (pte, 0) \<and> get_pte s1 pte AND PTE_V = 0"
    using walk_alloc_step [OF Suc.prems(1) a(1) hw] by blast
  have tr: "translate (pmem s1) pt v = translate (pmem s) pt v" for v using w(4) by (simp add: translate_def)
  show ?case
  proof (cases w)
    case None
    then have "map_result (Suc n) pt a pa perm s (-1) s1"
      unfolding map_result_def using w tr by (intro conjI exI [of _ 0]) auto
    then show ?thesis using w(1) None by simp
  next
    case (Some x)
    then obtain pte lv where x: "w = Some (pte, lv)" "slot 2 (pmem s1) pt a 0 = Some (pte, 0)" "get_pte s1 pte AND PTE_V = 0"
      using w(5) by (cases x) auto
    let ?e = "PA2PTE pa OR perm OR PTE_V"
    let ?s2 = "set_pte pte ?e s1"
    note f = set_leaf [OF w(2) x(2), of ?e]
    have pa: "pa < 2 ^ 56" "pa + 4096 \<le> 2 ^ 56" using Suc.prems(5) by simp_all
    have "hw_walk 2 (pmem ?s2) pt v = (if same_path 0 2 a v then Some (pte, 0, ?e) else hw_walk 2 (pmem s) pt v)" for v
      using f(3) [of v] leaf_entry(3) [OF Suc.prems(6,4) pa(1)] w(4) by simp
    from translate_page [OF this Suc.prems(6,4) pa(2) Suc.prems(2) a(1)]
    have t2: "translate (pmem ?s2) pt v =
      (if a \<le> v \<and> v < a + 4096 then Some (pa + (v - a), perm OR PTE_V) else translate (pmem s) pt v)" if "v < MAXVA" for v
      using that by blast
    have "translate (pmem ?s2) pt v = None" if "a + 4096 \<le> v" "v < a + 4096 + 4096 * n" for v
      using t2 [of v] that Suc.prems(3) Suc.prems(7) [of v] by simp
    then obtain r s' where r: "map_loop n PGSIZE 0 pt (a + 4096) (pa + 4096) perm ?s2 = Ok (r, s')"
      "map_result n pt (a + 4096) (pa + 4096) perm ?s2 r s'"
      using Suc.IH [of ?s2 "a + 4096" "pa + 4096"] f(1) Suc.prems by auto
    have inc: "add64 a PGSIZE = a + 4096" "add64 pa PGSIZE = pa + 4096" using a pa by (simp_all add: add64_small)
    have "map_result (Suc n) pt a pa perm s r s'"
      by (rule map_result_Suc [OF _ maps_only_trans [OF w(3)] r(2) t2]) (use f in simp_all)
    then show ?thesis using r(1) w(1) x inc by simp
  qed
qed

end
