(* ===== verification/Vm_Collapse.thy ===== *)
theory Vm_Collapse
  imports Vm_Map
begin

text \<open>
  Collapsing 512 small pages into a huge page (\<open>vm_try_collapse\<close>): the pieces of the routine, the
  invariant of a user address space, and the memory a process sees through its page table.
\<close>

unbundle bit_operations_syntax

section \<open>User address spaces\<close>

definition frames :: "nat \<Rightarrow> pte \<Rightarrow> nat set" where
  "frames lv e = (\<lambda>i. PTE2PA e + 4096 * i) ` {..<512 ^ lv}"

definition user_leaf :: "mem \<Rightarrow> nat \<Rightarrow> nat \<Rightarrow> nat \<Rightarrow> pte \<Rightarrow> bool" where
  "user_leaf M pt v lv e \<longleftrightarrow> v < MAXVA \<and> (\<exists>a. hw_walk 2 M pt v = Some (a, lv, e)) \<and> e AND PTE_U \<noteq> 0"

text \<open>
  User pages are readable, writable or executable, their frames are allocated and none of them is a
  page-table page, and different pages have different frames.
\<close>

definition uspace_ok :: "kmem \<Rightarrow> nat \<Rightarrow> bool" where
  "uspace_ok s pt \<longleftrightarrow> pt_inv s pt \<and>
     (\<forall>v lv e. user_leaf (pmem s) pt v lv e \<longrightarrow> e AND RWX \<noteq> 0 \<and> frames lv e \<subseteq> held s - tables 2 (pmem s) pt) \<and>
     (\<forall>v lv e v' lv' e'. user_leaf (pmem s) pt v lv e \<longrightarrow> user_leaf (pmem s) pt v' lv' e' \<longrightarrow>
       \<not> same_path lv 2 v v' \<longrightarrow> frames lv e \<inter> frames lv' e' = {})"

definition user_byte :: "mem \<Rightarrow> nat \<Rightarrow> nat \<Rightarrow> (u8 \<times> u64) option" where
  "user_byte M pt v =
     (case translate M pt v of None \<Rightarrow> None
      | Some (pa, fl) \<Rightarrow> if fl AND PTE_U = 0 then None else Some (M pa, fl))"

section \<open>Huge blocks\<close>

definition hpages :: "nat \<Rightarrow> nat set" where
  "hpages p = (\<lambda>i. p + 4096 * i) ` {..<512}"

lemma pg_blk: "pg ` blk i 9 = hpages (pg i)"
proof
  show "pg ` blk i 9 \<subseteq> hpages (pg i)"
  proof (intro subsetI, elim imageE)
    fix x j assume j: "j \<in> blk i 9" "x = pg j"
    then have "x = pg i + 4096 * (j - i)" "j - i < 512" by (auto simp: blk_def pg_def)
    then show "x \<in> hpages (pg i)" unfolding hpages_def by blast
  qed
  show "hpages (pg i) \<subseteq> pg ` blk i 9"
  proof (intro subsetI)
    fix x assume "x \<in> hpages (pg i)"
    then obtain k where "k < 512" "x = pg i + 4096 * k" by (auto simp: hpages_def)
    then have "x = pg (i + k)" "i + k \<in> blk i 9" by (auto simp: blk_def pg_def)
    then show "x \<in> pg ` blk i 9" by blast
  qed
qed

lemma kalloc_huge_step:
  assumes "kmem_inv s"
  shows "(\<exists>p s'. kalloc_huge s = Ok (p, s') \<and> kmem_inv s' \<and> managed_pages s' = managed_pages s \<and> p \<noteq> 0 \<and>
      hpages p \<subseteq> avail_pages s \<and> avail_pages s' = avail_pages s - hpages p \<and>
      (\<forall>x. outside x (avail_pages s) \<longrightarrow> pmem s' x = pmem s x) \<and> p mod 4096 = 0)
    \<or> kalloc_huge s = Ok (0, s)"
proof -
  have inv: "buddy_inv s" using assms by (simp add: kmem_inv_def)
  from kalloc_huge_ok [OF inv] show ?thesis
  proof (elim disjE exE conjE)
    fix i t assume k: "kalloc_huge s = Ok (pg i, t)" and post: "alloc_post 9 s i t"
    have inj: "inj pg" by (auto simp: inj_on_def pg_def)
    have "avail_pages t = avail_pages s - hpages (pg i)" "hpages (pg i) \<subseteq> avail_pages s"
      unfolding avail_pages_def pg_blk [symmetric] using post image_set_diff [OF inj]
      by (simp_all add: alloc_post_def image_mono)
    moreover have "kmem_inv t" "managed_pages t = managed_pages s" "\<forall>x. outside x (avail_pages s) \<longrightarrow> pmem t x = pmem s x"
      using post assms by (auto simp: alloc_post_def kmem_inv_def managed_pages_def avail_pages_def same_outside_def)
    moreover have "pg i \<noteq> 0" "pg i mod 4096 = 0" by (auto simp: pg_def)
    ultimately show ?thesis using k by (intro disjI1 exI [of _ "pg i"] exI [of _ t]) simp
  qed simp
qed

lemma in_hpages: "p mod 4096 = 0 \<Longrightarrow> x mod 4096 = 0 \<Longrightarrow> p \<le> x \<Longrightarrow> x < p + 4096 * 512 \<Longrightarrow> x \<in> hpages p"
proof -
  assume a: "p mod 4096 = 0" "x mod 4096 = 0" "p \<le> x" "x < p + 4096 * 512"
  then obtain i j where "p = 4096 * i" "x = 4096 * j" by (auto elim!: dvdE)
  then have "x = p + 4096 * (j - i)" "j - i < 512" using a by auto
  then show ?thesis by (auto simp: hpages_def)
qed

text \<open>An aligned page outside the block does not meet it.\<close>

lemma page_off_block:
  assumes "p mod 4096 = 0" "q mod 4096 = 0" "q \<notin> hpages p" "k < 4096"
  shows "q + k < p \<or> p + 4096 * 512 \<le> q + k"
proof (rule ccontr)
  assume "\<not> (q + k < p \<or> p + 4096 * 512 \<le> q + k)"
  then have r: "p \<le> q + k" "q + k < p + 4096 * 512" by auto
  have "p \<le> q"
  proof (rule ccontr)
    assume "\<not> p \<le> q"
    then have "q + 4096 \<le> p" using aligned_disjoint [OF assms(2,1)] by auto
    then show False using r assms(4) by linarith
  qed
  then show False using in_hpages [OF assms(1,2)] assms(3) r by simp
qed

section \<open>Copying\<close>

lemma copy_page_held:
  assumes "kmem_inv s" "d \<in> held s"
  shows "kmem_inv (copy_page d f s)" "avail_pages (copy_page d f s) = avail_pages s"
    "managed_pages (copy_page d f s) = managed_pages s"
proof -
  have "memmove (pmem s) d f PGSIZE x = pmem s x" if "outside x {d}" for x using that by (auto simp: memmove_eq)
  with kpages.put_held [OF assms(1), of d] assms(2) show
    "kmem_inv (copy_page d f s)" "avail_pages (copy_page d f s) = avail_pages s"
    by (auto simp: copy_page_def held_def)
  show "managed_pages (copy_page d f s) = managed_pages s" by (simp add: copy_page_def managed_pages_def)
qed

lemma collapse_copy_spec:
  assumes s: "kmem_inv s" "hpages new \<subseteq> held s" "new mod 4096 = 0" "l0 mod 4096 = 0" "l0 \<notin> hpages new"
    and f: "\<And>i. i < 512 \<Longrightarrow> PTE2PA (ent (pmem s) l0 i) \<notin> hpages new"
    and n: "n \<le> 512"
  shows "kmem_inv (collapse_copy n l0 new s) \<and> avail_pages (collapse_copy n l0 new s) = avail_pages s \<and>
    managed_pages (collapse_copy n l0 new s) = managed_pages s \<and>
    pmem (collapse_copy n l0 new s) = (\<lambda>x. if new \<le> x \<and> x < new + 4096 * n
      then pmem s (PTE2PA (ent (pmem s) l0 ((x - new) div 4096)) + (x - new) mod 4096) else pmem s x)"
  using n
proof (induction n)
  case 0
  then show ?case using s by (auto simp: fun_eq_iff)
next
  case (Suc n)
  let ?s = "collapse_copy n l0 new s" and ?M = "pmem s"
  have n: "n < 512" using Suc.prems by simp
  note ih = Suc.IH [OF less_imp_le [OF n]]
  let ?f = "\<lambda>i. PTE2PA (ent ?M l0 i)"
  have off: "pmem ?s (q + k) = ?M (q + k)" if "q mod 4096 = 0" "q \<notin> hpages new" "k < 4096" for q k
    using page_off_block [OF s(3) that] ih n by auto
  have e: "ent (pmem ?s) l0 n = ent ?M l0 n"
    by (rule agree_ent [of _ _ "{l0}"]) (use off [OF s(4,5)] n in \<open>auto simp: agree_def\<close>)
  have "new + 4096 * n \<in> hpages new" using n by (auto simp: hpages_def)
  then have "new + n * PGSIZE \<in> held s" using s(2) by (simp add: mult.commute subset_iff)
  then have d: "new + n * PGSIZE \<in> held ?s" using ih unfolding held_def by simp
  have st: "collapse_copy (Suc n) l0 new s = copy_page (new + n * PGSIZE) (?f n) ?s" using e by (simp add: Let_def)
  have "pmem (copy_page (new + n * PGSIZE) (?f n) ?s) x = (if new \<le> x \<and> x < new + 4096 * Suc n
      then ?M (?f ((x - new) div 4096) + (x - new) mod 4096) else ?M x)" for x
  proof (cases "new + n * 4096 \<le> x \<and> x < new + n * 4096 + 4096")
    case True
    define k where "k = x - (new + n * 4096)"
    then have k: "x = new + n * 4096 + k" "k < 4096" using True by auto
    then have "(x - new) div 4096 = n" "(x - new) mod 4096 = k" by simp_all
    then show ?thesis using k off [of "?f n" k] f [OF n] by (simp add: copy_page_def memmove_eq)
  next
    case False
    then have "pmem (copy_page (new + n * PGSIZE) (?f n) ?s) x = pmem ?s x" by (auto simp: copy_page_def memmove_eq)
    moreover have "x < new + 4096 * n \<longleftrightarrow> x < new + 4096 * Suc n" if "new \<le> x" using False that by auto
    ultimately show ?thesis using ih by auto
  qed
  then show ?case unfolding st using copy_page_held [of ?s, OF _ d] ih by (simp add: fun_eq_iff)
qed

section \<open>Freeing\<close>

lemma collapse_free_spec:
  assumes s: "kmem_inv s" "l0 \<in> held s"
    and f: "\<And>i. i < 512 \<Longrightarrow> PTE2PA (ent (pmem s) l0 i) \<in> held s - {l0}"
    "inj_on (\<lambda>i. PTE2PA (ent (pmem s) l0 i)) {..<512}"
    and n: "n \<le> 512"
  shows "\<exists>s'. collapse_free n l0 s = Ok s' \<and> kmem_inv s' \<and> managed_pages s' = managed_pages s \<and>
    avail_pages s' = avail_pages s \<union> (\<lambda>i. PTE2PA (ent (pmem s) l0 i)) ` {..<n} \<and>
    (\<forall>x. outside x (avail_pages s \<union> (\<lambda>i. PTE2PA (ent (pmem s) l0 i)) ` {..<n}) \<longrightarrow> pmem s' x = pmem s x)"
  using n
proof (induction n)
  case 0
  then show ?case using s by simp
next
  case (Suc n)
  let ?f = "\<lambda>i. PTE2PA (ent (pmem s) l0 i)"
  have n: "n < 512" using Suc.prems by simp
  from Suc.IH [OF less_imp_le [OF n]] obtain t where t: "collapse_free n l0 s = Ok t" "kmem_inv t" "managed_pages t = managed_pages s"
    "avail_pages t = avail_pages s \<union> ?f ` {..<n}" "\<forall>x. outside x (avail_pages s \<union> ?f ` {..<n}) \<longrightarrow> pmem t x = pmem s x" by (elim exE conjE) (rule that, assumption+)
  have al: "q mod 4096 = 0" if q: "q \<in> avail_pages s \<union> ?f ` {..<n}" for q
  proof (cases "q \<in> avail_pages s")
    case True
    then show ?thesis by (rule avail_aligned [OF s(1)])
  next
    case False
    then obtain i where "i < n" "q = ?f i" using q by blast
    then have "q \<in> held s" using f(1) [of i] n by auto
    then show ?thesis by (rule held_aligned)
  qed
  have "l0 \<noteq> ?f i" if "i < n" for i using f(1) [of i] that n by auto
  then have "l0 \<notin> avail_pages s \<union> ?f ` {..<n}" using s(2) by (auto simp: held_def)
  then have "agree (pmem s) (pmem t) {l0}"
    using t(5) outside_page [OF held_aligned [OF s(2)] al] by (auto simp: agree_def)
  then have e: "ent (pmem t) l0 n = ent (pmem s) l0 n" using agree_ent n by blast
  have "?f n \<noteq> ?f i" if "i < n" for i using inj_onD [OF f(2), of n i] that n by auto
  then have "?f n \<notin> ?f ` {..<n}" by blast
  then have fn: "?f n \<in> managed_pages t" "?f n \<notin> avail_pages t" using f(1) [OF n] t(3,4) by (auto simp: held_def)
  obtain u where u: "kfree (?f n) t = Ok u" using kpages.free_total [OF t(2) fn] by blast
  note fr = kpages.free_inv [OF t(2) fn u] and ff = kpages.free_frame [OF t(2) fn u]
  have "?f ` {..<Suc n} = insert (?f n) (?f ` {..<n})" by (simp add: lessThan_Suc)
  then show ?case using t(1) e u fr ff t(3,4,5) by (intro exI [of _ u]) auto
qed

end
