(* ===== verification/Vm_Correct.thy ===== *)
theory Vm_Correct
  imports Vm_Map Kalloc_Correct
begin

text \<open>
  What page-table lookups and \<open>mappages\<close> do to the translation the hardware performs.
\<close>

unbundle bit_operations_syntax

section \<open>A fresh address space\<close>

lemma uvmcreate_inv:
  assumes "kmem_inv s" "avail_pages s \<noteq> {}"
  shows "\<exists>pt s'. uvmcreate s = Ok (pt, s') \<and> pt \<noteq> 0 \<and> pt_inv s' pt \<and> (\<forall>v. translate (pmem s') pt v = None)
    \<and> avail_pages s' = avail_pages s - {pt} \<and> managed_pages s' = managed_pages s"
proof -
  obtain pt s1 where k: "kalloc s = Ok (pt, s1)" using kpages.alloc_total [OF assms(1)] by blast
  have pt: "pt \<noteq> 0" using kpages.alloc_none [OF assms(1)] k assms(2) by metis
  note a = kpages.alloc_inv [OF assms(1) k] kpages.alloc_some [OF assms(1) k pt]
  have h: "pt \<in> held s1" using a kpages.avail_managed [OF assms(1)] by (auto simp: held_def)
  have inv: "kmem_inv s1" using a by blast
  note z = zero_page_held [OF inv h]
  let ?s = "zero_page pt s1"
  have "ent (pmem ?s) pt i = 0" if "i < 512" for i
    by (rule ent_zero) (use that in \<open>simp_all add: zero_page_def memset_eq\<close>)
  from empty_table [OF this held_aligned [OF h]] have e: "tables 2 (pmem ?s) pt = {pt}" "wf_pt 2 (pmem ?s) pt"
    "\<forall>v. hw_walk 2 (pmem ?s) pt v = None" by blast+
  have "pt \<in> held ?s" using h z by (simp add: held_def)
  then have "pt_inv ?s pt" using z e by (simp add: pt_inv_def)
  moreover have "\<forall>v. translate (pmem ?s) pt v = None" using e by (simp add: translate_def)
  ultimately show ?thesis using k pt a z by (simp add: uvmcreate_def)
qed

lemma booted_avail: "avail_pages booted \<noteq> {}"
  by (auto simp: avail_pages_def booted_inv)

section \<open>Properties\<close>


text \<open>
  (C25) Mapping a range of unmapped pages: \<open>mappages\<close> does not panic, the page table stays a tree of
  allocated pages, and afterwards the hardware translates every address of the range to the
  corresponding physical address with the given permissions and every other address as before.
  If it fails it returns -1, memory is exhausted, and a prefix of the range is mapped. Only table
  pages and formerly free pages are written.
\<close>

theorem mappages_maps_range:
  assumes "pt_inv s pt" "0 < n" "va mod PGSIZE = 0" "va + PGSIZE * n \<le> MAXVA" "pa mod PGSIZE = 0"
    "pa + PGSIZE * n \<le> 2 ^ 56" "perm AND 0x3FF = perm"
    "\<And>v. va \<le> v \<Longrightarrow> v < va + PGSIZE * n \<Longrightarrow> translate (pmem s) pt v = None"
  shows "\<exists>r s' k. mappages pt va (PGSIZE * n) pa perm s = Ok (r, s') \<and> pt_inv s' pt \<and>
    (r = 0 \<and> k = n \<or> r = -1 \<and> k < n \<and> avail_pages s' = {}) \<and>
    (\<forall>v < MAXVA. translate (pmem s') pt v =
      (if va \<le> v \<and> v < va + PGSIZE * k then Some (pa + (v - va), perm OR PTE_V) else translate (pmem s) pt v)) \<and>
    (\<forall>x. outside x (tables 2 (pmem s) pt \<union> avail_pages s) \<longrightarrow> pmem s' x = pmem s x)"
proof -
  from map_loop_pages [of s pt va n pa perm] assms obtain r s' where
    r: "map_loop n PGSIZE 0 pt va pa perm s = Ok (r, s')" "map_result n pt va pa perm s r s'" by auto
  have "mappages pt va (PGSIZE * n) pa perm s = Ok (r, s')"
    using r(1) assms(2,3) by (simp add: mappages_def mappages_flags_def)
  moreover from r(2) obtain k where "pt_inv s' pt" "maps_only s s' pt" "r = 0 \<and> k = n \<or> r = -1 \<and> k < n \<and> avail_pages s' = {}"
    "\<forall>v < MAXVA. translate (pmem s') pt v =
      (if va \<le> v \<and> v < va + PGSIZE * k then Some (pa + (v - va), perm OR PTE_V) else translate (pmem s) pt v)"
    unfolding map_result_def by auto
  ultimately show ?thesis unfolding maps_only_def by (intro exI [of _ r] exI [of _ s'] exI [of _ k]) simp
qed

theorem mappages_maps_range_witness:
  "\<exists>pt s r s' k. uvmcreate booted = Ok (pt, s) \<and> mappages pt 0x1000 (PGSIZE * 2) 0x80001000 (PTE_R OR PTE_U) s = Ok (r, s') \<and>
    (r = 0 \<and> k = 2 \<or> r = -1 \<and> k < 2 \<and> avail_pages s' = {}) \<and>
    (\<forall>v < MAXVA. translate (pmem s') pt v =
      (if 0x1000 \<le> v \<and> v < 0x1000 + PGSIZE * k then Some (0x80001000 + (v - 0x1000), PTE_R OR PTE_U OR PTE_V)
       else translate (pmem s) pt v))"
proof -
  from uvmcreate_inv [OF booted_inv(4) booted_avail] obtain pt s where
    s: "uvmcreate booted = Ok (pt, s)" "pt_inv s pt" "\<forall>v. translate (pmem s) pt v = None" by blast
  have "(PTE_R OR PTE_U) AND 0x3FF = PTE_R OR PTE_U" by (simp add: pte_flag_defs)
  then have "\<exists>r s' k. mappages pt 0x1000 (PGSIZE * 2) 0x80001000 (PTE_R OR PTE_U) s = Ok (r, s') \<and> pt_inv s' pt \<and>
    (r = 0 \<and> k = 2 \<or> r = -1 \<and> k < 2 \<and> avail_pages s' = {}) \<and>
    (\<forall>v < MAXVA. translate (pmem s') pt v =
      (if 0x1000 \<le> v \<and> v < 0x1000 + PGSIZE * k then Some (0x80001000 + (v - 0x1000), (PTE_R OR PTE_U) OR PTE_V)
       else translate (pmem s) pt v)) \<and>
    (\<forall>x. outside x (tables 2 (pmem s) pt \<union> avail_pages s) \<longrightarrow> pmem s' x = pmem s x)"
    by (intro mappages_maps_range [OF s(2)]) (use s(3) in simp_all)
  from this [unfolded or.assoc] s(1) show ?thesis by (elim exE conjE) (intro exI conjI, assumption+)
qed

end
