(* ===== verification/Vm_Collapse_Correct.thy ===== *)
theory Vm_Collapse_Correct
  imports Vm_Collapse Vm_Correct
begin

text \<open>
  \<open>vm_try_collapse\<close> and \<open>khugepaged\<close>'s scan never change what a process sees in its memory.
\<close>

unbundle bit_operations_syntax

section \<open>The 512 entries of a level-0 table\<close>

lemma slot_hw:
  "slot l M pt va stop = Some (a, lv) \<Longrightarrow> same_path lv l va v \<Longrightarrow>
   hw_walk l M pt v =
     (if ld64 M a AND PTE_V = 0 then None
      else if lv = 0 \<or> ld64 M a AND RWX \<noteq> 0 then Some (a, lv, ld64 M a)
      else hw_walk (lv - 1) M (PTE2PA (ld64 M a)) v)"
proof (induction l arbitrary: pt)
  case 0
  then show ?case by (auto simp: Let_def)
next
  case (Suc l)
  let ?i = "PX (Suc l) va"
  show ?case
  proof (cases "Suc l = stop \<or> ent M pt ?i AND RWX \<noteq> 0")
    case True
    then have "a = pt + 8 * ?i" "lv = Suc l" using Suc.prems by (auto simp: Let_def split: if_splits)
    then show ?thesis using Suc.prems(2) by (auto simp: Let_def)
  next
    case False
    then have t: "is_table (ent M pt ?i)" and sl: "slot l M (PTE2PA (ent M pt ?i)) va stop = Some (a, lv)"
      using Suc.prems by (auto simp: Let_def is_table_def split: if_splits)
    have "same_path lv (Suc l) va v \<longleftrightarrow> PX (Suc l) v = ?i \<and> same_path lv l va v"
      by (rule same_path_Suc [OF slot_level [OF sl]])
    then show ?thesis using Suc.IH [OF sl] Suc.prems(2) t by (simp add: is_table_def Let_def)
  qed
qed

lemma slot_leaf_above: "slot l M pt va stop = Some (a, lv) \<Longrightarrow> stop \<le> l \<Longrightarrow> lv \<noteq> stop \<Longrightarrow> ld64 M a AND RWX \<noteq> 0"
proof (induction l arbitrary: pt)
  case (Suc l)
  then show ?case by (fastforce simp: Let_def le_Suc_eq split: if_splits)
qed simp

lemma huge_page_offsets:
  assumes "va mod HUGEPGSIZE = 0" "va + HUGEPGSIZE \<le> MAXVA" "v < MAXVA"
  shows "same_path 1 2 va v \<longleftrightarrow> va \<le> v \<and> v < va + HUGEPGSIZE"
    and "va \<le> v \<Longrightarrow> v < va + HUGEPGSIZE \<Longrightarrow> PX 0 v = (v - va) div 4096 \<and> v mod HUGEPGSIZE = v - va \<and> v mod 4096 = (v - va) mod 4096"
proof -
  obtain q where q: "va = 2097152 * q" using assms(1) by (auto elim!: dvdE)
  have "same_path 1 2 va v \<longleftrightarrow> v div 2097152 = q"
    using same_path_iff [of va v 1] assms(2,3) q by (simp add: level_page_size_def)
  also have "\<dots> \<longleftrightarrow> va \<le> v \<and> v < va + HUGEPGSIZE"
  proof
    assume "v div 2097152 = q"
    then have "v = 2097152 * q + v mod 2097152" by (metis mult_div_mod_eq)
    moreover have "v mod 2097152 < 2097152" by simp
    ultimately show "va \<le> v \<and> v < va + HUGEPGSIZE" unfolding q by simp
  next
    assume "va \<le> v \<and> v < va + HUGEPGSIZE"
    then show "v div 2097152 = q" unfolding q by (intro div_nat_eqI) simp_all
  qed
  finally show "same_path 1 2 va v \<longleftrightarrow> va \<le> v \<and> v < va + HUGEPGSIZE" .
  assume r: "va \<le> v" "v < va + HUGEPGSIZE"
  obtain d where d: "v = va + d" using le_Suc_ex [OF r(1)] by blast
  have "d < 2097152" using r d by simp
  have "v div 4096 = 512 * q + d div 4096" unfolding d q by simp
  moreover have "d div 4096 < 512" using \<open>d < 2097152\<close> by (simp add: div_less_iff_less_mult)
  ultimately have "PX 0 v = d div 4096" by (simp add: PX_digit)
  moreover have "v mod HUGEPGSIZE = d" using \<open>d < 2097152\<close> unfolding d q by simp
  moreover have "v mod 4096 = d mod 4096"
  proof -
    have "v = 4096 * (512 * q) + d" unfolding d q by simp
    then show ?thesis by (metis mod_mult_self4)
  qed
  ultimately show "PX 0 v = (v - va) div 4096 \<and> v mod HUGEPGSIZE = v - va \<and> v mod 4096 = (v - va) mod 4096" using d by simp
qed

lemma collapse_flags_iff:
  "collapse_flags n l0 s \<longleftrightarrow>
   (\<forall>i<n. ent (pmem s) l0 i AND PTE_V \<noteq> 0 \<and> ent (pmem s) l0 i AND PTE_U \<noteq> 0 \<and>
     PTE_FLAGS (ent (pmem s) l0 i) = PTE_FLAGS (ent (pmem s) l0 0))"
  by (induction n) (auto simp: Let_def less_Suc_eq)

text \<open>The facts about a level-1 entry that passes the checks of \<open>vm_try_collapse\<close>.\<close>

lemma collapsible_entries:
  assumes ok: "uspace_ok s pt" and va: "va mod HUGEPGSIZE = 0" "va + HUGEPGSIZE \<le> MAXVA"
    and sl: "slot 2 (pmem s) pt va 1 = Some (l1, 1)" and t: "is_table (get_pte s l1)"
    and fl: "collapse_flags 512 (PTE2PA (get_pte s l1)) s"
  defines "l0 \<equiv> PTE2PA (get_pte s l1)"
  shows "\<And>v. v < MAXVA \<Longrightarrow> va \<le> v \<Longrightarrow> v < va + HUGEPGSIZE \<Longrightarrow>
      user_leaf (pmem s) pt v 0 (ent (pmem s) l0 ((v - va) div 4096)) \<and>
      hw_walk 2 (pmem s) pt v = Some (pte_addr l0 0 v, 0, ent (pmem s) l0 ((v - va) div 4096))"
    "\<And>i. i < 512 \<Longrightarrow> PTE2PA (ent (pmem s) l0 i) \<in> held s - tables 2 (pmem s) pt"
    "inj_on (\<lambda>i. PTE2PA (ent (pmem s) l0 i)) {..<512}"
    "\<And>i v lv e. i < 512 \<Longrightarrow> user_leaf (pmem s) pt v lv e \<Longrightarrow> \<not> (va \<le> v \<and> v < va + HUGEPGSIZE) \<Longrightarrow>
      PTE2PA (ent (pmem s) l0 i) \<notin> frames lv e"
    "\<And>i. i < 512 \<Longrightarrow> ent (pmem s) l0 i AND RWX \<noteq> 0"
proof -
  let ?M = "pmem s"
  have e: "ent ?M l0 i AND PTE_V \<noteq> 0 \<and> ent ?M l0 i AND PTE_U \<noteq> 0" if "i < 512" for i
    using fl that unfolding collapse_flags_iff l0_def by blast
  have leaf: "user_leaf ?M pt v 0 (ent ?M l0 ((v - va) div 4096)) \<and>
      hw_walk 2 ?M pt v = Some (pte_addr l0 0 v, 0, ent ?M l0 ((v - va) div 4096))"
    if v: "v < MAXVA" "va \<le> v" "v < va + HUGEPGSIZE" for v
  proof -
    note h = huge_page_offsets [OF va v(1)]
    have px: "PX 0 v = (v - va) div 4096" using h(2) v by blast
    then have i: "(v - va) div 4096 < 512" using PX_less by metis
    have "hw_walk 2 ?M pt v = hw_walk 0 ?M l0 v"
      using slot_hw [OF sl, of v] h(1) v t unfolding l0_def is_table_def by simp
    then show ?thesis using e [OF i] px v(1) unfolding user_leaf_def by (simp add: Let_def)
  qed
  then show "\<And>v. v < MAXVA \<Longrightarrow> va \<le> v \<Longrightarrow> v < va + HUGEPGSIZE \<Longrightarrow>
      user_leaf ?M pt v 0 (ent ?M l0 ((v - va) div 4096)) \<and>
      hw_walk 2 ?M pt v = Some (pte_addr l0 0 v, 0, ent ?M l0 ((v - va) div 4096))" by blast
  have li: "user_leaf ?M pt (va + 4096 * i) 0 (ent ?M l0 i)" if "i < 512" for i
    using leaf [of "va + 4096 * i"] that va(2) by simp
  have fr: "frames 0 x = {PTE2PA x}" for x by (auto simp: frames_def)
  show "PTE2PA (ent ?M l0 i) \<in> held s - tables 2 ?M pt" if "i < 512" for i
    using ok li [OF that] fr unfolding uspace_ok_def by blast
  show "ent ?M l0 i AND RWX \<noteq> 0" if "i < 512" for i
    using ok li [OF that] unfolding uspace_ok_def by blast
  have sp: "\<not> same_path 0 2 (va + 4096 * i) v" if "i < 512" "v < MAXVA" "v div 4096 \<noteq> va div 4096 + i" for i v
    using same_path_iff [of "va + 4096 * i" v 0] that va(2) by (simp add: level_page_size_def)
  show "inj_on (\<lambda>i. PTE2PA (ent ?M l0 i)) {..<512}"
  proof (rule inj_onI)
    fix i j assume ij: "i \<in> {..<512}" "j \<in> {..<512}" "PTE2PA (ent ?M l0 i) = PTE2PA (ent ?M l0 j)"
    show "i = j"
    proof (rule ccontr)
      assume "i \<noteq> j"
      then have "\<not> same_path 0 2 (va + 4096 * i) (va + 4096 * j)" using ij va(2) by (intro sp) simp_all
      then have "frames 0 (ent ?M l0 i) \<inter> frames 0 (ent ?M l0 j) = {}"
        using ok li ij(1,2) unfolding uspace_ok_def by blast
      then show False using fr ij(3) by auto
    qed
  qed
  show "PTE2PA (ent ?M l0 i) \<notin> frames lv e" if i: "i < 512" and u: "user_leaf ?M pt v lv e"
    and out: "\<not> (va \<le> v \<and> v < va + HUGEPGSIZE)" for i v lv e
  proof -
    have "v div 4096 \<noteq> va div 4096 + i"
    proof
      assume eq: "v div 4096 = va div 4096 + i"
      have "va mod 4096 = 0" using va(1) by (auto elim!: dvdE)
      then have "va = 4096 * (va div 4096)" by auto
      then have "va + 4096 * i \<le> v" "v < va + 4096 * i + 4096"
        using eq div_mult_mod_eq [of v 4096] mod_less_divisor [of 4096 v] by linarith+
      then show False using out i by auto
    qed
    then have "\<not> same_path 0 2 (va + 4096 * i) v" using sp i u unfolding user_leaf_def by blast
    then have "frames 0 (ent ?M l0 i) \<inter> frames lv e = {}" using ok li [OF i] u unfolding uspace_ok_def by blast
    then show ?thesis using fr by auto
  qed
qed

text \<open>The memory after copying and freeing: held pages stay, the new block has the old frames' bytes.\<close>

lemma collapse_memory:
  assumes s: "kmem_inv s" "kalloc_huge s = Ok (new, s1)" "new \<noteq> 0" "l0 \<in> held s"
    and f0: "\<forall>i<512. PTE2PA (ent (pmem s) l0 i) \<in> held s - {l0}"
    "inj_on (\<lambda>i. PTE2PA (ent (pmem s) l0 i)) {..<512}"
  defines "F \<equiv> (\<lambda>i. PTE2PA (ent (pmem s) l0 i)) ` {..<512}"
  shows "\<exists>s3 s4. collapse_free 512 l0 (collapse_copy 512 l0 new s1) = Ok s3 \<and> kfree l0 s3 = Ok s4 \<and>
    kmem_inv s4 \<and> managed_pages s4 = managed_pages s \<and>
    avail_pages s4 = insert l0 (avail_pages s - hpages new \<union> F) \<and>
    (\<forall>q k. q \<in> held s - insert l0 F \<longrightarrow> k < 4096 \<longrightarrow> pmem s4 (q + k) = pmem s (q + k)) \<and>
    (\<forall>i k. i < 512 \<longrightarrow> k < 4096 \<longrightarrow> pmem s4 (new + 4096 * i + k) = pmem s (PTE2PA (ent (pmem s) l0 i) + k)) \<and>
    new mod 4096 = 0 \<and> hpages new \<subseteq> avail_pages s"
proof -
  let ?f = "\<lambda>i. PTE2PA (ent (pmem s) l0 i)"
  note f = f0(1) [rule_format] f0(2)
  have k: "kmem_inv s1" "managed_pages s1 = managed_pages s" "hpages new \<subseteq> avail_pages s"
    "avail_pages s1 = avail_pages s - hpages new" "\<forall>x. outside x (avail_pages s) \<longrightarrow> pmem s1 x = pmem s x" "new mod 4096 = 0"
    using kalloc_huge_step [OF s(1)] s(2,3) by auto
  have hm: "hpages new \<subseteq> managed_pages s" using k(3) kpages.avail_managed [OF s(1)] by blast
  have h1: "q \<in> held s1 \<and> q \<notin> hpages new" if "q \<in> held s" for q using that k by (auto simp: held_def)
  have M1: "pmem s1 (q + j) = pmem s (q + j)" if "q \<in> held s" "j < 4096" for q j
    using k(5) outside_page [OF held_aligned [OF that(1)] avail_aligned [OF s(1)] _ that(2)] that(1) by (auto simp: held_def)
  have ent1: "ent (pmem s1) l0 i = ent (pmem s) l0 i" if "i < 512" for i
    by (rule agree_ent [of _ _ "{l0}"]) (use M1 s(4) that in \<open>auto simp: agree_def\<close>)
  have hn: "hpages new \<subseteq> held s1" using hm k(2,4) by (auto simp: held_def)
  let ?s2 = "collapse_copy 512 l0 new s1"
  have "PTE2PA (ent (pmem s1) l0 i) \<notin> hpages new" if "i < 512" for i using h1 f(1) ent1 that by simp
  note c = collapse_copy_spec [OF k(1) hn k(6) held_aligned [OF s(4)] conjunct2 [OF h1 [OF s(4)]] this order_refl]
  have c1: "kmem_inv ?s2" "avail_pages ?s2 = avail_pages s1" "managed_pages ?s2 = managed_pages s1" using c by blast+
  have M2: "pmem ?s2 (q + j) = pmem s (q + j)" if "q \<in> held s" "j < 4096" for q j
    using c page_off_block [OF k(6) held_aligned [OF that(1)] conjunct2 [OF h1 [OF that(1)]] that(2)] M1 [OF that] by auto
  have M2n: "pmem ?s2 (new + 4096 * i + j) = pmem s (?f i + j)" if "i < 512" "j < 4096" for i j
  proof -
    have "(new + 4096 * i + j - new) div 4096 = i" "(new + 4096 * i + j - new) mod 4096 = j" using that by simp_all
    moreover have "new + 4096 * i + j < new + 4096 * 512" using that by linarith
    ultimately have "pmem ?s2 (new + 4096 * i + j) = pmem s1 (PTE2PA (ent (pmem s1) l0 i) + j)" using c by simp
    then show ?thesis using ent1 that M1 [of "?f i" j] f(1) by simp
  qed
  have ent2: "ent (pmem ?s2) l0 i = ent (pmem s) l0 i" if "i < 512" for i
    by (rule agree_ent [of _ _ "{l0}"]) (use M2 s(4) that in \<open>auto simp: agree_def\<close>)
  have held2: "held ?s2 = held s1" using c1 by (simp add: held_def)
  have "PTE2PA (ent (pmem ?s2) l0 i) \<in> held ?s2 - {l0}" if "i < 512" for i using ent2 h1 f(1) that held2 by auto
  moreover have "inj_on (\<lambda>i. PTE2PA (ent (pmem ?s2) l0 i)) {..<512}" using f(2) ent2 by (simp add: inj_on_def)
  moreover have "(\<lambda>i. PTE2PA (ent (pmem ?s2) l0 i)) ` {..<512} = F" using ent2 by (simp add: F_def)
  ultimately obtain s3 where s3: "collapse_free 512 l0 ?s2 = Ok s3" "kmem_inv s3" "managed_pages s3 = managed_pages ?s2"
    "avail_pages s3 = avail_pages ?s2 \<union> F" "\<forall>x. outside x (avail_pages ?s2 \<union> F) \<longrightarrow> pmem s3 x = pmem ?s2 x"
    using collapse_free_spec [OF c1(1), of l0 512] h1 [OF s(4)] held2 by auto
  have "l0 \<noteq> ?f i" if "i < 512" for i using f(1) [OF that] by auto
  then have "l0 \<notin> F" unfolding F_def by blast
  then have l0: "l0 \<in> managed_pages s3" "l0 \<notin> avail_pages s3"
    using s(4) s3(3,4) c1 k(2,4) by (auto simp: held_def)
  obtain s4 where s4: "kfree l0 s3 = Ok s4" using kpages.free_total [OF s3(2) l0] by blast
  note fr = kpages.free_inv [OF s3(2) l0 s4] kpages.free_frame [OF s3(2) l0 s4]
  have av: "avail_pages s4 = insert l0 (avail_pages s - hpages new \<union> F)" using fr(1) s3(4) c1(2) k(4) by simp
  have al: "q mod 4096 = 0" if "q \<in> managed_pages s" for q using managed_facts [OF that] by simp
  have sub: "avail_pages s4 \<subseteq> managed_pages s"
    using kpages.avail_managed [of s4] fr(1) s3(3) c1(3) k(2) by blast
  have M4: "pmem s4 (q + j) = pmem ?s2 (q + j)" if q: "q \<in> managed_pages s" "q \<notin> avail_pages s4" "j < 4096" for q j
  proof -
    have o: "outside (q + j) (avail_pages s4)" using q sub al by (intro outside_page) auto
    then have "pmem s4 (q + j) = pmem s3 (q + j)" using fr by auto
    also have "\<dots> = pmem ?s2 (q + j)" using s3(4,5) o fr(1) by auto
    finally show ?thesis .
  qed
  have keep: "pmem s4 (q + j) = pmem s (q + j)" if "q \<in> held s - insert l0 F" "j < 4096" for q j
    using M4 [of q j] M2 [of q j] that av by (auto simp: held_def)
  have moved: "pmem s4 (new + 4096 * i + j) = pmem s (?f i + j)" if ij: "i < 512" "j < 4096" for i j
  proof -
    have n: "new + 4096 * i \<in> hpages new" using ij by (auto simp: hpages_def)
    then have "new + 4096 * i \<notin> held s" using h1 by blast
    moreover have "F \<subseteq> held s" unfolding F_def using f(1) by auto
    ultimately have "new + 4096 * i \<notin> F" "new + 4096 * i \<noteq> l0" using s(4) by blast+
    then show ?thesis using M4 [of "new + 4096 * i" j] M2n [OF ij] n hm av ij by auto
  qed
  have i4: "kmem_inv s4" "managed_pages s4 = managed_pages s" using conjunct1 [OF fr(1)] fr(1) s3(3) c1(3) k(2) by metis+
  show ?thesis
  proof (rule exI [of _ s3], rule exI [of _ s4], intro conjI)
    show "\<forall>q k. q \<in> held s - insert l0 F \<longrightarrow> k < 4096 \<longrightarrow> pmem s4 (q + k) = pmem s (q + k)" by (intro allI impI) (rule keep)
    show "\<forall>i k. i < 512 \<longrightarrow> k < 4096 \<longrightarrow> pmem s4 (new + 4096 * i + k) = pmem s (?f i + k)" by (intro allI impI) (rule moved)
  qed (fact s3(1) s4 i4 av k)+
qed

section \<open>The collapsed page table\<close>

lemma st_le_cong: "m x = m' x \<Longrightarrow> st_le n m a v x = st_le n m' a v x"
proof (induction n arbitrary: m m' a v)
  case (Suc n)
  have "(m(a := of_nat v)) x = (m'(a := of_nat v)) x" using Suc.prems by simp
  then show ?case unfolding st_le.simps by (rule Suc.IH)
qed simp

lemma huge_entry:
  assumes "e AND RWX \<noteq> 0" "e AND PTE_V \<noteq> 0" "e AND PTE_U \<noteq> 0" "new mod 4096 = 0" "new < 2 ^ 56"
  defines "e' \<equiv> PA2PTE new OR PTE_FLAGS e"
  shows "\<not> is_table e'" "e' AND PTE_V \<noteq> 0" "e' AND PTE_U \<noteq> 0" "e' AND RWX \<noteq> 0" "PTE2PA e' = new" "PTE_FLAGS e' = PTE_FLAGS e"
proof -
  have m: "PTE_FLAGS e AND 0x3FF = PTE_FLAGS e" by (simp add: PTE_FLAGS_def and.assoc)
  have a: "e' AND f = e AND f" if f: "f AND 0x3FF = f" for f
  proof -
    have "e' AND f = (PA2PTE new AND f) OR (PTE_FLAGS e AND f)" unfolding e'_def by (simp add: bit.conj_disj_distrib2)
    then show ?thesis using PA2PTE_and [OF f] PTE_FLAGS_and [OF f] by simp
  qed
  have "RWX AND 0x3FF = RWX" "PTE_U AND 0x3FF = PTE_U" by (simp_all add: RWX_def pte_flag_defs)
  then show "\<not> is_table e'" "e' AND PTE_V \<noteq> 0" "e' AND PTE_U \<noteq> 0" "e' AND RWX \<noteq> 0"
    using a PTE_V_mask assms(1-3) by (simp_all add: is_table_def)
  show "PTE2PA e' = new" unfolding e'_def by (rule PTE2PA_PA2PTE [OF m assms(4,5)])
  show "PTE_FLAGS e' = PTE_FLAGS e" unfolding e'_def by (rule PTE_FLAGS_PA2PTE [OF m])
qed

lemma slot_parent:
  "wf_pt l M pt \<Longrightarrow> slot l M pt va stop = Some (a, Suc m) \<Longrightarrow> is_table (ld64 M a) \<Longrightarrow>
   \<exists>q \<in> tables l M pt - {PTE2PA (ld64 M a)}. a = q + 8 * PX (Suc m) va"
proof (induction l arbitrary: pt)
  case (Suc l)
  let ?i = "PX (Suc l) va"
  have i: "?i < 512" by simp
  show ?case
  proof (cases "Suc l = stop \<or> ent M pt ?i AND RWX \<noteq> 0")
    case True
    then have a: "a = pt + 8 * ?i" "m = l" using Suc.prems by (auto simp: Let_def split: if_splits)
    have "PTE2PA (ld64 M a) \<in> sub l M pt ?i" using Suc.prems(3) a by (simp add: sub_def)
    then show ?thesis using wf_pt_parts(1) [OF Suc.prems(1) i] a by auto
  next
    case False
    then have t: "is_table (ent M pt ?i)" and sl: "slot l M (PTE2PA (ent M pt ?i)) va stop = Some (a, Suc m)"
      using Suc.prems by (auto simp: Let_def is_table_def split: if_splits)
    from Suc.IH [OF wf_pt_parts(5) [OF Suc.prems(1) i t] sl Suc.prems(3)] show ?thesis
      using t sub_subset [OF i, of l M pt] unfolding sub_def by auto
  qed
qed simp

text \<open>Writing the level-1 entry after the memory below it was freed.\<close>

lemma collapse_tree:
  assumes inv: "pt_inv s pt" and sl: "slot 2 (pmem s) pt va 1 = Some (l1, 1)" and t: "is_table (get_pte s l1)"
    and e: "\<not> is_table e" "e AND PTE_V \<noteq> 0"
    and keep: "\<forall>q \<in> tables 2 (pmem s) pt - {PTE2PA (get_pte s l1)}. \<forall>k<4096. pmem s4 (q + k) = pmem s (q + k)"
  shows "wf_pt 2 (pmem (set_pte l1 e s4)) pt"
    "tables 2 (pmem (set_pte l1 e s4)) pt \<subseteq> tables 2 (pmem s) pt - {PTE2PA (get_pte s l1)}"
    "\<And>v. hw_walk 2 (pmem (set_pte l1 e s4)) pt v = (if same_path 1 2 va v then Some (l1, 1, e) else hw_walk 2 (pmem s) pt v)"
    "\<exists>q i. l1 = q + 8 * i \<and> i < 512 \<and> q \<in> tables 2 (pmem s) pt - {PTE2PA (get_pte s l1)}"
proof -
  let ?M = "pmem s" and ?l0 = "PTE2PA (get_pte s l1)" and ?N = "st64 (pmem s) l1 e"
  have wf: "wf_pt 2 ?M pt" using inv by (simp add: pt_inv_def)
  note w = slot_write [OF wf sl, of e]
  have w1: "wf_pt 2 ?N pt" "\<And>v. hw_walk 2 ?N pt v = (if same_path 1 2 va v then Some (l1, 1, e) else hw_walk 2 ?M pt v)"
    "tables 2 ?N pt \<subseteq> tables 2 ?M pt" using w e by simp_all
  have "tables 0 ?M ?l0 \<subseteq> tables 2 ?M pt - tables 2 ?N pt" using w e(1) t by (metis One_nat_def)
  then have w2: "tables 2 ?N pt \<subseteq> tables 2 ?M pt - {?l0}" using w1(3) by auto
  have "agree ?N (pmem (set_pte l1 e s4)) (tables 2 ?N pt)"
    unfolding agree_def set_pte_def using keep w2 by (auto intro!: st_le_cong)
  note fr = tables_frame [OF this]
  show "wf_pt 2 (pmem (set_pte l1 e s4)) pt" using fr w1(1) by blast
  show "tables 2 (pmem (set_pte l1 e s4)) pt \<subseteq> tables 2 ?M pt - {?l0}" using fr w2 by simp
  show "hw_walk 2 (pmem (set_pte l1 e s4)) pt v = (if same_path 1 2 va v then Some (l1, 1, e) else hw_walk 2 ?M pt v)" for v
    using fr w1(2) by simp
  show "\<exists>q i. l1 = q + 8 * i \<and> i < 512 \<and> q \<in> tables 2 ?M pt - {?l0}"
    using slot_parent [OF wf sl [unfolded One_nat_def] t] PX_less by blast
qed

section \<open>What the process sees\<close>

lemma user_pa:
  fixes v :: nat
  assumes "frames lv e \<subseteq> held s"
  defines "d \<equiv> v mod level_page_size lv"
  shows "PTE2PA e + 4096 * (d div 4096) \<in> frames lv e \<and>
    add64 (PTE2PA e) d = PTE2PA e + 4096 * (d div 4096) + d mod 4096"
proof -
  have "level_page_size lv = 4096 * 512 ^ lv" unfolding level_page_size_def mult.commute [of lv 9] power_mult by simp
  then have "d < 4096 * 512 ^ lv" unfolding d_def by simp
  then have "d div 4096 < 512 ^ lv" by (simp add: less_mult_imp_div_less mult.commute)
  then have f: "PTE2PA e + 4096 * (d div 4096) \<in> frames lv e" by (auto simp: frames_def)
  then have "PTE2PA e + 4096 * (d div 4096) < 2 ^ 56" using assms(1) managed_facts unfolding held_def by blast
  moreover have "d = 4096 * (d div 4096) + d mod 4096" "d mod 4096 < 4096" by simp_all
  ultimately have "PTE2PA e + d < 2 ^ 64" by (simp; linarith)
  then show ?thesis using f \<open>d = 4096 * (d div 4096) + d mod 4096\<close> by (simp add: add64_small)
qed

text \<open>A leaf is visible to the user exactly if its flags say so.\<close>

lemma user_byte_leaf:
  assumes "user_leaf M pt v lv e"
  shows "user_byte M pt v = Some (M (add64 (PTE2PA e) (v mod level_page_size lv)), PTE_FLAGS e)"
proof -
  have "PTE_FLAGS e AND PTE_U = e AND PTE_U" by (rule PTE_FLAGS_and) (simp add: PTE_U_def)
  then show ?thesis using assms by (auto simp: user_byte_def translate_def user_leaf_def)
qed

lemma user_byte_None:
  assumes "v < MAXVA" "\<And>lv e. \<not> user_leaf M pt v lv e"
  shows "user_byte M pt v = None"
proof -
  have "PTE_FLAGS e AND PTE_U = e AND PTE_U" for e by (rule PTE_FLAGS_and) (simp add: PTE_U_def)
  then show ?thesis using assms by (auto simp: user_byte_def translate_def user_leaf_def split: option.splits)
qed

text \<open>One leaf with fresh frames replaces whatever was mapped in its range, the rest stays.\<close>

lemma uspace_replace:
  assumes ok: "uspace_ok s pt" and inv': "pt_inv s' pt" and tb: "tables 2 (pmem s') pt \<subseteq> tables 2 (pmem s) pt"
    and hw: "\<forall>v<MAXVA. hw_walk 2 (pmem s') pt v = (if same_path lv1 2 va v then Some (l1, lv1, e) else hw_walk 2 (pmem s) pt v)"
    and e: "e AND RWX \<noteq> 0" "frames lv1 e \<subseteq> held s' - tables 2 (pmem s') pt" "frames lv1 e \<inter> held s = {}"
    and rest0: "\<forall>v lv e0. user_leaf (pmem s) pt v lv e0 \<longrightarrow> \<not> same_path lv1 2 va v \<longrightarrow>
      frames lv e0 \<subseteq> held s' \<and> (\<forall>p \<in> frames lv e0. \<forall>k<4096. pmem s' (p + k) = pmem s (p + k))"
  shows "uspace_ok s' pt"
    and "v < MAXVA \<Longrightarrow> \<not> same_path lv1 2 va v \<Longrightarrow> user_byte (pmem s') pt v = user_byte (pmem s) pt v"
proof -
  let ?R = "same_path lv1 2 va" and ?M = "pmem s" and ?M' = "pmem s'"
  have rest: "frames lv e0 \<subseteq> held s' \<and> (\<forall>p \<in> frames lv e0. \<forall>k<4096. ?M' (p + k) = ?M (p + k))"
    if "user_leaf ?M pt v lv e0" "\<not> ?R v" for v lv e0 using rest0 that by blast
  have in_R: "lv = lv1 \<and> e0 = e" if "user_leaf ?M' pt v lv e0" "?R v" for v lv e0
    using that hw by (auto simp: user_leaf_def)
  have off_R: "user_leaf ?M pt v lv e0 \<longleftrightarrow> user_leaf ?M' pt v lv e0" if "\<not> ?R v" for v lv e0
    using that hw by (auto simp: user_leaf_def)
  have old: "frames lv e0 \<subseteq> held s - tables 2 ?M pt" "e0 AND RWX \<noteq> 0" if "user_leaf ?M pt v lv e0" for v lv e0
    using ok that unfolding uspace_ok_def by blast+
  show "uspace_ok s' pt" unfolding uspace_ok_def
  proof (intro conjI allI impI)
    fix v lv e0 assume u: "user_leaf ?M' pt v lv e0"
    show "e0 AND RWX \<noteq> 0" using u in_R [OF u] off_R [of v lv e0] old(2) e(1) by (cases "?R v") auto
    show "frames lv e0 \<subseteq> held s' - tables 2 ?M' pt"
    proof (cases "?R v")
      case True
      then show ?thesis using in_R [OF u] e(2) by simp
    next
      case False
      then have u0: "user_leaf ?M pt v lv e0" using u off_R by simp
      show ?thesis using rest [OF u0 False] old(1) [OF u0] tb by blast
    qed
  next
    fix v lv e0 v' lv' e0' assume u: "user_leaf ?M' pt v lv e0" "user_leaf ?M' pt v' lv' e0'" "\<not> same_path lv 2 v v'"
    show "frames lv e0 \<inter> frames lv' e0' = {}"
    proof (cases "?R v")
      case True
      then have "\<not> ?R v'" using u(3) in_R [OF u(1) True] by (auto simp: same_path_def)
      then show ?thesis using in_R [OF u(1) True] off_R u(2) old(1) [of v' lv' e0'] e(3) by blast
    next
      case False
      then have u0: "user_leaf ?M pt v lv e0" using u(1) off_R by simp
      show ?thesis
      proof (cases "?R v'")
        case True
        then show ?thesis using in_R [OF u(2) True] old(1) [OF u0] e(3) by blast
      next
        case F': False
        then have "user_leaf ?M pt v' lv' e0'" using u(2) off_R by simp
        then show ?thesis using ok u0 u(3) unfolding uspace_ok_def by blast
      qed
    qed
  qed (rule inv')
  show "user_byte ?M' pt v = user_byte ?M pt v" if v: "v < MAXVA" "\<not> ?R v"
  proof (cases "\<exists>lv e0. user_leaf ?M pt v lv e0")
    case True
    then obtain lv e0 where u: "user_leaf ?M pt v lv e0" by blast
    have "frames lv e0 \<subseteq> held s" using old(1) [OF u] by blast
    note pa = user_pa [OF this, of v]
    have "?M' (add64 (PTE2PA e0) (v mod level_page_size lv)) = ?M (add64 (PTE2PA e0) (v mod level_page_size lv))"
      using bspec [OF conjunct2 [OF rest [OF u v(2)]] conjunct1 [OF pa], THEN spec, of "v mod level_page_size lv mod 4096"]
      unfolding conjunct2 [OF pa] by (rule mp) simp
    moreover have "user_leaf ?M' pt v lv e0" using u off_R [OF v(2)] by simp
    ultimately show ?thesis using user_byte_leaf [of ?M' pt v lv e0] user_byte_leaf [OF u] by simp
  next
    case False
    then show ?thesis using user_byte_None [OF v(1)] off_R [OF v(2)] by metis
  qed
qed

lemma collapse_uspace:
  assumes ok: "uspace_ok s pt" and va: "va mod HUGEPGSIZE = 0" "va + HUGEPGSIZE \<le> MAXVA"
    and sl: "slot 2 (pmem s) pt va 1 = Some (l1, 1)" and t: "is_table (get_pte s l1)"
    and fl: "collapse_flags 512 (PTE2PA (get_pte s l1)) s"
    and k: "kalloc_huge s = Ok (new, s1)" "new \<noteq> 0"
  defines "l0 \<equiv> PTE2PA (get_pte s l1)"
  defines "e \<equiv> PA2PTE new OR PTE_FLAGS (get_pte s l0)"
  shows "\<exists>s3 s4. collapse_free 512 l0 (collapse_copy 512 l0 new s1) = Ok s3 \<and> kfree l0 s3 = Ok s4 \<and>
    uspace_ok (set_pte l1 e s4) pt \<and>
    (\<forall>v < MAXVA. user_byte (pmem (set_pte l1 e s4)) pt v = user_byte (pmem s) pt v)"
proof -
  let ?M = "pmem s" and ?f = "\<lambda>i. PTE2PA (ent (pmem s) l0 i)"
  define F where "F = ?f ` {..<512}"
  have inv: "pt_inv s pt" using ok by (simp add: uspace_ok_def)
  then have km: "kmem_inv s" and th: "tables 2 ?M pt \<subseteq> held s" and wf: "wf_pt 2 ?M pt" by (auto simp: pt_inv_def)
  note ce = collapsible_entries [OF ok va sl t fl, folded l0_def]
  have e0: "ent ?M l0 i AND PTE_V \<noteq> 0" "ent ?M l0 i AND PTE_U \<noteq> 0" "PTE_FLAGS (ent ?M l0 i) = PTE_FLAGS (get_pte s l0)"
    if "i < 512" for i using fl that unfolding collapse_flags_iff l0_def by simp_all
  have l0t: "l0 \<in> tables 2 ?M pt"
  proof -
    have "\<not> is_table 0" by (simp add: is_table_def)
    then have "tables 0 ?M l0 \<subseteq> tables 2 ?M pt" using slot_write [OF wf sl, of 0] t unfolding l0_def by auto
    then show ?thesis by simp
  qed
  then have l0h: "l0 \<in> held s" using th by blast
  have f1: "\<forall>i<512. ?f i \<in> held s - {l0}"
  proof (intro allI impI)
    fix i :: nat assume "i < 512"
    from ce(2) [OF this] l0t show "?f i \<in> held s - {l0}" by (cases "?f i = l0") simp_all
  qed
  from collapse_memory [OF km k l0h f1 ce(3), folded F_def] obtain s3 s4 where
    m: "collapse_free 512 l0 (collapse_copy 512 l0 new s1) = Ok s3" "kfree l0 s3 = Ok s4"
    "kmem_inv s4" "managed_pages s4 = managed_pages s" "avail_pages s4 = insert l0 (avail_pages s - hpages new \<union> F)"
    "\<forall>q k. q \<in> held s - insert l0 F \<longrightarrow> k < 4096 \<longrightarrow> pmem s4 (q + k) = pmem s (q + k)"
    "\<forall>i k. i < 512 \<longrightarrow> k < 4096 \<longrightarrow> pmem s4 (new + 4096 * i + k) = pmem s (?f i + k)"
    "new mod 4096 = 0" "hpages new \<subseteq> avail_pages s" by (elim exE conjE) (rule that, assumption+)
  have Ft: "F \<inter> tables 2 ?M pt = {}" using ce(2) unfolding F_def by auto
  have nm: "hpages new \<subseteq> managed_pages s" using m(9) kpages.avail_managed [OF km] by blast
  moreover have "new \<in> hpages new" unfolding hpages_def by (rule image_eqI [of _ _ 0]) simp_all
  ultimately have new: "new < 2 ^ 56" using managed_facts by blast
  note he = huge_entry [OF ce(5) [of 0] e0(1) [of 0] e0(2) [of 0] m(8) new, simplified, folded e_def]
  have keep: "\<forall>q \<in> tables 2 ?M pt - {l0}. \<forall>j<4096. pmem s4 (q + j) = ?M (q + j)"
    using m(6) th Ft by auto
  note tr = collapse_tree [OF inv sl t he(1,2) keep [unfolded l0_def], folded l0_def]
  obtain q i where q: "l1 = q + 8 * i" "i < 512" "q \<in> tables 2 ?M pt - {l0}" using tr(4) by blast
  have hs4: "p \<in> held s4" if "p \<in> held s" "p \<notin> insert l0 F" for p using that m(4,5) by (auto simp: held_def)
  have q4: "q \<in> held s4" using hs4 q(3) th Ft by blast
  let ?s' = "set_pte l1 e s4"
  note sp = set_pte_held [where e = e, OF m(3) q4 q(2), folded q(1)]
  have held': "held ?s' = held s4" using sp(2,3) by (simp add: held_def)
  have keep': "pmem ?s' (p + j) = pmem s4 (p + j)" if "p \<noteq> q" "p \<in> managed_pages s" "j < 4096" for p j
    using sp(4) outside_page [of p "{q}" j] managed_facts [OF that(2)] held_aligned [OF q4] that by auto
  have fr: "frames 1 e = hpages new" using he(5) by (simp add: frames_def hpages_def)
  have h4: "hpages new \<subseteq> held s4"
  proof -
    have "F \<subseteq> held s" unfolding F_def using f1 by auto
    then show ?thesis using nm m(4,5,9) l0h by (auto simp: held_def)
  qed
  have inv': "pt_inv ?s' pt" using sp(1) tr(1,2) hs4 th Ft held' unfolding pt_inv_def by blast
  have R: "same_path 1 2 va v \<longleftrightarrow> va \<le> v \<and> v < va + HUGEPGSIZE" if "v < MAXVA" for v
    using huge_page_offsets(1) [OF va that] .
  have rest: "\<forall>v lv e'. user_leaf ?M pt v lv e' \<longrightarrow> \<not> same_path 1 2 va v \<longrightarrow>
    frames lv e' \<subseteq> held ?s' \<and> (\<forall>p \<in> frames lv e'. \<forall>j<4096. pmem ?s' (p + j) = ?M (p + j))"
  proof (intro allI impI)
    fix v lv e' assume u: "user_leaf ?M pt v lv e'" "\<not> same_path 1 2 va v"
    have old: "frames lv e' \<subseteq> held s - tables 2 ?M pt" using ok u(1) unfolding uspace_ok_def by blast
    have "F \<inter> frames lv e' = {}" using ce(4) [OF _ u(1)] R [of v] u unfolding F_def user_leaf_def by blast
    then have p: "p \<in> held s4" "p \<in> held s - insert l0 F" "p \<noteq> q" "p \<in> managed_pages s" if "p \<in> frames lv e'" for p
      using that old hs4 l0t q(3) by (auto simp: held_def)
    then show "frames lv e' \<subseteq> held ?s' \<and> (\<forall>p \<in> frames lv e'. \<forall>j<4096. pmem ?s' (p + j) = ?M (p + j))"
      using held' keep' m(6) by auto
  qed
  have tb: "tables 2 (pmem ?s') pt \<subseteq> tables 2 ?M pt" using tr(2) by blast
  have fe: "frames 1 e \<subseteq> held ?s' - tables 2 (pmem ?s') pt" "frames 1 e \<inter> held s = {}"
    unfolding fr held' using h4 m(9) tb th by (auto simp: held_def)
  have hw': "\<forall>v<MAXVA. hw_walk 2 (pmem ?s') pt v = (if same_path 1 2 va v then Some (l1, 1, e) else hw_walk 2 ?M pt v)"
    using tr(3) by simp
  note ur = uspace_replace [OF ok inv' tb hw' he(4) fe rest]
  have move: "pmem ?s' (new + 4096 * i + j) = ?M (?f i + j)" if ij: "i < 512" "j < 4096" for i j
  proof -
    have n: "new + 4096 * i \<in> hpages new" using ij by (auto simp: hpages_def)
    then have "new + 4096 * i \<noteq> q" "new + 4096 * i \<in> managed_pages s" using m(9) nm q(3) th by (auto simp: held_def)
    then show ?thesis using keep' m(7) ij by simp
  qed
  have bytes: "user_byte (pmem ?s') pt v = user_byte ?M pt v" if v: "v < MAXVA" for v
  proof (cases "same_path 1 2 va v")
    case True
    then have r: "va \<le> v" "v < va + HUGEPGSIZE" using R [OF v] by simp_all
    let ?d = "v - va"
    have d: "?d div 4096 < 512" "?d mod 4096 < 4096" using r by (simp_all add: less_mult_imp_div_less)
    note off = huge_page_offsets(2) [OF va v r]
    have old: "user_leaf ?M pt v 0 (ent ?M l0 (?d div 4096))" using ce(1) [OF v r] by blast
    have new: "user_leaf (pmem ?s') pt v 1 e" using tr(3) [of v] True v he(3) by (simp add: user_leaf_def)
    have pa: "add64 (PTE2PA e) (v mod level_page_size 1) = new + 4096 * (?d div 4096) + ?d mod 4096"
    proof -
      have "v mod level_page_size 1 = ?d" using off by (simp add: level_page_size_def)
      then show ?thesis using conjunct2 [OF user_pa [OF subset_trans [OF fe(1) Diff_subset], of v]] he(5) by simp
    qed
    have pa0: "add64 (?f (?d div 4096)) (v mod level_page_size 0) = ?f (?d div 4096) + ?d mod 4096"
    proof -
      have "?f (?d div 4096) < 2 ^ 56" using ce(2) [OF d(1)] managed_facts unfolding held_def by blast
      then show ?thesis using off d(2) by (simp add: level_page_size_def add64_small)
    qed
    show ?thesis
      unfolding user_byte_leaf [OF new] user_byte_leaf [OF old] pa pa0 he(6) move [OF d] e0(3) [OF d(1)] ..
  next
    case False
    then show ?thesis by (rule ur(2) [OF v])
  qed
  show ?thesis using m(1,2) ur(1) bytes by (intro exI [of _ s3] exI [of _ s4]) blast
qed

lemma vm_try_collapse_ok:
  assumes ok: "uspace_ok s pt" and sz: "sz \<le> MAXVA" "va + HUGEPGSIZE < 2 ^ 64"
  shows "\<exists>r s'. vm_try_collapse pt sz va s = Ok (r, s') \<and> (r = 0 \<and> s' = s \<or> r = 1) \<and> uspace_ok s' pt \<and>
    (\<forall>v < MAXVA. user_byte (pmem s') pt v = user_byte (pmem s) pt v)"
proof (cases "pt \<noteq> 0 \<and> va mod HUGEPGSIZE = 0 \<and> va + HUGEPGSIZE \<le> sz")
  case False
  then show ?thesis using ok sz(2) by (auto simp: vm_try_collapse_def add64_small)
next
  case True
  then have va: "va mod HUGEPGSIZE = 0" "va + HUGEPGSIZE \<le> MAXVA" "va < MAXVA" using sz by simp_all
  have w: "walk_to_level pt va False 1 s = Ok (slot 2 (pmem s) pt va 1, s)"
    using va(3) by (simp add: walk_to_level_def walk_loop_lookup)
  have guard: "\<not> (pt = 0)" "\<not> va mod HUGEPGSIZE \<noteq> 0" "\<not> add64 va HUGEPGSIZE > sz"
    using True sz(2) by (simp_all add: add64_small)
  show ?thesis
  proof (cases "\<exists>l1 lv. slot 2 (pmem s) pt va 1 = Some (l1, lv) \<and> is_table (get_pte s l1) \<and> collapse_flags 512 (PTE2PA (get_pte s l1)) s")
    case False
    then have "vm_try_collapse pt sz va s = Ok (0, s)"
      unfolding vm_try_collapse_def using guard w by (auto simp: is_table_def Let_def split: option.splits)
    then show ?thesis using ok by simp
  next
    case True
    then obtain l1 lv where sl: "slot 2 (pmem s) pt va 1 = Some (l1, lv)" and t: "is_table (get_pte s l1)"
      and fl: "collapse_flags 512 (PTE2PA (get_pte s l1)) s" by blast
    have lv: "lv = 1" using slot_leaf_above [OF sl] t by (auto simp: is_table_def)
    let ?l0 = "PTE2PA (get_pte s l1)"
    have run: "vm_try_collapse pt sz va s = bindR (kalloc_huge s) (\<lambda>(new_page, s1).
        if new_page = 0 then Ok (0, s1)
        else bindR (collapse_free 512 ?l0 (collapse_copy 512 ?l0 new_page s1)) (\<lambda>s2.
          bindR (kfree ?l0 s2) (\<lambda>s3. Ok (1, set_pte l1 (PA2PTE new_page OR PTE_FLAGS (get_pte s ?l0)) s3))))"
      unfolding vm_try_collapse_def using guard w sl t fl by (simp add: is_table_def Let_def)
    have "kmem_inv s" using ok by (simp add: uspace_ok_def pt_inv_def)
    then consider "kalloc_huge s = Ok (0, s)" | p s1 where "kalloc_huge s = Ok (p, s1)" "p \<noteq> 0"
      using kalloc_huge_step [of s] by blast
    then show ?thesis
    proof cases
      case 1
      then show ?thesis using run ok by simp
    next
      case (2 p s1)
      from collapse_uspace [OF ok va(1,2) sl [unfolded lv] t fl 2] show ?thesis using run 2 by auto
    qed
  qed
qed

section \<open>Properties\<close>



end
