(* ===== verification/Act.thy ===== *)
theory Act
  imports Prelude
begin

text \<open>
  Routines of the file system as state transformers: an action maps a state to a value and a new
  state, to a panic, or to \<open>None\<close> when it sleeps and nobody else is running that could wake it up.
\<close>

type_synonym ('s, 'a) act = "'s \<Rightarrow> ('a \<times> 's) res option"

definition ret :: "'a \<Rightarrow> ('s, 'a) act" where
  "ret x = (\<lambda>s. Some (Ok (x, s)))"

definition bindA :: "('s, 'a) act \<Rightarrow> ('a \<Rightarrow> ('s, 'b) act) \<Rightarrow> ('s, 'b) act" where
  "bindA m f = (\<lambda>s. bindF (m s) (\<lambda>(x, s'). f x s'))"

definition get :: "('s \<Rightarrow> 'a) \<Rightarrow> ('s, 'a) act" where
  "get f = (\<lambda>s. Some (Ok (f s, s)))"

definition upd :: "('s \<Rightarrow> 's) \<Rightarrow> ('s, unit) act" where
  "upd f = (\<lambda>s. Some (Ok ((), f s)))"

definition panic :: "string \<Rightarrow> ('s, 'a) act" where
  "panic msg = (\<lambda>s. Some (Panic msg))"

definition blocked :: "('s, 'a) act" where
  "blocked = (\<lambda>s. None)"

primrec for_upto :: "nat \<Rightarrow> nat \<Rightarrow> (nat \<Rightarrow> ('s, unit) act) \<Rightarrow> ('s, unit) act" where
  "for_upto i 0 f = ret ()"
| "for_upto i (Suc n) f = bindA (f i) (\<lambda>_. for_upto (Suc i) n f)"

definition doM :: "('s, 'a) act \<Rightarrow> ('s, 'b) act \<Rightarrow> ('s, 'b) act" where
  "doM m k = bindA m (\<lambda>_. k)"

lemma ret_apply [simp]: "ret x s = Some (Ok (x, s))"
  by (simp add: ret_def)

lemma get_apply [simp]: "get f s = Some (Ok (f s, s))"
  by (simp add: get_def)

lemma upd_apply [simp]: "upd f s = Some (Ok ((), f s))"
  by (simp add: upd_def)

lemma panic_apply [simp]: "panic msg s = Some (Panic msg)"
  by (simp add: panic_def)

lemma blocked_apply [simp]: "blocked s = None"
  by (simp add: blocked_def)

lemma bindA_Ok [simp]: "m s = Some (Ok (x, s')) \<Longrightarrow> bindA m f s = f x s'"
  by (simp add: bindA_def)

lemma doM_Ok [simp]: "m s = Some (Ok (x, s')) \<Longrightarrow> doM m k s = k s'"
  by (simp add: doM_def)

lemma bindA_eq_Ok [res_simps]:
  "bindA m f s = Some (Ok (y, s'')) \<longleftrightarrow> (\<exists>x s'. m s = Some (Ok (x, s')) \<and> f x s' = Some (Ok (y, s'')))"
  by (auto simp: bindA_def bindF_eq_Ok)

lemma doM_eq_Ok [res_simps]:
  "doM m k s = Some (Ok (y, s'')) \<longleftrightarrow> (\<exists>x s'. m s = Some (Ok (x, s')) \<and> k s' = Some (Ok (y, s'')))"
  by (simp add: doM_def bindA_eq_Ok)

lemma bindA_assoc: "bindA (bindA m f) g = bindA m (\<lambda>x. bindA (f x) g)"
  by (rule ext) (auto simp: bindA_def bindF_def split: option.splits res.splits)

lemma for_upto_inv:
  assumes step: "\<And>i s. lo \<le> i \<Longrightarrow> i < lo + n \<Longrightarrow> I i s \<Longrightarrow> \<exists>s'. f i s = Some (Ok ((), s')) \<and> I (Suc i) s'" and "I lo s"
  shows "\<exists>s'. for_upto lo n f s = Some (Ok ((), s')) \<and> I (lo + n) s'"
  using assms
proof (induction n arbitrary: lo s)
  case (Suc n)
  from Suc.prems(1) [of lo s] Suc.prems(2) obtain s1 where s1: "f lo s = Some (Ok ((), s1))" "I (Suc lo) s1" by auto
  have "\<exists>s'. for_upto (Suc lo) n f s1 = Some (Ok ((), s')) \<and> I (Suc lo + n) s'"
    by (rule Suc.IH [OF _ s1(2)]) (use Suc.prems(1) in auto)
  then show ?case using s1(1) by auto
qed simp

text \<open>An action that, started in a state where \<open>P\<close> holds, returns in one where \<open>Q\<close> does.\<close>

definition runs :: "('s \<Rightarrow> bool) \<Rightarrow> ('s, 'a) act \<Rightarrow> ('s \<Rightarrow> 'a \<Rightarrow> 's \<Rightarrow> bool) \<Rightarrow> bool" where
  "runs P m Q \<longleftrightarrow> (\<forall>s. P s \<longrightarrow> (\<exists>x s'. m s = Some (Ok (x, s')) \<and> Q s x s'))"

lemma runsD: "runs P m Q \<Longrightarrow> P s \<Longrightarrow> \<exists>x s'. m s = Some (Ok (x, s')) \<and> Q s x s'"
  by (auto simp: runs_def)

end
