(* ===== verification/Block_Cache.thy ===== *)
theory Block_Cache
  imports Act
begin

text \<open>
  What the log relies on of the buffer cache, as an interface: what each operation on a buffer does
  to the contents, reference count and lock of its block, to the disk and to the disk's history.
  The lemmas say what a block-to-block copy does, in the two orders kernel/log.c releases its buffers.
\<close>

type_synonym block = mem
type_synonym key = "nat \<times> nat"
type_synonym disk = "key \<Rightarrow> block"
type_synonym status = "block \<times> nat \<times> bool"

abbreviation contents :: "status \<Rightarrow> block" where "contents \<equiv> fst"
abbreviation count :: "status \<Rightarrow> nat" where "count x \<equiv> fst (snd x)"
abbreviation is_locked :: "status \<Rightarrow> bool" where "is_locked x \<equiv> snd (snd x)"

declare split_paired_All [simp del] split_paired_Ex [simp del]

locale block_cache =
  fixes rd :: "nat \<Rightarrow> nat \<Rightarrow> ('s, nat) act"
    and wr rel pin unpin :: "nat \<Rightarrow> ('s, unit) act"
    and put :: "nat \<Rightarrow> (block \<Rightarrow> block) \<Rightarrow> ('s, unit) act"
    and data :: "'s \<Rightarrow> nat \<Rightarrow> block"
    and inv :: "'s \<Rightarrow> bool" and held :: "'s \<Rightarrow> nat \<Rightarrow> key \<Rightarrow> bool" and stat :: "'s \<Rightarrow> key \<Rightarrow> status"
    and disk :: "'s \<Rightarrow> disk" and hist :: "'s \<Rightarrow> disk list" and used :: "'s \<Rightarrow> nat" and ext :: "'s \<Rightarrow> 'e"
  assumes rd: "inv s \<Longrightarrow> fst k \<noteq> 0 \<Longrightarrow> \<not> is_locked (stat s k) \<Longrightarrow> 0 < count (stat s k) \<or> used s < 30 \<Longrightarrow>
      \<exists>i s'. rd (fst k) (snd k) s = Some (Ok (i, s')) \<and> inv s' \<and> held s' i k \<and> (\<forall>j k'. held s j k' \<longrightarrow> held s' j k') \<and>
        disk s' = disk s \<and> hist s' = hist s \<and> ext s' = ext s \<and>
        used s' = used s + (if count (stat s k) = 0 then 1 else 0) \<and>
        stat s' = (stat s)(k := (contents (stat s k), count (stat s k) + 1, True))"
    and wr: "inv s \<Longrightarrow> held s i k \<Longrightarrow>
      \<exists>s'. wr i s = Some (Ok ((), s')) \<and> inv s' \<and> held s' = held s \<and> disk s' = (disk s)(k := contents (stat s k)) \<and>
        hist s' = disk s # hist s \<and> ext s' = ext s \<and> used s' = used s \<and> stat s' = stat s"
    and rel: "inv s \<Longrightarrow> held s i k \<Longrightarrow> 1 < count (stat s k) \<or> contents (stat s k) = disk s k \<Longrightarrow>
      \<exists>s'. rel i s = Some (Ok ((), s')) \<and> inv s' \<and> (\<forall>j k'. held s j k' \<longrightarrow> k' \<noteq> k \<longrightarrow> held s' j k') \<and>
        disk s' = disk s \<and> hist s' = hist s \<and> ext s' = ext s \<and>
        used s' + (if count (stat s k) = 1 then 1 else 0) = used s \<and>
        stat s' = (stat s)(k := (contents (stat s k), count (stat s k) - 1, False))"
    and put: "inv s \<Longrightarrow> held s i k \<Longrightarrow>
      \<exists>s'. put i f s = Some (Ok ((), s')) \<and> inv s' \<and> held s' = held s \<and>
        disk s' = disk s \<and> hist s' = hist s \<and> ext s' = ext s \<and> used s' = used s \<and>
        stat s' = (stat s)(k := (f (contents (stat s k)), snd (stat s k)))"
    and pin: "inv s \<Longrightarrow> held s i k \<Longrightarrow>
      \<exists>s'. pin i s = Some (Ok ((), s')) \<and> inv s' \<and> held s' = held s \<and>
        disk s' = disk s \<and> hist s' = hist s \<and> ext s' = ext s \<and> used s' = used s \<and>
        stat s' = (stat s)(k := (contents (stat s k), count (stat s k) + 1, is_locked (stat s k)))"
    and unpin: "inv s \<Longrightarrow> held s i k \<Longrightarrow> 1 < count (stat s k) \<Longrightarrow>
      \<exists>s'. unpin i s = Some (Ok ((), s')) \<and> inv s' \<and> held s' = held s \<and>
        disk s' = disk s \<and> hist s' = hist s \<and> ext s' = ext s \<and> used s' = used s \<and>
        stat s' = (stat s)(k := (contents (stat s k), count (stat s k) - 1, is_locked (stat s k)))"
    and held: "inv s \<Longrightarrow> held s i k \<Longrightarrow> data s i = contents (stat s k) \<and> 0 < count (stat s k) \<and> is_locked (stat s k)"
    and unused: "inv s \<Longrightarrow> count (stat s k) = 0 \<Longrightarrow> contents (stat s k) = disk s k"
begin

text \<open>Two different blocks can be held at the same time when there is room for both.\<close>

lemma read_two:
  assumes "inv s" "fst a \<noteq> 0" "fst b \<noteq> 0" "a \<noteq> b" "\<not> is_locked (stat s a)" "\<not> is_locked (stat s b)"
    and room: "used s + (if count (stat s a) = 0 then 1 else 0) + (if count (stat s b) = 0 then 1 else 0) \<le> 30"
  shows "\<exists>i s1 j s2. rd (fst a) (snd a) s = Some (Ok (i, s1)) \<and> rd (fst b) (snd b) s1 = Some (Ok (j, s2)) \<and> inv s2 \<and>
    held s2 i a \<and> held s2 j b \<and> disk s2 = disk s \<and> hist s2 = hist s \<and> ext s2 = ext s \<and>
    used s2 = used s + (if count (stat s a) = 0 then 1 else 0) + (if count (stat s b) = 0 then 1 else 0) \<and>
    stat s2 = (stat s)(a := (contents (stat s a), count (stat s a) + 1, True), b := (contents (stat s b), count (stat s b) + 1, True))"
proof -
  have "0 < count (stat s a) \<or> used s < 30" using room by (auto split: if_splits)
  from rd [OF assms(1,2,5) this] obtain i s1 where 1: "rd (fst a) (snd a) s = Some (Ok (i, s1))" "inv s1" "held s1 i a"
    "disk s1 = disk s" "hist s1 = hist s" "ext s1 = ext s"
    "used s1 = used s + (if count (stat s a) = 0 then 1 else 0)"
    "stat s1 = (stat s)(a := (contents (stat s a), count (stat s a) + 1, True))" by blast
  have "stat s1 b = stat s b" using 1(8) assms(4) by simp
  moreover have "0 < count (stat s b) \<or> used s1 < 30" using room 1(7) by (auto split: if_splits)
  ultimately obtain j s2 where 2: "rd (fst b) (snd b) s1 = Some (Ok (j, s2))" "inv s2" "held s2 j b"
    "\<forall>j k'. held s1 j k' \<longrightarrow> held s2 j k'" "disk s2 = disk s1" "hist s2 = hist s1" "ext s2 = ext s1"
    "used s2 = used s1 + (if count (stat s b) = 0 then 1 else 0)"
    "stat s2 = (stat s1)(b := (contents (stat s b), count (stat s b) + 1, True))"
    using rd [OF 1(2) assms(3)] assms(6) by force
  have "held s2 i a" using 1(3) 2(4) by blast
  then show ?thesis
    by (intro exI [of _ i] exI [of _ s1] exI [of _ j] exI [of _ s2]) (use 1 2(1,2,3) 2(5-) in simp)
qed

text \<open>Copying over a held block and writing it through.\<close>

lemma put_write:
  assumes "inv s" "held s j b"
  shows "\<exists>s1 s2. put j (\<lambda>_. x) s = Some (Ok ((), s1)) \<and> wr j s1 = Some (Ok ((), s2)) \<and> inv s2 \<and> held s2 = held s \<and>
    disk s2 = (disk s)(b := x) \<and> hist s2 = disk s # hist s \<and> ext s2 = ext s \<and> used s2 = used s \<and>
    stat s2 = (stat s)(b := (x, snd (stat s b)))"
proof -
  from put [OF assms, of "\<lambda>_. x"] obtain s1 where 1: "put j (\<lambda>_. x) s = Some (Ok ((), s1))" "inv s1" "held s1 = held s"
    "disk s1 = disk s" "hist s1 = hist s" "ext s1 = ext s" "used s1 = used s" "stat s1 = (stat s)(b := (x, snd (stat s b)))" by blast
  moreover have "held s1 j b" using 1 assms by simp
  from wr [OF 1(2) this] obtain s2 where "wr j s1 = Some (Ok ((), s2))" "inv s2" "held s2 = held s1"
    "disk s2 = (disk s1)(b := contents (stat s1 b))" "hist s2 = disk s1 # hist s1" "ext s2 = ext s1" "used s2 = used s1"
    "stat s2 = stat s1" by blast
  ultimately show ?thesis by (intro exI [of _ s1] exI [of _ s2]) simp
qed

lemma release_two:
  assumes "inv s" "held s i a" "held s j b" "a \<noteq> b"
    and a: "1 < count (stat s a) \<or> contents (stat s a) = disk s a"
    and b: "1 < count (stat s b) \<or> contents (stat s b) = disk s b"
  shows "\<exists>s1 s2. rel i s = Some (Ok ((), s1)) \<and> rel j s1 = Some (Ok ((), s2)) \<and> inv s2 \<and> disk s2 = disk s \<and>
    hist s2 = hist s \<and> ext s2 = ext s \<and>
    used s2 + (if count (stat s a) = 1 then 1 else 0) + (if count (stat s b) = 1 then 1 else 0) = used s \<and>
    stat s2 = (stat s)(a := (contents (stat s a), count (stat s a) - 1, False), b := (contents (stat s b), count (stat s b) - 1, False))"
proof -
  from rel [OF assms(1,2) a] obtain s1 where 1: "rel i s = Some (Ok ((), s1))" "inv s1"
    "\<forall>j k'. held s j k' \<longrightarrow> k' \<noteq> a \<longrightarrow> held s1 j k'" "disk s1 = disk s" "hist s1 = hist s" "ext s1 = ext s"
    "used s1 + (if count (stat s a) = 1 then 1 else 0) = used s"
    "stat s1 = (stat s)(a := (contents (stat s a), count (stat s a) - 1, False))" by blast
  have h: "held s1 j b" using 1(3) assms(3,4) by blast
  have sb: "stat s1 b = stat s b" using 1(8) assms(4) by simp
  obtain s2 where "rel j s1 = Some (Ok ((), s2))" "inv s2"
    "disk s2 = disk s1" "hist s2 = hist s1" "ext s2 = ext s1"
    "used s2 + (if count (stat s b) = 1 then 1 else 0) = used s1"
    "stat s2 = (stat s1)(b := (contents (stat s b), count (stat s b) - 1, False))"
    using rel [OF 1(2) h] b sb 1(4) by auto
  then show ?thesis using 1 by (intro exI [of _ s1] exI [of _ s2]) (simp split: if_splits)
qed

lemma copy_target_last:
  assumes s: "inv s" "fst a \<noteq> 0" "fst b \<noteq> 0" "a \<noteq> b" "\<not> is_locked (stat s a)" "\<not> is_locked (stat s b)"
    and room: "used s + (if count (stat s a) = 0 then 1 else 0) + (if count (stat s b) = 0 then 1 else 0) \<le> 30"
    and u: "u \<longrightarrow> 0 < count (stat s b)"
  shows "\<exists>s'. bindA (rd (fst a) (snd a)) (\<lambda>l. bindA (rd (fst b) (snd b)) (\<lambda>d. bindA (get (\<lambda>s. data s l)) (\<lambda>x.
      doM (put d (\<lambda>_. x)) (doM (wr d) (doM (if u then unpin d else ret ()) (doM (rel l) (rel d))))))) s = Some (Ok ((), s')) \<and>
    inv s' \<and> disk s' = (disk s)(b := contents (stat s a)) \<and> hist s' = disk s # hist s \<and> ext s' = ext s \<and>
    used s' + (if u \<and> count (stat s b) = 1 then 1 else 0) = used s \<and>
    stat s' = (stat s)(b := (contents (stat s a), count (stat s b) - (if u then 1 else 0), False))"
proof -
  from read_two [OF s room] obtain i s1 j s2 where r: "rd (fst a) (snd a) s = Some (Ok (i, s1))"
    "rd (fst b) (snd b) s1 = Some (Ok (j, s2))" "inv s2" "held s2 i a" "held s2 j b" "disk s2 = disk s" "hist s2 = hist s" "ext s2 = ext s"
    "used s2 = used s + (if count (stat s a) = 0 then 1 else 0) + (if count (stat s b) = 0 then 1 else 0)"
    "stat s2 = (stat s)(a := (contents (stat s a), count (stat s a) + 1, True), b := (contents (stat s b), count (stat s b) + 1, True))"
    by blast
  let ?x = "contents (stat s a)"
  have x: "data s2 i = ?x" using held [OF r(3,4)] r(10) s(4) by simp
  from put_write [OF r(3,5), of ?x] obtain s3 s4 where w: "put j (\<lambda>_. ?x) s2 = Some (Ok ((), s3))" "wr j s3 = Some (Ok ((), s4))"
    "inv s4" "held s4 = held s2" "disk s4 = (disk s2)(b := ?x)" "hist s4 = disk s2 # hist s2" "ext s4 = ext s2" "used s4 = used s2"
    "stat s4 = (stat s2)(b := (?x, snd (stat s2 b)))" by blast
  have h4: "held s4 i a" "held s4 j b" using w(4) r(4,5) by simp_all
  obtain s5 where p: "(if u then unpin j else ret ()) s4 = Some (Ok ((), s5))" "inv s5" "held s5 = held s4" "disk s5 = disk s4"
    "hist s5 = hist s4" "ext s5 = ext s4" "used s5 = used s4"
    "stat s5 = (stat s4)(b := (?x, count (stat s b) + 1 - (if u then 1 else 0), True))"
  proof (cases u)
    case True
    have c: "1 < count (stat s4 b)" using u True w(9) r(10) by simp
    show ?thesis using unpin [OF w(3) h4(2) c] True w(9) r(10) that by auto
  next
    case False
    have "(stat s4)(b := (?x, count (stat s b) + 1, True)) = stat s4" using w(9) r(10) by (simp add: fun_eq_iff)
    then show ?thesis using False w(3) that [of s4] by simp
  qed
  have h5: "held s5 i a" "held s5 j b" using p(3) h4 by simp_all
  have sa: "stat s5 a = (?x, count (stat s a) + 1, True)" using p(8) w(9) r(10) s(4) by simp
  have sb: "stat s5 b = (?x, count (stat s b) + 1 - (if u then 1 else 0), True)" using p(8) by simp
  have da: "disk s5 a = disk s a" "disk s5 b = ?x" using p(4) w(5) r(6) s(4) by simp_all
  have "1 < count (stat s5 a) \<or> contents (stat s5 a) = disk s5 a" using sa da unused [OF s(1), of a] by auto
  moreover have "1 < count (stat s5 b) \<or> contents (stat s5 b) = disk s5 b" using sb da by simp
  ultimately obtain s6 s7 where e: "rel i s5 = Some (Ok ((), s6))" "rel j s6 = Some (Ok ((), s7))" "inv s7" "disk s7 = disk s5"
    "hist s7 = hist s5" "ext s7 = ext s5"
    "used s7 + (if count (stat s5 a) = 1 then 1 else 0) + (if count (stat s5 b) = 1 then 1 else 0) = used s5"
    "stat s7 = (stat s5)(a := (contents (stat s5 a), count (stat s5 a) - 1, False), b := (contents (stat s5 b), count (stat s5 b) - 1, False))"
    using release_two [OF p(2) h5 s(4)] by blast
  have "stat s7 = (stat s)(b := (?x, count (stat s b) - (if u then 1 else 0), False))"
    using e(8) sa sb p(8) w(9) r(10) s(5) by (auto simp: fun_eq_iff prod_eq_iff)
  moreover have "used s7 + (if u \<and> count (stat s b) = 1 then 1 else 0) = used s"
    using e(7) sa sb p(7) w(8) r(9) u by (auto split: if_splits)
  ultimately show ?thesis using e p w r x by (intro exI [of _ s7]) simp
qed

lemma copy_target_first:
  assumes s: "inv s" "fst a \<noteq> 0" "fst b \<noteq> 0" "a \<noteq> b" "\<not> is_locked (stat s a)" "\<not> is_locked (stat s b)"
    and room: "used s + (if count (stat s a) = 0 then 1 else 0) + (if count (stat s b) = 0 then 1 else 0) \<le> 30"
  shows "\<exists>s'. bindA (rd (fst a) (snd a)) (\<lambda>d. bindA (rd (fst b) (snd b)) (\<lambda>l. bindA (get (\<lambda>s. data s l)) (\<lambda>x.
      doM (put d (\<lambda>_. x)) (doM (wr d) (doM (rel l) (rel d)))))) s = Some (Ok ((), s')) \<and>
    inv s' \<and> disk s' = (disk s)(a := contents (stat s b)) \<and> hist s' = disk s # hist s \<and> ext s' = ext s \<and>
    used s' = used s \<and> stat s' = (stat s)(a := (contents (stat s b), count (stat s a), False))"
proof -
  from read_two [OF s room] obtain i s1 j s2 where r: "rd (fst a) (snd a) s = Some (Ok (i, s1))"
    "rd (fst b) (snd b) s1 = Some (Ok (j, s2))" "inv s2" "held s2 i a" "held s2 j b" "disk s2 = disk s" "hist s2 = hist s" "ext s2 = ext s"
    "used s2 = used s + (if count (stat s a) = 0 then 1 else 0) + (if count (stat s b) = 0 then 1 else 0)"
    "stat s2 = (stat s)(a := (contents (stat s a), count (stat s a) + 1, True), b := (contents (stat s b), count (stat s b) + 1, True))"
    by blast
  let ?x = "contents (stat s b)"
  have x: "data s2 j = ?x" using held [OF r(3,5)] r(10) by simp
  from put_write [OF r(3,4), of ?x] obtain s3 s4 where w: "put i (\<lambda>_. ?x) s2 = Some (Ok ((), s3))" "wr i s3 = Some (Ok ((), s4))"
    "inv s4" "held s4 = held s2" "disk s4 = (disk s2)(a := ?x)" "hist s4 = disk s2 # hist s2" "ext s4 = ext s2" "used s4 = used s2"
    "stat s4 = (stat s2)(a := (?x, snd (stat s2 a)))" by blast
  have h4: "held s4 i a" "held s4 j b" using w(4) r(4,5) by simp_all
  have sa: "stat s4 a = (?x, count (stat s a) + 1, True)" using w(9) r(10) s(4) by simp
  have sb: "stat s4 b = (?x, count (stat s b) + 1, True)" using w(9) r(10) s(4) by simp
  have da: "disk s4 a = ?x" "disk s4 b = disk s b" using w(5) r(6) s(4) by simp_all
  have "1 < count (stat s4 b) \<or> contents (stat s4 b) = disk s4 b" using sb da unused [OF s(1), of b] by auto
  moreover have "1 < count (stat s4 a) \<or> contents (stat s4 a) = disk s4 a" using sa da by simp
  ultimately obtain s6 s7 where e: "rel j s4 = Some (Ok ((), s6))" "rel i s6 = Some (Ok ((), s7))" "inv s7" "disk s7 = disk s4"
    "hist s7 = hist s4" "ext s7 = ext s4"
    "used s7 + (if count (stat s4 b) = 1 then 1 else 0) + (if count (stat s4 a) = 1 then 1 else 0) = used s4"
    "stat s7 = (stat s4)(b := (contents (stat s4 b), count (stat s4 b) - 1, False), a := (contents (stat s4 a), count (stat s4 a) - 1, False))"
    using release_two [OF w(3) h4(2,1)] s(4) by blast
  have "stat s7 = (stat s)(a := (?x, count (stat s a), False))"
    using e(8) sa sb w(9) r(10) s(6) by (auto simp: fun_eq_iff prod_eq_iff)
  moreover have "used s7 = used s" using e(7) sa sb w(8) r(9) by (auto split: if_splits)
  ultimately show ?thesis using e w r x by (intro exI [of _ s7]) simp
qed

text \<open>Rewriting one block and writing it through.\<close>

lemma rewrite_block:
  assumes s: "inv s" "fst k \<noteq> 0" "\<not> is_locked (stat s k)" "0 < count (stat s k) \<or> used s < 30"
  shows "\<exists>s'. bindA (rd (fst k) (snd k)) (\<lambda>b. doM (put b f) (doM (wr b) (rel b))) s = Some (Ok ((), s')) \<and>
    inv s' \<and> disk s' = (disk s)(k := f (contents (stat s k))) \<and> hist s' = disk s # hist s \<and> ext s' = ext s \<and>
    used s' = used s \<and> stat s' = (stat s)(k := (f (contents (stat s k)), count (stat s k), False))"
proof -
  from rd [OF s] obtain i s1 where r: "rd (fst k) (snd k) s = Some (Ok (i, s1))" "inv s1" "held s1 i k" "disk s1 = disk s"
    "hist s1 = hist s" "ext s1 = ext s" "used s1 = used s + (if count (stat s k) = 0 then 1 else 0)"
    "stat s1 = (stat s)(k := (contents (stat s k), count (stat s k) + 1, True))" by blast
  from put [OF r(2,3), of f] obtain s2 where p: "put i f s1 = Some (Ok ((), s2))" "inv s2" "held s2 = held s1" "disk s2 = disk s1"
    "hist s2 = hist s1" "ext s2 = ext s1" "used s2 = used s1" "stat s2 = (stat s1)(k := (f (contents (stat s1 k)), snd (stat s1 k)))"
    by blast
  have h: "held s2 i k" using p(3) r(3) by simp
  from wr [OF p(2) h] obtain s3 where w: "wr i s2 = Some (Ok ((), s3))" "inv s3" "held s3 = held s2"
    "disk s3 = (disk s2)(k := contents (stat s2 k))" "hist s3 = disk s2 # hist s2" "ext s3 = ext s2" "used s3 = used s2"
    "stat s3 = stat s2" by blast
  have h3: "held s3 i k" using w(3) h by simp
  have "contents (stat s3 k) = disk s3 k" using w by simp
  then obtain s4 where "rel i s3 = Some (Ok ((), s4))" "inv s4" "disk s4 = disk s3" "hist s4 = hist s3" "ext s4 = ext s3"
    "used s4 + (if count (stat s3 k) = 1 then 1 else 0) = used s3"
    "stat s4 = (stat s3)(k := (contents (stat s3 k), count (stat s3 k) - 1, False))"
    using rel [OF w(2) h3] by blast
  then show ?thesis using r p w by (intro exI [of _ s4]) (simp split: if_splits)
qed

text \<open>Reading one block.\<close>

lemma read_block:
  assumes s: "inv s" "fst k \<noteq> 0" "\<not> is_locked (stat s k)" "0 < count (stat s k) \<or> used s < 30"
  shows "\<exists>b s1 s2. rd (fst k) (snd k) s = Some (Ok (b, s1)) \<and> rel b s1 = Some (Ok ((), s2)) \<and>
    data s1 b = contents (stat s k) \<and> ext s1 = ext s \<and>
    inv s2 \<and> disk s2 = disk s \<and> hist s2 = hist s \<and> ext s2 = ext s \<and> used s2 = used s \<and> stat s2 = stat s"
proof -
  from rd [OF s] obtain i s1 where r: "rd (fst k) (snd k) s = Some (Ok (i, s1))" "inv s1" "held s1 i k" "disk s1 = disk s"
    "hist s1 = hist s" "ext s1 = ext s" "used s1 = used s + (if count (stat s k) = 0 then 1 else 0)"
    "stat s1 = (stat s)(k := (contents (stat s k), count (stat s k) + 1, True))" by blast
  have d: "data s1 i = contents (stat s k)" using held [OF r(2,3)] r(8) by simp
  have "1 < count (stat s1 k) \<or> contents (stat s1 k) = disk s1 k" using r unused [OF s(1), of k] by auto
  then obtain s4 where e: "rel i s1 = Some (Ok ((), s4))" "inv s4" "disk s4 = disk s1" "hist s4 = hist s1" "ext s4 = ext s1"
    "used s4 + (if count (stat s1 k) = 1 then 1 else 0) = used s1"
    "stat s4 = (stat s1)(k := (contents (stat s1 k), count (stat s1 k) - 1, False))"
    using rel [OF r(2,3)] by blast
  have "stat s4 = stat s" using e(7) r(8) s(3) by (auto simp: fun_eq_iff prod_eq_iff)
  then show ?thesis using e r d by (intro exI [of _ i] exI [of _ s1] exI [of _ s4]) (simp split: if_splits)
qed

end

end
