(* ===== verification/Bio.thy ===== *)
theory Bio
  imports Block_Cache Riscv
begin

text \<open>
  kernel/bio.c: the buffer cache. The array \<open>bcache.buf\<close> is a function from indices, the doubly
  linked list through \<open>bcache.head\<close> is the list \<open>lru\<close> of indices, most recently used first. The
  disk is a function from device and block number to block contents; \<open>past\<close> are the contents it
  had before each block write, newest first, so that a crash leaves one of \<open>dsk # past\<close>. A block
  transfer is atomic. A reference count is a natural number that wraps below zero; the number of
  references held at a time is far from \<open>2\<^sup>3\<^sup>2\<close>. A buffer's sleep lock is a flag; acquiring a lock that is held blocks.
\<close>

declare split_paired_All [simp del] split_paired_Ex [simp del]

section \<open>Definitions\<close>

definition BSIZE :: nat where "BSIZE = 1024"
definition ROOTDEV :: nat where "ROOTDEV = 1"

record buf =
  valid :: bool
  bdev :: nat
  blockno :: nat
  locked :: bool
  refcnt :: nat
  bdata :: block

record bcache =
  bufs :: "nat \<Rightarrow> buf"
  lru :: "nat list"
  dsk :: disk
  past :: "disk list"

definition set_buf :: "nat \<Rightarrow> (buf \<Rightarrow> buf) \<Rightarrow> 'a bcache_scheme \<Rightarrow> 'a bcache_scheme" where
  "set_buf i f s = s\<lparr>bufs := (bufs s)(i := f (bufs s i))\<rparr>"

definition dec32 :: "nat \<Rightarrow> nat" where
  "dec32 n = (if n = 0 then 2 ^ 32 - 1 else n - 1)"

definition binit :: "('a bcache_scheme, unit) act" where
  "binit = upd (\<lambda>s. s\<lparr>lru := rev [0..<NBUF]\<rparr>)"

definition virtio_disk_rw :: "nat \<Rightarrow> bool \<Rightarrow> ('a bcache_scheme, unit) act" where
  "virtio_disk_rw i w =
     upd (\<lambda>s. let b = bufs s i; k = (bdev b, blockno b) in
       if w then s\<lparr>dsk := (dsk s)(k := bdata b), past := dsk s # past s\<rparr>
       else set_buf i (\<lambda>b. b\<lparr>bdata := dsk s k\<rparr>) s)"

definition acquirebuf :: "nat \<Rightarrow> ('a bcache_scheme, nat) act" where
  "acquirebuf i =
     bindA (get (\<lambda>s. locked (bufs s i))) (\<lambda>l.
       if l then blocked else doM (upd (set_buf i (\<lambda>b. b\<lparr>locked := True\<rparr>))) (ret i))"

definition bget :: "nat \<Rightarrow> nat \<Rightarrow> ('a bcache_scheme, nat) act" where
  "bget dev bno =
     bindA (get (\<lambda>s. find (\<lambda>i. bdev (bufs s i) = dev \<and> blockno (bufs s i) = bno) (lru s))) (\<lambda>r.
       case r of
         Some i \<Rightarrow> doM (upd (set_buf i (\<lambda>b. b\<lparr>refcnt := refcnt b + 1\<rparr>))) (acquirebuf i)
       | None \<Rightarrow>
           bindA (get (\<lambda>s. find (\<lambda>i. refcnt (bufs s i) = 0) (rev (lru s)))) (\<lambda>r.
             case r of
               Some i \<Rightarrow>
                 doM (upd (set_buf i (\<lambda>b. b\<lparr>bdev := dev, blockno := bno, valid := False, refcnt := 1\<rparr>))) (acquirebuf i)
             | None \<Rightarrow> panic ''bget: no buffers''))"

definition bread :: "nat \<Rightarrow> nat \<Rightarrow> ('a bcache_scheme, nat) act" where
  "bread dev bno =
     bindA (bget dev bno) (\<lambda>i.
       bindA (get (\<lambda>s. valid (bufs s i))) (\<lambda>v.
         if \<not> v then doM (virtio_disk_rw i False) (doM (upd (set_buf i (\<lambda>b. b\<lparr>valid := True\<rparr>))) (ret i))
         else ret i))"

definition bwrite :: "nat \<Rightarrow> ('a bcache_scheme, unit) act" where
  "bwrite i =
     bindA (get (\<lambda>s. locked (bufs s i))) (\<lambda>l. if \<not> l then panic ''bwrite'' else virtio_disk_rw i True)"

definition brelse :: "nat \<Rightarrow> ('a bcache_scheme, unit) act" where
  "brelse i =
     bindA (get (\<lambda>s. locked (bufs s i))) (\<lambda>l.
       if \<not> l then panic ''brelse''
       else upd (\<lambda>s.
         let s1 = set_buf i (\<lambda>b. b\<lparr>locked := False, refcnt := dec32 (refcnt b)\<rparr>) s in
         if refcnt (bufs s1 i) = 0 then s1\<lparr>lru := i # removeAll i (lru s1)\<rparr> else s1))"

definition bpin :: "nat \<Rightarrow> ('a bcache_scheme, unit) act" where
  "bpin i = upd (set_buf i (\<lambda>b. b\<lparr>refcnt := refcnt b + 1\<rparr>))"

definition bunpin :: "nat \<Rightarrow> ('a bcache_scheme, unit) act" where
  "bunpin i = upd (set_buf i (\<lambda>b. b\<lparr>refcnt := dec32 (refcnt b)\<rparr>))"

text \<open>Modifying the data of a buffer, as its holder does.\<close>

definition set_data :: "nat \<Rightarrow> (block \<Rightarrow> block) \<Rightarrow> ('a bcache_scheme, unit) act" where
  "set_data i f = upd (set_buf i (\<lambda>b. b\<lparr>bdata := f (bdata b)\<rparr>))"

abbreviation data_of :: "nat \<Rightarrow> ('a bcache_scheme, block) act" where
  "data_of i \<equiv> get (\<lambda>s. bdata (bufs s i))"

section \<open>What the cache holds\<close>

definition key :: "buf \<Rightarrow> nat \<times> nat" where
  "key b = (bdev b, blockno b)"

definition binv :: "'a bcache_scheme \<Rightarrow> bool" where
  "binv s \<longleftrightarrow> distinct (lru s) \<and> set (lru s) = {..<NBUF} \<and>
     (\<forall>i<NBUF. \<forall>j<NBUF. i \<noteq> j \<longrightarrow> bdev (bufs s i) \<noteq> 0 \<longrightarrow> key (bufs s i) \<noteq> key (bufs s j)) \<and>
     (\<forall>i<NBUF. bdev (bufs s i) = 0 \<longrightarrow> refcnt (bufs s i) = 0 \<and> \<not> valid (bufs s i)) \<and>
     (\<forall>i<NBUF. locked (bufs s i) \<longrightarrow> 0 < refcnt (bufs s i)) \<and>
     (\<forall>i<NBUF. refcnt (bufs s i) = 0 \<longrightarrow> valid (bufs s i) \<longrightarrow> bdata (bufs s i) = dsk s (key (bufs s i)))"

definition slotof :: "'a bcache_scheme \<Rightarrow> nat \<times> nat \<Rightarrow> nat option" where
  "slotof s k = find (\<lambda>i. key (bufs s i) = k) (lru s)"

text \<open>
  The contents of a block as the kernel sees them, its reference count and whether it is locked.
\<close>

definition info :: "'a bcache_scheme \<Rightarrow> nat \<times> nat \<Rightarrow> block \<times> nat \<times> bool" where
  "info s k =
     (case slotof s k of None \<Rightarrow> (dsk s k, 0, False)
      | Some i \<Rightarrow> let b = bufs s i in (if valid b then bdata b else dsk s k, refcnt b, locked b))"

definition view :: "'a bcache_scheme \<Rightarrow> disk" where "view s k = fst (info s k)"
definition refs :: "'a bcache_scheme \<Rightarrow> nat \<times> nat \<Rightarrow> nat" where "refs s k = fst (snd (info s k))"
definition lockd :: "'a bcache_scheme \<Rightarrow> nat \<times> nat \<Rightarrow> bool" where "lockd s k = snd (snd (info s k))"

lemma binvD:
  assumes "binv s"
  shows "distinct (lru s)" "set (lru s) = {..<30}"
    "i < 30 \<Longrightarrow> j < 30 \<Longrightarrow> bdev (bufs s i) \<noteq> 0 \<Longrightarrow> key (bufs s i) = key (bufs s j) \<Longrightarrow> i = j"
    "i < 30 \<Longrightarrow> bdev (bufs s i) = 0 \<Longrightarrow> refcnt (bufs s i) = 0 \<and> \<not> valid (bufs s i)"
    "i < 30 \<Longrightarrow> locked (bufs s i) \<Longrightarrow> 0 < refcnt (bufs s i)"
    "i < 30 \<Longrightarrow> refcnt (bufs s i) = 0 \<Longrightarrow> valid (bufs s i) \<Longrightarrow> bdata (bufs s i) = dsk s (key (bufs s i))"
  using assms unfolding binv_def by auto

lemma find_SomeD: "find P xs = Some x \<Longrightarrow> x \<in> set xs \<and> P x"
  by (auto simp: find_Some_iff)

lemma bdev_key: "bdev b = fst (key b)"
  by (simp add: key_def)

lemma info_at:
  assumes "binv s" "i < 30" "key (bufs s i) = k" "fst k \<noteq> 0"
  shows "slotof s k = Some i"
    and "info s k = (if valid (bufs s i) then bdata (bufs s i) else dsk s k, refcnt (bufs s i), locked (bufs s i))"
proof -
  have "i \<in> set (lru s)" using binvD(2) [OF assms(1)] assms(2) by simp
  then have "find (\<lambda>j. key (bufs s j) = k) (lru s) \<noteq> None" using assms(3) by (auto simp: find_None_iff)
  then obtain j where j: "find (\<lambda>j. key (bufs s j) = k) (lru s) = Some j" by blast
  then have "key (bufs s j) = k" "j \<in> set (lru s)" by (auto simp: find_Some_iff)
  then have "j = i" using binvD(2,3) [OF assms(1)] assms(2,3,4) by (auto simp: bdev_key)
  then show "slotof s k = Some i" using j by (simp add: slotof_def)
  then show "info s k = (if valid (bufs s i) then bdata (bufs s i) else dsk s k, refcnt (bufs s i), locked (bufs s i))"
    by (simp add: info_def Let_def)
qed

lemma info_absent:
  assumes "binv s" "fst k = 0 \<or> (\<forall>i<30. key (bufs s i) \<noteq> k)"
  shows "info s k = (dsk s k, 0, False)"
proof (cases "slotof s k")
  case None
  then show ?thesis by (simp add: info_def Let_def)
next
  case (Some i)
  then have i: "i < 30" "key (bufs s i) = k" using binvD(2) [OF assms(1)] by (auto simp: slotof_def find_Some_iff)
  then have "bdev (bufs s i) = 0" using assms(2) by (auto simp: bdev_key)
  then have "refcnt (bufs s i) = 0" "\<not> valid (bufs s i)" "\<not> locked (bufs s i)"
    using binvD(4,5) [OF assms(1) i(1)] by auto
  then show ?thesis using Some by (simp add: info_def Let_def)
qed

text \<open>Changing one buffer changes what is known about its old and its new block only.\<close>

lemma update_buf:
  assumes inv: "binv s" and i: "i < 30" and b: "bdev b \<noteq> 0" "\<And>j. j < 30 \<Longrightarrow> j \<noteq> i \<Longrightarrow> key (bufs s j) \<noteq> key b"
    "locked b \<Longrightarrow> 0 < refcnt b" "refcnt b = 0 \<Longrightarrow> valid b \<Longrightarrow> bdata b = dsk s (key b)"
    and s': "s' = s\<lparr>bufs := (bufs s)(i := b)\<rparr>"
  shows "binv s'"
    and "info s' k = (if k = key b then (if valid b then bdata b else dsk s k, refcnt b, locked b)
                      else if k = key (bufs s i) then (dsk s k, 0, False) else info s k)"
proof -
  show inv': "binv s'" unfolding binv_def s'
    using binvD [OF inv] b i by (auto split: if_splits) metis
  have bi: "bufs s' i = b" "\<And>j. j \<noteq> i \<Longrightarrow> bufs s' j = bufs s j" "dsk s' = dsk s" using s' by simp_all
  consider "k = key b" | "k \<noteq> key b" "fst k = 0" | "k \<noteq> key b" "fst k \<noteq> 0" "\<exists>j<30. j \<noteq> i \<and> key (bufs s j) = k"
    | "k \<noteq> key b" "fst k \<noteq> 0" "\<forall>j<30. j \<noteq> i \<longrightarrow> key (bufs s j) \<noteq> k" by blast
  then show "info s' k = (if k = key b then (if valid b then bdata b else dsk s k, refcnt b, locked b)
                      else if k = key (bufs s i) then (dsk s k, 0, False) else info s k)"
  proof cases
    case 1
    then show ?thesis using info_at(2) [OF inv' i, of k] bi b(1) by (simp add: bdev_key)
  next
    case 2
    then show ?thesis using info_absent [OF inv', of k] info_absent [OF inv, of k] bi by simp
  next
    case 3
    then obtain j where j: "j < 30" "j \<noteq> i" "key (bufs s j) = k" by blast
    then have "k \<noteq> key (bufs s i)" using binvD(3) [OF inv j(1) i] 3 by (auto simp: bdev_key)
    then show ?thesis using info_at(2) [OF inv j(1,3)] info_at(2) [OF inv' j(1), of k] bi j 3 by simp
  next
    case 4
    have "\<forall>j<30. key (bufs s' j) \<noteq> k" using 4 bi by (metis)
    then have "info s' k = (dsk s k, 0, False)" using info_absent [OF inv', of k] bi by simp
    moreover have "info s k = (dsk s k, 0, False)" if "k \<noteq> key (bufs s i)"
      using info_absent [OF inv, of k] 4 that by metis
    ultimately show ?thesis using 4 by simp
  qed
qed

lemma update_lru:
  assumes "binv s" "distinct xs" "set xs = {..<30}"
  shows "binv (s\<lparr>lru := xs\<rparr>)" "info (s\<lparr>lru := xs\<rparr>) k = info s k"
proof -
  let ?s = "s\<lparr>lru := xs\<rparr>"
  show inv': "binv ?s" using assms by (simp add: binv_def)
  show "info ?s k = info s k"
  proof (cases "fst k \<noteq> 0 \<and> (\<exists>i<30. key (bufs s i) = k)")
    case True
    then obtain i where "i < 30" "key (bufs s i) = k" by blast
    then show ?thesis using info_at(2) [OF assms(1), of i k] info_at(2) [OF inv', of i k] True by simp
  next
    case False
    then show ?thesis using info_absent [OF assms(1), of k] info_absent [OF inv', of k] by simp
  qed
qed

lemma write_block:
  assumes inv: "binv s" and i: "i < 30" "bdev (bufs s i) \<noteq> 0" "valid (bufs s i)" "0 < refcnt (bufs s i)"
    and s': "s' = s\<lparr>dsk := (dsk s)(key (bufs s i) := bdata (bufs s i)), past := p\<rparr>"
  shows "binv s'" "info s' k = info s k"
proof -
  have other: "key (bufs s j) \<noteq> key (bufs s i)" if "j < 30" "j \<noteq> i" for j using binvD(3) [OF inv i(1) that(1) i(2)] that by auto
  show inv': "binv s'" unfolding binv_def s' using binvD [OF inv] i other by auto (metis less_not_refl)
  show "info s' k = info s k"
  proof (cases "fst k \<noteq> 0 \<and> (\<exists>j<30. key (bufs s j) = k)")
    case True
    then obtain j where j: "j < 30" "key (bufs s j) = k" by blast
    then show ?thesis
      using info_at(2) [OF inv, of j k] info_at(2) [OF inv', of j k] True other [of j] i by (cases "j = i") (auto simp: s')
  next
    case False
    then have "k \<noteq> key (bufs s i)" using i by (auto simp: bdev_key)
    then show ?thesis using info_absent [OF inv, of k] info_absent [OF inv', of k] False by (simp add: s')
  qed
qed

section \<open>The operations\<close>

text \<open>A buffer somebody holds: referenced, locked and up to date.\<close>

definition holds :: "'a bcache_scheme \<Rightarrow> nat \<Rightarrow> nat \<times> nat \<Rightarrow> bool" where
  "holds s i k \<longleftrightarrow> i < 30 \<and> key (bufs s i) = k \<and> fst k \<noteq> 0 \<and> valid (bufs s i) \<and> locked (bufs s i)"

lemma holds_info:
  assumes "binv s" "holds s i k"
  shows "info s k = (bdata (bufs s i), refcnt (bufs s i), True)" "0 < refcnt (bufs s i)"
  using info_at(2) [OF assms(1), of i k] binvD(5) [OF assms(1), of i] assms(2) by (auto simp: holds_def)

lemma set_buf_update: "set_buf i f s = s\<lparr>bufs := (bufs s)(i := f (bufs s i))\<rparr>"
  by (simp add: set_buf_def)

text \<open>Changing a buffer without changing which block it holds.\<close>

lemma update_same_key:
  assumes inv: "binv s" and i: "i < 30" "key (bufs s i) = k" "fst k \<noteq> 0" and f: "key (f (bufs s i)) = k"
    "locked (f (bufs s i)) \<Longrightarrow> 0 < refcnt (f (bufs s i))"
    "refcnt (f (bufs s i)) = 0 \<Longrightarrow> valid (f (bufs s i)) \<Longrightarrow> bdata (f (bufs s i)) = dsk s k"
  shows "binv (set_buf i f s)"
    and "info (set_buf i f s) = (info s)(k := (if valid (f (bufs s i)) then bdata (f (bufs s i)) else dsk s k,
      refcnt (f (bufs s i)), locked (f (bufs s i))))"
proof -
  have ne: "key (bufs s j) \<noteq> k" if "j < 30" "j \<noteq> i" for j
    using binvD(3) [OF inv i(1) that(1)] i that by (auto simp: bdev_key)
  have dev: "bdev (f (bufs s i)) \<noteq> 0" using f(1) i(3) by (simp add: bdev_key)
  let ?b = "f (bufs s i)" and ?s' = "set_buf i f s"
  show "binv ?s'"
    by (rule update_buf(1) [of s i ?b]) (use inv i(1) dev ne f in \<open>simp_all add: set_buf_def\<close>)
  have "info ?s' j = (if j = key ?b then (if valid ?b then bdata ?b else dsk s j, refcnt ?b, locked ?b)
      else if j = key (bufs s i) then (dsk s j, 0, False) else info s j)" for j
    by (rule update_buf(2)) (use inv i(1) dev ne f in \<open>simp_all add: set_buf_def\<close>)
  then show "info ?s' = (info s)(k := (if valid ?b then bdata ?b else dsk s k, refcnt ?b, locked ?b))"
    using i(2) f(1) by (simp add: fun_eq_iff)
qed

lemma set_buf_other [simp]: "dsk (set_buf i f s) = dsk s" "past (set_buf i f s) = past s" "lru (set_buf i f s) = lru s"
  "bcache.more (set_buf i f s) = bcache.more s" "bufs (set_buf i f s) i = f (bufs s i)"
  by (simp_all add: set_buf_def)

definition same_disk :: "'a bcache_scheme \<Rightarrow> 'a bcache_scheme \<Rightarrow> bool" where
  "same_disk s s' \<longleftrightarrow> dsk s' = dsk s \<and> past s' = past s \<and> bcache.more s' = bcache.more s"

lemma bget_cached:
  assumes inv: "binv s" and i: "slotof s (dev, bno) = Some i" "dev \<noteq> 0" "\<not> locked (bufs s i)"
  shows "bget dev bno s = Some (Ok (i, set_buf i (\<lambda>b. b\<lparr>refcnt := refcnt b + 1, locked := True\<rparr>) s))"
proof -
  have "find (\<lambda>i. bdev (bufs s i) = dev \<and> blockno (bufs s i) = bno) (lru s) = Some i"
    using i(1) by (simp add: slotof_def key_def)
  then show ?thesis using i(3) by (simp add: bget_def acquirebuf_def set_buf_def)
qed

lemma bget_fresh:
  assumes inv: "binv s" and none: "slotof s (dev, bno) = None" and free: "\<exists>i<30. refcnt (bufs s i) = 0"
  shows "\<exists>i<30. refcnt (bufs s i) = 0 \<and> bget dev bno s =
    Some (Ok (i, set_buf i (\<lambda>b. b\<lparr>bdev := dev, blockno := bno, valid := False, refcnt := 1, locked := True\<rparr>) s))"
proof -
  have f1: "find (\<lambda>i. bdev (bufs s i) = dev \<and> blockno (bufs s i) = bno) (lru s) = None"
    using none by (simp add: slotof_def key_def)
  obtain i where i: "find (\<lambda>i. refcnt (bufs s i) = 0) (rev (lru s)) = Some i"
    using free binvD(2) [OF inv] by (cases "find (\<lambda>i. refcnt (bufs s i) = 0) (rev (lru s))") (auto simp: find_None_iff)
  have "i \<in> set (rev (lru s))" and r: "refcnt (bufs s i) = 0" using find_SomeD [OF i] by simp_all
  then have "i < 30" using binvD(2) [OF inv] by simp
  moreover have "\<not> locked (bufs s i)" using binvD(5) [OF inv \<open>i < 30\<close>] r by auto
  ultimately show ?thesis using f1 i r by (intro exI [of _ i]) (simp add: bget_def acquirebuf_def set_buf_def)
qed

lemma slotof_None:
  assumes "binv s"
  shows "slotof s k = None \<longleftrightarrow> (\<forall>i<30. key (bufs s i) \<noteq> k)"
  using binvD(2) [OF assms] by (auto simp: slotof_def find_None_iff)

lemma slotof_Some:
  assumes "binv s" "slotof s k = Some i"
  shows "i < 30" "key (bufs s i) = k"
  using assms binvD(2) [OF assms(1)] by (auto simp: slotof_def find_Some_iff)

text \<open>Held buffers are not disturbed by operations on other buffers.\<close>

definition keeps_held :: "'a bcache_scheme \<Rightarrow> 'a bcache_scheme \<Rightarrow> nat \<Rightarrow> bool" where
  "keeps_held s s' i \<longleftrightarrow> (\<forall>j. j \<noteq> i \<longrightarrow> bufs s' j = bufs s j)"

lemma set_buf_keeps [simp]: "keeps_held s (set_buf i f s) i"
  by (simp add: keeps_held_def set_buf_def)

text \<open>After \<open>bget\<close> the block is referenced once more and locked; its contents are unchanged.\<close>

lemma bget_spec:
  assumes inv: "binv s" and k: "dev \<noteq> 0" "\<not> lockd s (dev, bno)" and free: "refs s (dev, bno) > 0 \<or> (\<exists>i<30. refcnt (bufs s i) = 0)"
  shows "\<exists>i s'. bget dev bno s = Some (Ok (i, s')) \<and> binv s' \<and> i < 30 \<and> key (bufs s' i) = (dev, bno) \<and> locked (bufs s' i) \<and>
    \<not> locked (bufs s i) \<and> keeps_held s s' i \<and>
    same_disk s s' \<and> info s' = (info s)((dev, bno) := (view s (dev, bno), refs s (dev, bno) + 1, True)) \<and>
    (refs s (dev, bno) = 0 \<longleftrightarrow> refcnt (bufs s i) = 0)"
proof (cases "slotof s (dev, bno)")
  case (Some i)
  let ?f = "\<lambda>b. b\<lparr>refcnt := refcnt b + 1, locked := True\<rparr>"
  note i = slotof_Some [OF inv Some]
  note at = info_at(2) [OF inv i, simplified, OF k(1) [simplified]]
  have nl: "\<not> locked (bufs s i)" using k(2) at by (simp add: lockd_def)
  have "binv (set_buf i ?f s)" "info (set_buf i ?f s) = (info s)((dev, bno) := (if valid (bufs s i) then bdata (bufs s i) else dsk s (dev, bno), refcnt (bufs s i) + 1, True))"
    using update_same_key [OF inv i, of ?f] k(1) i(2) by (simp_all add: key_def)
  then show ?thesis using bget_cached [OF inv Some k(1) nl] i at
    by (auto simp: same_disk_def view_def refs_def key_def nl)
next
  case None
  have ab: "\<forall>i<30. key (bufs s i) \<noteq> (dev, bno)" using None slotof_None [OF inv] by blast
  have in0: "info s (dev, bno) = (dsk s (dev, bno), 0, False)" using info_absent [OF inv, of "(dev, bno)"] ab by blast
  then have "\<exists>i<30. refcnt (bufs s i) = 0" using free by (simp add: refs_def)
  from bget_fresh [OF inv None this] obtain i where i: "i < 30" "refcnt (bufs s i) = 0"
    "bget dev bno s = Some (Ok (i, set_buf i (\<lambda>b. b\<lparr>bdev := dev, blockno := bno, valid := False, refcnt := 1, locked := True\<rparr>) s))"
    by blast
  let ?b = "(bufs s i)\<lparr>bdev := dev, blockno := bno, valid := False, refcnt := 1, locked := True\<rparr>"
  let ?s' = "set_buf i (\<lambda>b. b\<lparr>bdev := dev, blockno := bno, valid := False, refcnt := 1, locked := True\<rparr>) s"
  have kb: "key ?b = (dev, bno)" by (simp add: key_def)
  have inv': "binv ?s'"
    by (rule update_buf(1) [of s i ?b]) (use inv i(1) k(1) ab in \<open>simp_all add: set_buf_def key_def\<close>)
  have "info ?s' j = (if j = key ?b then (if valid ?b then bdata ?b else dsk s j, refcnt ?b, locked ?b)
      else if j = key (bufs s i) then (dsk s j, 0, False) else info s j)" for j
    by (rule update_buf(2)) (use inv i(1) k(1) ab in \<open>simp_all add: set_buf_def key_def\<close>)
  moreover have "info s (key (bufs s i)) = (dsk s (key (bufs s i)), 0, False)"
  proof (cases "fst (key (bufs s i)) = 0")
    case True
    then show ?thesis using info_absent [OF inv] by blast
  next
    case False
    have "\<not> locked (bufs s i)" using binvD(5) [OF inv i(1)] i(2) by auto
    then show ?thesis using info_at(2) [OF inv i(1) refl False] i(2) binvD(6) [OF inv i(1,2)] by simp
  qed
  ultimately have "info ?s' = (info s)((dev, bno) := (dsk s (dev, bno), 1, True))" using kb by (auto simp: fun_eq_iff)
  moreover have "\<not> locked (bufs s i)" using binvD(5) [OF inv i(1)] i(2) by auto
  ultimately show ?thesis using i inv' in0 by (simp add: same_disk_def view_def refs_def key_def)
qed

text \<open>The number of buffers in use; a block that is not cached needs one more.\<close>

definition nref :: "'a bcache_scheme \<Rightarrow> nat" where
  "nref s = card {i. i < 30 \<and> 0 < refcnt (bufs s i)}"

lemma nref_free: "nref s < 30 \<Longrightarrow> \<exists>i<30. refcnt (bufs s i) = 0"
proof (rule ccontr)
  assume "nref s < 30" "\<not> (\<exists>i<30. refcnt (bufs s i) = 0)"
  then have "{i. i < 30 \<and> 0 < refcnt (bufs s i)} = {..<30}" by auto
  then show False using \<open>nref s < 30\<close> by (simp add: nref_def)
qed

lemma nref_update:
  assumes "i < 30" "\<And>j. j \<noteq> i \<Longrightarrow> bufs s' j = bufs s j"
  shows "nref s' + (if 0 < refcnt (bufs s i) then 1 else 0) = nref s + (if 0 < refcnt (bufs s' i) then 1 else 0)"
proof -
  let ?A = "{j. j < 30 \<and> 0 < refcnt (bufs s j)}" and ?B = "{j. j < 30 \<and> 0 < refcnt (bufs s' j)}"
  have fin: "finite ?A" "finite ?B" by simp_all
  have d: "?A - {i} = ?B - {i}" using assms(2) by auto
  have c: "card A = card (A - {i}) + (if i \<in> A then 1 else 0)" if "finite A" for A :: "nat set"
    using card_Suc_Diff1 [OF that, of i] by auto
  from c [OF fin(1)] c [OF fin(2)] show ?thesis unfolding nref_def d using assms(1) by simp
qed

lemma bread_spec:
  assumes inv: "binv s" and k: "dev \<noteq> 0" "\<not> lockd s (dev, bno)" and free: "refs s (dev, bno) > 0 \<or> nref s < 30"
  shows "\<exists>i s'. bread dev bno s = Some (Ok (i, s')) \<and> binv s' \<and> holds s' i (dev, bno) \<and> \<not> locked (bufs s i) \<and>
    keeps_held s s' i \<and> same_disk s s' \<and> nref s' = nref s + (if refs s (dev, bno) = 0 then 1 else 0) \<and>
    info s' = (info s)((dev, bno) := (view s (dev, bno), refs s (dev, bno) + 1, True))"
proof -
  let ?k = "(dev, bno)"
  from bget_spec [OF inv k] free nref_free [of s] obtain i s1 where
    g: "bget dev bno s = Some (Ok (i, s1))" "binv s1" "i < 30" "key (bufs s1 i) = ?k" "locked (bufs s1 i)"
    "\<not> locked (bufs s i)" "keeps_held s s1 i" "same_disk s s1"
    "info s1 = (info s)(?k := (view s ?k, refs s ?k + 1, True))" "refs s ?k = 0 \<longleftrightarrow> refcnt (bufs s i) = 0"
    by (elim disjE) (metis+)
  have fk: "fst ?k \<noteq> 0" using k(1) by simp
  note at = info_at(2) [OF g(2,3,4) fk]
  have rc: "refcnt (bufs s1 i) = refs s ?k + 1" using at g(9) by simp
  have fin: "nref s' = nref s + (if refs s ?k = 0 then 1 else 0)"
    if s': "keeps_held s s' i" "refcnt (bufs s' i) = refs s ?k + 1" for s' :: "'a bcache_scheme"
    using nref_update [OF g(3), of s' s] s' g(10) by (simp add: keeps_held_def split: if_splits)
  show ?thesis
  proof (cases "valid (bufs s1 i)")
    case True
    then have "bread dev bno s = Some (Ok (i, s1))" using g(1) by (simp add: bread_def)
    then show ?thesis using g True fin [OF g(7) rc] fk by (auto simp: holds_def)
  next
    case False
    let ?f = "\<lambda>b. b\<lparr>bdata := dsk s1 ?k, valid := True\<rparr>"
    let ?s' = "set_buf i ?f s1"
    have kk: "(bdev (bufs s1 i), blockno (bufs s1 i)) = ?k" using g(4) by (simp add: key_def)
    have run: "bread dev bno s = Some (Ok (i, ?s'))"
      using g(1) False kk by (simp add: bread_def virtio_disk_rw_def Let_def set_buf_def)
    have dv: "dsk s1 ?k = view s ?k" using at g(9) False by simp
    have "binv ?s'" "info ?s' = (info s1)(?k := (dsk s1 ?k, refcnt (bufs s1 i), True))"
      using update_same_key [OF g(2,3,4) fk, of ?f] g(4,5) rc by (simp_all add: key_def)
    moreover have "keeps_held s ?s' i" using g(7) by (simp add: keeps_held_def set_buf_def)
    moreover have "nref ?s' = nref s + (if refs s ?k = 0 then 1 else 0)" using fin [OF \<open>keeps_held s ?s' i\<close>] rc by simp
    ultimately show ?thesis using run g dv rc fk
      by (intro exI [of _ i] exI [of _ ?s']) (simp add: holds_def same_disk_def key_def)
  qed
qed

lemma bwrite_spec:
  assumes "binv s" "holds s i k"
  shows "\<exists>s'. bwrite i s = Some (Ok ((), s')) \<and> binv s' \<and> bufs s' = bufs s \<and> info s' = info s \<and>
    dsk s' = (dsk s)(k := view s k) \<and> past s' = dsk s # past s \<and> bcache.more s' = bcache.more s"
proof -
  let ?s' = "s\<lparr>dsk := (dsk s)(key (bufs s i) := bdata (bufs s i)), past := dsk s # past s\<rparr>"
  have h: "i < 30" "key (bufs s i) = k" "fst k \<noteq> 0" "valid (bufs s i)" "locked (bufs s i)" "0 < refcnt (bufs s i)"
    using assms holds_info(2) [OF assms] by (simp_all add: holds_def)
  have "bwrite i s = Some (Ok ((), ?s'))" using h by (simp add: bwrite_def virtio_disk_rw_def Let_def key_def)
  moreover have "binv ?s'" by (rule write_block(1) [OF assms(1) h(1)]) (use h in \<open>simp_all add: bdev_key\<close>)
  moreover have "info ?s' j = info s j" for j
    by (rule write_block(2) [OF assms(1) h(1)]) (use h in \<open>simp_all add: bdev_key\<close>)
  ultimately show ?thesis using holds_info(1) [OF assms] h(2) by (auto simp: view_def fun_eq_iff)
qed

lemma brelse_spec:
  assumes "binv s" "holds s i k" "1 < refs s k \<or> view s k = dsk s k"
  shows "\<exists>s'. brelse i s = Some (Ok ((), s')) \<and> binv s' \<and> keeps_held s s' i \<and> same_disk s s' \<and>
    nref s' + (if refs s k = 1 then 1 else 0) = nref s \<and>
    info s' = (info s)(k := (view s k, refs s k - 1, False))"
proof -
  let ?f = "\<lambda>b. b\<lparr>locked := False, refcnt := dec32 (refcnt b)\<rparr>"
  let ?s1 = "set_buf i ?f s"
  have h: "i < 30" "key (bufs s i) = k" "fst k \<noteq> 0" "valid (bufs s i)" "locked (bufs s i)"
    using assms by (simp_all add: holds_def)
  note hi = holds_info [OF assms(1,2)]
  have v: "view s k = bdata (bufs s i)" "refs s k = refcnt (bufs s i)" using hi by (simp_all add: view_def refs_def)
  have u: "binv ?s1" "info ?s1 = (info s)(k := (view s k, refs s k - 1, False))"
    using update_same_key [OF assms(1) h(1,2,3), of ?f] h assms(3) v hi(2) by (auto simp: key_def dec32_def)
  let ?s' = "if refcnt (bufs ?s1 i) = 0 then ?s1\<lparr>lru := i # removeAll i (lru ?s1)\<rparr> else ?s1"
  have run: "brelse i s = Some (Ok ((), ?s'))" using h(5) by (simp add: brelse_def Let_def)
  have "distinct (i # removeAll i (lru ?s1))" "set (i # removeAll i (lru ?s1)) = {..<30}"
    using binvD(1,2) [OF u(1)] h(1) by (auto simp: distinct_removeAll)
  then have "binv ?s'" "info ?s' j = info ?s1 j" for j using update_lru [OF u(1)] u(1) by simp_all
  moreover have kh: "keeps_held s ?s' i" by (simp add: keeps_held_def set_buf_def)
  moreover have "nref ?s' + (if refs s k = 1 then 1 else 0) = nref s"
    using nref_update [OF h(1), of ?s' s] kh v hi(2) by (auto simp: keeps_held_def dec32_def split: if_splits)
  ultimately show ?thesis using run u(2) by (intro exI [of _ ?s']) (auto simp: same_disk_def fun_eq_iff)
qed

text \<open>Changing the data or the reference count of a held buffer.\<close>

lemma held_update:
  assumes "binv s" "holds s i k" and f: "key (f (bufs s i)) = k" "valid (f (bufs s i))" "locked (f (bufs s i))"
    "0 < refcnt (f (bufs s i))"
  shows "binv (set_buf i f s)" "holds (set_buf i f s) = holds s" "nref (set_buf i f s) = nref s"
    "info (set_buf i f s) = (info s)(k := (bdata (f (bufs s i)), refcnt (f (bufs s i)), True))"
proof -
  have h: "i < 30" "key (bufs s i) = k" "fst k \<noteq> 0" "valid (bufs s i)" "locked (bufs s i)"
    using assms(2) by (simp_all add: holds_def)
  show "binv (set_buf i f s)"
    "info (set_buf i f s) = (info s)(k := (bdata (f (bufs s i)), refcnt (f (bufs s i)), True))"
    using update_same_key [OF assms(1) h(1,2,3), of f] f by auto
  show "holds (set_buf i f s) = holds s" using f h by (auto simp: holds_def set_buf_def fun_eq_iff)
  show "nref (set_buf i f s) = nref s"
    using nref_update [OF h(1), of "set_buf i f s" s] f(4) holds_info(2) [OF assms(1,2)] by (simp add: set_buf_def)
qed

lemma holds_keeps:
  assumes "keeps_held s s' i" "\<not> locked (bufs s i) \<or> key (bufs s i) \<noteq> k" "holds s j k"
  shows "holds s' j k"
  using assms by (cases "j = i") (auto simp: holds_def keeps_held_def)

lemma unused_block:
  assumes "binv s" "refs s k = 0"
  shows "view s k = dsk s k"
proof (cases "fst k \<noteq> 0 \<and> (\<exists>i<30. key (bufs s i) = k)")
  case True
  then obtain i where "i < 30" "key (bufs s i) = k" by blast
  then show ?thesis using info_at(2) [OF assms(1), of i k] True assms binvD(6) [OF assms(1), of i]
    by (auto simp: view_def refs_def)
next
  case False
  then show ?thesis using info_absent [OF assms(1), of k] by (simp add: view_def)
qed

interpretation bc: block_cache bread bwrite brelse bpin bunpin set_data "\<lambda>s i. bdata (bufs s i)" binv holds info dsk past nref
  bcache.more
proof unfold_locales
  fix s :: "'a bcache_scheme" and k :: key
  assume *: "binv s" "fst k \<noteq> 0" "\<not> is_locked (info s k)" "0 < count (info s k) \<or> nref s < 30"
  obtain d b where k: "k = (d, b)" by (cases k)
  from bread_spec [of s d b] * k obtain i s' where b: "bread d b s = Some (Ok (i, s'))" "binv s'" "holds s' i k"
    "\<not> locked (bufs s i)" "keeps_held s s' i" "same_disk s s'" "nref s' = nref s + (if refs s k = 0 then 1 else 0)"
    "info s' = (info s)(k := (view s k, refs s k + 1, True))" by (auto simp: lockd_def refs_def)
  have "\<forall>j k'. holds s j k' \<longrightarrow> holds s' j k'" using holds_keeps [OF b(5)] b(4) by blast
  then show "\<exists>i s'. bread (fst k) (snd k) s = Some (Ok (i, s')) \<and> binv s' \<and> holds s' i k \<and>
      (\<forall>j k'. holds s j k' \<longrightarrow> holds s' j k') \<and> dsk s' = dsk s \<and> past s' = past s \<and> bcache.more s' = bcache.more s \<and>
      nref s' = nref s + (if count (info s k) = 0 then 1 else 0) \<and>
      info s' = (info s)(k := (contents (info s k), count (info s k) + 1, True))"
    using b k by (intro exI [of _ i] exI [of _ s']) (simp add: same_disk_def view_def refs_def)
next
  fix s :: "'a bcache_scheme" and i k assume *: "binv s" "holds s i k"
  note hi = holds_info [OF *]
  have h: "key (bufs s i) = k" "valid (bufs s i)" "locked (bufs s i)" using *(2) by (simp_all add: holds_def)
  from bwrite_spec [OF *] obtain s' where w: "bwrite i s = Some (Ok ((), s'))" "binv s'" "bufs s' = bufs s" "info s' = info s"
    "dsk s' = (dsk s)(k := view s k)" "past s' = dsk s # past s" "bcache.more s' = bcache.more s" by blast
  have "holds s' = holds s" "nref s' = nref s" using w(3) by (simp_all add: holds_def nref_def fun_eq_iff)
  then show "\<exists>s'. bwrite i s = Some (Ok ((), s')) \<and> binv s' \<and> holds s' = holds s \<and> dsk s' = (dsk s)(k := contents (info s k)) \<and>
      past s' = dsk s # past s \<and> bcache.more s' = bcache.more s \<and> nref s' = nref s \<and> info s' = info s"
    using w by (intro exI [of _ s']) (simp add: view_def)
  show "bdata (bufs s i) = contents (info s k) \<and> 0 < count (info s k) \<and> is_locked (info s k)" using hi by simp
  show "\<exists>s'. set_data i f s = Some (Ok ((), s')) \<and> binv s' \<and> holds s' = holds s \<and> dsk s' = dsk s \<and> past s' = past s \<and>
      bcache.more s' = bcache.more s \<and> nref s' = nref s \<and> info s' = (info s)(k := (f (contents (info s k)), snd (info s k)))" for f
    using held_update [OF *, of "\<lambda>b. b\<lparr>bdata := f (bdata b)\<rparr>"] h hi by (simp add: set_data_def key_def)
  show "\<exists>s'. bpin i s = Some (Ok ((), s')) \<and> binv s' \<and> holds s' = holds s \<and> dsk s' = dsk s \<and> past s' = past s \<and>
      bcache.more s' = bcache.more s \<and> nref s' = nref s \<and>
      info s' = (info s)(k := (contents (info s k), count (info s k) + 1, is_locked (info s k)))"
    using held_update [OF *, of "\<lambda>b. b\<lparr>refcnt := refcnt b + 1\<rparr>"] h hi by (simp add: bpin_def key_def)
  show "\<exists>s'. bunpin i s = Some (Ok ((), s')) \<and> binv s' \<and> holds s' = holds s \<and> dsk s' = dsk s \<and> past s' = past s \<and>
      bcache.more s' = bcache.more s \<and> nref s' = nref s \<and>
      info s' = (info s)(k := (contents (info s k), count (info s k) - 1, is_locked (info s k)))" if "1 < count (info s k)"
    using held_update [OF *, of "\<lambda>b. b\<lparr>refcnt := dec32 (refcnt b)\<rparr>"] h hi that by (simp add: bunpin_def key_def dec32_def)
  show "\<exists>s'. brelse i s = Some (Ok ((), s')) \<and> binv s' \<and> (\<forall>j k'. holds s j k' \<longrightarrow> k' \<noteq> k \<longrightarrow> holds s' j k') \<and>
      dsk s' = dsk s \<and> past s' = past s \<and> bcache.more s' = bcache.more s \<and>
      nref s' + (if count (info s k) = 1 then 1 else 0) = nref s \<and>
      info s' = (info s)(k := (contents (info s k), count (info s k) - 1, False))"
    if "1 < count (info s k) \<or> contents (info s k) = dsk s k"
  proof -
    from brelse_spec [OF *] that obtain s' where r: "brelse i s = Some (Ok ((), s'))" "binv s'" "keeps_held s s' i" "same_disk s s'"
      "nref s' + (if refs s k = 1 then 1 else 0) = nref s" "info s' = (info s)(k := (view s k, refs s k - 1, False))"
      by (auto simp: view_def refs_def)
    have "\<forall>j k'. holds s j k' \<longrightarrow> k' \<noteq> k \<longrightarrow> holds s' j k'" using holds_keeps [OF r(3)] h by auto
    then show ?thesis using r by (intro exI [of _ s']) (simp add: same_disk_def view_def refs_def)
  qed
next
  fix s :: "'a bcache_scheme" and k assume "binv s" "count (info s k) = 0"
  then show "contents (info s k) = dsk s k" using unused_block [of s k] by (simp add: view_def refs_def)
qed

end
