(* ===== verification/Log.thy ===== *)
theory Log
  imports Bio
begin

text \<open>
  kernel/log.c: the write-ahead log, over the buffer cache. The state extends the cache's by the
  \<open>struct log\<close>; the header array \<open>lh.block\<close> is a function, of which the entries below
  \<open>LOGBLOCKS\<close> are the array. A sleep is the result \<open>None\<close>. A header block read from the disk is
  decoded from its bytes. Messages are not modelled.
\<close>

section \<open>Definitions\<close>

record log_state = bcache +
  lg_start :: nat
  outstanding :: int
  committing :: bool
  lg_dev :: nat
  lh_n :: int
  lh_block :: "nat \<Rightarrow> nat"

definition int32 :: "nat \<Rightarrow> int" where
  "int32 v = (if v < 2 ^ 31 then int v else int v - 2 ^ 32)"

definition uint32 :: "int \<Rightarrow> nat" where
  "uint32 v = nat (v mod 2 ^ 32)"

definition logheader_size :: nat where "logheader_size = 4 + 4 * LOGBLOCKS"
definition hdr_n :: "block \<Rightarrow> int" where "hdr_n d = int32 (ld_le 4 d 0)"
definition hdr_block :: "block \<Rightarrow> nat \<Rightarrow> nat" where "hdr_block d i = ld_le 4 d (4 + 4 * i)"

definition copy_in :: "nat \<Rightarrow> bool \<Rightarrow> ('a log_state_scheme, unit) act" where
  "copy_in tail recovering =
     bindA (get (\<lambda>s. (lg_dev s, lg_start s, lh_block s tail))) (\<lambda>(dev, start, dst).
       bindA (bread dev (start + tail + 1)) (\<lambda>lbuf.
         bindA (bread dev dst) (\<lambda>dbuf.
           bindA (data_of lbuf) (\<lambda>x.
             doM (set_data dbuf (\<lambda>_. x)) (doM (bwrite dbuf)
               (doM (if \<not> recovering then bunpin dbuf else ret ()) (doM (brelse lbuf) (brelse dbuf))))))))"

definition install_trans :: "bool \<Rightarrow> ('a log_state_scheme, unit) act" where
  "install_trans recovering =
     bindA (get (\<lambda>s. nat (lh_n s))) (\<lambda>n. for_upto 0 n (\<lambda>tail. copy_in tail recovering))"

definition read_head :: "('a log_state_scheme, unit) act" where
  "read_head =
     bindA (get (\<lambda>s. (lg_dev s, lg_start s))) (\<lambda>(dev, start).
       bindA (bread dev start) (\<lambda>b.
         bindA (data_of b) (\<lambda>d.
           doM (upd (\<lambda>s. s\<lparr>lh_n := hdr_n d,
               lh_block := (\<lambda>i. if int i < hdr_n d then hdr_block d i else lh_block s i)\<rparr>))
             (brelse b))))"

definition write_hdr :: "int \<Rightarrow> (nat \<Rightarrow> nat) \<Rightarrow> block \<Rightarrow> block" where
  "write_hdr n bl d = fold (\<lambda>i d. st_le 4 d (4 + 4 * i) (bl i)) [0..<nat n] (st_le 4 d 0 (uint32 n))"

definition write_head :: "('a log_state_scheme, unit) act" where
  "write_head =
     bindA (get (\<lambda>s. (lg_dev s, lg_start s, lh_n s, lh_block s))) (\<lambda>(dev, start, n, bl).
       bindA (bread dev start) (\<lambda>b.
         doM (set_data b (write_hdr n bl)) (doM (bwrite b) (brelse b))))"

definition recover_from_log :: "('a log_state_scheme, unit) act" where
  "recover_from_log =
     doM read_head (doM (install_trans True) (doM (upd (\<lambda>s. s\<lparr>lh_n := 0\<rparr>)) write_head))"

definition initlog :: "nat \<Rightarrow> nat \<Rightarrow> ('a log_state_scheme, unit) act" where
  "initlog dev logstart =
     (if logheader_size \<ge> BSIZE then panic ''initlog: too big logheader''
      else doM (upd (\<lambda>s. s\<lparr>lg_start := logstart, lg_dev := dev\<rparr>)) recover_from_log)"

definition begin_op :: "('a log_state_scheme, unit) act" where
  "begin_op =
     bindA (get id) (\<lambda>s.
       if committing s then blocked
       else if lh_n s + (outstanding s + 1) * int MAXOPBLOCKS > int LOGBLOCKS then blocked
       else upd (\<lambda>s. s\<lparr>outstanding := outstanding s + 1\<rparr>))"

definition copy_out :: "nat \<Rightarrow> ('a log_state_scheme, unit) act" where
  "copy_out tail =
     bindA (get (\<lambda>s. (lg_dev s, lg_start s, lh_block s tail))) (\<lambda>(dev, start, src).
       bindA (bread dev (start + tail + 1)) (\<lambda>to_buf.
         bindA (bread dev src) (\<lambda>from_buf.
           bindA (data_of from_buf) (\<lambda>x.
             doM (set_data to_buf (\<lambda>_. x)) (doM (bwrite to_buf) (doM (brelse from_buf) (brelse to_buf)))))))"

definition write_log :: "('a log_state_scheme, unit) act" where
  "write_log = bindA (get (\<lambda>s. nat (lh_n s))) (\<lambda>n. for_upto 0 n copy_out)"

definition commit :: "('a log_state_scheme, unit) act" where
  "commit =
     bindA (get lh_n) (\<lambda>n.
       if n > 0 then
         doM write_log (doM write_head (doM (install_trans False) (doM (upd (\<lambda>s. s\<lparr>lh_n := 0\<rparr>)) write_head)))
       else ret ())"

definition end_op :: "('a log_state_scheme, unit) act" where
  "end_op =
     doM (upd (\<lambda>s. s\<lparr>outstanding := outstanding s - 1\<rparr>))
       (bindA (get id) (\<lambda>s.
         if committing s then panic ''log.committing''
         else if outstanding s = 0 then
           doM (upd (\<lambda>s. s\<lparr>committing := True\<rparr>)) (doM commit (upd (\<lambda>s. s\<lparr>committing := False\<rparr>)))
         else ret ()))"

definition log_slot :: "(nat \<Rightarrow> nat) \<Rightarrow> nat \<Rightarrow> nat \<Rightarrow> nat" where
  "log_slot bl n b = (case find (\<lambda>i. bl i = b) [0..<n] of Some i \<Rightarrow> i | None \<Rightarrow> n)"

definition log_write :: "nat \<Rightarrow> ('a log_state_scheme, unit) act" where
  "log_write b =
     bindA (get id) (\<lambda>s.
       if lh_n s \<ge> int LOGBLOCKS then panic ''too big a transaction''
       else if outstanding s < 1 then panic ''log_write outside of trans''
       else let bno = blockno (bufs s b); i = log_slot (lh_block s) (nat (lh_n s)) bno in
         doM (upd (\<lambda>s. s\<lparr>lh_block := (lh_block s)(i := bno)\<rparr>))
           (if int i = lh_n s then doM (bpin b) (upd (\<lambda>s. s\<lparr>lh_n := lh_n s + 1\<rparr>)) else ret ()))"

end
