(* ===== verification/Log_Loops.thy ===== *)
theory Log_Loops
  imports Log
begin

text \<open>
  What each routine of the log does to the disk: the loops that copy blocks to the log and from it,
  and the reading and writing of the header block, with every disk content on the way.
\<close>

section \<open>Disks on the way\<close>

primrec puts :: "(nat \<Rightarrow> 'k) \<Rightarrow> (nat \<Rightarrow> 'v) \<Rightarrow> nat \<Rightarrow> ('k \<Rightarrow> 'v) \<Rightarrow> 'k \<Rightarrow> 'v" where
  "puts k v 0 d = d"
| "puts k v (Suc n) d = (puts k v n d)(k n := v n)"

lemma puts_other: "(\<And>i. i < n \<Longrightarrow> x \<noteq> k i) \<Longrightarrow> puts k v n d x = d x"
  by (induction n) auto

lemma puts_at: "inj_on k {..<n} \<Longrightarrow> i < n \<Longrightarrow> puts k v n d (k i) = v i"
proof (induction n)
  case (Suc n)
  have "i \<noteq> n \<Longrightarrow> k i \<noteq> k n" using Suc.prems by (auto simp: inj_on_def)
  then show ?case using Suc by (cases "i = n") (auto simp: inj_on_def)
qed simp

lemma puts_cases:
  assumes "inj_on k {..<n}"
  obtains i where "i < n" "x = k i" "puts k v n d x = v i" | "\<And>i. i < n \<Longrightarrow> x \<noteq> k i" "puts k v n d x = d x"
  using puts_at [OF assms] puts_other [of n x k v d] by metis

definition wrote :: "(disk \<Rightarrow> bool) \<Rightarrow> 'a bcache_scheme \<Rightarrow> 'a bcache_scheme \<Rightarrow> bool" where
  "wrote P s s' \<longleftrightarrow> (\<exists>ds. past s' = ds @ past s \<and> (\<forall>d\<in>set ds. P d)) \<and> P (dsk s')"

lemma wrote_refl: "P (dsk s) \<Longrightarrow> past s' = past s \<Longrightarrow> dsk s' = dsk s \<Longrightarrow> wrote P s s'"
  by (simp add: wrote_def)

lemma wrote_write: "wrote P s s' \<Longrightarrow> past s'' = dsk s' # past s' \<Longrightarrow> P (dsk s'') \<Longrightarrow> wrote P s s''"
  unfolding wrote_def by force

lemma wrote_trans: "wrote P s s' \<Longrightarrow> wrote P s' s'' \<Longrightarrow> wrote P s s''"
  unfolding wrote_def by force

lemma wrote_mono: "wrote P s s' \<Longrightarrow> (\<And>d. P d \<Longrightarrow> Q d) \<Longrightarrow> wrote Q s s'"
  unfolding wrote_def by blast

section \<open>The log area\<close>

definition in_log :: "nat \<Rightarrow> nat \<Rightarrow> key \<Rightarrow> bool" where
  "in_log dev st k \<longleftrightarrow> fst k = dev \<and> st \<le> snd k \<and> snd k \<le> st + 30"

definition lkey :: "'a log_state_scheme \<Rightarrow> nat \<Rightarrow> key" where
  "lkey s i = (lg_dev s, lg_start s + i + 1)"

definition hkey :: "'a log_state_scheme \<Rightarrow> nat \<Rightarrow> key" where
  "hkey s i = (lg_dev s, lh_block s i)"

lemma same_more:
  fixes s s' :: "'a log_state_scheme"
  assumes "bcache.more s' = bcache.more s"
  shows "lg_dev s' = lg_dev s" "lg_start s' = lg_start s" "lh_n s' = lh_n s" "lh_block s' = lh_block s"
    "outstanding s' = outstanding s" "committing s' = committing s" "lkey s' = lkey s" "hkey s' = hkey s"
    "log_state.more s' = log_state.more s"
proof -
  show 1: "lg_dev s' = lg_dev s" "lg_start s' = lg_start s" "lh_n s' = lh_n s" "lh_block s' = lh_block s"
    "outstanding s' = outstanding s" "committing s' = committing s" "log_state.more s' = log_state.more s"
    using assms by (cases s; cases s'; simp)+
  show "lkey s' = lkey s" "hkey s' = hkey s" by (simp_all add: 1 lkey_def hkey_def fun_eq_iff)
qed

text \<open>The in-memory header names at most \<open>LOGBLOCKS\<close> different blocks outside the log.\<close>

definition header_ok :: "'a log_state_scheme \<Rightarrow> nat \<Rightarrow> bool" where
  "header_ok s n \<longleftrightarrow> lg_dev s \<noteq> 0 \<and> lh_n s = int n \<and> n \<le> 30 \<and> inj_on (lh_block s) {..<n} \<and>
     (\<forall>i<n. \<not> in_log (lg_dev s) (lg_start s) (hkey s i))"

lemma header_okD:
  assumes "header_ok s n"
  shows "lg_dev s \<noteq> 0" "lh_n s = int n" "n \<le> 30" "inj_on (hkey s) {..<n}" "inj_on (lkey s) {..<m}"
    "i < n \<Longrightarrow> \<not> in_log (lg_dev s) (lg_start s) (hkey s i)" "i < n \<Longrightarrow> in_log (lg_dev s) (lg_start s) (lkey s i)"
    "i < n \<Longrightarrow> j < n \<Longrightarrow> lkey s i \<noteq> hkey s j"
  using assms by (auto simp: header_ok_def hkey_def lkey_def inj_on_def in_log_def)

definition quiet :: "'a bcache_scheme \<Rightarrow> bool" where
  "quiet s \<longleftrightarrow> binv s \<and> (\<forall>k. \<not> is_locked (info s k))"

lemma copy_out_step:
  fixes s :: "'a log_state_scheme"
  assumes "binv s" "lg_dev s \<noteq> 0" "lkey s t \<noteq> hkey s t" "\<not> is_locked (info s (lkey s t))" "\<not> is_locked (info s (hkey s t))"
    "nref s \<le> 29" "0 < count (info s (hkey s t))"
  shows "\<exists>s'. copy_out t s = Some (Ok ((), s')) \<and> binv s' \<and> dsk s' = (dsk s)(lkey s t := contents (info s (hkey s t))) \<and>
    past s' = dsk s # past s \<and> bcache.more s' = bcache.more s \<and> nref s' = nref s \<and>
    info s' = (info s)(lkey s t := (contents (info s (hkey s t)), count (info s (lkey s t)), False))"
proof -
  have "copy_out t s = bindA (bread (fst (lkey s t)) (snd (lkey s t))) (\<lambda>d. bindA (bread (fst (hkey s t)) (snd (hkey s t)))
      (\<lambda>l. bindA (data_of l) (\<lambda>x. doM (set_data d (\<lambda>_. x)) (doM (bwrite d) (doM (brelse l) (brelse d)))))) s"
    by (simp add: copy_out_def lkey_def hkey_def)
  then show ?thesis using bc.copy_target_first [of s "lkey s t" "hkey s t"] assms by (simp add: lkey_def hkey_def)
qed

lemma copy_in_step:
  fixes s :: "'a log_state_scheme"
  assumes "binv s" "lg_dev s \<noteq> 0" "lkey s t \<noteq> hkey s t" "\<not> is_locked (info s (lkey s t))" "\<not> is_locked (info s (hkey s t))"
    "nref s + (if count (info s (lkey s t)) = 0 then 1 else 0) + (if count (info s (hkey s t)) = 0 then 1 else 0) \<le> 30"
    "\<not> r \<longrightarrow> 0 < count (info s (hkey s t))"
  shows "\<exists>s'. copy_in t r s = Some (Ok ((), s')) \<and> binv s' \<and> dsk s' = (dsk s)(hkey s t := contents (info s (lkey s t))) \<and>
    past s' = dsk s # past s \<and> bcache.more s' = bcache.more s \<and> nref s' \<le> nref s \<and>
    info s' = (info s)(hkey s t := (contents (info s (lkey s t)), count (info s (hkey s t)) - (if r then 0 else 1), False))"
proof -
  have "copy_in t r s = bindA (bread (fst (lkey s t)) (snd (lkey s t))) (\<lambda>l. bindA (bread (fst (hkey s t)) (snd (hkey s t)))
      (\<lambda>d. bindA (data_of l) (\<lambda>x. doM (set_data d (\<lambda>_. x)) (doM (bwrite d)
        (doM (if \<not> r then bunpin d else ret ()) (doM (brelse l) (brelse d))))))) s"
    by (simp add: copy_in_def lkey_def hkey_def)
  then show ?thesis using bc.copy_target_last [of s "lkey s t" "hkey s t" "\<not> r"] assms
    by (auto simp: lkey_def hkey_def split: if_splits)
qed

lemma write_log_spec:
  fixes s :: "'a log_state_scheme"
  assumes q: "quiet s" and h: "header_ok s n" and pinned: "\<And>i. i < n \<Longrightarrow> 0 < count (info s (hkey s i))" and room: "nref s \<le> 29"
  shows "\<exists>s'. write_log s = Some (Ok ((), s')) \<and> quiet s' \<and> bcache.more s' = bcache.more s \<and> nref s' = nref s \<and>
    dsk s' = puts (lkey s) (\<lambda>i. contents (info s (hkey s i))) n (dsk s) \<and>
    (\<forall>k. (\<forall>i<n. k \<noteq> lkey s i) \<longrightarrow> info s' k = info s k) \<and>
    (\<forall>i<n. contents (info s' (lkey s i)) = contents (info s (hkey s i))) \<and> (\<forall>k. count (info s' k) = count (info s k)) \<and>
    wrote (\<lambda>d. \<exists>u\<le>n. d = puts (lkey s) (\<lambda>i. contents (info s (hkey s i))) u (dsk s)) s s'"
proof -
  let ?l = "lkey s" and ?h = "hkey s" and ?x = "\<lambda>i. contents (info s (hkey s i))"
  note H = header_okD [OF h]
  let ?P = "\<lambda>d. \<exists>u\<le>n. d = puts ?l ?x u (dsk s)"
  let ?I = "\<lambda>t s'. binv s' \<and> bcache.more s' = bcache.more s \<and> nref s' = nref s \<and> dsk s' = puts ?l ?x t (dsk s) \<and>
    info s' = puts ?l (\<lambda>i. (?x i, count (info s (?l i)), False)) t (info s) \<and> wrote ?P s s'"
  have unl: "\<not> is_locked (info s k)" for k using q unfolding quiet_def by blast
  have "\<exists>s'. for_upto 0 n copy_out s = Some (Ok ((), s')) \<and> ?I (0 + n) s'"
  proof (rule for_upto_inv)
    show "?I 0 s" using q by (auto simp: quiet_def intro!: wrote_refl exI [of _ "0::nat"])
    fix t s' assume "0 \<le> t" "t < 0 + n" and I: "?I t s'"
    then have t: "t < n" by simp
    note m = same_more [OF I [THEN conjunct2, THEN conjunct1]]
    have il: "info s' (?l t) = info s (?l t)" using I t by (auto intro!: puts_other simp: lkey_def)
    have "\<And>i. i < t \<Longrightarrow> ?h t \<noteq> ?l i" using H(8) t by (metis less_trans)
    then have ih: "info s' (?h t) = info s (?h t)" using I by (auto intro!: puts_other)
    have "lg_dev s' \<noteq> 0" using H(1) m(1) by simp
    from copy_out_step [OF conjunct1 [OF I] this, of t] obtain s'' where
      c: "copy_out t s' = Some (Ok ((), s''))" "binv s''" "dsk s'' = (dsk s')(?l t := ?x t)" "past s'' = dsk s' # past s'"
      "bcache.more s'' = bcache.more s'" "nref s'' = nref s'"
      "info s'' = (info s')(?l t := (?x t, count (info s (?l t)), False))"
      unfolding m il ih using I H(8) [OF t t] unl pinned [OF t] room by auto
    have "dsk s'' = puts ?l ?x (Suc t) (dsk s)" using c(3) I by simp
    moreover have "wrote ?P s s''" by (rule wrote_write [of _ _ s']) (use I c(4) calculation t in \<open>auto intro: exI [of _ "Suc t"]\<close>)
    ultimately show "\<exists>s''. copy_out t s' = Some (Ok ((), s'')) \<and> ?I (Suc t) s''" using c I by auto
  qed
  then obtain s' where s': "for_upto 0 n copy_out s = Some (Ok ((), s'))" "?I n s'" by auto
  have "\<forall>k. (\<forall>i<n. k \<noteq> ?l i) \<longrightarrow> info s' k = info s k" using s'(2) by (auto intro!: puts_other)
  moreover have "contents (info s' (?l i)) = ?x i" if "i < n" for i
    using s'(2) puts_at [OF H(5) that, where v = "\<lambda>i. (?x i, count (info s (?l i)), False)"] by simp
  moreover have "\<not> is_locked (info s' k)" "count (info s' k) = count (info s k)" for k
    using s'(2) unl by (cases rule: puts_cases [OF H(5), of n k "\<lambda>i. (?x i, count (info s (?l i)), False)" "info s"]; simp)+
  ultimately show ?thesis using s' H(2) by (intro exI [of _ s']) (simp add: write_log_def quiet_def del: split_paired_All)
qed

lemma install_trans_spec:
  fixes s :: "'a log_state_scheme"
  assumes q: "quiet s" and h: "header_ok s n"
    and room: "if r then nref s \<le> 28 else nref s \<le> 29 \<and> (\<forall>i<n. 0 < count (info s (hkey s i)))"
  shows "\<exists>s'. install_trans r s = Some (Ok ((), s')) \<and> quiet s' \<and> bcache.more s' = bcache.more s \<and> nref s' \<le> nref s \<and>
    dsk s' = puts (hkey s) (\<lambda>i. contents (info s (lkey s i))) n (dsk s) \<and>
    info s' = puts (hkey s) (\<lambda>i. (contents (info s (lkey s i)), count (info s (hkey s i)) - (if r then 0 else 1), False)) n (info s) \<and>
    wrote (\<lambda>d. \<exists>u\<le>n. d = puts (hkey s) (\<lambda>i. contents (info s (lkey s i))) u (dsk s)) s s'"
proof -
  let ?l = "lkey s" and ?h = "hkey s" and ?x = "\<lambda>i. contents (info s (lkey s i))"
  let ?v = "\<lambda>i. (?x i, count (info s (?h i)) - (if r then 0 else 1), False)"
  note H = header_okD [OF h]
  let ?P = "\<lambda>d. \<exists>u\<le>n. d = puts ?h ?x u (dsk s)"
  let ?I = "\<lambda>t s'. binv s' \<and> bcache.more s' = bcache.more s \<and> nref s' \<le> nref s \<and> dsk s' = puts ?h ?x t (dsk s) \<and>
    info s' = puts ?h ?v t (info s) \<and> wrote ?P s s'"
  have unl: "\<not> is_locked (info s k)" for k using q unfolding quiet_def by blast
  have "\<exists>s'. for_upto 0 n (\<lambda>t. copy_in t r) s = Some (Ok ((), s')) \<and> ?I (0 + n) s'"
  proof (rule for_upto_inv)
    show "?I 0 s" using q by (auto simp: quiet_def intro!: wrote_refl exI [of _ "0::nat"])
    fix t s' assume "0 \<le> t" "t < 0 + n" and I: "?I t s'"
    then have t: "t < n" by simp
    note m = same_more [OF I [THEN conjunct2, THEN conjunct1]]
    have "\<And>i. i < t \<Longrightarrow> ?l t \<noteq> ?h i" using H(8) t by (metis less_trans)
    then have il: "info s' (?l t) = info s (?l t)" using I by (auto intro!: puts_other)
    have "\<And>i. i < t \<Longrightarrow> ?h t \<noteq> ?h i" using inj_onD [OF H(4)] t by (metis less_irrefl lessThan_iff less_trans)
    then have ih: "info s' (?h t) = info s (?h t)" using I by (auto intro!: puts_other)
    have rm: "nref s' + (if count (info s (?l t)) = 0 then 1 else 0) + (if count (info s (?h t)) = 0 then 1 else 0) \<le> 30"
      "\<not> r \<longrightarrow> 0 < count (info s (?h t))"
      using room I t by (auto split: if_splits)
    have "lg_dev s' \<noteq> 0" using H(1) m(1) by simp
    from copy_in_step [OF conjunct1 [OF I] this, of t r] obtain s'' where
      c: "copy_in t r s' = Some (Ok ((), s''))" "binv s''" "dsk s'' = (dsk s')(?h t := ?x t)" "past s'' = dsk s' # past s'"
      "bcache.more s'' = bcache.more s'" "nref s'' \<le> nref s'" "info s'' = (info s')(?h t := ?v t)"
      unfolding m il ih using H(8) [OF t t] unl rm by auto
    have "dsk s'' = puts ?h ?x (Suc t) (dsk s)" using c(3) I by simp
    moreover have "wrote ?P s s''" by (rule wrote_write [of _ _ s']) (use I c(4) calculation t in \<open>auto intro: exI [of _ "Suc t"]\<close>)
    ultimately show "\<exists>s''. copy_in t r s' = Some (Ok ((), s'')) \<and> ?I (Suc t) s''" using c I by auto
  qed
  then obtain s' where s': "for_upto 0 n (\<lambda>t. copy_in t r) s = Some (Ok ((), s'))" "?I n s'" by auto
  have "\<not> is_locked (info s' k)" for k
    using s'(2) unl by (cases rule: puts_cases [OF H(4), of k ?v "info s"]) auto
  then show ?thesis using s' H(2) by (intro exI [of _ s']) (simp add: install_trans_def quiet_def del: split_paired_All)
qed

end
