(* ===== verification/Log_Correct.thy ===== *)
theory Log_Correct
  imports Log_Loops
begin

text \<open>
  Crash atomicity of the log. Recovery is described by \<open>replay\<close>: the disk after a committed
  transaction named in the header has been installed. Every disk content that recovery or a commit
  goes through has the same replay, or, for a commit, the replay of the contents before or after.
\<close>

section \<open>The header block\<close>

lemma fold_hdr:
  "ld_le 4 (fold (\<lambda>i d. st_le 4 d (4 + 4 * i) (bl i)) [0..<m] d) 0 = ld_le 4 d 0"
  "i < m \<Longrightarrow> ld_le 4 (fold (\<lambda>i d. st_le 4 d (4 + 4 * i) (bl i)) [0..<m] d) (4 + 4 * i) = bl i mod 2 ^ 32"
proof (induction m)
  case (Suc m)
  {
    case 1
    then show ?case using Suc.IH(1) by (simp add: ld_st_other)
  next
    case 2
    then show ?case using Suc.IH(2) by (cases "i = m") (auto simp: ld_st_other ld_st_same)
  }
qed simp_all

lemma hdr_write:
  assumes "n \<le> 30"
  shows "hdr_n (write_hdr (int n) bl d) = int n" "i < n \<Longrightarrow> bl i < 2 ^ 32 \<Longrightarrow> hdr_block (write_hdr (int n) bl d) i = bl i"
proof -
  have u: "uint32 (int n) = n" using assms by (simp add: uint32_def nat_mod_distrib)
  show "hdr_n (write_hdr (int n) bl d) = int n"
    using assms by (simp add: hdr_n_def write_hdr_def fold_hdr(1) ld_st_same int32_def u)
  show "i < n \<Longrightarrow> bl i < 2 ^ 32 \<Longrightarrow> hdr_block (write_hdr (int n) bl d) i = bl i"
    using fold_hdr(2) [of i n bl] by (simp add: hdr_block_def write_hdr_def)
qed

section \<open>Replay\<close>

definition dhome :: "nat \<Rightarrow> nat \<Rightarrow> disk \<Rightarrow> nat \<Rightarrow> key" where
  "dhome dev st d i = (dev, hdr_block (d (dev, st)) i)"

definition replay :: "nat \<Rightarrow> nat \<Rightarrow> disk \<Rightarrow> disk" where
  "replay dev st d = puts (dhome dev st d) (\<lambda>i. d (dev, st + i + 1)) (nat (hdr_n (d (dev, st)))) d"

definition disk_log_ok :: "nat \<Rightarrow> nat \<Rightarrow> disk \<Rightarrow> bool" where
  "disk_log_ok dev st d \<longleftrightarrow>
     (let n = hdr_n (d (dev, st)) in 0 \<le> n \<and> n \<le> 30 \<and> inj_on (dhome dev st d) {..<nat n} \<and>
       (\<forall>i<nat n. \<not> in_log dev st (dhome dev st d i)))"

lemma replay_clear:
  assumes "hdr_n (d (dev, st)) = 0"
  shows "disk_log_ok dev st d" "replay dev st d = d"
  using assms by (simp_all add: disk_log_ok_def replay_def)

text \<open>Installing some of the blocks changes neither the header nor what replay gives.\<close>

lemma replay_install:
  assumes ok: "disk_log_ok dev st d" and n: "hdr_n (d (dev, st)) = int n" and u: "u \<le> n"
    and d': "d' = puts (dhome dev st d) (\<lambda>i. d (dev, st + i + 1)) u d"
  shows "disk_log_ok dev st d'" "replay dev st d' = replay dev st d"
proof -
  let ?h = "dhome dev st d" and ?x = "\<lambda>i. d (dev, st + i + 1)"
  have inj: "inj_on ?h {..<n}" and out: "\<And>i. i < n \<Longrightarrow> \<not> in_log dev st (?h i)" and n30: "n \<le> 30"
    using ok n by (auto simp: disk_log_ok_def)
  have keep: "d' k = d k" if "in_log dev st k" for k
    unfolding d' by (rule puts_other) (use out u that in \<open>metis less_le_trans\<close>)
  have hd: "d' (dev, st) = d (dev, st)" by (rule keep) (simp add: in_log_def)
  then have h': "dhome dev st d' = ?h" by (intro ext) (simp add: dhome_def)
  show "disk_log_ok dev st d'" using ok unfolding disk_log_ok_def h' hd by simp
  have x': "d' (dev, st + i + 1) = ?x i" if "i < n" for i by (rule keep) (use that n30 in \<open>simp add: in_log_def\<close>)
  have "puts ?h (\<lambda>i. d' (dev, st + i + 1)) n d' k = puts ?h ?x n d k" for k
  proof (cases "\<exists>i<n. k = ?h i")
    case True
    then obtain i where "i < n" "k = ?h i" by blast
    then show ?thesis using puts_at [OF inj \<open>i < n\<close>, where v = ?x] x'
        puts_at [OF inj \<open>i < n\<close>, where v = "\<lambda>i. d' (dev, st + i + 1)"] by simp
  next
    case False
    then have "\<And>i. i < n \<Longrightarrow> k \<noteq> ?h i" "\<And>i. i < u \<Longrightarrow> k \<noteq> ?h i" using u by auto
    then show ?thesis by (simp add: puts_other d')
  qed
  then show "replay dev st d' = replay dev st d" unfolding replay_def h' hd n by (simp add: fun_eq_iff)
qed

section \<open>Recovery\<close>

text \<open>The cache after a boot: nothing in it is in use.\<close>

definition booted :: "'a bcache_scheme \<Rightarrow> bool" where
  "booted s \<longleftrightarrow> quiet s \<and> nref s = 0 \<and> (\<forall>k. count (info s k) = 0)"

lemma booted_contents: "booted s \<Longrightarrow> contents (info s k) = dsk s k"
  by (rule bc.unused) (simp_all add: booted_def quiet_def)

lemma unused_nref:
  assumes "binv s" "\<And>k. count (info s k) = 0"
  shows "nref s = 0"
proof -
  have "refcnt (bufs s i) = 0" if "i < 30" for i
    using binvD(4) [OF assms(1) that] info_at(2) [OF assms(1) that refl] assms(2) [of "key (bufs s i)"]
    by (cases "bdev (bufs s i) = 0") (auto simp: bdev_key)
  then show ?thesis by (auto simp: nref_def)
qed

lemma unused_booted:
  assumes "quiet s" "\<And>k. count (info s k) = 0"
  shows "booted s"
  using assms unused_nref [of s] by (simp add: booted_def quiet_def)

lemma ext_frame:
  fixes s s' :: "'a bcache_scheme"
  assumes "bufs s' = bufs s" "lru s' = lru s" "dsk s' = dsk s"
  shows "binv s' = binv s" "holds s' = holds s" "info s' = info s" "nref s' = nref s" "quiet s' = quiet s" "booted s' = booted s"
proof -
  show b: "binv s' = binv s" "holds s' = holds s" "nref s' = nref s" and i: "info s' = info s"
    by (simp add: binv_def assms, (intro ext, simp add: holds_def assms), simp add: nref_def assms,
      (intro ext, simp add: info_def slotof_def assms Let_def cong: if_cong option.case_cong))
  show q: "quiet s' = quiet s" by (simp add: quiet_def b i)
  show "booted s' = booted s" by (simp add: booted_def b i q)
qed

lemma read_head_spec:
  fixes s :: "'a log_state_scheme"
  assumes q: "quiet s" and dev: "lg_dev s \<noteq> 0" and room: "nref s < 30"
  defines "d \<equiv> contents (info s (lg_dev s, lg_start s))"
  shows "\<exists>s'. read_head s = Some (Ok ((), s')) \<and> quiet s' \<and> info s' = info s \<and> nref s' = nref s \<and> dsk s' = dsk s \<and>
    past s' = past s \<and> lg_dev s' = lg_dev s \<and> lg_start s' = lg_start s \<and> outstanding s' = outstanding s \<and>
    committing s' = committing s \<and> lh_n s' = hdr_n d \<and> (\<forall>i. int i < hdr_n d \<longrightarrow> lh_block s' i = hdr_block d i)"
proof -
  let ?k = "(lg_dev s, lg_start s)"
  have unl: "\<not> is_locked (info s ?k)" using q unfolding quiet_def by blast
  have inv: "binv s" using q by (simp add: quiet_def)
  from bc.rd [of s ?k] inv unl dev room obtain b s1 where r: "bread (lg_dev s) (lg_start s) s = Some (Ok (b, s1))" "binv s1"
    "holds s1 b ?k" "dsk s1 = dsk s" "past s1 = past s" "bcache.more s1 = bcache.more s"
    "nref s1 = nref s + (if count (info s ?k) = 0 then 1 else 0)"
    "info s1 = (info s)(?k := (contents (info s ?k), count (info s ?k) + 1, True))" by auto
  note m = same_more [OF r(6)]
  have d: "bdata (bufs s1 b) = d" using bc.held [OF r(2,3)] r(8) by (simp add: d_def)
  let ?s2 = "s1\<lparr>lh_n := hdr_n d, lh_block := (\<lambda>i. if int i < hdr_n d then hdr_block d i else lh_block s1 i)\<rparr>"
  have f: "binv ?s2 = binv s1" "holds ?s2 = holds s1" "info ?s2 = info s1" "nref ?s2 = nref s1"
    by (rule ext_frame; simp)+
  have "1 < count (info ?s2 ?k) \<or> contents (info ?s2 ?k) = dsk ?s2 ?k"
    using r(4,8) f(3) bc.unused [OF inv, of ?k] by auto
  then obtain s3 where e: "brelse b ?s2 = Some (Ok ((), s3))" "binv s3" "dsk s3 = dsk ?s2" "past s3 = past ?s2"
    "bcache.more s3 = bcache.more ?s2" "nref s3 + (if count (info ?s2 ?k) = 1 then 1 else 0) = nref ?s2"
    "info s3 = (info ?s2)(?k := (contents (info ?s2 ?k), count (info ?s2 ?k) - 1, False))"
    using bc.rel [of ?s2 b ?k] r(2,3) f(1,2) by auto
  note m3 = same_more [OF e(5)]
  have i3: "info s3 = info s" using e(7) f(3) r(8) unl by (auto simp: fun_eq_iff prod_eq_iff)
  have "quiet s3" using q e(2) i3 by (simp add: quiet_def)
  moreover have "nref s3 = nref s" using e(6) f(3,4) r(7,8) by (simp split: if_splits)
  moreover have "read_head s = Some (Ok ((), s3))" using r(1) d e(1) by (simp add: read_head_def)
  ultimately show ?thesis using e i3 r m m3 by (intro exI [of _ s3]) simp
qed

lemma write_head_spec:
  fixes s :: "'a log_state_scheme"
  assumes q: "quiet s" and dev: "lg_dev s \<noteq> 0" and room: "nref s < 30"
  defines "k \<equiv> (lg_dev s, lg_start s)"
  defines "h \<equiv> write_hdr (lh_n s) (lh_block s) (contents (info s k))"
  shows "\<exists>s'. write_head s = Some (Ok ((), s')) \<and> quiet s' \<and> dsk s' = (dsk s)(k := h) \<and> past s' = dsk s # past s \<and>
    bcache.more s' = bcache.more s \<and> nref s' = nref s \<and> info s' = (info s)(k := (h, count (info s k), False))"
proof -
  have unl: "\<And>k. \<not> is_locked (info s k)" and inv: "binv s" using q unfolding quiet_def by blast+
  have "write_head s = bindA (bread (fst k) (snd k)) (\<lambda>b. doM (set_data b (write_hdr (lh_n s) (lh_block s))) (doM (bwrite b) (brelse b))) s"
    by (simp add: write_head_def k_def)
  with bc.rewrite_block [of s k "write_hdr (lh_n s) (lh_block s)"] inv unl dev room obtain s' where
    w: "write_head s = Some (Ok ((), s'))" "binv s'" "dsk s' = (dsk s)(k := h)" "past s' = dsk s # past s"
    "bcache.more s' = bcache.more s" "nref s' = nref s" "info s' = (info s)(k := (h, count (info s k), False))"
    unfolding h_def by (auto simp: k_def)
  have "quiet s'" using w(2,7) unl by (auto simp: quiet_def)
  then show ?thesis using w by blast
qed

end
