(* ===== verification/Log_Crash.thy ===== *)
theory Log_Crash
  imports Log_Correct
begin

text \<open>
  Recovery installs the replay of the disk it finds, and so does a recovery that crashed and is
  started again; a commit goes through disks that recover to the contents before the transaction
  or to those after it; a transaction of the file system is therefore atomic.
\<close>

section \<open>Recovery\<close>

definition same_home :: "nat \<Rightarrow> nat \<Rightarrow> disk \<Rightarrow> disk \<Rightarrow> bool" where
  "same_home dev st d e \<longleftrightarrow> (\<forall>k. \<not> in_log dev st k \<longrightarrow> d k = e k)"

definition recovers :: "nat \<Rightarrow> nat \<Rightarrow> disk \<Rightarrow> disk \<Rightarrow> bool" where
  "recovers dev st e d \<longleftrightarrow> disk_log_ok dev st d \<and> same_home dev st (replay dev st d) e"

lemma recovers_clear: "hdr_n (d (dev, st)) = 0 \<Longrightarrow> same_home dev st d e \<Longrightarrow> recovers dev st e d"
  using replay_clear [of d dev st] by (simp add: recovers_def)

lemma recovers_install:
  assumes "recovers dev st e d" "hdr_n (d (dev, st)) = int n" "u \<le> n"
  shows "recovers dev st e (puts (dhome dev st d) (\<lambda>i. d (dev, st + i + 1)) u d)"
  using replay_install [where d = d and n = n and u = u, OF _ assms(2,3) refl] assms(1) by (simp add: recovers_def)

text \<open>
  The second half of a commit and of recovery: the blocks named in the header are installed and the
  header is cleared. Every disk on the way recovers to the same contents.
\<close>

lemma install_and_clear:
  fixes s :: "'a log_state_scheme"
  assumes q: "quiet s" and h: "header_ok s n"
    and room: "if r then nref s \<le> 28 else nref s \<le> 29 \<and> (\<forall>i<n. 0 < count (info s (hkey s i)))"
    and hd: "hdr_n (dsk s (lg_dev s, lg_start s)) = int n" "\<And>i. i < n \<Longrightarrow> dhome (lg_dev s) (lg_start s) (dsk s) i = hkey s i"
    and src: "\<And>i. i < n \<Longrightarrow> contents (info s (lkey s i)) = dsk s (lkey s i)"
    and rec: "recovers (lg_dev s) (lg_start s) e (dsk s)"
  shows "\<exists>s'. doM (install_trans r) (doM (upd (\<lambda>s. s\<lparr>lh_n := 0\<rparr>)) write_head) s = Some (Ok ((), s')) \<and> quiet s' \<and>
    lg_dev s' = lg_dev s \<and> lg_start s' = lg_start s \<and> lh_n s' = 0 \<and> outstanding s' = outstanding s \<and> committing s' = committing s \<and>
    same_home (lg_dev s) (lg_start s) (dsk s') e \<and> hdr_n (dsk s' (lg_dev s, lg_start s)) = 0 \<and>
    (\<forall>k. count (info s' k) = count (info s k) - (if \<not> r \<and> k \<in> hkey s ` {..<n} then 1 else 0)) \<and>
    wrote (recovers (lg_dev s) (lg_start s) e) s s'"
proof -
  let ?dev = "lg_dev s" and ?st = "lg_start s" and ?h = "hkey s" and ?l = "lkey s"
  let ?x = "\<lambda>i. contents (info s (lkey s i))"
  let ?v = "\<lambda>i. (?x i, count (info s (?h i)) - (if r then 0 else 1), False)"
  note H = header_okD [OF h]
  from install_trans_spec [OF q h room] obtain s1 where
    1: "install_trans r s = Some (Ok ((), s1))" "quiet s1" "bcache.more s1 = bcache.more s" "nref s1 \<le> nref s"
    "dsk s1 = puts ?h ?x n (dsk s)" "info s1 = puts ?h ?v n (info s)" "wrote (\<lambda>d. \<exists>u\<le>n. d = puts ?h ?x u (dsk s)) s s1"
    by blast
  note m1 = same_more [OF 1(3)]
  have pe: "puts ?h ?x u (dsk s) = puts (dhome ?dev ?st (dsk s)) (\<lambda>i. dsk s (?dev, ?st + i + 1)) u (dsk s)" if "u \<le> n" for u
    using that by (induction u) (use src hd(2) in \<open>simp_all add: lkey_def\<close>)
  have P: "recovers ?dev ?st e (puts ?h ?x u (dsk s))" if "u \<le> n" for u
    unfolding pe [OF that] by (rule recovers_install [OF rec hd(1) that])
  have w1: "wrote (recovers ?dev ?st e) s s1" by (rule wrote_mono [OF 1(7)]) (use P in auto)
  have re: "same_home ?dev ?st (dsk s1) e"
    using rec unfolding recovers_def replay_def hd(1) nat_int 1(5) pe [OF order_refl] by simp
  let ?s2 = "s1\<lparr>lh_n := 0\<rparr>"
  have f2: "quiet ?s2 = quiet s1" "info ?s2 = info s1" "nref ?s2 = nref s1" by (rule ext_frame; simp)+
  have q2: "quiet ?s2" "lg_dev ?s2 \<noteq> 0" "nref ?s2 < 30" using 1(2,4) f2 m1 H(1) room by (simp_all split: if_splits)
  from write_head_spec [OF q2] obtain s3 where
    3: "write_head ?s2 = Some (Ok ((), s3))" "quiet s3" "past s3 = dsk s1 # past s1" "bcache.more s3 = bcache.more ?s2"
    "dsk s3 = (dsk s1)((?dev, ?st) := write_hdr 0 (lh_block s) (contents (info s1 (?dev, ?st))))"
    "count (info s3 k) = count (info s1 k)" for k
    unfolding f2 using m1 by auto
  note m3 = same_more [OF 3(4)]
  have clear: "hdr_n (dsk s3 (?dev, ?st)) = 0" using 3(5) hdr_write(1) [of 0] by simp
  have home: "same_home ?dev ?st (dsk s3) e" using re 3(5) by (auto simp: same_home_def in_log_def)
  have w3: "wrote (recovers ?dev ?st e) s s3" by (rule wrote_write [OF w1 3(3)]) (rule recovers_clear [OF clear home])
  have "count (info s3 k) = count (info s k) - (if \<not> r \<and> k \<in> ?h ` {..<n} then 1 else 0)" for k
    unfolding 3(6) 1(6) by (cases rule: puts_cases [OF H(4), of k ?v "info s"]) auto
  then show ?thesis using 1(1) 3(1,2) m1 m3 clear home w3 by (intro exI [of _ s3]) simp
qed

lemma initlog_spec:
  fixes s :: "'a log_state_scheme"
  assumes b: "booted s" and dev: "dev \<noteq> 0" and ok: "disk_log_ok dev st (dsk s)"
  shows "\<exists>s'. initlog dev st s = Some (Ok ((), s')) \<and> booted s' \<and> lg_dev s' = dev \<and> lg_start s' = st \<and> lh_n s' = 0 \<and>
    outstanding s' = outstanding s \<and> committing s' = committing s \<and>
    same_home dev st (dsk s') (replay dev st (dsk s)) \<and> hdr_n (dsk s' (dev, st)) = 0 \<and>
    wrote (recovers dev st (replay dev st (dsk s))) s s'"
proof -
  let ?d = "dsk s" and ?s0 = "s\<lparr>lg_start := st, lg_dev := dev\<rparr>"
  have b0: "booted ?s0" using b by (subst ext_frame(6) [of _ s]) simp_all
  have i0: "info ?s0 = info s" by (rule ext_frame) simp_all
  have q0: "quiet ?s0" "nref ?s0 = 0" using b0 by (simp_all add: booted_def)
  from read_head_spec [of ?s0] q0 dev obtain s1 where
    1: "read_head ?s0 = Some (Ok ((), s1))" "quiet s1" "info s1 = info s" "nref s1 = 0" "dsk s1 = ?d" "past s1 = past s"
    "lg_dev s1 = dev" "lg_start s1 = st" "outstanding s1 = outstanding s" "committing s1 = committing s"
    "lh_n s1 = hdr_n (?d (dev, st))" "\<forall>i. int i < hdr_n (?d (dev, st)) \<longrightarrow> lh_block s1 i = hdr_block (?d (dev, st)) i"
    using i0 booted_contents [OF b] by auto
  obtain n where n: "hdr_n (?d (dev, st)) = int n" using ok by (metis disk_log_ok_def nonneg_int_cases)
  have hk: "dhome dev st ?d i = hkey s1 i" if "i < n" for i using 1(7,12) n that by (simp add: hkey_def dhome_def)
  have "inj_on (lh_block s1) {..<n}"
    using ok n 1(12) by (auto simp: disk_log_ok_def inj_on_def dhome_def)
  then have h1: "header_ok s1 n" using ok n 1 dev hk by (auto simp: header_ok_def disk_log_ok_def)
  have "recovers dev st (replay dev st ?d) ?d" by (simp add: recovers_def ok same_home_def)
  with install_and_clear [OF 1(2) h1, of True "replay dev st ?d"] obtain s2 where
    2: "doM (install_trans True) (doM (upd (\<lambda>s. s\<lparr>lh_n := 0\<rparr>)) write_head) s1 = Some (Ok ((), s2))" "quiet s2"
    "lg_dev s2 = dev" "lg_start s2 = st" "lh_n s2 = 0" "outstanding s2 = outstanding s1" "committing s2 = committing s1"
    "same_home dev st (dsk s2) (replay dev st ?d)" "hdr_n (dsk s2 (dev, st)) = 0" "\<forall>k. count (info s2 k) = count (info s k)"
    "wrote (recovers dev st (replay dev st ?d)) s1 s2"
    using 1 n hk booted_contents [OF b] by auto
  have "booted s2" using 2(2,10) b by (intro unused_booted) (simp_all add: booted_def)
  moreover have "wrote (recovers dev st (replay dev st ?d)) s s2" using 2(11) 1(6) by (simp add: wrote_def)
  ultimately show ?thesis using 1 2
    by (intro exI [of _ s2]) (simp add: initlog_def recover_from_log_def logheader_size_def LOGBLOCKS_def MAXOPBLOCKS_def BSIZE_def)
qed

section \<open>Commit\<close>

lemma committed_disk:
  assumes n: "hdr_n (d (dev, st)) = int n" "n \<le> 30" and h: "\<And>i. i < n \<Longrightarrow> dhome dev st d i = hk i"
    and hk: "inj_on hk {..<n}" "\<And>i. i < n \<Longrightarrow> \<not> in_log dev st (hk i)"
    and e: "\<And>i. i < n \<Longrightarrow> d (dev, st + i + 1) = e (hk i)"
      "\<And>k. \<not> in_log dev st k \<Longrightarrow> (\<And>i. i < n \<Longrightarrow> k \<noteq> hk i) \<Longrightarrow> d k = e k"
  shows "recovers dev st e d"
proof -
  have inj: "inj_on (dhome dev st d) {..<n}" using hk(1) h by (auto simp: inj_on_def)
  have "replay dev st d k = e k" if "\<not> in_log dev st k" for k
    unfolding replay_def n(1) nat_int
    by (cases rule: puts_cases [OF inj, of k "\<lambda>i. d (dev, st + i + 1)" d]) (use e h that in auto)
  then show ?thesis using n h hk(2) inj by (auto simp: recovers_def same_home_def disk_log_ok_def)
qed

text \<open>
  The state between two operations on blocks: \<open>n\<close> blocks are in the transaction, each pinned once,
  no buffer is locked, no other block is in use, and the log on the disk is empty.
\<close>

definition log_inv :: "'a log_state_scheme \<Rightarrow> nat \<Rightarrow> bool" where
  "log_inv s n \<longleftrightarrow> header_ok s n \<and> quiet s \<and> nref s \<le> n \<and> hdr_n (dsk s (lg_dev s, lg_start s)) = 0 \<and>
     (\<forall>i<n. lh_block s i < 2 ^ 32) \<and> (\<forall>k. count (info s k) = (if k \<in> hkey s ` {..<n} then 1 else 0))"

lemma log_invD:
  assumes "log_inv s n"
  shows "header_ok s n" "quiet s" "nref s \<le> n" "hdr_n (dsk s (lg_dev s, lg_start s)) = 0"
    "i < n \<Longrightarrow> lh_block s i < 2 ^ 32" "i < n \<Longrightarrow> count (info s (hkey s i)) = 1"
    "(\<And>i. i < n \<Longrightarrow> k \<noteq> hkey s i) \<Longrightarrow> count (info s k) = 0"
    "(\<And>i. i < n \<Longrightarrow> k \<noteq> hkey s i) \<Longrightarrow> contents (info s k) = dsk s k"
proof -
  show 1: "header_ok s n" "quiet s" "nref s \<le> n" "hdr_n (dsk s (lg_dev s, lg_start s)) = 0"
    "i < n \<Longrightarrow> lh_block s i < 2 ^ 32" "i < n \<Longrightarrow> count (info s (hkey s i)) = 1"
    and z: "(\<And>i. i < n \<Longrightarrow> k \<noteq> hkey s i) \<Longrightarrow> count (info s k) = 0"
    using assms unfolding log_inv_def by auto
  have "binv s" using 1(2) by (simp add: quiet_def)
  then show "(\<And>i. i < n \<Longrightarrow> k \<noteq> hkey s i) \<Longrightarrow> contents (info s k) = dsk s k" using z bc.unused by blast
qed

lemma log_inv_0: "log_inv s 0 \<longleftrightarrow> lg_dev s \<noteq> 0 \<and> lh_n s = 0 \<and> booted s \<and> hdr_n (dsk s (lg_dev s, lg_start s)) = 0"
  by (auto simp: log_inv_def header_ok_def booted_def)

lemma commit_spec:
  fixes s :: "'a log_state_scheme"
  assumes inv: "log_inv s n" and n29: "n \<le> 29"
  defines "dev \<equiv> lg_dev s" and "st \<equiv> lg_start s" and "new \<equiv> \<lambda>k. contents (info s k)"
  shows "\<exists>s'. commit s = Some (Ok ((), s')) \<and> log_inv s' 0 \<and> lg_dev s' = dev \<and> lg_start s' = st \<and>
    outstanding s' = outstanding s \<and> committing s' = committing s \<and> same_home dev st (dsk s') new \<and>
    wrote (\<lambda>d. recovers dev st (dsk s) d \<or> recovers dev st new d) s s'"
proof (cases "n = 0")
  case True
  then have "commit s = Some (Ok ((), s))" using header_okD(2) [OF log_invD(1) [OF inv]] by (simp add: commit_def)
  moreover have "recovers dev st (dsk s) (dsk s)"
    by (rule recovers_clear) (use log_invD(4) [OF inv] in \<open>simp_all add: dev_def st_def same_home_def\<close>)
  ultimately show ?thesis using inv True log_invD(8) [OF inv]
    by (intro exI [of _ s]) (simp add: dev_def st_def new_def same_home_def wrote_def)
next
  case False
  let ?P = "\<lambda>d. recovers dev st (dsk s) d \<or> recovers dev st new d"
  let ?h = "hkey s" and ?l = "lkey s" and ?k = "(dev, st)"
  note H = header_okD [OF log_invD(1) [OF inv]] and I = log_invD [OF inv]
  have lin: "in_log dev st (?l i)" if "i < n" for i using H(7) that by (simp add: dev_def st_def)
  have kin: "in_log dev st ?k" by (simp add: in_log_def)
  have kl: "?k \<noteq> ?l i" for i by (simp add: lkey_def dev_def st_def)
  have kh: "?k \<noteq> ?h i" if "i < n" for i using H(6) [OF that] kin by (auto simp: dev_def st_def)
  from write_log_spec [OF I(2,1)] I(3,6) n29 obtain s1 where
    1: "write_log s = Some (Ok ((), s1))" "quiet s1" "bcache.more s1 = bcache.more s" "nref s1 = nref s"
    "dsk s1 = puts ?l (\<lambda>i. new (?h i)) n (dsk s)" "\<forall>k. (\<forall>i<n. k \<noteq> ?l i) \<longrightarrow> info s1 k = info s k"
    "\<forall>i<n. contents (info s1 (?l i)) = new (?h i)" "\<forall>k. count (info s1 k) = count (info s k)"
    "wrote (\<lambda>d. \<exists>u\<le>n. d = puts ?l (\<lambda>i. new (?h i)) u (dsk s)) s s1"
    unfolding new_def by auto
  have out: "puts ?l v u d k = d k" if "u \<le> n" "\<not> in_log dev st k" for v :: "nat \<Rightarrow> block" and u d k
    by (rule puts_other) (use lin that in \<open>metis less_le_trans\<close>)
  have "?P (puts ?l (\<lambda>i. new (?h i)) u (dsk s))" if "u \<le> n" for u
    by (rule disjI1, rule recovers_clear)
      (use I(4) kl out [OF that] in \<open>simp_all add: puts_other same_home_def dev_def st_def\<close>)
  then have w1: "wrote ?P s s1" by (intro wrote_mono [OF 1(9)]) auto
  note m1 = same_more [OF 1(3)]
  have dev0: "lg_dev s1 \<noteq> 0" "nref s1 < 30" using H(1) m1(1) 1(4) I(3) n29 by simp_all
  let ?hd = "write_hdr (int n) (lh_block s) (contents (info s1 ?k))"
  from write_head_spec [OF 1(2) dev0] obtain s2 where
    2: "write_head s1 = Some (Ok ((), s2))" "quiet s2" "dsk s2 = (dsk s1)(?k := ?hd)" "past s2 = dsk s1 # past s1"
    "bcache.more s2 = bcache.more s1" "nref s2 = nref s1" "info s2 = (info s1)(?k := (?hd, count (info s1 ?k), False))"
    unfolding m1 H(2) dev_def st_def by auto
  note m2 = same_more [OF 2(5)]
  have dl: "dsk s2 (dev, st + i + 1) = new (?h i)" if "i < n" for i
    using puts_at [OF H(5) that, where v = "\<lambda>i. new (?h i)" and d = "dsk s"] 2(3) 1(5) that by (simp add: lkey_def dev_def st_def)
  have d2: "hdr_n (dsk s2 ?k) = int n" "\<And>i. i < n \<Longrightarrow> dhome dev st (dsk s2) i = ?h i"
    using hdr_write [OF H(3), where bl = "lh_block s"] I(5) 2(3) by (simp_all add: dhome_def hkey_def dev_def)
  have home2: "dsk s2 k = dsk s k" if "\<not> in_log dev st k" for k using 2(3) 1(5) out [OF order_refl that] that kin by auto
  have r2: "recovers dev st new (dsk s2)"
    by (rule committed_disk [OF d2(1) H(3) d2(2) H(4)])
      (use H(6) dl I(8) home2 in \<open>simp_all add: dev_def st_def new_def\<close>)
  have w2: "wrote ?P s s2" by (rule wrote_write [OF w1 2(4)]) (simp add: r2)
  have h2: "header_ok s2 n" using I(1) m1 m2 by (simp add: header_ok_def)
  have src: "contents (info s2 (lkey s2 i)) = dsk s2 (lkey s2 i)" if "i < n" for i
    using 2(7) 1(7) kl [of i, symmetric] dl that m1 m2 by (simp add: lkey_def dev_def st_def)
  have ih: "count (info s2 k) = count (info s k)" for k using 2(7) 1(8) by simp
  have room: "if False then nref s2 \<le> 28 else nref s2 \<le> 29 \<and> (\<forall>i<n. 0 < count (info s2 (hkey s2 i)))"
    using ih I(3,6) n29 2(6) 1(4) m1 m2 by simp
  have "lg_dev s2 = dev" "lg_start s2 = st" "hkey s2 = ?h" using m1 m2 by (simp_all add: dev_def st_def)
  with install_and_clear [OF 2(2) h2 room _ _ src, of new] d2 r2 obtain s3 where
    3: "doM (install_trans False) (doM (upd (\<lambda>s. s\<lparr>lh_n := 0\<rparr>)) write_head) s2 = Some (Ok ((), s3))" "quiet s3"
    "lg_dev s3 = dev" "lg_start s3 = st" "lh_n s3 = 0" "outstanding s3 = outstanding s2" "committing s3 = committing s2"
    "same_home dev st (dsk s3) new" "hdr_n (dsk s3 ?k) = 0"
    "\<forall>k. count (info s3 k) = count (info s2 k) - (if k \<in> ?h ` {..<n} then 1 else 0)" "wrote (recovers dev st new) s2 s3"
    by auto
  have "wrote ?P s s3" by (rule wrote_trans [OF w2 wrote_mono [OF 3(11)]]) simp
  moreover have "count (info s3 k) = 0" for k using 3(10) ih inv unfolding log_inv_def by simp
  then have "booted s3" using 3(2) by (intro unused_booted) simp_all
  moreover have "commit s = Some (Ok ((), s3))" using False H(2) 1(1) 2(1) 3(1) by (simp add: commit_def)
  ultimately show ?thesis using m1 m2 3 H(1)
    by (intro exI [of _ s3]) (simp add: log_inv_0 dev_def st_def)
qed

end
