(* ===== verification/Log_Txn.thy ===== *)
theory Log_Txn
  imports Log_Crash
begin

text \<open>
  Transactions as the file system makes them: \<open>begin_op\<close>, then blocks that are read, modified,
  passed to \<open>log_write\<close> and released, then \<open>end_op\<close>.
\<close>

section \<open>A logged update of one block\<close>

definition logged_update :: "nat \<Rightarrow> (block \<Rightarrow> block) \<Rightarrow> ('a log_state_scheme, unit) act" where
  "logged_update bno f =
     bindA (get lg_dev) (\<lambda>dev. bindA (bread dev bno) (\<lambda>b. doM (set_data b f) (doM (log_write b) (brelse b))))"

primrec logged_updates :: "(nat \<times> (block \<Rightarrow> block)) list \<Rightarrow> ('a log_state_scheme, unit) act" where
  "logged_updates [] = ret ()"
| "logged_updates (w # ws) = doM (logged_update (fst w) (snd w)) (logged_updates ws)"

definition transaction :: "(nat \<times> (block \<Rightarrow> block)) list \<Rightarrow> ('a log_state_scheme, unit) act" where
  "transaction ws = doM begin_op (doM (logged_updates ws) end_op)"

primrec apply_writes :: "nat \<Rightarrow> (nat \<times> (block \<Rightarrow> block)) list \<Rightarrow> disk \<Rightarrow> disk" where
  "apply_writes dev [] d = d"
| "apply_writes dev (w # ws) d = apply_writes dev ws (d((dev, fst w) := snd w (d (dev, fst w))))"

lemma log_slot_cases:
  obtains i where "i < n" "bl i = b" "log_slot bl n b = i" | "\<And>i. i < n \<Longrightarrow> bl i \<noteq> b" "log_slot bl n b = n"
proof (cases "find (\<lambda>i. bl i = b) [0..<n]")
  case None
  then have "log_slot bl n b = n" "\<And>i. i < n \<Longrightarrow> bl i \<noteq> b" by (simp_all add: log_slot_def) (simp add: find_None_iff)
  then show ?thesis by (rule that(2) [rotated])
next
  case (Some i)
  then have "log_slot bl n b = i" by (simp add: log_slot_def)
  then show ?thesis using that(1) [of i] find_SomeD [OF Some] by simp
qed

lemma extend_array:
  assumes "b \<notin> bl ` {..<n}"
  shows "inj_on bl {..<n} \<Longrightarrow> inj_on (bl(n := b)) {..<Suc n}" "(bl(n := b)) ` {..<Suc n} = insert b (bl ` {..<n})"
proof -
  have "{..<n} \<inter> {x. x \<noteq> n} = {..<n}" by auto
  then show "(bl(n := b)) ` {..<Suc n} = insert b (bl ` {..<n})" by (simp add: lessThan_Suc)
  show "inj_on bl {..<n} \<Longrightarrow> inj_on (bl(n := b)) {..<Suc n}"
    using assms by (auto simp: lessThan_Suc inj_on_def)
qed

lemma hkey_image: "hkey s ` A = Pair (lg_dev s) ` lh_block s ` A"
  by (simp add: image_image hkey_def)

text \<open>Passing a held block to the log pins it exactly when it was not yet in the transaction.\<close>

lemma log_write_spec:
  fixes s :: "'a log_state_scheme"
  assumes inv: "binv s" and h: "holds s b (lg_dev s, bno)" and n: "lh_n s = int n" "n < 30" and o: "1 \<le> outstanding s"
  shows "\<exists>s' n'. log_write b s = Some (Ok ((), s')) \<and> binv s' \<and> holds s' = holds s \<and> dsk s' = dsk s \<and> past s' = past s \<and>
    nref s' = nref s \<and> lg_dev s' = lg_dev s \<and> lg_start s' = lg_start s \<and> outstanding s' = outstanding s \<and>
    committing s' = committing s \<and> lh_n s' = int n' \<and> n \<le> n' \<and> n' \<le> n + 1 \<and>
    (n' = n \<and> info s' = info s \<and> lh_block s' = lh_block s \<and> bno \<in> lh_block s ` {..<n} \<or>
     n' = n + 1 \<and> bno \<notin> lh_block s ` {..<n} \<and> lh_block s' = (lh_block s)(n := bno) \<and>
     info s' = (info s)((lg_dev s, bno) := (contents (info s (lg_dev s, bno)), count (info s (lg_dev s, bno)) + 1, True)))"
proof -
  let ?k = "(lg_dev s, bno)" and ?i = "log_slot (lh_block s) n bno"
  have bn: "blockno (bufs s b) = bno" using h by (simp add: holds_def key_def)
  let ?s1 = "s\<lparr>lh_block := (lh_block s)(?i := bno)\<rparr>"
  have f1: "binv ?s1 = binv s" "holds ?s1 = holds s" "info ?s1 = info s" "nref ?s1 = nref s" by (rule ext_frame; simp)+
  have run: "log_write b s = (if ?i = n then doM (bpin b) (upd (\<lambda>s. s\<lparr>lh_n := lh_n s + 1\<rparr>)) ?s1 else Some (Ok ((), ?s1)))"
    using n o bn by (simp add: log_write_def Let_def LOGBLOCKS_def MAXOPBLOCKS_def)
  show ?thesis
  proof (cases rule: log_slot_cases [of n "lh_block s" bno])
    case (1 i)
    then have "log_write b s = Some (Ok ((), ?s1))" "lh_block ?s1 = lh_block s" "bno \<in> lh_block s ` {..<n}" using run by auto
    then show ?thesis using inv f1 n by (intro exI [of _ ?s1] exI [of _ n]) simp
  next
    case 2
    have "holds ?s1 b ?k" "binv ?s1" using h inv f1 by simp_all
    from bc.pin [OF this(2,1)] obtain s2 where p: "bpin b ?s1 = Some (Ok ((), s2))" "binv s2" "holds s2 = holds ?s1" "dsk s2 = dsk ?s1"
      "past s2 = past ?s1" "bcache.more s2 = bcache.more ?s1" "nref s2 = nref ?s1"
      "info s2 = (info ?s1)(?k := (contents (info ?s1 ?k), count (info ?s1 ?k) + 1, is_locked (info ?s1 ?k)))" by blast
    note m = same_more [OF p(6)]
    let ?s3 = "s2\<lparr>lh_n := lh_n s2 + 1\<rparr>"
    have f3: "binv ?s3 = binv s2" "holds ?s3 = holds s2" "info ?s3 = info s2" "nref ?s3 = nref s2" by (rule ext_frame; simp)+
    have "is_locked (info s ?k)" using bc.held [OF inv h] by simp
    moreover have "bno \<notin> lh_block s ` {..<n}" using 2(1) by auto
    moreover have "log_write b s = Some (Ok ((), ?s3))" using run 2(2) p(1) by simp
    ultimately show ?thesis using p f1 f3 m n 2(2) by (intro exI [of _ ?s3] exI [of _ "n + 1"]) simp
  qed
qed

lemma logged_update_spec:
  fixes s :: "'a log_state_scheme"
  assumes inv: "log_inv s n" and n: "n < 30" and o: "1 \<le> outstanding s"
    and bno: "bno < 2 ^ 32" "\<not> in_log (lg_dev s) (lg_start s) (lg_dev s, bno)"
  defines "k \<equiv> (lg_dev s, bno)"
  shows "\<exists>s' n'. logged_update bno f s = Some (Ok ((), s')) \<and> log_inv s' n' \<and> n' \<le> n + 1 \<and> dsk s' = dsk s \<and> past s' = past s \<and>
    lg_dev s' = lg_dev s \<and> lg_start s' = lg_start s \<and> outstanding s' = outstanding s \<and> committing s' = committing s \<and>
    lh_block s' ` {..<n'} = insert bno (lh_block s ` {..<n}) \<and>
    (\<forall>j. contents (info s' j) = (if j = k then f (contents (info s k)) else contents (info s j)))"
proof -
  note H = header_okD [OF log_invD(1) [OF inv]] and I = log_invD [OF inv]
  have b: "binv s" and unl: "\<And>j. \<not> is_locked (info s j)" using I(2) unfolding quiet_def by blast+
  have mem: "k = hkey s i \<longleftrightarrow> bno = lh_block s i" for i by (simp add: k_def hkey_def)
  have "0 < count (info s k) \<or> nref s < 30" using I(3) n by simp
  from bc.rd [OF b _ unl this] obtain i s1 where r: "bread (lg_dev s) bno s = Some (Ok (i, s1))" "binv s1" "holds s1 i k"
    "dsk s1 = dsk s" "past s1 = past s" "bcache.more s1 = bcache.more s" "nref s1 = nref s + (if count (info s k) = 0 then 1 else 0)"
    "info s1 = (info s)(k := (contents (info s k), count (info s k) + 1, True))"
    using H(1) by (auto simp: k_def)
  from bc.put [OF r(2,3), of f] obtain s2 where p: "set_data i f s1 = Some (Ok ((), s2))" "binv s2" "holds s2 = holds s1"
    "dsk s2 = dsk s1" "past s2 = past s1" "bcache.more s2 = bcache.more s1" "nref s2 = nref s1"
    "info s2 = (info s1)(k := (f (contents (info s1 k)), snd (info s1 k)))" by blast
  have "bcache.more s2 = bcache.more s" using p(6) r(6) by simp
  note m = same_more [OF this]
  have h2: "holds s2 i (lg_dev s2, bno)" "1 \<le> outstanding s2" "lh_n s2 = int n" using p(3) r(3) o H(2) m by (simp_all add: k_def)
  from log_write_spec [OF p(2) h2(1,3) n h2(2)] obtain s3 n' where
    w: "log_write i s2 = Some (Ok ((), s3))" "binv s3" "holds s3 = holds s2" "dsk s3 = dsk s2" "past s3 = past s2" "nref s3 = nref s2"
    "lg_dev s3 = lg_dev s" "lg_start s3 = lg_start s" "outstanding s3 = outstanding s" "committing s3 = committing s"
    "lh_n s3 = int n'" "n \<le> n'" "n' \<le> n + 1" and
    c: "n' = n \<and> info s3 = info s2 \<and> lh_block s3 = lh_block s \<and> bno \<in> lh_block s ` {..<n} \<or>
      n' = n + 1 \<and> bno \<notin> lh_block s ` {..<n} \<and> lh_block s3 = (lh_block s)(n := bno) \<and>
      info s3 = (info s2)(k := (contents (info s2 k), count (info s2 k) + 1, True))"
    unfolding m k_def [symmetric] by blast
  have ck: "count (info s k) = (if bno \<in> lh_block s ` {..<n} then 1 else 0)"
    using inv by (auto simp: log_inv_def k_def hkey_def)
  have c3: "count (info s3 k) = 2" "is_locked (info s3 k)" "contents (info s3 k) = f (contents (info s k))"
    using c p(8) r(8) ck by auto
  have h3: "holds s3 i k" using w(3) p(3) r(3) by simp
  have "1 < count (info s3 k) \<or> contents (info s3 k) = dsk s3 k" using c3 by simp
  from bc.rel [OF w(2) h3 this] obtain s4 where e: "brelse i s3 = Some (Ok ((), s4))" "binv s4" "dsk s4 = dsk s3" "past s4 = past s3"
    "bcache.more s4 = bcache.more s3" "nref s4 = nref s3" "info s4 = (info s3)(k := (f (contents (info s k)), 1, False))"
    using c3 by auto
  note m4 = same_more [OF e(5)]
  have i4: "info s4 j = (if j = k then (f (contents (info s k)), 1, False) else info s j)" for j
    using e(7) c p(8) r(8) by auto
  have blk: "lh_block s4 ` {..<n'} = insert bno (lh_block s ` {..<n})" "inj_on (lh_block s4) {..<n'}"
    using c m4(4) log_invD(1) [OF inv] extend_array [of bno "lh_block s" n] by (auto simp: header_ok_def)
  have "\<not> in_log (lg_dev s) (lg_start s) (lg_dev s, x) \<and> x < 2 ^ 32" if "x \<in> lh_block s4 ` {..<n'}" for x
    using that I(5) H(6) bno unfolding blk(1) by (auto simp: hkey_def)
  then have "header_ok s4 n'" "\<forall>i<n'. lh_block s4 i < 2 ^ 32" using w(7-13) m4 H(1) n blk(2) by (auto simp: header_ok_def hkey_def)
  moreover have "quiet s4" using e(2) i4 unl by (auto simp: quiet_def)
  moreover have "nref s4 \<le> n'" using e(6) w(6) p(7) r(7) I(3) ck c by auto
  moreover have "hkey s4 ` {..<n'} = insert k (hkey s ` {..<n})"
    unfolding hkey_image blk(1) m4(1) w(7) k_def by simp
  then have "\<forall>j. count (info s4 j) = (if j \<in> hkey s4 ` {..<n'} then 1 else 0)"
    using i4 inv by (simp add: log_inv_def)
  moreover have "dsk s4 = dsk s" using e w p r by simp
  ultimately have "log_inv s4 n'" using I(4) m4 w(7,8) by (simp add: log_inv_def)
  then show ?thesis using e w p r m4 i4 blk(1) by (intro exI [of _ s4] exI [of _ n']) (simp add: logged_update_def)
qed

lemma logged_updates_spec:
  fixes s :: "'a log_state_scheme"
  assumes "log_inv s n" "n + length ws \<le> 30" "1 \<le> outstanding s"
    "\<And>w. w \<in> set ws \<Longrightarrow> fst w < 2 ^ 32 \<and> \<not> in_log (lg_dev s) (lg_start s) (lg_dev s, fst w)"
  shows "\<exists>s' n'. logged_updates ws s = Some (Ok ((), s')) \<and> log_inv s' n' \<and> n' \<le> n + length ws \<and> dsk s' = dsk s \<and> past s' = past s \<and>
    lg_dev s' = lg_dev s \<and> lg_start s' = lg_start s \<and> outstanding s' = outstanding s \<and> committing s' = committing s \<and>
    lh_block s' ` {..<n'} = lh_block s ` {..<n} \<union> fst ` set ws \<and>
    (\<lambda>j. contents (info s' j)) = apply_writes (lg_dev s) ws (\<lambda>j. contents (info s j))"
  using assms
proof (induction ws arbitrary: s n)
  case Nil
  then show ?case by (intro exI [of _ s] exI [of _ n]) simp
next
  case (Cons w ws)
  have n: "n < 30" and w: "fst w < 2 ^ 32" "\<not> in_log (lg_dev s) (lg_start s) (lg_dev s, fst w)" using Cons.prems by auto
  from logged_update_spec [OF Cons.prems(1) n Cons.prems(3) w, of "snd w"] obtain s1 n1 where
    1: "logged_update (fst w) (snd w) s = Some (Ok ((), s1))" "log_inv s1 n1" "n1 \<le> n + 1" "dsk s1 = dsk s" "past s1 = past s"
    "lg_dev s1 = lg_dev s" "lg_start s1 = lg_start s" "outstanding s1 = outstanding s" "committing s1 = committing s"
    "lh_block s1 ` {..<n1} = insert (fst w) (lh_block s ` {..<n})"
    "\<forall>j. contents (info s1 j) = (if j = (lg_dev s, fst w) then snd w (contents (info s (lg_dev s, fst w))) else contents (info s j))"
    by blast
  obtain s' n' where "logged_updates ws s1 = Some (Ok ((), s')) \<and> log_inv s' n' \<and> n' \<le> n1 + length ws \<and> dsk s' = dsk s1 \<and> past s' = past s1 \<and>
    lg_dev s' = lg_dev s1 \<and> lg_start s' = lg_start s1 \<and> outstanding s' = outstanding s1 \<and> committing s' = committing s1 \<and>
    lh_block s' ` {..<n'} = lh_block s1 ` {..<n1} \<union> fst ` set ws \<and>
    (\<lambda>j. contents (info s' j)) = apply_writes (lg_dev s1) ws (\<lambda>j. contents (info s1 j))"
    using Cons.IH [OF 1(2)] Cons.prems 1(3,6,7,8) by (elim meta_impE) auto
  moreover have "(\<lambda>j. contents (info s1 j)) = (\<lambda>j. contents (info s j))((lg_dev s, fst w) := snd w (contents (info s (lg_dev s, fst w))))"
    using 1(11) by (intro ext) simp
  ultimately show ?case using 1 by (intro exI [of _ s'] exI [of _ n']) simp
qed

section \<open>Transactions\<close>

text \<open>Kernel memory after power on, with what the disk holds.\<close>

definition power_on :: "disk \<Rightarrow> log_state" where
  "power_on d = \<lparr>bufs = (\<lambda>_. \<lparr>valid = False, bdev = 0, blockno = 0, locked = False, refcnt = 0, bdata = (\<lambda>_. 0)\<rparr>), lru = [],
     dsk = d, past = [], lg_start = 0, outstanding = 0, committing = False, lg_dev = 0, lh_n = 0, lh_block = (\<lambda>_. 0)\<rparr>"

definition reboot :: "nat \<Rightarrow> nat \<Rightarrow> disk \<Rightarrow> (unit \<times> log_state) res option" where
  "reboot dev st d = doM binit (initlog dev st) (power_on d)"

lemma binit_booted: "\<exists>s. binit (power_on d) = Some (Ok ((), s)) \<and> booted s \<and> dsk s = d \<and> past s = [] \<and> outstanding s = 0 \<and> \<not> committing s"
proof -
  let ?s = "(power_on d)\<lparr>lru := rev [0..<NBUF]\<rparr>"
  have inv: "binv ?s" by (auto simp: binv_def power_on_def key_def)
  have "info ?s k = (d k, 0, False)" for k
    using info_absent [OF inv, of k] by (cases k; cases "fst k = 0") (auto simp: power_on_def key_def)
  then have "booted ?s" using inv by (intro unused_booted) (simp_all add: quiet_def)
  then show ?thesis by (intro exI [of _ ?s]) (simp add: binit_def power_on_def)
qed

lemma reboot_spec:
  assumes "recovers dev st e d" "dev \<noteq> 0"
  shows "\<exists>r. reboot dev st d = Some (Ok ((), r)) \<and> log_inv r 0 \<and> lg_dev r = dev \<and> lg_start r = st \<and> outstanding r = 0 \<and>
    \<not> committing r \<and> same_home dev st (dsk r) e \<and> (\<forall>d'\<in>set (past r). recovers dev st e d')"
proof -
  obtain s where s: "binit (power_on d) = Some (Ok ((), s))" "booted s" "dsk s = d" "past s = []" "outstanding s = 0" "\<not> committing s"
    using binit_booted by blast
  have ok: "disk_log_ok dev st (dsk s)" "same_home dev st (replay dev st d) e" using assms s(3) by (simp_all add: recovers_def)
  from initlog_spec [OF s(2) assms(2) ok(1)] obtain r where r: "initlog dev st s = Some (Ok ((), r))" "booted r" "lg_dev r = dev"
    "lg_start r = st" "lh_n r = 0" "outstanding r = 0" "\<not> committing r" "same_home dev st (dsk r) (replay dev st d)"
    "hdr_n (dsk r (dev, st)) = 0" "wrote (recovers dev st (replay dev st d)) s r" using s by auto
  have "recovers dev st e d'" if "d' \<in> set (past r)" for d'
    using r(10) that s(4) ok(2) unfolding wrote_def recovers_def same_home_def by auto
  then show ?thesis using r s(1) ok(2) assms(2) by (auto simp: reboot_def log_inv_0 same_home_def)
qed

lemma transaction_spec:
  fixes s :: "'a log_state_scheme"
  assumes inv: "log_inv s 0" and o: "outstanding s = 0" "\<not> committing s" and ws: "length ws \<le> 29"
    "\<And>w. w \<in> set ws \<Longrightarrow> fst w < 2 ^ 32 \<and> \<not> in_log (lg_dev s) (lg_start s) (lg_dev s, fst w)"
  shows "\<exists>s'. transaction ws s = Some (Ok ((), s')) \<and> log_inv s' 0 \<and> lg_dev s' = lg_dev s \<and> lg_start s' = lg_start s \<and>
    outstanding s' = 0 \<and> \<not> committing s' \<and> same_home (lg_dev s) (lg_start s) (dsk s') (apply_writes (lg_dev s) ws (dsk s)) \<and>
    wrote (\<lambda>d. recovers (lg_dev s) (lg_start s) (dsk s) d \<or>
      recovers (lg_dev s) (lg_start s) (apply_writes (lg_dev s) ws (dsk s)) d) s s'"
proof -
  let ?s1 = "s\<lparr>outstanding := 1\<rparr>"
  have fr: "log_inv (t\<lparr>outstanding := x, committing := c\<rparr>) n = log_inv t n" "dsk (t\<lparr>outstanding := x, committing := c\<rparr>) = dsk t"
    "info (t\<lparr>outstanding := x, committing := c\<rparr>) = info t" for x c n and t :: "'a log_state_scheme"
  proof -
    have "binv (t\<lparr>outstanding := x, committing := c\<rparr>) = binv t" "info (t\<lparr>outstanding := x, committing := c\<rparr>) = info t"
      "nref (t\<lparr>outstanding := x, committing := c\<rparr>) = nref t" by (rule ext_frame; simp)+
    then show "log_inv (t\<lparr>outstanding := x, committing := c\<rparr>) n = log_inv t n" "info (t\<lparr>outstanding := x, committing := c\<rparr>) = info t"
      by (simp_all add: log_inv_def header_ok_def quiet_def hkey_def [abs_def])
  qed simp
  have "lh_n s = 0" using inv by (simp add: log_inv_0)
  then have b: "begin_op s = Some (Ok ((), ?s1))" using o by (simp add: begin_op_def MAXOPBLOCKS_def LOGBLOCKS_def)
  have i1: "log_inv ?s1 0" "info ?s1 = info s" using inv fr [where t = s and x = 1 and c = "committing s"] by simp_all
  have "(\<lambda>j. contents (info s j)) = dsk s" using log_invD(8) [OF inv] by (intro ext) simp
  with logged_updates_spec [OF i1(1), of ws] ws i1(2) obtain s2 n where
    2: "logged_updates ws ?s1 = Some (Ok ((), s2))" "log_inv s2 n" "n \<le> 29" "dsk s2 = dsk s" "past s2 = past s" "lg_dev s2 = lg_dev s"
    "lg_start s2 = lg_start s" "outstanding s2 = 1" "committing s2 = committing s"
    "(\<lambda>j. contents (info s2 j)) = apply_writes (lg_dev s) ws (dsk s)" by auto
  let ?s3 = "s2\<lparr>outstanding := 0, committing := True\<rparr>"
  from commit_spec [of ?s3 n] 2 fr obtain s4 where
    4: "commit ?s3 = Some (Ok ((), s4))" "log_inv s4 0" "lg_dev s4 = lg_dev s" "lg_start s4 = lg_start s" "outstanding s4 = 0"
    "same_home (lg_dev s) (lg_start s) (dsk s4) (apply_writes (lg_dev s) ws (dsk s))"
    "wrote (\<lambda>d. recovers (lg_dev s) (lg_start s) (dsk s) d \<or>
      recovers (lg_dev s) (lg_start s) (apply_writes (lg_dev s) ws (dsk s)) d) s2 s4" by (auto simp: wrote_def)
  let ?s5 = "s4\<lparr>committing := False\<rparr>"
  have "transaction ws s = Some (Ok ((), ?s5))"
    using b 2(1,8,9) 4(1) o by (simp add: transaction_def end_op_def)
  moreover have "log_inv ?s5 0" using 4(2) fr [where t = s4 and x = "outstanding s4" and c = False] by simp
  ultimately show ?thesis using 2(5) 4 by (intro exI [of _ ?s5]) (simp add: wrote_def)
qed

text \<open>
  (C27) A transaction is atomic under crashes: started with an empty log, a transaction that updates
  at most 29 blocks outside the log returns with the updates on the disk, and whichever of the disk
  contents it goes through is found at the next boot, recovery returns and leaves the blocks outside
  the log either as they were before the transaction or as they are after it.
\<close>

theorem log_transaction_atomic:
  fixes s :: log_state
  assumes "log_inv s 0" "outstanding s = 0" "\<not> committing s" "length ws \<le> 29"
    "\<forall>w\<in>set ws. fst w < 2 ^ 32 \<and> \<not> in_log (lg_dev s) (lg_start s) (lg_dev s, fst w)"
  shows "\<exists>s' ds. transaction ws s = Some (Ok ((), s')) \<and> past s' = ds @ past s \<and>
    same_home (lg_dev s) (lg_start s) (dsk s') (apply_writes (lg_dev s) ws (dsk s)) \<and>
    (\<forall>d\<in>set (dsk s' # ds). \<exists>r. reboot (lg_dev s) (lg_start s) d = Some (Ok ((), r)) \<and>
      (same_home (lg_dev s) (lg_start s) (dsk r) (dsk s) \<or>
       same_home (lg_dev s) (lg_start s) (dsk r) (apply_writes (lg_dev s) ws (dsk s))))"
proof -
  let ?new = "apply_writes (lg_dev s) ws (dsk s)"
  from transaction_spec [OF assms(1-4)] assms(5) obtain s' ds where s': "transaction ws s = Some (Ok ((), s'))" "past s' = ds @ past s"
    "same_home (lg_dev s) (lg_start s) (dsk s') ?new"
    "\<forall>d\<in>set (dsk s' # ds). recovers (lg_dev s) (lg_start s) (dsk s) d \<or> recovers (lg_dev s) (lg_start s) ?new d"
    unfolding wrote_def by (metis set_ConsD)
  have dev: "lg_dev s \<noteq> 0" using assms(1) by (simp add: log_inv_0)
  have "\<exists>r. reboot (lg_dev s) (lg_start s) d = Some (Ok ((), r)) \<and>
      (same_home (lg_dev s) (lg_start s) (dsk r) (dsk s) \<or> same_home (lg_dev s) (lg_start s) (dsk r) ?new)"
    if "d \<in> set (dsk s' # ds)" for d
    using s'(4) that reboot_spec [OF _ dev, of "lg_start s" "dsk s" d] reboot_spec [OF _ dev, of "lg_start s" ?new d] by blast
  then show ?thesis using s' by blast
qed

lemma ld_le_zero [simp]: "ld_le n (\<lambda>_. 0) a = 0"
  by (induction n arbitrary: a) simp_all

lemma zero_disk_boots:
  "\<exists>r. reboot 1 2 (\<lambda>_ _. 0) = Some (Ok ((), r)) \<and> log_inv r 0 \<and> lg_dev r = 1 \<and> lg_start r = 2 \<and> outstanding r = 0 \<and> \<not> committing r"
proof -
  have "hdr_n (\<lambda>_. 0) = 0" by (simp add: hdr_n_def int32_def)
  then have "recovers 1 2 (\<lambda>_ _. 0) (\<lambda>_ _. 0)" by (intro recovers_clear) (simp_all add: same_home_def)
  from reboot_spec [OF this] show ?thesis by auto
qed

theorem log_transaction_atomic_witness:
  "\<exists>s s'. reboot 1 2 (\<lambda>_ _. 0) = Some (Ok ((), s)) \<and>
    transaction [(50, \<lambda>b. b(0 := 7)), (51, \<lambda>b. b(3 := 9)), (50, \<lambda>b. b(1 := 8))] s = Some (Ok ((), s')) \<and>
    dsk s' (1, 50) 0 = 7 \<and> dsk s' (1, 50) 1 = 8 \<and> dsk s' (1, 51) 3 = 9"
proof -
  let ?ws = "[(50, \<lambda>b. b(0 := 7)), (51, \<lambda>b. b(3 := 9)), (50, \<lambda>b. b(1 := 8))] :: (nat \<times> (block \<Rightarrow> block)) list"
  from zero_disk_boots obtain s where s: "reboot 1 2 (\<lambda>_ _. 0) = Some (Ok ((), s))" "log_inv s 0" "lg_dev s = 1" "lg_start s = 2"
    "outstanding s = 0" "\<not> committing s" by blast
  have "length ?ws \<le> 29" "\<forall>w\<in>set ?ws. fst w < 2 ^ 32 \<and> \<not> in_log (lg_dev s) (lg_start s) (lg_dev s, fst w)"
    using s(3,4) by (simp_all add: in_log_def)
  from log_transaction_atomic [OF s(2,5,6) this] obtain s' where
    s': "transaction ?ws s = Some (Ok ((), s'))" "same_home 1 2 (dsk s') (apply_writes 1 ?ws (dsk s))" unfolding s(3,4) by blast
  have "dsk s' (1, b) = apply_writes 1 ?ws (dsk s) (1, b)" if "b \<ge> 50" for b
    using s'(2) that unfolding same_home_def in_log_def by simp
  then show ?thesis using s(1) s'(1) by (intro exI [of _ s] exI [of _ s']) simp
qed

text \<open>
  (C28) Recovery can itself be interrupted: a boot over a disk whose log header is sound returns with
  the log installed and empty, and a boot over any disk content this recovery goes through returns
  with the same blocks outside the log.
\<close>

theorem recovery_restarts:
  assumes "disk_log_ok dev st d" "dev \<noteq> 0"
  shows "\<exists>r. reboot dev st d = Some (Ok ((), r)) \<and> same_home dev st (dsk r) (replay dev st d) \<and> hdr_n (dsk r (dev, st)) = 0 \<and>
    (\<forall>d'\<in>set (past r). \<exists>r'. reboot dev st d' = Some (Ok ((), r')) \<and> same_home dev st (dsk r') (dsk r))"
proof -
  have "recovers dev st (replay dev st d) d" using assms(1) by (simp add: recovers_def same_home_def)
  from reboot_spec [OF this assms(2)] obtain r where r: "reboot dev st d = Some (Ok ((), r))" "log_inv r 0" "lg_dev r = dev"
    "lg_start r = st" "same_home dev st (dsk r) (replay dev st d)" "\<forall>d'\<in>set (past r). recovers dev st (replay dev st d) d'" by blast
  have "\<exists>r'. reboot dev st d' = Some (Ok ((), r')) \<and> same_home dev st (dsk r') (dsk r)" if "d' \<in> set (past r)" for d'
    using reboot_spec [OF _ assms(2), of st "replay dev st d" d'] r(5,6) that by (auto simp: same_home_def)
  then show ?thesis using r by (auto simp: log_inv_0)
qed

theorem recovery_restarts_witness:
  "\<exists>r. reboot 1 2 ((\<lambda>_ _. 0)((1, 2) := write_hdr 1 (\<lambda>_. 60) (\<lambda>_. 0), (1, 3) := (\<lambda>_. 5))) = Some (Ok ((), r)) \<and> dsk r (1, 60) 0 = 5"
proof -
  let ?d = "(\<lambda>_ _. 0)((1, 2) := write_hdr 1 (\<lambda>_. 60) (\<lambda>_. 0), (1, 3) := (\<lambda>_. 5)) :: disk"
  have h: "hdr_n (?d (1, 2)) = 1" "hdr_block (?d (1, 2)) 0 = 60"
    using hdr_write(1) [of 1 "\<lambda>_. 60"] hdr_write(2) [of 1 0 "\<lambda>_. 60"] by simp_all
  have ok: "disk_log_ok 1 2 ?d" unfolding disk_log_ok_def Let_def h(1) dhome_def using h(2) by (simp add: in_log_def inj_on_def)
  have "replay 1 2 ?d (1, 60) = (\<lambda>_. 5)" unfolding replay_def h(1) dhome_def using h(2) by simp
  then show ?thesis using recovery_restarts [OF ok] by (auto simp: same_home_def in_log_def)
qed

section \<open>A full log\<close>

lemma log_inv_nref:
  assumes "log_inv s n"
  shows "nref s = n"
proof -
  let ?A = "{i. i < 30 \<and> 0 < refcnt (bufs s i)}"
  have b: "binv s" using log_invD(2) [OF assms] by (simp add: quiet_def)
  have dev: "fst (key (bufs s i)) \<noteq> 0" if "i \<in> ?A" for i using binvD(4) [OF b, of i] that by (auto simp: bdev_key)
  have cnt: "count (info s (key (bufs s i))) = refcnt (bufs s i)" if "i \<in> ?A" for i
    using info_at(2) [OF b _ refl dev [OF that]] that by auto
  have "inj_on (\<lambda>i. key (bufs s i)) ?A" using binvD(3) [OF b] dev by (auto simp: inj_on_def bdev_key)
  moreover have "(\<lambda>i. key (bufs s i)) ` ?A = hkey s ` {..<n}"
  proof
    have "key (bufs s i) \<in> hkey s ` {..<n}" if "i \<in> ?A" for i
      using cnt [OF that] assms that by (auto simp: log_inv_def split: if_splits)
    then show "(\<lambda>i. key (bufs s i)) ` ?A \<subseteq> hkey s ` {..<n}" by blast
    show "hkey s ` {..<n} \<subseteq> (\<lambda>i. key (bufs s i)) ` ?A"
    proof
      fix k assume "k \<in> hkey s ` {..<n}"
      then have c: "count (info s k) = 1" using log_invD(6) [OF assms] by auto
      then obtain i where i: "i < 30" "key (bufs s i) = k" "fst k \<noteq> 0" using info_absent [OF b, of k] by force
      then show "k \<in> (\<lambda>i. key (bufs s i)) ` ?A" using info_at(2) [OF b i] c by (intro image_eqI [of _ _ i]) auto
    qed
  qed
  ultimately have "card ?A = card (hkey s ` {..<n})" by (metis card_image)
  then show ?thesis using card_image [OF header_okD(4) [OF log_invD(1) [OF assms]]] by (simp add: nref_def)
qed

text \<open>
  (C29) A transaction that fills the log panics when it commits: with \<open>LOGBLOCKS\<close> blocks in the
  transaction every buffer of the cache is pinned, since \<open>NBUF\<close> is not larger, and \<open>write_log\<close> finds
  no buffer for the first block of the log.
\<close>

theorem full_log_commit_panics:
  assumes "log_inv s LOGBLOCKS"
  shows "commit s = Some (Panic ''bget: no buffers'')"
proof -
  have inv: "log_inv s 30" using assms by (simp add: LOGBLOCKS_def MAXOPBLOCKS_def)
  note H = header_okD [OF log_invD(1) [OF inv]]
  have b: "binv s" using log_invD(2) [OF inv] by (simp add: quiet_def)
  have all: "{i. i < 30 \<and> 0 < refcnt (bufs s i)} = {..<30}"
    by (rule card_subset_eq) (use log_inv_nref [OF inv] in \<open>auto simp: nref_def\<close>)
  then have used: "0 < refcnt (bufs s i)" if "i < 30" for i using that by blast
  let ?k = "(lg_dev s, lg_start s + 0 + 1)"
  have "?k \<noteq> hkey s i" if "i < 30" for i using H(8) [of 0 i] that by (simp add: lkey_def)
  then have "count (info s ?k) = 0" by (rule log_invD(7) [OF inv])
  then have "key (bufs s i) \<noteq> ?k" if "i < 30" for i
    using info_at(2) [OF b that, of ?k] used [OF that] H(1) by auto
  then have "find (\<lambda>i. bdev (bufs s i) = lg_dev s \<and> blockno (bufs s i) = lg_start s + 0 + 1) (lru s) = None"
    using binvD(2) [OF b] by (auto simp: find_None_iff key_def)
  moreover have "find (\<lambda>i. refcnt (bufs s i) = 0) (rev (lru s)) = None" using binvD(2) [OF b] used by (auto simp: find_None_iff)
  ultimately have "bread (lg_dev s) (lg_start s + 0 + 1) s = Some (Panic ''bget: no buffers'')"
    by (simp add: bread_def bget_def bindA_def bindF_def)
  then have "copy_out 0 s = Some (Panic ''bget: no buffers'')" by (simp add: copy_out_def bindA_def bindF_def)
  then have "for_upto 0 30 copy_out s = Some (Panic ''bget: no buffers'')" by (simp add: numeral_eq_Suc bindA_def bindF_def)
  then show ?thesis using H(2) by (simp add: commit_def write_log_def doM_def bindA_def bindF_def)
qed

theorem full_log_commit_panics_witness:
  "\<exists>r s. reboot 1 2 (\<lambda>_ _. 0) = Some (Ok ((), r)) \<and> doM begin_op (logged_updates (map (\<lambda>i. (100 + i, id)) [0..<30])) r = Some (Ok ((), s)) \<and>
    commit s = Some (Panic ''bget: no buffers'')"
proof -
  let ?ws = "map (\<lambda>i. (100 + i, id)) [0..<30] :: (nat \<times> (block \<Rightarrow> block)) list"
  from zero_disk_boots obtain r where r: "reboot 1 2 (\<lambda>_ _. 0) = Some (Ok ((), r))" "log_inv r 0" "lg_dev r = 1" "lg_start r = 2"
    "outstanding r = 0" "\<not> committing r" by blast
  let ?r = "r\<lparr>outstanding := 1\<rparr>"
  have "quiet ?r = quiet r" "info ?r = info r" "nref ?r = nref r" by (rule ext_frame; simp)+
  then have i: "log_inv ?r 0" using r(2) by (simp add: log_inv_def header_ok_def)
  have b: "begin_op r = Some (Ok ((), ?r))" using r(2,5,6) by (simp add: begin_op_def log_inv_0 MAXOPBLOCKS_def LOGBLOCKS_def)
  have "fst w < 2 ^ 32 \<and> \<not> in_log (lg_dev ?r) (lg_start ?r) (lg_dev ?r, fst w)" if "w \<in> set ?ws" for w
    using that r(3,4) by (auto simp: in_log_def)
  from logged_updates_spec [of ?r 0 ?ws, OF i _ _ this] obtain s n where s: "logged_updates ?ws ?r = Some (Ok ((), s))" "log_inv s n"
    "lh_block s ` {..<n} = fst ` set ?ws" by auto
  have "fst ` set ?ws = {100..<130}" by (auto simp: image_image image_iff intro: bexI [of _ "_ - 100"])
  then have "n = 30" using s(2,3) card_image [of "lh_block s" "{..<n}"] by (auto simp: log_inv_def header_ok_def)
  then show ?thesis using r(1) b s full_log_commit_panics [of s] by (auto simp: LOGBLOCKS_def MAXOPBLOCKS_def)
qed

end
