(* ===== verification/Locks.thy ===== *)
theory Locks
  imports Prelude
begin

text \<open>
  kernel/spinlock.c and kernel/sleeplock.c. A CPU is its interrupt enable bit and the nesting
  counters of \<open>struct cpu\<close>. \<open>acquire\<close> is given as the attempt that succeeds or fails: the loop around
  the atomic swap repeats the failed attempt. Every access to a sleep lock is made with its spin lock
  held, so a sleep lock operation is one step; the wait of \<open>acquiresleep\<close> is the result \<open>None\<close>.
\<close>

section \<open>Interrupts and spin locks\<close>

record cpu =
  noff :: int
  intena :: bool
  sie :: bool

record spinlock =
  sl_locked :: bool
  sl_cpu :: "nat option"

definition initlock :: spinlock where
  "initlock = \<lparr>sl_locked = False, sl_cpu = None\<rparr>"

definition push_off :: "cpu \<Rightarrow> cpu" where
  "push_off c =
     (let old = sie c; c1 = c\<lparr>sie := False\<rparr>; c2 = (if noff c1 = 0 then c1\<lparr>intena := old\<rparr> else c1)
      in c2\<lparr>noff := noff c2 + 1\<rparr>)"

definition pop_off :: "cpu \<Rightarrow> cpu res" where
  "pop_off c =
     (if sie c then Panic ''pop_off - interruptible''
      else if noff c < 1 then Panic ''pop_off''
      else let c1 = c\<lparr>noff := noff c - 1\<rparr> in Ok (if noff c1 = 0 \<and> intena c1 then c1\<lparr>sie := True\<rparr> else c1))"

definition holding :: "nat \<Rightarrow> spinlock \<Rightarrow> bool" where
  "holding me lk \<longleftrightarrow> sl_locked lk \<and> sl_cpu lk = Some me"

text \<open>The first part of \<open>acquire\<close>, and one turn of its loop: \<open>None\<close> when the lock was taken.\<close>

definition acquire_begin :: "nat \<Rightarrow> spinlock \<Rightarrow> cpu \<Rightarrow> cpu res" where
  "acquire_begin me lk c = (let c1 = push_off c in if holding me lk then Panic ''acquire'' else Ok c1)"

definition acquire_swap :: "nat \<Rightarrow> spinlock \<Rightarrow> spinlock option" where
  "acquire_swap me lk = (if sl_locked lk then None else Some \<lparr>sl_locked = True, sl_cpu = Some me\<rparr>)"

definition acquire :: "nat \<Rightarrow> spinlock \<Rightarrow> cpu \<Rightarrow> (spinlock \<times> cpu) res option" where
  "acquire me lk c =
     (case acquire_begin me lk c of
        Panic e \<Rightarrow> Some (Panic e)
      | Ok c1 \<Rightarrow> (case acquire_swap me lk of None \<Rightarrow> None | Some lk1 \<Rightarrow> Some (Ok (lk1, c1))))"

definition release :: "nat \<Rightarrow> spinlock \<Rightarrow> cpu \<Rightarrow> (spinlock \<times> cpu) res" where
  "release me lk c =
     (if \<not> holding me lk then Panic ''release''
      else bindR (pop_off c) (\<lambda>c1. Ok (\<lparr>sl_locked = False, sl_cpu = None\<rparr>, c1)))"

section \<open>Sleep locks\<close>

record sleeplock =
  sk_locked :: bool
  sk_pid :: int

definition initsleeplock :: sleeplock where
  "initsleeplock = \<lparr>sk_locked = False, sk_pid = 0\<rparr>"

definition acquiresleep :: "int \<Rightarrow> sleeplock \<Rightarrow> sleeplock option" where
  "acquiresleep pid lk = (if sk_locked lk then None else Some \<lparr>sk_locked = True, sk_pid = pid\<rparr>)"

definition releasesleep :: "sleeplock \<Rightarrow> sleeplock" where
  "releasesleep lk = \<lparr>sk_locked = False, sk_pid = 0\<rparr>"

definition holdingsleep :: "int \<Rightarrow> sleeplock \<Rightarrow> bool" where
  "holdingsleep pid lk \<longleftrightarrow> sk_locked lk \<and> sk_pid lk = pid"

end
