(* ===== verification/Kstate.thy ===== *)
theory Kstate
  imports Log Slab Pipe Vm Locks
begin

text \<open>
  The state of the kernel above the log: superblock and inode table (kernel/fs.c), file table
  (kernel/file.c), pipes, process table (kernel/proc.h), the memory allocators and the clock. A
  kernel call is an action on this state, made by the process \<open>cur\<close>; it has no result when it would
  sleep. Pointers into the kernel's static tables are indices, a null pointer is \<open>None\<close>. Trap frames
  are kept in the physical page that holds them.
\<close>

declare split_paired_All [simp del] split_paired_Ex [simp del]

section \<open>Types of the kernel's tables\<close>

record superblock =
  sb_magic :: nat
  sb_size :: nat
  sb_nblocks :: nat
  sb_ninodes :: nat
  sb_nlog :: nat
  sb_logstart :: nat
  sb_inodestart :: nat
  sb_bmapstart :: nat

record inode =
  i_dev :: nat
  i_inum :: nat
  i_ref :: int
  i_lock :: sleeplock
  i_valid :: bool
  i_type :: int
  i_major :: int
  i_minor :: int
  i_nlink :: int
  i_size :: nat
  i_addrs :: "nat \<Rightarrow> nat"

datatype ftype = FD_NONE | FD_PIPE | FD_INODE | FD_DEVICE

record kfile =
  f_type :: ftype
  f_ref :: int
  f_readable :: bool
  f_writable :: bool
  f_pipe :: nat
  f_ip :: nat
  f_off :: nat
  f_major :: int

datatype procstate = UNUSED | USED | SLEEPING | RUNNABLE | RUNNING | ZOMBIE

text \<open>What a process can sleep on: the addresses the kernel uses as channels.\<close>

datatype kchan = Ch_null | Ch_proc nat | Ch_ticks | Ch_pipe nat chan

datatype entry = Entry_none | Entry_forkret | Entry_kthread

record proc =
  p_state :: procstate
  p_chan :: kchan
  p_killed :: bool
  p_xstate :: int
  p_pid :: int
  p_parent :: "nat option"
  p_kstack :: nat
  p_sz :: nat
  p_pagetable :: nat
  p_trapframe :: nat
  p_ra :: entry
  p_sp :: nat
  p_ofile :: "nat \<Rightarrow> nat option"
  p_cwd :: "nat option"
  p_name :: "u8 list"
  p_pending :: u64
  p_valid_handlers :: u64
  p_handlers :: "nat \<Rightarrow> nat"
  p_sigframe :: mem
  p_sigframe_valid :: bool
  p_kthread :: bool
  p_kfunc :: nat
  p_karg :: nat

record kst = log_state +
  sb :: superblock
  itable :: "nat \<Rightarrow> inode"
  ftable :: "nat \<Rightarrow> kfile"
  pipes :: "nat \<Rightarrow> pipe"
  mm :: slab_sys
  procs :: "nat \<Rightarrow> proc"
  cur :: nat
  initproc :: nat
  nextpid :: int
  ticks :: nat
  lbuf :: mem
  trampoline :: nat
  first_run :: bool

type_synonym 'a kact = "(kst, 'a) act"

section \<open>Shared pieces\<close>

definition kmem_of :: "kst \<Rightarrow> kmem" where
  "kmem_of s = km (sst (mm s))"

definition set_kmem :: "kmem \<Rightarrow> kst \<Rightarrow> kst" where
  "set_kmem k s = s\<lparr>mm := (mm s)\<lparr>sst := (sst (mm s))\<lparr>km := k\<rparr>\<rparr>\<rparr>"

text \<open>Running a routine of the memory system on the kernel's memory.\<close>

definition on_mem :: "(kmem \<Rightarrow> ('a \<times> kmem) res) \<Rightarrow> 'a kact" where
  "on_mem f = (\<lambda>s. Some (bindR (f (kmem_of s)) (\<lambda>(x, k). Ok (x, set_kmem k s))))"

definition on_memF :: "(kmem \<Rightarrow> ('a \<times> kmem) res option) \<Rightarrow> 'a kact" where
  "on_memF f = (\<lambda>s. bindF (f (kmem_of s)) (\<lambda>(x, k). Some (Ok (x, set_kmem k s))))"

definition with_unit :: "kmem res \<Rightarrow> (unit \<times> kmem) res" where
  "with_unit r = bindR r (\<lambda>k. Ok ((), k))"

definition set_proc :: "nat \<Rightarrow> (proc \<Rightarrow> proc) \<Rightarrow> kst \<Rightarrow> kst" where
  "set_proc i f s = s\<lparr>procs := (procs s)(i := f (procs s i))\<rparr>"

definition set_inode :: "nat \<Rightarrow> (inode \<Rightarrow> inode) \<Rightarrow> kst \<Rightarrow> kst" where
  "set_inode i f s = s\<lparr>itable := (itable s)(i := f (itable s i))\<rparr>"

definition set_file :: "nat \<Rightarrow> (kfile \<Rightarrow> kfile) \<Rightarrow> kst \<Rightarrow> kst" where
  "set_file i f s = s\<lparr>ftable := (ftable s)(i := f (ftable s i))\<rparr>"

abbreviation myproc :: "kst \<Rightarrow> proc" where "myproc s \<equiv> procs s (cur s)"

definition whenA :: "bool \<Rightarrow> unit kact \<Rightarrow> unit kact" where
  "whenA c m = (if c then m else ret ())"

text \<open>16-bit and 32-bit arithmetic on the fields of the tables.\<close>

definition int16 :: "nat \<Rightarrow> int" where
  "int16 v = (let w = v mod 2 ^ 16 in if w < 2 ^ 15 then int w else int w - 2 ^ 16)"

definition uint16 :: "int \<Rightarrow> nat" where
  "uint16 v = nat (v mod 2 ^ 16)"

definition wrap16 :: "int \<Rightarrow> int" where
  "wrap16 v = int16 (uint16 v)"

definition add32 :: "nat \<Rightarrow> nat \<Rightarrow> nat" where
  "add32 a b = (a + b) mod 2 ^ 32"

definition sub32 :: "nat \<Rightarrow> nat \<Rightarrow> nat" where
  "sub32 a b = (a + (2 ^ 32 - b mod 2 ^ 32)) mod 2 ^ 32"

text \<open>Bytes of a block or of a local variable, as a list and back.\<close>

definition bytes_at :: "mem \<Rightarrow> nat \<Rightarrow> nat \<Rightarrow> u8 list" where
  "bytes_at m a n = map m [a..<a + n]"

definition put_bytes :: "nat \<Rightarrow> u8 list \<Rightarrow> mem \<Rightarrow> mem" where
  "put_bytes a bs m = (\<lambda>x. if a \<le> x \<and> x < a + length bs then bs ! (x - a) else m x)"

lemma bytes_at_length [simp]: "length (bytes_at m a n) = n"
  by (simp add: bytes_at_def)

lemma bytes_at_nth [simp]: "i < n \<Longrightarrow> bytes_at m a n ! i = m (a + i)"
  by (simp add: bytes_at_def)

lemma put_bytes_at_same: "length bs = n \<Longrightarrow> bytes_at (put_bytes a bs m) a n = bs"
  by (rule nth_equalityI) (auto simp: put_bytes_def)

lemma put_bytes_outside: "x < a \<or> a + length bs \<le> x \<Longrightarrow> put_bytes a bs m x = m x"
  by (auto simp: put_bytes_def)

end
