(* ===== verification/Ucopy.thy ===== *)
theory Ucopy
  imports Kstate
begin

text \<open>
  Copies between the kernel and the running process (kernel/proc.c) and the fetching of system call
  arguments (kernel/syscall.c). The destination or source of a copy is a user address, an address of
  physical memory, or a position in the local variable whose address the caller passes.
\<close>

datatype kaddr = User nat | Phys nat | Loc nat

primrec kadd :: "kaddr \<Rightarrow> nat \<Rightarrow> kaddr" where
  "kadd (User a) n = User (add64 a n)"
| "kadd (Phys a) n = Phys (add64 a n)"
| "kadd (Loc a) n = Loc (a + n)"

definition ucopyout :: "nat \<Rightarrow> nat \<Rightarrow> u8 list \<Rightarrow> int kact" where
  "ucopyout pt va bs =
     bindA (get myproc) (\<lambda>p. on_mem (copyout (p_sz p) (p_pagetable p) pt va bs))"

definition ucopyin :: "nat \<Rightarrow> nat \<Rightarrow> nat \<Rightarrow> (u8 list \<times> bool) kact" where
  "ucopyin pt va n =
     bindA (get myproc) (\<lambda>p. on_mem (\<lambda>k. bindR (copyin (p_sz p) (p_pagetable p) pt va n k) (\<lambda>(bs, ok, k1). Ok ((bs, ok), k1))))"

primrec either_copyout :: "kaddr \<Rightarrow> u8 list \<Rightarrow> int kact" where
  "either_copyout (User va) bs = bindA (get (\<lambda>s. p_pagetable (myproc s))) (\<lambda>pt. ucopyout pt va bs)"
| "either_copyout (Phys pa) bs = doM (upd (\<lambda>s. set_kmem (store_bytes pa bs (kmem_of s)) s)) (ret 0)"
| "either_copyout (Loc a) bs = doM (upd (\<lambda>s. s\<lparr>lbuf := put_bytes a bs (lbuf s)\<rparr>)) (ret 0)"

primrec either_copyin :: "kaddr \<Rightarrow> nat \<Rightarrow> (u8 list \<times> bool) kact" where
  "either_copyin (User va) n = bindA (get (\<lambda>s. p_pagetable (myproc s))) (\<lambda>pt. ucopyin pt va n)"
| "either_copyin (Phys pa) n = get (\<lambda>s. (load_bytes pa n (kmem_of s), True))"
| "either_copyin (Loc a) n = get (\<lambda>s. (bytes_at (lbuf s) a n, True))"

section \<open>The trap frame\<close>

definition TF_KERNEL_SATP :: nat where "TF_KERNEL_SATP = 0"
definition TF_KERNEL_SP :: nat where "TF_KERNEL_SP = 8"
definition TF_KERNEL_TRAP :: nat where "TF_KERNEL_TRAP = 16"
definition TF_EPC :: nat where "TF_EPC = 24"
definition TF_KERNEL_HARTID :: nat where "TF_KERNEL_HARTID = 32"
definition TF_RA :: nat where "TF_RA = 40"
definition TF_SP :: nat where "TF_SP = 48"
definition TF_A :: "nat \<Rightarrow> nat" where "TF_A n = 112 + 8 * n"
definition TF_SIZE :: nat where "TF_SIZE = 288"

definition tf_get :: "nat \<Rightarrow> nat \<Rightarrow> kst \<Rightarrow> nat" where
  "tf_get i off s = ld_le 8 (pmem (kmem_of s)) (p_trapframe (procs s i) + off)"

definition tf_set :: "nat \<Rightarrow> nat \<Rightarrow> nat \<Rightarrow> kst \<Rightarrow> kst" where
  "tf_set i off v s =
     set_kmem ((kmem_of s)\<lparr>pmem := st_le 8 (pmem (kmem_of s)) (p_trapframe (procs s i) + off) v\<rparr>) s"

section \<open>System call arguments\<close>

definition fetchaddr :: "nat \<Rightarrow> (nat \<times> int) kact" where
  "fetchaddr addr =
     bindA (get myproc) (\<lambda>p.
       if addr \<ge> p_sz p \<or> add64 addr 8 > p_sz p then ret (0, -1)
       else bindA (ucopyin (p_pagetable p) addr 8) (\<lambda>(bs, ok).
         if \<not> ok then ret (0, -1) else ret (ld_le 8 (put_bytes 0 bs (\<lambda>_. 0)) 0, 0)))"

text \<open>
  \<open>fetchstr\<close> returns the string without its NUL, or nothing when the copy fails.
\<close>

definition fetchstr :: "nat \<Rightarrow> nat \<Rightarrow> u8 list option kact" where
  "fetchstr addr mx =
     bindA (get myproc) (\<lambda>p.
       on_mem (\<lambda>k. bindR (copyinstr (p_pagetable p) addr mx k) (\<lambda>(bs, ok).
         Ok (if ok then Some (takeWhile (\<lambda>b. b \<noteq> 0) bs) else None, k))))"

definition argraw :: "nat \<Rightarrow> nat kact" where
  "argraw n = (if n \<le> 5 then get (\<lambda>s. tf_get (cur s) (TF_A n) s) else panic ''argraw'')"

definition argint :: "nat \<Rightarrow> int kact" where
  "argint n = bindA (argraw n) (\<lambda>v. ret (int32 (v mod 2 ^ 32)))"

definition argaddr :: "nat \<Rightarrow> nat kact" where
  "argaddr n = argraw n"

definition argstr :: "nat \<Rightarrow> nat \<Rightarrow> u8 list option kact" where
  "argstr n mx = bindA (argaddr n) (\<lambda>addr. fetchstr addr mx)"

end
