(* ===== verification/Fs.thy ===== *)
theory Fs
  imports Ucopy Kstring
begin

text \<open>
  kernel/fs.c: block allocator, inodes, inode contents, directories and path names, over the log.
  On-disk structures are decoded from the bytes of a block. Messages are not modelled.
\<close>

section \<open>On-disk layout (kernel/fs.h)\<close>

definition FSMAGIC :: nat where "FSMAGIC = 0x10203040"
definition ROOTINO :: nat where "ROOTINO = 1"
definition NDIRECT :: nat where "NDIRECT = 12"
definition NINDIRECT :: nat where "NINDIRECT = BSIZE div 4"
definition MAXFILE :: nat where "MAXFILE = NDIRECT + NINDIRECT"
definition DINODE_SIZE :: nat where "DINODE_SIZE = 64"
definition IPB :: nat where "IPB = BSIZE div DINODE_SIZE"
definition BPB :: nat where "BPB = BSIZE * 8"
definition DIRSIZ :: nat where "DIRSIZ = 14"
definition DIRENT_SIZE :: nat where "DIRENT_SIZE = 16"
definition T_DIR :: int where "T_DIR = 1"
definition T_FILE :: int where "T_FILE = 2"
definition T_DEVICE :: int where "T_DEVICE = 3"

definition IBLOCK :: "nat \<Rightarrow> superblock \<Rightarrow> nat" where
  "IBLOCK i sb' = i div IPB + sb_inodestart sb'"

definition BBLOCK :: "nat \<Rightarrow> superblock \<Rightarrow> nat" where
  "BBLOCK b sb' = b div BPB + sb_bmapstart sb'"

definition superblock_of :: "block \<Rightarrow> superblock" where
  "superblock_of d = \<lparr>sb_magic = ld_le 4 d 0, sb_size = ld_le 4 d 4, sb_nblocks = ld_le 4 d 8, sb_ninodes = ld_le 4 d 12,
     sb_nlog = ld_le 4 d 16, sb_logstart = ld_le 4 d 20, sb_inodestart = ld_le 4 d 24, sb_bmapstart = ld_le 4 d 28\<rparr>"

text \<open>The inode with number \<open>inum\<close> in its block starts at \<open>dino inum\<close>.\<close>

definition dino :: "nat \<Rightarrow> nat" where "dino inum = inum mod IPB * DINODE_SIZE"
definition di_type :: "block \<Rightarrow> nat \<Rightarrow> int" where "di_type d a = int16 (ld_le 2 d a)"
definition di_major :: "block \<Rightarrow> nat \<Rightarrow> int" where "di_major d a = int16 (ld_le 2 d (a + 2))"
definition di_minor :: "block \<Rightarrow> nat \<Rightarrow> int" where "di_minor d a = int16 (ld_le 2 d (a + 4))"
definition di_nlink :: "block \<Rightarrow> nat \<Rightarrow> int" where "di_nlink d a = int16 (ld_le 2 d (a + 6))"
definition di_size :: "block \<Rightarrow> nat \<Rightarrow> nat" where "di_size d a = ld_le 4 d (a + 8)"
definition di_addrs :: "block \<Rightarrow> nat \<Rightarrow> nat \<Rightarrow> nat" where "di_addrs d a i = ld_le 4 d (a + 12 + 4 * i)"

section \<open>Superblock and blocks\<close>

definition readsb :: "nat \<Rightarrow> unit kact" where
  "readsb dev =
     bindA (bread dev 1) (\<lambda>bp.
       bindA (data_of bp) (\<lambda>d. doM (upd (\<lambda>s. s\<lparr>sb := superblock_of d\<rparr>)) (brelse bp)))"

definition bzero :: "nat \<Rightarrow> nat \<Rightarrow> unit kact" where
  "bzero dev bno =
     bindA (bread dev bno) (\<lambda>bp. doM (set_data bp (\<lambda>d. memset d 0 0 BSIZE)) (doM (log_write bp) (brelse bp)))"

definition bmask :: "nat \<Rightarrow> u8" where "bmask bi = push_bit (bi mod 8) 1"

definition is_free :: "block \<Rightarrow> nat \<Rightarrow> bool" where
  "is_free d bi \<longleftrightarrow> d (bi div 8) AND bmask bi = 0"

definition mark_used :: "nat \<Rightarrow> block \<Rightarrow> block" where
  "mark_used bi d = d(bi div 8 := d (bi div 8) OR bmask bi)"

definition mark_free :: "nat \<Rightarrow> block \<Rightarrow> block" where
  "mark_free bi d = d(bi div 8 := d (bi div 8) AND NOT (bmask bi))"

definition scan_bits :: "block \<Rightarrow> nat \<Rightarrow> nat option" where
  "scan_bits d n = find (is_free d) [0..<min BPB n]"

function balloc_loop :: "nat \<Rightarrow> nat \<Rightarrow> nat \<Rightarrow> nat kact" where
  "balloc_loop dev n b =
     (if b < n then
        bindA (get (\<lambda>s. BBLOCK b (sb s))) (\<lambda>bb.
          bindA (bread dev bb) (\<lambda>bp.
            bindA (data_of bp) (\<lambda>d.
              case scan_bits d (n - b) of
                Some bi \<Rightarrow>
                  doM (set_data bp (mark_used bi)) (doM (log_write bp) (doM (brelse bp)
                    (doM (bzero dev (b + bi)) (ret (b + bi)))))
              | None \<Rightarrow> doM (brelse bp) (balloc_loop dev n (b + BPB)))))
      else ret 0)"
  by pat_completeness auto
termination
  by (relation "measure (\<lambda>(dev, n, b). n - b)") (auto simp: BPB_def BSIZE_def)

declare balloc_loop.simps [simp del]

definition balloc :: "nat \<Rightarrow> nat kact" where
  "balloc dev = bindA (get (\<lambda>s. sb_size (sb s))) (\<lambda>n. balloc_loop dev n 0)"

definition bfree :: "nat \<Rightarrow> nat \<Rightarrow> unit kact" where
  "bfree dev b =
     bindA (get (\<lambda>s. BBLOCK b (sb s))) (\<lambda>bb.
       bindA (bread dev bb) (\<lambda>bp.
         bindA (data_of bp) (\<lambda>d.
           let bi = b mod BPB in
           if is_free d bi then panic ''freeing free block''
           else doM (set_data bp (mark_free bi)) (doM (log_write bp) (brelse bp)))))"

section \<open>Inodes\<close>

abbreviation iget_of :: "nat \<Rightarrow> (inode \<Rightarrow> 'a) \<Rightarrow> 'a kact" where
  "iget_of ip f \<equiv> get (\<lambda>s. f (itable s ip))"

definition iinit :: "unit kact" where
  "iinit = upd (\<lambda>s. s\<lparr>itable := (\<lambda>i. if i < NINODE then (itable s i)\<lparr>i_lock := initsleeplock\<rparr> else itable s i)\<rparr>)"

definition iget :: "nat \<Rightarrow> nat \<Rightarrow> nat kact" where
  "iget dev inum =
     bindA (get (\<lambda>s. find (\<lambda>i. i_ref (itable s i) > 0 \<and> i_dev (itable s i) = dev \<and> i_inum (itable s i) = inum) [0..<NINODE])) (\<lambda>r.
       case r of
         Some ip \<Rightarrow> doM (upd (set_inode ip (\<lambda>x. x\<lparr>i_ref := i_ref x + 1\<rparr>))) (ret ip)
       | None \<Rightarrow>
           bindA (get (\<lambda>s. find (\<lambda>i. i_ref (itable s i) = 0) [0..<NINODE])) (\<lambda>e.
             case e of
               None \<Rightarrow> panic ''iget: no inodes''
             | Some ip \<Rightarrow>
                 doM (upd (set_inode ip (\<lambda>x. x\<lparr>i_dev := dev, i_inum := inum, i_ref := 1, i_valid := False\<rparr>))) (ret ip)))"

definition new_dinode :: "int \<Rightarrow> nat \<Rightarrow> block \<Rightarrow> block" where
  "new_dinode type a d = st_le 2 (memset d a 0 DINODE_SIZE) a (uint16 type)"

function ialloc_loop :: "nat \<Rightarrow> int \<Rightarrow> nat \<Rightarrow> nat \<Rightarrow> nat option kact" where
  "ialloc_loop dev type n inum =
     (if inum < n then
        bindA (get (\<lambda>s. IBLOCK inum (sb s))) (\<lambda>ib.
          bindA (bread dev ib) (\<lambda>bp.
            bindA (data_of bp) (\<lambda>d.
              if di_type d (dino inum) = 0 then
                doM (set_data bp (new_dinode type (dino inum))) (doM (log_write bp) (doM (brelse bp)
                  (bindA (iget dev inum) (\<lambda>ip. ret (Some ip)))))
              else doM (brelse bp) (ialloc_loop dev type n (inum + 1)))))
      else ret None)"
  by pat_completeness auto
termination
  by (relation "measure (\<lambda>(dev, type, n, inum). n - inum)") auto

declare ialloc_loop.simps [simp del]

definition ialloc :: "nat \<Rightarrow> int \<Rightarrow> nat option kact" where
  "ialloc dev type = bindA (get (\<lambda>s. sb_ninodes (sb s))) (\<lambda>n. ialloc_loop dev type n 1)"

definition put_dinode :: "inode \<Rightarrow> nat \<Rightarrow> block \<Rightarrow> block" where
  "put_dinode x a d =
     fold (\<lambda>i d. st_le 4 d (a + 12 + 4 * i) (i_addrs x i)) [0..<NDIRECT + 1]
       (st_le 4 (st_le 2 (st_le 2 (st_le 2 (st_le 2 d a (uint16 (i_type x))) (a + 2) (uint16 (i_major x)))
         (a + 4) (uint16 (i_minor x))) (a + 6) (uint16 (i_nlink x))) (a + 8) (i_size x))"

definition iupdate :: "nat \<Rightarrow> unit kact" where
  "iupdate ip =
     bindA (get (\<lambda>s. (itable s ip, IBLOCK (i_inum (itable s ip)) (sb s)))) (\<lambda>(x, ib).
       bindA (bread (i_dev x) ib) (\<lambda>bp.
         doM (set_data bp (put_dinode x (dino (i_inum x)))) (doM (log_write bp) (brelse bp))))"

definition idup :: "nat \<Rightarrow> nat kact" where
  "idup ip = doM (upd (set_inode ip (\<lambda>x. x\<lparr>i_ref := i_ref x + 1\<rparr>))) (ret ip)"

definition get_dinode :: "block \<Rightarrow> nat \<Rightarrow> inode \<Rightarrow> inode" where
  "get_dinode d a x = x\<lparr>i_type := di_type d a, i_major := di_major d a, i_minor := di_minor d a, i_nlink := di_nlink d a,
     i_size := di_size d a, i_addrs := (\<lambda>i. if i < NDIRECT + 1 then di_addrs d a i else i_addrs x i)\<rparr>"

text \<open>Taking the sleep lock of an inode.\<close>

definition lock_inode :: "nat \<Rightarrow> unit kact" where
  "lock_inode ip =
     bindA (get (\<lambda>s. acquiresleep (p_pid (myproc s)) (i_lock (itable s ip)))) (\<lambda>r.
       case r of None \<Rightarrow> blocked | Some lk \<Rightarrow> upd (set_inode ip (\<lambda>x. x\<lparr>i_lock := lk\<rparr>)))"

definition unlock_inode :: "nat \<Rightarrow> unit kact" where
  "unlock_inode ip = upd (set_inode ip (\<lambda>x. x\<lparr>i_lock := releasesleep (i_lock x)\<rparr>))"

definition ilock :: "nat \<Rightarrow> unit kact" where
  "ilock ip =
     bindA (iget_of ip i_ref) (\<lambda>r.
       if r < 1 then panic ''ilock''
       else doM (lock_inode ip)
         (bindA (get (\<lambda>s. (itable s ip, IBLOCK (i_inum (itable s ip)) (sb s)))) (\<lambda>(x, ib).
           if i_valid x then ret ()
           else
             bindA (bread (i_dev x) ib) (\<lambda>bp.
               bindA (data_of bp) (\<lambda>d.
                 doM (upd (set_inode ip (get_dinode d (dino (i_inum x)))))
                   (doM (brelse bp)
                     (doM (upd (set_inode ip (\<lambda>x. x\<lparr>i_valid := True\<rparr>)))
                       (bindA (iget_of ip i_type) (\<lambda>t. if t = 0 then panic ''ilock: no type'' else ret ())))))))))"

definition iunlock :: "nat \<Rightarrow> unit kact" where
  "iunlock ip =
     bindA (get (\<lambda>s. \<not> holdingsleep (p_pid (myproc s)) (i_lock (itable s ip)) \<or> i_ref (itable s ip) < 1)) (\<lambda>bad.
       if bad then panic ''iunlock'' else unlock_inode ip)"

definition free_direct :: "nat \<Rightarrow> nat \<Rightarrow> unit kact" where
  "free_direct ip i =
     bindA (iget_of ip (\<lambda>x. (i_dev x, i_addrs x i))) (\<lambda>(dev, a).
       if a \<noteq> 0 then doM (bfree dev a) (upd (set_inode ip (\<lambda>x. x\<lparr>i_addrs := (i_addrs x)(i := 0)\<rparr>))) else ret ())"

definition ind_addr :: "block \<Rightarrow> nat \<Rightarrow> nat" where "ind_addr d j = ld_le 4 d (4 * j)"

definition itrunc :: "nat \<Rightarrow> unit kact" where
  "itrunc ip =
     doM (for_upto 0 NDIRECT (free_direct ip))
     (bindA (iget_of ip (\<lambda>x. (i_dev x, i_addrs x NDIRECT))) (\<lambda>(dev, a).
       doM (if a \<noteq> 0 then
              bindA (bread dev a) (\<lambda>bp.
                doM (for_upto 0 NINDIRECT (\<lambda>j.
                       bindA (data_of bp) (\<lambda>d. if ind_addr d j \<noteq> 0 then bfree dev (ind_addr d j) else ret ())))
                (doM (brelse bp)
                (doM (bfree dev a) (upd (set_inode ip (\<lambda>x. x\<lparr>i_addrs := (i_addrs x)(NDIRECT := 0)\<rparr>))))))
            else ret ())
       (doM (upd (set_inode ip (\<lambda>x. x\<lparr>i_size := 0\<rparr>))) (iupdate ip))))"

definition iput :: "nat \<Rightarrow> unit kact" where
  "iput ip =
     bindA (iget_of ip (\<lambda>x. i_ref x = 1 \<and> i_valid x \<and> i_nlink x = 0)) (\<lambda>last.
       doM (if last then
              doM (lock_inode ip) (doM (itrunc ip)
                (doM (upd (set_inode ip (\<lambda>x. x\<lparr>i_type := 0\<rparr>)))
                (doM (iupdate ip)
                (doM (upd (set_inode ip (\<lambda>x. x\<lparr>i_valid := False\<rparr>))) (unlock_inode ip)))))
            else ret ())
       (upd (set_inode ip (\<lambda>x. x\<lparr>i_ref := i_ref x - 1\<rparr>))))"

definition iunlockput :: "nat \<Rightarrow> unit kact" where
  "iunlockput ip = doM (iunlock ip) (iput ip)"

definition reclaim_one :: "nat \<Rightarrow> nat \<Rightarrow> unit kact" where
  "reclaim_one dev inum =
     bindA (get (\<lambda>s. IBLOCK inum (sb s))) (\<lambda>ib.
       bindA (bread dev ib) (\<lambda>bp.
         bindA (data_of bp) (\<lambda>d.
           bindA (if di_type d (dino inum) \<noteq> 0 \<and> di_nlink d (dino inum) = 0
                  then bindA (iget dev inum) (\<lambda>ip. ret (Some ip)) else ret None) (\<lambda>r.
             doM (brelse bp)
               (case r of None \<Rightarrow> ret ()
                | Some ip \<Rightarrow> doM begin_op (doM (ilock ip) (doM (iunlock ip) (doM (iput ip) end_op))))))))"

definition ireclaim :: "nat \<Rightarrow> unit kact" where
  "ireclaim dev = bindA (get (\<lambda>s. sb_ninodes (sb s))) (\<lambda>n. for_upto 1 (n - 1) (reclaim_one dev))"

definition fsinit :: "nat \<Rightarrow> unit kact" where
  "fsinit dev =
     doM (readsb dev)
       (bindA (get sb) (\<lambda>b.
         if sb_magic b \<noteq> FSMAGIC then panic ''invalid file system''
         else doM (initlog dev (sb_logstart b)) (ireclaim dev)))"

end
