(* ===== verification/Fs_Data.thy ===== *)
theory Fs_Data
  imports Fs
begin

text \<open>
  The second half of kernel/fs.c: the contents of an inode, directories and path names. Path names and
  the names of directory entries are lists of bytes without their NUL.
\<close>

section \<open>Contents of an inode\<close>

definition ind_put :: "nat \<Rightarrow> nat \<Rightarrow> block \<Rightarrow> block" where "ind_put j a d = st_le 4 d (4 * j) a"

definition bmap :: "nat \<Rightarrow> nat \<Rightarrow> nat kact" where
  "bmap ip bn =
     bindA (iget_of ip (\<lambda>x. (i_dev x, i_addrs x))) (\<lambda>(dev, addrs).
       if bn < NDIRECT then
         if addrs bn = 0 then
           bindA (balloc dev) (\<lambda>addr.
             if addr = 0 then ret 0
             else doM (upd (set_inode ip (\<lambda>x. x\<lparr>i_addrs := (i_addrs x)(bn := addr)\<rparr>))) (ret addr))
         else ret (addrs bn)
       else if bn - NDIRECT < NINDIRECT then
         bindA (if addrs NDIRECT = 0 then
                  bindA (balloc dev) (\<lambda>addr.
                    if addr = 0 then ret 0
                    else doM (upd (set_inode ip (\<lambda>x. x\<lparr>i_addrs := (i_addrs x)(NDIRECT := addr)\<rparr>))) (ret addr))
                else ret (addrs NDIRECT)) (\<lambda>ind.
           if ind = 0 then ret 0
           else
             bindA (bread dev ind) (\<lambda>bp.
               bindA (data_of bp) (\<lambda>d.
                 bindA (if ind_addr d (bn - NDIRECT) = 0 then
                          bindA (balloc dev) (\<lambda>addr.
                            if addr \<noteq> 0 then
                              doM (set_data bp (ind_put (bn - NDIRECT) addr)) (doM (log_write bp) (ret addr))
                            else ret addr)
                        else ret (ind_addr d (bn - NDIRECT))) (\<lambda>addr.
                   doM (brelse bp) (ret addr)))))
       else panic ''bmap: out of range'')"

record stat =
  st_dev :: nat
  st_ino :: nat
  st_type :: int
  st_nlink :: int
  st_size :: nat

definition stati :: "inode \<Rightarrow> stat" where
  "stati x = \<lparr>st_dev = i_dev x, st_ino = i_inum x, st_type = i_type x, st_nlink = i_nlink x, st_size = i_size x\<rparr>"

function readi_loop :: "nat \<Rightarrow> kaddr \<Rightarrow> nat \<Rightarrow> nat \<Rightarrow> nat \<Rightarrow> int kact" where
  "readi_loop ip dst off n tot =
     (if tot < n then
        bindA (bmap ip (off div BSIZE)) (\<lambda>addr.
          if addr = 0 then ret (int32 tot)
          else
            bindA (iget_of ip i_dev) (\<lambda>dev.
              bindA (bread dev addr) (\<lambda>bp.
                bindA (data_of bp) (\<lambda>d.
                  bindA (either_copyout dst (bytes_at d (off mod BSIZE) (min (n - tot) (BSIZE - off mod BSIZE)))) (\<lambda>r.
                    if r = -1 then doM (brelse bp) (ret (-1))
                    else doM (brelse bp)
                      (readi_loop ip (kadd dst (min (n - tot) (BSIZE - off mod BSIZE)))
                        (add32 off (min (n - tot) (BSIZE - off mod BSIZE))) n
                        (tot + min (n - tot) (BSIZE - off mod BSIZE))))))))
      else ret (int32 tot))"
  by pat_completeness auto
termination
proof (relation "measure (\<lambda>(ip, dst, off, n, tot). n - tot)", goal_cases)
  case (2 ip dst off n tot)
  have "off mod BSIZE < BSIZE" by (simp add: BSIZE_def)
  with 2 show ?case by auto
qed simp

declare readi_loop.simps [simp del]

definition readi :: "nat \<Rightarrow> kaddr \<Rightarrow> nat \<Rightarrow> nat \<Rightarrow> int kact" where
  "readi ip dst off n =
     bindA (iget_of ip i_size) (\<lambda>sz.
       if off > sz \<or> add32 off n < off then ret 0
       else readi_loop ip dst off (if add32 off n > sz then sz - off else n) 0)"

text \<open>The loop of \<open>writei\<close> returns \<open>tot\<close> and \<open>off\<close>.\<close>

function writei_loop :: "nat \<Rightarrow> kaddr \<Rightarrow> nat \<Rightarrow> nat \<Rightarrow> nat \<Rightarrow> (nat \<times> nat) kact" where
  "writei_loop ip src off n tot =
     (if tot < n then
        bindA (bmap ip (off div BSIZE)) (\<lambda>addr.
          if addr = 0 then ret (tot, off)
          else
            bindA (iget_of ip i_dev) (\<lambda>dev.
              bindA (bread dev addr) (\<lambda>bp.
                bindA (either_copyin src (min (n - tot) (BSIZE - off mod BSIZE))) (\<lambda>(bs, ok).
                  doM (set_data bp (put_bytes (off mod BSIZE) bs))
                    (if \<not> ok then doM (brelse bp) (ret (tot, off))
                     else doM (log_write bp) (doM (brelse bp)
                       (writei_loop ip (kadd src (min (n - tot) (BSIZE - off mod BSIZE)))
                         (add32 off (min (n - tot) (BSIZE - off mod BSIZE))) n
                         (tot + min (n - tot) (BSIZE - off mod BSIZE)))))))))
      else ret (tot, off))"
  by pat_completeness auto
termination
proof (relation "measure (\<lambda>(ip, src, off, n, tot). n - tot)", goal_cases)
  case (2 ip src off n tot)
  have "off mod BSIZE < BSIZE" by (simp add: BSIZE_def)
  with 2 show ?case by auto
qed simp

declare writei_loop.simps [simp del]

definition writei :: "nat \<Rightarrow> kaddr \<Rightarrow> nat \<Rightarrow> nat \<Rightarrow> int kact" where
  "writei ip src off n =
     bindA (iget_of ip i_size) (\<lambda>sz.
       if off > sz \<or> add32 off n < off then ret (-1)
       else if add32 off n > MAXFILE * BSIZE then ret (-1)
       else
         bindA (writei_loop ip src off n 0) (\<lambda>(tot, off1).
           doM (upd (set_inode ip (\<lambda>x. if off1 > i_size x then x\<lparr>i_size := off1\<rparr> else x)))
             (doM (iupdate ip) (ret (int32 tot)))))"

section \<open>Directories\<close>

definition cstr_at :: "u8 list \<Rightarrow> nat \<Rightarrow> u8" where
  "cstr_at xs i = (if i < length xs then xs ! i else 0)"

definition namecmp :: "u8 list \<Rightarrow> (nat \<Rightarrow> u8) \<Rightarrow> int" where
  "namecmp name t = strncmp (cstr_at name) t DIRSIZ"

definition de_inum :: "mem \<Rightarrow> nat" where "de_inum de = ld_le 2 de 0"
definition de_name :: "mem \<Rightarrow> nat \<Rightarrow> u8" where "de_name de i = de (2 + i)"

text \<open>
  The entry at \<open>off\<close> is read into the local variable \<open>de\<close>; the loop returns the offset of the entry
  and its inode.
\<close>

function dirlookup_loop :: "nat \<Rightarrow> u8 list \<Rightarrow> nat \<Rightarrow> nat \<Rightarrow> (nat \<times> nat) option kact" where
  "dirlookup_loop dp name sz off =
     (if off < sz then
        bindA (readi dp (Loc 0) off DIRENT_SIZE) (\<lambda>r.
          if r \<noteq> int DIRENT_SIZE then panic ''dirlookup read''
          else bindA (get lbuf) (\<lambda>de.
            if de_inum de \<noteq> 0 \<and> namecmp name (de_name de) = 0 then
              bindA (iget_of dp i_dev) (\<lambda>dev. bindA (iget dev (de_inum de)) (\<lambda>ip. ret (Some (off, ip))))
            else dirlookup_loop dp name sz (off + DIRENT_SIZE)))
      else ret None)"
  by pat_completeness auto
termination
  by (relation "measure (\<lambda>(dp, name, sz, off). sz - off)") (auto simp: DIRENT_SIZE_def)

declare dirlookup_loop.simps [simp del]

definition dirlookup :: "nat \<Rightarrow> u8 list \<Rightarrow> (nat \<times> nat) option kact" where
  "dirlookup dp name =
     bindA (iget_of dp (\<lambda>x. (i_type x, i_size x))) (\<lambda>(type, sz).
       if type \<noteq> T_DIR then panic ''dirlookup not DIR'' else dirlookup_loop dp name sz 0)"

function free_dirent :: "nat \<Rightarrow> nat \<Rightarrow> nat \<Rightarrow> nat kact" where
  "free_dirent dp sz off =
     (if off < sz then
        bindA (readi dp (Loc 0) off DIRENT_SIZE) (\<lambda>r.
          if r \<noteq> int DIRENT_SIZE then panic ''dirlink read''
          else bindA (get lbuf) (\<lambda>de.
            if de_inum de = 0 then ret off else free_dirent dp sz (off + DIRENT_SIZE)))
      else ret off)"
  by pat_completeness auto
termination
  by (relation "measure (\<lambda>(dp, sz, off). sz - off)") (auto simp: DIRENT_SIZE_def)

declare free_dirent.simps [simp del]

definition make_dirent :: "u8 list \<Rightarrow> nat \<Rightarrow> mem \<Rightarrow> mem" where
  "make_dirent name inum de = st_le 2 (put_bytes 2 (map (cstr_at (takeWhile (\<lambda>b. b \<noteq> 0) name)) [0..<DIRSIZ]) de) 0 inum"

definition dirlink :: "nat \<Rightarrow> u8 list \<Rightarrow> nat \<Rightarrow> int kact" where
  "dirlink dp name inum =
     bindA (dirlookup dp name) (\<lambda>r.
       case r of
         Some (off, ip) \<Rightarrow> doM (iput ip) (ret (-1))
       | None \<Rightarrow>
           bindA (iget_of dp i_size) (\<lambda>sz.
             bindA (free_dirent dp sz 0) (\<lambda>off.
               doM (upd (\<lambda>s. s\<lparr>lbuf := make_dirent name inum (lbuf s)\<rparr>))
                 (bindA (writei dp (Loc 0) off DIRENT_SIZE) (\<lambda>w.
                   if w \<noteq> int DIRENT_SIZE then ret (-1) else ret 0)))))"

section \<open>Path names\<close>

definition slash :: u8 where "slash = 47"

text \<open>The next element of a path and what follows it; only the first \<open>DIRSIZ\<close> bytes of a name count.\<close>

definition skipelem :: "u8 list \<Rightarrow> (u8 list \<times> u8 list) option" where
  "skipelem path =
     (let p = dropWhile (\<lambda>c. c = slash) path in
      if p = [] then None
      else Some (dropWhile (\<lambda>c. c = slash) (dropWhile (\<lambda>c. c \<noteq> slash) p), take DIRSIZ (takeWhile (\<lambda>c. c \<noteq> slash) p)))"

lemma skipelem_shorter: "skipelem path = Some (rest, name) \<Longrightarrow> length rest < length path"
proof -
  assume s: "skipelem path = Some (rest, name)"
  let ?p = "dropWhile (\<lambda>c. c = slash) path"
  have p: "?p \<noteq> []" "rest = dropWhile (\<lambda>c. c = slash) (dropWhile (\<lambda>c. c \<noteq> slash) ?p)"
    using s by (auto simp: skipelem_def Let_def split: if_splits)
  then obtain c q where c: "?p = c # q" "c \<noteq> slash" using hd_dropWhile [of "\<lambda>c. c = slash" path] by (cases ?p) auto
  have "length rest \<le> length q" unfolding p(2) c(1) using c(2)
    by (auto intro: order_trans [OF length_dropWhile_le] length_dropWhile_le)
  also have "\<dots> < length path" using length_dropWhile_le [of "\<lambda>c. c = slash" path] c(1) by simp
  finally show ?thesis .
qed

text \<open>The loop of \<open>namex\<close>; the last name element comes with the result.\<close>

function namex_loop :: "u8 list \<Rightarrow> bool \<Rightarrow> nat \<Rightarrow> u8 list \<Rightarrow> (nat \<times> u8 list) option kact" where
  "namex_loop path parent ip name =
     (case skipelem path of
        None \<Rightarrow> if parent then doM (iput ip) (ret None) else ret (Some (ip, name))
      | Some (rest, nm) \<Rightarrow>
          doM (ilock ip)
            (bindA (iget_of ip i_type) (\<lambda>type.
              if type \<noteq> T_DIR then doM (iunlockput ip) (ret None)
              else if parent \<and> rest = [] then doM (iunlock ip) (ret (Some (ip, nm)))
              else bindA (dirlookup ip nm) (\<lambda>r.
                case r of
                  None \<Rightarrow> doM (iunlockput ip) (ret None)
                | Some (off, next) \<Rightarrow> doM (iunlockput ip) (namex_loop rest parent next nm)))))"
  by pat_completeness auto
termination
  by (relation "measure (\<lambda>(path, parent, ip, name). length path)") (auto dest: skipelem_shorter)

declare namex_loop.simps [simp del]

definition namex :: "u8 list \<Rightarrow> bool \<Rightarrow> (nat \<times> u8 list) option kact" where
  "namex path parent =
     bindA (if path \<noteq> [] \<and> hd path = slash then iget ROOTDEV ROOTINO
            else bindA (get (\<lambda>s. p_cwd (myproc s))) (\<lambda>c. case c of None \<Rightarrow> panic ''kerneltrap'' | Some ip \<Rightarrow> idup ip)) (\<lambda>ip.
       namex_loop path parent ip [])"

definition namei :: "u8 list \<Rightarrow> nat option kact" where
  "namei path = bindA (namex path False) (\<lambda>r. ret (map_option fst r))"

definition nameiparent :: "u8 list \<Rightarrow> (nat \<times> u8 list) option kact" where
  "nameiparent path = namex path True"

end
