(* ===== verification/Fs_Txn.thy ===== *)
theory Fs_Txn
  imports Log_Txn Fs_Data
begin

text \<open>
  Inside a transaction the file system works on a volume, a function from block numbers to contents.
  \<open>txn s L H\<close>: the blocks in \<open>L\<close> have been logged, those in \<open>H\<close> are held by the running call. The
  rules say what reading, logging and releasing a block do to the volume; \<open>wp m Q s\<close> is that the
  action \<open>m\<close> started in \<open>s\<close> returns and its result and final state satisfy \<open>Q\<close>.
\<close>

section \<open>Actions that return\<close>

definition wp :: "('s, 'a) act \<Rightarrow> ('a \<Rightarrow> 's \<Rightarrow> bool) \<Rightarrow> 's \<Rightarrow> bool" where
  "wp m Q s \<longleftrightarrow> (\<exists>x s'. m s = Some (Ok (x, s')) \<and> Q x s')"

named_theorems wp_simps

lemma wpI: "m s = Some (Ok (x, s')) \<Longrightarrow> Q x s' \<Longrightarrow> wp m Q s"
  by (auto simp: wp_def)

lemma wp_bindA [wp_simps]: "wp (bindA m f) Q = wp m (\<lambda>x. wp (f x) Q)"
  by (auto simp: wp_def bindA_eq_Ok fun_eq_iff)

lemma wp_doM [wp_simps]: "wp (doM m k) Q = wp m (\<lambda>_. wp k Q)"
  by (simp add: doM_def wp_bindA)

lemma wp_basic [wp_simps]:
  "wp (ret x) Q = Q x" "wp (get f) R = (\<lambda>s. R (f s) s)" "wp (upd g) P = (\<lambda>s. P () (g s))"
  by (auto simp: wp_def fun_eq_iff)

lemma wp_mono: "wp m Q s \<Longrightarrow> (\<And>x s'. Q x s' \<Longrightarrow> R x s') \<Longrightarrow> wp m R s"
  by (auto simp: wp_def)

lemma wpE:
  assumes "wp m Q s"
  obtains x s' where "m s = Some (Ok (x, s'))" "Q x s'"
  using assms by (auto simp: wp_def)

section \<open>Transactions in progress\<close>

definition vol :: "'a log_state_scheme \<Rightarrow> nat \<Rightarrow> block" where
  "vol s b = contents (info s (lg_dev s, b))"

definition txn :: "'a log_state_scheme \<Rightarrow> nat set \<Rightarrow> nat set \<Rightarrow> bool" where
  "txn s L H \<longleftrightarrow> header_ok s (card L) \<and> lh_block s ` {..<card L} = L \<and> (\<forall>b\<in>L. b < 2 ^ 32) \<and> binv s \<and>
     finite L \<and> finite H \<and> nref s \<le> card (L \<union> H) \<and> hdr_n (dsk s (lg_dev s, lg_start s)) = 0 \<and>
     (\<forall>k. count (info s k) = (if k \<in> Pair (lg_dev s) ` L then 1 else 0) + (if k \<in> Pair (lg_dev s) ` H then 1 else 0)) \<and>
     (\<forall>k. is_locked (info s k) \<longleftrightarrow> k \<in> Pair (lg_dev s) ` H) \<and>
     (\<forall>k. k \<notin> Pair (lg_dev s) ` L \<longrightarrow> contents (info s k) = dsk s k)"

text \<open>What the operations on blocks leave alone.\<close>

definition same_env :: "'a log_state_scheme \<Rightarrow> 'a log_state_scheme \<Rightarrow> bool" where
  "same_env s s' \<longleftrightarrow> lg_dev s' = lg_dev s \<and> lg_start s' = lg_start s \<and> outstanding s' = outstanding s \<and>
     committing s' = committing s \<and> log_state.more s' = log_state.more s \<and> dsk s' = dsk s \<and> past s' = past s"

lemma same_env_refl [simp]: "same_env s s"
  by (simp add: same_env_def)

lemma same_env_trans: "same_env s s' \<Longrightarrow> same_env s' s'' \<Longrightarrow> same_env s s''"
  by (simp add: same_env_def)

lemma txnD:
  assumes "txn s L H"
  shows "header_ok s (card L)" "lh_block s ` {..<card L} = L" "b \<in> L \<Longrightarrow> b < 2 ^ 32" "binv s" "finite L" "finite H"
    "nref s \<le> card (L \<union> H)" "hdr_n (dsk s (lg_dev s, lg_start s)) = 0"
    "count (info s k) = (if k \<in> Pair (lg_dev s) ` L then 1 else 0) + (if k \<in> Pair (lg_dev s) ` H then 1 else 0)"
    "is_locked (info s k) \<longleftrightarrow> k \<in> Pair (lg_dev s) ` H" "k \<notin> Pair (lg_dev s) ` L \<Longrightarrow> contents (info s k) = dsk s k"
    "lg_dev s \<noteq> 0" "lh_n s = int (card L)"
  using assms unfolding txn_def header_ok_def by blast+

lemma wp_bread:
  assumes t: "txn s L H" and b: "b \<notin> H" "b \<in> L \<or> card (L \<union> H) < 30"
    and Q: "\<And>bp s'. txn s' L (insert b H) \<Longrightarrow> holds s' bp (lg_dev s, b) \<Longrightarrow> vol s' = vol s \<Longrightarrow> same_env s s' \<Longrightarrow>
      (\<And>j k. holds s j k \<Longrightarrow> holds s' j k) \<Longrightarrow> bdata (bufs s' bp) = vol s b \<Longrightarrow> Q bp s'"
  shows "wp (bread (lg_dev s) b) Q s"
proof -
  let ?k = "(lg_dev s, b)"
  note T = txnD [OF t]
  have "\<not> is_locked (info s ?k)" "0 < count (info s ?k) \<or> nref s < 30" using T(10) [of ?k] T(9) [of ?k] T(7) b by auto
  from bc.rd [OF T(4) _ this] T(12) obtain i s' where
    r: "bread (lg_dev s) b s = Some (Ok (i, s'))" "binv s'" "holds s' i ?k" "\<forall>j k. holds s j k \<longrightarrow> holds s' j k"
    "dsk s' = dsk s" "past s' = past s" "bcache.more s' = bcache.more s" "nref s' = nref s + (if count (info s ?k) = 0 then 1 else 0)"
    "info s' = (info s)(?k := (contents (info s ?k), count (info s ?k) + 1, True))" by auto
  note m = same_more [OF r(7)]
  have "card (L \<union> insert b H) = card (L \<union> H) + (if b \<in> L then 0 else 1)" using T(5,6) b(1) by (simp add: insert_absorb)
  then have "nref s' \<le> card (L \<union> insert b H)" using r(8) T(7) T(9) [of ?k] b(1) by (auto split: if_splits)
  moreover have "count (info s' k) = (if k \<in> Pair (lg_dev s) ` L then 1 else 0) + (if k \<in> Pair (lg_dev s) ` insert b H then 1 else 0)"
    "is_locked (info s' k) \<longleftrightarrow> k \<in> Pair (lg_dev s) ` insert b H" "contents (info s' k) = contents (info s k)" for k
    unfolding r(9) using T(9,10) b(1) by auto
  moreover have "header_ok s' (card L)" using T(1) m by (simp add: header_ok_def)
  ultimately have "txn s' L (insert b H)" using T r(2,5) m by (simp add: txn_def)
  moreover have "vol s' = vol s" by (simp add: vol_def m r(9) fun_eq_iff)
  moreover have "bdata (bufs s' i) = vol s b" using bc.held [OF r(2,3)] r(9) by (simp add: vol_def)
  moreover have "same_env s s'" using m r(5,6) by (simp add: same_env_def)
  ultimately have "Q i s'" using r(3,4) by (intro Q) blast+
  then show ?thesis using r(1) by (auto simp: wp_def)
qed

lemma wp_brelse:
  assumes t: "txn s L H" and b: "b \<in> H" and h: "holds s bp (lg_dev s, b)"
    and Q: "\<And>s'. txn s' L (H - {b}) \<Longrightarrow> vol s' = vol s \<Longrightarrow> same_env s s' \<Longrightarrow>
      (\<And>j k. holds s j k \<Longrightarrow> k \<noteq> (lg_dev s, b) \<Longrightarrow> holds s' j k) \<Longrightarrow> Q () s'"
  shows "wp (brelse bp) Q s"
proof -
  let ?k = "(lg_dev s, b)"
  note T = txnD [OF t]
  have c: "count (info s ?k) = (if b \<in> L then 2 else 1)" using T(9) [of ?k] b by auto
  then have "1 < count (info s ?k) \<or> contents (info s ?k) = dsk s ?k" using T(11) [of ?k] by auto
  from bc.rel [OF T(4) h this] obtain s' where
    r: "brelse bp s = Some (Ok ((), s'))" "binv s'" "\<forall>j k. holds s j k \<longrightarrow> k \<noteq> ?k \<longrightarrow> holds s' j k"
    "dsk s' = dsk s" "past s' = past s" "bcache.more s' = bcache.more s" "nref s' + (if count (info s ?k) = 1 then 1 else 0) = nref s"
    "info s' = (info s)(?k := (contents (info s ?k), count (info s ?k) - 1, False))" by blast
  note m = same_more [OF r(6)]
  have "card (L \<union> H) = card (L \<union> (H - {b})) + (if b \<in> L then 0 else 1)"
  proof (cases "b \<in> L")
    case False
    then have "L \<union> H = insert b (L \<union> (H - {b}))" "b \<notin> L \<union> (H - {b})" "finite (L \<union> (H - {b}))" using b T(5,6) by auto
    then show ?thesis using False by simp
  next
    case True
    then have "L \<union> (H - {b}) = L \<union> H" by auto
    then show ?thesis using True by simp
  qed
  then have "nref s' \<le> card (L \<union> (H - {b}))" using r(7) T(7) c by (auto split: if_splits)
  moreover have "count (info s' k) = (if k \<in> Pair (lg_dev s) ` L then 1 else 0) + (if k \<in> Pair (lg_dev s) ` (H - {b}) then 1 else 0)"
    "is_locked (info s' k) \<longleftrightarrow> k \<in> Pair (lg_dev s) ` (H - {b})" "contents (info s' k) = contents (info s k)" for k
    unfolding r(8) using T(9,10) c by auto
  moreover have "header_ok s' (card L)" using T(1) m by (simp add: header_ok_def)
  ultimately have "txn s' L (H - {b})" using T r(2,4) m by (simp add: txn_def)
  moreover have "vol s' = vol s" by (simp add: vol_def m r(8) fun_eq_iff)
  moreover have "same_env s s'" using m r(4,5) by (simp add: same_env_def)
  ultimately have "Q () s'" using r(3) by (intro Q) blast+
  then show ?thesis using r(1) by (auto simp: wp_def)
qed

lemma wp_log:
  assumes t: "txn s L H" and o: "1 \<le> outstanding s" and b: "b \<in> H" "card L < 30" "b < 2 ^ 32" "\<not> in_log (lg_dev s) (lg_start s) (lg_dev s, b)"
    and h: "holds s bp (lg_dev s, b)"
    and Q: "\<And>s'. txn s' (insert b L) H \<Longrightarrow> vol s' = (vol s)(b := f (vol s b)) \<Longrightarrow> same_env s s' \<Longrightarrow> holds s' = holds s \<Longrightarrow> wp k Q s'"
  shows "wp (doM (set_data bp f) (doM (log_write bp) k)) Q s"
proof -
  let ?k = "(lg_dev s, b)"
  note T = txnD [OF t]
  from bc.put [OF T(4) h, of f] obtain s1 where
    p: "set_data bp f s = Some (Ok ((), s1))" "binv s1" "holds s1 = holds s" "dsk s1 = dsk s" "past s1 = past s"
    "bcache.more s1 = bcache.more s" "nref s1 = nref s" "info s1 = (info s)(?k := (f (contents (info s ?k)), snd (info s ?k)))" by blast
  note m = same_more [OF p(6)]
  have h1: "holds s1 bp (lg_dev s1, b)" "lh_n s1 = int (card L)" "1 \<le> outstanding s1" using h p(3) m T(13) o by simp_all
  from log_write_spec [OF p(2) h1(1,2) b(2) h1(3)] obtain s2 n' where
    w: "log_write bp s1 = Some (Ok ((), s2))" "binv s2" "holds s2 = holds s1" "dsk s2 = dsk s1" "past s2 = past s1" "nref s2 = nref s1"
    "lg_dev s2 = lg_dev s" "lg_start s2 = lg_start s" "outstanding s2 = outstanding s" "committing s2 = committing s"
    "lh_n s2 = int n'" and
    c: "n' = card L \<and> info s2 = info s1 \<and> lh_block s2 = lh_block s \<and> b \<in> L \<or>
      n' = card L + 1 \<and> b \<notin> L \<and> lh_block s2 = (lh_block s)(card L := b) \<and>
      info s2 = (info s1)(?k := (contents (info s1 ?k), count (info s1 ?k) + 1, True))"
    unfolding m T(2) by blast
  have more: "log_state.more s2 = log_state.more s"
    using w(1) m by (auto simp: log_write_def Let_def bpin_def set_buf_def res_simps split: if_splits)
  have n': "n' = card (insert b L)" using c T(5) by (auto simp: insert_absorb)
  have inj: "inj_on (lh_block s) {..<card L}" using T(1) by (simp add: header_ok_def)
  have blk: "lh_block s2 ` {..<n'} = insert b L \<and> inj_on (lh_block s2) {..<n'}"
  proof (cases "b \<in> L")
    case True
    with c have "n' = card L" "lh_block s2 = lh_block s" by auto
    then show ?thesis using True T(2) inj by (simp add: insert_absorb)
  next
    case False
    with c have *: "n' = Suc (card L)" "lh_block s2 = (lh_block s)(card L := b)" by auto
    note e = extend_array [of b "lh_block s" "card L", unfolded T(2), OF False]
    show ?thesis unfolding * using e(2) e(1) [OF inj] by blast
  qed
  have "\<not> in_log (lg_dev s) (lg_start s) (lg_dev s, x) \<and> x < 2 ^ 32" if "x \<in> insert b L" for x
    using that T(1,2,3) b(3,4) by (force simp: header_ok_def hkey_def)
  note out = this
  have "\<not> in_log (lg_dev s) (lg_start s) (hkey s2 i)" if "i < n'" for i
  proof -
    have "lh_block s2 i \<in> insert b L" using blk that by blast
    then show ?thesis using out w(7) by (simp add: hkey_def)
  qed
  then have hd: "header_ok s2 (card (insert b L))"
    using T(12) w(7,8,11) n' blk b(2) T(5) by (simp add: header_ok_def card_insert_if)
  have lk: "is_locked (info s ?k)" "count (info s ?k) = (if b \<in> L then 2 else 1)" using T(9) [of ?k] T(10) [of ?k] b(1) by auto
  have i2: "info s2 = (info s)(?k := (f (contents (info s ?k)), 2, True))" using c p(8) lk by (auto simp: fun_eq_iff prod_eq_iff)
  have c2: "count (info s2 k) = (if k \<in> Pair (lg_dev s) ` insert b L then 1 else 0) + (if k \<in> Pair (lg_dev s) ` H then 1 else 0)"
    "is_locked (info s2 k) \<longleftrightarrow> k \<in> Pair (lg_dev s) ` H"
    "contents (info s2 k) = (if k = ?k then f (contents (info s ?k)) else contents (info s k))" for k
    unfolding i2 using b(1) T(9) [of k] T(10) [of k] by (cases "k = ?k"; auto)+
  have "k \<notin> Pair (lg_dev s) ` insert b L \<longrightarrow> contents (info s2 k) = dsk s2 k" for k using c2(3) [of k] T(11) [of k] w(4) p(4) by auto
  moreover have "nref s2 \<le> card (insert b L \<union> H)" using T(7) w(6) p(7) b(1) by (simp add: insert_absorb)
  moreover have "hdr_n (dsk s2 (lg_dev s2, lg_start s2)) = 0" using T(8) w(4,7,8) p(4) by simp
  ultimately have "txn s2 (insert b L) H" using hd c2 T(3,5,6) w(2,7-9) b(3) blk n' unfolding txn_def by auto
  moreover have "vol s2 = (vol s)(b := f (vol s b))" using c2(3) w(7) by (auto simp: vol_def)
  moreover have "same_env s s2" using w(4,5,7-10) p(4,5) more by (simp add: same_env_def)
  ultimately have "wp k Q s2" using Q w(3) p(3) by simp
  then show ?thesis using p(1) w(1) by (simp add: wp_def)
qed

end
