(* ===== verification/Fs_Volume.thy ===== *)
theory Fs_Volume
  imports Fs_Txn
begin

text \<open>
  The volume of a file system: where its areas are, which blocks the bitmap marks as used, and what
  \<open>balloc\<close> and \<open>bfree\<close> of kernel/fs.c do to it.
\<close>

lemma fs_sizes [simp]:
  "BSIZE = 1024" "BPB = 8192" "NDIRECT = 12" "NINDIRECT = 256" "MAXFILE = 268" "IPB = 16" "DINODE_SIZE = 64" "DIRENT_SIZE = 16" "DIRSIZ = 14"
  by (simp_all add: BSIZE_def BPB_def NDIRECT_def NINDIRECT_def MAXFILE_def IPB_def DINODE_SIZE_def DIRENT_SIZE_def DIRSIZ_def)

section \<open>Bits of the bitmap\<close>

lemma bmask_bit: "bit (bmask i) n \<longleftrightarrow> n = i mod 8"
  by (auto simp: bmask_def bit_exp_iff possible_bit_def)

lemma is_free_bit: "is_free d i \<longleftrightarrow> \<not> bit (d (i div 8)) (i mod 8)"
  unfolding is_free_def by (subst bit_eq_iff) (auto simp: bit_and_iff bmask_bit possible_bit_def dest: spec [of _ "i mod 8"])

lemma same_bit: "i div 8 = j div 8 \<Longrightarrow> i mod 8 = j mod 8 \<Longrightarrow> i = (j :: nat)"
  by (metis div_mult_mod_eq)

lemma is_free_mark [simp]:
  "is_free (mark_used i d) j \<longleftrightarrow> j \<noteq> i \<and> is_free d j" "is_free (mark_free i d) j \<longleftrightarrow> j = i \<or> is_free d j"
proof -
  have m: "j mod 8 < 8" by simp
  show "is_free (mark_used i d) j \<longleftrightarrow> j \<noteq> i \<and> is_free d j"
    using same_bit [of i j] by (auto simp: is_free_bit mark_used_def bit_or_iff bmask_bit)
  show "is_free (mark_free i d) j \<longleftrightarrow> j = i \<or> is_free d j"
    using m same_bit [of i j] by (auto simp: is_free_bit mark_free_def bit_and_iff bit_not_iff bmask_bit possible_bit_def)
qed

section \<open>Layout\<close>

text \<open>
  The areas follow each other as mkfs lays them out: superblock, log, inodes, bitmap, data.
\<close>

definition bmap_blocks :: "superblock \<Rightarrow> nat set" where
  "bmap_blocks b = {sb_bmapstart b..sb_bmapstart b + sb_size b div BPB}"

definition datastart :: "superblock \<Rightarrow> nat" where
  "datastart b = sb_bmapstart b + sb_size b div BPB + 1"

definition layout_ok :: "superblock \<Rightarrow> bool" where
  "layout_ok b \<longleftrightarrow> 0 < sb_logstart b \<and> sb_logstart b + 30 < sb_inodestart b \<and> sb_inodestart b + sb_ninodes b div IPB < sb_bmapstart b \<and>
     datastart b < sb_size b \<and> sb_size b < 2 ^ 32"

definition in_use :: "(nat \<Rightarrow> block) \<Rightarrow> superblock \<Rightarrow> nat \<Rightarrow> bool" where
  "in_use v b k \<longleftrightarrow> \<not> is_free (v (BBLOCK k b)) (k mod BPB)"

text \<open>The bitmap never gives away a block before the data blocks.\<close>

definition vol_ok :: "(nat \<Rightarrow> block) \<Rightarrow> superblock \<Rightarrow> bool" where
  "vol_ok v b \<longleftrightarrow> layout_ok b \<and> (\<forall>k<datastart b. in_use v b k)"

definition data_block :: "superblock \<Rightarrow> nat \<Rightarrow> bool" where
  "data_block b k \<longleftrightarrow> datastart b \<le> k \<and> k < sb_size b"

lemma BBLOCK_in: "k < sb_size b \<Longrightarrow> BBLOCK k b \<in> bmap_blocks b"
  by (simp add: BBLOCK_def bmap_blocks_def div_le_mono)

lemma data_not_bmap: "data_block b k \<Longrightarrow> k \<notin> bmap_blocks b"
  by (auto simp: data_block_def datastart_def bmap_blocks_def)

lemma layout_bounds:
  assumes "layout_ok b" "k \<in> bmap_blocks b \<or> data_block b k \<or> (\<exists>i < sb_ninodes b. k = IBLOCK i b)"
  shows "k < 2 ^ 32" "\<not> in_log dev (sb_logstart b) (d, k)" "k \<noteq> 0"
proof -
  have "IBLOCK i b \<le> sb_inodestart b + sb_ninodes b div 16" if "i < sb_ninodes b" for i using that by (simp add: IBLOCK_def div_le_mono)
  then have "sb_inodestart b \<le> k \<and> k < sb_size b"
    using assms by (fastforce simp: layout_ok_def bmap_blocks_def data_block_def datastart_def IBLOCK_def)
  then show "k < 2 ^ 32" "\<not> in_log dev (sb_logstart b) (d, k)" "k \<noteq> 0" using assms(1) by (auto simp: layout_ok_def in_log_def)
qed

lemma inode_block_apart:
  assumes "layout_ok b" "i < sb_ninodes b"
  shows "IBLOCK i b \<notin> bmap_blocks b" "\<not> data_block b (IBLOCK i b)"
proof -
  have "i div 16 \<le> sb_ninodes b div 16" using assms(2) by (simp add: div_le_mono)
  then show "IBLOCK i b \<notin> bmap_blocks b" "\<not> data_block b (IBLOCK i b)"
    using assms(1) by (auto simp: layout_ok_def IBLOCK_def bmap_blocks_def data_block_def datastart_def)
qed

lemma in_use_mark:
  assumes "v' (BBLOCK k b) = mark_used (k mod BPB) (v (BBLOCK k b))" "\<And>x. x \<in> bmap_blocks b \<Longrightarrow> x \<noteq> BBLOCK k b \<Longrightarrow> v' x = v x"
    "j < sb_size b"
  shows "in_use v' b j \<longleftrightarrow> j = k \<or> in_use v b j"
proof (cases "BBLOCK j b = BBLOCK k b")
  case True
  then have "j = k \<longleftrightarrow> j mod 8192 = k mod 8192" by (metis BBLOCK_def fs_sizes(2) add_right_imp_eq div_mult_mod_eq)
  then show ?thesis using True assms(1) by (auto simp: in_use_def)
next
  case False
  then show ?thesis using assms(2) [OF BBLOCK_in [OF assms(3)]] by (auto simp: in_use_def)
qed

section \<open>Steps of a call\<close>

text \<open>The call leaves everything but the cached blocks alone and keeps the buffers it holds.\<close>

definition fstep :: "kst \<Rightarrow> kst \<Rightarrow> bool" where
  "fstep s s' \<longleftrightarrow> same_env s s' \<and> (\<forall>j k. holds s j k \<longrightarrow> holds s' j k)"

lemma fstep_refl [simp]: "fstep s s"
  by (simp add: fstep_def)

lemma fstep_trans: "fstep s s' \<Longrightarrow> fstep s' s'' \<Longrightarrow> fstep s s''"
  using same_env_trans by (fastforce simp: fstep_def)

lemma same_more_kst:
  assumes "log_state.more s' = log_state.more (s :: kst)"
  shows "sb s' = sb s \<and> itable s' = itable s \<and> mm s' = mm s \<and> procs s' = procs s \<and> cur s' = cur s \<and> lbuf s' = lbuf s"
  using assms by (cases s, cases s', hypsubst) simp

lemma same_env_kst:
  assumes "same_env s (s' :: kst)"
  shows "lg_dev s' = lg_dev s" "lg_start s' = lg_start s" "outstanding s' = outstanding s" "sb s' = sb s" "itable s' = itable s"
    "mm s' = mm s" "procs s' = procs s" "cur s' = cur s" "lbuf s' = lbuf s" "dsk s' = dsk s" "past s' = past s" "committing s' = committing s"
  using assms same_more_kst [of s' s] unfolding same_env_def by blast+

lemma fstep_kst:
  assumes "fstep s s'"
  shows "lg_dev s' = lg_dev s" "lg_start s' = lg_start s" "outstanding s' = outstanding s" "sb s' = sb s" "itable s' = itable s"
    "mm s' = mm s" "procs s' = procs s" "cur s' = cur s" "lbuf s' = lbuf s" "holds s j k \<Longrightarrow> holds s' j k"
proof -
  have "same_env s s'" using assms by (simp add: fstep_def)
  note same_env_kst [OF this]
  then show "lg_dev s' = lg_dev s" "lg_start s' = lg_start s" "outstanding s' = outstanding s" "sb s' = sb s" "itable s' = itable s"
    "mm s' = mm s" "procs s' = procs s" "cur s' = cur s" "lbuf s' = lbuf s" by simp_all
qed (use assms in \<open>simp add: fstep_def\<close>)

lemma holds_in: "txn s L H \<Longrightarrow> holds s j (lg_dev s, b) \<Longrightarrow> b \<in> H"
  using bc.held [of s j "(lg_dev s, b)"] txnD(4,10) [of s L H] by auto

lemma fstep_released:
  fixes s s' :: kst
  assumes "txn s L H" "b \<notin> H" "same_env s s'" "\<And>j k. holds s j k \<Longrightarrow> k \<noteq> (lg_dev s, b) \<Longrightarrow> holds s' j k"
  shows "fstep s s'"
  unfolding fstep_def using assms(2,3,4) holds_in [OF assms(1)] by blast

text \<open>A block that is read and released.\<close>

lemma wp_read_block:
  fixes s :: kst
  assumes "txn s L H" "b \<notin> H" "b \<in> L \<or> card (L \<union> H) < 30" "dev = lg_dev s"
    and Q: "\<And>s'. txn s' L H \<Longrightarrow> vol s' = vol s \<Longrightarrow> fstep s s' \<Longrightarrow> wp (k (vol s b)) Q s'"
  shows "wp (bindA (bread dev b) (\<lambda>bp. bindA (data_of bp) (\<lambda>d. doM (brelse bp) (k d)))) Q s"
  unfolding wp_simps assms(4)
proof (rule wp_bread [OF assms(1-3)])
  fix bp and s1 :: kst
  assume 1: "txn s1 L (insert b H)" "holds s1 bp (lg_dev s, b)" "vol s1 = vol s" "same_env s s1" "\<And>j k. holds s j k \<Longrightarrow> holds s1 j k"
    "bdata (bufs s1 bp) = vol s b"
  note e = same_env_kst [OF 1(4)]
  show "wp (brelse bp) (\<lambda>_. wp (k (bdata (bufs s1 bp))) Q) s1"
  proof (rule wp_brelse [OF 1(1), of b])
    show "b \<in> insert b H" "holds s1 bp (lg_dev s1, b)" using 1(2) e by simp_all
    fix s2 :: kst
    assume 2: "txn s2 L (insert b H - {b})" "vol s2 = vol s1" "same_env s1 s2"
      "\<And>j k. holds s1 j k \<Longrightarrow> k \<noteq> (lg_dev s1, b) \<Longrightarrow> holds s2 j k"
    have "fstep s s2"
      by (rule fstep_released [OF assms(1,2) same_env_trans [OF 1(4) 2(3)]]) (use 1(5) 2(4) e in simp)
    then show "wp (k (bdata (bufs s1 bp))) Q s2" using Q [of s2] 1(3,6) 2 assms(2) by simp
  qed
qed

text \<open>A block that is read, modified, logged and released.\<close>

lemma wp_update_block:
  fixes s :: kst
  assumes "txn s L H" "1 \<le> outstanding s" "b \<notin> H" "card (L \<union> H) < 30" "dev = lg_dev s" "b < 2 ^ 32"
    "\<not> in_log (lg_dev s) (lg_start s) (lg_dev s, b)"
    and Q: "\<And>s'. txn s' (insert b L) H \<Longrightarrow> vol s' = (vol s)(b := f (vol s b)) \<Longrightarrow> fstep s s' \<Longrightarrow> Q () s'"
  shows "wp (bindA (bread dev b) (\<lambda>bp. doM (set_data bp f) (doM (log_write bp) (brelse bp)))) Q s"
  unfolding wp_bindA assms(5)
proof (rule wp_bread [OF assms(1,3)])
  show "b \<in> L \<or> card (L \<union> H) < 30" using assms(4) by simp
  fix bp and s1 :: kst
  assume 1: "txn s1 L (insert b H)" "holds s1 bp (lg_dev s, b)" "vol s1 = vol s" "same_env s s1" "\<And>j k. holds s j k \<Longrightarrow> holds s1 j k"
  note e = same_env_kst [OF 1(4)]
  have h: "holds s1 bp (lg_dev s1, b)" using 1(2) e by simp
  have "card L \<le> card (L \<union> H)" using txnD(5,6) [OF assms(1)] by (simp add: card_mono)
  then have c: "card L < 30" using assms(4) by simp
  show "wp (doM (set_data bp f) (doM (log_write bp) (brelse bp))) Q s1"
  proof (rule wp_log [OF 1(1) _ _ c assms(6) _ h])
    fix s2 :: kst
    assume 2: "txn s2 (insert b L) (insert b H)" "vol s2 = (vol s1)(b := f (vol s1 b))" "same_env s1 s2" "holds s2 = holds s1"
    note e2 = same_env_kst [OF 2(3)]
    show "wp (brelse bp) Q s2"
    proof (rule wp_brelse [OF 2(1), of b])
      show "b \<in> insert b H" "holds s2 bp (lg_dev s2, b)" using h e2 2(4) by simp_all
      fix s3 :: kst
      assume 3: "txn s3 (insert b L) (insert b H - {b})" "vol s3 = vol s2" "same_env s2 s3"
        "\<And>j k. holds s2 j k \<Longrightarrow> k \<noteq> (lg_dev s2, b) \<Longrightarrow> holds s3 j k"
      have "fstep s s3"
        by (rule fstep_released [OF assms(1,3) same_env_trans [OF 1(4) same_env_trans [OF 2(3) 3(3)]]]) (use 1(5) 2(4) 3(4) e e2 in simp)
      then show "Q () s3" using Q [of s3] 1(3) 2 3 assms(3) by simp
    qed
  qed (use assms e in auto)
qed

section \<open>Allocating and freeing blocks\<close>

text \<open>
  A call inside a transaction that holds the blocks \<open>H\<close>, all of them in use and none of the bitmap.
\<close>

definition fs_txn :: "kst \<Rightarrow> nat set \<Rightarrow> nat set \<Rightarrow> bool" where
  "fs_txn s L H \<longleftrightarrow> txn s L H \<and> 1 \<le> outstanding s \<and> lg_start s = sb_logstart (sb s) \<and> vol_ok (vol s) (sb s) \<and>
     (\<forall>k\<in>H. in_use (vol s) (sb s) k \<and> k < sb_size (sb s) \<and> k \<notin> bmap_blocks (sb s))"

lemma fs_txnD:
  assumes "fs_txn s L H"
  shows "txn s L H" "1 \<le> outstanding s" "lg_start s = sb_logstart (sb s)" "vol_ok (vol s) (sb s)" "layout_ok (sb s)"
    "k \<in> H \<Longrightarrow> in_use (vol s) (sb s) k" "k \<in> H \<Longrightarrow> k \<notin> bmap_blocks (sb s)" "finite L" "finite H"
    "k \<in> H \<Longrightarrow> k < sb_size (sb s)"
  using assms txnD(5,6) unfolding fs_txn_def vol_ok_def by blast+

definition zero_block :: "block \<Rightarrow> block" where
  "zero_block d = memset d 0 0 BSIZE"

lemma zero_block_at [simp]: "i < 1024 \<Longrightarrow> zero_block d i = 0"
  by (simp add: zero_block_def memset_eq)

lemma card_le: "finite L \<Longrightarrow> finite H \<Longrightarrow> card L \<le> card (L \<union> H)"
  by (simp add: card_mono)

definition balloc_post :: "kst \<Rightarrow> nat set \<Rightarrow> nat set \<Rightarrow> nat \<Rightarrow> kst \<Rightarrow> bool" where
  "balloc_post s L H r s' \<longleftrightarrow> fstep s s' \<and>
     (r = 0 \<and> txn s' L H \<and> vol s' = vol s \<and> (\<forall>k < sb_size (sb s). in_use (vol s) (sb s) k) \<or>
      data_block (sb s) r \<and> \<not> in_use (vol s) (sb s) r \<and> txn s' (insert r (insert (BBLOCK r (sb s)) L)) H \<and>
      vol s' = (vol s)(BBLOCK r (sb s) := mark_used (r mod BPB) (vol s (BBLOCK r (sb s))), r := zero_block (vol s r)))"

lemma scan_bits_cases:
  assumes "scan_bits (v (BBLOCK b vb)) (n - b) = r" "b mod BPB = 0" "b < n"
  shows "case r of None \<Rightarrow> \<forall>k<n. b \<le> k \<longrightarrow> k < b + BPB \<longrightarrow> in_use v vb k
    | Some bi \<Rightarrow> b + bi < n \<and> \<not> in_use v vb (b + bi) \<and> bi = (b + bi) mod BPB \<and> BBLOCK (b + bi) vb = BBLOCK b vb"
proof -
  obtain q where q: "b = 8192 * q" using assms(2) by auto
  have m: "BBLOCK (b + i) vb = BBLOCK b vb" "(b + i) mod 8192 = i" if "i < 8192" for i using that q by (simp_all add: BBLOCK_def)
  show ?thesis
  proof (cases r)
    case None
    then have free: "\<not> is_free (v (BBLOCK b vb)) i" if "i < 8192" "i < n - b" for i
      using assms(1) that by (auto simp: scan_bits_def find_None_iff)
    have "in_use v vb k" if "k < n" "b \<le> k" "k < b + 8192" for k
      using free [of "k - b"] m [of "k - b"] that by (simp add: in_use_def)
    then show ?thesis using None by simp
  next
    case (Some bi)
    then have "is_free (v (BBLOCK b vb)) bi" "bi < 8192" "bi < n - b" using assms(1) find_SomeD [of "is_free (v (BBLOCK b vb))"]
      by (force simp: scan_bits_def)+
    then show ?thesis using Some m [of bi] by (simp add: in_use_def)
  qed
qed

lemma wp_bzero:
  fixes s :: kst
  assumes f: "fs_txn s L H" and b: "data_block (sb s) b" "b \<notin> H" "card (L \<union> H) < 30" "dev = lg_dev s"
    and Q: "\<And>s'. txn s' (insert b L) H \<Longrightarrow> vol s' = (vol s)(b := zero_block (vol s b)) \<Longrightarrow> fstep s s' \<Longrightarrow> Q () s'"
  shows "wp (bzero dev b) Q s"
  unfolding bzero_def zero_block_def [symmetric]
  using layout_bounds [OF fs_txnD(5) [OF f] disjI2 [OF disjI1 [OF b(1)]]] b fs_txnD(1-3) [OF f]
  by (intro wp_update_block [OF fs_txnD(1,2) [OF f] b(2-4)] Q) simp_all

text \<open>Marking a free block keeps the layout.\<close>

lemma mark_block_ok:
  assumes f: "fs_txn s L H" and k: "k < sb_size (sb s)" "\<not> in_use (vol s) (sb s) k"
    and t: "txn s' L' H" "vol s' = (vol s)(BBLOCK k (sb s) := mark_used (k mod BPB) (vol s (BBLOCK k (sb s))))" "fstep s s'"
  shows "fs_txn s' L' H" "data_block (sb s) k" "k \<notin> H" "BBLOCK k (sb s) \<noteq> k"
proof -
  note F = fs_txnD [OF f] and e = fstep_kst [OF t(3)]
  have iff: "in_use (vol s') (sb s) j \<longleftrightarrow> j = k \<or> in_use (vol s) (sb s) j" if "j < sb_size (sb s)" for j
    using t(2) that by (intro in_use_mark) simp_all
  have "datastart (sb s) \<le> k" using F(4) k(2) unfolding vol_ok_def using not_less by blast
  then show d: "data_block (sb s) k" using k(1) by (simp add: data_block_def)
  show "k \<notin> H" using F(6) k(2) by blast
  show "BBLOCK k (sb s) \<noteq> k" using data_not_bmap [OF d] BBLOCK_in [OF k(1)] by metis
  have "datastart (sb s) < sb_size (sb s)" using F(5) by (simp add: layout_ok_def)
  then have "vol_ok (vol s') (sb s)" using F(4) iff by (simp add: vol_ok_def)
  then show "fs_txn s' L' H" using f iff t(1) e unfolding fs_txn_def by simp
qed

lemma balloc_loop_wp:
  fixes s s1 :: kst
  assumes f: "fs_txn s L H" and room: "card (L \<union> H) < 29"
  shows "txn s1 L H \<Longrightarrow> vol s1 = vol s \<Longrightarrow> fstep s s1 \<Longrightarrow> b mod BPB = 0 \<Longrightarrow> (\<And>k. k < b \<Longrightarrow> k < sb_size (sb s) \<Longrightarrow> in_use (vol s) (sb s) k) \<Longrightarrow>
    wp (balloc_loop (lg_dev s) (sb_size (sb s)) b) (balloc_post s L H) s1"
proof (induction "sb_size (sb s) - b" arbitrary: b s1 rule: less_induct)
  case less
  note F = fs_txnD [OF f] and e = fstep_kst [OF less.prems(3)]
  let ?n = "sb_size (sb s)" and ?bb = "BBLOCK b (sb s)" and ?v = "vol s"
  show ?case
  proof (cases "b < ?n")
    case False
    then show ?thesis using less.prems by (subst balloc_loop.simps) (simp add: wp_simps balloc_post_def)
  next
    case True
    have bb: "?bb \<in> bmap_blocks (sb s)" by (rule BBLOCK_in [OF True])
    then have nH: "?bb \<notin> H" using F(7) by blast
    note lay = layout_bounds [OF F(5) disjI1 [OF bb]]
    show ?thesis
      unfolding balloc_loop.simps [of "lg_dev s" ?n b] if_P [OF True] wp_simps e(4)
    proof (subst e(1) [symmetric], rule wp_bread [OF less.prems(1) nH])
      show "?bb \<in> L \<or> card (L \<union> H) < 30" using room by simp
      fix bp and s2 :: kst
      assume 2: "txn s2 L (insert ?bb H)" "holds s2 bp (lg_dev s1, ?bb)" "vol s2 = vol s1" "same_env s1 s2"
        "\<And>j k. holds s1 j k \<Longrightarrow> holds s2 j k" "bdata (bufs s2 bp) = vol s1 ?bb"
      note e2 = same_env_kst [OF 2(4)]
      show "wp (case scan_bits (bdata (bufs s2 bp)) (?n - b) of
            None \<Rightarrow> doM (brelse bp) (balloc_loop (lg_dev s) ?n (b + BPB))
          | Some bi \<Rightarrow> doM (set_data bp (mark_used bi)) (doM (log_write bp) (doM (brelse bp) (doM (bzero (lg_dev s) (b + bi)) (ret (b + bi))))))
        (balloc_post s L H) s2"
        unfolding 2(6) less.prems(2)
      proof (cases "scan_bits (?v ?bb) (?n - b)")
        case None
        note sc = scan_bits_cases [OF refl less.prems(4) True, of ?v "sb s", unfolded None option.case]
        have "wp (brelse bp) (\<lambda>_. wp (balloc_loop (lg_dev s) ?n (b + BPB)) (balloc_post s L H)) s2"
        proof (rule wp_brelse [OF 2(1)])
          fix s3 :: kst
          assume 3: "txn s3 L (insert ?bb H - {?bb})" "vol s3 = vol s2" "same_env s2 s3"
            "\<And>j k. holds s2 j k \<Longrightarrow> k \<noteq> (lg_dev s2, ?bb) \<Longrightarrow> holds s3 j k"
          have st: "fstep s1 s3"
            by (rule fstep_released [OF less.prems(1) nH same_env_trans [OF 2(4) 3(3)]]) (use 2(5) 3(4) e2 in simp)
          show "wp (balloc_loop (lg_dev s) ?n (b + BPB)) (balloc_post s L H) s3"
          proof (rule less.hyps)
            fix k assume "k < b + BPB" "k < ?n"
            then show "in_use (vol s) (sb s) k" using sc less.prems(5) by (cases "k < b") auto
          qed (use True nH 2(3) 3(1,2) less.prems(2,4) fstep_trans [OF less.prems(3) st] in auto)
        qed (use 2(2) e2 in auto)
        then show "wp (case scan_bits (?v ?bb) (?n - b) of
            None \<Rightarrow> doM (brelse bp) (balloc_loop (lg_dev s) ?n (b + BPB))
          | Some bi \<Rightarrow> doM (set_data bp (mark_used bi)) (doM (log_write bp) (doM (brelse bp) (doM (bzero (lg_dev s) (b + bi)) (ret (b + bi))))))
          (balloc_post s L H) s2" using None e(1) by (simp add: wp_simps)
      next
        case (Some bi)
        note sc = scan_bits_cases [OF refl less.prems(4) True, of ?v "sb s", unfolded Some option.case]
        let ?r = "b + bi"
        have cL: "card L < 30" using room card_le [OF F(8,9)] by simp
        have "wp (doM (set_data bp (mark_used bi)) (doM (log_write bp) (doM (brelse bp) (doM (bzero (lg_dev s) ?r) (ret ?r))))) (balloc_post s L H) s2"
        proof (rule wp_log [OF 2(1) _ _ cL lay(1)])
          fix s3 :: kst
          assume 3: "txn s3 (insert ?bb L) (insert ?bb H)" "vol s3 = (vol s2)(?bb := mark_used bi (vol s2 ?bb))" "same_env s2 s3" "holds s3 = holds s2"
          note e3 = same_env_kst [OF 3(3)]
          show "wp (doM (brelse bp) (doM (bzero (lg_dev s) ?r) (ret ?r))) (balloc_post s L H) s3"
            unfolding wp_simps
          proof (rule wp_brelse [OF 3(1)])
            fix s4 :: kst
            assume 4: "txn s4 (insert ?bb L) (insert ?bb H - {?bb})" "vol s4 = vol s3" "same_env s3 s4"
              "\<And>j k. holds s3 j k \<Longrightarrow> k \<noteq> (lg_dev s3, ?bb) \<Longrightarrow> holds s4 j k"
            have "fstep s1 s4"
              by (rule fstep_released [OF less.prems(1) nH same_env_trans [OF 2(4) same_env_trans [OF 3(3) 4(3)]]])
                (use 2(5) 3(4) 4(4) e2 e3 in simp)
            then have st: "fstep s s4" by (rule fstep_trans [OF less.prems(3)])
            have t4: "txn s4 (insert ?bb L) H" "vol s4 = ?v(BBLOCK ?r (sb s) := mark_used (?r mod BPB) (?v (BBLOCK ?r (sb s))))"
              using 4(1,2) 3(2) 2(3) less.prems(2) nH sc by simp_all
            have r: "?r < ?n" "\<not> in_use ?v (sb s) ?r" using sc by simp_all
            note mk = mark_block_ok [OF f r t4 st] and e4 = fstep_kst [OF st]
            show "wp (bzero (lg_dev s) ?r) (\<lambda>_. balloc_post s L H ?r) s4"
            proof (rule wp_bzero [OF mk(1)])
              fix s5 assume 5: "txn s5 (insert ?r (insert ?bb L)) H" "vol s5 = (vol s4)(?r := zero_block (vol s4 ?r))" "fstep s4 s5"
              show "balloc_post s L H ?r s5"
                unfolding balloc_post_def using fstep_trans [OF st 5(3)] 5(1,2) t4(2) mk(2,4) sc by auto
            qed (use mk e e4 room F(8,9) in \<open>auto simp: card_insert_if\<close>)
          qed (use 2(2) 3(4) e2 e3 in auto)
        qed (use F(2,3) 2(2) e e2 lay(2) in auto)
        then show "wp (case scan_bits (?v ?bb) (?n - b) of
            None \<Rightarrow> doM (brelse bp) (balloc_loop (lg_dev s) ?n (b + BPB))
          | Some bi \<Rightarrow> doM (set_data bp (mark_used bi)) (doM (log_write bp) (doM (brelse bp) (doM (bzero (lg_dev s) (b + bi)) (ret (b + bi))))))
          (balloc_post s L H) s2" using Some by simp
      qed
    qed
  qed
qed

lemma wp_balloc:
  assumes "fs_txn s L H" "card (L \<union> H) < 29" "dev = lg_dev s" "\<And>r s'. balloc_post s L H r s' \<Longrightarrow> Q r s'"
  shows "wp (balloc dev) Q s"
  using balloc_loop_wp [OF assms(1,2) fs_txnD(1) [OF assms(1)] refl fstep_refl, of 0] assms(3,4)
  by (auto simp: balloc_def wp_simps elim: wp_mono)

end
