(* ===== verification/Fs_File.thy ===== *)
theory Fs_File
  imports Fs_Volume
begin

text \<open>
  Files on a volume. \<open>fblock v x n\<close> is the block that holds block \<open>n\<close> of the file with inode \<open>x\<close>, 0 when
  there is none, and \<open>fbyte v x o\<close> the byte at offset \<open>o\<close>, 0 where nothing has been written. The
  lemmas say what adding a block to a file and writing into one do to the bytes of the file.
\<close>

section \<open>Blocks and bytes of a file\<close>

definition fblock :: "(nat \<Rightarrow> block) \<Rightarrow> inode \<Rightarrow> nat \<Rightarrow> nat" where
  "fblock v x n =
     (if n < NDIRECT then i_addrs x n
      else if i_addrs x NDIRECT = 0 then 0 else ind_addr (v (i_addrs x NDIRECT)) (n - NDIRECT))"

definition fbyte :: "(nat \<Rightarrow> block) \<Rightarrow> inode \<Rightarrow> nat \<Rightarrow> u8" where
  "fbyte v x o' = (let a = fblock v x (o' div BSIZE) in if a = 0 then 0 else v a (o' mod BSIZE))"

definition fdata :: "(nat \<Rightarrow> block) \<Rightarrow> inode \<Rightarrow> u8 list" where
  "fdata v x = map (fbyte v x) [0..<i_size x]"

definition fblocks :: "(nat \<Rightarrow> block) \<Rightarrow> inode \<Rightarrow> nat set" where
  "fblocks v x = fblock v x ` {..<MAXFILE} - {0}"

definition own :: "(nat \<Rightarrow> block) \<Rightarrow> inode \<Rightarrow> nat set" where
  "own v x = fblocks v x \<union> ({i_addrs x NDIRECT} - {0})"

text \<open>
  The blocks of a file are data blocks in use, different from each other; every block below the size
  is there.
\<close>

definition file_ok :: "(nat \<Rightarrow> block) \<Rightarrow> superblock \<Rightarrow> inode \<Rightarrow> bool" where
  "file_ok v b x \<longleftrightarrow> (\<forall>k\<in>own v x. data_block b k \<and> in_use v b k) \<and>
     (\<forall>m<MAXFILE. \<forall>n<MAXFILE. fblock v x m = fblock v x n \<longrightarrow> m = n \<or> fblock v x m = 0) \<and>
     (\<forall>n<MAXFILE. fblock v x n = i_addrs x NDIRECT \<longrightarrow> fblock v x n = 0) \<and>
     i_size x \<le> MAXFILE * BSIZE \<and> (\<forall>n. n * BSIZE < i_size x \<longrightarrow> fblock v x n \<noteq> 0)"

lemma file_okD:
  assumes "file_ok v b x"
  shows "k \<in> own v x \<Longrightarrow> data_block b k" "k \<in> own v x \<Longrightarrow> in_use v b k"
    "m < MAXFILE \<Longrightarrow> n < MAXFILE \<Longrightarrow> fblock v x m = fblock v x n \<Longrightarrow> fblock v x m \<noteq> 0 \<Longrightarrow> m = n"
    "n < MAXFILE \<Longrightarrow> fblock v x n \<noteq> 0 \<Longrightarrow> fblock v x n \<noteq> i_addrs x NDIRECT"
    "i_size x \<le> MAXFILE * BSIZE" "n * BSIZE < i_size x \<Longrightarrow> fblock v x n \<noteq> 0"
  using assms unfolding file_ok_def by metis+

lemma own_simps:
  "n < MAXFILE \<Longrightarrow> fblock v x n \<noteq> 0 \<Longrightarrow> fblock v x n \<in> own v x" "i_addrs x NDIRECT \<noteq> 0 \<Longrightarrow> i_addrs x NDIRECT \<in> own v x"
  by (auto simp: own_def fblocks_def)

lemma zero_not_own: "0 \<notin> own v x"
  by (auto simp: own_def fblocks_def)

text \<open>A change of other blocks.\<close>

lemma fblock_cong: "(i_addrs x NDIRECT \<noteq> 0 \<Longrightarrow> v' (i_addrs x NDIRECT) = v (i_addrs x NDIRECT)) \<Longrightarrow> fblock v' x n = fblock v x n"
  by (simp add: fblock_def)

lemma own_keep:
  assumes "\<And>k. k \<in> own v x \<Longrightarrow> v' k = v k"
  shows "fblock v' x n = fblock v x n" "own v' x = own v x" "o' < MAXFILE * BSIZE \<Longrightarrow> fbyte v' x o' = fbyte v x o'"
proof -
  have f: "fblock v' x n = fblock v x n" for n using assms own_simps(2) by (intro fblock_cong) blast
  then show "fblock v' x n = fblock v x n" "own v' x = own v x" by (simp_all add: own_def fblocks_def)
  show "fbyte v' x o' = fbyte v x o'" if "o' < MAXFILE * BSIZE"
    using that assms own_simps(1) [of "o' div BSIZE" v x] by (auto simp: fbyte_def f Let_def)
qed

lemma file_ok_keep:
  assumes "file_ok v b x" "\<And>k. k \<in> own v x \<Longrightarrow> v' k = v k" "\<And>k. k \<in> own v x \<Longrightarrow> in_use v' b k"
  shows "file_ok v' b x"
  using assms own_keep [OF assms(2)] unfolding file_ok_def by simp

section \<open>Allocated blocks\<close>

definition alloc_vol :: "(nat \<Rightarrow> block) \<Rightarrow> superblock \<Rightarrow> nat \<Rightarrow> nat \<Rightarrow> block" where
  "alloc_vol v b r = v(BBLOCK r b := mark_used (r mod BPB) (v (BBLOCK r b)), r := zero_block (v r))"

text \<open>A block that no file has yet: in use, filled with zeros.\<close>

definition fresh_block :: "(nat \<Rightarrow> block) \<Rightarrow> superblock \<Rightarrow> inode \<Rightarrow> nat \<Rightarrow> bool" where
  "fresh_block v b x r \<longleftrightarrow> data_block b r \<and> in_use v b r \<and> r \<notin> own v x \<and> r \<noteq> 0 \<and> (\<forall>i<BSIZE. v r i = 0)"

lemma alloc_vol:
  assumes "vol_ok v b" "data_block b r" "\<not> in_use v b r"
  shows "vol_ok (alloc_vol v b r) b" "j < sb_size b \<Longrightarrow> in_use (alloc_vol v b r) b j \<longleftrightarrow> j = r \<or> in_use v b j"
    "k \<noteq> r \<Longrightarrow> k \<notin> bmap_blocks b \<Longrightarrow> alloc_vol v b r k = v k"
    "file_ok v b x \<Longrightarrow> file_ok (alloc_vol v b r) b x" "file_ok v b x \<Longrightarrow> fresh_block (alloc_vol v b r) b x r"
    "file_ok v b x \<Longrightarrow> k \<in> own v x \<Longrightarrow> alloc_vol v b r k = v k"
proof -
  have r: "r < sb_size b" "r \<notin> bmap_blocks b" using assms(2) data_not_bmap by (auto simp: data_block_def)
  have bb: "BBLOCK r b \<in> bmap_blocks b" by (rule BBLOCK_in [OF r(1)])
  then have ne: "BBLOCK r b \<noteq> r" using r(2) by metis
  show iff: "in_use (alloc_vol v b r) b j \<longleftrightarrow> j = r \<or> in_use v b j" if "j < sb_size b" for j
    using that r(2) ne by (intro in_use_mark) (auto simp: alloc_vol_def)
  have "datastart b < sb_size b" using assms(1) by (simp add: vol_ok_def layout_ok_def)
  then show "vol_ok (alloc_vol v b r) b" using assms(1) iff by (simp add: vol_ok_def)
  show oth: "alloc_vol v b r k = v k" if "k \<noteq> r" "k \<notin> bmap_blocks b" for k using that bb by (auto simp: alloc_vol_def)
  show same: "alloc_vol v b r k = v k" if f: "file_ok v b x" "k \<in> own v x" for k
    using oth [of k] file_okD(1,2) [OF f(1,2)] data_not_bmap assms(3) by metis
  assume f: "file_ok v b x"
  show "file_ok (alloc_vol v b r) b x"
    using same [OF f] iff file_okD(1,2) [OF f] by (intro file_ok_keep [OF f]) (auto simp: data_block_def)
  have "own (alloc_vol v b r) x = own v x" by (rule own_keep(2)) (rule same [OF f])
  then show "fresh_block (alloc_vol v b r) b x r"
    using assms(2,3) iff [OF r(1)] file_okD(2) [OF f] ne layout_bounds(3) [of b r] assms(1)
    by (auto simp: fresh_block_def alloc_vol_def vol_ok_def)
qed

lemma in_use_data:
  assumes "\<And>k. k \<in> bmap_blocks b \<Longrightarrow> v' k = v k" "j < sb_size b"
  shows "in_use v' b j = in_use v b j"
  using assms BBLOCK_in [of j b] by (simp add: in_use_def)

section \<open>Adding a block to a file\<close>

text \<open>Block \<open>n\<close> of the file becomes the new block \<open>r\<close>; the other blocks stay.\<close>

lemma extend_file:
  assumes f: "file_ok v b x" and r: "fresh_block v b x r" and n: "fblock v x n = 0" "n < MAXFILE"
    and x': "i_size x' = i_size x" "i_addrs x' NDIRECT = i_addrs x NDIRECT"
    and b': "\<And>m. m < MAXFILE \<Longrightarrow> fblock v' x' m = (if m = n then r else fblock v x m)"
    and v': "\<And>k. k \<in> insert r (own v x) \<Longrightarrow> k \<noteq> i_addrs x NDIRECT \<Longrightarrow> v' k = v k"
    and u: "\<And>j. j < sb_size b \<Longrightarrow> in_use v' b j = in_use v b j"
  shows "file_ok v' b x'" "o' < MAXFILE * BSIZE \<Longrightarrow> fbyte v' x' o' = fbyte v x o'" "own v' x' = insert r (own v x)"
proof -
  have r': "data_block b r" "in_use v b r" "r \<notin> own v x" "r \<noteq> 0" "\<And>i. i < BSIZE \<Longrightarrow> v r i = 0" using r by (simp_all add: fresh_block_def)
  have img: "fblock v' x' ` {..<MAXFILE} - {0} = insert r (fblock v x ` {..<MAXFILE} - {0})"
  proof -
    have "fblock v' x' ` {..<MAXFILE} = insert r (fblock v x ` ({..<MAXFILE} - {n}))" using b' n(2) by (auto simp: image_iff)
    moreover have "fblock v x ` ({..<MAXFILE} - {n}) - {0} = fblock v x ` {..<MAXFILE} - {0}" using n(1) by auto
    ultimately show ?thesis using r'(4) by auto
  qed
  then show o: "own v' x' = insert r (own v x)" by (simp only: own_def fblocks_def x'(2)) blast
  have "m = n'" if "m < MAXFILE" "n' < MAXFILE" "fblock v' x' m = fblock v' x' n'" "fblock v' x' m \<noteq> 0" for m n'
    using that b' [OF that(1)] b' [OF that(2)] file_okD(3) [OF f that(1,2)] own_simps(1) [OF that(1), of v x] own_simps(1) [OF that(2), of v x] r'(3)
    by (metis)
  moreover have "fblock v' x' m \<noteq> i_addrs x' NDIRECT" if "m < MAXFILE" "fblock v' x' m \<noteq> 0" for m
    using that b' [OF that(1)] file_okD(4) [OF f that(1)] own_simps(2) [of x v] r'(3,4) x'(2) by metis
  moreover have "data_block b k \<and> in_use v' b k" if "k \<in> own v' x'" for k
    using that r'(1,2) file_okD(1,2) [OF f] u unfolding o by (auto simp: data_block_def)
  moreover have "fblock v' x' m \<noteq> 0" if "m * BSIZE < i_size x'" for m
  proof -
    have "m < MAXFILE" using that file_okD(5) [OF f] x'(1) by simp
    then show ?thesis using b' file_okD(6) [OF f, of m] that r'(4) x'(1) by simp
  qed
  ultimately show "file_ok v' b x'" using file_okD(5) [OF f] x'(1) unfolding file_ok_def by metis
  assume o': "o' < MAXFILE * BSIZE"
  then have m: "o' div BSIZE < MAXFILE" by simp
  show "fbyte v' x' o' = fbyte v x o'"
  proof (cases "o' div BSIZE = n")
    case True
    have "v' r = v r" using v' [of r] own_simps(2) [of x v] r'(3,4) by (metis insertI1)
    then show ?thesis using True n(1) b' [OF m] r'(4) r'(5) [of "o' mod BSIZE"] by (simp add: fbyte_def Let_def)
  next
    case False
    have "v' (fblock v x (o' div BSIZE)) = v (fblock v x (o' div BSIZE))" if "fblock v x (o' div BSIZE) \<noteq> 0"
      using v' own_simps(1) [OF m that] file_okD(4) [OF f m that] by blast
    then show ?thesis using False b' [OF m] by (simp add: fbyte_def Let_def)
  qed
qed

lemma add_direct:
  assumes f: "file_ok v b x" and r: "fresh_block v b x r" and n: "i_addrs x n = 0" "n < NDIRECT"
  defines "x' \<equiv> x\<lparr>i_addrs := (i_addrs x)(n := r)\<rparr>"
  shows "file_ok v b x'" "o' < MAXFILE * BSIZE \<Longrightarrow> fbyte v x' o' = fbyte v x o'" "own v x' = insert r (own v x)" "fblock v x' n = r"
    "fblock v x m \<noteq> 0 \<Longrightarrow> fblock v x' m \<noteq> 0"
proof -
  have b': "fblock v x' m = (if m = n then r else fblock v x m)" for m using n(2) by (simp add: fblock_def x'_def)
  moreover have "fblock v x n = 0" using n by (simp add: fblock_def)
  ultimately show "file_ok v b x'" "o' < MAXFILE * BSIZE \<Longrightarrow> fbyte v x' o' = fbyte v x o'" "own v x' = insert r (own v x)" "fblock v x' n = r"
    using extend_file(1) [OF f r, of n x' v] extend_file(2) [OF f r, of n x' v o'] extend_file(3) [OF f r, of n x' v] n(2)
    by (simp_all add: x'_def)
  show "fblock v x' m \<noteq> 0" if "fblock v x m \<noteq> 0" using that b' r by (simp add: fresh_block_def)
qed

lemma ind_addr_put: "a < 2 ^ 32 \<Longrightarrow> ind_addr (ind_put j a d) k = (if k = j then a else ind_addr d k)"
  unfolding ind_addr_def ind_put_def using ld_st_same [of 4 d "4 * j" a] ld_st_other [of "4 * j" 4 "4 * k" 4 d a] by (cases k j rule: linorder_cases) auto

lemma ind_addr_zero: "(\<And>i. i < BSIZE \<Longrightarrow> d i = 0) \<Longrightarrow> j < NINDIRECT \<Longrightarrow> ind_addr d j = 0"
  using ld_le_cong [of 4 d "4 * j" "\<lambda>_. 0" "4 * j"] by (simp add: ind_addr_def)

lemma add_indirect:
  assumes f: "file_ok v b x" and r: "fresh_block v b x r" and n: "i_addrs x NDIRECT = 0"
  defines "x' \<equiv> x\<lparr>i_addrs := (i_addrs x)(NDIRECT := r)\<rparr>"
  shows "file_ok v b x'" "o' < MAXFILE * BSIZE \<Longrightarrow> fbyte v x' o' = fbyte v x o'" "own v x' = insert r (own v x)"
    "m < MAXFILE \<Longrightarrow> fblock v x m \<noteq> 0 \<Longrightarrow> fblock v x' m \<noteq> 0"
proof -
  have r': "data_block b r" "in_use v b r" "r \<notin> own v x" "r \<noteq> 0" "\<And>i. i < BSIZE \<Longrightarrow> v r i = 0" using r by (simp_all add: fresh_block_def)
  have b': "fblock v x' m = fblock v x m" if "m < MAXFILE" for m
    using that n ind_addr_zero [of "v r" "m - NDIRECT"] r'(5) by (simp add: fblock_def x'_def)
  have ownx: "own v x = fblocks v x" using n by (simp add: own_def)
  have "fblocks v x' = fblocks v x" using b' by (simp add: fblocks_def)
  then show o: "own v x' = insert r (own v x)" using r'(4) ownx by (auto simp: own_def x'_def)
  have ne: "fblock v x m \<noteq> r" if "m < MAXFILE" for m using own_simps(1) [OF that, of v x] r'(3,4) by metis
  have sz: "m < MAXFILE" if "m * BSIZE < i_size x" for m using that file_okD(5) [OF f] by simp
  have "\<forall>k\<in>own v x'. data_block b k \<and> in_use v b k" using r'(1,2) file_okD(1,2) [OF f] unfolding o by blast
  moreover have "i_addrs x' NDIRECT = r" "i_size x' = i_size x" by (simp_all add: x'_def)
  ultimately show "file_ok v b x'" using f b' ne sz unfolding file_ok_def by (metis (no_types, lifting))
  show "fbyte v x' o' = fbyte v x o'" if "o' < MAXFILE * BSIZE" using b' [of "o' div BSIZE"] that by (simp add: fbyte_def)
  show "fblock v x' m \<noteq> 0" if "m < MAXFILE" "fblock v x m \<noteq> 0" using b' that by simp
qed

lemma add_entry:
  assumes f: "file_ok v b x" and r: "fresh_block v b x r" "layout_ok b"
    and n: "i_addrs x NDIRECT \<noteq> 0" "j < NINDIRECT" "ind_addr (v (i_addrs x NDIRECT)) j = 0"
  defines "v' \<equiv> v(i_addrs x NDIRECT := ind_put j r (v (i_addrs x NDIRECT)))"
  shows "file_ok v' b x" "o' < MAXFILE * BSIZE \<Longrightarrow> fbyte v' x o' = fbyte v x o'" "own v' x = insert r (own v x)"
    "fblock v' x (NDIRECT + j) = r" "k < sb_size b \<Longrightarrow> in_use v' b k = in_use v b k"
    "fblock v x m \<noteq> 0 \<Longrightarrow> fblock v' x m \<noteq> 0"
proof -
  let ?i = "i_addrs x NDIRECT"
  have "r < 2 ^ 32" using layout_bounds(1) [OF r(2), of r] r(1) by (simp add: fresh_block_def)
  then have b': "fblock v' x m = (if m = NDIRECT + j then r else fblock v x m)" for m
    using n(1) ind_addr_put by (auto simp: fblock_def v'_def)
  have "data_block b ?i" using file_okD(1) [OF f own_simps(2) [OF n(1)]] .
  then have i: "?i \<notin> bmap_blocks b" by (rule data_not_bmap)
  show u: "in_use v' b k = in_use v b k" if "k < sb_size b" for k using i by (intro in_use_data [OF _ that]) (auto simp: v'_def)
  have z: "fblock v x (NDIRECT + j) = 0" "NDIRECT + j < MAXFILE" using n by (simp_all add: fblock_def)
  have k: "v' k = v k" if "k \<noteq> ?i" for k using that by (simp add: v'_def)
  show "fblock v' x (NDIRECT + j) = r" using b' by simp
  show "fblock v' x m \<noteq> 0" if "fblock v x m \<noteq> 0" using that b' r(1) by (simp add: fresh_block_def)
  note e = extend_file [OF f r(1) z refl refl b' k u]
  show "file_ok v' b x" "own v' x = insert r (own v x)" by (rule e; assumption)+
  show "fbyte v' x o' = fbyte v x o'" if "o' < MAXFILE * BSIZE" by (rule e(2) [OF _ _ that])
qed

section \<open>Writing into a block of a file\<close>

lemma write_file:
  fixes d :: block
  assumes f: "file_ok v b x" and n: "n < MAXFILE" "fblock v x n \<noteq> 0"
  defines "v' \<equiv> v(fblock v x n := d)"
  shows "file_ok v' b x" "own v' x = own v x" "fblock v' x m = fblock v x m"
    "o' < MAXFILE * BSIZE \<Longrightarrow> fbyte v' x o' = (if o' div BSIZE = n then d (o' mod BSIZE) else fbyte v x o')"
    "k < sb_size b \<Longrightarrow> in_use v' b k = in_use v b k"
proof -
  let ?a = "fblock v x n"
  have b': "fblock v' x m = fblock v x m" for m using file_okD(4) [OF f n] by (intro fblock_cong) (simp add: v'_def)
  then show "fblock v' x m = fblock v x m" and o: "own v' x = own v x" by (simp_all add: own_def fblocks_def)
  have "?a \<notin> bmap_blocks b" using data_not_bmap file_okD(1) [OF f own_simps(1) [OF n]] by blast
  then show u: "in_use v' b k = in_use v b k" if "k < sb_size b" for k by (intro in_use_data [OF _ that]) (auto simp: v'_def)
  have "in_use v' b k" if "k \<in> own v x" for k using u [of k] file_okD(1,2) [OF f that] by (simp add: data_block_def)
  then show "file_ok v' b x" using f unfolding file_ok_def by (simp only: b' o) simp
  show "fbyte v' x o' = (if o' div BSIZE = n then d (o' mod BSIZE) else fbyte v x o')" if o': "o' < MAXFILE * BSIZE"
  proof -
    have m: "o' div BSIZE < MAXFILE" using o' by simp
    have "fblock v x (o' div BSIZE) \<noteq> ?a" if "o' div BSIZE \<noteq> n" using file_okD(3) [OF f m n(1)] that n(2) by metis
    moreover have "v' k = (if k = ?a then d else v k)" for k by (simp add: v'_def)
    ultimately show ?thesis using n(2) unfolding fbyte_def b' Let_def by auto
  qed
qed

end
