(* ===== verification/Fs_Bmap.thy ===== *)
theory Fs_Bmap
  imports Fs_File
begin

text \<open>
  \<open>bmap\<close> of kernel/fs.c: it returns the block of a file, allocating it when needed, and never changes a
  byte of the file or a block of another file.
\<close>

section \<open>Steps that may change the inode table\<close>

definition istep :: "kst \<Rightarrow> kst \<Rightarrow> bool" where
  "istep s s' \<longleftrightarrow> same_env (s\<lparr>itable := itable s'\<rparr>) s'"

lemma itable_frame [simp]:
  fixes s :: kst
  shows "binv (s\<lparr>itable := t\<rparr>) = binv s" "holds (s\<lparr>itable := t\<rparr>) = holds s" "info (s\<lparr>itable := t\<rparr>) = info s"
    "nref (s\<lparr>itable := t\<rparr>) = nref s" "vol (s\<lparr>itable := t\<rparr>) = vol s" "txn (s\<lparr>itable := t\<rparr>) L H = txn s L H"
    "fs_txn (s\<lparr>itable := t\<rparr>) L H = fs_txn s L H"
proof -
  show 1: "binv (s\<lparr>itable := t\<rparr>) = binv s" "holds (s\<lparr>itable := t\<rparr>) = holds s" "info (s\<lparr>itable := t\<rparr>) = info s"
    "nref (s\<lparr>itable := t\<rparr>) = nref s" by (rule ext_frame; simp)+
  show 2: "vol (s\<lparr>itable := t\<rparr>) = vol s" by (simp add: vol_def fun_eq_iff 1)
  show 3: "txn (s\<lparr>itable := t\<rparr>) L H = txn s L H" by (simp add: txn_def 1 header_ok_def hkey_def)
  show "fs_txn (s\<lparr>itable := t\<rparr>) L H = fs_txn s L H" by (simp add: fs_txn_def 2 3)
qed

lemma same_env_itable:
  fixes s s' :: kst
  assumes "same_env s s'"
  shows "same_env (s\<lparr>itable := t\<rparr>) (s'\<lparr>itable := t\<rparr>)"
proof -
  have "log_state.more s' = log_state.more s" using assms by (simp add: same_env_def)
  then have "log_state.more (s'\<lparr>itable := t\<rparr>) = log_state.more (s\<lparr>itable := t\<rparr>)" by (cases s, cases s', hypsubst) simp
  then show ?thesis using assms by (simp add: same_env_def)
qed

lemma istep_trans:
  assumes "istep s s'" "istep s' s''"
  shows "istep s s''"
  using same_env_trans [OF same_env_itable [OF assms(1) [unfolded istep_def], of "itable s''"]] assms(2) by (simp add: istep_def)

lemma same_env_istep: "same_env s s' \<Longrightarrow> istep s s'"
  using same_env_kst(5) [of s s'] by (simp add: istep_def)

lemma istep_set [simp]: "istep s (s\<lparr>itable := t\<rparr>)" "istep s (set_inode ip f s)"
  by (simp_all add: istep_def set_inode_def)

lemma istep_kst:
  assumes "istep s s'"
  shows "lg_dev s' = lg_dev s" "lg_start s' = lg_start s" "outstanding s' = outstanding s" "sb s' = sb s"
    "mm s' = mm s" "procs s' = procs s" "cur s' = cur s" "lbuf s' = lbuf s"
  using same_env_kst [OF assms [unfolded istep_def]] by simp_all

section \<open>Files in a transaction\<close>

definition file_txn :: "kst \<Rightarrow> nat set \<Rightarrow> nat set \<Rightarrow> nat \<Rightarrow> bool" where
  "file_txn s L H ip \<longleftrightarrow> fs_txn s L H \<and> file_ok (vol s) (sb s) (itable s ip) \<and> i_dev (itable s ip) = lg_dev s"

definition file_grows :: "superblock \<Rightarrow> (nat \<Rightarrow> block) \<Rightarrow> inode \<Rightarrow> (nat \<Rightarrow> block) \<Rightarrow> inode \<Rightarrow> bool" where
  "file_grows b v x v' x' \<longleftrightarrow> own v x \<subseteq> own v' x' \<and> (\<forall>k\<in>own v' x'. k \<in> own v x \<or> k < sb_size b \<and> \<not> in_use v b k) \<and>
     (\<forall>k < sb_size b. in_use v b k \<longrightarrow> in_use v' b k \<and> (k \<in> bmap_blocks b \<or> k \<in> own v x \<or> v' k = v k)) \<and>
     (i_addrs x NDIRECT \<noteq> 0 \<longrightarrow> i_addrs x' NDIRECT = i_addrs x NDIRECT) \<and>
     (\<exists>a. x' = x\<lparr>i_addrs := a\<rparr>) \<and> (\<forall>n<MAXFILE. fblock v x n \<noteq> 0 \<longrightarrow> fblock v' x' n \<noteq> 0) \<and>
     (\<forall>o' < MAXFILE * BSIZE. fbyte v' x' o' = fbyte v x o')"

lemma file_grows_refl [simp]: "file_grows b v x v x"
  by (auto simp: file_grows_def intro: exI [of _ "i_addrs x"])

lemma file_grows_trans:
  assumes "file_grows b v x v' x'" "file_grows b v' x' v'' x''"
  shows "file_grows b v x v'' x''"
proof -
  have own1: "own v x \<subseteq> own v' x'" "own v' x' \<subseteq> own v'' x''"
    and new1: "\<And>k. k \<in> own v' x' \<Longrightarrow> k \<in> own v x \<or> k < sb_size b \<and> \<not> in_use v b k"
    and new2: "\<And>k. k \<in> own v'' x'' \<Longrightarrow> k \<in> own v' x' \<or> k < sb_size b \<and> \<not> in_use v' b k"
    and use1: "\<And>k. k < sb_size b \<Longrightarrow> in_use v b k \<Longrightarrow> in_use v' b k \<and> (k \<in> bmap_blocks b \<or> k \<in> own v x \<or> v' k = v k)"
    and use2: "\<And>k. k < sb_size b \<Longrightarrow> in_use v' b k \<Longrightarrow> in_use v'' b k \<and> (k \<in> bmap_blocks b \<or> k \<in> own v' x' \<or> v'' k = v' k)"
    and x: "\<exists>a. x' = x\<lparr>i_addrs := a\<rparr>" "\<exists>a. x'' = x'\<lparr>i_addrs := a\<rparr>"
    using assms unfolding file_grows_def by blast+
  have "k \<in> own v x \<or> k < sb_size b \<and> \<not> in_use v b k" if "k \<in> own v'' x''" for k using new2 [OF that] new1 use1 by blast
  moreover have "in_use v'' b k \<and> (k \<in> bmap_blocks b \<or> k \<in> own v x \<or> v'' k = v k)" if "k < sb_size b" "in_use v b k" for k
    using use1 [OF that] use2 [OF that(1)] new1 [of k] that by auto
  moreover have "\<exists>a. x'' = x\<lparr>i_addrs := a\<rparr>" using x by auto
  moreover have "own v x \<subseteq> own v'' x''" using own1 by blast
  ultimately show ?thesis using assms unfolding file_grows_def by simp
qed

text \<open>Taking a free block and adding it to the file.\<close>

lemma alloc_grows:
  assumes v: "vol_ok v b" "data_block b r" "\<not> in_use v b r" and f: "file_ok v b x"
    and o: "own v' x' = insert r (own (alloc_vol v b r) x)" and k: "\<And>k. k \<notin> own v x \<Longrightarrow> v' k = alloc_vol v b r k"
    and u: "\<And>j. j < sb_size b \<Longrightarrow> in_use v' b j = in_use (alloc_vol v b r) b j"
    and y: "\<And>o'. o' < MAXFILE * BSIZE \<Longrightarrow> fbyte v' x' o' = fbyte (alloc_vol v b r) x o'"
    and m: "\<And>n. n < MAXFILE \<Longrightarrow> fblock (alloc_vol v b r) x n \<noteq> 0 \<Longrightarrow> fblock v' x' n \<noteq> 0"
    and x: "x' = x\<lparr>i_addrs := a\<rparr>" "i_addrs x NDIRECT \<noteq> 0 \<longrightarrow> a NDIRECT = i_addrs x NDIRECT"
  shows "file_grows b v x v' x'"
proof -
  note A = alloc_vol [OF v]
  have same: "alloc_vol v b r k = v k" if "k \<in> own v x" for k by (rule A(6) [OF f that])
  have o1: "own (alloc_vol v b r) x = own v x" by (rule own_keep(2)) (rule same)
  have "fbyte v' x' o' = fbyte v x o'" if "o' < MAXFILE * BSIZE" for o' using y [OF that] own_keep(3) [OF same that] by simp
  moreover have "in_use v' b k' \<and> (k' \<in> bmap_blocks b \<or> k' \<in> own v x \<or> v' k' = v k')" if "k' < sb_size b" "in_use v b k'" for k'
    using A(2) [OF that(1)] A(3) [of k'] that(2) v(3) u [OF that(1)] k [of k'] by metis
  moreover have "r < sb_size b" using v(2) by (simp add: data_block_def)
  moreover have "fblock v' x' n \<noteq> 0" if "n < MAXFILE" "fblock v x n \<noteq> 0" for n using m [OF that(1)] own_keep(1) [OF same] that(2) by simp
  ultimately show ?thesis using o o1 v(3) x unfolding file_grows_def by auto
qed

section \<open>The pieces of bmap\<close>

definition disk_full :: "(nat \<Rightarrow> block) \<Rightarrow> superblock \<Rightarrow> bool" where
  "disk_full v b \<longleftrightarrow> (\<forall>k < sb_size b. in_use v b k)"

text \<open>The result of a step that adds the block \<open>r\<close> to the file, or none when the disk is full.\<close>

definition grow_post :: "kst \<Rightarrow> nat set \<Rightarrow> nat \<Rightarrow> nat set \<Rightarrow> nat \<Rightarrow> kst \<Rightarrow> nat set \<Rightarrow> bool" where
  "grow_post s L ip A r s' L' \<longleftrightarrow> istep s s' \<and> itable s' = (itable s)(ip := itable s' ip) \<and>
     file_grows (sb s) (vol s) (itable s ip) (vol s') (itable s' ip) \<and>
     (r = 0 \<longrightarrow> disk_full (vol s') (sb s)) \<and>
     file_txn s' L' {} ip \<and> L \<subseteq> L' \<and> L' \<subseteq> L \<union> bmap_blocks (sb s) \<union> (A - {0})"

lemma balloc_file:
  assumes f: "file_txn s L H ip" and r: "balloc_post s L H r s'"
  shows "same_env s s'" "itable s' = itable s" "lg_dev s' = lg_dev s" "sb s' = sb s"
    "r = 0 \<Longrightarrow> file_txn s' L H ip \<and> vol s' = vol s \<and> disk_full (vol s) (sb s)"
    "r \<noteq> 0 \<Longrightarrow> file_txn s' (insert r (insert (BBLOCK r (sb s)) L)) H ip \<and> vol s' = alloc_vol (vol s) (sb s) r \<and>
       data_block (sb s) r \<and> \<not> in_use (vol s) (sb s) r \<and> BBLOCK r (sb s) \<in> bmap_blocks (sb s) \<and> fresh_block (vol s') (sb s) (itable s ip) r"
proof -
  have st: "fstep s s'" using r by (simp add: balloc_post_def)
  note e = fstep_kst [OF st]
  show "same_env s s'" "itable s' = itable s" "lg_dev s' = lg_dev s" "sb s' = sb s" using st e by (simp_all add: fstep_def)
  have F: "fs_txn s L H" "file_ok (vol s) (sb s) (itable s ip)" "i_dev (itable s ip) = lg_dev s" using f by (simp_all add: file_txn_def)
  note G = fs_txnD [OF F(1)]
  { assume "r = 0"
    then have "\<not> data_block (sb s) r" using layout_bounds(3) [OF G(5), of r] by blast
    then have "txn s' L H" "vol s' = vol s" "disk_full (vol s) (sb s)" using r by (auto simp: balloc_post_def disk_full_def)
    then show "file_txn s' L H ip \<and> vol s' = vol s \<and> disk_full (vol s) (sb s)" using F e by (simp add: file_txn_def fs_txn_def) }
  assume "r \<noteq> 0"
  then have t: "data_block (sb s) r" "\<not> in_use (vol s) (sb s) r" "txn s' (insert r (insert (BBLOCK r (sb s)) L)) H"
    "vol s' = alloc_vol (vol s) (sb s) r" using r by (auto simp: balloc_post_def alloc_vol_def)
  note A = alloc_vol [OF G(4) t(1,2)]
  have "fs_txn s' (insert r (insert (BBLOCK r (sb s)) L)) H"
    using F(1) t(3,4) A(1,2) e unfolding fs_txn_def by auto
  moreover have "BBLOCK r (sb s) \<in> bmap_blocks (sb s)" using t(1) by (intro BBLOCK_in) (simp add: data_block_def)
  ultimately show "file_txn s' (insert r (insert (BBLOCK r (sb s)) L)) H ip \<and> vol s' = alloc_vol (vol s) (sb s) r \<and>
       data_block (sb s) r \<and> \<not> in_use (vol s) (sb s) r \<and> BBLOCK r (sb s) \<in> bmap_blocks (sb s) \<and> fresh_block (vol s') (sb s) (itable s ip) r"
    using A(4,5) [OF F(2)] F(3) t e by (simp add: file_txn_def)
qed

lemma wp_slot:
  assumes f: "file_txn s L {} ip" and n: "i_addrs (itable s ip) n = 0" "n \<le> NDIRECT" and c: "card L < 29" "dev = lg_dev s"
    and Q: "\<And>r s' L'. grow_post s L ip {r} r s' L' \<Longrightarrow> card L' \<le> card L + 2 \<Longrightarrow>
      r \<noteq> 0 \<longrightarrow> i_addrs (itable s' ip) n = r \<Longrightarrow> Q r s'"
  shows "wp (bindA (balloc dev) (\<lambda>addr.
      if addr = 0 then ret 0
      else doM (upd (set_inode ip (\<lambda>x. x\<lparr>i_addrs := (i_addrs x)(n := addr)\<rparr>))) (ret addr))) Q s"
  unfolding wp_simps
proof (rule wp_balloc)
  show "fs_txn s L {}" "card (L \<union> {}) < 29" "dev = lg_dev s" using f c by (simp_all add: file_txn_def)
  fix r s1
  assume "balloc_post s L {} r s1"
  note B = balloc_file [OF f this]
  let ?x = "itable s ip" and ?f = "\<lambda>x. x\<lparr>i_addrs := (i_addrs x)(n := r)\<rparr>" and ?v = "vol s1" and ?b = "sb s"
  show "wp (if r = 0 then ret 0 else doM (upd (set_inode ip ?f)) (ret r)) Q s1"
  proof (cases "r = 0")
    case True
    have "grow_post s L ip {0} 0 s1 L" using same_env_istep [OF B(1)] B(2,4) B(5) [OF True] by (auto simp: grow_post_def)
    then show ?thesis using True Q [of 0 s1 L] by (simp add: wp_simps)
  next
    case False
    let ?s2 = "set_inode ip ?f s1" and ?L = "insert r (insert (BBLOCK r ?b) L)"
    have t: "file_txn s1 ?L {} ip" "?v = alloc_vol (vol s) ?b r" "data_block ?b r" "\<not> in_use (vol s) ?b r" "BBLOCK r ?b \<in> bmap_blocks ?b"
      "fresh_block ?v ?b ?x r" using B(6) [OF False] by blast+
    have fo: "file_ok ?v ?b ?x" "vol_ok (vol s) ?b" "file_ok (vol s) ?b ?x" "finite L"
      using t(1) f B(2,4) fs_txnD(4,8) [of s L "{}"] by (simp_all add: file_txn_def)
    have i2: "itable ?s2 = (itable s)(ip := ?f ?x)" "vol ?s2 = ?v" by (simp_all add: set_inode_def B(2))
    have ok: "file_ok ?v ?b (?f ?x) \<and> (\<forall>o' < MAXFILE * BSIZE. fbyte ?v (?f ?x) o' = fbyte ?v ?x o') \<and> own ?v (?f ?x) = insert r (own ?v ?x) \<and>
        (\<forall>m<MAXFILE. fblock ?v ?x m \<noteq> 0 \<longrightarrow> fblock ?v (?f ?x) m \<noteq> 0)"
    proof (cases "n = NDIRECT")
      case True
      show ?thesis using add_indirect [OF fo(1) t(6) n(1) [unfolded True]] unfolding True by blast
    next
      case False
      then have "n < NDIRECT" using n(2) by simp
      from add_direct [OF fo(1) t(6) n(1) this] show ?thesis by blast
    qed
    have "file_grows ?b (vol s) ?x ?v (?f ?x)"
      by (rule alloc_grows [OF fo(2) t(3,4) fo(3)]) (use ok n(1) in \<open>auto simp: t(2) [symmetric]\<close>)
    moreover have "file_txn ?s2 ?L {} ip"
      using t(1) ok i2 B(2,4) by (simp add: file_txn_def set_inode_def)
    ultimately have "grow_post s L ip {r} r ?s2 ?L"
      using istep_trans [OF same_env_istep [OF B(1)] istep_set(2)] i2 t(5) False by (auto simp: grow_post_def)
    moreover have "card ?L \<le> card L + 2" using fo(4) by (simp add: card_insert_if)
    moreover have "i_addrs (itable ?s2 ip) n = r" using i2 by simp
    ultimately have "Q r ?s2" using Q by blast
    then show ?thesis using False by (simp add: wp_simps)
  qed
qed

lemma wp_release:
  fixes s :: kst
  assumes "txn s L {i}" "holds s bp (lg_dev s, i)"
    and "\<And>s'. txn s' L {} \<Longrightarrow> vol s' = vol s \<Longrightarrow> same_env s s' \<Longrightarrow> Q () s'"
  shows "wp (brelse bp) Q s"
  using assms by (intro wp_brelse [OF assms(1)]) auto

text \<open>Entering a block that has just been allocated while the indirect block is held.\<close>

lemma wp_entry_new:
  assumes f: "file_txn s L {} ip" and i: "i_addrs (itable s ip) NDIRECT = i" "i \<noteq> 0" and j: "j < NINDIRECT" "ind_addr (vol s i) j = 0" and c: "card L < 28"
    and 1: "file_txn s1 L {i} ip" "vol s1 = vol s" "same_env s s1" and r: "balloc_post s1 L {i} r s2" and h: "holds s2 bp (lg_dev s2, i)"
    and Q: "\<And>s' L'. grow_post s L ip {r, i} r s' L' \<Longrightarrow> r \<noteq> 0 \<longrightarrow> fblock (vol s') (itable s' ip) (NDIRECT + j) = r \<Longrightarrow> Q r s'"
  shows "wp (if r \<noteq> 0 then doM (set_data bp (ind_put j r)) (doM (log_write bp) (ret r)) else ret r) (\<lambda>x. wp (brelse bp) (\<lambda>_. Q x)) s2"
proof -
  let ?x = "itable s ip" and ?v = "vol s" and ?b = "sb s"
  note B = balloc_file [OF 1(1) r] and e1 = same_env_kst [OF 1(3)]
  have env: "same_env s s2" by (rule same_env_trans [OF 1(3) B(1)])
  note e2 = same_env_kst [OF env]
  have F: "fs_txn s L {}" "file_ok ?v ?b ?x" "i_dev ?x = lg_dev s" using f by (simp_all add: file_txn_def)
  note G = fs_txnD [OF F(1)]
  show ?thesis
  proof (cases "r = 0")
    case True
    have "wp (brelse bp) (\<lambda>_. Q 0) s2"
    proof (rule wp_release [OF _ h])
      show "txn s2 L {i}" using B(5) [OF True] by (simp add: file_txn_def fs_txn_def)
      fix s3 assume 3: "txn s3 L {}" "vol s3 = vol s2" "same_env s2 s3"
      note e3 = same_env_kst [OF 3(3)]
      have "vol s3 = ?v" "disk_full ?v ?b" using 3(2) B(5) [OF True] 1(2) e1 by simp_all
      then have "grow_post s L ip {0, i} 0 s3 L"
        using F 3(1) e2 e3 same_env_istep [OF same_env_trans [OF env 3(3)]] by (auto simp: grow_post_def file_txn_def fs_txn_def)
      then show "Q 0 s3" using Q True by blast
    qed
    then show ?thesis using True by (simp add: wp_simps)
  next
    case False
    let ?L = "insert r (insert (BBLOCK r ?b) L)" and ?v2 = "vol s2"
    have t: "file_txn s2 ?L {i} ip" "?v2 = alloc_vol ?v ?b r" "data_block ?b r" "\<not> in_use ?v ?b r" "BBLOCK r ?b \<in> bmap_blocks ?b"
      "fresh_block ?v2 ?b ?x r" using B(6) [OF False] 1(2) e1 by metis+
    have io: "i \<in> own ?v ?x" using own_simps(2) [of ?x ?v] i by simp
    have ib: "data_block ?b i" using file_okD(1) [OF F(2) io] .
    have T2: "file_ok ?v2 ?b ?x" "fs_txn s2 ?L {i}" using t(1) e2 by (simp_all add: file_txn_def)
    have vi: "?v2 i = ?v i" using alloc_vol(6) [OF G(4) t(3,4) F(2) io] t(2) by simp
    let ?v3 = "?v2(i := ind_put j r (?v2 i))"
    have ae: "file_ok ?v3 ?b ?x \<and> (\<forall>o' < MAXFILE * BSIZE. fbyte ?v3 ?x o' = fbyte ?v2 ?x o') \<and> own ?v3 ?x = insert r (own ?v2 ?x) \<and>
        fblock ?v3 ?x (NDIRECT + j) = r \<and> (\<forall>k < sb_size ?b. in_use ?v3 ?b k = in_use ?v2 ?b k) \<and>
        (\<forall>m<MAXFILE. fblock ?v2 ?x m \<noteq> 0 \<longrightarrow> fblock ?v3 ?x m \<noteq> 0)"
    proof -
      have "ind_addr (?v2 i) j = 0" using j(2) vi by simp
      from add_entry [OF T2(1) t(6) G(5), unfolded i(1), OF i(2) j(1) this] show ?thesis by blast
    qed
    have gr: "file_grows ?b ?v ?x ?v3 ?x"
      by (rule alloc_grows [OF G(4) t(3,4) F(2), where a = "i_addrs ?x"]) (use ae io in \<open>auto simp: t(2) [symmetric]\<close>)
    have cL: "card ?L < 30" using c G(8) by (simp add: card_insert_if)
    note lb = layout_bounds [OF G(5) disjI2 [OF disjI1 [OF ib]]]
    have "wp (doM (set_data bp (ind_put j r)) (doM (log_write bp) (ret r))) (\<lambda>x. wp (brelse bp) (\<lambda>_. Q x)) s2"
    proof (rule wp_log [OF fs_txnD(1,2) [OF T2(2)] _ cL lb(1) _ h])
      fix s3 :: kst
      assume 3: "txn s3 (insert i ?L) {i}" "vol s3 = ?v3" "same_env s2 s3" "holds s3 = holds s2"
      note e3 = same_env_kst [OF 3(3)]
      show "wp (ret r) (\<lambda>x. wp (brelse bp) (\<lambda>_. Q x)) s3"
        unfolding wp_basic
      proof (rule wp_release [OF 3(1)])
        show "holds s3 bp (lg_dev s3, i)" using h 3(4) e3 by simp
        fix s4 :: kst
        assume 4: "txn s4 (insert i ?L) {}" "vol s4 = vol s3" "same_env s3 s4"
        note e4 = same_env_kst [OF 4(3)]
        have "vol_ok ?v3 ?b" using fs_txnD(4) [OF T2(2)] ae e2 G(5) by (simp add: vol_ok_def layout_ok_def)
        then have "file_txn s4 (insert i ?L) {} ip" using F(1,3) ae 3(2) 4(1,2) e2 e3 e4 by (simp add: file_txn_def fs_txn_def)
        then have "grow_post s L ip {r, i} r s4 (insert i ?L)"
          using same_env_istep [OF same_env_trans [OF env same_env_trans [OF 3(3) 4(3)]]] gr 3(2) 4(2) e2 e3 e4 t(5) False i(2)
          by (auto simp: grow_post_def)
        moreover have "fblock (vol s4) (itable s4 ip) (NDIRECT + j) = r" using ae 3(2) 4(2) e2 e3 e4 by simp
        ultimately show "Q r s4" using Q by blast
      qed
    qed (use G(3) lb(2) e2 in auto)
    then show ?thesis using False by simp
  qed
qed

lemma wp_entry:
  assumes f: "file_txn s L {} ip" and i: "i_addrs (itable s ip) NDIRECT = i" "i \<noteq> 0" and j: "j < NINDIRECT" and c: "card L < 28" "dev = lg_dev s"
    and Q: "\<And>r s' L'. grow_post s L ip {r, i} r s' L' \<Longrightarrow> r \<noteq> 0 \<longrightarrow> fblock (vol s') (itable s' ip) (NDIRECT + j) = r \<Longrightarrow> Q r s'"
  shows "wp (bindA (bread dev i) (\<lambda>bp.
      bindA (data_of bp) (\<lambda>d.
        bindA (if ind_addr d j = 0 then
                 bindA (balloc dev) (\<lambda>addr.
                   if addr \<noteq> 0 then doM (set_data bp (ind_put j addr)) (doM (log_write bp) (ret addr)) else ret addr)
               else ret (ind_addr d j)) (\<lambda>addr. doM (brelse bp) (ret addr))))) Q s"
  unfolding wp_bindA wp_doM wp_basic c(2)
proof (rule wp_bread [of s L "{}"])
  let ?x = "itable s ip" and ?v = "vol s" and ?b = "sb s"
  have F: "fs_txn s L {}" "file_ok ?v ?b ?x" "i_dev ?x = lg_dev s" using f by (simp_all add: file_txn_def)
  note G = fs_txnD [OF F(1)]
  show "txn s L {}" "i \<notin> {}" "i \<in> L \<or> card (L \<union> {}) < 30" using G(1) c by simp_all
  have io: "i \<in> own ?v ?x" using own_simps(2) [of ?x ?v] i by simp
  have ib: "data_block ?b i" "in_use ?v ?b i" using file_okD(1,2) [OF F(2) io] by simp_all
  fix bp and s1 :: kst
  assume 1: "txn s1 L {i}" "holds s1 bp (lg_dev s, i)" "vol s1 = vol s" "same_env s s1" "bdata (bufs s1 bp) = vol s i"
  note e1 = same_env_kst [OF 1(4)]
  have f1: "file_txn s1 L {i} ip"
    using F 1(1,3) e1 ib data_not_bmap by (simp add: file_txn_def fs_txn_def data_block_def)
  show "wp (if ind_addr (bdata (bufs s1 bp)) j = 0 then
           bindA (balloc (lg_dev s)) (\<lambda>addr.
             if addr \<noteq> 0 then doM (set_data bp (ind_put j addr)) (doM (log_write bp) (ret addr)) else ret addr)
         else ret (ind_addr (bdata (bufs s1 bp)) j)) (\<lambda>x. wp (brelse bp) (\<lambda>_. Q x)) s1"
    unfolding 1(5)
  proof (cases "ind_addr (?v i) j = 0")
    case False
    let ?r = "ind_addr (?v i) j"
    have "wp (brelse bp) (\<lambda>_. Q ?r) s1"
    proof (rule wp_release [OF 1(1)])
      show "holds s1 bp (lg_dev s1, i)" using 1(2) e1 by simp
      fix s2 :: kst
      assume 2: "txn s2 L {}" "vol s2 = vol s1" "same_env s1 s2"
      note e2 = same_env_kst [OF 2(3)]
      have "file_txn s2 L {} ip" using F 2(1,2) 1(3) e1 e2 by (simp add: file_txn_def fs_txn_def)
      then have "grow_post s L ip {?r, i} ?r s2 L"
        using same_env_istep [OF same_env_trans [OF 1(4) 2(3)]] e1 e2 1(3) 2(2) False by (auto simp: grow_post_def)
      moreover have "fblock (vol s2) (itable s2 ip) (NDIRECT + j) = ?r" using e1 e2 1(3) 2(2) i by (simp add: fblock_def)
      ultimately show "Q ?r s2" using Q by blast
    qed
    then show "wp (if ?r = 0 then
           bindA (balloc (lg_dev s)) (\<lambda>addr.
             if addr \<noteq> 0 then doM (set_data bp (ind_put j addr)) (doM (log_write bp) (ret addr)) else ret addr)
         else ret ?r) (\<lambda>x. wp (brelse bp) (\<lambda>_. Q x)) s1" using False by (simp add: wp_simps)
  next
    case True
    have "wp (balloc (lg_dev s)) (\<lambda>addr. wp (if addr \<noteq> 0 then doM (set_data bp (ind_put j addr)) (doM (log_write bp) (ret addr)) else ret addr)
       (\<lambda>x. wp (brelse bp) (\<lambda>_. Q x))) s1"
    proof (rule wp_balloc)
      show "fs_txn s1 L {i}" "card (L \<union> {i}) < 29" "lg_dev s = lg_dev s1" using f1 c G(8) e1 by (simp_all add: file_txn_def card_insert_if)
      fix r s2
      assume bp: "balloc_post s1 L {i} r s2"
      note B = balloc_file [OF f1 bp]
      have h2: "holds s2 bp (lg_dev s2, i)" using bp 1(2) e1 B(3) by (simp add: balloc_post_def fstep_def)
      have it: "itable s2 = itable s" "sb s2 = sb s" "lg_dev s2 = lg_dev s" using B(2-4) e1 by simp_all
      show "wp (if r \<noteq> 0 then doM (set_data bp (ind_put j r)) (doM (log_write bp) (ret r)) else ret r) (\<lambda>x. wp (brelse bp) (\<lambda>_. Q x)) s2"
        by (rule wp_entry_new [OF f i j True c(1) f1 1(3,4) bp h2]) (rule Q)
    qed
    then show "wp (if ind_addr (?v i) j = 0 then
           bindA (balloc (lg_dev s)) (\<lambda>addr.
             if addr \<noteq> 0 then doM (set_data bp (ind_put j addr)) (doM (log_write bp) (ret addr)) else ret addr)
         else ret (ind_addr (?v i) j)) (\<lambda>x. wp (brelse bp) (\<lambda>_. Q x)) s1" using True by (simp add: wp_simps)
  qed
qed

section \<open>bmap\<close>

lemma grow_trans:
  assumes "grow_post s L ip A r s1 L1" "grow_post s1 L1 ip B r' s2 L2" "A \<union> B \<subseteq> C"
  shows "grow_post s L ip C r' s2 L2"
proof -
  have 1: "istep s s1" "itable s1 = (itable s)(ip := itable s1 ip)" "file_grows (sb s) (vol s) (itable s ip) (vol s1) (itable s1 ip)"
    "L \<subseteq> L1" "L1 \<subseteq> L \<union> bmap_blocks (sb s) \<union> (A - {0})" using assms(1) by (simp_all only: grow_post_def)
  have sb: "sb s1 = sb s" by (rule istep_kst(4) [OF 1(1)])
  have 2: "istep s1 s2" "itable s2 = (itable s1)(ip := itable s2 ip)" "file_grows (sb s) (vol s1) (itable s1 ip) (vol s2) (itable s2 ip)"
    "r' = 0 \<longrightarrow> disk_full (vol s2) (sb s)" "file_txn s2 L2 {} ip" "L1 \<subseteq> L2" "L2 \<subseteq> L1 \<union> bmap_blocks (sb s) \<union> (B - {0})"
    using assms(2) unfolding grow_post_def sb by blast+
  have "itable s2 = (itable s)(ip := itable s2 ip)" using 1(2) 2(2) by (metis fun_upd_upd)
  then show ?thesis
    using istep_trans [OF 1(1) 2(1)] file_grows_trans [OF 1(3) 2(3)] 2(4,5) 1(4,5) 2(6,7) assms(3) unfolding grow_post_def by blast
qed

lemma grow_here:
  assumes "file_txn s L {} ip" "r \<noteq> 0"
  shows "grow_post s L ip A r s L"
  using assms by (auto simp: grow_post_def istep_def)

lemma grow_mono: "grow_post s L ip A r s' L' \<Longrightarrow> A \<subseteq> B \<Longrightarrow> grow_post s L ip B r s' L'"
  unfolding grow_post_def by blast

lemma wp_bmap:
  assumes f: "file_txn s L {} ip" and n: "n < MAXFILE" and c: "card L < 26"
    and Q: "\<And>r s' L'. grow_post s L ip {r, i_addrs (itable s' ip) NDIRECT} r s' L' \<Longrightarrow>
      r \<noteq> 0 \<longrightarrow> fblock (vol s') (itable s' ip) n = r \<Longrightarrow> Q r s'"
  shows "wp (bmap ip n) Q s"
proof -
  let ?x = "itable s ip"
  have dev: "i_dev ?x = lg_dev s" using f by (simp add: file_txn_def)
  show ?thesis
  proof (cases "n < NDIRECT")
    case True
    show ?thesis
    proof (cases "i_addrs ?x n = 0")
      case z: True
      have "wp (bindA (balloc (lg_dev s)) (\<lambda>addr.
          if addr = 0 then ret 0
          else doM (upd (set_inode ip (\<lambda>x. x\<lparr>i_addrs := (i_addrs x)(n := addr)\<rparr>))) (ret addr))) Q s"
      proof (rule wp_slot [OF f z])
        fix r s' L' assume *: "grow_post s L ip {r} r s' L'" "r \<noteq> 0 \<longrightarrow> i_addrs (itable s' ip) n = r"
        show "Q r s'" by (rule Q [OF grow_mono [OF *(1)]]) (use *(2) True in \<open>auto simp: fblock_def\<close>)
      qed (use True c in auto)
      then show ?thesis using True z dev by (simp add: bmap_def wp_basic wp_bindA [of "get f" for f])
    next
      case False
      have "Q (i_addrs ?x n) s" by (rule Q [OF grow_here [OF f False]]) (use True in \<open>simp add: fblock_def\<close>)
      then show ?thesis using True False dev by (simp add: bmap_def wp_simps)
    qed
  next
    case False
    then have j: "n - NDIRECT < NINDIRECT" "NDIRECT + (n - NDIRECT) = n" using n by simp_all
    let ?rest = "\<lambda>ind. if ind = 0 then ret 0 else
      bindA (bread (lg_dev s) ind) (\<lambda>bp.
      bindA (data_of bp) (\<lambda>d.
        bindA (if ind_addr d (n - NDIRECT) = 0 then
                 bindA (balloc (lg_dev s)) (\<lambda>addr.
                   if addr \<noteq> 0 then doM (set_data bp (ind_put (n - NDIRECT) addr)) (doM (log_write bp) (ret addr)) else ret addr)
               else ret (ind_addr d (n - NDIRECT))) (\<lambda>addr. doM (brelse bp) (ret addr))))"
    have rest: "wp (?rest i) Q s1" if g: "grow_post s L ip {i} i s1 L1" "i_addrs (itable s1 ip) NDIRECT = i" "card L1 < 28" "i \<noteq> 0" for i s1 L1
    proof -
      have f1: "file_txn s1 L1 {} ip" "lg_dev s = lg_dev s1" using g(1) istep_kst(1) unfolding grow_post_def by auto
      show ?thesis
        unfolding if_not_P [OF g(4)]
      proof (rule wp_entry [OF f1(1) g(2,4) j(1) g(3) f1(2)])
        fix r s' L' assume *: "grow_post s1 L1 ip {r, i} r s' L'" "r \<noteq> 0 \<longrightarrow> fblock (vol s') (itable s' ip) (NDIRECT + (n - NDIRECT)) = r"
        have "i_addrs (itable s' ip) NDIRECT = i" using *(1) g(2,4) by (auto simp: grow_post_def file_grows_def)
        then show "Q r s'" using Q [OF grow_trans [OF g(1) *(1)]] *(2) unfolding j(2) by simp
      qed
    qed
    have "wp (bindA (if i_addrs ?x NDIRECT = 0 then
          bindA (balloc (lg_dev s)) (\<lambda>addr.
            if addr = 0 then ret 0 else doM (upd (set_inode ip (\<lambda>x. x\<lparr>i_addrs := (i_addrs x)(NDIRECT := addr)\<rparr>))) (ret addr))
        else ret (i_addrs ?x NDIRECT)) ?rest) Q s"
    proof (cases "i_addrs ?x NDIRECT = 0")
      case True
      show ?thesis
        unfolding if_P [OF True] wp_bindA [where f = ?rest]
      proof (rule wp_slot [OF f True])
        fix r s1 L1 assume *: "grow_post s L ip {r} r s1 L1" "card L1 \<le> card L + 2" "r \<noteq> 0 \<longrightarrow> i_addrs (itable s1 ip) NDIRECT = r"
        show "wp (?rest r) Q s1"
        proof (cases "r = 0")
          case z: True
          have "Q 0 s1" by (rule Q [OF grow_mono [OF *(1) [unfolded z]]]) auto
          then show ?thesis using z by (simp add: wp_simps)
        next
          case False
          then show ?thesis using rest [OF *(1)] *(2,3) c by simp
        qed
      qed (use c in auto)
    next
      case ind: False
      then show ?thesis unfolding if_not_P [OF ind] wp_bindA [where f = ?rest] wp_basic using rest [OF grow_here [OF f ind] refl] c by simp
    qed
    then show ?thesis
      unfolding bmap_def wp_bindA [of "get f" for f] wp_basic prod.case if_not_P [OF False] if_P [OF j(1)] dev .
  qed
qed

end
