(* ===== verification/Fs_Read.thy ===== *)
theory Fs_Read
  imports Fs_Bmap
begin

text \<open>
  \<open>readi\<close> of kernel/fs.c hands the bytes of the file, block by block, to \<open>either_copyout\<close>.
\<close>

section \<open>Copies to the reader\<close>

primrec copy_chunks :: "kaddr \<Rightarrow> u8 list list \<Rightarrow> int kact" where
  "copy_chunks dst [] = ret 0"
| "copy_chunks dst (c # cs) = bindA (either_copyout dst c) (\<lambda>r. if r = -1 then ret (-1) else copy_chunks (kadd dst (length c)) cs)"

text \<open>Bytes from offset \<open>off\<close> on, cut at the boundaries of the blocks.\<close>

function chunks :: "nat \<Rightarrow> u8 list \<Rightarrow> u8 list list" where
  "chunks off bs =
     (if bs = [] then []
      else take (BSIZE - off mod BSIZE) bs # chunks (off + min (length bs) (BSIZE - off mod BSIZE)) (drop (BSIZE - off mod BSIZE) bs))"
  by pat_completeness auto
termination
proof (relation "measure (\<lambda>(off, bs). length bs)", goal_cases)
  case (2 off bs)
  have "off mod 1024 < 1024" by simp
  then have "length bs - (1024 - off mod 1024) < length bs" using 2 by (intro diff_less) auto
  then show ?case by simp
qed simp

declare chunks.simps [simp del]

lemma concat_chunks: "concat (chunks off bs) = bs"
  by (induction off bs rule: chunks.induct) (subst chunks.simps, simp)

lemma copyout_env:
  assumes "either_copyout dst bs s = Some (Ok (r, s1))"
  shows "s1 = s\<lparr>mm := mm s1, lbuf := lbuf s1\<rparr>"
    "mm t = mm s \<Longrightarrow> procs t = procs s \<Longrightarrow> cur t = cur s \<Longrightarrow> lbuf t = lbuf s \<Longrightarrow>
      either_copyout dst bs t = Some (Ok (r, t\<lparr>mm := mm s1, lbuf := lbuf s1\<rparr>))"
    "procs s1 = procs s" "cur s1 = cur s"
proof -
  show e: "s1 = s\<lparr>mm := mm s1, lbuf := lbuf s1\<rparr>"
    using assms by (cases dst) (auto simp: ucopyout_def on_mem_def set_kmem_def res_simps)
  show "procs s1 = procs s" "cur s1 = cur s" by (subst e, simp)+
  assume "mm t = mm s" "procs t = procs s" "cur t = cur s" "lbuf t = lbuf s"
  then show "either_copyout dst bs t = Some (Ok (r, t\<lparr>mm := mm s1, lbuf := lbuf s1\<rparr>))"
    using assms by (cases dst) (auto simp: ucopyout_def on_mem_def set_kmem_def kmem_of_def res_simps)
qed

section \<open>Steps that may change the memory of the reader\<close>

definition estep :: "kst \<Rightarrow> kst \<Rightarrow> bool" where
  "estep s s' \<longleftrightarrow> same_env (s\<lparr>mm := mm s', lbuf := lbuf s'\<rparr>) s'"

lemma env_frame [simp]:
  fixes s :: kst
  shows "vol (s\<lparr>mm := m, lbuf := l\<rparr>) = vol s" "txn (s\<lparr>mm := m, lbuf := l\<rparr>) L H = txn s L H" "holds (s\<lparr>mm := m, lbuf := l\<rparr>) = holds s"
proof -
  have 1: "binv (s\<lparr>mm := m, lbuf := l\<rparr>) = binv s" "holds (s\<lparr>mm := m, lbuf := l\<rparr>) = holds s" "info (s\<lparr>mm := m, lbuf := l\<rparr>) = info s"
    "nref (s\<lparr>mm := m, lbuf := l\<rparr>) = nref s" by (rule ext_frame; simp)+
  then show "holds (s\<lparr>mm := m, lbuf := l\<rparr>) = holds s" by simp
  show "vol (s\<lparr>mm := m, lbuf := l\<rparr>) = vol s" by (simp add: vol_def fun_eq_iff 1)
  show "txn (s\<lparr>mm := m, lbuf := l\<rparr>) L H = txn s L H" by (simp add: txn_def 1 header_ok_def hkey_def)
qed

lemma same_env_env:
  fixes s s' :: kst
  assumes "same_env s s'"
  shows "same_env (s\<lparr>mm := m, lbuf := l\<rparr>) (s'\<lparr>mm := m, lbuf := l\<rparr>)"
proof -
  have "log_state.more s' = log_state.more s" using assms by (simp add: same_env_def)
  then have "log_state.more (s'\<lparr>mm := m, lbuf := l\<rparr>) = log_state.more (s\<lparr>mm := m, lbuf := l\<rparr>)" by (cases s, cases s', hypsubst) simp
  then show ?thesis using assms by (simp add: same_env_def)
qed

lemma estep_trans:
  assumes "estep s s'" "estep s' s''"
  shows "estep s s''"
  using same_env_trans [OF same_env_env [OF assms(1) [unfolded estep_def], of "lbuf s''" "mm s''"]] assms(2) by (simp add: estep_def)

lemma same_env_estep: "same_env s s' \<Longrightarrow> estep s s'"
  using same_env_kst(6,9) [of s s'] by (simp add: estep_def)

lemma estep_set [simp]: "estep s (s\<lparr>mm := m, lbuf := l\<rparr>)"
  by (simp add: estep_def)

lemma estep_kst:
  assumes "estep s s'"
  shows "lg_dev s' = lg_dev s" "lg_start s' = lg_start s" "outstanding s' = outstanding s" "sb s' = sb s" "itable s' = itable s"
    "procs s' = procs s" "cur s' = cur s"
  using same_env_kst [OF assms [unfolded estep_def]] by simp_all

section \<open>Reading\<close>

lemma wp_bmap_mapped:
  fixes s :: kst
  assumes t: "txn s L {}" "card L < 30" and x: "i_dev (itable s ip) = lg_dev s" and n: "n < MAXFILE" "fblock (vol s) (itable s ip) n \<noteq> 0"
    and Q: "\<And>s'. txn s' L {} \<Longrightarrow> vol s' = vol s \<Longrightarrow> same_env s s' \<Longrightarrow> Q (fblock (vol s) (itable s ip) n) s'"
  shows "wp (bmap ip n) Q s"
proof (cases "n < NDIRECT")
  case True
  then show ?thesis using n(2) Q [OF t(1)] by (simp add: bmap_def wp_simps fblock_def)
next
  case False
  let ?i = "i_addrs (itable s ip) NDIRECT" and ?j = "n - NDIRECT"
  have i: "?i \<noteq> 0" "ind_addr (vol s ?i) ?j \<noteq> 0" "fblock (vol s) (itable s ip) n = ind_addr (vol s ?i) ?j" "?j < NINDIRECT"
    using n False by (auto simp: fblock_def split: if_splits)
  have "wp (bread (lg_dev s) ?i) (\<lambda>bp. wp (data_of bp) (\<lambda>d. wp (if ind_addr d ?j = 0 then
                 bindA (balloc (lg_dev s)) (\<lambda>addr.
                   if addr \<noteq> 0 then doM (set_data bp (ind_put ?j addr)) (doM (log_write bp) (ret addr)) else ret addr)
               else ret (ind_addr d ?j)) (\<lambda>addr. wp (doM (brelse bp) (ret addr)) Q))) s"
  proof (rule wp_bread [OF t(1)])
    fix bp and s1 :: kst
    assume 1: "txn s1 L {?i}" "holds s1 bp (lg_dev s, ?i)" "vol s1 = vol s" "same_env s s1" "bdata (bufs s1 bp) = vol s ?i"
    have "wp (brelse bp) (\<lambda>_. Q (ind_addr (vol s ?i) ?j)) s1"
      by (rule wp_release [OF 1(1)]) (use 1 Q i(3) same_env_trans [OF 1(4)] same_env_kst(1) [OF 1(4)] in auto)
    then show "wp (data_of bp) (\<lambda>d. wp (if ind_addr d ?j = 0 then
                 bindA (balloc (lg_dev s)) (\<lambda>addr.
                   if addr \<noteq> 0 then doM (set_data bp (ind_put ?j addr)) (doM (log_write bp) (ret addr)) else ret addr)
               else ret (ind_addr d ?j)) (\<lambda>addr. wp (doM (brelse bp) (ret addr)) Q)) s1" using i(2) 1(5) by (simp add: wp_simps)
  qed (use t(2) in auto)
  then show ?thesis
    unfolding bmap_def wp_bindA wp_basic prod.case if_not_P [OF False] if_P [OF i(4)] x if_not_P [OF i(1)] .
qed

text \<open>One block: it is read, copied out and released.\<close>

lemma wp_copy_block:
  fixes s :: kst
  assumes t: "txn s L {}" "card L < 30" and x: "i_dev (itable s ip) = lg_dev s" and n: "n < MAXFILE" "fblock (vol s) (itable s ip) n \<noteq> 0"
    and c: "either_copyout dst (g (vol s (fblock (vol s) (itable s ip) n))) s = Some (Ok (r, s1))"
    and Q: "\<And>s'. txn s' L {} \<Longrightarrow> vol s' = vol s \<Longrightarrow> estep s s' \<Longrightarrow> mm s' = mm s1 \<Longrightarrow> lbuf s' = lbuf s1 \<Longrightarrow>
      wp (if r = -1 then ret (-1) else k) Q s'"
  shows "wp (bindA (bmap ip n) (\<lambda>addr. if addr = 0 then z else bindA (iget_of ip i_dev) (\<lambda>dev. bindA (bread dev addr) (\<lambda>bp. bindA (data_of bp) (\<lambda>d.
    bindA (either_copyout dst (g d)) (\<lambda>r. if r = -1 then doM (brelse bp) (ret (-1)) else doM (brelse bp) k)))))) Q s"
  unfolding wp_bindA
proof (rule wp_bmap_mapped [OF t x n])
  let ?a = "fblock (vol s) (itable s ip) n"
  fix s2 :: kst assume 2: "txn s2 L {}" "vol s2 = vol s" "same_env s s2"
  note e2 = same_env_kst [OF 2(3)]
  show "wp (if ?a = 0 then z else bindA (iget_of ip i_dev) (\<lambda>dev. bindA (bread dev ?a) (\<lambda>bp. bindA (data_of bp) (\<lambda>d.
    bindA (either_copyout dst (g d)) (\<lambda>r. if r = -1 then doM (brelse bp) (ret (-1)) else doM (brelse bp) k))))) Q s2"
    unfolding if_not_P [OF n(2)] wp_bindA wp_basic e2(5) x e2(1) [symmetric]
  proof (rule wp_bread [OF 2(1)])
    fix bp and s3 :: kst
    assume 3: "txn s3 L {?a}" "holds s3 bp (lg_dev s2, ?a)" "vol s3 = vol s2" "same_env s2 s3" "bdata (bufs s3 bp) = vol s2 ?a"
    note e3 = same_env_kst [OF 3(4)]
    let ?s4 = "s3\<lparr>mm := mm s1, lbuf := lbuf s1\<rparr>"
    have o: "either_copyout dst (g (bdata (bufs s3 bp))) s3 = Some (Ok (r, ?s4))"
      using copyout_env(2) [OF c, of s3] e2 e3 3(5) 2(2) by simp
    have "wp (brelse bp) (\<lambda>_. wp (if r = -1 then ret (-1) else k) Q) ?s4"
    proof (rule wp_release [of ?s4 L ?a])
      show "txn ?s4 L {?a}" "holds ?s4 bp (lg_dev ?s4, ?a)" using 3(1,2) e3 by simp_all
      fix s5 :: kst assume 5: "txn s5 L {}" "vol s5 = vol ?s4" "same_env ?s4 s5"
      note e5 = same_env_kst [OF 5(3)]
      have "estep s s5"
        by (rule estep_trans [OF same_env_estep [OF same_env_trans [OF 2(3) 3(4)]] estep_trans [OF estep_set same_env_estep [OF 5(3)]]])
      then show "wp (if r = -1 then ret (-1) else k) Q s5" using Q 5(1,2) 3(3) 2(2) e5 by simp
    qed
    then have "wp (if r = -1 then doM (brelse bp) (ret (-1)) else doM (brelse bp) k) Q ?s4" by (simp add: wp_simps split: if_splits)
    then show "wp (either_copyout dst (g (bdata (bufs s3 bp)))) (\<lambda>r. wp (if r = -1 then doM (brelse bp) (ret (-1)) else doM (brelse bp) k) Q) s3"
      using o by (simp add: wp_def [of "either_copyout dst bs" for dst bs])
  qed (use t in auto)
qed

definition file_bytes :: "(nat \<Rightarrow> block) \<Rightarrow> inode \<Rightarrow> nat \<Rightarrow> nat \<Rightarrow> u8 list" where
  "file_bytes v x off n = map (fbyte v x) [off..<off + n]"

lemma in_block:
  assumes "a mod 1024 + i < (1024 :: nat)"
  shows "(a + i) div 1024 = a div 1024" "(a + i) mod 1024 = a mod 1024 + i"
proof -
  show "(a + i) div 1024 = a div 1024" using div_mult_self3 [of 1024 "a div 1024" "a mod 1024 + i"] assms by (simp add: add.assoc [symmetric])
  show "(a + i) mod 1024 = a mod 1024 + i" using mod_mult_self3 [of "a div 1024" 1024 "a mod 1024 + i"] assms by (simp add: add.assoc [symmetric])
qed

lemma file_bytes_block:
  assumes "n \<le> BSIZE - off mod BSIZE" "fblock v x (off div BSIZE) \<noteq> 0"
  shows "bytes_at (v (fblock v x (off div BSIZE))) (off mod BSIZE) n = file_bytes v x off n"
proof (rule nth_equalityI)
  fix i assume "i < length (bytes_at (v (fblock v x (off div BSIZE))) (off mod BSIZE) n)"
  then have i: "i < n" by simp
  then have "off mod 1024 + i < 1024" using assms(1) by simp
  note in_block [OF this]
  then show "bytes_at (v (fblock v x (off div BSIZE))) (off mod BSIZE) n ! i = file_bytes v x off n ! i"
    using i assms(2) by (simp add: file_bytes_def fbyte_def)
qed (simp add: file_bytes_def)

lemma file_bytes_split:
  "take k (file_bytes v x off n) = file_bytes v x off (min n k)" "drop k (file_bytes v x off n) = file_bytes v x (off + min n k) (n - min n k)"
  by (auto simp: file_bytes_def take_map drop_map min_def)

lemma readi_loop_reads:
  assumes "txn s L {}" "card L < 30" "i_dev (itable s ip) = lg_dev s" "file_ok (vol s) (sb s) (itable s ip)" "tot \<le> n" "off + (n - tot) \<le> i_size (itable s ip)"
    and "copy_chunks dst (chunks off (file_bytes (vol s) (itable s ip) off (n - tot))) s0 = Some (Ok (c, s1))"
    and "mm s = mm s0" "procs s = procs s0" "cur s = cur s0" "lbuf s = lbuf s0"
  shows "wp (readi_loop ip dst off n tot) (\<lambda>r s'. r = (if c = -1 then -1 else int32 n) \<and> txn s' L {} \<and> vol s' = vol s \<and> estep s s' \<and>
    mm s' = mm s1 \<and> lbuf s' = lbuf s1) s"
  using assms
proof (induction "n - tot" arbitrary: dst off tot s s0 rule: less_induct)
  case less
  let ?x = "itable s ip" and ?m = "min (n - tot) (BSIZE - off mod BSIZE)" and ?v = "vol s"
  show ?case
  proof (cases "tot < n")
    case False
    then have "tot = n" using less.prems(5) by simp
    then show ?thesis using less.prems by (subst readi_loop.simps) (simp add: wp_simps file_bytes_def chunks.simps same_env_estep)
  next
    case True
    let ?a = "fblock ?v ?x (off div BSIZE)" and ?rest = "readi_loop ip (kadd dst ?m) (add32 off ?m) n (tot + ?m)"
    have m: "0 < ?m" "?m \<le> n - tot" "?m \<le> BSIZE - off mod BSIZE" using True by simp_all
    have sz: "i_size ?x \<le> MAXFILE * BSIZE" by (rule file_okD(5) [OF less.prems(4)])
    have a32: "add32 off ?m = off + ?m" using m less.prems(6) sz by (simp add: add32_def)
    have n: "off div BSIZE < MAXFILE" "?a \<noteq> 0"
      using True less.prems(6) sz file_okD(6) [OF less.prems(4), of "off div BSIZE"] by auto
    have len: "length (file_bytes ?v ?x off ?m) = ?m" "file_bytes ?v ?x off (n - tot) \<noteq> []" using True by (simp_all add: file_bytes_def)
    have ck: "chunks off (file_bytes ?v ?x off (n - tot)) = file_bytes ?v ?x off ?m # chunks (off + ?m) (file_bytes ?v ?x (off + ?m) (n - (tot + ?m)))"
    proof -
      have "min (length (file_bytes ?v ?x off (n - tot))) (BSIZE - off mod BSIZE) = ?m" by (simp add: file_bytes_def)
      then show ?thesis using len(2) by (subst chunks.simps) (simp add: file_bytes_split)
    qed
    obtain r s01 where o: "either_copyout dst (file_bytes ?v ?x off ?m) s0 = Some (Ok (r, s01))"
        "(if r = -1 then ret (-1) else copy_chunks (kadd dst ?m) (chunks (off + ?m) (file_bytes ?v ?x (off + ?m) (n - (tot + ?m))))) s01 = Some (Ok (c, s1))"
      using less.prems(7) unfolding ck copy_chunks.simps len(1) bindA_eq_Ok by blast
    have c: "either_copyout dst (bytes_at (?v ?a) (off mod BSIZE) ?m) s = Some (Ok (r, s\<lparr>mm := mm s01, lbuf := lbuf s01\<rparr>))"
      unfolding file_bytes_block [OF m(3) n(2)] by (rule copyout_env(2) [OF o(1)]) (use less.prems(8-11) in simp_all)
    have "wp (bindA (bmap ip (off div BSIZE)) (\<lambda>addr. if addr = 0 then ret (int32 tot) else bindA (iget_of ip i_dev) (\<lambda>dev. bindA (bread dev addr) (\<lambda>bp.
        bindA (data_of bp) (\<lambda>d. bindA (either_copyout dst (bytes_at d (off mod BSIZE) ?m)) (\<lambda>r.
          if r = -1 then doM (brelse bp) (ret (-1)) else doM (brelse bp) ?rest))))))
      (\<lambda>r s'. r = (if c = -1 then -1 else int32 n) \<and> txn s' L {} \<and> vol s' = ?v \<and> estep s s' \<and> mm s' = mm s1 \<and> lbuf s' = lbuf s1) s"
    proof (rule wp_copy_block [OF less.prems(1-3) n, where g = "\<lambda>d. bytes_at d (off mod BSIZE) ?m", OF c])
      fix s' :: kst
      assume 1: "txn s' L {}" "vol s' = ?v" "estep s s'" "mm s' = mm (s\<lparr>mm := mm s01, lbuf := lbuf s01\<rparr>)" "lbuf s' = lbuf (s\<lparr>mm := mm s01, lbuf := lbuf s01\<rparr>)"
      note e = estep_kst [OF 1(3)]
      show "wp (if r = -1 then ret (-1) else ?rest)
        (\<lambda>r s'. r = (if c = -1 then -1 else int32 n) \<and> txn s' L {} \<and> vol s' = ?v \<and> estep s s' \<and> mm s' = mm s1 \<and> lbuf s' = lbuf s1) s'"
      proof (cases "r = -1")
        case True
        then show ?thesis using o(2) 1 by (simp add: wp_simps)
      next
        case False
        have k: "procs s01 = procs s" "cur s01 = cur s" using copyout_env(3,4) [OF o(1)] less.prems(9,10) by simp_all
        have "wp ?rest (\<lambda>r s''. r = (if c = -1 then -1 else int32 n) \<and> txn s'' L {} \<and> vol s'' = vol s' \<and> estep s' s'' \<and> mm s'' = mm s1 \<and> lbuf s'' = lbuf s1) s'"
          unfolding a32
          by (rule less.hyps [where ?s0.0 = s01]) (use less.prems m 1 e k o(2) False True in auto)
        then show ?thesis using False 1 estep_trans [OF 1(3)] by (auto elim!: wp_mono)
      qed
    qed
    then show ?thesis by (subst readi_loop.simps) (simp only: if_P [OF True])
  qed
qed

end
