(* ===== verification/Fs_Write.thy ===== *)
theory Fs_Write
  imports Fs_Read
begin

text \<open>
  \<open>writei\<close> of kernel/fs.c overwrites the bytes of the file and extends it, allocates the blocks it
  needs, logs all it changes and leaves the blocks of other files alone.
\<close>

section \<open>The source of a write\<close>

text \<open>The kernel can read the bytes \<open>bs\<close> at \<open>src\<close>, in pieces of any size and without a page fault.\<close>

definition supplies :: "kaddr \<Rightarrow> u8 list \<Rightarrow> kst \<Rightarrow> bool" where
  "supplies src bs s \<longleftrightarrow> (\<forall>t j m. mm t = mm s \<longrightarrow> procs t = procs s \<longrightarrow> cur t = cur s \<longrightarrow> lbuf t = lbuf s \<longrightarrow> j + m \<le> length bs \<longrightarrow>
     either_copyin (if j = 0 then src else kadd src j) m t = Some (Ok ((take m (drop j bs), True), t)))"

lemma supplies_Loc: "supplies (Loc a) (bytes_at (lbuf s) a n) s"
  by (auto simp: supplies_def bytes_at_def take_map drop_map min_def)

lemma supplies_cong:
  "mm t = mm s \<Longrightarrow> procs t = procs s \<Longrightarrow> cur t = cur s \<Longrightarrow> lbuf t = lbuf s \<Longrightarrow> supplies src bs t = supplies src bs s"
  by (simp add: supplies_def)

lemma kadd_kadd: "kadd (kadd src a) b = kadd src (a + b)"
  by (cases src) (simp_all add: add64_def mod_simps add.assoc)

lemma supplies_drop:
  assumes "supplies src bs s" "0 < k" "k \<le> length bs"
  shows "supplies (kadd src k) (drop k bs) s"
proof -
  have "either_copyin (if j = 0 then kadd src k else kadd (kadd src k) j) m t = Some (Ok ((take m (drop j (drop k bs)), True), t))"
    if "mm t = mm s" "procs t = procs s" "cur t = cur s" "lbuf t = lbuf s" "j + m \<le> length (drop k bs)" for t j m
    using assms(1) [unfolded supplies_def, rule_format, OF that(1-4), of "k + j" m] that(5) assms(2,3)
    by (cases "j = 0") (simp_all add: kadd_kadd add.commute)
  then show ?thesis unfolding supplies_def by blast
qed

lemma supplies_take:
  assumes "supplies src bs s" "m \<le> length bs" "mm t = mm s" "procs t = procs s" "cur t = cur s" "lbuf t = lbuf s"
  shows "either_copyin src m t = Some (Ok ((take m bs, True), t))"
  using assms(1) [unfolded supplies_def, rule_format, OF assms(3-6), of 0 m] assms(2) by simp

section \<open>Effect on the volume\<close>

definition file_writes :: "superblock \<Rightarrow> (nat \<Rightarrow> block) \<Rightarrow> inode \<Rightarrow> nat \<Rightarrow> u8 list \<Rightarrow> (nat \<Rightarrow> block) \<Rightarrow> inode \<Rightarrow> bool" where
  "file_writes b v x off bs v' x' \<longleftrightarrow> own v x \<subseteq> own v' x' \<and> (\<forall>k\<in>own v' x'. k \<in> own v x \<or> k < sb_size b \<and> \<not> in_use v b k) \<and>
     (\<forall>k < sb_size b. in_use v b k \<longrightarrow> in_use v' b k \<and> (k \<in> bmap_blocks b \<or> k \<in> own v x \<or> v' k = v k)) \<and>
     (\<exists>a. x' = x\<lparr>i_addrs := a\<rparr>) \<and> (\<forall>n<MAXFILE. fblock v x n \<noteq> 0 \<longrightarrow> fblock v' x' n \<noteq> 0) \<and>
     (\<forall>o' < MAXFILE * BSIZE. off \<le> o' \<and> o' < off + length bs \<longrightarrow> fblock v' x' (o' div BSIZE) \<noteq> 0) \<and>
     (\<forall>o' < MAXFILE * BSIZE. fbyte v' x' o' = (if off \<le> o' \<and> o' < off + length bs then bs ! (o' - off) else fbyte v x o'))"

lemma grows_writes: "file_grows b v x v' x' \<Longrightarrow> file_writes b v x off [] v' x'"
  unfolding file_grows_def file_writes_def by auto

lemma file_writesD:
  assumes "file_writes b v x off bs v' x'"
  shows "own v x \<subseteq> own v' x'" "k \<in> own v' x' \<Longrightarrow> k \<in> own v x \<or> k < sb_size b \<and> \<not> in_use v b k"
    "k < sb_size b \<Longrightarrow> in_use v b k \<Longrightarrow> in_use v' b k \<and> (k \<in> bmap_blocks b \<or> k \<in> own v x \<or> v' k = v k)"
    "\<exists>a. x' = x\<lparr>i_addrs := a\<rparr>" "n < MAXFILE \<Longrightarrow> fblock v x n \<noteq> 0 \<Longrightarrow> fblock v' x' n \<noteq> 0"
    "o' < MAXFILE * BSIZE \<Longrightarrow> off \<le> o' \<and> o' < off + length bs \<Longrightarrow> fblock v' x' (o' div BSIZE) \<noteq> 0"
    "o' < MAXFILE * BSIZE \<Longrightarrow> fbyte v' x' o' = (if off \<le> o' \<and> o' < off + length bs then bs ! (o' - off) else fbyte v x o')"
proof -
  note P = assms [unfolded file_writes_def]
  show "own v x \<subseteq> own v' x'" using P by (rule conjunct1)
  note P = P [THEN conjunct2]
  show "k \<in> own v' x' \<Longrightarrow> k \<in> own v x \<or> k < sb_size b \<and> \<not> in_use v b k" by (rule P [THEN conjunct1, rule_format])
  note P = P [THEN conjunct2]
  show "k < sb_size b \<Longrightarrow> in_use v b k \<Longrightarrow> in_use v' b k \<and> (k \<in> bmap_blocks b \<or> k \<in> own v x \<or> v' k = v k)"
    by (rule P [THEN conjunct1, rule_format])
  note P = P [THEN conjunct2]
  show "\<exists>a. x' = x\<lparr>i_addrs := a\<rparr>" using P by (rule conjunct1)
  note P = P [THEN conjunct2]
  show "n < MAXFILE \<Longrightarrow> fblock v x n \<noteq> 0 \<Longrightarrow> fblock v' x' n \<noteq> 0" by (rule P [THEN conjunct1, rule_format])
  note P = P [THEN conjunct2]
  show "o' < MAXFILE * BSIZE \<Longrightarrow> off \<le> o' \<and> o' < off + length bs \<Longrightarrow> fblock v' x' (o' div BSIZE) \<noteq> 0" by (rule P [THEN conjunct1, rule_format])
  show "o' < MAXFILE * BSIZE \<Longrightarrow> fbyte v' x' o' = (if off \<le> o' \<and> o' < off + length bs then bs ! (o' - off) else fbyte v x o')"
    by (rule P [THEN conjunct2, rule_format])
qed

lemma file_writes_trans:
  assumes "file_writes b v x off bs v' x'" "file_writes b v' x' (off + length bs) cs v'' x''"
  shows "file_writes b v x off (bs @ cs) v'' x''"
proof -
  note W1 = file_writesD [OF assms(1)] and W2 = file_writesD [OF assms(2)]
  have "k \<in> own v x \<or> k < sb_size b \<and> \<not> in_use v b k" if "k \<in> own v'' x''" for k using W2(2) [OF that] W1(2,3) by blast
  moreover have "in_use v'' b k \<and> (k \<in> bmap_blocks b \<or> k \<in> own v x \<or> v'' k = v k)" if "k < sb_size b" "in_use v b k" for k
    using W1(3) [OF that] W2(3) [OF that(1)] W1(2) [of k] that by auto
  moreover have "\<exists>a. x'' = x\<lparr>i_addrs := a\<rparr>" using W1(4) W2(4) by auto
  moreover have "own v x \<subseteq> own v'' x''" using W1(1) W2(1) by blast
  moreover have "fbyte v'' x'' o' = (if off \<le> o' \<and> o' < off + length (bs @ cs) then (bs @ cs) ! (o' - off) else fbyte v x o')" if "o' < MAXFILE * BSIZE" for o'
    using W1(7) [OF that] W2(7) [OF that] by (auto simp: nth_append add.commute)
  moreover have "fblock v'' x'' (o' div BSIZE) \<noteq> 0" if "o' < MAXFILE * BSIZE" "off \<le> o'" "o' < off + length (bs @ cs)" for o'
    using W1(6) [OF that(1)] W2(6) [OF that(1)] W2(5) [of "o' div BSIZE"] that by (cases "o' < off + length bs") auto
  moreover have "fblock v'' x'' n \<noteq> 0" if "n < MAXFILE" "fblock v x n \<noteq> 0" for n using W1(5) W2(5) that by blast
  ultimately show ?thesis unfolding file_writes_def by (intro conjI allI impI ballI) (assumption | blast)+
qed

text \<open>Writing within one block of the file.\<close>

lemma write_in_block:
  assumes f: "file_ok v b x" and n: "off div BSIZE < MAXFILE" "fblock v x (off div BSIZE) = a" "a \<noteq> 0" and l: "length bs \<le> BSIZE - off mod BSIZE"
  shows "file_writes b v x off bs (v(a := put_bytes (off mod BSIZE) bs (v a))) x"
proof -
  let ?v = "v(a := put_bytes (off mod BSIZE) bs (v a))" and ?n = "off div BSIZE"
  have W: "file_ok ?v b x" "own ?v x = own v x"
    "\<And>o'. o' < MAXFILE * BSIZE \<Longrightarrow> fbyte ?v x o' = (if o' div BSIZE = ?n then put_bytes (off mod BSIZE) bs (v a) (o' mod BSIZE) else fbyte v x o')"
    "\<And>k. k < sb_size b \<Longrightarrow> in_use ?v b k = in_use v b k" "\<And>m. fblock ?v x m = fblock v x m"
    using write_file [OF f n(1), unfolded n(2), OF n(3)] by blast+
  have "fbyte ?v x o' = (if off \<le> o' \<and> o' < off + length bs then bs ! (o' - off) else fbyte v x o')" if o': "o' < MAXFILE * BSIZE" for o'
  proof (cases "o' div BSIZE = ?n")
    case True
    then have e: "o' = 1024 * ?n + o' mod 1024" "off = 1024 * ?n + off mod 1024" by simp_all (metis mult_div_mod_eq)+
    have "fbyte ?v x o' = put_bytes (off mod BSIZE) bs (v a) (o' mod BSIZE)" using W(3) [OF o'] True by simp
    moreover have "fbyte v x o' = v a (o' mod BSIZE)" using True n(2,3) by (simp add: fbyte_def)
    moreover have "off mod 1024 \<le> o' mod 1024 \<longleftrightarrow> off \<le> o'" "o' mod 1024 < off mod 1024 + length bs \<longleftrightarrow> o' < off + length bs"
      "o' mod 1024 - off mod 1024 = o' - off" using e by linarith+
    ultimately show ?thesis by (simp add: put_bytes_def)
  next
    case False
    have "\<not> (off \<le> o' \<and> o' < off + length bs)"
    proof
      assume a: "off \<le> o' \<and> o' < off + length bs"
      then have "o' - off < 1024 - off mod 1024" using l unfolding fs_sizes by linarith
      then have "off mod 1024 + (o' - off) < 1024" by linarith
      from in_block(1) [OF this] show False using False a by simp
    qed
    then show ?thesis using W(3) [OF o'] False by auto
  qed
  moreover have "in_use ?v b k \<and> (k \<in> bmap_blocks b \<or> k \<in> own v x \<or> ?v k = v k)" if "k < sb_size b" "in_use v b k" for k
    using W(4) [OF that(1)] that own_simps(1) [OF n(1), of v x] n(2,3) by auto
  moreover have "fblock v x (o' div BSIZE) \<noteq> 0" if "off \<le> o'" "o' < off + length bs" for o'
  proof -
    have "o' - off < 1024 - off mod 1024" using l that unfolding fs_sizes by linarith
    then have "off mod 1024 + (o' - off) < 1024" by linarith
    then show ?thesis using in_block(1) [of off "o' - off"] that n(2,3) by simp
  qed
  ultimately show ?thesis using W(2,5) unfolding file_writes_def by (auto intro: exI [of _ "i_addrs x"])
qed

section \<open>The loop\<close>

text \<open>The blocks a write may have logged, with one more for an indirect block that is still missing.\<close>

definition log_use :: "kst \<Rightarrow> nat set \<Rightarrow> nat \<Rightarrow> nat" where
  "log_use s L ip = card (L \<union> bmap_blocks (sb s) \<union> ({i_addrs (itable s ip) NDIRECT} - {0})) + (if i_addrs (itable s ip) NDIRECT = 0 then 1 else 0)"

lemma finite_bmap [simp]: "finite (bmap_blocks b)"
  by (simp add: bmap_blocks_def)

lemma log_use_card: "finite L \<Longrightarrow> card L \<le> log_use s L ip"
  unfolding log_use_def by (rule trans_le_add1, rule card_mono) auto

lemma card_add_one: "finite X \<Longrightarrow> card (X \<union> ({i :: nat} - {0})) \<le> card X + 1"
  by (cases "i = 0") (simp_all add: card_insert_if)

lemma log_use_start: "finite L \<Longrightarrow> log_use s L ip \<le> card L + sb_size (sb s) div BPB + 2"
proof -
  assume L: "finite L"
  have "card (L \<union> bmap_blocks (sb s)) \<le> card L + (sb_size (sb s) div BPB + 1)"
    by (rule order_trans [OF card_Un_le]) (simp add: bmap_blocks_def)
  then show ?thesis
    using card_add_one [of "L \<union> bmap_blocks (sb s)" "i_addrs (itable s ip) NDIRECT"] L unfolding log_use_def
    by (cases "i_addrs (itable s ip) NDIRECT = 0") (simp_all del: Un_insert_right)
qed

lemma grow_log_use:
  assumes g: "grow_post s L ip {r, i_addrs (itable s' ip) NDIRECT} r s' L'" and L: "finite L"
  shows "log_use s' (L' \<union> ({r} - {0})) ip \<le> log_use s L ip + 1"
proof -
  let ?X = "L \<union> bmap_blocks (sb s)" and ?i = "i_addrs (itable s ip) NDIRECT" and ?i' = "i_addrs (itable s' ip) NDIRECT"
  have sb: "sb s' = sb s" and sub: "L' \<subseteq> ?X \<union> ({r, ?i'} - {0})" and ind: "?i \<noteq> 0 \<longrightarrow> ?i' = ?i"
    using g istep_kst(4) unfolding grow_post_def file_grows_def by blast+
  have X: "finite ?X" "finite (?X \<union> ({?i'} - {0}))" using L by simp_all
  have "L' \<union> ({r} - {0}) \<union> bmap_blocks (sb s) \<union> ({?i'} - {0}) \<subseteq> ?X \<union> ({?i'} - {0}) \<union> ({r} - {0})" using sub by blast
  then have "card (L' \<union> ({r} - {0}) \<union> bmap_blocks (sb s) \<union> ({?i'} - {0})) \<le> card (?X \<union> ({?i'} - {0}) \<union> ({r} - {0}))"
    by (rule card_mono [rotated]) (use L in simp)
  also have "\<dots> \<le> card (?X \<union> ({?i'} - {0})) + 1" by (rule card_add_one [OF X(2)])
  finally have c: "card (L' \<union> ({r} - {0}) \<union> bmap_blocks (sb s) \<union> ({?i'} - {0})) \<le> card (?X \<union> ({?i'} - {0})) + 1" .
  show ?thesis
  proof (cases "?i = 0")
    case True
    then have "log_use s L ip = card ?X + 1" by (simp add: log_use_def)
    then show ?thesis using c card_add_one [OF X(1), of ?i'] unfolding log_use_def sb by (cases "?i' = 0") (simp_all only: Diff_cancel Un_empty_right, simp_all)
  next
    case False
    then show ?thesis using c ind unfolding log_use_def sb by simp
  qed
qed

text \<open>The result of writing \<open>bs\<close> at \<open>off\<close>.\<close>

definition write_post :: "kst \<Rightarrow> nat set \<Rightarrow> nat \<Rightarrow> nat \<Rightarrow> u8 list \<Rightarrow> nat \<Rightarrow> kst \<Rightarrow> nat set \<Rightarrow> bool" where
  "write_post s L ip off bs k s' L' \<longleftrightarrow> file_txn s' L' {} ip \<and> istep s s' \<and> itable s' = (itable s)(ip := itable s' ip) \<and>
     file_writes (sb s) (vol s) (itable s ip) off bs (vol s') (itable s' ip) \<and> L \<subseteq> L' \<and> log_use s' L' ip \<le> log_use s L ip + k"

lemma write_post_trans:
  assumes "write_post s L ip off bs k s1 L1" "write_post s1 L1 ip (off + length bs) cs k' s2 L2"
  shows "write_post s L ip off (bs @ cs) (k + k') s2 L2"
proof -
  have 1: "istep s s1" "itable s1 = (itable s)(ip := itable s1 ip)" "file_writes (sb s) (vol s) (itable s ip) off bs (vol s1) (itable s1 ip)"
    "L \<subseteq> L1" "log_use s1 L1 ip \<le> log_use s L ip + k" using assms(1) unfolding write_post_def by blast+
  have sb: "sb s1 = sb s" by (rule istep_kst(4) [OF 1(1)])
  have 2: "file_txn s2 L2 {} ip" "istep s1 s2" "itable s2 = (itable s1)(ip := itable s2 ip)"
    "file_writes (sb s) (vol s1) (itable s1 ip) (off + length bs) cs (vol s2) (itable s2 ip)"
    "L1 \<subseteq> L2" "log_use s2 L2 ip \<le> log_use s1 L1 ip + k'" using assms(2) unfolding write_post_def sb by blast+
  have "itable s2 = (itable s)(ip := itable s2 ip)" using 1(2) 2(3) by (metis fun_upd_upd)
  then show ?thesis
    using istep_trans [OF 1(1) 2(2)] file_writes_trans [OF 1(3) 2(4)] 1(4,5) 2(1,5,6) unfolding write_post_def by auto
qed

lemma wp_write_block:
  assumes f: "file_txn s L {} ip" and c: "log_use s L ip < 26" and n: "off div BSIZE < MAXFILE"
    and src: "\<And>t. mm t = mm s \<Longrightarrow> procs t = procs s \<Longrightarrow> cur t = cur s \<Longrightarrow> lbuf t = lbuf s \<Longrightarrow> either_copyin src m t = Some (Ok ((cs, True), t))"
    and l: "length cs \<le> BSIZE - off mod BSIZE"
    and Q0: "\<And>s' L'. write_post s L ip off [] 1 s' L' \<Longrightarrow> disk_full (vol s') (sb s') \<Longrightarrow> wp z Q s'"
    and Q: "\<And>s' L'. write_post s L ip off cs 1 s' L' \<Longrightarrow> wp k Q s'"
  shows "wp (bindA (bmap ip (off div BSIZE)) (\<lambda>addr. if addr = 0 then z else
    bindA (iget_of ip i_dev) (\<lambda>dev. bindA (bread dev addr) (\<lambda>bp. bindA (either_copyin src m) (\<lambda>(bs, ok).
      doM (set_data bp (put_bytes (off mod BSIZE) bs)) (if \<not> ok then doM (brelse bp) z else doM (log_write bp) (doM (brelse bp) k))))))) Q s"
  unfolding wp_bindA [of "bmap ip n" for n]
proof (rule wp_bmap [OF f n])
  have fin: "finite L" using f fs_txnD(8) by (auto simp: file_txn_def)
  show "card L < 26" using log_use_card [OF fin, of s ip] c by simp
  fix r s1 L1
  assume 1: "grow_post s L ip {r, i_addrs (itable s1 ip) NDIRECT} r s1 L1" "r \<noteq> 0 \<longrightarrow> fblock (vol s1) (itable s1 ip) (off div BSIZE) = r"
  let ?b = "sb s" and ?x = "itable s1 ip" and ?v = "vol s1"
  have g: "istep s s1" "itable s1 = (itable s)(ip := ?x)" "file_grows ?b (vol s) (itable s ip) ?v ?x" "file_txn s1 L1 {} ip"
    "L \<subseteq> L1" "r = 0 \<longrightarrow> disk_full ?v ?b" using 1(1) unfolding grow_post_def by blast+
  note e = istep_kst [OF g(1)]
  note lu = grow_log_use [OF 1(1) fin]
  show "wp (if r = 0 then z else
    bindA (iget_of ip i_dev) (\<lambda>dev. bindA (bread dev r) (\<lambda>bp. bindA (either_copyin src m) (\<lambda>(bs, ok).
      doM (set_data bp (put_bytes (off mod BSIZE) bs)) (if \<not> ok then doM (brelse bp) z else doM (log_write bp) (doM (brelse bp) k)))))) Q s1"
  proof (cases "r = 0")
    case True
    have "write_post s L ip off [] 1 s1 L1"
      using g lu True grows_writes [OF g(3)] unfolding write_post_def by simp
    then show ?thesis using Q0 g(6) e(4) True by simp
  next
    case False
    have F: "fs_txn s1 L1 {}" "file_ok ?v ?b ?x" "i_dev ?x = lg_dev s1" using g(4) e(4) by (simp_all add: file_txn_def)
    note G = fs_txnD [OF F(1)]
    have fb: "fblock ?v ?x (off div BSIZE) = r" using 1(2) False by simp
    have r: "r \<in> own ?v ?x" "data_block ?b r" using own_simps(1) [OF n, of ?v ?x] file_okD(1) [OF F(2)] fb False by auto
    note lb = layout_bounds [OF G(5) [unfolded e(4)] disjI2 [OF disjI1 [OF r(2)]]]
    have lu': "log_use s1 (insert r L1) ip \<le> log_use s L ip + 1" using lu False by simp
    have "card L1 \<le> card (insert r L1)" by (rule card_insert_le)
    then have cl: "card L1 < 30" using log_use_card [of "insert r L1" s1 ip] G(8) c lu' by simp
    show ?thesis
      unfolding if_not_P [OF False] wp_bindA [of "get f" for f] wp_bindA [of "bread d b" for d b] wp_basic F(3)
    proof (rule wp_bread [OF G(1)])
      show "r \<in> L1 \<or> card (L1 \<union> {}) < 30" using cl by simp
      fix bp and s2 :: kst
      assume 2: "txn s2 L1 {r}" "holds s2 bp (lg_dev s1, r)" "vol s2 = ?v" "same_env s1 s2"
      note e2 = same_env_kst [OF 2(4)]
      have h: "holds s2 bp (lg_dev s2, r)" "1 \<le> outstanding s2" using 2(2) e2 G(2) by simp_all
      have ci: "either_copyin src m s2 = Some (Ok ((cs, True), s2))" using src e e2 by simp
      have "wp (doM (set_data bp (put_bytes (off mod BSIZE) cs)) (doM (log_write bp) (doM (brelse bp) k))) Q s2"
      proof (rule wp_log [OF 2(1) h(2) _ cl lb(1) _ h(1)])
        fix s3 :: kst
        assume 3: "txn s3 (insert r L1) {r}" "vol s3 = (vol s2)(r := put_bytes (off mod BSIZE) cs (vol s2 r))" "same_env s2 s3" "holds s3 = holds s2"
        note e3 = same_env_kst [OF 3(3)]
        show "wp (doM (brelse bp) k) Q s3"
          unfolding wp_doM
        proof (rule wp_release [OF 3(1)])
          show "holds s3 bp (lg_dev s3, r)" using h 3(4) e3 by simp
          fix s4 :: kst
          assume 4: "txn s4 (insert r L1) {}" "vol s4 = vol s3" "same_env s3 s4"
          note e4 = same_env_kst [OF 4(3)]
          let ?v' = "?v(r := put_bytes (off mod BSIZE) cs (?v r))"
          have v': "vol s4 = ?v'" using 4(2) 3(2) 2(3) by simp
          have W: "file_ok ?v' ?b ?x \<and> (\<forall>k < sb_size ?b. in_use ?v' ?b k = in_use ?v ?b k)"
            using write_file(1,5) [OF F(2) n, unfolded fb, OF False] by blast
          have "file_writes ?b ?v ?x off cs ?v' ?x" by (rule write_in_block [OF F(2) n fb False l])
          moreover have "vol_ok ?v' ?b" using G(4,5) W e(4) by (simp add: vol_ok_def layout_ok_def)
          moreover have "file_txn s4 (insert r L1) {} ip"
            using calculation W F(3) G(2,3) 4(1) v' e e2 e3 e4 by (simp add: file_txn_def fs_txn_def)
          moreover have "istep s s4" by (rule istep_trans [OF g(1) same_env_istep [OF same_env_trans [OF 2(4) same_env_trans [OF 3(3) 4(3)]]]])
          moreover have "log_use s4 (insert r L1) ip = log_use s1 (insert r L1) ip" using e2 e3 e4 by (simp add: log_use_def)
          moreover have "itable s4 = itable s1" using e2 e3 e4 by simp
          ultimately have "write_post s L ip off cs 1 s4 (insert r L1)"
            using file_writes_trans [OF grows_writes [OF g(3)], of off cs] g(2,5) lu' v' unfolding write_post_def by auto
          then show "wp k Q s4" by (rule Q)
        qed
      qed (use G(3) lb(2) e e2 in auto)
      then show "wp (bindA (either_copyin src m) (\<lambda>(bs, ok).
          doM (set_data bp (put_bytes (off mod BSIZE) bs)) (if \<not> ok then doM (brelse bp) z else doM (log_write bp) (doM (brelse bp) k)))) Q s2"
        using ci by (simp add: wp_def)
    qed simp
  qed
qed

lemma chunks_Cons:
  fixes off :: nat
  assumes "bs \<noteq> []"
  defines "m \<equiv> min (length bs) (BSIZE - off mod BSIZE)"
  shows "chunks off bs = take m bs # chunks (off + m) (drop m bs)"
proof -
  have "take (BSIZE - off mod BSIZE) bs = take m bs" "drop (BSIZE - off mod BSIZE) bs = drop m bs"
    by (simp_all add: m_def min_def)
  then show ?thesis using assms(1) by (subst chunks.simps) (simp only: m_def if_False)
qed

lemma chunks_bound: "length (chunks off bs) \<le> (off mod BSIZE + length bs + (BSIZE - 1)) div BSIZE"
proof (induction off bs rule: chunks.induct)
  case (1 off bs)
  show ?case
  proof (cases "bs = []")
    case True
    then show ?thesis by (simp add: chunks.simps)
  next
    case False
    obtain k where k: "BSIZE - off mod BSIZE = k" and r: "off mod 1024 + k = 1024" by simp
    have l: "0 < length bs" using False by simp
    show ?thesis
    proof (cases "length bs \<le> k")
      case True
      have "length (chunks off bs) = 1" using False True by (subst chunks_Cons, simp_all only: k) (simp add: chunks.simps)
      moreover have "1024 div 1024 \<le> (off mod 1024 + length bs + 1023) div 1024" using l by (intro div_le_mono) linarith
      ultimately show ?thesis by simp
    next
      case big: False
      have m: "min (length bs) k = k" using big by simp
      have "(off + k) mod 1024 = 0" using r by (metis mod_add_left_eq mod_self)
      then have "length (chunks (off + k) (drop k bs)) \<le> (length bs - k + 1023) div 1024"
        using 1 [OF False] unfolding k m by simp
      moreover have "length (chunks off bs) = 1 + length (chunks (off + k) (drop k bs))"
        using False by (subst chunks_Cons, simp_all only: k m) simp
      moreover have "off mod 1024 + length bs + 1023 = (length bs - k + 1023) + 1024" using big r by linarith
      then have "(off mod 1024 + length bs + 1023) div 1024 = (length bs - k + 1023) div 1024 + 1" by simp
      ultimately show ?thesis by simp
    qed
  qed
qed

lemma chunks_le: "length (chunks off bs) \<le> length bs div BSIZE + 2"
proof -
  have "off mod 1024 + length bs + 1023 \<le> length bs + 2046" by (simp add: mod_less_eq_dividend less_Suc_eq_le)
  then have "(off mod 1024 + length bs + 1023) div 1024 \<le> (length bs + 2046) div 1024" by (rule div_le_mono)
  also have "\<dots> \<le> length bs div 1024 + 2" by linarith
  finally show ?thesis using chunks_bound [of off bs] by simp
qed

lemma write_post_refl: "file_txn s L {} ip \<Longrightarrow> write_post s L ip off [] k s L"
  using grows_writes [OF file_grows_refl] unfolding write_post_def by (simp add: istep_def)

lemma write_post_mono: "write_post s L ip off bs k s' L' \<Longrightarrow> k \<le> k' \<Longrightarrow> write_post s L ip off bs k' s' L'"
  unfolding write_post_def by auto

text \<open>A write stops early only when the disk is full, before a block it could not allocate.\<close>

definition write_ends :: "kst \<Rightarrow> nat \<Rightarrow> nat \<Rightarrow> nat \<Rightarrow> bool" where
  "write_ends s off n k \<longleftrightarrow> k \<le> n \<and> (k < n \<longrightarrow> disk_full (vol s) (sb s) \<and> (k = 0 \<or> (off + k) mod BSIZE = 0))"

lemma write_ends_next:
  fixes off :: nat
  assumes "write_ends s (off + m) (n - m) k" "m = min n (BSIZE - off mod BSIZE)"
  shows "write_ends s off n (m + k)"
proof -
  have "(off + m) mod BSIZE = 0" if "m < n"
  proof -
    have "m = 1024 - off mod 1024" using assms(2) that by (simp add: min_def split: if_splits)
    moreover have "off mod 1024 < 1024" by simp
    ultimately have "off mod 1024 + m = 1024" by linarith
    then show ?thesis by (simp, metis mod_add_left_eq mod_self)
  qed
  moreover have "m \<le> n" using assms(2) by simp
  ultimately show ?thesis using assms(1) by (auto simp: write_ends_def add.assoc)
qed

lemma writei_loop_writes:
  assumes "file_txn s L {} ip" "supplies src bs s" "off + length bs \<le> MAXFILE * BSIZE" "n = tot + length bs" "log_use s L ip + length (chunks off bs) < 27"
  shows "wp (writei_loop ip src off n tot) (\<lambda>(tot', off') s'. \<exists>k. tot' = tot + k \<and> off' = off + k \<and>
    write_ends s' off (length bs) k \<and> (\<exists>L'. write_post s L ip off (take k bs) (length (chunks off bs)) s' L')) s"
  using assms
proof (induction "length bs" arbitrary: src off bs tot s L rule: less_induct)
  case less
  let ?m = "min (n - tot) (BSIZE - off mod BSIZE)" and
    ?post = "\<lambda>(tot', off') s'. \<exists>k. tot' = tot + k \<and> off' = off + k \<and>
    write_ends s' off (length bs) k \<and> (\<exists>L'. write_post s L ip off (take k bs) (length (chunks off bs)) s' L')"
  show ?case
  proof (cases "bs = []")
    case True
    have "write_post s L ip off [] (length (chunks off [])) s L" by (rule write_post_refl [OF less.prems(1)])
    then show ?thesis using True less.prems(4) by (subst writei_loop.simps) (auto simp: wp_simps write_ends_def)
  next
    case False
    have lt: "tot < n" using False less.prems(4) by simp
    have m: "?m = min (length bs) (BSIZE - off mod BSIZE)" "0 < ?m" "?m \<le> length bs" using False less.prems(4) by simp_all
    let ?cs = "take ?m bs" and ?rest = "writei_loop ip (kadd src ?m) (add32 off ?m) n (tot + ?m)"
    have a32: "add32 off ?m = off + ?m" using less.prems(3) m(3) by (simp add: add32_def)
    have ck: "length (chunks off bs) = Suc (length (chunks (off + ?m) (drop ?m bs)))" using False m(1) by (subst chunks_Cons) simp_all
    have cs: "length ?cs = ?m" using m(3) by simp
    have "wp (bindA (bmap ip (off div BSIZE)) (\<lambda>addr. if addr = 0 then ret (tot, off) else
      bindA (iget_of ip i_dev) (\<lambda>dev. bindA (bread dev addr) (\<lambda>bp. bindA (either_copyin src ?m) (\<lambda>(bs, ok).
        doM (set_data bp (put_bytes (off mod BSIZE) bs)) (if \<not> ok then doM (brelse bp) (ret (tot, off)) else doM (log_write bp) (doM (brelse bp) ?rest))))))) ?post s"
    proof (rule wp_write_block [OF less.prems(1), where cs = ?cs])
      show "log_use s L ip < 26" using less.prems(5) ck by simp
      have "off < 274432" using less.prems(3) False by (cases bs) auto
      then show "off div BSIZE < MAXFILE" by simp
      show "either_copyin src ?m t = Some (Ok ((?cs, True), t))" if "mm t = mm s" "procs t = procs s" "cur t = cur s" "lbuf t = lbuf s" for t
        by (rule supplies_take [OF less.prems(2) m(3) that])
      show "length ?cs \<le> BSIZE - off mod BSIZE" using cs by simp
    next
      fix s' L' assume 1: "write_post s L ip off [] 1 s' L'" "disk_full (vol s') (sb s')"
      have "write_post s L ip off (take 0 bs) (length (chunks off bs)) s' L'" using write_post_mono [OF 1(1)] ck by simp
      then show "wp (ret (tot, off)) ?post s'" unfolding wp_basic prod.case using 1(2) by (intro exI [of _ 0]) (auto simp: write_ends_def)
    next
      fix s' L' assume 1: "write_post s L ip off ?cs 1 s' L'"
      then have f: "file_txn s' L' {} ip" "istep s s'" "log_use s' L' ip \<le> log_use s L ip + 1" unfolding write_post_def by blast+
      note e = istep_kst [OF f(2)]
      have "wp ?rest (\<lambda>(tot', off') s''. \<exists>k. tot' = tot + ?m + k \<and> off' = off + ?m + k \<and>
        write_ends s'' (off + ?m) (length (drop ?m bs)) k \<and>
        (\<exists>L''. write_post s' L' ip (off + ?m) (take k (drop ?m bs)) (length (chunks (off + ?m) (drop ?m bs))) s'' L'')) s'"
        unfolding a32
      proof (rule less.hyps)
        have "supplies (kadd src ?m) (drop ?m bs) s" by (rule supplies_drop [OF less.prems(2) m(2,3)])
        then show "supplies (kadd src ?m) (drop ?m bs) s'" using supplies_cong [of s' s] e by simp
        show "length (drop ?m bs) < length bs" using m(2,3) unfolding length_drop by linarith
        show "file_txn s' L' {} ip" by (rule f(1))
        show "off + ?m + length (drop ?m bs) \<le> MAXFILE * BSIZE" "n = tot + ?m + length (drop ?m bs)"
          using m(3) less.prems(3,4) unfolding length_drop by linarith+
        show "log_use s' L' ip + length (chunks (off + ?m) (drop ?m bs)) < 27" using f(3) less.prems(5) ck by linarith
      qed
      then show "wp ?rest ?post s'"
      proof (rule wp_mono, clarify)
        fix k s'' L''
        assume k: "write_ends s'' (off + ?m) (length (drop ?m bs)) k"
          and w: "write_post s' L' ip (off + ?m) (take k (drop ?m bs)) (length (chunks (off + ?m) (drop ?m bs))) s'' L''"
        have "write_post s L ip off (?cs @ take k (drop ?m bs)) (1 + length (chunks (off + ?m) (drop ?m bs))) s'' L''"
          by (rule write_post_trans [OF 1]) (use w cs in simp)
        then have "write_post s L ip off (take (?m + k) bs) (length (chunks off bs)) s'' L''" by (simp add: ck take_add)
        then show "\<exists>k'. tot + ?m + k = tot + k' \<and> off + ?m + k = off + k' \<and> write_ends s'' off (length bs) k' \<and>
          (\<exists>L'. write_post s L ip off (take k' bs) (length (chunks off bs)) s'' L')"
        proof (intro exI [of _ "?m + k"] exI [of _ L''] conjI impI)
          show "write_ends s'' off (length bs) (?m + k)" by (rule write_ends_next [OF k [unfolded length_drop] m(1)])
        qed (rule add.assoc)+
      qed
    qed
    then show ?thesis by (subst writei_loop.simps) (simp only: if_P [OF lt])
  qed
qed

end
