(* ===== verification/Fs_Inode.thy ===== *)
theory Fs_Inode
  imports Fs_Write
begin

text \<open>
  Inodes on the disk, and \<open>writei\<close> as a whole: the inode it writes back is the one in memory.
\<close>

section \<open>Inodes on the disk\<close>

lemma fold_addrs:
  "b + k \<le> a \<or> a + 4 * m \<le> b \<Longrightarrow> ld_le k (fold (\<lambda>i d. st_le 4 d (a + 4 * i) (f i)) [0..<m] d) b = ld_le k d b"
  "i < m \<Longrightarrow> ld_le 4 (fold (\<lambda>i d. st_le 4 d (a + 4 * i) (f i)) [0..<m] d) (a + 4 * i) = f i mod 2 ^ 32"
  "j < a \<or> a + 4 * m \<le> j \<Longrightarrow> fold (\<lambda>i d. st_le 4 d (a + 4 * i) (f i)) [0..<m] d j = d j"
proof (induction m)
  case (Suc m)
  {
    case 1
    then show ?case using Suc.IH(1) by (auto simp: ld_st_other)
  next
    case 2
    then show ?case using Suc.IH(2) by (cases "i = m") (auto simp: ld_st_other ld_st_same)
  next
    case 3
    then show ?case using Suc.IH(3) by (auto simp: st_le_outside)
  }
qed simp_all

definition short :: "int \<Rightarrow> bool" where
  "short v \<longleftrightarrow> - (2 ^ 15) \<le> v \<and> v < 2 ^ 15"

text \<open>The fields of an inode have the ranges of their C types.\<close>

definition inode_typed :: "inode \<Rightarrow> bool" where
  "inode_typed x \<longleftrightarrow> short (i_type x) \<and> short (i_major x) \<and> short (i_minor x) \<and> short (i_nlink x) \<and> i_size x < 2 ^ 32 \<and>
     (\<forall>n\<le>NDIRECT. i_addrs x n < 2 ^ 32)"

lemma int16_uint16: "short v \<Longrightarrow> int16 (uint16 v) = v"
proof (cases "v < 0")
  case True
  assume v: "short v"
  have "v mod 65536 = (v + 65536) mod 65536" by simp
  also have "\<dots> = v + 65536" using v True by (intro mod_pos_pos_trivial) (simp_all add: short_def)
  finally have "uint16 v = nat (v + 65536)" by (simp add: uint16_def)
  then show ?thesis using v True by (simp add: int16_def Let_def short_def nat_less_iff)
next
  case False
  assume v: "short v"
  then have "uint16 v = nat v" using False by (simp add: uint16_def short_def mod_pos_pos_trivial)
  then show ?thesis using v False by (simp add: int16_def Let_def short_def nat_less_iff)
qed

lemma dinode_roundtrip:
  assumes "inode_typed x"
  shows "get_dinode (put_dinode x a d) a x = x" "j < a \<or> a + DINODE_SIZE \<le> j \<Longrightarrow> put_dinode x a d j = d j"
proof -
  have t: "short (i_type x)" "short (i_major x)" "short (i_minor x)" "short (i_nlink x)" "i_size x < 2 ^ 32"
    "\<And>n. n \<le> 12 \<Longrightarrow> i_addrs x n < 2 ^ 32" using assms by (simp_all add: inode_typed_def)
  have u: "uint16 v < 65536" for v by (simp add: uint16_def nat_less_iff)
  note f = fold_addrs(1) [of _ _ "a + 12" 13] and L = ld_st_other ld_st_same
  let ?p = "put_dinode x a d"
  have "di_type ?p a = i_type x" "di_major ?p a = i_major x" "di_minor ?p a = i_minor x" "di_nlink ?p a = i_nlink x"
    using t(1-4) u by (simp_all add: put_dinode_def di_type_def di_major_def di_minor_def di_nlink_def f L int16_uint16)
  moreover have "di_size ?p a = i_size x" using t(5) by (simp add: put_dinode_def di_size_def f L)
  moreover have "di_addrs ?p a n = i_addrs x n" if "n < 13" for n
    using t(6) [of n] that fold_addrs(2) [of n 13 "a + 12"] by (simp add: put_dinode_def di_addrs_def)
  ultimately show "get_dinode ?p a x = x" by (cases x) (simp add: get_dinode_def fun_eq_iff)
  show "put_dinode x a d j = d j" if "j < a \<or> a + DINODE_SIZE \<le> j"
    using that fold_addrs(3) [of j "a + 12" 13] by (auto simp: put_dinode_def st_le_outside)
qed

lemma wp_iupdate:
  assumes f: "file_txn s L {} ip" and n: "i_inum (itable s ip) < sb_ninodes (sb s)" and c: "card L < 30"
  defines "ib \<equiv> IBLOCK (i_inum (itable s ip)) (sb s)"
  assumes Q: "\<And>s'. txn s' (insert ib L) {} \<Longrightarrow> vol s' = (vol s)(ib := put_dinode (itable s ip) (dino (i_inum (itable s ip))) (vol s ib)) \<Longrightarrow>
      fstep s s' \<Longrightarrow> Q () s'"
  shows "wp (iupdate ip) Q s"
proof -
  have F: "fs_txn s L {}" "i_dev (itable s ip) = lg_dev s" using f by (simp_all add: file_txn_def)
  note G = fs_txnD [OF F(1)] and lb = layout_bounds [OF fs_txnD(5) [OF F(1)], of ib]
  have i: "ib \<in> bmap_blocks (sb s) \<or> data_block (sb s) ib \<or> (\<exists>i < sb_ninodes (sb s). ib = IBLOCK i (sb s))" using n by (auto simp: ib_def)
  show ?thesis
    unfolding iupdate_def wp_bindA [of "get f" for f] wp_basic prod.case ib_def [symmetric]
    by (rule wp_update_block [OF G(1,2)]) (use Q c F(2) lb [OF i] G(3) in auto)
qed

section \<open>The size of a file\<close>

lemma fblock_size [simp]: "fblock v (x\<lparr>i_size := z\<rparr>) n = fblock v x n" "own v (x\<lparr>i_size := z\<rparr>) = own v x" "fbyte v (x\<lparr>i_size := z\<rparr>) o' = fbyte v x o'"
proof -
  show f: "fblock v (x\<lparr>i_size := z\<rparr>) n = fblock v x n" for n by (simp add: fblock_def)
  show "own v (x\<lparr>i_size := z\<rparr>) = own v x" by (simp add: own_def fblocks_def f)
  show "fbyte v (x\<lparr>i_size := z\<rparr>) o' = fbyte v x o'" by (simp add: fbyte_def f)
qed

text \<open>After a write the file may be as long as the bytes written reach.\<close>

lemma file_ok_written:
  assumes f: "file_ok v b x" "file_ok v' b x'" and w: "file_writes b v x off bs v' x'" and o: "off \<le> i_size x" "off + length bs \<le> MAXFILE * BSIZE"
  shows "file_ok v' b (x'\<lparr>i_size := max (i_size x) (off + length bs)\<rparr>)"
proof -
  let ?z = "max (i_size x) (off + length bs)"
  note W = file_writesD [OF w]
  have z: "?z \<le> MAXFILE * BSIZE" using file_okD(5) [OF f(1)] o(2) by simp
  have "fblock v' x' n \<noteq> 0" if "n * BSIZE < ?z" for n
  proof -
    have n: "n < MAXFILE" "n * BSIZE < MAXFILE * BSIZE" using that z by auto
    show ?thesis
    proof (cases "n * BSIZE < i_size x")
      case True
      then show ?thesis using W(5) [OF n(1)] file_okD(6) [OF f(1)] by blast
    next
      case False
      then have "off \<le> n * BSIZE \<and> n * BSIZE < off + length bs" using that o(1) by linarith
      from W(6) [OF n(2) this] show ?thesis by simp
    qed
  qed
  then show ?thesis using f(2) z unfolding file_ok_def by simp
qed

lemma fdata_written:
  assumes w: "file_writes b v x off bs v' x'" and f: "file_ok v b x" and o: "off \<le> i_size x" "off + length bs \<le> MAXFILE * BSIZE"
  shows "fdata v' (x'\<lparr>i_size := max (i_size x) (off + length bs)\<rparr>) = take off (fdata v x) @ bs @ drop (off + length bs) (fdata v x)"
proof (rule nth_equalityI)
  show l: "length (fdata v' (x'\<lparr>i_size := max (i_size x) (off + length bs)\<rparr>)) = length (take off (fdata v x) @ bs @ drop (off + length bs) (fdata v x))"
    using o(1) by (simp add: fdata_def)
  fix i assume i: "i < length (fdata v' (x'\<lparr>i_size := max (i_size x) (off + length bs)\<rparr>))"
  then have "i < MAXFILE * BSIZE" using file_okD(5) [OF f] o(2) by (auto simp: fdata_def)
  then show "fdata v' (x'\<lparr>i_size := max (i_size x) (off + length bs)\<rparr>) ! i = (take off (fdata v x) @ bs @ drop (off + length bs) (fdata v x)) ! i"
    using file_writesD(7) [OF w, of i] i o(1) by (auto simp: fdata_def nth_append)
qed

lemma file_inode_typed:
  assumes "file_ok v b x" "layout_ok b" "inode_typed y" "i_type x = i_type y" "i_major x = i_major y" "i_minor x = i_minor y" "i_nlink x = i_nlink y"
  shows "inode_typed x"
proof -
  have "i_addrs x n < 2 ^ 32" if "n \<le> NDIRECT" for n
  proof (cases "i_addrs x n = 0")
    case False
    then have "i_addrs x n \<in> own v x" using that own_simps(2) [of x v] own_simps(1) [of n v x] by (cases "n = NDIRECT") (auto simp: fblock_def)
    then show ?thesis using layout_bounds(1) [OF assms(2)] file_okD(1) [OF assms(1)] by blast
  qed simp
  then show ?thesis using assms(3-7) file_okD(5) [OF assms(1)] by (simp add: inode_typed_def)
qed

section \<open>writei\<close>

lemma inode_block_low:
  assumes "layout_ok b" "i < sb_ninodes b"
  shows "IBLOCK i b < datastart b" "IBLOCK i b < sb_size b"
proof -
  have "i div 16 \<le> sb_ninodes b div 16" using assms(2) by (simp add: div_le_mono)
  then show "IBLOCK i b < datastart b" "IBLOCK i b < sb_size b" using assms(1) by (auto simp: layout_ok_def IBLOCK_def datastart_def)
qed

definition inode_block :: "kst \<Rightarrow> nat \<Rightarrow> nat" where
  "inode_block s ip = IBLOCK (i_inum (itable s ip)) (sb s)"

text \<open>The end of \<open>writei\<close>: the new size and the inode on the disk.\<close>

lemma wp_writei_end:
  assumes f: "file_txn s L {} ip" and w: "write_post s L ip off cs k s1 L1" and n: "i_inum (itable s ip) < sb_ninodes (sb s)" "inode_typed (itable s ip)"
    and o: "off \<le> i_size (itable s ip)" "off + length cs \<le> MAXFILE * BSIZE" and c: "log_use s L ip + k < 29"
    and Q: "\<And>s'. file_txn s' (insert (inode_block s ip) L1) {} ip \<Longrightarrow> istep s s' \<Longrightarrow>
      itable s' = (itable s)(ip := (itable s1 ip)\<lparr>i_size := max (i_size (itable s ip)) (off + length cs)\<rparr>) \<Longrightarrow>
      vol s' = (vol s1)(inode_block s ip := put_dinode (itable s' ip) (dino (i_inum (itable s ip))) (vol s1 (inode_block s ip))) \<Longrightarrow>
      inode_typed (itable s' ip) \<Longrightarrow> Q r s'"
  shows "wp (doM (upd (set_inode ip (\<lambda>x. if off + length cs > i_size x then x\<lparr>i_size := off + length cs\<rparr> else x)))
     (doM (iupdate ip) (ret r))) Q s1"
proof -
  let ?x = "itable s ip" and ?x1 = "itable s1 ip" and ?z = "max (i_size (itable s ip)) (off + length cs)" and ?b = "sb s" and ?ib = "inode_block s ip"
  let ?g = "\<lambda>x. if off + length cs > i_size x then x\<lparr>i_size := off + length cs\<rparr> else x" and ?x2 = "?x1\<lparr>i_size := ?z\<rparr>"
  have W: "file_txn s1 L1 {} ip" "istep s s1" "itable s1 = (itable s)(ip := ?x1)" "file_writes ?b (vol s) ?x off cs (vol s1) ?x1"
    "log_use s1 L1 ip \<le> log_use s L ip + k" using w unfolding write_post_def by blast+
  note e1 = istep_kst [OF W(2)] and FW = file_writesD [OF W(4)]
  obtain a where a: "?x1 = ?x\<lparr>i_addrs := a\<rparr>" using FW(4) by blast
  have g: "?g ?x1 = ?x2" unfolding a by (cases "?x") (simp add: max_def)
  let ?s2 = "set_inode ip ?g s1"
  have i2: "itable ?s2 = (itable s)(ip := ?x2)" "vol ?s2 = vol s1" using W(3) g by (simp_all add: set_inode_def, metis fun_upd_upd)
  have F: "file_ok (vol s) ?b ?x" "file_ok (vol s1) ?b ?x1" "fs_txn s1 L1 {}" "i_dev ?x1 = lg_dev s1" "layout_ok ?b"
    using f W(1) e1(4) fs_txnD(5) [of s1 L1 "{}"] by (simp_all add: file_txn_def)
  have ok2: "file_ok (vol s1) ?b ?x2" by (rule file_ok_written [OF F(1,2) W(4) o])
  have f2: "file_txn ?s2 L1 {} ip" using F(3,4) ok2 i2 e1(4) by (simp add: file_txn_def) (simp add: set_inode_def)
  have inum: "i_inum (itable ?s2 ip) = i_inum ?x" using i2 a by simp
  have ty: "inode_typed ?x2" by (rule file_inode_typed [OF ok2 F(5) n(2)]) (simp_all add: a)
  have sb2: "sb ?s2 = ?b" using e1(4) by (simp add: set_inode_def)
  have "card L1 < 30" using log_use_card [of L1 s1 ip] fs_txnD(8) [OF F(3)] W(5) c by simp
  have "wp (iupdate ip) (\<lambda>_. Q r) ?s2"
  proof (rule wp_iupdate [OF f2])
    show "i_inum (itable ?s2 ip) < sb_ninodes (sb ?s2)" using n(1) inum sb2 by simp
    show "card L1 < 30" by fact
    fix s3
    assume "txn s3 (insert (IBLOCK (i_inum (itable ?s2 ip)) (sb ?s2)) L1) {}"
      "vol s3 = (vol ?s2)(IBLOCK (i_inum (itable ?s2 ip)) (sb ?s2) := put_dinode (itable ?s2 ip) (dino (i_inum (itable ?s2 ip)))
        (vol ?s2 (IBLOCK (i_inum (itable ?s2 ip)) (sb ?s2))))" and st: "fstep ?s2 s3"
    then have 3: "txn s3 (insert ?ib L1) {}" "vol s3 = (vol s1)(?ib := put_dinode ?x2 (dino (i_inum ?x)) (vol s1 ?ib))"
      using inum sb2 i2 by (simp_all add: inode_block_def)
    note e3 = fstep_kst [OF st]
    have ap: "?ib \<notin> bmap_blocks ?b" "\<not> data_block ?b ?ib" using inode_block_apart [OF F(5) n(1)] by (simp_all add: inode_block_def)
    have u: "in_use (vol s3) ?b j = in_use (vol s1) ?b j" if "j < sb_size ?b" for j
      using ap(1) 3(2) by (intro in_use_data [OF _ that]) auto
    have "file_ok (vol s3) ?b ?x2"
    proof (rule file_ok_keep [OF ok2])
      fix k assume k: "k \<in> own (vol s1) ?x2"
      note dk = file_okD(1,2) [OF ok2 k]
      then show "vol s3 k = vol s1 k" using ap(2) 3(2) by auto
      show "in_use (vol s3) ?b k" using dk u by (simp add: data_block_def)
    qed
    moreover have "vol_ok (vol s3) ?b" using fs_txnD(4) [OF F(3)] u F(5) e1(4) by (simp add: vol_ok_def layout_ok_def)
    moreover have "itable s3 = (itable s)(ip := ?x2)" "sb s3 = ?b" "lg_dev s3 = lg_dev s1" "lg_start s3 = lg_start s1" "outstanding s3 = outstanding s1"
      using e3 i2 sb2 by (simp_all add: set_inode_def)
    ultimately have "file_txn s3 (insert ?ib L1) {} ip"
      using 3(1) fs_txnD(2,3) [OF F(3)] F(4) e1(4) by (simp add: file_txn_def fs_txn_def)
    moreover have env: "same_env ?s2 s3" using st by (simp add: fstep_def)
    have "istep s s3" by (rule istep_trans [OF W(2) istep_trans [OF istep_set(2) same_env_istep [OF env]]])
    ultimately show "Q r s3" using Q [of s3] 3(2) \<open>itable s3 = (itable s)(ip := ?x2)\<close> ty by simp
  qed
  then show ?thesis by (simp add: wp_simps)
qed

text \<open>What \<open>writei\<close> has done when it returns \<open>tot\<close>.\<close>

definition writei_post :: "kst \<Rightarrow> nat set \<Rightarrow> nat \<Rightarrow> nat \<Rightarrow> u8 list \<Rightarrow> nat \<Rightarrow> kst \<Rightarrow> nat set \<Rightarrow> bool" where
  "writei_post s L ip off bs tot s' L' \<longleftrightarrow> write_ends s' off (length bs) tot \<and>
     file_txn s' L' {} ip \<and> card L' \<le> card L + sb_size (sb s) div BPB + length bs div BSIZE + 5 \<and> L \<subseteq> L' \<and>
     istep s s' \<and> itable s' = (itable s)(ip := itable s' ip) \<and> inode_typed (itable s' ip) \<and>
     (\<exists>a. itable s' ip = (itable s ip)\<lparr>i_addrs := a, i_size := max (i_size (itable s ip)) (off + tot)\<rparr>) \<and>
     fdata (vol s') (itable s' ip) = take off (fdata (vol s) (itable s ip)) @ take tot bs @ drop (off + tot) (fdata (vol s) (itable s ip)) \<and>
     get_dinode (vol s' (inode_block s ip)) (dino (i_inum (itable s ip))) (itable s' ip) = itable s' ip \<and>
     (\<forall>j. j < dino (i_inum (itable s ip)) \<or> dino (i_inum (itable s ip)) + DINODE_SIZE \<le> j \<longrightarrow> vol s' (inode_block s ip) j = vol s (inode_block s ip) j) \<and>
     (\<forall>k < sb_size (sb s). in_use (vol s) (sb s) k \<longrightarrow> in_use (vol s') (sb s) k \<and>
        (k \<in> bmap_blocks (sb s) \<or> k \<in> own (vol s) (itable s ip) \<or> k = inode_block s ip \<or> vol s' k = vol s k))"

lemma writei_end_post:
  assumes f: "file_txn s L {} ip" and w: "write_post s L ip off (take tot bs) k s1 L1" and n: "i_inum (itable s ip) < sb_ninodes (sb s)"
    and o: "off \<le> i_size (itable s ip)" "off + tot \<le> MAXFILE * BSIZE" and t: "write_ends s1 off (length bs) tot"
    and k: "log_use s L ip + k \<le> card L + sb_size (sb s) div BPB + length bs div BSIZE + 4"
    and s': "file_txn s' (insert (inode_block s ip) L1) {} ip" "istep s s'"
      "itable s' = (itable s)(ip := (itable s1 ip)\<lparr>i_size := max (i_size (itable s ip)) (off + tot)\<rparr>)"
      "vol s' = (vol s1)(inode_block s ip := put_dinode (itable s' ip) (dino (i_inum (itable s ip))) (vol s1 (inode_block s ip)))"
      "inode_typed (itable s' ip)"
  shows "writei_post s L ip off bs tot s' (insert (inode_block s ip) L1)"
proof -
  let ?x = "itable s ip" and ?x1 = "itable s1 ip" and ?b = "sb s" and ?ib = "inode_block s ip" and ?v1 = "vol s1"
  let ?z = "max (i_size ?x) (off + tot)"
  have W: "file_txn s1 L1 {} ip" "istep s s1" "file_writes ?b (vol s) ?x off (take tot bs) ?v1 ?x1"
    "log_use s1 L1 ip \<le> log_use s L ip + k" "L \<subseteq> L1" using w unfolding write_post_def by blast+
  note FW = file_writesD [OF W(3)] and e1 = istep_kst [OF W(2)]
  have len: "length (take tot bs) = tot" using t by (simp add: write_ends_def)
  have x2: "itable s' ip = ?x1\<lparr>i_size := ?z\<rparr>" using s'(3) by simp
  obtain a where a: "?x1 = ?x\<lparr>i_addrs := a\<rparr>" using FW(4) by blast
  have F: "file_ok (vol s) ?b ?x" "vol_ok (vol s) ?b" "layout_ok ?b" "file_ok ?v1 ?b ?x1" "finite L1"
    using f W(1) e1(4) fs_txnD(4,5) [of s L "{}"] fs_txnD(8) [of s1 L1 "{}"] by (simp_all add: file_txn_def)
  have ap: "?ib \<notin> bmap_blocks ?b" "\<not> data_block ?b ?ib" using inode_block_apart [OF F(3) n] by (simp_all add: inode_block_def)
  have u: "in_use (vol s') ?b j = in_use ?v1 ?b j" if "j < sb_size ?b" for j using ap(1) s'(4) by (intro in_use_data [OF _ that]) auto
  have "file_ok ?v1 ?b (?x1\<lparr>i_size := ?z\<rparr>)" using file_ok_written [OF F(1,4) W(3) o(1)] o(2) len by simp
  then have keep: "vol s' k = ?v1 k" if "k \<in> own ?v1 ?x1" for k
    using that file_okD(1) [of ?v1 ?b "?x1\<lparr>i_size := ?z\<rparr>" k] ap(2) s'(4) by auto
  have "i_size (?x1\<lparr>i_size := ?z\<rparr>) \<le> MAXFILE * BSIZE" using file_okD(5) [OF F(1)] o(2) by simp
  then have "fdata (vol s') (itable s' ip) = fdata ?v1 (?x1\<lparr>i_size := ?z\<rparr>)"
    unfolding x2 fdata_def using own_keep(3) [OF keep] by (intro map_cong refl) auto
  also have "\<dots> = take off (fdata (vol s) ?x) @ take tot bs @ drop (off + tot) (fdata (vol s) ?x)"
    using fdata_written [OF W(3) F(1) o(1)] o(2) unfolding len by simp
  finally have data: "fdata (vol s') (itable s' ip) = take off (fdata (vol s) ?x) @ take tot bs @ drop (off + tot) (fdata (vol s) ?x)" .
  have ib: "?ib < datastart ?b" "?ib < sb_size ?b" using inode_block_low [OF F(3) n] by (simp_all add: inode_block_def)
  then have "in_use (vol s) ?b ?ib" "?ib \<notin> own (vol s) ?x" using F(2) file_okD(1) [OF F(1)] ap(2) by (auto simp: vol_ok_def)
  then have v1: "?v1 ?ib = vol s ?ib" using FW(3) [OF ib(2)] ap(1) by blast
  note rt = dinode_roundtrip [OF s'(5)]
  have oth: "in_use (vol s') ?b k \<and> (k \<in> bmap_blocks ?b \<or> k \<in> own (vol s) ?x \<or> k = ?ib \<or> vol s' k = vol s k)"
    if "k < sb_size ?b" "in_use (vol s) ?b k" for k using FW(3) [OF that] u [OF that(1)] s'(4) by auto
  have "card (insert ?ib L1) \<le> card L1 + 1" using F(5) by (simp add: card_insert_if)
  then have "card (insert ?ib L1) \<le> card L + sb_size ?b div BPB + length bs div BSIZE + 5"
    using log_use_card [OF F(5), of s1 ip] W(4) k by linarith
  moreover have "write_ends s' off (length bs) tot" using t u e1(4) istep_kst(4) [OF s'(2)] by (simp add: write_ends_def disk_full_def)
  moreover have "get_dinode (vol s' ?ib) (dino (i_inum ?x)) (itable s' ip) = itable s' ip" using rt(1) s'(4) by simp
  moreover have "\<exists>a. itable s' ip = ?x\<lparr>i_addrs := a, i_size := ?z\<rparr>" using x2 a by auto
  moreover have "itable s' = (itable s)(ip := itable s' ip)" using s'(3) by simp
  ultimately show ?thesis using s'(1,2,5) W(5) data oth rt(2) s'(4) v1 unfolding writei_post_def by auto
qed

lemma writei_wp:
  assumes f: "file_txn s L {} ip" and n: "i_inum (itable s ip) < sb_ninodes (sb s)" "inode_typed (itable s ip)" and src: "supplies src bs s"
    and o: "off \<le> i_size (itable s ip)" "off + length bs \<le> MAXFILE * BSIZE" and c: "card L + sb_size (sb s) div BPB + length bs div BSIZE \<le> 22"
  shows "wp (writei ip src off (length bs)) (\<lambda>r s'. \<exists>tot L'. r = int tot \<and> writei_post s L ip off bs tot s' L') s"
proof -
  let ?fin = "\<lambda>tot off1. doM (upd (set_inode ip (\<lambda>x. if off1 > i_size x then x\<lparr>i_size := off1\<rparr> else x))) (doM (iupdate ip) (ret (int32 tot)))"
  have fin: "finite L" using f fs_txnD(8) by (auto simp: file_txn_def)
  have k: "log_use s L ip + length (chunks off bs) \<le> card L + sb_size (sb s) div BPB + length bs div BSIZE + 4"
    using log_use_start [OF fin, of s ip] chunks_le [of off bs] by linarith
  have k27: "log_use s L ip + length (chunks off bs) < 27" using k c by linarith
  have "wp (writei_loop ip src off (length bs) 0) (\<lambda>(tot, off1). wp (?fin tot off1) (\<lambda>r s'. \<exists>tot L'. r = int tot \<and> writei_post s L ip off bs tot s' L')) s"
  proof (rule wp_mono [OF writei_loop_writes [OF f src o(2) add_0 [symmetric] k27]], clarify)
    fix s1 tot L1
    assume 1: "write_ends s1 off (length bs) tot" "write_post s L ip off (take tot bs) (length (chunks off bs)) s1 L1"
    have len: "length (take tot bs) = tot" and o2: "off + tot \<le> MAXFILE * BSIZE" using 1(1) o(2) by (simp_all add: write_ends_def)
    have i32: "int32 tot = int tot" using o2 by (simp add: int32_def)
    have c29: "log_use s L ip + length (chunks off bs) < 29" using k c by linarith
    show "wp (?fin (0 + tot) (off + tot)) (\<lambda>r s'. \<exists>tot L'. r = int tot \<and> writei_post s L ip off bs tot s' L') s1"
      unfolding add_0 i32
    proof (rule wp_writei_end [OF f 1(2) n o(1) _ c29, unfolded len, OF o2], intro exI conjI)
      fix s' assume "file_txn s' (insert (inode_block s ip) L1) {} ip" "istep s s'"
        "itable s' = (itable s)(ip := (itable s1 ip)\<lparr>i_size := max (i_size (itable s ip)) (off + tot)\<rparr>)"
        "vol s' = (vol s1)(inode_block s ip := put_dinode (itable s' ip) (dino (i_inum (itable s ip))) (vol s1 (inode_block s ip)))"
        "inode_typed (itable s' ip)"
      from writei_end_post [OF f 1(2) n(1) o(1) o2 1(1) k this] show "writei_post s L ip off bs tot s' (insert (inode_block s ip) L1)" .
    qed simp
  qed
  moreover have "add32 off (length bs) = off + length bs" using o(2) by (simp add: add32_def)
  ultimately show ?thesis using o by (simp add: writei_def wp_bindA wp_basic case_prod_unfold)
qed

end
