(* ===== verification/Boot_State.thy ===== *)
theory Boot_State
  imports Kstate
begin

text \<open>
  The kernel's static variables at power on, all zero, around a given physical memory and disk.
\<close>

definition zero_proc :: proc where
  "zero_proc = \<lparr>p_state = UNUSED, p_chan = Ch_null, p_killed = False, p_xstate = 0, p_pid = 0, p_parent = None, p_kstack = 0,
     p_sz = 0, p_pagetable = 0, p_trapframe = 0, p_ra = Entry_none, p_sp = 0, p_ofile = (\<lambda>_. None), p_cwd = None, p_name = [],
     p_pending = 0, p_valid_handlers = 0, p_handlers = (\<lambda>_. 0), p_sigframe = (\<lambda>_. 0), p_sigframe_valid = False,
     p_kthread = False, p_kfunc = 0, p_karg = 0\<rparr>"

definition zero_inode :: inode where
  "zero_inode = \<lparr>i_dev = 0, i_inum = 0, i_ref = 0, i_lock = initsleeplock, i_valid = False, i_type = 0, i_major = 0, i_minor = 0,
     i_nlink = 0, i_size = 0, i_addrs = (\<lambda>_. 0)\<rparr>"

definition zero_file :: kfile where
  "zero_file = \<lparr>f_type = FD_NONE, f_ref = 0, f_readable = False, f_writable = False, f_pipe = 0, f_ip = 0, f_off = 0, f_major = 0\<rparr>"

definition zero_kst :: "mem \<Rightarrow> disk \<Rightarrow> kst" where
  "zero_kst m d = \<lparr>bufs = (\<lambda>_. \<lparr>valid = False, bdev = 0, blockno = 0, locked = False, refcnt = 0, bdata = (\<lambda>_. 0)\<rparr>), lru = [],
     dsk = d, past = [], lg_start = 0, outstanding = 0, committing = False, lg_dev = 0, lh_n = 0, lh_block = (\<lambda>_. 0),
     sb = \<lparr>sb_magic = 0, sb_size = 0, sb_nblocks = 0, sb_ninodes = 0, sb_nlog = 0, sb_logstart = 0, sb_inodestart = 0, sb_bmapstart = 0\<rparr>,
     itable = (\<lambda>_. zero_inode), ftable = (\<lambda>_. zero_file),
     pipes = (\<lambda>_. \<lparr>data = (\<lambda>_. 0), nread = 0, nwrite = 0, readopen = False, writeopen = False\<rparr>),
     mm = \<lparr>kmem_caches = (\<lambda>_. kmem_cache_init 0), sst = \<lparr>sheap = (\<lambda>_. slab_init 0 0),
       km = \<lparr>pmem = m, freelist = (\<lambda>_. 0), base = 0, limit = 0, page_state = (\<lambda>_. 0), kend = 0\<rparr>\<rparr>\<rparr>,
     procs = (\<lambda>_. zero_proc), cur = 0, initproc = 0, nextpid = 1, ticks = 0, lbuf = (\<lambda>_. 0), trampoline = 0, first_run = True\<rparr>"

text \<open>A state with one running process, in slot 0, whose trap frame is at the address \<open>tf\<close>.\<close>

definition one_process :: "(proc \<Rightarrow> proc) \<Rightarrow> nat \<Rightarrow> mem \<Rightarrow> disk \<Rightarrow> kst" where
  "one_process h tf m d = set_proc 0 (\<lambda>p. h (p\<lparr>p_state := RUNNING, p_pid := 1, p_trapframe := tf\<rparr>)) (zero_kst m d)"

lemma one_process_simps [simp]:
  "cur (one_process h tf m d) = 0" "ftable (one_process h tf m d) = (\<lambda>_. zero_file)"
  "procs (one_process h tf m d) = (\<lambda>_. zero_proc)(0 := h (zero_proc\<lparr>p_state := RUNNING, p_pid := 1, p_trapframe := tf\<rparr>))"
  "pmem (kmem_of (one_process h tf m d)) = m"
  by (simp_all add: one_process_def set_proc_def zero_kst_def kmem_of_def)

end
