(* ===== verification/Fs_Correct.thy ===== *)
theory Fs_Correct
  imports Fs_Inode Boot_State
begin

text \<open>
  A file as the list of its bytes: \<open>readi\<close> delivers a slice of the list and \<open>writei\<close> replaces one,
  with every byte read and written through the block map, the buffer cache and the log.
\<close>

section \<open>A mounted volume\<close>

text \<open>
  A volume of 100 blocks with the log from block 2, the inodes from block 33 and the bitmap in block
  40: the blocks up to 47 are in use, and block 41 holds \<open>d\<close>. The state has an open transaction and
  the inode \<open>x\<close> in the first entry of the inode table.
\<close>

definition demo_disk :: "block \<Rightarrow> disk" where
  "demo_disk d k = (if k = (1, 40) then (\<lambda>i. if i < 6 then -1 else 0) else if k = (1, 41) then d else (\<lambda>_. 0))"

definition demo_sb :: superblock where
  "demo_sb = \<lparr>sb_magic = FSMAGIC, sb_size = 100, sb_nblocks = 59, sb_ninodes = 32, sb_nlog = 31, sb_logstart = 2, sb_inodestart = 33,
     sb_bmapstart = 40\<rparr>"

definition demo_kst :: "block \<Rightarrow> inode \<Rightarrow> (nat \<Rightarrow> u8) \<Rightarrow> kst" where
  "demo_kst d x l = (zero_kst (\<lambda>_. 0) (demo_disk d))\<lparr>lru := rev [0..<NBUF], lg_start := 2, lg_dev := 1, outstanding := 1, sb := demo_sb,
     itable := (\<lambda>_. zero_inode)(0 := x), lbuf := l\<rparr>"

definition demo_inode :: "int \<Rightarrow> nat \<Rightarrow> inode" where
  "demo_inode t n = zero_inode\<lparr>i_dev := 1, i_inum := 3, i_ref := 1, i_valid := True, i_type := t, i_nlink := 1, i_size := n,
     i_addrs := (\<lambda>_. 0)(0 := 41)\<rparr>"

lemma demo_kst_simps [simp]:
  "lg_dev (demo_kst d x l) = 1" "lg_start (demo_kst d x l) = 2" "outstanding (demo_kst d x l) = 1" "sb (demo_kst d x l) = demo_sb"
  "itable (demo_kst d x l) = (\<lambda>_. zero_inode)(0 := x)" "lbuf (demo_kst d x l) = l" "lh_n (demo_kst d x l) = 0"
  "dsk (demo_kst d x l) = demo_disk d" "refcnt (bufs (demo_kst d x l) i) = 0" "locked (bufs (demo_kst d x l) i) = False"
  "valid (bufs (demo_kst d x l) i) = False" "bdev (bufs (demo_kst d x l) i) = 0" "lru (demo_kst d x l) = rev [0..<NBUF]"
  by (simp_all add: demo_kst_def zero_kst_def)

lemma demo_info: "info (demo_kst d x l) k = (demo_disk d k, 0, False)"
  by (simp add: info_def Let_def split: option.split)

lemma demo_vol: "vol (demo_kst d x l) b = demo_disk d (1, b)"
  by (simp add: vol_def demo_info)

lemma demo_txn: "txn (demo_kst d x l) {} {}"
  by (auto simp: txn_def header_ok_def binv_def nref_def demo_info hdr_n_def demo_disk_def ld_le_def int32_def atLeast0LessThan)

lemma demo_in_use: "k < 48 \<Longrightarrow> in_use (vol (demo_kst d x l)) demo_sb k"
  by (simp add: in_use_def BBLOCK_def demo_sb_def demo_vol demo_disk_def is_free_bit)

lemma demo_file:
  assumes "n \<le> BSIZE"
  shows "file_ok (vol (demo_kst d (demo_inode t n) l)) demo_sb (demo_inode t n)"
proof -
  have fb: "fblock v (demo_inode t n) k = (if k = 0 then 41 else 0)" for v k
    by (simp add: fblock_def demo_inode_def)
  then have own: "k \<in> own v (demo_inode t n) \<Longrightarrow> k = 41" for v k by (auto simp: own_def fblocks_def demo_inode_def split: if_splits)
  have "data_block demo_sb 41" by (simp add: data_block_def datastart_def demo_sb_def)
  then have "\<forall>k\<in>own v (demo_inode t n). data_block demo_sb k \<and> in_use (vol (demo_kst d (demo_inode t n) l)) demo_sb k" for v
    using own demo_in_use [of 41] by force
  moreover have "i_size (demo_inode t n) = n" "i_addrs (demo_inode t n) NDIRECT = 0" by (simp_all add: demo_inode_def)
  ultimately show ?thesis using assms by (simp add: file_ok_def fb)
qed

lemma demo_file_txn:
  assumes "n \<le> BSIZE"
  shows "file_txn (demo_kst d (demo_inode t n) l) {} {} 0"
proof -
  have "layout_ok demo_sb" "datastart demo_sb = 41" by (simp_all add: layout_ok_def datastart_def demo_sb_def)
  then show ?thesis
    using demo_file [OF assms, of d t l] demo_txn [of d "demo_inode t n" l] demo_in_use [of _ d "demo_inode t n" l]
    by (simp add: file_txn_def fs_txn_def vol_ok_def) (simp add: demo_sb_def demo_inode_def)
qed

section \<open>Reading\<close>

lemma fdata_slice: "take n (drop off (fdata v x)) = file_bytes v x off (min n (i_size x - off))"
  by (rule nth_equalityI) (auto simp: fdata_def file_bytes_def)

lemma add32_wraps: "off < 2 ^ 32 \<Longrightarrow> n < 2 ^ 32 \<Longrightarrow> add32 off n < off \<longleftrightarrow> 2 ^ 32 \<le> off + n"
  by (auto simp: add32_def mod_if)

lemma readi_wp:
  assumes t: "txn s L {}" "card L < 30" "i_dev (itable s ip) = lg_dev s" and f: "file_ok (vol s) (sb s) (itable s ip)"
    and w: "off + n < 2 ^ 32"
    and c: "copy_chunks dst (chunks off (take n (drop off (fdata (vol s) (itable s ip))))) s = Some (Ok (c, s1))"
  shows "wp (readi ip dst off n) (\<lambda>r s'. r = (if c = -1 then -1 else int (length (take n (drop off (fdata (vol s) (itable s ip)))))) \<and>
    txn s' L {} \<and> vol s' = vol s \<and> estep s s' \<and> mm s' = mm s1 \<and> lbuf s' = lbuf s1) s"
proof -
  let ?x = "itable s ip" and ?v = "vol s"
  let ?n = "min n (i_size ?x - off)"
  have a: "add32 off n = off + n" using w by (simp add: add32_def)
  have sz: "i_size ?x \<le> MAXFILE * BSIZE" by (rule file_okD(5) [OF f])
  have len: "int (length (take n (drop off (fdata ?v ?x)))) = int32 ?n"
    using sz by (simp add: fdata_slice file_bytes_def int32_def)
  show ?thesis
    unfolding len
  proof (cases "off \<le> i_size ?x")
    case True
    then have "off + (?n - 0) \<le> i_size ?x" by simp
    moreover have "copy_chunks dst (chunks off (file_bytes ?v ?x off (?n - 0))) s = Some (Ok (c, s1))"
      using c unfolding fdata_slice by simp
    ultimately
    have "wp (readi_loop ip dst off ?n 0) (\<lambda>r s'. r = (if c = -1 then -1 else int32 ?n) \<and> txn s' L {} \<and> vol s' = vol s \<and> estep s s' \<and>
      mm s' = mm s1 \<and> lbuf s' = lbuf s1) s" by (rule readi_loop_reads [OF t f le0 _ _ refl refl refl refl])
    moreover have "(if add32 off n > i_size ?x then i_size ?x - off else n) = ?n" using True a by auto
    ultimately show "wp (readi ip dst off n) (\<lambda>r s'. r = (if c = -1 then -1 else int32 ?n) \<and> txn s' L {} \<and> vol s' = vol s \<and> estep s s' \<and>
      mm s' = mm s1 \<and> lbuf s' = lbuf s1) s" using True by (simp add: readi_def wp_bindA wp_basic a)
  next
    case False
    then have "c = 0 \<and> s1 = s" using c by (simp add: fdata_slice file_bytes_def chunks.simps ret_def)
    then show "wp (readi ip dst off n) (\<lambda>r s'. r = (if c = -1 then -1 else int32 ?n) \<and> txn s' L {} \<and> vol s' = vol s \<and> estep s s' \<and>
      mm s' = mm s1 \<and> lbuf s' = lbuf s1) s" using False t(1) by (simp add: readi_def wp_bindA wp_basic int32_def same_env_estep)
  qed
qed

text \<open>
  (C31) \<open>readi\<close> reads the bytes of the file: when \<open>off + n\<close> does not wrap around, it hands
  \<open>either_copyout\<close> exactly the bytes of the file from \<open>off\<close>, at most \<open>n\<close> of them and none past the
  end of the file, cut at the boundaries of the disk blocks, and returns how many they are, or -1
  when a copy failed. When the sum wraps around it returns 0 and does nothing. The buffers it used are
  released, and the contents of the volume, the log, the disk and the inode are unchanged.
\<close>

theorem readi_reads_file:
  assumes t: "txn s L {}" "card L < 30" "i_dev (itable s ip) = lg_dev s" and f: "file_ok (vol s) (sb s) (itable s ip)"
    and o: "off < 2 ^ 32" "n < 2 ^ 32"
    and c: "copy_chunks dst (chunks off (take n (drop off (fdata (vol s) (itable s ip))))) s = Some (Ok (c, s1))"
  shows "(off + n < 2 ^ 32 \<longrightarrow>
      (\<exists>s'. readi ip dst off n s = Some (Ok (if c = -1 then -1 else int (length (take n (drop off (fdata (vol s) (itable s ip))))), s')) \<and>
        txn s' L {} \<and> vol s' = vol s \<and> estep s s' \<and> mm s' = mm s1 \<and> lbuf s' = lbuf s1)) \<and>
    (2 ^ 32 \<le> off + n \<longrightarrow> readi ip dst off n s = Some (Ok (0, s)))"
proof (intro conjI impI)
  assume "off + n < 2 ^ 32"
  from readi_wp [OF t f this c]
  show "\<exists>s'. readi ip dst off n s = Some (Ok (if c = -1 then -1 else int (length (take n (drop off (fdata (vol s) (itable s ip))))), s')) \<and>
        txn s' L {} \<and> vol s' = vol s \<and> estep s s' \<and> mm s' = mm s1 \<and> lbuf s' = lbuf s1"
    by (auto simp: wp_def)
next
  assume "2 ^ 32 \<le> off + n"
  then have "add32 off n < off" using add32_wraps [OF o] by blast
  then show "readi ip dst off n s = Some (Ok (0, s))" by (simp add: readi_def bindA_def get_def ret_def)
qed

theorem readi_reads_file_witness:
  "\<exists>s'. readi 0 (Loc 0) 1 9 (demo_kst (\<lambda>i. of_nat (10 + i)) (demo_inode 2 5) (\<lambda>_. 0)) = Some (Ok (4, s')) \<and>
     bytes_at (lbuf s') 0 6 = [11, 12, 13, 14, 0, 0]"
proof -
  let ?d = "\<lambda>i. of_nat (10 + i) :: u8"
  let ?s = "demo_kst ?d (demo_inode 2 5) (\<lambda>_. 0)"
  have bs: "take 9 (drop 1 (fdata (vol ?s) (itable ?s 0))) = [11, 12, 13, 14]"
    by (simp add: fdata_def fbyte_def fblock_def demo_vol demo_disk_def demo_inode_def upt_rec)
  have c: "copy_chunks (Loc 0) (chunks 1 [11, 12, 13, 14]) ?s = Some (Ok (0, ?s\<lparr>lbuf := put_bytes 0 [11, 12, 13, 14] (\<lambda>_. 0)\<rparr>))"
    by (simp add: chunks.simps bindA_def ret_def upd_def doM_def)
  have "file_ok (vol ?s) (sb ?s) (itable ?s 0)" "i_dev (itable ?s 0) = lg_dev ?s" using demo_file [of 5 ?d 2] by (simp_all add: demo_inode_def)
  from readi_reads_file [OF demo_txn [of ?d "demo_inode 2 5" "\<lambda>_. 0"] _ this(2,1) _ _ c [folded bs]] show ?thesis
    unfolding bs by (auto simp: put_bytes_def bytes_at_def upt_rec)
qed

section \<open>Writing\<close>

text \<open>
  (C30) \<open>writei\<close> inside a transaction replaces a slice of the file: from an offset within the file,
  with the end within the largest file, it writes a prefix of the bytes, all of them unless the disk
  is full, in which case it stops before a block, and returns its length; the file holds the old bytes with the prefix in place and has
  grown if the prefix ends past the old end. The blocks of the file stay allocated and distinct, the
  on-disk inode equals the one in memory, every other inode of its block and every other block in use
  are unchanged, no buffer stays held, and the transaction grows by at most five blocks more than the
  bitmap and the bytes take. Any other range, one that wraps around included, returns -1 and does
  nothing.
\<close>

theorem writei_writes_file:
  assumes f: "file_txn s L {} ip" and n: "i_inum (itable s ip) < sb_ninodes (sb s)" "inode_typed (itable s ip)" and src: "supplies src bs s"
    and o: "off < 2 ^ 32" "length bs < 2 ^ 32" and c: "card L + sb_size (sb s) div BPB + length bs div BSIZE \<le> 22"
  shows "if off \<le> i_size (itable s ip) \<and> off + length bs \<le> MAXFILE * BSIZE
    then \<exists>tot s' L'. writei ip src off (length bs) s = Some (Ok (int tot, s')) \<and> writei_post s L ip off bs tot s' L'
    else writei ip src off (length bs) s = Some (Ok (-1, s))"
proof (cases "off \<le> i_size (itable s ip) \<and> off + length bs \<le> MAXFILE * BSIZE")
  case True
  with writei_wp [OF f n src _ _ c, of off] show ?thesis by (auto simp: wp_def)
next
  case False
  have "off + length bs < 2 ^ 32 \<Longrightarrow> add32 off (length bs) = off + length bs" by (simp add: add32_def)
  then show ?thesis using False add32_wraps [OF o] by (auto simp: writei_def bindA_def get_def ret_def)
qed

theorem writei_writes_file_witness:
  "\<exists>tot s'. writei 0 (Loc 0) 3 4 (demo_kst (\<lambda>i. of_nat (10 + i)) (demo_inode 2 5) of_nat) = Some (Ok (int tot, s')) \<and> tot \<le> 4 \<and>
     fdata (vol s') (itable s' 0) = [10, 11, 12] @ take tot [0, 1, 2, 3] @ drop (3 + tot) [10, 11, 12, 13, 14]"
proof -
  let ?d = "\<lambda>i. of_nat (10 + i) :: u8"
  let ?s = "demo_kst ?d (demo_inode 2 5) of_nat" and ?bs = "[0, 1, 2, 3] :: u8 list"
  have d: "fdata (vol ?s) (demo_inode 2 5) = [10, 11, 12, 13, 14]"
    by (simp add: fdata_def fbyte_def fblock_def demo_vol demo_disk_def demo_inode_def upt_rec)
  have "bytes_at (lbuf ?s) 0 4 = ?bs" by (simp add: bytes_at_def upt_rec)
  then have src: "supplies (Loc 0) ?bs ?s" using supplies_Loc [of 0 ?s 4] by simp
  have typed: "i_inum (itable ?s 0) < sb_ninodes (sb ?s)" "inode_typed (itable ?s 0)"
    by (simp_all add: demo_inode_def demo_sb_def zero_inode_def inode_typed_def short_def)
  have sizes: "card {} + sb_size (sb ?s) div BPB + length ?bs div BSIZE \<le> 22" "i_size (itable ?s 0) = 5"
    by (simp_all add: demo_sb_def demo_inode_def)
  obtain tot s' L' where w: "writei 0 (Loc 0) 3 (length ?bs) ?s = Some (Ok (int tot, s'))" "writei_post ?s {} 0 3 ?bs tot s' L'"
    using writei_writes_file [OF demo_file_txn [of 5 ?d 2 of_nat] typed src _ _ sizes(1), of 3] sizes(2) by auto
  have "length ?bs = 4" "take 3 [10, 11, 12, 13, 14] = [10, 11, 12 :: u8]" "itable ?s 0 = demo_inode 2 5" by simp_all
  note 1 = w(2) [unfolded writei_post_def write_ends_def this d]
  show ?thesis using w(1) [unfolded \<open>length ?bs = 4\<close>] 1 by blast
qed

end
