(* ===== verification/Fs_Dir.thy ===== *)
theory Fs_Dir
  imports Fs_Correct
begin

text \<open>
  A directory as a map from names to inode numbers: \<open>dirlookup\<close> of kernel/fs.c is the application of
  the map and \<open>dirlink\<close> its update, on the entries of 16 bytes that the directory file holds.
\<close>

section \<open>The entries of a directory\<close>

definition ent_inum :: "u8 list \<Rightarrow> nat \<Rightarrow> nat" where
  "ent_inum bs i = de_inum (\<lambda>j. bs ! (DIRENT_SIZE * i + j))"

definition ent_name :: "u8 list \<Rightarrow> nat \<Rightarrow> u8 list" where
  "ent_name bs i = cstr (\<lambda>j. bs ! (DIRENT_SIZE * i + 2 + j)) DIRSIZ"

text \<open>Names agree when the bytes before their ends, at most \<open>DIRSIZ\<close> of them, do.\<close>

definition dname :: "u8 list \<Rightarrow> u8 list" where
  "dname name = takeWhile (\<lambda>c. c \<noteq> 0) (take DIRSIZ name)"

definition ent_is :: "u8 list \<Rightarrow> u8 list \<Rightarrow> nat \<Rightarrow> bool" where
  "ent_is bs nm i \<longleftrightarrow> ent_inum bs i \<noteq> 0 \<and> ent_name bs i = nm"

definition dir_of :: "u8 list \<Rightarrow> u8 list \<rightharpoonup> nat" where
  "dir_of bs nm = map_option (ent_inum bs) (find (ent_is bs nm) [0..<length bs div DIRENT_SIZE])"

lemma cstr_cstr_at: "cstr (cstr_at name) n = takeWhile (\<lambda>c. c \<noteq> 0) (take n name)"
proof (induction n arbitrary: name)
  case (Suc n)
  have "(\<lambda>i. cstr_at (x # xs) (Suc i)) = cstr_at xs" for x xs by (auto simp: cstr_at_def)
  then show ?case by (cases name) (auto simp: cstr_Suc Suc.IH cstr_at_def)
qed simp

lemma cstr_dname: "cstr (cstr_at name) DIRSIZ = dname name"
  by (simp only: cstr_cstr_at dname_def)

lemma namecmp_iff: "namecmp name t = 0 \<longleftrightarrow> cstr t DIRSIZ = dname name"
  unfolding namecmp_def strncmp_0_iff cstr_dname by (rule eq_commute)

lemma find_snoc: "find P (xs @ [x]) = (case find P xs of Some y \<Rightarrow> Some y | None \<Rightarrow> if P x then Some x else None)"
  by (induction xs) auto

lemma find_only:
  assumes "x \<in> set xs" "P x" "\<And>y. y \<in> set xs \<Longrightarrow> P y \<Longrightarrow> y = x"
  shows "find P xs = Some x"
  using assms
proof (induction xs)
  case (Cons a xs)
  show ?case
  proof (cases "P a")
    case True
    then have "a = x" using Cons.prems(3) [of a] by simp
    then show ?thesis using True by simp
  next
    case False
    then have "x \<in> set xs" using Cons.prems(1,2) by auto
    from Cons.IH [OF this Cons.prems(2)] have "find P xs = Some x" using Cons.prems(3) list.set_intros(2) by metis
    then show ?thesis using False by simp
  qed
qed simp

lemma find_cong_on: "(\<And>x. x \<in> set xs \<Longrightarrow> P x = Q x) \<Longrightarrow> find P xs = find Q xs"
  by (induction xs) auto

section \<open>Writing an entry\<close>

definition put_ent :: "u8 list \<Rightarrow> nat \<Rightarrow> u8 list \<Rightarrow> u8 list" where
  "put_ent bs i e = take (DIRENT_SIZE * i) bs @ e @ drop (DIRENT_SIZE * i + DIRENT_SIZE) bs"

lemma put_ent_nth:
  assumes "length e = 16" "16 * i \<le> length bs" "j < max (length bs) (16 * i + 16)"
  shows "put_ent bs i e ! j = (if 16 * i \<le> j \<and> j < 16 * i + 16 then e ! (j - 16 * i) else bs ! j)"
  using assms by (auto simp: put_ent_def nth_append)

lemma put_ent_length: "length e = 16 \<Longrightarrow> 16 * i \<le> length bs \<Longrightarrow> length (put_ent bs i e) = max (length bs) (16 * i + 16)"
  by (simp add: put_ent_def)

lemma put_ent_other:
  assumes "length e = 16" "i \<le> length bs div 16" "j < length bs div 16" "j \<noteq> i"
  shows "ent_inum (put_ent bs i e) j = ent_inum bs j" "ent_name (put_ent bs i e) j = ent_name bs j"
proof -
  have eq: "put_ent bs i e ! (16 * j + k) = bs ! (16 * j + k)" if "k < 16" for k
  proof -
    have "16 * i \<le> length bs" "16 * j + k < length bs" using assms(2,3) that by linarith+
    moreover have "\<not> (16 * i \<le> 16 * j + k \<and> 16 * j + k < 16 * i + 16)" using assms(4) that by linarith
    ultimately show ?thesis using assms(1) by (subst put_ent_nth) auto
  qed
  show "ent_inum (put_ent bs i e) j = ent_inum bs j"
    using eq [of 0] eq [of 1] by (simp add: ent_inum_def de_inum_def ld_le_def)
  show "ent_name (put_ent bs i e) j = ent_name bs j"
    unfolding ent_name_def using eq [of "2 + k" for k] by (intro cstr_cong) (simp add: add.assoc)
qed

lemma put_ent_here:
  assumes "length e = 16" "i \<le> length bs div 16"
  shows "ent_inum (put_ent bs i e) i = ent_inum e 0" "ent_name (put_ent bs i e) i = ent_name e 0"
proof -
  have eq: "put_ent bs i e ! (16 * i + k) = e ! k" if "k < 16" for k
  proof -
    have "16 * i \<le> length bs" using assms(2) by linarith
    then show ?thesis using assms(1) that by (subst put_ent_nth) auto
  qed
  show "ent_inum (put_ent bs i e) i = ent_inum e 0" using eq [of 0] eq [of 1] by (simp add: ent_inum_def de_inum_def ld_le_def)
  show "ent_name (put_ent bs i e) i = ent_name e 0"
    unfolding ent_name_def using eq [of "2 + k" for k] by (intro cstr_cong) (simp add: add.assoc)
qed

lemma dir_of_put:
  assumes e: "length e = 16" "ent_inum e 0 = n" "n \<noteq> 0" "ent_name e 0 = nm"
    and i: "16 dvd length bs" "i \<le> length bs div 16" "i < length bs div 16 \<longrightarrow> ent_inum bs i = 0" and new: "dir_of bs nm = None"
  shows "dir_of (put_ent bs i e) = (dir_of bs)(nm \<mapsto> n)"
proof
  fix x
  let ?k = "length bs div 16" and ?bs = "put_ent bs i e"
  let ?k' = "length ?bs div 16"
  have k': "?k' = max ?k (i + 1)"
  proof -
    have "16 * i \<le> length bs" using i(2) by linarith
    then have "length ?bs = 16 * max ?k (i + 1)" using put_ent_length [OF e(1)] i(1) by (auto simp: max_def)
    then show ?thesis by simp
  qed
  note here = put_ent_here [OF e(1) i(2)] and other = put_ent_other [OF e(1) i(2)]
  have same: "ent_is ?bs x j = ent_is bs x j" if "j < ?k" "j \<noteq> i" for j using other [OF that] by (simp add: ent_is_def)
  have isi: "ent_is ?bs x i \<longleftrightarrow> x = nm" using here e by (auto simp: ent_is_def)
  show "dir_of ?bs x = ((dir_of bs)(nm \<mapsto> n)) x"
  proof (cases "x = nm")
    case True
    have "\<not> ent_is bs x j" if "j < ?k" for j using new that True by (auto simp: dir_of_def find_None_iff)
    then have "j = i" if "j < ?k'" "ent_is ?bs x j" for j using same [of j] that k' i(2) by (cases "j < ?k") auto
    moreover have "i < ?k'" using k' by simp
    ultimately have "find (ent_is ?bs x) [0..<?k'] = Some i" using isi True by (intro find_only) simp_all
    then show ?thesis using True here(1) e(2) by (simp add: dir_of_def)
  next
    case False
    have no: "\<not> ent_is ?bs x i" using isi False by simp
    have "i < ?k \<Longrightarrow> \<not> ent_is bs x i" using i(3) by (simp add: ent_is_def)
    then have "ent_is ?bs x j = ent_is bs x j" if "j < ?k" for j using same [OF that] no that by (cases "j = i") simp_all
    then have eq: "find (ent_is ?bs x) [0..<?k] = find (ent_is bs x) [0..<?k]" by (intro find_cong_on) simp
    have f: "find (ent_is ?bs x) [0..<?k'] = find (ent_is bs x) [0..<?k]"
    proof (cases "i < ?k")
      case True
      then have "?k' = ?k" using k' by simp
      then show ?thesis using eq by simp
    next
      case False
      then have "i = ?k" "?k' = Suc ?k" using i(2) k' by simp_all
      then show ?thesis using eq no by (simp add: find_snoc split: option.split)
    qed
    have "ent_inum ?bs j = ent_inum bs j" if "find (ent_is bs x) [0..<?k] = Some j" for j
    proof -
      have "j < ?k" "ent_is bs x j" using that by (auto simp: find_Some_iff)
      then show ?thesis using other(1) [of j] i(3) by (cases "j = i") (simp_all add: ent_is_def)
    qed
    then show ?thesis using False f by (cases "find (ent_is bs x) [0..<?k]") (simp_all add: dir_of_def)
  qed
qed

section \<open>Looking through a directory\<close>

definition scans :: "kst \<Rightarrow> nat set \<Rightarrow> kst \<Rightarrow> bool" where
  "scans s L s' \<longleftrightarrow> txn s' L {} \<and> vol s' = vol s \<and> estep s s' \<and> mm s' = mm s"

lemma scans_trans: "scans s L s1 \<Longrightarrow> scans s1 L s2 \<Longrightarrow> scans s L s2"
  unfolding scans_def using estep_trans by auto

lemma scans_kst:
  assumes "scans s L s'"
  shows "txn s' L {}" "vol s' = vol s" "itable s' = itable s" "sb s' = sb s" "lg_dev s' = lg_dev s"
  using assms estep_kst [of s s'] by (simp_all add: scans_def)

text \<open>A directory that can be looked through.\<close>

definition dir_ok :: "kst \<Rightarrow> nat set \<Rightarrow> nat \<Rightarrow> bool" where
  "dir_ok s L dp \<longleftrightarrow> txn s L {} \<and> card L < 30 \<and> i_dev (itable s dp) = lg_dev s \<and> file_ok (vol s) (sb s) (itable s dp) \<and>
     DIRENT_SIZE dvd i_size (itable s dp)"

abbreviation dir_bytes :: "kst \<Rightarrow> nat \<Rightarrow> u8 list" where
  "dir_bytes s dp \<equiv> fdata (vol s) (itable s dp)"

lemma dir_ok_scans: "dir_ok s L dp \<Longrightarrow> scans s L s' \<Longrightarrow> dir_ok s' L dp"
  using scans_kst [of s L s'] by (simp add: dir_ok_def)

lemma one_chunk:
  assumes "length bs = 16"
  shows "chunks (16 * i) bs = [bs]"
proof -
  have "16 * i mod 1024 = 16 * (i mod 64)" by (simp add: mult_mod_right [of 16 i 64, simplified])
  moreover have "i mod 64 \<le> 63" using mod_less_divisor [of 64 i] by linarith
  ultimately have "16 \<le> 1024 - 16 * i mod 1024" by linarith
  then have "min (length bs) (BSIZE - 16 * i mod BSIZE) = 16" using assms by simp
  then show ?thesis using assms by (subst chunks_Cons) (auto simp: chunks.simps)
qed

lemma readi_dirent:
  assumes d: "dir_ok s L dp" and i: "i < length (dir_bytes s dp) div DIRENT_SIZE"
  shows "\<exists>s'. readi dp (Loc 0) (DIRENT_SIZE * i) DIRENT_SIZE s = Some (Ok (int DIRENT_SIZE, s')) \<and> scans s L s' \<and>
    de_inum (lbuf s') = ent_inum (dir_bytes s dp) i \<and> cstr (de_name (lbuf s')) DIRSIZ = ent_name (dir_bytes s dp) i"
proof -
  let ?bs = "dir_bytes s dp"
  let ?e = "take 16 (drop (16 * i) ?bs)"
  let ?s1 = "s\<lparr>lbuf := put_bytes 0 ?e (lbuf s)\<rparr>"
  have D: "txn s L {}" "card L < 30" "i_dev (itable s dp) = lg_dev s" "file_ok (vol s) (sb s) (itable s dp)" using d by (simp_all add: dir_ok_def)
  have l: "16 * i + 16 \<le> length ?bs" using i by simp
  then have le: "length ?e = 16" by simp
  have "length ?bs \<le> 274432" using file_okD(5) [OF D(4)] by (simp add: fdata_def)
  then have w: "16 * i + 16 < 2 ^ 32" using l by simp
  have c: "copy_chunks (Loc 0) (chunks (16 * i) ?e) s = Some (Ok (0, ?s1))"
    unfolding one_chunk [OF le] by (simp add: bindA_def ret_def upd_def doM_def)
  obtain s' where s': "readi dp (Loc 0) (16 * i) 16 s = Some (Ok (16, s'))" "txn s' L {}" "vol s' = vol s" "estep s s'"
    "mm s' = mm ?s1" "lbuf s' = lbuf ?s1"
    using readi_wp [OF D w c] unfolding le by (auto simp: wp_def)
  have eq: "lbuf s' k = ?bs ! (16 * i + k)" if "k < 16" for k using s'(6) that l le by (simp add: put_bytes_def)
  have "de_inum (lbuf s') = ent_inum ?bs i" using eq [of 0] eq [of 1] by (simp add: ent_inum_def de_inum_def ld_le_def)
  moreover have "cstr (de_name (lbuf s')) DIRSIZ = ent_name ?bs i"
    unfolding ent_name_def using eq [of "2 + k" for k] by (intro cstr_cong) (simp add: de_name_def add.assoc)
  ultimately show ?thesis using s' by (simp add: scans_def)
qed

lemma find_upt: "i < n \<Longrightarrow> find P [i..<n] = (if P i then Some i else find P [Suc i..<n])"
  by (simp add: upt_conv_Cons)

lemma dirlookup_loop_finds:
  assumes "dir_ok s L dp" "i \<le> length (dir_bytes s dp) div DIRENT_SIZE" "sz = length (dir_bytes s dp)"
  shows "\<exists>s'. scans s L s' \<and> dirlookup_loop dp name sz (DIRENT_SIZE * i) s =
    (case find (ent_is (dir_bytes s dp) (dname name)) [i..<length (dir_bytes s dp) div DIRENT_SIZE] of
       None \<Rightarrow> Some (Ok (None, s'))
     | Some j \<Rightarrow> bindA (iget (lg_dev s) (ent_inum (dir_bytes s dp) j)) (\<lambda>ip. ret (Some (DIRENT_SIZE * j, ip))) s')"
  using assms
proof (induction "length (dir_bytes s dp) div DIRENT_SIZE - i" arbitrary: i s)
  case 0
  then have "sz = 16 * i" by (auto simp: dir_ok_def fdata_def)
  then show ?case using 0 by (intro exI [of _ s]) (subst dirlookup_loop.simps, simp add: scans_def dir_ok_def ret_def same_env_estep)
next
  case (Suc k)
  let ?bs = "dir_bytes s dp"
  let ?n = "length ?bs div 16"
  have i: "i < ?n" "16 * i < sz" using Suc.hyps(2) Suc.prems(3) by simp_all
  obtain s1 where s1: "readi dp (Loc 0) (16 * i) 16 s = Some (Ok (16, s1))" "scans s L s1" "de_inum (lbuf s1) = ent_inum ?bs i"
    "cstr (de_name (lbuf s1)) DIRSIZ = ent_name ?bs i"
    using readi_dirent [OF Suc.prems(1), of i] i(1) by auto
  note k = scans_kst [OF s1(2)]
  have m: "de_inum (lbuf s1) \<noteq> 0 \<and> namecmp name (de_name (lbuf s1)) = 0 \<longleftrightarrow> ent_is ?bs (dname name) i"
    using s1(3,4) namecmp_iff by (simp only: ent_is_def)
  show ?case
  proof (cases "ent_is ?bs (dname name) i")
    case True
    then have "dirlookup_loop dp name sz (16 * i) s = bindA (iget (lg_dev s) (ent_inum ?bs i)) (\<lambda>ip. ret (Some (16 * i, ip))) s1"
      using i(2) s1(1) m s1(3) Suc.prems(1) k(3) by (subst dirlookup_loop.simps) (simp add: bindA_def get_def dir_ok_def)
    then show ?thesis using s1(2) True i(1) by (simp add: find_upt) blast
  next
    case False
    have bs: "dir_bytes s1 dp = ?bs" using k by simp
    have "k = ?n - Suc i" "Suc i \<le> ?n" using Suc.hyps(2) by simp_all
    note IH = Suc.hyps(1) [of s1 "Suc i", unfolded bs k(5) fs_sizes, OF this(1) dir_ok_scans [OF Suc.prems(1) s1(2)] this(2) Suc.prems(3)]
    obtain s' where "scans s1 L s'" "dirlookup_loop dp name sz (16 * Suc i) s1 =
      (case find (ent_is ?bs (dname name)) [Suc i..<?n] of None \<Rightarrow> Some (Ok (None, s'))
       | Some j \<Rightarrow> bindA (iget (lg_dev s) (ent_inum ?bs j)) (\<lambda>ip. ret (Some (16 * j, ip))) s')"
      using IH by blast
    moreover have "dirlookup_loop dp name sz (16 * i) s = dirlookup_loop dp name sz (16 * Suc i) s1"
      using i(2) s1(1) m False
      by (subst dirlookup_loop.simps) (cases "de_inum (lbuf s1) = 0", simp_all add: bindA_def get_def add.commute)
    moreover have "find (ent_is ?bs (dname name)) [i..<?n] = find (ent_is ?bs (dname name)) [Suc i..<?n]" using False i(1) by (simp only: find_upt if_False)
    ultimately show ?thesis unfolding fs_sizes using scans_trans [OF s1(2)] by (intro exI [of _ s']) simp
  qed
qed

lemma free_dirent_finds:
  assumes "dir_ok s L dp" "i \<le> length (dir_bytes s dp) div DIRENT_SIZE" "sz = length (dir_bytes s dp)"
  shows "\<exists>s' j. scans s L s' \<and> free_dirent dp sz (DIRENT_SIZE * i) s = Some (Ok (DIRENT_SIZE * j, s')) \<and>
    j \<le> length (dir_bytes s dp) div DIRENT_SIZE \<and> (j < length (dir_bytes s dp) div DIRENT_SIZE \<longrightarrow> ent_inum (dir_bytes s dp) j = 0)"
  using assms
proof (induction "length (dir_bytes s dp) div DIRENT_SIZE - i" arbitrary: i s)
  case 0
  then have "sz = 16 * i" by (auto simp: dir_ok_def fdata_def)
  then show ?case
    using 0 by (intro exI [of _ s] exI [of _ i]) (subst free_dirent.simps, simp add: scans_def dir_ok_def ret_def same_env_estep)
next
  case (Suc k)
  let ?bs = "dir_bytes s dp"
  let ?n = "length ?bs div 16"
  have i: "i < ?n" "16 * i < sz" using Suc.hyps(2) Suc.prems(3) by simp_all
  obtain s1 where s1: "readi dp (Loc 0) (16 * i) 16 s = Some (Ok (16, s1))" "scans s L s1" "de_inum (lbuf s1) = ent_inum ?bs i"
    using readi_dirent [OF Suc.prems(1), of i] i(1) by auto
  note k = scans_kst [OF s1(2)]
  show ?case
  proof (cases "ent_inum ?bs i = 0")
    case True
    then have "free_dirent dp sz (16 * i) s = Some (Ok (16 * i, s1))"
      using i(2) s1(1,3) by (subst free_dirent.simps) (simp add: bindA_def get_def ret_def)
    then show ?thesis using s1(2) True i(1) by auto
  next
    case False
    have bs: "dir_bytes s1 dp = ?bs" using k by simp
    have "k = ?n - Suc i" "Suc i \<le> ?n" using Suc.hyps(2) by simp_all
    note IH = Suc.hyps(1) [of s1 "Suc i", unfolded bs fs_sizes, OF this(1) dir_ok_scans [OF Suc.prems(1) s1(2)] this(2) Suc.prems(3)]
    obtain s' j where "scans s1 L s'" "free_dirent dp sz (16 * Suc i) s1 = Some (Ok (16 * j, s'))" "j \<le> ?n" "j < ?n \<longrightarrow> ent_inum ?bs j = 0"
      using IH by blast
    moreover have "free_dirent dp sz (16 * i) s = free_dirent dp sz (16 * Suc i) s1"
      using i(2) s1(1,3) False by (subst free_dirent.simps) (simp add: bindA_def get_def add.commute)
    ultimately show ?thesis using scans_trans [OF s1(2)] by auto
  qed
qed

section \<open>Inodes of the table\<close>

text \<open>What \<open>iget\<close> does to the table: one more reference, or the inode in a free entry.\<close>

definition iget_entry :: "nat \<Rightarrow> nat \<Rightarrow> inode \<Rightarrow> inode \<Rightarrow> bool" where
  "iget_entry dev n x y \<longleftrightarrow>
     i_ref x > 0 \<and> i_dev x = dev \<and> i_inum x = n \<and> y = x\<lparr>i_ref := i_ref x + 1\<rparr> \<or>
     i_ref x = 0 \<and> y = x\<lparr>i_dev := dev, i_inum := n, i_ref := 1, i_valid := False\<rparr>"

lemma iget_gets:
  assumes "\<exists>i<NINODE. i_ref (itable s i) = 0"
  shows "\<exists>ip<NINODE. \<exists>y. iget dev n s = Some (Ok (ip, s\<lparr>itable := (itable s)(ip := y)\<rparr>)) \<and> iget_entry dev n (itable s ip) y"
proof -
  let ?P = "\<lambda>i. i_ref (itable s i) > 0 \<and> i_dev (itable s i) = dev \<and> i_inum (itable s i) = n" and ?F = "\<lambda>i. i_ref (itable s i) = 0"
  show ?thesis
  proof (cases "find ?P [0..<NINODE]")
    case (Some ip)
    then have "ip < NINODE" "?P ip" by (auto simp: find_Some_iff)
    moreover have "iget dev n s = Some (Ok (ip, s\<lparr>itable := (itable s)(ip := (itable s ip)\<lparr>i_ref := i_ref (itable s ip) + 1\<rparr>)\<rparr>))"
      using Some by (simp add: iget_def bindA_def get_def doM_def upd_def ret_def set_inode_def)
    ultimately show ?thesis by (auto simp: iget_entry_def)
  next
    case None
    obtain ip where ip: "find ?F [0..<NINODE] = Some ip"
      using assms by (cases "find ?F [0..<NINODE]") (auto simp: find_None_iff)
    then have "ip < NINODE" "?F ip" by (auto simp: find_Some_iff)
    moreover have "iget dev n s = Some (Ok (ip, s\<lparr>itable := (itable s)(ip :=
        (itable s ip)\<lparr>i_dev := dev, i_inum := n, i_ref := 1, i_valid := False\<rparr>)\<rparr>))"
      using None ip by (simp add: iget_def bindA_def get_def doM_def upd_def ret_def set_inode_def)
    ultimately show ?thesis by (auto simp: iget_entry_def)
  qed
qed

lemma iput_after_iget:
  assumes "iget_entry dev n x y" "itable s ip = y"
  shows "iput ip s = Some (Ok ((), s\<lparr>itable := (itable s)(ip := y\<lparr>i_ref := i_ref y - 1\<rparr>)\<rparr>))"
  using assms by (auto simp: iput_def iget_entry_def bindA_def get_def doM_def upd_def ret_def set_inode_def)

section \<open>A new entry\<close>

lemma takeWhile_take_takeWhile: "takeWhile P (take n (takeWhile P xs)) = takeWhile P (take n xs)"
proof (induction xs arbitrary: n)
  case (Cons x xs)
  then show ?case by (cases n) auto
qed simp

lemma make_dirent_entry:
  assumes "n < 2 ^ 16"
  shows "ent_inum (bytes_at (make_dirent name n l) 0 DIRENT_SIZE) 0 = n" "ent_name (bytes_at (make_dirent name n l) 0 DIRENT_SIZE) 0 = dname name"
proof -
  let ?m = "make_dirent name n l"
  have nth: "bytes_at ?m 0 DIRENT_SIZE ! j = ?m j" if "j < 16" for j using that by (simp add: bytes_at_def)
  have "de_inum ?m = n" using assms by (simp add: de_inum_def make_dirent_def ld_st_same)
  then show "ent_inum (bytes_at ?m 0 DIRENT_SIZE) 0 = n"
    using nth [of 0] nth [of 1] by (simp add: ent_inum_def de_inum_def ld_le_def)
  have "bytes_at ?m 0 DIRENT_SIZE ! (DIRENT_SIZE * 0 + 2 + j) = cstr_at (takeWhile (\<lambda>b. b \<noteq> 0) name) j" if "j < DIRSIZ" for j
    using that nth [of "2 + j"] by (simp add: make_dirent_def put_bytes_def st_le_outside)
  then have "ent_name (bytes_at ?m 0 DIRENT_SIZE) 0 = cstr (cstr_at (takeWhile (\<lambda>b. b \<noteq> 0) name)) DIRSIZ"
    unfolding ent_name_def by (intro cstr_cong) blast
  also have "\<dots> = dname name" unfolding cstr_cstr_at dname_def by (rule takeWhile_take_takeWhile)
  finally show "ent_name (bytes_at ?m 0 DIRENT_SIZE) 0 = dname name" .
qed

lemma dirlookup_finds:
  assumes "dir_ok s L dp" "i_type (itable s dp) = T_DIR"
  shows "\<exists>s'. scans s L s' \<and> dirlookup dp name s =
    (case find (ent_is (dir_bytes s dp) (dname name)) [0..<length (dir_bytes s dp) div DIRENT_SIZE] of
       None \<Rightarrow> Some (Ok (None, s'))
     | Some j \<Rightarrow> bindA (iget (lg_dev s) (ent_inum (dir_bytes s dp) j)) (\<lambda>ip. ret (Some (DIRENT_SIZE * j, ip))) s')"
proof -
  have "dirlookup dp name s = dirlookup_loop dp name (length (dir_bytes s dp)) 0 s"
    using assms(2) by (simp add: dirlookup_def bindA_def get_def fdata_def)
  then show ?thesis using dirlookup_loop_finds [OF assms(1) le0 refl, of name] by simp
qed

text \<open>
  (C32) \<open>dirlookup\<close> applies the map that the directory is: for a name that the map does not have it
  returns 0; for one that has the inode number \<open>n\<close> it returns an entry of the inode table with this
  number on the device of the directory, and the offset of a directory entry that has the name
  and the number, provided the inode table is not full. The volume, the log, and all other inodes in
  the table are unchanged, and no buffer stays in use.
\<close>

theorem dirlookup_applies_map:
  assumes d: "dir_ok s L dp" "i_type (itable s dp) = T_DIR" and room: "\<exists>i<NINODE. i_ref (itable s i) = 0"
  shows "\<exists>s'. vol s' = vol s \<and> txn s' L {} \<and>
    (case dir_of (dir_bytes s dp) (dname name) of
       None \<Rightarrow> dirlookup dp name s = Some (Ok (None, s')) \<and> itable s' = itable s
     | Some n \<Rightarrow> \<exists>i ip y. dirlookup dp name s = Some (Ok (Some (DIRENT_SIZE * i, ip), s')) \<and>
         i < length (dir_bytes s dp) div DIRENT_SIZE \<and> ent_inum (dir_bytes s dp) i = n \<and> ent_name (dir_bytes s dp) i = dname name \<and>
         ip < NINODE \<and> itable s' = (itable s)(ip := y) \<and> iget_entry (lg_dev s) n (itable s ip) y)"
proof -
  let ?bs = "dir_bytes s dp"
  obtain s1 where s1: "scans s L s1" and l: "dirlookup dp name s =
    (case find (ent_is ?bs (dname name)) [0..<length ?bs div DIRENT_SIZE] of
       None \<Rightarrow> Some (Ok (None, s1))
     | Some j \<Rightarrow> bindA (iget (lg_dev s) (ent_inum ?bs j)) (\<lambda>ip. ret (Some (DIRENT_SIZE * j, ip))) s1)"
    using dirlookup_finds [OF d] by blast
  note k = scans_kst [OF s1]
  show ?thesis
  proof (cases "find (ent_is ?bs (dname name)) [0..<length ?bs div DIRENT_SIZE]")
    case None
    then show ?thesis using l k by (intro exI [of _ s1]) (simp add: dir_of_def)
  next
    case (Some j)
    then have j: "j < length ?bs div DIRENT_SIZE" "ent_name ?bs j = dname name" by (auto simp: find_Some_iff ent_is_def)
    have "\<exists>i<NINODE. i_ref (itable s1 i) = 0" using room k(3) by simp
    then obtain ip y where g: "ip < NINODE" "iget (lg_dev s) (ent_inum ?bs j) s1 = Some (Ok (ip, s1\<lparr>itable := (itable s1)(ip := y)\<rparr>))"
      "iget_entry (lg_dev s) (ent_inum ?bs j) (itable s1 ip) y"
      using iget_gets by blast
    then have "dirlookup dp name s = Some (Ok (Some (DIRENT_SIZE * j, ip), s1\<lparr>itable := (itable s1)(ip := y)\<rparr>))"
      unfolding l Some by (simp add: bindA_def ret_def)
    then show ?thesis
      using Some j g k by (intro exI [of _ "s1\<lparr>itable := (itable s1)(ip := y)\<rparr>"]) (auto simp: dir_of_def)
  qed
qed

section \<open>Linking\<close>

lemma scans_lbuf: "txn s L {} \<Longrightarrow> scans s L (s\<lparr>lbuf := l\<rparr>)"
  using env_frame [where s = s and m = "mm s" and l = l] estep_set [where s = s and m = "mm s" and l = l] by (simp add: scans_def)

lemma scans_file_txn: "file_txn s L {} dp \<Longrightarrow> scans s L s' \<Longrightarrow> file_txn s' L {} dp"
  using estep_kst [of s s'] by (simp add: scans_def file_txn_def fs_txn_def)

lemma writei_too_long:
  assumes "n < 2 ^ 31" "off < 2 ^ 31" "MAXFILE * BSIZE < off + n"
  shows "writei ip src off n s = Some (Ok (-1, s))"
proof -
  have "add32 off n = off + n" using assms by (simp add: add32_def)
  then show ?thesis using assms by (simp add: writei_def bindA_def get_def ret_def)
qed

text \<open>What the link of an entry leaves alone, the directory itself apart.\<close>

definition link_frame :: "kst \<Rightarrow> nat set \<Rightarrow> nat \<Rightarrow> kst \<Rightarrow> nat set \<Rightarrow> bool" where
  "link_frame s L dp s' L' \<longleftrightarrow> file_txn s' L' {} dp \<and> L \<subseteq> L' \<and> card L' \<le> card L + sb_size (sb s) div BPB + 5 \<and>
     DIRENT_SIZE dvd i_size (itable s' dp) \<and> i_type (itable s' dp) = i_type (itable s dp) \<and> (\<forall>i. i \<noteq> dp \<longrightarrow> itable s' i = itable s i) \<and>
     (\<forall>k < sb_size (sb s). in_use (vol s) (sb s) k \<longrightarrow> in_use (vol s') (sb s) k \<and>
        (k \<in> bmap_blocks (sb s) \<or> k \<in> own (vol s) (itable s dp) \<or> k = inode_block s dp \<or> vol s' k = vol s k))"

lemma link_entry:
  assumes f: "file_txn s L {} dp" and n: "i_inum (itable s dp) < sb_ninodes (sb s)" "inode_typed (itable s dp)"
    and d: "DIRENT_SIZE dvd i_size (itable s dp)" and c: "card L + sb_size (sb s) div BPB \<le> 22"
    and j: "j \<le> length (dir_bytes s dp) div DIRENT_SIZE"
    and e: "e = bytes_at (lbuf s) 0 DIRENT_SIZE"
  shows "\<exists>w s' L'. writei dp (Loc 0) (DIRENT_SIZE * j) DIRENT_SIZE s = Some (Ok (w, s')) \<and> link_frame s L dp s' L' \<and>
    (if w = int DIRENT_SIZE then dir_bytes s' dp = put_ent (dir_bytes s dp) j e
     else dir_bytes s' dp = dir_bytes s dp \<and> (disk_full (vol s') (sb s) \<or> i_size (itable s dp) = MAXFILE * BSIZE))"
proof -
  let ?bs = "dir_bytes s dp" and ?x = "itable s dp"
  have len: "length ?bs = i_size ?x" by (simp add: fdata_def)
  have fin: "finite L" using f fs_txnD(8) by (auto simp: file_txn_def)
  have jl: "16 * j \<le> i_size ?x" using j len by simp
  have mx: "i_size ?x \<le> 274432" using f file_okD(5) by (force simp: file_txn_def)
  show ?thesis
  proof (cases "16 * j + 16 \<le> 274432")
    case False
    then have "i_size ?x = 274432" using jl mx d by simp
    moreover have "writei dp (Loc 0) (16 * j) 16 s = Some (Ok (-1, s))" using False jl mx by (intro writei_too_long) simp_all
    moreover have "link_frame s L dp s L" using f d by (simp add: link_frame_def)
    ultimately show ?thesis by (intro exI [of _ "-1"] exI [of _ s] exI [of _ L]) simp
  next
    case True
    have le: "length e = 16" using e by (simp add: bytes_at_def)
    have src: "supplies (Loc 0) e s" unfolding e by (rule supplies_Loc)
    obtain tot s' L' where w: "writei dp (Loc 0) (16 * j) 16 s = Some (Ok (int tot, s'))" and p: "writei_post s L dp (16 * j) e tot s' L'"
      using writei_wp [OF f n src, of "16 * j"] jl True c le by (auto simp: wp_def)
    have t: "write_ends s' (16 * j) 16 tot" and data: "dir_bytes s' dp = take (16 * j) ?bs @ take tot e @ drop (16 * j + tot) ?bs"
      and sb: "sb s' = sb s" and fx: "\<exists>a. itable s' dp = ?x\<lparr>i_addrs := a, i_size := max (i_size ?x) (16 * j + tot)\<rparr>"
      using p le istep_kst(4) [of s s'] unfolding writei_post_def by auto
    have tot: "tot = 16 \<or> tot = 0 \<and> disk_full (vol s') (sb s)"
    proof (cases "tot < 16")
      case True
      then have "tot = 0 \<or> (16 * j + tot) mod 1024 = 0" "disk_full (vol s') (sb s)" using t sb by (auto simp: write_ends_def)
      moreover have "tot = 0" if "(16 * j + tot) mod 1024 = 0"
      proof -
        have "16 * 64 dvd 16 * j + tot" using that by (simp add: dvd_eq_mod_eq_0)
        then have "16 dvd 16 * j + tot" by (rule dvd_mult_left)
        then have "16 dvd tot" by (simp add: dvd_add_right_iff)
        then show ?thesis using True nat_dvd_not_less [of tot 16] by blast
      qed
      ultimately show ?thesis by auto
    qed (use t in \<open>auto simp: write_ends_def\<close>)
    have "DIRENT_SIZE dvd i_size (itable s' dp)" "i_type (itable s' dp) = i_type ?x" using fx tot d by (auto simp: max_def)
    moreover have "itable s' i = itable s i" if "i \<noteq> dp" for i using p that unfolding writei_post_def by (metis fun_upd_other)
    ultimately have "link_frame s L dp s' L'"
      using p le unfolding writei_post_def link_frame_def by auto
    then show ?thesis using w tot data le by (intro exI [of _ "int tot"] exI [of _ s'] exI [of _ L']) (auto simp: put_ent_def)
  qed
qed

lemma link_frame_scans: "scans s L s1 \<Longrightarrow> link_frame s1 L dp s' L' = link_frame s L dp s' L'"
  using scans_kst [of s L s1] by (simp add: link_frame_def inode_block_def)

lemma dirlink_new:
  assumes f: "file_txn s L {} dp" and n: "i_inum (itable s dp) < sb_ninodes (sb s)" "inode_typed (itable s dp)"
    and d: "i_type (itable s dp) = T_DIR" "DIRENT_SIZE dvd i_size (itable s dp)" and c: "card L + sb_size (sb s) div BPB \<le> 22"
    and new: "dir_of (dir_bytes s dp) (dname name) = None" and i: "0 < n" "n < 2 ^ 16"
  shows "\<exists>r s' L'. dirlink dp name n s = Some (Ok (r, s')) \<and> link_frame s L dp s' L' \<and>
    (if r = 0 then dir_of (dir_bytes s' dp) = (dir_of (dir_bytes s dp))(dname name \<mapsto> n)
     else r = -1 \<and> dir_bytes s' dp = dir_bytes s dp \<and> (disk_full (vol s') (sb s) \<or> i_size (itable s dp) = MAXFILE * BSIZE))"
proof -
  let ?bs = "dir_bytes s dp"
  have ok: "dir_ok s L dp" using f d(2) c fs_txnD(1) by (auto simp: dir_ok_def file_txn_def)
  obtain s1 where s1: "scans s L s1" "dirlookup dp name s = Some (Ok (None, s1))"
    using dirlookup_finds [OF ok d(1), of name] new by (auto simp: dir_of_def)
  note k1 = scans_kst [OF s1(1)]
  have bs1: "dir_bytes s1 dp = ?bs" using k1 by simp
  obtain s2 j where s2: "scans s1 L s2" "free_dirent dp (length ?bs) 0 s1 = Some (Ok (DIRENT_SIZE * j, s2))"
    "j \<le> length ?bs div DIRENT_SIZE" "j < length ?bs div DIRENT_SIZE \<longrightarrow> ent_inum ?bs j = 0"
    using free_dirent_finds [OF dir_ok_scans [OF ok s1(1)] le0 refl, unfolded bs1 mult_0_right] by blast
  note k2 = scans_kst [OF s2(1)]
  let ?s3 = "s2\<lparr>lbuf := make_dirent name n (lbuf s2)\<rparr>"
  let ?e = "bytes_at (lbuf ?s3) 0 DIRENT_SIZE"
  have s3: "scans s L ?s3" by (rule scans_trans [OF s1(1) scans_trans [OF s2(1) scans_lbuf [OF k2(1)]]])
  note k3 = scans_kst [OF s3]
  obtain w s' L' where w: "writei dp (Loc 0) (DIRENT_SIZE * j) DIRENT_SIZE ?s3 = Some (Ok (w, s'))" "link_frame s L dp s' L'"
    "if w = int DIRENT_SIZE then dir_bytes s' dp = put_ent ?bs j ?e
     else dir_bytes s' dp = ?bs \<and> (disk_full (vol s') (sb s) \<or> i_size (itable s dp) = MAXFILE * BSIZE)"
    using link_entry [OF scans_file_txn [OF f s3], unfolded k3(2-4) link_frame_scans [OF s3], OF n d(2) c s2(3) refl] by blast
  have "dirlink dp name n s = Some (Ok (if w \<noteq> int DIRENT_SIZE then -1 else 0, s'))"
    using s1(2) s2(2) w(1) k1(3) by (simp add: dirlink_def bindA_def get_def doM_def upd_def ret_def fdata_def)
  moreover have "dir_of (put_ent ?bs j ?e) = (dir_of ?bs)(dname name \<mapsto> n)"
    using make_dirent_entry [OF i(2), of name "lbuf s2"] i(1) s2(3,4) d(2) new
    by (intro dir_of_put) (simp_all add: bytes_at_def fdata_def)
  ultimately show ?thesis using w(2,3) by (intro exI [of _ "if w \<noteq> int DIRENT_SIZE then -1 else 0"] exI [of _ s'] exI [of _ L']) (auto split: if_splits)
qed

lemma dirlink_present:
  assumes ok: "dir_ok s L dp" "i_type (itable s dp) = T_DIR" and dp: "0 < i_ref (itable s dp)"
    and room: "\<exists>i<NINODE. i_ref (itable s i) = 0" and old: "dir_of (dir_bytes s dp) (dname name) \<noteq> None"
  shows "\<exists>s'. dirlink dp name n s = Some (Ok (-1, s')) \<and> vol s' = vol s \<and> txn s' L {} \<and> (\<forall>i. 0 < i_ref (itable s i) \<longrightarrow> itable s' i = itable s i)"
proof -
  let ?bs = "dir_bytes s dp"
  obtain j where j: "find (ent_is ?bs (dname name)) [0..<length ?bs div DIRENT_SIZE] = Some j" using old by (auto simp: dir_of_def)
  obtain s1 where s1: "scans s L s1" "dirlookup dp name s = bindA (iget (lg_dev s) (ent_inum ?bs j)) (\<lambda>ip. ret (Some (DIRENT_SIZE * j, ip))) s1"
    using dirlookup_finds [OF ok, of name] unfolding j option.case by blast
  note k = scans_kst [OF s1(1)]
  have "\<exists>i<NINODE. i_ref (itable s1 i) = 0" using room k(3) by simp
  then obtain ip y where g: "iget (lg_dev s) (ent_inum ?bs j) s1 = Some (Ok (ip, s1\<lparr>itable := (itable s1)(ip := y)\<rparr>))"
    "iget_entry (lg_dev s) (ent_inum ?bs j) (itable s1 ip) y"
    using iget_gets by blast
  let ?s2 = "s1\<lparr>itable := (itable s1)(ip := y)\<rparr>"
  have "iput ip ?s2 = Some (Ok ((), s1\<lparr>itable := (itable s1)(ip := y\<lparr>i_ref := i_ref y - 1\<rparr>)\<rparr>))"
    using iput_after_iget [OF g(2), of ?s2] by simp
  then have "dirlink dp name n s = Some (Ok (-1, s1\<lparr>itable := (itable s1)(ip := y\<lparr>i_ref := i_ref y - 1\<rparr>)\<rparr>))"
    using s1(2) g(1) by (simp add: dirlink_def bindA_def ret_def doM_def)
  moreover have "y\<lparr>i_ref := i_ref y - 1\<rparr> = itable s ip" if "0 < i_ref (itable s ip)" using g(2) that k(3) by (auto simp: iget_entry_def)
  ultimately show ?thesis using k by auto
qed

text \<open>
  (C33) \<open>dirlink\<close> inside a transaction updates the map that the directory is. A name that the map
  does not have is added with the inode number, in a free entry or at the end; every other name
  keeps its number, and the call returns 0. It returns -1 with the directory unchanged when the name
  is there already, or when the directory has to grow and the disk is full or the directory is as
  large as a file can be. No other file or inode is changed.
\<close>

theorem dirlink_updates_map:
  assumes f: "file_txn s L {} dp" and n: "i_inum (itable s dp) < sb_ninodes (sb s)" "inode_typed (itable s dp)"
    and d: "i_type (itable s dp) = T_DIR" "DIRENT_SIZE dvd i_size (itable s dp)" and c: "card L + sb_size (sb s) div BPB \<le> 22"
    and r: "0 < i_ref (itable s dp)" "\<exists>i<NINODE. i_ref (itable s i) = 0" and i: "0 < n" "n < 2 ^ 16"
  shows "\<exists>r s'. dirlink dp name n s = Some (Ok (r, s')) \<and>
    (case dir_of (dir_bytes s dp) (dname name) of
       None \<Rightarrow> (\<exists>L'. link_frame s L dp s' L') \<and>
         (if r = 0 then dir_of (dir_bytes s' dp) = (dir_of (dir_bytes s dp))(dname name \<mapsto> n)
          else r = -1 \<and> dir_bytes s' dp = dir_bytes s dp \<and> (disk_full (vol s') (sb s) \<or> i_size (itable s dp) = MAXFILE * BSIZE))
     | Some m \<Rightarrow> r = -1 \<and> txn s' L {} \<and> vol s' = vol s \<and> (\<forall>i. 0 < i_ref (itable s i) \<longrightarrow> itable s' i = itable s i))"
proof (cases "dir_of (dir_bytes s dp) (dname name)")
  case None
  then show ?thesis using dirlink_new [OF f n d c None i] by auto
next
  case (Some m)
  have "dir_ok s L dp" using f d(2) c fs_txnD(1) by (auto simp: dir_ok_def file_txn_def)
  from dirlink_present [OF this d(1) r, of name n] show ?thesis using Some by auto
qed

section \<open>Examples\<close>

text \<open>A directory whose only entry names the inode 5 with the letter \<open>a\<close>.\<close>

definition demo_dir :: kst where
  "demo_dir = demo_kst (\<lambda>i. if i = 0 then 5 else if i = 2 then 97 else 0) (demo_inode T_DIR DIRENT_SIZE) (\<lambda>_. 0)"

lemma demo_dir_bytes: "dir_bytes demo_dir 0 = [5, 0, 97, 0, 0, 0, 0, 0, 0, 0, 0, 0, 0, 0, 0, 0]"
  by (simp add: demo_dir_def fdata_def fbyte_def fblock_def demo_vol demo_disk_def demo_inode_def upt_rec)

lemma demo_dir_ok:
  "file_txn demo_dir {} {} 0" "dir_ok demo_dir {} 0" "i_type (itable demo_dir 0) = T_DIR" "\<exists>i<NINODE. i_ref (itable demo_dir i) = 0"
  "0 < i_ref (itable demo_dir 0)" "inode_typed (itable demo_dir 0)" "i_inum (itable demo_dir 0) < sb_ninodes (sb demo_dir)"
  "DIRENT_SIZE dvd i_size (itable demo_dir 0)" "card {} + sb_size (sb demo_dir) div BPB \<le> 22"
proof -
  show f: "file_txn demo_dir {} {} 0" unfolding demo_dir_def by (rule demo_file_txn) simp
  show i: "DIRENT_SIZE dvd i_size (itable demo_dir 0)" "i_type (itable demo_dir 0) = T_DIR" "0 < i_ref (itable demo_dir 0)"
    "i_inum (itable demo_dir 0) < sb_ninodes (sb demo_dir)" "card {} + sb_size (sb demo_dir) div BPB \<le> 22" "inode_typed (itable demo_dir 0)"
    by (simp_all add: demo_dir_def demo_inode_def demo_sb_def zero_inode_def inode_typed_def short_def T_DIR_def)
  show "\<exists>i<NINODE. i_ref (itable demo_dir i) = 0" by (rule exI [of _ 1]) (simp add: demo_dir_def zero_inode_def)
  show "dir_ok demo_dir {} 0" using f i(1) fs_txnD(1) by (auto simp: dir_ok_def file_txn_def)
qed

lemma demo_dir_of: "dir_of (dir_bytes demo_dir 0) = [[97] \<mapsto> 5]"
proof
  fix nm
  have "ent_inum (dir_bytes demo_dir 0) 0 = 5" by (simp add: demo_dir_bytes ent_inum_def de_inum_def ld_le_def)
  moreover have "ent_name (dir_bytes demo_dir 0) 0 = [97]" by (simp add: demo_dir_bytes ent_name_def cstr_def upt_rec)
  moreover have "length (dir_bytes demo_dir 0) = 16" by (simp add: demo_dir_bytes)
  ultimately show "dir_of (dir_bytes demo_dir 0) nm = [[97] \<mapsto> 5] nm" by (auto simp: dir_of_def ent_is_def)
qed

theorem dirlookup_applies_map_witness:
  "\<exists>ip s'. dirlookup 0 [97, 0, 98] demo_dir = Some (Ok (Some (0, ip), s')) \<and> i_inum (itable s' ip) = 5"
proof -
  have n: "dname [97, 0, 98] = [97]" by (simp add: dname_def)
  have "length (dir_bytes demo_dir 0) div 16 = 1" by (simp add: demo_dir_bytes)
  with dirlookup_applies_map [OF demo_dir_ok(2-4), of "[97, 0, 98]"] show ?thesis
    unfolding n demo_dir_of by (auto simp: iget_entry_def)
qed

theorem dirlink_updates_map_witness:
  "\<exists>r s'. dirlink 0 [98] 7 demo_dir = Some (Ok (r, s')) \<and>
     dir_of (dir_bytes s' 0) = (if r = 0 then [[97] \<mapsto> 5, [98] \<mapsto> 7] else [[97] \<mapsto> 5])"
proof -
  have n: "dname [98] = [98]" by (simp add: dname_def)
  have "[[97] \<mapsto> 5] [98 :: u8] = (None :: nat option)" by simp
  with dirlink_updates_map [OF demo_dir_ok(1,7,6,3,8,9,5,4), of 7 "[98]"] show ?thesis
    unfolding n demo_dir_of by (auto simp: demo_dir_of split: if_splits)
qed

end
