(* ===== verification/Proc_Base.thy ===== *)
theory Proc_Base
  imports Ucopy
begin

text \<open>
  The operations of kernel/proc.c that only touch the process table: waking up, signalling and
  killing processes. Each holds the lock of one process at a time.
\<close>

definition wake :: "kchan \<Rightarrow> proc \<Rightarrow> proc" where
  "wake ch p = (if p_state p = SLEEPING \<and> p_chan p = ch then p\<lparr>p_state := RUNNABLE\<rparr> else p)"

definition wakeup :: "kchan \<Rightarrow> unit kact" where
  "wakeup ch = upd (\<lambda>s. s\<lparr>procs := (\<lambda>i. if i < NPROC \<and> i \<noteq> cur s then wake ch (procs s i) else procs s i)\<rparr>)"

definition post_signal :: "nat \<Rightarrow> proc \<Rightarrow> proc" where
  "post_signal signum p =
     (let p1 = (if signum = SIGKILL then p\<lparr>p_killed := True\<rparr>
                else p\<lparr>p_pending := p_pending p OR push_bit signum 1\<rparr>)
      in if p_state p1 = SLEEPING then p1\<lparr>p_state := RUNNABLE\<rparr> else p1)"

definition kkill :: "int \<Rightarrow> int \<Rightarrow> int kact" where
  "kkill pid signum =
     (if signum < 0 \<or> signum \<ge> int NSIG then ret (-1)
      else bindA (get (\<lambda>s. find (\<lambda>i. p_pid (procs s i) = pid) [0..<NPROC])) (\<lambda>r.
        case r of None \<Rightarrow> ret (-1)
        | Some i \<Rightarrow> doM (upd (set_proc i (post_signal (nat signum)))) (ret 0)))"

definition init_signals :: "proc \<Rightarrow> proc" where
  "init_signals p = p\<lparr>p_pending := 0, p_sigframe_valid := False, p_sigframe := (\<lambda>_. 0),
     p_handlers := (\<lambda>_. 0), p_valid_handlers := 0\<rparr>"

definition setkilled :: "nat \<Rightarrow> unit kact" where
  "setkilled i = upd (set_proc i (\<lambda>p. p\<lparr>p_killed := True\<rparr>))"

definition killed :: "nat \<Rightarrow> bool kact" where
  "killed i = get (\<lambda>s. p_killed (procs s i))"

definition allocpid :: "int kact" where
  "allocpid = bindA (get nextpid) (\<lambda>pid. doM (upd (\<lambda>s. s\<lparr>nextpid := pid + 1\<rparr>)) (ret pid))"

end
