(* ===== verification/File.thy ===== *)
theory File
  imports Proc_Base Fs_Data
begin

text \<open>
  kernel/file.c: the table of open files and reading and writing through it, and \<open>pipealloc\<close> and
  \<open>pipeclose\<close> of kernel/pipe.c on the kernel's memory. The table of device functions \<open>devsw\<close>, which
  drivers fill in, is an argument.
\<close>

section \<open>Pipes and the process's memory\<close>

text \<open>
  A pipe copies one byte at a time. Copying byte \<open>a\<close> works exactly when copying everything from
  \<open>addr\<close> up to it works; the bytes are then moved together, with the byte whose copy fails.
\<close>

definition can_out :: "nat \<Rightarrow> kst \<Rightarrow> nat \<Rightarrow> bool" where
  "can_out addr s a =
     (let p = myproc s in
      case copyout (p_sz p) (p_pagetable p) (p_pagetable p) addr (replicate (a + 1 - addr) 0) (kmem_of s) of
        Ok (r, k) \<Rightarrow> r = 0 | Panic e \<Rightarrow> False)"

definition can_in :: "nat \<Rightarrow> kst \<Rightarrow> nat \<Rightarrow> u8 option" where
  "can_in addr s a =
     (let p = myproc s in
      case copyin (p_sz p) (p_pagetable p) (p_pagetable p) addr (a + 1 - addr) (kmem_of s) of
        Ok (bs, ok, k) \<Rightarrow> if ok then Some (last bs) else None | Panic e \<Rightarrow> None)"

primrec wakeups :: "nat \<Rightarrow> chan list \<Rightarrow> unit kact" where
  "wakeups pi [] = ret ()"
| "wakeups pi (c # cs) = doM (wakeup (Ch_pipe pi c)) (wakeups pi cs)"

definition piperead_file :: "nat \<Rightarrow> nat \<Rightarrow> int \<Rightarrow> int kact" where
  "piperead_file pi addr n =
     bindA (get (\<lambda>s. (piperead (can_out addr s) (p_killed (myproc s)) addr n (pipes s pi), pipes s pi, p_pagetable (myproc s))))
       (\<lambda>((r, ws, pi1), pi0, pt).
         case r of
           Sleep c i \<Rightarrow> blocked
         | Ret (m, bs) \<Rightarrow>
             doM (upd (\<lambda>s. s\<lparr>pipes := (pipes s)(pi := pi1)\<rparr>))
             (bindA (ucopyout pt addr (bs @ replicate (unat (nread pi1 - nread pi0) - length bs) 0)) (\<lambda>_.
               doM (wakeups pi ws) (ret m))))"

definition pipewrite_file :: "nat \<Rightarrow> nat \<Rightarrow> int \<Rightarrow> int kact" where
  "pipewrite_file pi addr n =
     bindA (get (\<lambda>s. (pipewrite (can_in addr s) (p_killed (myproc s)) addr n (pipes s pi), p_pagetable (myproc s))))
       (\<lambda>((r, ws, pi1), pt).
         case r of
           Sleep c i \<Rightarrow> blocked
         | Ret m \<Rightarrow>
             doM (upd (\<lambda>s. s\<lparr>pipes := (pipes s)(pi := pi1)\<rparr>))
             (bindA (ucopyin pt addr (if m < 0 then 0 else if m < n then nat m + 1 else nat m)) (\<lambda>_.
               doM (wakeups pi ws) (ret m))))"

definition PIPE_BYTES :: nat where "PIPE_BYTES = 552"

definition kmalloc_act :: "nat \<Rightarrow> nat kact" where
  "kmalloc_act n = (\<lambda>s. Some (bindR (kmalloc n (mm s)) (\<lambda>(p, y). Ok (p, s\<lparr>mm := y\<rparr>))))"

definition kmfree_act :: "nat \<Rightarrow> nat \<Rightarrow> unit kact" where
  "kmfree_act p n = (\<lambda>s. bindF (kmfree p n (mm s)) (\<lambda>y. Some (Ok ((), s\<lparr>mm := y\<rparr>))))"

definition pipeclose_file :: "nat \<Rightarrow> bool \<Rightarrow> unit kact" where
  "pipeclose_file pi writable =
     bindA (get (\<lambda>s. pipeclose writable (pipes s pi))) (\<lambda>(gone, ws, pi1).
       doM (upd (\<lambda>s. s\<lparr>pipes := (pipes s)(pi := pi1)\<rparr>))
       (doM (wakeups pi ws) (if gone then kmfree_act pi PIPE_BYTES else ret ())))"

section \<open>The file table\<close>

definition NDEV :: nat where "NDEV = 10"

abbreviation file_of :: "nat \<Rightarrow> (kfile \<Rightarrow> 'a) \<Rightarrow> 'a kact" where
  "file_of f g \<equiv> get (\<lambda>s. g (ftable s f))"

definition filealloc :: "nat option kact" where
  "filealloc =
     bindA (get (\<lambda>s. find (\<lambda>i. f_ref (ftable s i) = 0) [0..<NFILE])) (\<lambda>r.
       case r of None \<Rightarrow> ret None
       | Some f \<Rightarrow> doM (upd (set_file f (\<lambda>x. x\<lparr>f_ref := 1\<rparr>))) (ret (Some f)))"

definition filedup :: "nat \<Rightarrow> nat kact" where
  "filedup f =
     bindA (file_of f f_ref) (\<lambda>r.
       if r < 1 then panic ''filedup'' else doM (upd (set_file f (\<lambda>x. x\<lparr>f_ref := f_ref x + 1\<rparr>))) (ret f))"

definition fileclose :: "nat \<Rightarrow> unit kact" where
  "fileclose f =
     bindA (file_of f f_ref) (\<lambda>r.
       if r < 1 then panic ''fileclose''
       else if r - 1 > 0 then upd (set_file f (\<lambda>x. x\<lparr>f_ref := f_ref x - 1\<rparr>))
       else bindA (file_of f id) (\<lambda>ff.
         doM (upd (set_file f (\<lambda>x. x\<lparr>f_ref := 0, f_type := FD_NONE\<rparr>)))
           (if f_type ff = FD_PIPE then pipeclose_file (f_pipe ff) (f_writable ff)
            else if f_type ff = FD_INODE \<or> f_type ff = FD_DEVICE then doM begin_op (doM (iput (f_ip ff)) end_op)
            else ret ())))"

definition pipealloc :: "(nat \<times> nat) option kact" where
  "pipealloc =
     bindA filealloc (\<lambda>r0.
       case r0 of None \<Rightarrow> ret None
       | Some f0 \<Rightarrow>
           bindA filealloc (\<lambda>r1.
             case r1 of None \<Rightarrow> doM (fileclose f0) (ret None)
             | Some f1 \<Rightarrow>
                 bindA (kmalloc_act PIPE_BYTES) (\<lambda>pi.
                   if pi = 0 then doM (fileclose f0) (doM (fileclose f1) (ret None))
                   else
                     doM (upd (\<lambda>s. s\<lparr>pipes := (pipes s)(pi := pipe_new (data (pipes s pi)))\<rparr>))
                     (doM (upd (set_file f0 (\<lambda>x. x\<lparr>f_type := FD_PIPE, f_readable := True, f_writable := False, f_pipe := pi\<rparr>)))
                     (doM (upd (set_file f1 (\<lambda>x. x\<lparr>f_type := FD_PIPE, f_readable := False, f_writable := True, f_pipe := pi\<rparr>)))
                       (ret (Some (f0, f1))))))))"

text \<open>
  The bytes of a \<open>struct stat\<close>; the four bytes of padding before the size are those of the local
  variable.
\<close>

definition stat_bytes :: "stat \<Rightarrow> mem \<Rightarrow> u8 list" where
  "stat_bytes st m =
     bytes_at (st_le 8 (st_le 2 (st_le 2 (st_le 4 (st_le 4 m 0 (st_dev st)) 4 (st_ino st)) 8 (uint16 (st_type st)))
       10 (uint16 (st_nlink st))) 16 (st_size st)) 0 24"

definition filestat :: "nat \<Rightarrow> nat \<Rightarrow> int kact" where
  "filestat f addr =
     bindA (file_of f id) (\<lambda>ff.
       if f_type ff = FD_INODE \<or> f_type ff = FD_DEVICE then
         doM (ilock (f_ip ff))
         (bindA (iget_of (f_ip ff) stati) (\<lambda>st.
           doM (iunlock (f_ip ff))
           (bindA (get (\<lambda>s. (p_pagetable (myproc s), stat_bytes st (lbuf s)))) (\<lambda>(pt, bs).
             bindA (ucopyout pt addr bs) (\<lambda>r. if r < 0 then ret (-1) else ret 0)))))
       else ret (-1))"

type_synonym devfn = "nat \<Rightarrow> int \<Rightarrow> int kact"

definition fileread :: "(nat \<Rightarrow> devfn option) \<Rightarrow> nat \<Rightarrow> nat \<Rightarrow> int \<Rightarrow> int kact" where
  "fileread devread f addr n =
     bindA (file_of f id) (\<lambda>ff.
       if \<not> f_readable ff then ret (-1)
       else case f_type ff of
         FD_PIPE \<Rightarrow> piperead_file (f_pipe ff) addr n
       | FD_DEVICE \<Rightarrow>
           if f_major ff < 0 \<or> f_major ff \<ge> int NDEV then ret (-1)
           else (case devread (nat (f_major ff)) of None \<Rightarrow> ret (-1) | Some rd \<Rightarrow> rd addr n)
       | FD_INODE \<Rightarrow>
           doM (ilock (f_ip ff))
           (bindA (readi (f_ip ff) (User addr) (f_off ff) (uint32 n)) (\<lambda>r.
             doM (if r > 0 then upd (set_file f (\<lambda>x. x\<lparr>f_off := add32 (f_off x) (nat r)\<rparr>)) else ret ())
             (doM (iunlock (f_ip ff)) (ret r))))
       | FD_NONE \<Rightarrow> panic ''fileread'')"

definition write_max :: int where "write_max = int ((MAXOPBLOCKS - 1 - 1 - 2) div 2 * BSIZE)"

function filewrite_loop :: "nat \<Rightarrow> nat \<Rightarrow> int \<Rightarrow> int \<Rightarrow> int kact" where
  "filewrite_loop f addr n i =
     (if i < n then
        bindA (file_of f f_ip) (\<lambda>ip.
          doM begin_op (doM (ilock ip)
          (bindA (file_of f f_off) (\<lambda>off.
            bindA (writei ip (User (add64 addr (nat i))) off (nat (min (n - i) write_max))) (\<lambda>r.
              doM (if r > 0 then upd (set_file f (\<lambda>x. x\<lparr>f_off := add32 (f_off x) (nat r)\<rparr>)) else ret ())
              (doM (iunlock ip) (doM end_op
                (if r \<noteq> min (n - i) write_max then ret i
                 else filewrite_loop f addr n (i + min (n - i) write_max)))))))))
      else ret i)"
  by pat_completeness auto
termination
  by (relation "measure (\<lambda>(f, addr, n, i). nat (n - i))")
    (auto simp: write_max_def MAXOPBLOCKS_def BSIZE_def)

declare filewrite_loop.simps [simp del]

definition filewrite :: "(nat \<Rightarrow> devfn option) \<Rightarrow> nat \<Rightarrow> nat \<Rightarrow> int \<Rightarrow> int kact" where
  "filewrite devwrite f addr n =
     bindA (file_of f id) (\<lambda>ff.
       if \<not> f_writable ff then ret (-1)
       else case f_type ff of
         FD_PIPE \<Rightarrow> pipewrite_file (f_pipe ff) addr n
       | FD_DEVICE \<Rightarrow>
           if f_major ff < 0 \<or> f_major ff \<ge> int NDEV then ret (-1)
           else (case devwrite (nat (f_major ff)) of None \<Rightarrow> ret (-1) | Some wr \<Rightarrow> wr addr n)
       | FD_INODE \<Rightarrow> bindA (filewrite_loop f addr n 0) (\<lambda>i. ret (if i = n then n else -1))
       | FD_NONE \<Rightarrow> panic ''filewrite'')"

end
