(* ===== verification/Proc.thy ===== *)
theory Proc
  imports File
begin

text \<open>
  kernel/proc.c: creating, copying, ending and waiting for processes, and kernel threads. A process is
  an index of the process table. Every access to another process is made under its lock, so the lock
  fields are not part of the state. A call that sleeps has no result; the switch to the scheduler at
  the end of \<open>kexit\<close> is the end of the action.
\<close>

section \<open>Page tables of processes\<close>

definition on_memU :: "(kmem \<Rightarrow> kmem res option) \<Rightarrow> unit kact" where
  "on_memU f = on_memF (\<lambda>k. bindF (f k) (\<lambda>k1. Some (Ok ((), k1))))"

definition kalloc_act :: "nat kact" where "kalloc_act = on_mem kalloc"
definition kfree_act :: "nat \<Rightarrow> unit kact" where "kfree_act pa = on_mem (\<lambda>k. with_unit (kfree pa k))"

definition proc_pagetable :: "nat \<Rightarrow> nat kact" where
  "proc_pagetable i =
     bindA (on_mem uvmcreate) (\<lambda>pt.
       if pt = 0 then ret 0
       else bindA (get (\<lambda>s. (trampoline s, p_trapframe (procs s i)))) (\<lambda>(tramp, tf).
         bindA (on_mem (mappages pt TRAMPOLINE PGSIZE tramp (PTE_R OR PTE_X))) (\<lambda>r.
           if r < 0 then doM (on_memU (uvmfree pt 0)) (ret 0)
           else bindA (on_mem (mappages pt TRAPFRAME PGSIZE tf (PTE_R OR PTE_W))) (\<lambda>r.
             if r < 0 then doM (on_memU (uvmunmap pt TRAMPOLINE 1 False)) (doM (on_memU (uvmfree pt 0)) (ret 0))
             else ret pt))))"

definition proc_freepagetable :: "nat \<Rightarrow> nat \<Rightarrow> unit kact" where
  "proc_freepagetable pt sz =
     doM (on_memU (uvmunmap pt TRAMPOLINE 1 False))
       (doM (on_memU (uvmunmap pt TRAPFRAME 1 False)) (on_memU (uvmfree pt sz)))"

section \<open>Process table entries\<close>

definition procinit :: "unit kact" where
  "procinit = upd (\<lambda>s. s\<lparr>procs := (\<lambda>i. if i < NPROC then init_signals ((procs s i)\<lparr>p_state := UNUSED, p_kstack := KSTACK i\<rparr>)
     else procs s i)\<rparr>)"

definition freeproc :: "nat \<Rightarrow> unit kact" where
  "freeproc i =
     bindA (get (\<lambda>s. procs s i)) (\<lambda>p.
       doM (if p_trapframe p \<noteq> 0 then kfree_act (p_trapframe p) else ret ())
       (doM (upd (set_proc i (\<lambda>p. p\<lparr>p_trapframe := 0\<rparr>)))
       (doM (if \<not> p_kthread p \<and> p_pagetable p \<noteq> 0 then proc_freepagetable (p_pagetable p) (p_sz p) else ret ())
         (upd (set_proc i (\<lambda>p. init_signals (p\<lparr>p_pagetable := 0, p_sz := 0, p_pid := 0, p_parent := None, p_name := [],
            p_chan := Ch_null, p_killed := False, p_xstate := 0, p_state := UNUSED, p_kthread := False\<rparr>)))))))"

definition allocproc :: "nat option kact" where
  "allocproc =
     bindA (get (\<lambda>s. find (\<lambda>i. p_state (procs s i) = UNUSED) [0..<NPROC])) (\<lambda>r.
       case r of None \<Rightarrow> ret None
       | Some i \<Rightarrow>
           bindA allocpid (\<lambda>pid.
             doM (upd (set_proc i (\<lambda>p. p\<lparr>p_pid := pid, p_state := USED\<rparr>)))
             (bindA kalloc_act (\<lambda>tf.
               doM (upd (set_proc i (\<lambda>p. p\<lparr>p_trapframe := tf\<rparr>)))
               (if tf = 0 then doM (freeproc i) (ret None)
                else bindA (proc_pagetable i) (\<lambda>pt.
                  doM (upd (set_proc i (\<lambda>p. p\<lparr>p_pagetable := pt\<rparr>)))
                  (if pt = 0 then doM (freeproc i) (ret None)
                   else doM (upd (set_proc i (\<lambda>p. init_signals (p\<lparr>p_ra := Entry_forkret, p_sp := p_kstack p + PGSIZE\<rparr>))))
                     (ret (Some i)))))))))"

definition userinit :: "unit kact" where
  "userinit =
     bindA allocproc (\<lambda>r.
       case r of None \<Rightarrow> panic ''kerneltrap''
       | Some i \<Rightarrow>
           doM (upd (\<lambda>s. s\<lparr>initproc := i\<rparr>))
           (bindA (namei [slash]) (\<lambda>ip.
             upd (set_proc i (\<lambda>p. p\<lparr>p_cwd := ip, p_state := RUNNABLE\<rparr>)))))"

definition growproc :: "int \<Rightarrow> int kact" where
  "growproc n =
     bindA (get (\<lambda>s. (cur s, p_sz (myproc s), p_pagetable (myproc s)))) (\<lambda>(me, sz, pt).
       bindA (if n > 0 then on_memF (uvmalloc pt sz (add64 sz (nat n)) PTE_W)
              else if n < 0 then on_memF (uvmdealloc pt sz (sub64 sz (nat (- n))))
              else ret sz) (\<lambda>sz1.
         if n > 0 \<and> sz1 = 0 then ret (-1)
         else doM (upd (set_proc me (\<lambda>p. p\<lparr>p_sz := sz1\<rparr>))) (ret 0)))"

section \<open>Fork\<close>

definition dup_fd :: "nat \<Rightarrow> nat \<Rightarrow> nat \<Rightarrow> unit kact" where
  "dup_fd me np i =
     bindA (get (\<lambda>s. p_ofile (procs s me) i)) (\<lambda>r.
       case r of None \<Rightarrow> ret ()
       | Some f \<Rightarrow> bindA (filedup f) (\<lambda>f. upd (set_proc np (\<lambda>p. p\<lparr>p_ofile := (p_ofile p)(i := Some f)\<rparr>))))"

definition copy_trapframe :: "nat \<Rightarrow> nat \<Rightarrow> kst \<Rightarrow> kst" where
  "copy_trapframe me np s =
     set_kmem (store_bytes (p_trapframe (procs s np)) (load_bytes (p_trapframe (procs s me)) TF_SIZE (kmem_of s)) (kmem_of s)) s"

definition kfork :: "int kact" where
  "kfork =
     bindA (get cur) (\<lambda>me.
     bindA (get myproc) (\<lambda>p.
       if p_kthread p then panic ''kfork from kthread''
       else bindA allocproc (\<lambda>r.
         case r of None \<Rightarrow> ret (-1)
         | Some np \<Rightarrow>
             bindA (get (\<lambda>s. p_pagetable (procs s np))) (\<lambda>npt.
             bindA (on_memF (uvmcopy (p_pagetable p) npt (p_sz p) 0)) (\<lambda>r.
               if r < 0 then doM (freeproc np) (ret (-1))
               else
                 doM (upd (set_proc np (\<lambda>q. q\<lparr>p_sz := p_sz p\<rparr>)))
                 (doM (upd (copy_trapframe me np))
                 (doM (upd (tf_set np (TF_A 0) 0))
                 (doM (upd (set_proc np (\<lambda>q. q\<lparr>p_pending := 0, p_sigframe_valid := False, p_sigframe := (\<lambda>_. 0),
                    p_handlers := p_handlers p, p_valid_handlers := p_valid_handlers p\<rparr>)))
                 (doM (for_upto 0 NOFILE (dup_fd me np))
                 (bindA (case p_cwd p of None \<Rightarrow> panic ''kerneltrap'' | Some ip \<Rightarrow> idup ip) (\<lambda>ip.
                   doM (upd (set_proc np (\<lambda>q. q\<lparr>p_cwd := Some ip, p_name := take 15 (p_name p)\<rparr>)))
                   (bindA (get (\<lambda>s. p_pid (procs s np))) (\<lambda>pid.
                     doM (upd (set_proc np (\<lambda>q. q\<lparr>p_parent := Some me\<rparr>)))
                     (doM (upd (set_proc np (\<lambda>q. q\<lparr>p_state := RUNNABLE\<rparr>)))
                       (ret pid)))))))))))))))"

section \<open>Exit and wait\<close>

definition reparent_one :: "nat \<Rightarrow> nat \<Rightarrow> unit kact" where
  "reparent_one me pp =
     bindA (get (\<lambda>s. (p_parent (procs s pp), initproc s))) (\<lambda>(par, ini).
       if par = Some me then doM (upd (set_proc pp (\<lambda>p. p\<lparr>p_parent := Some ini\<rparr>))) (wakeup (Ch_proc ini)) else ret ())"

definition reparent :: "nat \<Rightarrow> unit kact" where
  "reparent me = for_upto 0 NPROC (reparent_one me)"

definition close_fd :: "nat \<Rightarrow> nat \<Rightarrow> unit kact" where
  "close_fd me fd =
     bindA (get (\<lambda>s. p_ofile (procs s me) fd)) (\<lambda>r.
       case r of None \<Rightarrow> ret ()
       | Some f \<Rightarrow> doM (fileclose f) (upd (set_proc me (\<lambda>p. p\<lparr>p_ofile := (p_ofile p)(fd := None)\<rparr>))))"

definition chan_of :: "nat option \<Rightarrow> kchan" where
  "chan_of par = (case par of None \<Rightarrow> Ch_null | Some i \<Rightarrow> Ch_proc i)"

definition kexit :: "int \<Rightarrow> unit kact" where
  "kexit status =
     bindA (get (\<lambda>s. (cur s, initproc s))) (\<lambda>(me, ini).
       if me = ini then panic ''init exiting''
       else
         doM (for_upto 0 NOFILE (close_fd me))
         (doM begin_op
         (bindA (get (\<lambda>s. p_cwd (procs s me))) (\<lambda>c.
           doM (case c of None \<Rightarrow> panic ''kerneltrap'' | Some ip \<Rightarrow> iput ip)
           (doM end_op
           (doM (upd (set_proc me (\<lambda>p. p\<lparr>p_cwd := None\<rparr>)))
           (doM (reparent me)
           (bindA (get (\<lambda>s. p_parent (procs s me))) (\<lambda>par.
             doM (wakeup (chan_of par))
               (upd (set_proc me (\<lambda>p. p\<lparr>p_xstate := status, p_state := ZOMBIE\<rparr>))))))))))))"

definition word32_bytes :: "int \<Rightarrow> u8 list" where
  "word32_bytes v = bytes_at (st_le 4 (\<lambda>_. 0) 0 (uint32 v)) 0 4"

definition kwait :: "nat \<Rightarrow> int kact" where
  "kwait addr =
     bindA (get (\<lambda>s. (cur s, filter (\<lambda>i. p_parent (procs s i) = Some (cur s)) [0..<NPROC]))) (\<lambda>(me, kids).
     bindA (get (\<lambda>s. find (\<lambda>i. p_state (procs s i) = ZOMBIE) kids)) (\<lambda>z.
       case z of
         Some i \<Rightarrow>
           bindA (get (\<lambda>s. (p_pid (procs s i), p_xstate (procs s i), p_pagetable (myproc s)))) (\<lambda>(pid, xs, pt).
           bindA (if addr \<noteq> 0 then ucopyout pt addr (word32_bytes xs) else ret 0) (\<lambda>r.
             if r < 0 then ret (-1) else doM (freeproc i) (ret pid)))
       | None \<Rightarrow>
           bindA (killed me) (\<lambda>k. if kids = [] \<or> k then ret (-1) else blocked)))"

section \<open>Kernel threads\<close>

definition kthread_create :: "nat \<Rightarrow> nat \<Rightarrow> u8 list \<Rightarrow> nat option kact" where
  "kthread_create func arg name =
     bindA allocproc (\<lambda>r.
       case r of None \<Rightarrow> ret None
       | Some i \<Rightarrow>
           doM (upd (set_proc i (\<lambda>p. p\<lparr>p_kthread := True, p_kfunc := func, p_karg := arg, p_name := take 15 name, p_sz := 0\<rparr>)))
           (doM (upd (\<lambda>s. set_kmem (store_bytes (p_trapframe (procs s i)) (replicate TF_SIZE 0) (kmem_of s)) s))
           (doM (upd (set_proc i (\<lambda>p. p\<lparr>p_ra := Entry_kthread, p_sp := p_kstack p + PGSIZE, p_state := RUNNABLE\<rparr>)))
             (ret (Some i)))))"

text \<open>The thread function is called through a pointer; \<open>run\<close> says what calling it does.\<close>

definition kthread_entry :: "(nat \<Rightarrow> nat \<Rightarrow> unit kact) \<Rightarrow> unit kact" where
  "kthread_entry run =
     bindA (get myproc) (\<lambda>p. doM (if p_kfunc p \<noteq> 0 then run (p_kfunc p) (p_karg p) else ret ()) (kexit 0))"

end
