(* ===== verification/Khugepaged.thy ===== *)
theory Khugepaged
  imports Proc
begin

text \<open>
  kernel/khugepaged.c: one round of the thread that merges the small pages of user processes into
  huge pages. The pause between two rounds is not modelled; the messages are not either.
\<close>

definition is_runnable_state :: "procstate \<Rightarrow> bool" where
  "is_runnable_state st \<longleftrightarrow> st = RUNNABLE \<or> st = RUNNING \<or> st = SLEEPING"

function scan_loop :: "nat \<Rightarrow> nat \<Rightarrow> nat \<Rightarrow> kmem \<Rightarrow> kmem res" where
  "scan_loop pt sz va k =
     (if va + HUGEPGSIZE \<le> sz then
        bindR (vm_try_collapse pt sz va k) (\<lambda>(r, k1). scan_loop pt sz (va + HUGEPGSIZE) k1)
      else Ok k)"
  by pat_completeness auto
termination
  by (relation "measure (\<lambda>(pt, sz, va, k). Suc sz - va)") (auto simp: HUGEPGSIZE_def PGSIZE_def HUGEPGORDER_def)

declare scan_loop.simps [simp del]

definition scan_proc_for_collapse :: "nat \<Rightarrow> unit kact" where
  "scan_proc_for_collapse i =
     bindA (get (\<lambda>s. procs s i)) (\<lambda>p.
       if p_pagetable p = 0 then ret ()
       else if p_sz p < HUGEPGSIZE then ret ()
       else on_mem (\<lambda>k. with_unit (scan_loop (p_pagetable p) (p_sz p) 0 k)))"

definition scan_one :: "nat \<Rightarrow> unit kact" where
  "scan_one i =
     bindA (get (\<lambda>s. procs s i)) (\<lambda>p.
       if \<not> p_kthread p \<and> is_runnable_state (p_state p) then scan_proc_for_collapse i else ret ())"

definition scan_all_procs_for_collapse :: "unit kact" where
  "scan_all_procs_for_collapse = for_upto 0 NPROC scan_one"

end
