(* ===== verification/Frames.thy ===== *)
theory Frames
  imports Act
begin

text \<open>
  Frame rules for actions: what an action that returns leaves unchanged, and which property of the
  state it keeps. The rules follow the structure of the action.
\<close>

named_theorems keeps_intros

definition keeps :: "('s \<Rightarrow> 'b) \<Rightarrow> ('s, 'a) act \<Rightarrow> bool" where
  "keeps f m \<longleftrightarrow> (\<forall>s x s'. m s = Some (Ok (x, s')) \<longrightarrow> f s' = f s)"

definition pres :: "('s \<Rightarrow> bool) \<Rightarrow> ('s, 'a) act \<Rightarrow> ('a \<Rightarrow> 's \<Rightarrow> bool) \<Rightarrow> bool" where
  "pres P m Q \<longleftrightarrow> (\<forall>s x s'. P s \<longrightarrow> m s = Some (Ok (x, s')) \<longrightarrow> Q x s')"

lemma keepsD: "keeps f m \<Longrightarrow> m s = Some (Ok (x, s')) \<Longrightarrow> f s' = f s"
  by (auto simp: keeps_def)

lemma presD: "pres P m Q \<Longrightarrow> P s \<Longrightarrow> m s = Some (Ok (x, s')) \<Longrightarrow> Q x s'"
  by (auto simp: pres_def)

lemma keeps_ret [keeps_intros]: "keeps f (ret x)"
  by (simp add: keeps_def)

lemma keeps_get [keeps_intros]: "keeps f (get g)"
  by (simp add: keeps_def)

lemma keeps_panic [keeps_intros]: "keeps f (panic msg)"
  by (simp add: keeps_def)

lemma keeps_blocked [keeps_intros]: "keeps f blocked"
  by (simp add: keeps_def)

lemma keeps_bindA [keeps_intros]: "keeps f m \<Longrightarrow> (\<And>x. keeps f (k x)) \<Longrightarrow> keeps f (bindA m k)"
  unfolding keeps_def by (auto simp: bindA_eq_Ok)

lemma keeps_doM [keeps_intros]: "keeps f m \<Longrightarrow> keeps f k \<Longrightarrow> keeps f (doM m k)"
  unfolding doM_def by (rule keeps_bindA)

lemma keeps_upd: "(\<And>s. f (g s) = f s) \<Longrightarrow> keeps f (upd g)"
  by (simp add: keeps_def)

lemma keeps_if [keeps_intros]: "(c \<Longrightarrow> keeps f a) \<Longrightarrow> (\<not> c \<Longrightarrow> keeps f b) \<Longrightarrow> keeps f (if c then a else b)"
  by simp

lemma keeps_option [keeps_intros]:
  "(x = None \<Longrightarrow> keeps f a) \<Longrightarrow> (\<And>y. x = Some y \<Longrightarrow> keeps f (b y)) \<Longrightarrow> keeps f (case x of None \<Rightarrow> a | Some y \<Rightarrow> b y)"
  by (cases x) auto

lemma keeps_prod [keeps_intros]: "(\<And>a b. x = (a, b) \<Longrightarrow> keeps f (k a b)) \<Longrightarrow> keeps f (case x of (a, b) \<Rightarrow> k a b)"
  by (cases x) auto

lemma keeps_prod_app [keeps_intros]:
  "(\<And>a b. x = (a, b) \<Longrightarrow> keeps f (k a b y)) \<Longrightarrow> keeps f ((case x of (a, b) \<Rightarrow> k a b) y)"
  by (cases x) auto

lemma keeps_let [keeps_intros]: "(\<And>y. keeps f (k y)) \<Longrightarrow> keeps f (let y = x in k y)"
  by simp

lemma keeps_for_upto [keeps_intros]: "(\<And>i. keeps f (g i)) \<Longrightarrow> keeps f (for_upto lo n g)"
  by (induction n arbitrary: lo) (auto intro: keeps_intros)

lemma keeps_comp: "keeps f m \<Longrightarrow> keeps (\<lambda>s. h (f s)) m"
  by (auto simp: keeps_def)

lemma pres_keeps: "keeps f m \<Longrightarrow> (\<And>s s'. f s' = f s \<Longrightarrow> P s \<Longrightarrow> P s') \<Longrightarrow> pres P m (\<lambda>x. P)"
  unfolding keeps_def pres_def by metis

lemma pres_bindA: "pres P m Q \<Longrightarrow> (\<And>x. pres (Q x) (k x) R) \<Longrightarrow> pres P (bindA m k) R"
  unfolding pres_def by (auto simp: bindA_eq_Ok)

lemma pres_doM: "pres P m (\<lambda>x. Q) \<Longrightarrow> pres Q k R \<Longrightarrow> pres P (doM m k) R"
  unfolding doM_def by (rule pres_bindA)

lemma pres_ret: "(\<And>s. P s \<Longrightarrow> Q x s) \<Longrightarrow> pres P (ret x) Q"
  by (simp add: pres_def)

lemma pres_get: "(\<And>s. P s \<Longrightarrow> Q (g s) s) \<Longrightarrow> pres P (get g) Q"
  by (simp add: pres_def)

lemma pres_upd: "(\<And>s. P s \<Longrightarrow> Q () (g s)) \<Longrightarrow> pres P (upd g) Q"
  by (simp add: pres_def)

lemma pres_panic: "pres P (panic msg) Q"
  by (simp add: pres_def)

lemma pres_blocked: "pres P blocked Q"
  by (simp add: pres_def)

lemma pres_if: "(c \<Longrightarrow> pres P a Q) \<Longrightarrow> (\<not> c \<Longrightarrow> pres P b Q) \<Longrightarrow> pres P (if c then a else b) Q"
  by simp

lemma pres_option:
  "(x = None \<Longrightarrow> pres P a Q) \<Longrightarrow> (\<And>y. x = Some y \<Longrightarrow> pres P (b y) Q) \<Longrightarrow> pres P (case x of None \<Rightarrow> a | Some y \<Rightarrow> b y) Q"
  by (cases x) auto

lemma pres_prod: "(\<And>a b. x = (a, b) \<Longrightarrow> pres P (k a b) Q) \<Longrightarrow> pres P (case x of (a, b) \<Rightarrow> k a b) Q"
  by (cases x) auto

text \<open>Rules for a precondition that follows the branches of the action.\<close>

lemma pres_split_if:
  "(c \<Longrightarrow> pres A a Q) \<Longrightarrow> (\<not> c \<Longrightarrow> pres B b Q) \<Longrightarrow> pres (\<lambda>s. if c then A s else B s) (if c then a else b) Q"
  by simp

lemma pres_split_option:
  "pres A a Q \<Longrightarrow> (\<And>y. x = Some y \<Longrightarrow> pres (B y) (b y) Q) \<Longrightarrow>
     pres (\<lambda>s. case x of None \<Rightarrow> A s | Some y \<Rightarrow> B y s) (case x of None \<Rightarrow> a | Some y \<Rightarrow> b y) Q"
  by (cases x) auto

lemma pres_split_prod:
  "(\<And>a b. pres (P a b) (k a b) Q) \<Longrightarrow> pres (\<lambda>s. case x of (a, b) \<Rightarrow> P a b s) (case x of (a, b) \<Rightarrow> k a b) Q"
  by (cases x) auto

lemma pres_pre: "pres P m Q \<Longrightarrow> (\<And>s. P' s \<Longrightarrow> P s) \<Longrightarrow> pres P' m Q"
  unfolding pres_def by blast

lemma pres_both: "pres P m Q \<Longrightarrow> pres P m R \<Longrightarrow> pres P m (\<lambda>x s. Q x s \<and> R x s)"
  unfolding pres_def by blast

lemma pres_weaken: "pres P m Q \<Longrightarrow> (\<And>s. P' s \<Longrightarrow> P s) \<Longrightarrow> (\<And>x s. Q x s \<Longrightarrow> Q' x s) \<Longrightarrow> pres P' m Q'"
  unfolding pres_def by blast

lemma pres_pure: "(A \<Longrightarrow> pres P m Q) \<Longrightarrow> pres (\<lambda>s. A \<and> P s) m Q"
  unfolding pres_def by blast

lemma pres_for_upto:
  assumes "\<And>i. lo \<le> i \<Longrightarrow> i < lo + n \<Longrightarrow> pres (P i) (g i) (\<lambda>_. P (Suc i))"
  shows "pres (P lo) (for_upto lo n g) (\<lambda>_. P (lo + n))"
  using assms
proof (induction n arbitrary: lo)
  case (Suc n)
  have "pres (P (Suc lo)) (for_upto (Suc lo) n g) (\<lambda>_. P (Suc lo + n))" by (rule Suc.IH) (use Suc.prems in auto)
  then show ?case using Suc.prems [of lo] by (auto intro: pres_bindA)
qed (simp add: pres_ret)

end
