(* ===== verification/Exec.thy ===== *)
theory Exec
  imports Proc
begin

text \<open>
  kernel/exec.c: loading a program. The ELF header and the program headers are read into local
  variables and decoded from their bytes. The argument strings are given without their NUL.
\<close>

definition ELF_MAGIC :: nat where "ELF_MAGIC = 0x464C457F"
definition ELF_PROG_LOAD :: nat where "ELF_PROG_LOAD = 1"
definition ELFHDR_SIZE :: nat where "ELFHDR_SIZE = 64"
definition PROGHDR_SIZE :: nat where "PROGHDR_SIZE = 56"
definition MAXARG :: nat where "MAXARG = 32"
definition USERSTACK :: nat where "USERSTACK = 1"

record elfhdr =
  e_magic :: nat
  e_entry :: nat
  e_phoff :: nat
  e_phnum :: nat

definition elfhdr_of :: "mem \<Rightarrow> elfhdr" where
  "elfhdr_of m = \<lparr>e_magic = ld_le 4 m 0, e_entry = ld_le 8 m 24, e_phoff = ld_le 8 m 32, e_phnum = ld_le 2 m 56\<rparr>"

record proghdr =
  ph_type :: nat
  ph_flags :: nat
  ph_off :: nat
  ph_vaddr :: nat
  ph_filesz :: nat
  ph_memsz :: nat

definition proghdr_of :: "mem \<Rightarrow> proghdr" where
  "proghdr_of m = \<lparr>ph_type = ld_le 4 m 0, ph_flags = ld_le 4 m 4, ph_off = ld_le 8 m 8, ph_vaddr = ld_le 8 m 16,
     ph_filesz = ld_le 8 m 32, ph_memsz = ld_le 8 m 40\<rparr>"

definition flags2perm :: "nat \<Rightarrow> pte" where
  "flags2perm flags =
     (let perm = (if (of_nat flags :: pte) AND 1 \<noteq> 0 then PTE_X else 0)
      in if (of_nat flags :: pte) AND 2 \<noteq> 0 then perm OR PTE_W else perm)"

function loadseg_loop :: "nat \<Rightarrow> nat \<Rightarrow> nat \<Rightarrow> nat \<Rightarrow> nat \<Rightarrow> nat \<Rightarrow> int kact" where
  "loadseg_loop pt va ip off sz i =
     (if i < sz then
        bindA (on_mem (\<lambda>k. bindR (walkaddr pt (add64 va i) k) (\<lambda>pa. Ok (pa, k)))) (\<lambda>pa.
          if pa = 0 then panic ''loadseg: address should exist''
          else bindA (readi ip (Phys pa) (add32 off i) (if sz - i < PGSIZE then sz - i else PGSIZE)) (\<lambda>r.
            if r \<noteq> int (if sz - i < PGSIZE then sz - i else PGSIZE) then ret (-1)
            else loadseg_loop pt va ip off sz (i + PGSIZE)))
      else ret 0)"
  by pat_completeness auto
termination
  by (relation "measure (\<lambda>(pt, va, ip, off, sz, i). sz - i)") (auto simp: PGSIZE_def)

declare loadseg_loop.simps [simp del]

definition loadseg :: "nat \<Rightarrow> nat \<Rightarrow> nat \<Rightarrow> nat \<Rightarrow> nat \<Rightarrow> int kact" where
  "loadseg pt va ip off sz = loadseg_loop pt va ip off sz 0"

text \<open>
  The loop over the program headers: whether it got to the end, and the size of the image. The last
  argument counts the headers that are left.
\<close>

primrec load_segments :: "nat \<Rightarrow> nat \<Rightarrow> nat \<Rightarrow> nat \<Rightarrow> nat \<Rightarrow> (bool \<times> nat) kact" where
  "load_segments ip pt off sz 0 = ret (True, sz)"
| "load_segments ip pt off sz (Suc n) =
     bindA (readi ip (Loc 0) off PROGHDR_SIZE) (\<lambda>r.
       if r \<noteq> int PROGHDR_SIZE then ret (False, sz)
       else bindA (get (\<lambda>s. proghdr_of (lbuf s))) (\<lambda>ph.
         if ph_type ph \<noteq> ELF_PROG_LOAD then load_segments ip pt (add32 off PROGHDR_SIZE) sz n
         else if ph_memsz ph < ph_filesz ph then ret (False, sz)
         else if add64 (ph_vaddr ph) (ph_memsz ph) < ph_vaddr ph then ret (False, sz)
         else if ph_vaddr ph mod PGSIZE \<noteq> 0 then ret (False, sz)
         else bindA (on_memF (uvmalloc pt sz (add64 (ph_vaddr ph) (ph_memsz ph)) (flags2perm (ph_flags ph)))) (\<lambda>sz1.
           if sz1 = 0 then ret (False, sz)
           else bindA (loadseg pt (ph_vaddr ph) ip (ph_off ph mod 2 ^ 32) (ph_filesz ph mod 2 ^ 32)) (\<lambda>r.
             if r < 0 then ret (False, sz1)
             else load_segments ip pt (add32 off PROGHDR_SIZE) sz1 n))))"

text \<open>Copying the argument strings: the stack pointer and the addresses of the strings.\<close>

primrec push_args :: "nat \<Rightarrow> nat \<Rightarrow> u8 list list \<Rightarrow> nat \<Rightarrow> nat list \<Rightarrow> (nat \<times> nat list) option kact" where
  "push_args pt stackbase [] sp ustack = ret (Some (sp, ustack))"
| "push_args pt stackbase (a # as) sp ustack =
     (if length ustack \<ge> MAXARG then ret None
      else let sp1 = sub64 sp (length a + 1); sp2 = sub64 sp1 (sp1 mod 16) in
        if sp2 < stackbase then ret None
        else bindA (ucopyout pt sp2 (a @ [0])) (\<lambda>r.
          if r < 0 then ret None else push_args pt stackbase as sp2 (ustack @ [sp2])))"

definition pointer_bytes :: "nat list \<Rightarrow> u8 list" where
  "pointer_bytes ps = concat (map (\<lambda>p. bytes_at (st_le 8 (\<lambda>_. 0) 0 p) 0 8) ps)"

definition exec_bad :: "nat \<Rightarrow> nat \<Rightarrow> nat option \<Rightarrow> int kact" where
  "exec_bad pt sz ipo =
     doM (if pt \<noteq> 0 then proc_freepagetable pt sz else ret ())
       (doM (case ipo of None \<Rightarrow> ret () | Some ip \<Rightarrow> doM (iunlockput ip) end_op) (ret (-1)))"

text \<open>After the image is loaded: the user stack, the arguments, and the switch to the new image.\<close>

definition exec_stack :: "u8 list \<Rightarrow> u8 list list \<Rightarrow> nat \<Rightarrow> nat \<Rightarrow> nat \<Rightarrow> int kact" where
  "exec_stack path argv pt sz0 entry =
     bindA (get (\<lambda>s. (cur s, p_sz (myproc s)))) (\<lambda>(me, oldsz).
     let sz = PGROUNDUP sz0 in
     bindA (on_memF (uvmalloc pt sz (add64 sz ((USERSTACK + 1) * PGSIZE)) PTE_W)) (\<lambda>sz1.
       if sz1 = 0 then exec_bad pt sz None
       else
         doM (on_mem (\<lambda>k. with_unit (uvmclear pt (sub64 sz1 ((USERSTACK + 1) * PGSIZE)) k)))
         (let stackbase = sub64 sz1 (USERSTACK * PGSIZE) in
          bindA (push_args pt stackbase argv sz1 []) (\<lambda>r.
            case r of None \<Rightarrow> exec_bad pt sz1 None
            | Some (sp, ustack) \<Rightarrow>
                let argc = length ustack; sp1 = sub64 sp ((argc + 1) * 8); sp2 = sub64 sp1 (sp1 mod 16) in
                if sp2 < stackbase then exec_bad pt sz1 None
                else bindA (ucopyout pt sp2 (pointer_bytes (ustack @ [0]))) (\<lambda>r.
                  if r < 0 then exec_bad pt sz1 None
                  else
                    doM (upd (tf_set me (TF_A 1) sp2))
                    (bindA (get (\<lambda>s. p_pagetable (procs s me))) (\<lambda>oldpt.
                      doM (upd (set_proc me (\<lambda>p. p\<lparr>p_name := take 15 (rev (takeWhile (\<lambda>c. c \<noteq> slash) (rev path))),
                         p_pagetable := pt, p_sz := sz1\<rparr>)))
                      (doM (upd (tf_set me TF_EPC entry))
                      (doM (upd (tf_set me TF_SP sp2))
                      (doM (upd (set_proc me init_signals))
                      (doM (proc_freepagetable oldpt oldsz) (ret (int argc)))))))))))))"

definition kexec :: "u8 list \<Rightarrow> u8 list list \<Rightarrow> int kact" where
  "kexec path argv =
     bindA (get (\<lambda>s. (cur s, p_kthread (myproc s)))) (\<lambda>(me, kt).
       if kt then panic ''exit from kthread''
       else
         doM begin_op
         (bindA (namei path) (\<lambda>r.
           case r of None \<Rightarrow> doM end_op (ret (-1))
           | Some ip \<Rightarrow>
               doM (ilock ip)
               (bindA (readi ip (Loc 0) 0 ELFHDR_SIZE) (\<lambda>n.
                 if n \<noteq> int ELFHDR_SIZE then exec_bad 0 0 (Some ip)
                 else bindA (get (\<lambda>s. elfhdr_of (lbuf s))) (\<lambda>elf.
                   if e_magic elf \<noteq> ELF_MAGIC then exec_bad 0 0 (Some ip)
                   else bindA (proc_pagetable me) (\<lambda>pt.
                     if pt = 0 then exec_bad 0 0 (Some ip)
                     else bindA (load_segments ip pt (e_phoff elf mod 2 ^ 32) 0 (e_phnum elf)) (\<lambda>(ok, sz).
                       if \<not> ok then exec_bad pt sz (Some ip)
                       else doM (iunlockput ip) (doM end_op (exec_stack path argv pt sz (e_entry elf)))))))))))"

end
