(* ===== verification/Sysfile.thy ===== *)
theory Sysfile
  imports Exec
begin

text \<open>
  kernel/sysfile.c: the system calls on files. A result is the value of the C function as a signed
  number. \<open>devsw\<close> is an argument as in the file table.
\<close>

definition MAXPATH :: nat where "MAXPATH = 128"
definition O_WRONLY :: int where "O_WRONLY = 1"
definition O_RDWR :: int where "O_RDWR = 2"
definition O_CREATE :: int where "O_CREATE = 0x200"
definition O_TRUNC :: int where "O_TRUNC = 0x400"

section \<open>File descriptors\<close>

definition argfd :: "nat \<Rightarrow> (nat \<times> nat) option kact" where
  "argfd n =
     bindA (argint n) (\<lambda>fd.
       if fd < 0 \<or> fd \<ge> int NOFILE then ret None
       else bindA (get (\<lambda>s. p_ofile (myproc s) (nat fd))) (\<lambda>f. ret (map_option (\<lambda>f. (nat fd, f)) f)))"

definition fdalloc :: "nat \<Rightarrow> int kact" where
  "fdalloc f =
     bindA (get (\<lambda>s. find (\<lambda>fd. p_ofile (myproc s) fd = None) [0..<NOFILE])) (\<lambda>r.
       case r of None \<Rightarrow> ret (-1)
       | Some fd \<Rightarrow> doM (upd (\<lambda>s. set_proc (cur s) (\<lambda>p. p\<lparr>p_ofile := (p_ofile p)(fd := Some f)\<rparr>) s)) (ret (int fd)))"

definition clear_fd :: "nat \<Rightarrow> unit kact" where
  "clear_fd fd = upd (\<lambda>s. set_proc (cur s) (\<lambda>p. p\<lparr>p_ofile := (p_ofile p)(fd := None)\<rparr>) s)"

definition sys_dup :: "int kact" where
  "sys_dup =
     bindA (argfd 0) (\<lambda>r.
       case r of None \<Rightarrow> ret (-1)
       | Some (_, f) \<Rightarrow> bindA (fdalloc f) (\<lambda>fd. if fd < 0 then ret (-1) else bindA (filedup f) (\<lambda>_. ret fd)))"

definition sys_read :: "(nat \<Rightarrow> devfn option) \<Rightarrow> int kact" where
  "sys_read devread =
     bindA (argaddr 1) (\<lambda>p. bindA (argint 2) (\<lambda>n. bindA (argfd 0) (\<lambda>r.
       case r of None \<Rightarrow> ret (-1) | Some (_, f) \<Rightarrow> fileread devread f p n)))"

definition sys_write :: "(nat \<Rightarrow> devfn option) \<Rightarrow> int kact" where
  "sys_write devwrite =
     bindA (argaddr 1) (\<lambda>p. bindA (argint 2) (\<lambda>n. bindA (argfd 0) (\<lambda>r.
       case r of None \<Rightarrow> ret (-1) | Some (_, f) \<Rightarrow> filewrite devwrite f p n)))"

definition sys_close :: "int kact" where
  "sys_close =
     bindA (argfd 0) (\<lambda>r.
       case r of None \<Rightarrow> ret (-1) | Some (fd, f) \<Rightarrow> doM (clear_fd fd) (doM (fileclose f) (ret 0)))"

definition sys_fstat :: "int kact" where
  "sys_fstat =
     bindA (argaddr 1) (\<lambda>st. bindA (argfd 0) (\<lambda>r.
       case r of None \<Rightarrow> ret (-1) | Some (_, f) \<Rightarrow> filestat f st))"

section \<open>Links\<close>

definition add_nlink :: "nat \<Rightarrow> int \<Rightarrow> unit kact" where
  "add_nlink ip k = doM (upd (set_inode ip (\<lambda>x. x\<lparr>i_nlink := wrap16 (i_nlink x + k)\<rparr>))) (iupdate ip)"

definition link_bad :: "nat \<Rightarrow> int kact" where
  "link_bad ip = doM (ilock ip) (doM (add_nlink ip (-1)) (doM (iunlockput ip) (doM end_op (ret (-1)))))"

definition sys_link :: "int kact" where
  "sys_link =
     bindA (argstr 0 MAXPATH) (\<lambda>old.
       case old of None \<Rightarrow> ret (-1)
       | Some old \<Rightarrow> bindA (argstr 1 MAXPATH) (\<lambda>new.
         case new of None \<Rightarrow> ret (-1)
         | Some new \<Rightarrow>
             doM begin_op (bindA (namei old) (\<lambda>r.
               case r of None \<Rightarrow> doM end_op (ret (-1))
               | Some ip \<Rightarrow>
                   doM (ilock ip) (bindA (iget_of ip i_type) (\<lambda>type.
                     if type = T_DIR then doM (iunlockput ip) (doM end_op (ret (-1)))
                     else
                       doM (add_nlink ip 1) (doM (iunlock ip)
                       (bindA (nameiparent new) (\<lambda>r.
                         case r of None \<Rightarrow> link_bad ip
                         | Some (dp, name) \<Rightarrow>
                             doM (ilock dp)
                             (bindA (get (\<lambda>s. (i_dev (itable s dp), i_dev (itable s ip), i_inum (itable s ip)))) (\<lambda>(ddev, idev, inum).
                               bindA (if ddev \<noteq> idev then ret (-1) else dirlink dp name inum) (\<lambda>r.
                                 if r < 0 then doM (iunlockput dp) (link_bad ip)
                                 else doM (iunlockput dp) (doM (iput ip) (doM end_op (ret 0)))))))))))))))"

function isdirempty_loop :: "nat \<Rightarrow> nat \<Rightarrow> nat \<Rightarrow> bool kact" where
  "isdirempty_loop dp sz off =
     (if off < sz then
        bindA (readi dp (Loc 0) off DIRENT_SIZE) (\<lambda>r.
          if r \<noteq> int DIRENT_SIZE then panic ''isdirempty: readi''
          else bindA (get (\<lambda>s. de_inum (lbuf s))) (\<lambda>inum.
            if inum \<noteq> 0 then ret False else isdirempty_loop dp sz (off + DIRENT_SIZE)))
      else ret True)"
  by pat_completeness auto
termination
  by (relation "measure (\<lambda>(dp, sz, off). sz - off)") (auto simp: DIRENT_SIZE_def)

declare isdirempty_loop.simps [simp del]

definition isdirempty :: "nat \<Rightarrow> bool kact" where
  "isdirempty dp = bindA (iget_of dp i_size) (\<lambda>sz. isdirempty_loop dp sz (2 * DIRENT_SIZE))"

definition dot :: "u8 list" where "dot = [46]"
definition dotdot :: "u8 list" where "dotdot = [46, 46]"

definition unlink_bad :: "nat \<Rightarrow> int kact" where
  "unlink_bad dp = doM (iunlockput dp) (doM end_op (ret (-1)))"

definition sys_unlink :: "int kact" where
  "sys_unlink =
     bindA (argstr 0 MAXPATH) (\<lambda>path.
       case path of None \<Rightarrow> ret (-1)
       | Some path \<Rightarrow>
           doM begin_op (bindA (nameiparent path) (\<lambda>r.
             case r of None \<Rightarrow> doM end_op (ret (-1))
             | Some (dp, name) \<Rightarrow>
                 doM (ilock dp)
                 (if namecmp name (cstr_at dot) = 0 \<or> namecmp name (cstr_at dotdot) = 0 then unlink_bad dp
                  else bindA (dirlookup dp name) (\<lambda>r.
                    case r of None \<Rightarrow> unlink_bad dp
                    | Some (off, ip) \<Rightarrow>
                        doM (ilock ip)
                        (bindA (iget_of ip (\<lambda>x. (i_nlink x, i_type x))) (\<lambda>(nlink, type).
                          if nlink < 1 then panic ''unlink: nlink < 1''
                          else bindA (if type = T_DIR then isdirempty ip else ret True) (\<lambda>e.
                            if \<not> e then doM (iunlockput ip) (unlink_bad dp)
                            else
                              doM (upd (\<lambda>s. s\<lparr>lbuf := put_bytes 0 (replicate DIRENT_SIZE 0) (lbuf s)\<rparr>))
                              (bindA (writei dp (Loc 0) off DIRENT_SIZE) (\<lambda>w.
                                if w \<noteq> int DIRENT_SIZE then panic ''unlink: writei''
                                else
                                  doM (if type = T_DIR then add_nlink dp (-1) else ret ())
                                  (doM (iunlockput dp) (doM (add_nlink ip (-1)) (doM (iunlockput ip) (doM end_op (ret 0)))))))))))))))"

section \<open>Creating files\<close>

definition create_fail :: "nat \<Rightarrow> nat \<Rightarrow> nat option kact" where
  "create_fail ip dp =
     doM (upd (set_inode ip (\<lambda>x. x\<lparr>i_nlink := 0\<rparr>)))
       (doM (iupdate ip) (doM (iunlockput ip) (doM (iunlockput dp) (ret None))))"

definition create :: "u8 list \<Rightarrow> int \<Rightarrow> int \<Rightarrow> int \<Rightarrow> nat option kact" where
  "create path type major minor =
     bindA (nameiparent path) (\<lambda>r.
       case r of None \<Rightarrow> ret None
       | Some (dp, name) \<Rightarrow>
           doM (ilock dp)
           (bindA (dirlookup dp name) (\<lambda>r.
             case r of
               Some (_, ip) \<Rightarrow>
                 doM (iunlockput dp) (doM (ilock ip)
                 (bindA (iget_of ip i_type) (\<lambda>t.
                   if type = T_FILE \<and> (t = T_FILE \<or> t = T_DEVICE) then ret (Some ip)
                   else doM (iunlockput ip) (ret None))))
             | None \<Rightarrow>
                 bindA (iget_of dp i_dev) (\<lambda>dev.
                 bindA (ialloc dev type) (\<lambda>r.
                   case r of None \<Rightarrow> doM (iunlockput dp) (ret None)
                   | Some ip \<Rightarrow>
                       doM (ilock ip)
                       (doM (upd (set_inode ip (\<lambda>x. x\<lparr>i_major := major, i_minor := minor, i_nlink := 1\<rparr>)))
                       (doM (iupdate ip)
                       (bindA (get (\<lambda>s. (i_inum (itable s ip), i_inum (itable s dp)))) (\<lambda>(inum, dinum).
                       bindA (if type = T_DIR then
                                bindA (dirlink ip dot inum) (\<lambda>r. if r < 0 then ret r else dirlink ip dotdot dinum)
                              else ret 0) (\<lambda>r.
                         if r < 0 then create_fail ip dp
                         else bindA (dirlink dp name inum) (\<lambda>r.
                           if r < 0 then create_fail ip dp
                           else
                             doM (if type = T_DIR then add_nlink dp 1 else ret ())
                               (doM (iunlockput dp) (ret (Some ip))))))))))))))"

definition open_inode :: "u8 list \<Rightarrow> int \<Rightarrow> nat option kact" where
  "open_inode path omode =
     (if omode AND O_CREATE \<noteq> 0 then create path T_FILE 0 0
      else bindA (namei path) (\<lambda>r.
        case r of None \<Rightarrow> ret None
        | Some ip \<Rightarrow>
            doM (ilock ip) (bindA (iget_of ip i_type) (\<lambda>t.
              if t = T_DIR \<and> omode \<noteq> 0 then doM (iunlockput ip) (ret None) else ret (Some ip)))))"

definition open_fail :: "nat \<Rightarrow> int kact" where
  "open_fail ip = doM (iunlockput ip) (doM end_op (ret (-1)))"

definition sys_open :: "int kact" where
  "sys_open =
     bindA (argint 1) (\<lambda>omode. bindA (argstr 0 MAXPATH) (\<lambda>path.
       case path of None \<Rightarrow> ret (-1)
       | Some path \<Rightarrow>
           doM begin_op (bindA (open_inode path omode) (\<lambda>r.
             case r of None \<Rightarrow> doM end_op (ret (-1))
             | Some ip \<Rightarrow>
                 bindA (iget_of ip (\<lambda>x. (i_type x, i_major x))) (\<lambda>(type, major).
                   if type = T_DEVICE \<and> (major < 0 \<or> major \<ge> int NDEV) then open_fail ip
                   else bindA filealloc (\<lambda>fo.
                     case fo of None \<Rightarrow> open_fail ip
                     | Some f \<Rightarrow> bindA (fdalloc f) (\<lambda>fd.
                         if fd < 0 then doM (fileclose f) (open_fail ip)
                         else
                           doM (if type = T_DEVICE then upd (set_file f (\<lambda>x. x\<lparr>f_type := FD_DEVICE, f_major := major\<rparr>))
                                else upd (set_file f (\<lambda>x. x\<lparr>f_type := FD_INODE, f_off := 0\<rparr>)))
                           (doM (upd (set_file f (\<lambda>x. x\<lparr>f_ip := ip, f_readable := (omode AND O_WRONLY = 0),
                              f_writable := (omode AND O_WRONLY \<noteq> 0 \<or> omode AND O_RDWR \<noteq> 0)\<rparr>)))
                           (doM (if omode AND O_TRUNC \<noteq> 0 \<and> type = T_FILE then itrunc ip else ret ())
                             (doM (iunlock ip) (doM end_op (ret fd))))))))))))"

definition sys_mkdir :: "int kact" where
  "sys_mkdir =
     doM begin_op (bindA (argstr 0 MAXPATH) (\<lambda>path.
       bindA (case path of None \<Rightarrow> ret None | Some path \<Rightarrow> create path T_DIR 0 0) (\<lambda>r.
         case r of None \<Rightarrow> doM end_op (ret (-1)) | Some ip \<Rightarrow> doM (iunlockput ip) (doM end_op (ret 0)))))"

definition sys_mknod :: "int kact" where
  "sys_mknod =
     doM begin_op (bindA (argint 1) (\<lambda>major. bindA (argint 2) (\<lambda>minor. bindA (argstr 0 MAXPATH) (\<lambda>path.
       bindA (case path of None \<Rightarrow> ret None | Some path \<Rightarrow> create path T_DEVICE (wrap16 major) (wrap16 minor)) (\<lambda>r.
         case r of None \<Rightarrow> doM end_op (ret (-1)) | Some ip \<Rightarrow> doM (iunlockput ip) (doM end_op (ret 0)))))))"

definition sys_chdir :: "int kact" where
  "sys_chdir =
     doM begin_op (bindA (argstr 0 MAXPATH) (\<lambda>path.
       bindA (case path of None \<Rightarrow> ret None | Some path \<Rightarrow> namei path) (\<lambda>r.
         case r of None \<Rightarrow> doM end_op (ret (-1))
         | Some ip \<Rightarrow>
             doM (ilock ip) (bindA (iget_of ip i_type) (\<lambda>t.
               if t \<noteq> T_DIR then doM (iunlockput ip) (doM end_op (ret (-1)))
               else doM (iunlock ip)
                 (bindA (get (\<lambda>s. p_cwd (myproc s))) (\<lambda>c.
                   doM (case c of None \<Rightarrow> panic ''kerneltrap'' | Some old \<Rightarrow> iput old)
                   (doM end_op (doM (upd (\<lambda>s. set_proc (cur s) (\<lambda>p. p\<lparr>p_cwd := Some ip\<rparr>) s)) (ret 0))))))))))"

section \<open>Exec and pipe\<close>

text \<open>The argument strings and the pages that hold them; \<open>None\<close> when an argument cannot be fetched.\<close>

primrec fetch_args :: "nat \<Rightarrow> nat \<Rightarrow> nat \<Rightarrow> nat list \<Rightarrow> u8 list list \<Rightarrow> (nat list \<times> u8 list list option) kact" where
  "fetch_args uargv 0 i pages args = ret (pages, None)"
| "fetch_args uargv (Suc n) i pages args =
     bindA (fetchaddr (add64 uargv (8 * i))) (\<lambda>(uarg, r).
       if r < 0 then ret (pages, None)
       else if uarg = 0 then ret (pages, Some args)
       else bindA kalloc_act (\<lambda>page.
         if page = 0 then ret (pages, None)
         else bindA (fetchstr uarg PGSIZE) (\<lambda>str.
           case str of None \<Rightarrow> ret (pages @ [page], None)
           | Some a \<Rightarrow>
               doM (upd (\<lambda>s. set_kmem (store_bytes page (a @ [0]) (kmem_of s)) s))
                 (fetch_args uargv n (i + 1) (pages @ [page]) (args @ [a])))))"

primrec free_pages :: "nat list \<Rightarrow> unit kact" where
  "free_pages [] = ret ()"
| "free_pages (p # ps) = doM (kfree_act p) (free_pages ps)"

definition sys_exec :: "int kact" where
  "sys_exec =
     bindA (argaddr 1) (\<lambda>uargv. bindA (argstr 0 MAXPATH) (\<lambda>path.
       case path of None \<Rightarrow> ret (-1)
       | Some path \<Rightarrow> bindA (fetch_args uargv MAXARG 0 [] []) (\<lambda>(pages, args).
           case args of None \<Rightarrow> doM (free_pages pages) (ret (-1))
           | Some args \<Rightarrow> bindA (kexec path args) (\<lambda>r. doM (free_pages pages) (ret r)))))"

definition sys_pipe :: "int kact" where
  "sys_pipe =
     bindA (argaddr 0) (\<lambda>fdarray. bindA pipealloc (\<lambda>r.
       case r of None \<Rightarrow> ret (-1)
       | Some (rfile, wfile) \<Rightarrow>
           bindA (fdalloc rfile) (\<lambda>fd0.
           bindA (if fd0 < 0 then ret (-1) else fdalloc wfile) (\<lambda>fd1.
             if fd0 < 0 \<or> fd1 < 0 then
               doM (if fd0 \<ge> 0 then clear_fd (nat fd0) else ret ()) (doM (fileclose rfile) (doM (fileclose wfile) (ret (-1))))
             else
               bindA (get (\<lambda>s. p_pagetable (myproc s))) (\<lambda>pt.
               bindA (ucopyout pt fdarray (word32_bytes fd0)) (\<lambda>r0.
               bindA (if r0 < 0 then ret r0 else ucopyout pt (add64 fdarray 4) (word32_bytes fd1)) (\<lambda>r.
                 if r < 0 then
                   doM (clear_fd (nat fd0)) (doM (clear_fd (nat fd1)) (doM (fileclose rfile) (doM (fileclose wfile) (ret (-1)))))
                 else ret 0)))))))"

end
