(* ===== verification/Kernel_Frames.thy ===== *)
theory Kernel_Frames
  imports Frames Sysfile
begin

text \<open>
  The file system and the memory system leave the file table and the process table alone: the frame
  rules, one for each routine of the buffer cache, the log and kernel/fs.c.
\<close>

definition core :: "kst \<Rightarrow> (nat \<Rightarrow> kfile) \<times> (nat \<Rightarrow> proc) \<times> nat \<times> nat" where
  "core s = (ftable s, procs s, cur s, initproc s)"

lemma core_simps [simp]:
  "core (set_buf i f s) = core s" "core (set_inode i g s) = core s" "core (set_kmem k s) = core s"
  by (simp_all add: core_def set_buf_def set_inode_def set_kmem_def)

lemma keeps_upd_core [keeps_intros]:
  "keeps core (upd (set_buf i f))" "keeps core (upd (set_inode i g))"
  by (rule keeps_upd, simp)+

section \<open>Memory\<close>

lemma keeps_on_mem [keeps_intros]: "keeps core (on_mem f)"
  unfolding keeps_def by (auto simp: on_mem_def bindR_eq_Ok)

lemma keeps_on_memF [keeps_intros]: "keeps core (on_memF f)"
  unfolding keeps_def by (auto simp: on_memF_def bindF_eq_Ok)

lemma keeps_on_memU [keeps_intros]: "keeps core (on_memU f)"
  unfolding on_memU_def by (rule keeps_intros)

lemma keeps_ucopyout [keeps_intros]: "keeps core (ucopyout pt va bs)"
  unfolding ucopyout_def by (intro keeps_intros)

lemma keeps_ucopyin [keeps_intros]: "keeps core (ucopyin pt va n)"
  unfolding ucopyin_def by (intro keeps_intros)

lemma keeps_either_copyout [keeps_intros]: "keeps core (either_copyout a bs)"
  by (cases a) (auto intro!: keeps_intros keeps_upd simp: core_def set_kmem_def)

lemma keeps_either_copyin [keeps_intros]: "keeps core (either_copyin a n)"
  by (cases a) (auto intro!: keeps_intros)

lemma keeps_args [keeps_intros]:
  "keeps core (fetchaddr a)" "keeps core (fetchstr a n)" "keeps core (argraw m)" "keeps core (argint m)"
  "keeps core (argaddr m)" "keeps core (argstr m n)"
  unfolding fetchaddr_def fetchstr_def argraw_def argint_def argaddr_def argstr_def by (intro keeps_intros)+

lemma keeps_pages [keeps_intros]: "keeps core kalloc_act" "keeps core (kfree_act p)"
  unfolding kalloc_act_def kfree_act_def by (intro keeps_intros)+

section \<open>Buffer cache and log\<close>

lemma keeps_bio [keeps_intros]:
  "keeps core (acquirebuf i)" "keeps core (bget d b)" "keeps core (virtio_disk_rw i w)" "keeps core (bread d b)" "keeps core (bwrite i)"
  "keeps core (brelse i)" "keeps core (bpin i)" "keeps core (bunpin i)" "keeps core (set_data i f)"
proof -
  show a: "keeps core (acquirebuf i)" for i unfolding acquirebuf_def by (intro keeps_intros)
  show b: "keeps core (bget d b)" for d b unfolding bget_def by (intro keeps_intros a)
  show v: "keeps core (virtio_disk_rw i w)" for i w
    unfolding virtio_disk_rw_def by (rule keeps_upd) (auto simp: Let_def core_def set_buf_def)
  show "keeps core (bread d b)" unfolding bread_def by (intro keeps_intros b v)
  show "keeps core (bwrite i)" unfolding bwrite_def by (intro keeps_intros v)
  show "keeps core (brelse i)" unfolding brelse_def
    by (intro keeps_intros keeps_upd) (auto simp: Let_def core_def set_buf_def)
  show "keeps core (bpin i)" "keeps core (bunpin i)" "keeps core (set_data i f)"
    unfolding bpin_def bunpin_def set_data_def by (intro keeps_intros)+
qed

lemma keeps_log [keeps_intros]:
  "keeps core (copy_in t r)" "keeps core (install_trans r)" "keeps core read_head" "keeps core write_head" "keeps core recover_from_log"
  "keeps core (initlog d b)" "keeps core begin_op" "keeps core (copy_out t)" "keeps core write_log" "keeps core commit" "keeps core end_op"
  "keeps core (log_write b)"
proof -
  show i: "keeps core (copy_in t r)" for t r unfolding copy_in_def by (intro keeps_intros)
  show t: "keeps core (install_trans r)" for r unfolding install_trans_def by (intro keeps_intros i)
  show r: "keeps core read_head" unfolding read_head_def by (intro keeps_intros keeps_upd) (simp add: core_def)
  show w: "keeps core write_head" unfolding write_head_def by (intro keeps_intros)
  show rc: "keeps core recover_from_log" unfolding recover_from_log_def
    by (intro keeps_intros r t w keeps_upd) (simp add: core_def)
  show "keeps core (initlog d b)" unfolding initlog_def by (intro keeps_intros rc keeps_upd) (simp add: core_def)
  show "keeps core begin_op" unfolding begin_op_def by (intro keeps_intros keeps_upd) (simp add: core_def)
  show o: "keeps core (copy_out t)" for t unfolding copy_out_def by (intro keeps_intros)
  show l: "keeps core write_log" unfolding write_log_def by (intro keeps_intros o)
  show c: "keeps core commit" unfolding commit_def by (intro keeps_intros l w t keeps_upd) (simp add: core_def)
  show "keeps core end_op" unfolding end_op_def by (intro keeps_intros c keeps_upd) (simp_all add: core_def)
  show "keeps core (log_write b)" unfolding log_write_def by (intro keeps_intros keeps_upd) (simp_all add: core_def)
qed

section \<open>The file system\<close>

lemma keeps_blocks [keeps_intros]: "keeps core (bzero d b)" "keeps core (balloc d)" "keeps core (bfree d b)" "keeps core (readsb d)"
proof -
  show z: "keeps core (bzero d b)" for d b unfolding bzero_def by (intro keeps_intros)
  have "keeps core (balloc_loop d n b)" for n b
    by (induction d n b rule: balloc_loop.induct) (subst balloc_loop.simps, intro keeps_intros z, blast+)
  then show "keeps core (balloc d)" unfolding balloc_def by (intro keeps_intros)
  show "keeps core (bfree d b)" unfolding bfree_def by (intro keeps_intros)
  show "keeps core (readsb d)" unfolding readsb_def by (intro keeps_intros keeps_upd) (simp add: core_def)
qed

lemma keeps_inodes [keeps_intros]:
  "keeps core (iget d n)" "keeps core (ialloc d ty)" "keeps core (iupdate ip)" "keeps core (idup ip)" "keeps core (lock_inode ip)"
  "keeps core (unlock_inode ip)" "keeps core (ilock ip)" "keeps core (iunlock ip)" "keeps core (itrunc ip)" "keeps core (iput ip)"
  "keeps core (iunlockput ip)"
proof -
  show g: "keeps core (iget d n)" for d n unfolding iget_def by (intro keeps_intros)
  have "keeps core (ialloc_loop d ty m n)" for m n
    by (induction d ty m n rule: ialloc_loop.induct) (subst ialloc_loop.simps, intro keeps_intros g, blast+)
  then show "keeps core (ialloc d ty)" unfolding ialloc_def by (intro keeps_intros)
  show u: "keeps core (iupdate ip)" unfolding iupdate_def by (intro keeps_intros)
  show "keeps core (idup ip)" unfolding idup_def by (intro keeps_intros)
  show l: "keeps core (lock_inode ip)" "keeps core (unlock_inode ip)" unfolding lock_inode_def unlock_inode_def by (intro keeps_intros)+
  show "keeps core (ilock ip)" unfolding ilock_def by (intro keeps_intros l)
  show iu: "keeps core (iunlock ip)" unfolding iunlock_def by (intro keeps_intros l)
  have "keeps core (free_direct ip i)" for i unfolding free_direct_def by (intro keeps_intros)
  then show t: "keeps core (itrunc ip)" unfolding itrunc_def by (intro keeps_intros u)
  show p: "keeps core (iput ip)" unfolding iput_def by (intro keeps_intros l t u)
  show "keeps core (iunlockput ip)" unfolding iunlockput_def by (intro keeps_intros iu p)
qed

lemma keeps_contents [keeps_intros]: "keeps core (bmap ip bn)" "keeps core (readi ip a off n)" "keeps core (writei ip a off n)"
proof -
  show b: "keeps core (bmap ip bn)" for ip bn unfolding bmap_def by (intro keeps_intros)
  have "keeps core (readi_loop ip a off n t)" for a off n t
    by (induction ip a off n t rule: readi_loop.induct) (subst readi_loop.simps, intro keeps_intros b, blast+)
  then show "keeps core (readi ip a off n)" unfolding readi_def by (intro keeps_intros)
  have "keeps core (writei_loop ip a off n t)" for a off n t
    by (induction ip a off n t rule: writei_loop.induct) (subst writei_loop.simps, intro keeps_intros b, blast+)
  then show "keeps core (writei ip a off n)" unfolding writei_def by (intro keeps_intros)
qed

lemma keeps_dirs [keeps_intros]:
  "keeps core (dirlookup dp nm)" "keeps core (dirlink dp nm i)" "keeps core (namex path par)" "keeps core (namei path)"
  "keeps core (nameiparent path)" "keeps core (isdirempty dp)"
proof -
  have "keeps core (dirlookup_loop dp nm sz off)" for dp nm sz off
    by (induction dp nm sz off rule: dirlookup_loop.induct) (subst dirlookup_loop.simps, intro keeps_intros, blast+)
  then show l: "keeps core (dirlookup dp nm)" for dp nm unfolding dirlookup_def by (intro keeps_intros)
  have "keeps core (free_dirent dp sz off)" for sz off
    by (induction dp sz off rule: free_dirent.induct) (subst free_dirent.simps, intro keeps_intros, blast+)
  then show "keeps core (dirlink dp nm i)" unfolding dirlink_def
    by (intro keeps_intros l keeps_upd) (simp_all add: core_def)
  have "keeps core (namex_loop p par ip nm)" for p par ip nm
    by (induction p par ip nm rule: namex_loop.induct) (subst namex_loop.simps, intro keeps_intros l, blast+)
  then show x: "keeps core (namex path par)" for path par unfolding namex_def by (intro keeps_intros)
  show "keeps core (namei path)" "keeps core (nameiparent path)" unfolding namei_def nameiparent_def by (intro keeps_intros x)+
  have "keeps core (isdirempty_loop dp sz off)" for sz off
    by (induction dp sz off rule: isdirempty_loop.induct) (subst isdirempty_loop.simps, intro keeps_intros, blast+)
  then show "keeps core (isdirempty dp)" unfolding isdirempty_def by (intro keeps_intros)
qed

lemma keeps_create [keeps_intros]:
  "keeps core (add_nlink ip k)" "keeps core (create path ty ma mi)" "keeps core (open_inode path om)" "keeps core sys_link" "keeps core sys_unlink"
  "keeps core sys_mkdir" "keeps core sys_mknod"
proof -
  show a: "keeps core (add_nlink ip k)" for ip k unfolding add_nlink_def by (intro keeps_intros)
  show c: "keeps core (create path ty ma mi)" for path ty ma mi
    unfolding create_def create_fail_def by (intro keeps_intros a)
  show "keeps core (open_inode path om)" unfolding open_inode_def by (intro keeps_intros c)
  show "keeps core sys_link" unfolding sys_link_def link_bad_def by (intro keeps_intros a)
  show "keeps core sys_unlink" unfolding sys_unlink_def unlink_bad_def
    by (intro keeps_intros a keeps_upd) (simp_all add: core_def)
  show "keeps core sys_mkdir" "keeps core sys_mknod" unfolding sys_mkdir_def sys_mknod_def by (intro keeps_intros c)+
qed

section \<open>Devices\<close>

text \<open>A device function leaves the tables of files and processes alone.\<close>

definition dev_frames :: "(nat \<Rightarrow> devfn option) \<Rightarrow> bool" where
  "dev_frames dev \<longleftrightarrow> (\<forall>i g. dev i = Some g \<longrightarrow> (\<forall>a n. keeps core (g a n)))"

end
