(* ===== verification/Trap.thy ===== *)
theory Trap
  imports Sysfile
begin

text \<open>
  kernel/sysproc.c, the dispatch of kernel/syscall.c, kernel/trap.c and \<open>forkret\<close> of kernel/proc.c.
  The control registers of the hart are a record. \<open>others\<close> is what the other processes do while this
  one has given up the CPU in \<open>yield\<close>; the handlers of the UART and the disk are arguments.
\<close>

section \<open>System calls on processes\<close>

definition SBRK_EAGER :: int where "SBRK_EAGER = 1"

definition sys_getpid :: "int kact" where
  "sys_getpid = get (\<lambda>s. p_pid (myproc s))"

definition sys_fork :: "int kact" where
  "sys_fork = kfork"

definition sys_wait :: "int kact" where
  "sys_wait = bindA (argaddr 0) kwait"

definition sys_sbrk :: "int kact" where
  "sys_sbrk =
     bindA (argint 0) (\<lambda>n. bindA (argint 1) (\<lambda>t. bindA (get (\<lambda>s. p_sz (myproc s))) (\<lambda>addr.
       if t = SBRK_EAGER \<or> n < 0 then bindA (growproc n) (\<lambda>r. if r < 0 then ret (-1) else ret (int addr))
       else if add64 addr (nat n) < addr then ret (-1)
       else doM (upd (\<lambda>s. set_proc (cur s) (\<lambda>p. p\<lparr>p_sz := add64 (p_sz p) (nat n)\<rparr>) s)) (ret (int addr)))))"

text \<open>\<open>sys_pause\<close> up to its first sleep: no tick passes between reading the clock and testing it.\<close>

definition sys_pause :: "int kact" where
  "sys_pause =
     bindA (argint 0) (\<lambda>n0. let n = (if n0 < 0 then 0 else n0) in
       bindA (get (\<lambda>s. (ticks s, cur s))) (\<lambda>(ticks0, me).
         if int (sub32 ticks0 ticks0) < n then bindA (killed me) (\<lambda>k. if k then ret (-1) else blocked)
         else ret 0))"

definition sys_kill :: "int kact" where
  "sys_kill = bindA (argint 0) (\<lambda>pid. bindA (argint 1) (\<lambda>signum. kkill pid signum))"

definition sys_signal :: "int kact" where
  "sys_signal =
     bindA (argint 0) (\<lambda>signum. bindA (argaddr 1) (\<lambda>handler.
       if signum < 0 \<or> signum \<ge> int NSIG \<or> signum = int SIGKILL then ret (-1)
       else bindA (get (\<lambda>s. p_handlers (myproc s) (nat signum))) (\<lambda>previous.
         doM (upd (\<lambda>s. set_proc (cur s) (\<lambda>p. p\<lparr>p_handlers := (p_handlers p)(nat signum := handler),
             p_valid_handlers := p_valid_handlers p OR push_bit (nat signum) 1\<rparr>) s))
           (ret (int previous)))))"

definition sys_sigreturn :: "int kact" where
  "sys_sigreturn =
     bindA (get (\<lambda>s. (cur s, myproc s))) (\<lambda>(me, p).
       if \<not> p_sigframe_valid p then ret (-1)
       else
         doM (upd (\<lambda>s. set_kmem (store_bytes (p_trapframe p) (bytes_at (p_sigframe p) 0 TF_SIZE) (kmem_of s)) s))
         (bindA (get (\<lambda>s. tf_get me (TF_A 0) s)) (\<lambda>r.
           doM (upd (set_proc me (\<lambda>p. p\<lparr>p_sigframe_valid := False\<rparr>))) (ret (int r)))))"

definition sys_uptime :: "int kact" where
  "sys_uptime = get (\<lambda>s. int (ticks s))"

section \<open>Dispatch\<close>

text \<open>
  \<open>Some r\<close> is the result of a call that returns; \<open>sys_exit\<close> does not. \<open>sys_halt\<close> stops the machine.
\<close>

definition sys_exit :: "int option kact" where
  "sys_exit = bindA (argint 0) (\<lambda>n. doM (kexit n) (ret None))"

definition returning :: "int kact \<Rightarrow> int option kact" where
  "returning m = bindA m (\<lambda>r. ret (Some r))"

definition syscalls :: "(nat \<Rightarrow> devfn option) \<Rightarrow> (nat \<Rightarrow> devfn option) \<Rightarrow> nat \<Rightarrow> int option kact option" where
  "syscalls devread devwrite num =
     (if num = 1 then Some (returning sys_fork)
      else if num = 2 then Some sys_exit
      else if num = 3 then Some (returning sys_wait)
      else if num = 4 then Some (returning sys_pipe)
      else if num = 5 then Some (returning (sys_read devread))
      else if num = 6 then Some (returning sys_kill)
      else if num = 7 then Some (returning sys_exec)
      else if num = 8 then Some (returning sys_fstat)
      else if num = 9 then Some (returning sys_chdir)
      else if num = 10 then Some (returning sys_dup)
      else if num = 11 then Some (returning sys_getpid)
      else if num = 12 then Some (returning sys_sbrk)
      else if num = 13 then Some (returning sys_pause)
      else if num = 14 then Some (returning sys_uptime)
      else if num = 15 then Some (returning sys_open)
      else if num = 16 then Some (returning (sys_write devwrite))
      else if num = 17 then Some (returning sys_mknod)
      else if num = 18 then Some (returning sys_unlink)
      else if num = 19 then Some (returning sys_link)
      else if num = 20 then Some (returning sys_mkdir)
      else if num = 21 then Some (returning sys_close)
      else if num = 22 then Some (ret None)
      else if num = 23 then Some (returning sys_signal)
      else if num = 24 then Some (returning sys_sigreturn)
      else None)"

definition uint64 :: "int \<Rightarrow> nat" where "uint64 v = nat (v mod 2 ^ 64)"

text \<open>\<open>syscall\<close> tells whether the process goes on.\<close>

definition syscall :: "(nat \<Rightarrow> devfn option) \<Rightarrow> (nat \<Rightarrow> devfn option) \<Rightarrow> bool kact" where
  "syscall devread devwrite =
     bindA (get (\<lambda>s. (cur s, int32 (tf_get (cur s) (TF_A 7) s mod 2 ^ 32)))) (\<lambda>(me, num).
       case (if num > 0 then syscalls devread devwrite (nat num) else None) of
         Some call \<Rightarrow> bindA call (\<lambda>r.
           case r of None \<Rightarrow> ret False
           | Some v \<Rightarrow> doM (upd (tf_set me (TF_A 0) (uint64 v))) (ret True))
       | None \<Rightarrow> doM (upd (tf_set me (TF_A 0) (uint64 (-1)))) (ret True))"

section \<open>Signals\<close>

definition deliver :: "nat \<Rightarrow> nat \<Rightarrow> unit kact" where
  "deliver i signum =
     doM (upd (set_proc i (\<lambda>p. p\<lparr>p_pending := p_pending p AND NOT (push_bit signum 1)\<rparr>)))
     (bindA (get (\<lambda>s. procs s i)) (\<lambda>p.
       if signum = SIGKILL then upd (set_proc i (\<lambda>p. p\<lparr>p_killed := True\<rparr>))
       else if p_valid_handlers p AND push_bit signum 1 = 0 then upd (set_proc i (\<lambda>p. p\<lparr>p_killed := True\<rparr>))
       else
         doM (upd (\<lambda>s. set_proc i (\<lambda>p. p\<lparr>p_sigframe := put_bytes 0 (load_bytes (p_trapframe p) TF_SIZE (kmem_of s)) (p_sigframe p),
            p_sigframe_valid := True\<rparr>) s))
         (doM (upd (tf_set i TF_EPC (p_handlers p signum)))
         (doM (upd (tf_set i (TF_A 0) signum)) (upd (tf_set i TF_RA (uint64 (-1))))))))"

definition handle_signals :: "nat \<Rightarrow> unit kact" where
  "handle_signals i =
     bindA (get (\<lambda>s. procs s i)) (\<lambda>p.
       if p_sigframe_valid p \<or> p_pending p = 0 then ret ()
       else case find (\<lambda>sig. p_pending p AND push_bit sig 1 \<noteq> 0) [0..<NSIG] of
         None \<Rightarrow> ret ()
       | Some signum \<Rightarrow> deliver i signum)"

section \<open>Traps\<close>

record csr =
  sstatus :: u64
  sepc :: nat
  scause :: nat
  stval :: nat
  stvec :: nat
  satp :: nat
  tp :: nat
  stimecmp :: nat

definition SSTATUS_SPP :: u64 where "SSTATUS_SPP = push_bit 8 1"
definition SSTATUS_SPIE :: u64 where "SSTATUS_SPIE = push_bit 5 1"
definition SSTATUS_SIE :: u64 where "SSTATUS_SIE = push_bit 1 1"
definition MAKE_SATP :: "nat \<Rightarrow> u64" where "MAKE_SATP pt = push_bit 60 8 OR drop_bit 12 (of_nat pt)"

definition intr_on :: "csr \<Rightarrow> csr" where "intr_on c = c\<lparr>sstatus := sstatus c OR SSTATUS_SIE\<rparr>"
definition intr_off :: "csr \<Rightarrow> csr" where "intr_off c = c\<lparr>sstatus := sstatus c AND NOT SSTATUS_SIE\<rparr>"
definition intr_get :: "csr \<Rightarrow> bool" where "intr_get c \<longleftrightarrow> sstatus c AND SSTATUS_SIE \<noteq> 0"

definition prepare_csr :: "nat \<Rightarrow> nat \<Rightarrow> csr \<Rightarrow> csr" where
  "prepare_csr uservec_va epc c =
     (let c1 = intr_off c in
      c1\<lparr>stvec := uservec_va, sstatus := (sstatus c1 AND NOT SSTATUS_SPP) OR SSTATUS_SPIE, sepc := epc\<rparr>)"

text \<open>\<open>uservec\<close> and \<open>usertrap_va\<close> are the addresses of the two entry points.\<close>

definition prepare_return :: "nat \<Rightarrow> nat \<Rightarrow> csr \<Rightarrow> csr kact" where
  "prepare_return uservec usertrap_va c =
     bindA (get (\<lambda>s. (cur s, trampoline s, p_kstack (myproc s)))) (\<lambda>(me, tramp, kstack).
       doM (upd (tf_set me TF_KERNEL_SATP (satp c)))
       (doM (upd (tf_set me TF_KERNEL_SP (add64 kstack PGSIZE)))
       (doM (upd (tf_set me TF_KERNEL_TRAP usertrap_va))
       (doM (upd (tf_set me TF_KERNEL_HARTID (tp c)))
       (bindA (get (tf_get me TF_EPC)) (\<lambda>epc.
         ret (prepare_csr (add64 TRAMPOLINE (sub64 uservec tramp)) epc c)))))))"

definition clockintr :: "nat \<Rightarrow> csr \<Rightarrow> csr kact" where
  "clockintr now c =
     doM (if tp c = 0 then doM (upd (\<lambda>s. s\<lparr>ticks := add32 (ticks s) 1\<rparr>)) (wakeup Ch_ticks) else ret ())
       (ret (c\<lparr>stimecmp := add64 now 1000000\<rparr>))"

definition UART0_IRQ :: nat where "UART0_IRQ = 10"
definition VIRTIO0_IRQ :: nat where "VIRTIO0_IRQ = 1"

text \<open>\<open>irq\<close> is what the interrupt controller reports, \<open>now\<close> the time.\<close>

definition devintr :: "unit kact \<Rightarrow> unit kact \<Rightarrow> nat \<Rightarrow> nat \<Rightarrow> csr \<Rightarrow> (nat \<times> csr) kact" where
  "devintr uartintr virtio_disk_intr irq now c =
     (if scause c = 0x8000000000000009 then
        doM (if irq = UART0_IRQ then uartintr else if irq = VIRTIO0_IRQ then virtio_disk_intr else ret ()) (ret (1, c))
      else if scause c = 0x8000000000000005 then bindA (clockintr now c) (\<lambda>c1. ret (2, c1))
      else ret (0, c))"

text \<open>
  \<open>yield\<close> makes the process runnable and switches to the scheduler; it is back when a scheduler has
  chosen it again.
\<close>

definition yield_act :: "unit kact \<Rightarrow> unit kact" where
  "yield_act others =
     bindA (get cur) (\<lambda>me.
       doM (upd (set_proc me (\<lambda>p. p\<lparr>p_state := RUNNABLE\<rparr>)))
       (doM others (upd (\<lambda>s. set_proc me (\<lambda>p. p\<lparr>p_state := RUNNING\<rparr>) (s\<lparr>cur := me\<rparr>)))))"

definition finish_trap :: "nat \<Rightarrow> nat \<Rightarrow> csr \<Rightarrow> (csr \<times> u64) option kact" where
  "finish_trap uservec usertrap_va c =
     bindA (get cur) (\<lambda>me.
       doM (handle_signals me)
       (bindA (killed me) (\<lambda>k.
         if k then doM (kexit (-1)) (ret None)
         else bindA (prepare_return uservec usertrap_va c) (\<lambda>c1.
           bindA (get (\<lambda>s. p_pagetable (procs s me))) (\<lambda>pt. ret (Some (c1, MAKE_SATP pt)))))))"

text \<open>
  \<open>usertrap\<close> returns the registers and the page table to return to user space with, or nothing when
  the process has exited.
\<close>

definition usertrap :: "(nat \<Rightarrow> devfn option) \<Rightarrow> (nat \<Rightarrow> devfn option) \<Rightarrow> unit kact \<Rightarrow> unit kact \<Rightarrow> unit kact \<Rightarrow>
    nat \<Rightarrow> nat \<Rightarrow> nat \<Rightarrow> nat \<Rightarrow> nat \<Rightarrow> csr \<Rightarrow> (csr \<times> u64) option kact" where
  "usertrap devread devwrite uartintr virtio_disk_intr others irq now kernelvec uservec usertrap_va c0 =
     (if sstatus c0 AND SSTATUS_SPP \<noteq> 0 then panic ''usertrap: not from user mode''
      else let c = c0\<lparr>stvec := kernelvec\<rparr> in
        bindA (get (\<lambda>s. (cur s, myproc s))) (\<lambda>(me, p).
          if p_kthread p then panic ''kthread in usertrap''
          else doM (upd (tf_set me TF_EPC (sepc c)))
            (if scause c = 8 then
               bindA (killed me) (\<lambda>k.
                 if k then doM (kexit (-1)) (ret None)
                 else doM (upd (\<lambda>s. tf_set me TF_EPC (add64 (tf_get me TF_EPC s) 4) s))
                   (bindA (syscall devread devwrite) (\<lambda>go.
                     if go then finish_trap uservec usertrap_va (intr_on c) else ret None)))
             else
               bindA (devintr uartintr virtio_disk_intr irq now c) (\<lambda>(which, c1).
                 if which \<noteq> 0 then
                   doM (if which = 2 then yield_act others else ret ()) (finish_trap uservec usertrap_va c1)
                 else
                   bindA (if scause c = 15 \<or> scause c = 13 then
                            on_mem (vmfault (p_sz p) (p_pagetable p) (p_pagetable p) (stval c)) else ret 0) (\<lambda>pa.
                     doM (if pa \<noteq> 0 then ret () else setkilled me) (finish_trap uservec usertrap_va c1))))))"

definition kerneltrap :: "unit kact \<Rightarrow> unit kact \<Rightarrow> unit kact \<Rightarrow> bool \<Rightarrow> nat \<Rightarrow> nat \<Rightarrow> csr \<Rightarrow> csr kact" where
  "kerneltrap uartintr virtio_disk_intr others have_proc irq now c =
     (if sstatus c AND SSTATUS_SPP = 0 then panic ''kerneltrap: not from supervisor mode''
      else if intr_get c then panic ''kerneltrap: interrupts enabled''
      else bindA (devintr uartintr virtio_disk_intr irq now c) (\<lambda>(which, c1).
        if which = 0 then panic ''kerneltrap''
        else doM (if which = 2 \<and> have_proc then yield_act others else ret ())
          (ret (c1\<lparr>sepc := sepc c, sstatus := sstatus c\<rparr>))))"

section \<open>The first return to user space\<close>

definition init_path :: "u8 list" where "init_path = [47, 105, 110, 105, 116]"

definition forkret :: "nat \<Rightarrow> nat \<Rightarrow> csr \<Rightarrow> (csr \<times> u64) kact" where
  "forkret uservec usertrap_va c =
     bindA (get (\<lambda>s. (cur s, first_run s))) (\<lambda>(me, first).
       doM (if first then
              doM (fsinit ROOTDEV)
              (doM (upd (\<lambda>s. s\<lparr>first_run := False\<rparr>))
              (bindA (kexec init_path [init_path]) (\<lambda>r.
                doM (upd (tf_set me (TF_A 0) (uint64 r)))
                  (if uint64 r = uint64 (-1) then panic ''exec'' else ret ()))))
            else ret ())
       (bindA (prepare_return uservec usertrap_va c) (\<lambda>c1.
         bindA (get (\<lambda>s. p_pagetable (procs s me))) (\<lambda>pt. ret (c1, MAKE_SATP pt)))))"

end
