(* ===== verification/File_Refs.thy ===== *)
theory File_Refs
  imports Kernel_Frames Trap
begin

text \<open>
  The reference count of an open file is the number of descriptors that refer to it, and every system
  call keeps it so. While a call runs, \<open>E f\<close> references of \<open>f\<close> are held by the call itself.
\<close>

section \<open>The invariant\<close>

definition dead :: "procstate \<Rightarrow> bool" where
  "dead st \<longleftrightarrow> st = UNUSED \<or> st = ZOMBIE"

definition descriptors :: "nat \<Rightarrow> kst \<Rightarrow> (nat \<times> nat) set" where
  "descriptors f s = {(i, fd). i < NPROC \<and> fd < NOFILE \<and> p_ofile (procs s i) fd = Some f}"

definition refs_ok :: "(nat \<Rightarrow> int) \<Rightarrow> kst \<Rightarrow> bool" where
  "refs_ok E s \<longleftrightarrow>
     (\<forall>f<NFILE. f_ref (ftable s f) = int (card (descriptors f s)) + E f) \<and>
     (\<forall>i<NPROC. \<forall>fd<NOFILE. \<forall>f. p_ofile (procs s i) fd = Some f \<longrightarrow> f < NFILE) \<and>
     (\<forall>i<NPROC. dead (p_state (procs s i)) \<longrightarrow> (\<forall>fd<NOFILE. p_ofile (procs s i) fd = None))"

definition running :: "kst \<Rightarrow> bool" where
  "running s \<longleftrightarrow> cur s < NPROC \<and> p_state (myproc s) = RUNNING"

definition fview :: "kst \<Rightarrow> (nat \<Rightarrow> int) \<times> (nat \<Rightarrow> nat \<Rightarrow> nat option) \<times> (nat \<Rightarrow> bool) \<times> nat \<times> bool" where
  "fview s = (\<lambda>f. f_ref (ftable s f), \<lambda>i. p_ofile (procs s i), \<lambda>i. dead (p_state (procs s i)), cur s, p_state (myproc s) = RUNNING)"

lemma fview_eq:
  assumes "fview s' = fview s"
  shows "f_ref (ftable s' f) = f_ref (ftable s f)" "p_ofile (procs s' i) = p_ofile (procs s i)"
    "dead (p_state (procs s' i)) = dead (p_state (procs s i))" "cur s' = cur s"
    "p_state (procs s' (cur s)) = RUNNING \<longleftrightarrow> p_state (myproc s) = RUNNING"
proof -
  have f: "(\<lambda>f. f_ref (ftable s' f)) = (\<lambda>f. f_ref (ftable s f))"
    and o: "(\<lambda>i. p_ofile (procs s' i)) = (\<lambda>i. p_ofile (procs s i))"
    and d: "(\<lambda>i. dead (p_state (procs s' i))) = (\<lambda>i. dead (p_state (procs s i)))"
    and c: "cur s' = cur s" and r: "(p_state (myproc s') = RUNNING) = (p_state (myproc s) = RUNNING)"
    using assms unfolding fview_def prod.inject by iprover+
  show "f_ref (ftable s' f) = f_ref (ftable s f)" by (rule fun_cong [OF f])
  show "p_ofile (procs s' i) = p_ofile (procs s i)" by (rule fun_cong [OF o])
  show "dead (p_state (procs s' i)) = dead (p_state (procs s i))" by (rule fun_cong [OF d])
  show "cur s' = cur s" by (rule c)
  show "p_state (procs s' (cur s)) = RUNNING \<longleftrightarrow> p_state (myproc s) = RUNNING" using r unfolding c .
qed

lemma refs_ok_view:
  assumes "fview s' = fview s"
  shows "refs_ok E s' = refs_ok E s"
  by (simp add: refs_ok_def descriptors_def fview_eq [OF assms])

lemma running_view:
  assumes "fview s' = fview s"
  shows "running s' = running s"
  by (simp add: running_def fview_eq [OF assms])

lemma keeps_fview: "keeps core m \<Longrightarrow> keeps fview m"
proof -
  define h where "h = (\<lambda>(ft :: nat \<Rightarrow> kfile, ps :: nat \<Rightarrow> proc, c, _ :: nat).
    (\<lambda>f. f_ref (ft f), \<lambda>i. p_ofile (ps i), \<lambda>i. dead (p_state (ps i)), c :: nat, p_state (ps c) = RUNNING))"
  have "fview = (\<lambda>s. h (core s))" by (rule ext) (simp add: fview_def core_def h_def)
  then show "keeps fview m" if "keeps core m" using keeps_comp [OF that, of h] by simp
qed

abbreviation inv :: "(nat \<Rightarrow> int) \<Rightarrow> kst \<Rightarrow> bool" where
  "inv E s \<equiv> refs_ok E s \<and> running s"

lemma pres_fview: "keeps fview m \<Longrightarrow> pres (inv E) m (\<lambda>_. inv E)"
  by (rule pres_keeps, assumption) (blast dest: refs_ok_view running_view)

lemma finite_descriptors [simp]: "finite (descriptors f s)"
  by (rule finite_subset [of _ "{..<NPROC} \<times> {..<NOFILE}"]) (auto simp: descriptors_def)

text \<open>Changing one descriptor.\<close>

lemma descriptors_set:
  fixes new :: "nat option"
  assumes "i < NPROC" "fd < NOFILE" "p_ofile (procs s i) fd = old"
  defines "s' \<equiv> set_proc i (\<lambda>p. p\<lparr>p_ofile := (p_ofile p)(fd := new)\<rparr>) s"
  shows "int (card (descriptors f s')) =
    int (card (descriptors f s)) + (if new = Some f then 1 else 0) - (if old = Some f then 1 else 0)"
proof -
  have "descriptors f s' = (if new = Some f then insert (i, fd) else (\<lambda>x. x)) (descriptors f s - {(i, fd)})"
    using assms(1,2) unfolding s'_def by (auto simp: descriptors_def set_proc_def split: if_splits)
  moreover have "(i, fd) \<in> descriptors f s \<longleftrightarrow> old = Some f" using assms by (simp add: descriptors_def)
  moreover have "card (descriptors f s - {(i, fd)}) = card (descriptors f s) - (if (i, fd) \<in> descriptors f s then 1 else 0)"
    by simp
  moreover have "(i, fd) \<in> descriptors f s \<Longrightarrow> 0 < card (descriptors f s)" by (auto simp: card_gt_0_iff)
  ultimately show ?thesis by (auto simp: insert_absorb)
qed

lemma refs_ok_set:
  assumes "refs_ok E s" "i < NPROC" "fd < NOFILE" "p_ofile (procs s i) fd = old"
    "new \<noteq> None \<Longrightarrow> \<not> dead (p_state (procs s i))" "\<And>f. new = Some f \<Longrightarrow> f < NFILE"
  shows "refs_ok (\<lambda>f. E f - (if new = Some f then 1 else 0) + (if old = Some f then 1 else 0))
    (set_proc i (\<lambda>p. p\<lparr>p_ofile := (p_ofile p)(fd := new)\<rparr>) s)"
proof -
  let ?s' = "set_proc i (\<lambda>p. p\<lparr>p_ofile := (p_ofile p)(fd := new)\<rparr>) s"
  have "f_ref (ftable ?s' f) = int (card (descriptors f ?s')) + (E f - (if new = Some f then 1 else 0) + (if old = Some f then 1 else 0))"
    if "f < NFILE" for f
    unfolding descriptors_set [OF assms(2,3,4)] using assms(1) that by (simp add: refs_ok_def set_proc_def)
  moreover have "p_ofile (procs ?s' j) fd' = Some f \<Longrightarrow> j < NPROC \<Longrightarrow> fd' < NOFILE \<Longrightarrow> f < NFILE" for j fd' f
    using assms(1,6) by (auto simp: refs_ok_def set_proc_def split: if_splits)
  moreover have "dead (p_state (procs ?s' j)) \<Longrightarrow> j < NPROC \<Longrightarrow> fd' < NOFILE \<Longrightarrow> p_ofile (procs ?s' j) fd' = None" for j fd'
    using assms(1,5) by (cases new) (auto simp: refs_ok_def set_proc_def split: if_splits)
  ultimately show ?thesis unfolding refs_ok_def by blast
qed

lemma refs_ok_file:
  assumes "refs_ok E s" "f_ref (g (ftable s f)) = f_ref (ftable s f) + k"
  shows "refs_ok (E(f := E f + k)) (set_file f g s)"
  using assms by (auto simp: refs_ok_def set_file_def descriptors_def)

section \<open>Frame rules\<close>

lemma fview_simps [simp]:
  "fview (set_kmem k s) = fview s"
  "(\<And>x. f_ref (g x) = f_ref x) \<Longrightarrow> fview (set_file f g s) = fview s"
  "(\<And>p. p_ofile (h p) = p_ofile p \<and> dead (p_state (h p)) = dead (p_state p) \<and> (p_state (h p) = RUNNING) = (p_state p = RUNNING)) \<Longrightarrow>
     fview (set_proc i h s) = fview s"
  by (auto simp: fview_def set_kmem_def set_file_def set_proc_def fun_eq_iff)

lemmas core_ops = keeps_on_mem keeps_on_memF keeps_on_memU keeps_ucopyout keeps_ucopyin keeps_either_copyout keeps_either_copyin
  keeps_args keeps_pages keeps_log keeps_inodes keeps_contents keeps_dirs keeps_create

lemmas fv = core_ops [THEN keeps_fview]

lemma keeps_set [keeps_intros]:
  "(\<And>x. f_ref (g x) = f_ref x) \<Longrightarrow> keeps fview (upd (set_file f g))"
  "(\<And>p. p_ofile (h p) = p_ofile p \<and> dead (p_state (h p)) = dead (p_state p) \<and> (p_state (h p) = RUNNING) = (p_state p = RUNNING)) \<Longrightarrow>
     keeps fview (upd (set_proc i h))"
  "(\<And>p. p_ofile (h p) = p_ofile p \<and> dead (p_state (h p)) = dead (p_state p) \<and> (p_state (h p) = RUNNING) = (p_state p = RUNNING)) \<Longrightarrow>
     keeps fview (upd (\<lambda>s. set_proc (cur s) h s))"
  "keeps fview (upd (\<lambda>s. set_kmem (k s) s))" "keeps fview (upd (tf_set i off v))"
  by (rule keeps_upd, simp add: tf_set_def)+

lemma wake_simps [simp]: "p_ofile (wake ch p) = p_ofile p" "dead (p_state (wake ch p)) = dead (p_state p)"
  by (auto simp: wake_def dead_def)

lemma keeps_wakeup [keeps_intros]: "keeps fview (wakeup ch)"
  unfolding wakeup_def by (rule keeps_upd) (auto simp: fview_def fun_eq_iff)

lemma keeps_wakeups [keeps_intros]: "keeps fview (wakeups pi cs)"
  by (induction cs; simp only: wakeups.simps) (intro keeps_intros; assumption?)+

lemma keeps_pipes [keeps_intros]:
  "keeps fview (upd (\<lambda>s. s\<lparr>pipes := f s\<rparr>))" "keeps fview (kmfree_act p n)" "keeps fview (kmalloc_act n)"
  "keeps fview (pipeclose_file pi w)" "keeps fview (piperead_file pi a m)" "keeps fview (pipewrite_file pi a m)"
proof -
  show p: "keeps fview (upd (\<lambda>s. s\<lparr>pipes := f s\<rparr>))" for f by (rule keeps_upd) (simp add: fview_def)
  show k: "keeps fview (kmfree_act p n)" "keeps fview (kmalloc_act n)" for p n
    unfolding keeps_def by (auto simp: kmfree_act_def kmalloc_act_def bindF_eq_Ok bindR_eq_Ok fview_def)
  show "keeps fview (pipeclose_file pi w)" unfolding pipeclose_file_def by (intro keeps_intros p k)
  have b: "keeps fview (case r of Ret x \<Rightarrow> a x | Sleep c i \<Rightarrow> blocked)" if "\<And>x. keeps fview (a x)" for r and a :: "'b \<Rightarrow> 'c kact"
    using that by (cases r) (auto intro: keeps_intros)
  show "keeps fview (piperead_file pi a m)" unfolding piperead_file_def by (intro keeps_intros p b fv)
  show "keeps fview (pipewrite_file pi a m)" unfolding pipewrite_file_def by (intro keeps_intros p b fv)
qed

lemma post_signal_simps [simp]:
  "p_ofile (post_signal n p) = p_ofile p" "dead (p_state (post_signal n p)) = dead (p_state p)"
  "p_state (post_signal n p) = RUNNING \<longleftrightarrow> p_state p = RUNNING"
  by (auto simp: post_signal_def dead_def Let_def)

lemma init_signals_simps [simp]: "p_ofile (init_signals p) = p_ofile p" "p_state (init_signals p) = p_state p"
  by (simp_all add: init_signals_def)

lemma keeps_procs [keeps_intros]:
  "keeps fview (kkill pid n)" "keeps fview (setkilled i)" "keeps fview (killed i)" "keeps fview allocpid"
  "keeps fview (proc_pagetable i)" "keeps fview (proc_freepagetable pt sz)" "keeps fview (growproc n)" "keeps fview (reparent me)"
proof -
  show "keeps fview (kkill pid n)" unfolding kkill_def by (intro keeps_intros) simp
  show "keeps fview (setkilled i)" "keeps fview (killed i)" unfolding setkilled_def killed_def by (intro keeps_intros, simp?)+
  show "keeps fview allocpid" unfolding allocpid_def by (intro keeps_intros keeps_upd) (simp add: fview_def)
  show "keeps fview (proc_pagetable i)" "keeps fview (proc_freepagetable pt sz)"
    unfolding proc_pagetable_def proc_freepagetable_def by (intro keeps_intros fv)+
  show "keeps fview (growproc n)" unfolding growproc_def by (intro keeps_intros fv) simp
  have "keeps fview (reparent_one me i)" for i unfolding reparent_one_def by (intro keeps_intros) simp
  then show "keeps fview (reparent me)" unfolding reparent_def by (intro keeps_intros)
qed

lemma keeps_exec [keeps_intros]: "keeps fview (kexec path argv)"
proof -
  have "keeps fview (loadseg_loop pt va ip off sz i)" for pt va ip off sz i
    by (induction pt va ip off sz i rule: loadseg_loop.induct) (subst loadseg_loop.simps, intro keeps_intros fv, blast+)
  then have l: "keeps fview (loadseg pt va ip off sz)" for pt va ip off sz unfolding loadseg_def .
  have s: "keeps fview (load_segments ip pt off sz n)" for ip pt off sz n
    by (induction n arbitrary: off sz; simp only: load_segments.simps) (intro keeps_intros fv l; assumption?)+
  have p: "keeps fview (push_args pt b as sp us)" for pt b as sp us
    by (induction as arbitrary: sp us; simp only: push_args.simps) (intro keeps_intros fv; assumption?)+
  have b: "keeps fview (exec_bad pt sz ipo)" for pt sz ipo unfolding exec_bad_def by (intro keeps_intros fv)
  have "keeps fview (exec_stack path argv pt sz e)" for pt sz e
    unfolding exec_stack_def by (intro keeps_intros fv p b) simp_all
  then show ?thesis unfolding kexec_def by (intro keeps_intros fv s b)
qed

lemma keeps_reads [keeps_intros]:
  "keeps fview (filestat f a)"
  "(\<And>i g x n. dr i = Some g \<Longrightarrow> keeps fview (g x n)) \<Longrightarrow> keeps fview (fileread dr f a m)"
  "(\<And>i g x n. dr i = Some g \<Longrightarrow> keeps fview (g x n)) \<Longrightarrow> keeps fview (filewrite dr f a m)"
proof -
  have type: "keeps fview (case t of FD_NONE \<Rightarrow> k1 | FD_PIPE \<Rightarrow> k2 | FD_INODE \<Rightarrow> k3 | FD_DEVICE \<Rightarrow> k4)"
    if "keeps fview k1" "keeps fview k2" "keeps fview k3" "keeps fview k4" for t and k1 k2 k3 k4 :: "int kact"
    using that by (cases t) auto
  show "keeps fview (filestat f a)" unfolding filestat_def by (intro keeps_intros fv)
  show "keeps fview (fileread dr f a m)" if d: "\<And>i g x n. dr i = Some g \<Longrightarrow> keeps fview (g x n)"
    unfolding fileread_def by (intro keeps_intros fv type; (rule d, assumption)?) simp
  have w: "keeps fview (filewrite_loop f a n i)" for n i
    by (induction f a n i rule: filewrite_loop.induct) (subst filewrite_loop.simps, intro keeps_intros fv, simp, blast)
  show "keeps fview (filewrite dr f a m)" if d: "\<And>i g x n. dr i = Some g \<Longrightarrow> keeps fview (g x n)"
    unfolding filewrite_def by (intro keeps_intros fv type w; (rule d, assumption)?)
qed

end
