(* ===== verification/Syscall_Refs.thy ===== *)
theory Syscall_Refs
  imports File_Refs
begin

text \<open>
  Every system call keeps the reference counts of the open files equal to the number of descriptors.
\<close>

section \<open>Facts that hold along a call\<close>

abbreviation oview :: "kst \<Rightarrow> (nat \<Rightarrow> nat \<Rightarrow> nat option) \<times> (nat \<Rightarrow> bool) \<times> nat \<times> bool" where
  "oview s \<equiv> snd (fview s)"

definition on_view :: "(kst \<Rightarrow> bool) \<Rightarrow> bool" where
  "on_view P \<longleftrightarrow> (\<forall>s s'. oview s' = oview s \<longrightarrow> P s \<longrightarrow> P s')"

definition has_fd :: "nat \<Rightarrow> nat \<Rightarrow> kst \<Rightarrow> bool" where
  "has_fd fd f s \<longleftrightarrow> fd < NOFILE \<and> p_ofile (myproc s) fd = Some f"

definition closed_below :: "nat \<Rightarrow> nat \<Rightarrow> kst \<Rightarrow> bool" where
  "closed_below i n s \<longleftrightarrow> (\<forall>fd<n. p_ofile (procs s i) fd = None)"

definition child :: "nat \<Rightarrow> nat \<Rightarrow> nat \<Rightarrow> kst \<Rightarrow> bool" where
  "child me np n s \<longleftrightarrow> cur s = me \<and> np < NPROC \<and> np \<noteq> me \<and> \<not> dead (p_state (procs s np)) \<and>
     (\<forall>fd. n \<le> fd \<longrightarrow> fd < NOFILE \<longrightarrow> p_ofile (procs s np) fd = None)"

lemma oview_eq:
  assumes "oview s' = oview s"
  shows "p_ofile (procs s' i) = p_ofile (procs s i)" "dead (p_state (procs s' i)) = dead (p_state (procs s i))" "cur s' = cur s"
proof -
  have o: "(\<lambda>i. p_ofile (procs s' i)) = (\<lambda>i. p_ofile (procs s i))"
    and d: "(\<lambda>i. dead (p_state (procs s' i))) = (\<lambda>i. dead (p_state (procs s i)))" and c: "cur s' = cur s"
    using assms unfolding fview_def snd_conv prod.inject by iprover+
  show "p_ofile (procs s' i) = p_ofile (procs s i)" by (rule fun_cong [OF o])
  show "dead (p_state (procs s' i)) = dead (p_state (procs s i))" by (rule fun_cong [OF d])
  show "cur s' = cur s" by (rule c)
qed

named_theorems on_view_intros

lemma on_view_facts [on_view_intros]:
  "on_view (has_fd fd f)" "on_view (closed_below i n)" "on_view (child me np n)" "on_view (\<lambda>s. cur s = me)" "on_view (\<lambda>s. True)"
proof -
  have "has_fd fd f s' = has_fd fd f s" "closed_below i n s' = closed_below i n s" "child me np n s' = child me np n s" "cur s' = cur s"
    if "oview s' = oview s" for s s'
    by (simp_all only: has_fd_def closed_below_def child_def oview_eq [OF that])
  then show "on_view (has_fd fd f)" "on_view (closed_below i n)" "on_view (child me np n)" "on_view (\<lambda>s. cur s = me)" "on_view (\<lambda>s. True)"
    unfolding on_view_def by blast+
qed

lemma on_view_conj [on_view_intros]: "on_view P \<Longrightarrow> on_view Q \<Longrightarrow> on_view (\<lambda>s. P s \<and> Q s)"
  unfolding on_view_def by blast

lemma on_view_pure [on_view_intros]: "on_view (\<lambda>s. A)"
  by (simp add: on_view_def)

lemma keeps_oview: "keeps fview m \<Longrightarrow> keeps oview m"
  by (rule keeps_comp)

lemma pres_view:
  assumes "on_view R" "keeps fview m"
  shows "pres (\<lambda>s. inv E s \<and> R s) m (\<lambda>_ s. inv E s \<and> R s)"
  using pres_fview [OF assms(2)] keeps_oview [OF assms(2)] assms(1)
  unfolding pres_def on_view_def keeps_def by blast

lemma pres_along:
  assumes "pres (inv E) m (\<lambda>_. inv E')" "keeps oview m" "on_view R"
  shows "pres (\<lambda>s. inv E s \<and> R s) m (\<lambda>_ s. inv E' s \<and> R s)"
  using assms unfolding pres_def on_view_def keeps_def by blast

section \<open>Taking and dropping references\<close>

abbreviation up :: "(nat \<Rightarrow> int) \<Rightarrow> nat \<Rightarrow> nat \<Rightarrow> int" where "up E f \<equiv> E(f := E f + 1)"
abbreviation dn :: "(nat \<Rightarrow> int) \<Rightarrow> nat \<Rightarrow> nat \<Rightarrow> int" where "dn E f \<equiv> E(f := E f - 1)"

lemma up_dn: "dn (up E f) f = E" "up (dn E f) f = E" "dn (up (up E f) f') f = up E f'"
  by auto

lemma running_set_file [simp]: "running (set_file f g s) = running s"
  by (simp add: running_def set_file_def)

lemma filealloc_refs: "pres (inv E) filealloc (\<lambda>r s. case r of None \<Rightarrow> inv E s | Some f \<Rightarrow> f < NFILE \<and> inv (up E f) s)"
  unfolding pres_def filealloc_def
  by (auto simp: bindA_eq_Ok doM_eq_Ok find_Some_iff intro!: refs_ok_file split: option.splits)

lemma filedup_refs: "pres (inv E) (filedup f) (\<lambda>x s. x = f \<and> inv (up E f) s)"
  unfolding pres_def filedup_def by (auto simp: bindA_eq_Ok doM_eq_Ok intro!: refs_ok_file split: if_splits)

lemma filedup_keeps: "keeps oview (filedup f)"
  unfolding filedup_def by (intro keeps_intros keeps_upd) (simp add: fview_def set_file_def)

lemma fileclose_tail: "keeps fview (if t = FD_PIPE then pipeclose_file p w
  else if t = FD_INODE \<or> t = FD_DEVICE then doM begin_op (doM (iput ip) end_op) else ret ())"
  by (intro keeps_intros fv)

lemma fileclose_keeps: "keeps oview (fileclose f)"
  unfolding fileclose_def by (intro keeps_intros keeps_upd keeps_oview [OF fileclose_tail]) (simp_all add: fview_def set_file_def)

lemma fileclose_refs: "pres (inv E) (fileclose f) (\<lambda>_. inv (dn E f))"
proof -
  have drop: "inv (dn E f) (set_file f g s)" if "inv E s" "f_ref (g (ftable s f)) = f_ref (ftable s f) - 1" for g s
    using refs_ok_file [of E s g f "-1"] that by simp
  let ?Q = "\<lambda>r s. inv E s \<and> r = f_ref (ftable s f)"
  have less: "pres (?Q r) (upd (set_file f (\<lambda>x. x\<lparr>f_ref := f_ref x - 1\<rparr>))) (\<lambda>_. inv (dn E f))" for r
    by (rule pres_upd, rule drop) simp_all
  have last: "pres (?Q r) (upd (set_file f (\<lambda>x. x\<lparr>f_ref := 0, f_type := FD_NONE\<rparr>))) (\<lambda>_. inv (dn E f))" if "r = 1" for r
    by (rule pres_upd, rule drop) (simp_all add: that)
  show ?thesis
    unfolding fileclose_def
    by (rule pres_bindA [where Q = ?Q], rule pres_get, simp, intro pres_if pres_panic less,
        rule pres_bindA [where Q = "\<lambda>_. ?Q x" for x], rule pres_get, assumption,
        rule pres_doM [OF last pres_fview [OF fileclose_tail]], simp)
qed

lemma running_set_proc: "running s \<Longrightarrow> p_state (h (myproc s)) = RUNNING \<or> i \<noteq> cur s \<Longrightarrow> running (set_proc i h s)"
  by (auto simp: running_def set_proc_def)

lemma running_alive: "running s \<Longrightarrow> \<not> dead (p_state (myproc s)) \<and> cur s < NPROC"
  by (simp add: running_def dead_def)

lemma inv_set_fd:
  assumes "inv E s" "i < NPROC" "fd < NOFILE" "p_ofile (procs s i) fd = old"
    "new \<noteq> None \<Longrightarrow> \<not> dead (p_state (procs s i))" "\<And>f. new = Some f \<Longrightarrow> f < NFILE"
    "E' = (\<lambda>f. E f - (if new = Some f then 1 else 0) + (if old = Some f then 1 else 0))"
  shows "inv E' (set_proc i (\<lambda>p. p\<lparr>p_ofile := (p_ofile p)(fd := new)\<rparr>) s)"
  using refs_ok_set [of E s i fd old new] assms by (auto simp: running_def set_proc_def)

lemma clear_fd_refs: "pres (\<lambda>s. inv E s \<and> has_fd fd f s) (clear_fd fd) (\<lambda>_. inv (up E f))"
  unfolding clear_fd_def
  by (rule pres_upd, rule inv_set_fd [where old = "Some f" and E = E]) (auto simp: has_fd_def dest: running_alive)

lemma clear_fd_keeps_other: "pres (\<lambda>s. R s \<and> has_fd fd' f s \<and> fd' \<noteq> fd) (clear_fd fd) (\<lambda>_. has_fd fd' f)"
  unfolding pres_def clear_fd_def by (auto simp: has_fd_def set_proc_def)

lemma fdalloc_refs:
  assumes "f < NFILE"
  shows "pres (inv E) (fdalloc f) (\<lambda>fd s. if fd < 0 then inv E s else inv (dn E f) s \<and> has_fd (nat fd) f s)"
  unfolding pres_def
proof (intro allI impI)
  fix s x s'
  assume i: "inv E s" and run: "fdalloc f s = Some (Ok (x, s'))"
  show "if x < 0 then inv E s' else inv (dn E f) s' \<and> has_fd (nat x) f s'"
  proof (cases "find (\<lambda>fd. p_ofile (myproc s) fd = None) [0..<NOFILE]")
    case None
    then show ?thesis using run i by (simp add: fdalloc_def bindA_eq_Ok)
  next
    case (Some fd)
    then have fd: "fd < NOFILE" "p_ofile (myproc s) fd = None" by (auto simp: find_Some_iff)
    let ?s = "set_proc (cur s) (\<lambda>p. p\<lparr>p_ofile := (p_ofile p)(fd := Some f)\<rparr>) s"
    have s': "s' = ?s" "x = int fd" using run Some by (auto simp: fdalloc_def bindA_eq_Ok doM_eq_Ok)
    have "inv (dn E f) ?s"
      by (rule inv_set_fd [where E = E and old = None]) (use i fd assms running_alive in auto)
    then show ?thesis using fd by (simp add: s' has_fd_def set_proc_def)
  qed
qed

lemma fdalloc_keeps_other:
  "pres (\<lambda>s. R s \<and> has_fd fd' f' s) (fdalloc f) (\<lambda>fd s. has_fd fd' f' s \<and> (0 \<le> fd \<longrightarrow> nat fd \<noteq> fd'))"
  unfolding pres_def fdalloc_def
  by (auto simp: bindA_eq_Ok doM_eq_Ok has_fd_def set_proc_def find_Some_iff split: option.splits)

lemma argfd_refs: "pres (inv E) (argfd n) (\<lambda>r s. case r of None \<Rightarrow> inv E s | Some p \<Rightarrow> (case p of (fd, f) \<Rightarrow> f < NFILE \<and> inv E s \<and> has_fd fd f s))"
proof -
  have k: "keeps fview (argint n)" by (rule fv)
  have fd: "f < NFILE" if "refs_ok E s" "running s" "p_ofile (myproc s) (nat x) = Some f" "\<not> x < 0" "\<not> 16 \<le> x" for E s x f
  proof -
    have "nat x < NOFILE" "cur s < NPROC" using that by (auto simp: running_def)
    then show ?thesis using that(1,3) unfolding refs_ok_def by blast
  qed
  show ?thesis
    unfolding argfd_def
    by (rule pres_bindA [OF pres_fview [OF k]])
      (auto simp: pres_def bindA_eq_Ok has_fd_def nat_less_iff split: option.splits dest: fd)
qed

section \<open>System calls on descriptors\<close>

lemma argfd_call:
  assumes "\<And>fd f. f < NFILE \<Longrightarrow> pres (\<lambda>s. inv E s \<and> has_fd fd f s) (m fd f) (\<lambda>_. inv E)"
  shows "pres (inv E) (bindA (argfd n) (\<lambda>r. case r of None \<Rightarrow> ret v | Some (fd, f) \<Rightarrow> m fd f)) (\<lambda>_. inv E)"
  by (rule pres_bindA [OF argfd_refs], rule pres_split_option, rule pres_ret, assumption, rule pres_split_prod, rule pres_pure,
      rule assms)

lemma sys_dup_refs: "pres (inv E) sys_dup (\<lambda>_. inv E)"
proof -
  have d: "pres (\<lambda>s. inv (dn E f) s \<and> has_fd (nat fd) f s) (bindA (filedup f) (\<lambda>_. ret fd)) (\<lambda>_. inv E)" for f fd
    by (rule pres_pre [OF pres_bindA [OF filedup_refs pres_ret]]) auto
  show ?thesis
    unfolding sys_dup_def
    by (rule argfd_call, rule pres_bindA, rule pres_pre [OF fdalloc_refs [where E = E]], assumption, simp, rule pres_split_if,
        rule pres_ret, assumption, rule d)
qed

lemma sys_close_refs: "pres (inv E) sys_close (\<lambda>_. inv E)"
  unfolding sys_close_def
  by (rule argfd_call, rule pres_doM [OF clear_fd_refs], rule pres_doM [OF fileclose_refs], rule pres_ret) (simp only: up_dn)

lemma sys_open_refs: "pres (inv E) sys_open (\<lambda>_. inv E)"
proof -
  have fail: "keeps fview (open_fail ip)" for ip unfolding open_fail_def by (intro keeps_intros fv)
  have ok: "pres (\<lambda>s. inv E s \<and> has_fd (nat fd) f s) (doM (if c then upd (set_file f (\<lambda>x. x\<lparr>f_type := FD_DEVICE, f_major := major\<rparr>))
      else upd (set_file f (\<lambda>x. x\<lparr>f_type := FD_INODE, f_off := 0\<rparr>)))
    (doM (upd (set_file f (\<lambda>x. x\<lparr>f_ip := ip, f_readable := rd, f_writable := wr\<rparr>)))
    (doM (if c' then itrunc ip else ret ()) (doM (iunlock ip) (doM end_op (ret fd)))))) (\<lambda>_. inv E)" for fd f c major ip rd wr c'
    by (rule pres_pre, rule pres_fview, intro keeps_intros fv) simp_all
  have files: "pres (inv E) (bindA filealloc (\<lambda>fo. case fo of None \<Rightarrow> open_fail ip
     | Some f \<Rightarrow> bindA (fdalloc f) (\<lambda>fd. if fd < 0 then doM (fileclose f) (open_fail ip) else m f fd))) (\<lambda>_. inv E)"
    if "\<And>f fd. pres (\<lambda>s. inv E s \<and> has_fd (nat fd) f s) (m f fd) (\<lambda>_. inv E)" for ip m
    apply (rule pres_bindA [OF filealloc_refs], rule pres_split_option, rule pres_fview [OF fail], rule pres_pure)
    apply (rule pres_bindA, rule fdalloc_refs, assumption, rule pres_split_if)
     apply (rule pres_doM [OF fileclose_refs], simp only: up_dn, rule pres_fview [OF fail])
    apply (simp only: up_dn, rule that)
    done
  have pre: "keeps fview (argint n)" "keeps fview (argstr n k)" "keeps fview begin_op" "keeps fview (open_inode p om)"
    "keeps fview end_op" for n k p om by (rule fv)+
  show ?thesis
    unfolding sys_open_def
    apply (rule pres_bindA [OF pres_fview [OF pre(1)]], rule pres_bindA [OF pres_fview [OF pre(2)]], rule pres_option)
     apply (rule pres_ret, assumption)
    apply (rule pres_doM [OF pres_fview [OF pre(3)]], rule pres_bindA [OF pres_fview [OF pre(4)]], rule pres_option)
     apply (rule pres_fview, intro keeps_intros pre)
    apply (rule pres_bindA [where Q = "\<lambda>_. inv E"], rule pres_get, assumption, rule pres_prod, rule pres_if)
     apply (rule pres_fview [OF fail])
    apply (rule files, rule ok)
    done
qed

section \<open>Pipes\<close>

lemma pipealloc_refs:
  "pres (inv E) pipealloc (\<lambda>r s. case r of None \<Rightarrow> inv E s | Some p \<Rightarrow>
     (case p of (f0, f1) \<Rightarrow> (f0 < NFILE \<and> f1 < NFILE) \<and> inv (up (up E f0) f1) s))"
proof -
  have k: "keeps fview (kmalloc_act PIPE_BYTES)" by (rule keeps_intros)
  have two: "pres (inv (up (up E f0) f1)) (doM (fileclose f0) (doM (fileclose f1) (ret None))) (\<lambda>r s. r = None \<and> inv E s)" for f0 f1
    by (rule pres_doM [OF fileclose_refs], rule pres_doM [OF fileclose_refs], rule pres_ret) (simp only: up_dn)
  have one: "pres (inv (up E f0)) (doM (fileclose f0) (ret None)) (\<lambda>r s. r = None \<and> inv E s)" for f0
    by (rule pres_doM [OF fileclose_refs], rule pres_ret) (simp only: up_dn)
  have ok: "keeps fview (doM (upd (\<lambda>s. s\<lparr>pipes := g s\<rparr>))
      (doM (upd (set_file f0 (\<lambda>x. x\<lparr>f_type := FD_PIPE, f_readable := True, f_writable := False, f_pipe := pi\<rparr>)))
      (doM (upd (set_file f1 (\<lambda>x. x\<lparr>f_type := FD_PIPE, f_readable := False, f_writable := True, f_pipe := pi\<rparr>)))
        (ret (Some (f0, f1))))))" for f0 f1 pi g
    by (intro keeps_intros) simp_all
  show ?thesis
    unfolding pipealloc_def
    apply (rule pres_bindA [OF filealloc_refs], rule pres_split_option, rule pres_ret, simp, rule pres_pure)
    apply (rule pres_bindA [OF filealloc_refs], rule pres_split_option, rule pres_weaken [OF one], assumption, simp, rule pres_pure)
    apply (rule pres_bindA [OF pres_fview [OF k]], rule pres_if, rule pres_weaken [OF two], assumption, simp)
    subgoal for r f0 r1 f1 pi
      using pres_fview [OF ok, of "up (up E f0) f1" "\<lambda>s. (pipes s)(pi := pipe_new (data (pipes s pi)))" f0 pi f1]
      by (auto simp: pres_def doM_eq_Ok)
    done
qed

lemma close_two:
  "pres (inv (up (up E f0) f1)) (doM (fileclose f0) (doM (fileclose f1) (ret v))) (\<lambda>_. inv E)"
  by (rule pres_doM [OF fileclose_refs], rule pres_doM [OF fileclose_refs], rule pres_ret) (simp only: up_dn)

lemma clear_one:
  "pres (\<lambda>s. inv (up E f1) s \<and> has_fd fd0 f0 s)
     (doM (clear_fd fd0) (doM (fileclose f0) (doM (fileclose f1) (ret v)))) (\<lambda>_. inv E)"
  by (rule pres_doM [OF clear_fd_refs], rule pres_doM [OF fileclose_refs], rule pres_doM [OF fileclose_refs], rule pres_ret)
    (simp only: up_dn)

lemma clear_two:
  "pres (\<lambda>s. inv E s \<and> has_fd fd0 f0 s \<and> has_fd fd1 f1 s \<and> fd1 \<noteq> fd0)
     (doM (clear_fd fd0) (doM (clear_fd fd1) (doM (fileclose f0) (doM (fileclose f1) (ret v))))) (\<lambda>_. inv E)"
  apply (rule pres_doM [where Q = "\<lambda>s. inv (up E f0) s \<and> has_fd fd1 f1 s"])
   apply (rule pres_both)
    apply (rule pres_pre [OF clear_fd_refs [of E fd0 f0]], simp)
   apply (rule pres_pre [OF clear_fd_keeps_other [of "inv E" fd1 f1 fd0]], simp)
  apply (rule pres_doM [OF clear_fd_refs close_two])
  done

lemma pipe_copy:
  "pres (\<lambda>s. inv E s \<and> has_fd fd0 f0 s \<and> has_fd fd1 f1 s \<and> fd1 \<noteq> fd0)
     (bindA (get g) (\<lambda>pt. bindA (ucopyout pt a0 b0) (\<lambda>r0. bindA (if r0 < 0 then ret r0 else ucopyout pt a1 b1) (\<lambda>r.
        if r < 0 then doM (clear_fd fd0) (doM (clear_fd fd1) (doM (fileclose f0) (doM (fileclose f1) (ret v)))) else ret 0)))) (\<lambda>_. inv E)"
  apply (rule pres_bindA [OF pres_view], intro on_view_intros, rule keeps_intros)
  apply (rule pres_bindA [OF pres_view], intro on_view_intros, rule fv)
  apply (rule pres_bindA [OF pres_view], intro on_view_intros, intro keeps_intros fv)
  apply (rule pres_if, rule clear_two, rule pres_ret, simp)
  done

lemma second_fd:
  assumes f: "f1 < NFILE" and pos: "\<not> fd0 < 0"
    and m: "\<And>fd1. pres (\<lambda>s. inv E s \<and> has_fd (nat fd0) f0 s \<and> has_fd (nat fd1) f1 s \<and> nat fd1 \<noteq> nat fd0) (m fd1) (\<lambda>_. inv E)"
  shows "pres (\<lambda>s. inv (up E f1) s \<and> has_fd (nat fd0) f0 s)
    (bindA (if fd0 < 0 then ret (-1) else fdalloc f1) (\<lambda>fd1. if fd0 < 0 \<or> fd1 < 0 then
       doM (if fd0 \<ge> 0 then clear_fd (nat fd0) else ret ()) (doM (fileclose f0) (doM (fileclose f1) (ret (-1)))) else m fd1)) (\<lambda>_. inv E)"
proof -
  have "pres (\<lambda>s. inv (up E f1) s \<and> has_fd (nat fd0) f0 s) (fdalloc f1)
      (\<lambda>fd1 s. if fd1 < 0 then inv (up E f1) s \<and> has_fd (nat fd0) f0 s
        else inv E s \<and> has_fd (nat fd0) f0 s \<and> has_fd (nat fd1) f1 s \<and> nat fd1 \<noteq> nat fd0)"
    using fdalloc_refs [OF f, of "up E f1"] fdalloc_keeps_other [of "inv (up E f1)" "nat fd0" f0 f1]
    unfolding up_dn pres_def by (metis linorder_not_less)
  then have "pres (\<lambda>s. inv (up E f1) s \<and> has_fd (nat fd0) f0 s)
    (bindA (fdalloc f1) (\<lambda>fd1. if fd1 < 0 then doM (clear_fd (nat fd0)) (doM (fileclose f0) (doM (fileclose f1) (ret (-1)))) else m fd1)) (\<lambda>_. inv E)"
    by (rule pres_bindA) (rule pres_split_if [OF clear_one m])
  then show ?thesis using pos by simp
qed

lemma first_fd:
  assumes f: "f0 < NFILE" "f1 < NFILE"
    and m: "\<And>fd0 fd1. pres (\<lambda>s. inv E s \<and> has_fd (nat fd0) f0 s \<and> has_fd (nat fd1) f1 s \<and> nat fd1 \<noteq> nat fd0) (m fd0 fd1) (\<lambda>_. inv E)"
  shows "pres (inv (up (up E f0) f1)) (bindA (fdalloc f0) (\<lambda>fd0. bindA (if fd0 < 0 then ret (-1) else fdalloc f1)
    (\<lambda>fd1. if fd0 < 0 \<or> fd1 < 0 then
       doM (if fd0 \<ge> 0 then clear_fd (nat fd0) else ret ()) (doM (fileclose f0) (doM (fileclose f1) (ret (-1)))) else m fd0 fd1))) (\<lambda>_. inv E)"
proof (rule pres_bindA [OF fdalloc_refs [OF f(1)]], unfold up_dn)
  show "pres (\<lambda>s. if fd0 < 0 then inv (up (up E f0) f1) s else inv (up E f1) s \<and> has_fd (nat fd0) f0 s)
    (bindA (if fd0 < 0 then ret (-1) else fdalloc f1) (\<lambda>fd1. if fd0 < 0 \<or> fd1 < 0 then
       doM (if fd0 \<ge> 0 then clear_fd (nat fd0) else ret ()) (doM (fileclose f0) (doM (fileclose f1) (ret (-1)))) else m fd0 fd1)) (\<lambda>_. inv E)" for fd0
  proof (cases "fd0 < 0")
    case True
    have "pres (inv (up (up E f0) f1)) (bindA (ret (-1)) (\<lambda>fd1 :: int. doM (ret ()) (doM (fileclose f0) (doM (fileclose f1) (ret (-1)))))) (\<lambda>_. inv E)"
      by (rule pres_bindA [OF pres_ret pres_doM [OF pres_ret close_two]])
    then show ?thesis using True by (simp cong: if_cong)
  next
    case False
    then show ?thesis using second_fd [OF f(2) False m] by simp
  qed
qed

lemma sys_pipe_refs: "pres (inv E) sys_pipe (\<lambda>_. inv E)"
proof -
  have k: "keeps fview (argaddr 0)" by (rule fv)
  show ?thesis
    unfolding sys_pipe_def
    apply (rule pres_bindA [OF pres_fview [OF k]], rule pres_bindA [OF pipealloc_refs], rule pres_split_option, rule pres_ret, assumption)
    apply (rule pres_split_prod, rule pres_pure, erule conjE, rule first_fd, assumption, assumption, rule pipe_copy)
    done
qed

end
