(* ===== verification/Proc_Refs.thy ===== *)
theory Proc_Refs
  imports Syscall_Refs Boot_State
begin

text \<open>
  Creating and ending processes keeps the reference counts of the open files; with the calls on
  descriptors, every system call does.
\<close>

lemma refs_ok_set_state:
  assumes "refs_ok E s" "\<And>p. p_ofile (h p) = p_ofile p" "dead (p_state (h (procs s i))) \<Longrightarrow> closed_below i NOFILE s"
  shows "refs_ok E (set_proc i h s)"
proof -
  have o: "p_ofile (procs (set_proc i h s) j) = p_ofile (procs s j)" for j using assms(2) by (simp add: set_proc_def)
  then have "descriptors f (set_proc i h s) = descriptors f s" for f by (simp add: descriptors_def)
  moreover have "dead (p_state (procs (set_proc i h s) j)) \<Longrightarrow> j < NPROC \<Longrightarrow> \<forall>fd<NOFILE. p_ofile (procs s j) fd = None" for j
    using assms(1,3) by (cases "j = i") (auto simp: refs_ok_def set_proc_def closed_below_def)
  ultimately show ?thesis
    using assms(1) unfolding refs_ok_def o by (auto simp: set_proc_def)
qed

lemma inv_set_state:
  assumes "inv E s" "\<And>p. p_ofile (h p) = p_ofile p" "dead (p_state (h (procs s i))) \<Longrightarrow> closed_below i NOFILE s" "i \<noteq> cur s"
  shows "inv E (set_proc i h s)"
  using assms by (simp add: refs_ok_set_state running_set_proc)

lemma on_view_child [on_view_intros]: "on_view (\<lambda>s. cur s \<noteq> i)"
  unfolding on_view_def using oview_eq(3) by metis

lemma freeproc_refs: "pres (\<lambda>s. inv E s \<and> closed_below i NOFILE s \<and> cur s \<noteq> i) (freeproc i) (\<lambda>_. inv E)"
  unfolding freeproc_def
  apply (rule pres_bindA [OF pres_view], intro on_view_intros, rule keeps_intros)
  apply (rule pres_doM [OF pres_view], intro on_view_intros, intro keeps_intros fv)
  apply (rule pres_doM [OF pres_view], intro on_view_intros, intro keeps_intros fv, simp)
  apply (rule pres_doM [OF pres_view], intro on_view_intros, intro keeps_intros fv)
  apply (rule pres_upd, rule inv_set_state)
     apply auto
  done

lemma child_freeproc: "pres (\<lambda>s. inv E s \<and> child me np 0 s) (doM (freeproc np) (ret v)) (\<lambda>_. inv E)"
  by (rule pres_doM, rule pres_pre [OF freeproc_refs [where E = E]]) (auto simp: child_def closed_below_def intro: pres_ret)

lemma allocproc_refs:
  "pres (\<lambda>s. inv E s \<and> cur s = me) allocproc (\<lambda>r s. case r of None \<Rightarrow> inv E s | Some np \<Rightarrow> inv E s \<and> child me np 0 s)"
proof -
  let ?Q = "\<lambda>r s. case r of None \<Rightarrow> inv E s | Some np \<Rightarrow> inv E s \<and> child me np 0 s"
  let ?C = "\<lambda>np s. inv E s \<and> child me np 0 s"
  have found: "np < NPROC \<and> np \<noteq> cur s \<and> closed_below np NOFILE s"
    if "inv E s" "find (\<lambda>i. p_state (procs s i) = UNUSED) [0..<NPROC] = Some np" for s np
    using that by (auto simp: find_Some_iff refs_ok_def running_def dead_def closed_below_def)
  let ?P = "\<lambda>np s. inv E s \<and> cur s = me \<and> np < NPROC \<and> cur s \<noteq> np \<and> closed_below np NOFILE s"
  have take: "pres (?P np) (upd (set_proc np (\<lambda>p. p\<lparr>p_pid := pid, p_state := USED\<rparr>))) (\<lambda>_. ?C np)" for np pid
    apply (rule pres_upd, rule conjI, rule inv_set_state)
        apply (auto simp: dead_def child_def closed_below_def set_proc_def)
    done
  have fail: "pres (?C np) (doM (freeproc np) (ret None)) ?Q" for np
    using child_freeproc [of E me np None] by (auto simp: pres_def doM_eq_Ok)
  have finish: "pres (?C np) (doM (upd (set_proc np (\<lambda>p. init_signals (p\<lparr>p_ra := Entry_forkret, p_sp := p_kstack p + PGSIZE\<rparr>))))
      (ret (Some np))) ?Q" for np
    by (rule pres_doM [OF pres_view], intro on_view_intros, intro keeps_intros, simp, rule pres_ret) simp
  have rest: "pres (?P np) (bindA allocpid (\<lambda>pid. doM (upd (set_proc np (\<lambda>p. p\<lparr>p_pid := pid, p_state := USED\<rparr>)))
       (bindA kalloc_act (\<lambda>tf. doM (upd (set_proc np (\<lambda>p. p\<lparr>p_trapframe := tf\<rparr>)))
         (if tf = 0 then doM (freeproc np) (ret None)
          else bindA (proc_pagetable np) (\<lambda>pt. doM (upd (set_proc np (\<lambda>p. p\<lparr>p_pagetable := pt\<rparr>)))
            (if pt = 0 then doM (freeproc np) (ret None)
             else doM (upd (set_proc np (\<lambda>p. init_signals (p\<lparr>p_ra := Entry_forkret, p_sp := p_kstack p + PGSIZE\<rparr>))))
               (ret (Some np))))))))) ?Q" for np
    apply (rule pres_bindA [OF pres_view], intro on_view_intros, intro keeps_intros)
    apply (rule pres_doM [OF take])
    apply (rule pres_bindA [OF pres_view], intro on_view_intros, rule fv)
    apply (rule pres_doM [OF pres_view], intro on_view_intros, intro keeps_intros, simp)
    apply (rule pres_if, rule fail)
    apply (rule pres_bindA [OF pres_view], intro on_view_intros, intro keeps_intros)
    apply (rule pres_doM [OF pres_view], intro on_view_intros, intro keeps_intros, simp)
    apply (rule pres_if, rule fail, rule finish)
    done
  show ?thesis
    unfolding allocproc_def
    apply (rule pres_bindA [where Q = "\<lambda>r s. case r of None \<Rightarrow> inv E s | Some np \<Rightarrow> ?P np s"])
     apply (rule pres_get)
    subgoal for s using found [of s] by (auto split: option.splits)
    apply (rule pres_split_option, rule pres_ret, simp, rule rest)
    done
qed

lemma dup_fd_refs:
  assumes "i < NOFILE"
  shows "pres (\<lambda>s. inv E s \<and> child me np i s) (dup_fd me np i) (\<lambda>_ s. inv E s \<and> child me np (Suc i) s)"
proof -
  let ?P = "\<lambda>s. inv E s \<and> child me np i s"
  have f: "f < NFILE" if "?P s" "p_ofile (procs s me) i = Some f" for s f
    using that assms by (auto simp: child_def refs_ok_def running_def)
  have dup: "pres ?P (filedup f) (\<lambda>x s. x = f \<and> inv (up E f) s \<and> child me np i s)" for f
    using filedup_refs [of E f] filedup_keeps [of f] on_view_facts(3) [of me np i]
    unfolding pres_def keeps_def on_view_def by blast
  have put: "pres (\<lambda>s. inv (up E f) s \<and> child me np i s) (upd (set_proc np (\<lambda>p. p\<lparr>p_ofile := (p_ofile p)(i := Some f)\<rparr>)))
      (\<lambda>_ s. inv E s \<and> child me np (Suc i) s)" if "f < NFILE" for f
    apply (rule pres_upd, rule conjI, rule inv_set_fd [where E = "up E f" and old = None])
    using that assms apply (auto simp: child_def set_proc_def)
    done
  show ?thesis
    unfolding dup_fd_def
    apply (rule pres_bindA [where Q = "\<lambda>r s. case r of None \<Rightarrow> inv E s \<and> child me np (Suc i) s | Some f \<Rightarrow> f < NFILE \<and> ?P s"])
     apply (rule pres_get)
    subgoal for s using f [of s] by (auto simp: child_def split: option.splits)
    apply (rule pres_split_option, rule pres_ret, assumption, rule pres_pure)
    apply (rule pres_bindA [OF dup], rule pres_pure, hypsubst, rule put, assumption)
    done
qed

lemma dup_fds_refs:
  "pres (\<lambda>s. inv E s \<and> child me np 0 s) (for_upto 0 NOFILE (dup_fd me np)) (\<lambda>_ s. inv E s \<and> child me np NOFILE s)"
  using pres_for_upto [where P = "\<lambda>i s. inv E s \<and> child me np i s" and lo = 0 and n = NOFILE and g = "dup_fd me np"] dup_fd_refs
  by simp

lemma keeps_copy_trapframe: "keeps fview (upd (copy_trapframe me np))"
  by (rule keeps_upd) (simp add: copy_trapframe_def)

lemma kfork_refs: "pres (inv E) kfork (\<lambda>_. inv E)"
proof -
  have start: "pres (\<lambda>s. inv E s \<and> child me np NOFILE s)
     (doM (upd (set_proc np (\<lambda>q. q\<lparr>p_state := RUNNABLE\<rparr>))) (ret v)) (\<lambda>_. inv E)" for me np v
    by (rule pres_doM, rule pres_upd, rule inv_set_state [where E = E]) (auto simp: dead_def child_def intro: pres_ret)
  have copied: "pres (\<lambda>s. inv E s \<and> child me np 0 s)
     (doM (upd (set_proc np (\<lambda>q. q\<lparr>p_sz := p_sz p\<rparr>)))
     (doM (upd (copy_trapframe me np))
     (doM (upd (tf_set np (TF_A 0) 0))
     (doM (upd (set_proc np (\<lambda>q. q\<lparr>p_pending := 0, p_sigframe_valid := False, p_sigframe := (\<lambda>_. 0),
        p_handlers := p_handlers p, p_valid_handlers := p_valid_handlers p\<rparr>)))
     (doM (for_upto 0 NOFILE (dup_fd me np))
     (bindA (case p_cwd p of None \<Rightarrow> panic ''kerneltrap'' | Some ip \<Rightarrow> idup ip) (\<lambda>ip.
       doM (upd (set_proc np (\<lambda>q. q\<lparr>p_cwd := Some ip, p_name := take 15 (p_name p)\<rparr>)))
       (bindA (get (\<lambda>s. p_pid (procs s np))) (\<lambda>pid.
         doM (upd (set_proc np (\<lambda>q. q\<lparr>p_parent := Some me\<rparr>)))
         (doM (upd (set_proc np (\<lambda>q. q\<lparr>p_state := RUNNABLE\<rparr>)))
           (ret pid))))))))))) (\<lambda>_. inv E)" for me np p
    apply (rule pres_doM [OF pres_view], intro on_view_intros, intro keeps_intros, simp)
    apply (rule pres_doM [OF pres_view], intro on_view_intros, rule keeps_copy_trapframe)
    apply (rule pres_doM [OF pres_view], intro on_view_intros, intro keeps_intros)
    apply (rule pres_doM [OF pres_view], intro on_view_intros, intro keeps_intros, simp)
    apply (rule pres_doM [OF dup_fds_refs])
    apply (rule pres_bindA [OF pres_view], intro on_view_intros, intro keeps_intros fv)
    apply (rule pres_doM [OF pres_view], intro on_view_intros, intro keeps_intros, simp)
    apply (rule pres_bindA [OF pres_view], intro on_view_intros, intro keeps_intros)
    apply (rule pres_doM [OF pres_view], intro on_view_intros, intro keeps_intros, simp)
    apply (rule start)
    done
  show ?thesis
    unfolding kfork_def
    apply (rule pres_bindA [where Q = "\<lambda>me s. inv E s \<and> cur s = me"], rule pres_get, simp)
    apply (rule pres_bindA [OF pres_view], intro on_view_intros, rule keeps_intros)
    apply (rule pres_if, rule pres_panic)
    apply (rule pres_bindA [OF allocproc_refs], rule pres_split_option, rule pres_ret, assumption)
    apply (rule pres_bindA [OF pres_view], intro on_view_intros, rule keeps_intros)
    apply (rule pres_bindA [OF pres_view], intro on_view_intros, rule fv)
    apply (rule pres_if, rule child_freeproc, rule copied)
    done
qed

section \<open>Exit and wait\<close>

lemma close_fd_refs:
  assumes "fd < NOFILE"
  shows "pres (\<lambda>s. inv E s \<and> cur s = me \<and> closed_below me fd s) (close_fd me fd) (\<lambda>_ s. inv E s \<and> cur s = me \<and> closed_below me (Suc fd) s)"
proof -
  let ?P = "\<lambda>s. cur s = me \<and> closed_below me fd s"
  have clear: "pres (\<lambda>s. inv (dn E f) s \<and> ?P s \<and> has_fd fd f s) (upd (set_proc me (\<lambda>p. p\<lparr>p_ofile := (p_ofile p)(fd := None)\<rparr>)))
      (\<lambda>_ s. inv E s \<and> cur s = me \<and> closed_below me (Suc fd) s)" for f
    apply (rule pres_upd, rule conjI, rule inv_set_fd [where E = "dn E f" and old = "Some f"])
    using assms apply (auto simp: has_fd_def closed_below_def set_proc_def less_Suc_eq dest: running_alive)
    done
  show ?thesis
    unfolding close_fd_def
    apply (rule pres_bindA [where Q = "\<lambda>r s. case r of None \<Rightarrow> inv E s \<and> cur s = me \<and> closed_below me (Suc fd) s
      | Some f \<Rightarrow> inv E s \<and> ?P s \<and> has_fd fd f s"])
     apply (rule pres_get)
    subgoal for s using assms by (auto simp: closed_below_def has_fd_def less_Suc_eq split: option.splits)
    apply (rule pres_split_option, rule pres_ret, assumption)
    apply (rule pres_doM [OF pres_along], rule fileclose_refs, rule fileclose_keeps, intro on_view_intros, rule clear)
    done
qed

lemma kexit_refs: "pres (inv E) (kexit status) (\<lambda>_. refs_ok E)"
proof -
  let ?P = "\<lambda>me i s. inv E s \<and> cur s = me \<and> closed_below me i s"
  have close: "pres (?P me 0) (for_upto 0 NOFILE (close_fd me)) (\<lambda>_. ?P me NOFILE)" for me
    using pres_for_upto [where P = "?P me" and lo = 0 and n = NOFILE and g = "close_fd me"] close_fd_refs by simp
  have zombie: "pres (?P me NOFILE) (upd (set_proc me (\<lambda>p. p\<lparr>p_xstate := status, p_state := ZOMBIE\<rparr>))) (\<lambda>_. refs_ok E)" for me
    by (rule pres_upd, rule refs_ok_set_state) auto
  show ?thesis
    unfolding kexit_def
    apply (rule pres_bindA [where Q = "\<lambda>r s. case r of (me, ini) \<Rightarrow> ?P me 0 s"], rule pres_get, simp add: closed_below_def)
    apply (rule pres_split_prod, rule pres_if, rule pres_panic)
    apply (rule pres_doM [OF close])
    apply (rule pres_doM [OF pres_view], intro on_view_intros, rule fv)
    apply (rule pres_bindA [OF pres_view], intro on_view_intros, rule keeps_intros)
    apply (rule pres_doM [OF pres_view], intro on_view_intros, intro keeps_intros fv)
    apply (rule pres_doM [OF pres_view], intro on_view_intros, rule fv)
    apply (rule pres_doM [OF pres_view], intro on_view_intros, intro keeps_intros, simp)
    apply (rule pres_doM [OF pres_view], intro on_view_intros, intro keeps_intros)
    apply (rule pres_bindA [OF pres_view], intro on_view_intros, rule keeps_intros)
    apply (rule pres_doM [OF pres_view], intro on_view_intros, rule keeps_intros)
    apply (rule zombie)
    done
qed

lemma kwait_refs: "pres (inv E) (kwait addr) (\<lambda>_. inv E)"
proof -
  have found: "closed_below i NOFILE s \<and> cur s \<noteq> i"
    if "inv E s" "find (\<lambda>i. p_state (procs s i) = ZOMBIE) kids = Some i" "set kids \<subseteq> {..<NPROC}" for s kids i
  proof -
    have "i \<in> set kids" "p_state (procs s i) = ZOMBIE" using that(2) by (auto simp: find_Some_iff)
    then have "i < NPROC" "dead (p_state (procs s i))" "cur s \<noteq> i" using that(1,3) by (auto simp: dead_def running_def)
    then show ?thesis using that(1) by (auto simp: refs_ok_def closed_below_def)
  qed
  have free: "pres (\<lambda>s. inv E s \<and> closed_below i NOFILE s \<and> cur s \<noteq> i) (doM (freeproc i) (ret v)) (\<lambda>_. inv E)" for i and v :: int
    by (rule pres_doM [OF freeproc_refs pres_ret])
  show ?thesis
    unfolding kwait_def
    apply (rule pres_bindA [where Q = "\<lambda>r s. case r of (me, kids) \<Rightarrow> set kids \<subseteq> {..<NPROC} \<and> inv E s"])
     apply (rule pres_get)
    subgoal by auto
    apply (rule pres_split_prod, rule pres_pure)
    subgoal for r me kids
      apply (rule pres_bindA [where Q = "\<lambda>z s. case z of None \<Rightarrow> inv E s | Some i \<Rightarrow> inv E s \<and> closed_below i NOFILE s \<and> cur s \<noteq> i"])
       apply (rule pres_get)
      subgoal for s using found [of s kids] by (auto split: option.splits)
      apply (rule pres_split_option, rule pres_fview, intro keeps_intros)
      apply (rule pres_bindA [OF pres_view], intro on_view_intros, rule keeps_intros, rule pres_prod, rule pres_prod)
      apply (rule pres_bindA [OF pres_view], intro on_view_intros, intro keeps_intros fv)
      apply (rule pres_if, rule pres_ret, simp, rule free)
      done
    done
qed

section \<open>All system calls\<close>

lemma keeps_simple [keeps_intros]:
  "keeps fview sys_getpid" "keeps fview sys_sbrk" "keeps fview sys_pause" "keeps fview sys_kill" "keeps fview sys_signal"
  "keeps fview sys_sigreturn" "keeps fview sys_uptime" "keeps fview sys_fstat" "keeps fview sys_chdir" "keeps fview sys_exec"
proof -
  have a: "keeps fview (argfd n)" for n unfolding argfd_def by (intro keeps_intros fv)
  have f: "keeps fview (fetch_args u n i ps as)" for u n i ps as
    by (induction n arbitrary: i ps as; simp only: fetch_args.simps) (intro keeps_intros fv; assumption?)+
  have g: "keeps fview (free_pages ps)" for ps
    by (induction ps; simp only: free_pages.simps) (intro keeps_intros fv; assumption?)+
  show "keeps fview sys_getpid" "keeps fview sys_uptime" unfolding sys_getpid_def sys_uptime_def by (rule keeps_intros)+
  show "keeps fview sys_sbrk" unfolding sys_sbrk_def by (intro keeps_intros fv) simp
  show "keeps fview sys_pause" unfolding sys_pause_def by (intro keeps_intros fv)
  show "keeps fview sys_kill" unfolding sys_kill_def by (intro keeps_intros fv)
  show "keeps fview sys_signal" unfolding sys_signal_def by (intro keeps_intros fv) simp
  show "keeps fview sys_sigreturn" unfolding sys_sigreturn_def by (intro keeps_intros fv) simp
  show "keeps fview sys_fstat" unfolding sys_fstat_def by (intro keeps_intros fv a)
  show "keeps fview sys_chdir" unfolding sys_chdir_def by (intro keeps_intros fv) simp
  show "keeps fview sys_exec" unfolding sys_exec_def by (intro keeps_intros fv f g)
qed

lemma sys_wait_refs: "pres (inv E) sys_wait (\<lambda>_. inv E)"
proof -
  have k: "keeps fview (argaddr 0)" by (rule fv)
  show ?thesis unfolding sys_wait_def by (rule pres_bindA [OF pres_fview [OF k] kwait_refs])
qed

lemma sys_read_write_refs:
  assumes "dev_frames dev"
  shows "keeps fview (sys_read dev)" "keeps fview (sys_write dev)"
proof -
  have a: "keeps fview (argfd n)" for n unfolding argfd_def by (intro keeps_intros fv)
  show "keeps fview (sys_read dev)" "keeps fview (sys_write dev)"
    unfolding sys_read_def sys_write_def
    by (intro keeps_intros fv a; use assms in \<open>simp add: dev_frames_def keeps_fview\<close>)+
qed

definition after_call :: "(nat \<Rightarrow> int) \<Rightarrow> int option \<Rightarrow> kst \<Rightarrow> bool" where
  "after_call E r s \<longleftrightarrow> refs_ok E s \<and> (r \<noteq> None \<longrightarrow> running s)"

lemma returning_refs: "pres (inv E) m (\<lambda>_. inv E) \<Longrightarrow> pres (inv E) (returning m) (after_call E)"
  unfolding returning_def by (rule pres_bindA, assumption, rule pres_ret) (simp add: after_call_def)

lemma syscalls_refs:
  assumes "syscalls devread devwrite num = Some call" "dev_frames devread" "dev_frames devwrite"
  shows "pres (inv E) call (after_call E)"
proof -
  have exit: "pres (inv E) sys_exit (after_call E)"
  proof -
    have k: "keeps fview (argint 0)" by (rule fv)
    show ?thesis unfolding sys_exit_def
      by (rule pres_bindA [OF pres_fview [OF k]], rule pres_doM [OF kexit_refs], rule pres_ret) (simp add: after_call_def)
  qed
  have halt: "pres (inv E) (ret None) (after_call E)" by (rule pres_ret) (simp add: after_call_def)
  note frames = keeps_simple keeps_create(4-7) [THEN keeps_fview] sys_read_write_refs(1) [OF assms(2)] sys_read_write_refs(2) [OF assms(3)]
  note calls = exit halt returning_refs [OF kfork_refs] returning_refs [OF sys_wait_refs] returning_refs [OF sys_pipe_refs]
    returning_refs [OF sys_dup_refs] returning_refs [OF sys_open_refs] returning_refs [OF sys_close_refs]
    frames [THEN pres_fview, THEN returning_refs]
  show ?thesis
    using assms(1) unfolding syscalls_def sys_fork_def by (auto split: if_splits intro: calls)
qed

text \<open>
  (C35) The reference count of every open file is the number of descriptors, over all processes, that
  refer to it: whatever system call the running process makes, with whatever arguments, if the counts
  are right before they are right after it returns or after the process has exited. In particular a
  call that fails half way (no free descriptor, a bad user address, no memory) has dropped exactly the
  references it took.
\<close>

theorem syscall_keeps_file_refs:
  assumes "dev_frames devread" "dev_frames devwrite" "refs_ok (\<lambda>_. 0) s" "running s"
    "syscall devread devwrite s = Some (Ok (go, s'))"
  shows "refs_ok (\<lambda>_. 0) s' \<and> (go \<longrightarrow> running s')"
proof -
  have set: "keeps fview (upd (tf_set me off v))" for me off v by (rule keeps_intros)
  have call: "pres (inv E) (bindA call (\<lambda>r. case r of None \<Rightarrow> ret False | Some v \<Rightarrow> doM (upd (tf_set me off (uint64 v))) (ret True)))
      (\<lambda>go s. refs_ok E s \<and> (go \<longrightarrow> running s))"
    if "syscalls devread devwrite n = Some call" for me off n call E
  proof (rule pres_bindA [OF syscalls_refs [OF that assms(1,2)]])
    show "pres (after_call E r) (case r of None \<Rightarrow> ret False | Some v \<Rightarrow> doM (upd (tf_set me off (uint64 v))) (ret True))
      (\<lambda>go s. refs_ok E s \<and> (go \<longrightarrow> running s))" for r
      using pres_fview [OF set, of E me off] by (cases r) (auto simp: pres_def doM_eq_Ok after_call_def)
  qed
  have "pres (inv (\<lambda>_. 0)) (syscall devread devwrite) (\<lambda>go s. refs_ok (\<lambda>_. 0) s \<and> (go \<longrightarrow> running s))"
    unfolding syscall_def
    apply (rule pres_bindA [where Q = "\<lambda>_. inv (\<lambda>_. 0)"], rule pres_get, assumption, rule pres_prod, rule pres_option)
     apply (rule pres_doM [OF pres_fview [OF set]], rule pres_ret, simp)
    apply (rule call)
    apply (auto split: if_splits)
    done
  then show ?thesis using assms(3-5) by (auto dest: presD)
qed

text \<open>A process with one open file calls \<open>dup(0)\<close>.\<close>

definition dup_state :: kst where
  "dup_state = set_file 0 (\<lambda>x. x\<lparr>f_ref := 1\<rparr>)
     (one_process (\<lambda>p. p\<lparr>p_ofile := (\<lambda>_. None)(0 := Some 0)\<rparr>) 4096 ((\<lambda>_. 0)(4096 + TF_A 7 := 10)) (\<lambda>_ _. 0))"

lemma dup_state_simps [simp]:
  "cur dup_state = 0" "ftable dup_state = (\<lambda>_. zero_file)(0 := zero_file\<lparr>f_ref := 1\<rparr>)"
  "procs dup_state = (\<lambda>_. zero_proc)(0 := zero_proc\<lparr>p_state := RUNNING, p_pid := 1, p_trapframe := 4096, p_ofile := (\<lambda>_. None)(0 := Some 0)\<rparr>)"
  "kmem_of dup_state = kmem_of (one_process (\<lambda>p. p\<lparr>p_ofile := (\<lambda>_. None)(0 := Some 0)\<rparr>) 4096 ((\<lambda>_. 0)(4096 + TF_A 7 := 10)) (\<lambda>_ _. 0))"
  by (simp_all add: dup_state_def set_file_def kmem_of_def)

lemma dup_state_ok: "refs_ok (\<lambda>_. 0) dup_state" "running dup_state"
proof -
  have "descriptors f dup_state = (if f = 0 then {(0, 0)} else {})" for f
    by (auto simp: descriptors_def zero_proc_def split: if_splits)
  then show "refs_ok (\<lambda>_. 0) dup_state" by (auto simp: refs_ok_def zero_proc_def zero_file_def dead_def split: if_splits)
  show "running dup_state" by (simp add: running_def)
qed

lemma ld_le_numeral: "ld_le (numeral v) m a = unat (m a) + 256 * ld_le (pred_numeral v) m (Suc a)"
  by (simp add: numeral_eq_Suc)

lemma dup_state_call:
  "\<exists>s'. syscall (\<lambda>_. None) (\<lambda>_. None) dup_state = Some (Ok (True, s')) \<and> f_ref (ftable s' 0) = 2 \<and>
     p_ofile (procs s' 0) 1 = Some 0"
proof -
  have a7: "tf_get 0 (TF_A 7) dup_state = 10" by (simp add: tf_get_def TF_A_def ld_le_numeral)
  have a0: "tf_get 0 (TF_A 0) dup_state = 0" by (simp add: tf_get_def TF_A_def ld_le_numeral)
  have "argint 0 dup_state = Some (Ok (0, dup_state))" by (simp add: argint_def argraw_def a0 int32_def)
  then have arg: "argfd 0 dup_state = Some (Ok (Some (0, 0), dup_state))" by (simp add: argfd_def)
  let ?s1 = "set_proc 0 (\<lambda>p. p\<lparr>p_ofile := (p_ofile p)(1 := Some 0)\<rparr>) dup_state"
  have "[0..<NOFILE] = 0 # 1 # [2..<NOFILE]" by (simp add: upt_rec)
  then have fd: "fdalloc 0 dup_state = Some (Ok (1, ?s1))" by (simp add: fdalloc_def zero_proc_def)
  let ?s2 = "set_file 0 (\<lambda>x. x\<lparr>f_ref := f_ref x + 1\<rparr>) ?s1"
  have "filedup 0 ?s1 = Some (Ok (0, ?s2))" by (simp add: filedup_def set_proc_def)
  then have "sys_dup dup_state = Some (Ok (1, ?s2))" by (simp add: sys_dup_def arg fd)
  then have "returning sys_dup dup_state = Some (Ok (Some 1, ?s2))" by (simp add: returning_def)
  then have "syscall (\<lambda>_. None) (\<lambda>_. None) dup_state = Some (Ok (True, tf_set 0 (TF_A 0) (uint64 1) ?s2))"
    by (simp add: syscall_def a7 int32_def syscalls_def)
  then show ?thesis by (simp add: tf_set_def set_kmem_def set_file_def set_proc_def)
qed

theorem syscall_keeps_file_refs_witness:
  "\<exists>s'. syscall (\<lambda>_. None) (\<lambda>_. None) dup_state = Some (Ok (True, s')) \<and> refs_ok (\<lambda>_. 0) dup_state \<and> running dup_state \<and>
     f_ref (ftable s' 0) = 2 \<and> p_ofile (procs s' 0) 1 = Some 0 \<and> refs_ok (\<lambda>_. 0) s' \<and> running s'"
proof -
  have d: "dev_frames (\<lambda>_. None)" by (simp add: dev_frames_def)
  obtain s' where s': "syscall (\<lambda>_. None) (\<lambda>_. None) dup_state = Some (Ok (True, s'))" "f_ref (ftable s' 0) = 2" "p_ofile (procs s' 0) 1 = Some 0"
    using dup_state_call by blast
  show ?thesis using syscall_keeps_file_refs [OF d d dup_state_ok s'(1)] s' dup_state_ok by blast
qed

end
