(* ===== verification/Table_Types.thy ===== *)
theory Table_Types
  imports Proc_Refs
begin

text \<open>
  The pointers between the kernel's tables are typed: an open file refers to an entry of the inode
  table, a process to entries of the file table, the inode table and the process table. Every system
  call keeps it so.
\<close>

section \<open>Typed states and actions\<close>

definition proc_typed :: "proc \<Rightarrow> bool" where
  "proc_typed p \<longleftrightarrow> (\<forall>fd f. p_ofile p fd = Some f \<longrightarrow> f < NFILE) \<and> (\<forall>ip. p_cwd p = Some ip \<longrightarrow> ip < NINODE) \<and>
     (\<forall>i. p_parent p = Some i \<longrightarrow> i < NPROC)"

definition tables_typed :: "kst \<Rightarrow> bool" where
  "tables_typed s \<longleftrightarrow> (\<forall>i. proc_typed (procs s i)) \<and> (\<forall>f. f_ip (ftable s f) < NINODE) \<and> cur s < NPROC \<and> initproc s < NPROC"

definition typed :: "'a kact \<Rightarrow> ('a \<Rightarrow> bool) \<Rightarrow> bool" where
  "typed m B \<longleftrightarrow> (\<forall>s x s'. tables_typed s \<longrightarrow> m s = Some (Ok (x, s')) \<longrightarrow> tables_typed s' \<and> B x)"

named_theorems typed_intros

lemma typed_core: "keeps core m \<Longrightarrow> typed m (\<lambda>_. True)"
  unfolding typed_def keeps_def core_def tables_typed_def by (metis prod.inject)

lemma typed_ret [typed_intros]: "B x \<Longrightarrow> typed (ret x) B"
  by (simp add: typed_def)

lemma typed_get [typed_intros]: "(\<And>s. tables_typed s \<Longrightarrow> B (f s)) \<Longrightarrow> typed (get f) B"
  by (simp add: typed_def)

lemma typed_stop [typed_intros]: "typed (panic e) B" "typed blocked B"
  by (simp_all add: typed_def)

lemma typed_bind: "typed m B \<Longrightarrow> (\<And>x. B x \<Longrightarrow> typed (k x) C) \<Longrightarrow> typed (bindA m k) C"
  unfolding typed_def bindA_eq_Ok by blast

lemmas typed_bindA [typed_intros] = typed_bind [where B = "\<lambda>_. True"]

lemma typed_doM [typed_intros]: "typed m (\<lambda>_. True) \<Longrightarrow> typed k C \<Longrightarrow> typed (doM m k) C"
  unfolding doM_def by (rule typed_bindA)

lemma typed_if [typed_intros]: "(c \<Longrightarrow> typed a B) \<Longrightarrow> (\<not> c \<Longrightarrow> typed b B) \<Longrightarrow> typed (if c then a else b) B"
  by simp

lemma typed_option [typed_intros]:
  "(x = None \<Longrightarrow> typed a B) \<Longrightarrow> (\<And>y. x = Some y \<Longrightarrow> typed (b y) B) \<Longrightarrow> typed (case x of None \<Rightarrow> a | Some y \<Rightarrow> b y) B"
  by (cases x) auto

lemma typed_prod [typed_intros]: "(\<And>a b. x = (a, b) \<Longrightarrow> typed (k a b) B) \<Longrightarrow> typed (case x of (a, b) \<Rightarrow> k a b) B"
  by (cases x) auto

lemma typed_prod_app [typed_intros]:
  "(\<And>a b. x = (a, b) \<Longrightarrow> typed (k a b y) B) \<Longrightarrow> typed ((case x of (a, b) \<Rightarrow> k a b) y) B"
  by (cases x) auto

lemma typed_let [typed_intros]: "(\<And>y. typed (k y) B) \<Longrightarrow> typed (let y = x in k y) B"
  by simp

lemma typed_for_upto [typed_intros]: "(\<And>i. typed (g i) (\<lambda>_. True)) \<Longrightarrow> typed (for_upto lo n g) (\<lambda>_. True)"
  by (induction n arbitrary: lo) (simp_all add: typed_ret, blast intro: typed_bindA)

declare TrueI [typed_intros]

lemmas tc [typed_intros] = core_ops [THEN typed_core] keeps_upd_core [THEN typed_core] keeps_bio [THEN typed_core]

lemma typed_upd: "(\<And>s. tables_typed s \<Longrightarrow> tables_typed (g s)) \<Longrightarrow> typed (upd g) (\<lambda>_. True)"
  by (simp add: typed_def)

lemma typed_set_proc [typed_intros]:
  "(\<And>p. proc_typed p \<Longrightarrow> proc_typed (h p)) \<Longrightarrow> typed (upd (set_proc i h)) (\<lambda>_. True)"
  "(\<And>p. proc_typed p \<Longrightarrow> proc_typed (h p)) \<Longrightarrow> typed (upd (\<lambda>s. set_proc (cur s) h s)) (\<lambda>_. True)"
  by (rule typed_upd, simp add: tables_typed_def set_proc_def)+

lemma typed_set_file [typed_intros]:
  "(\<And>x. f_ip x < NINODE \<Longrightarrow> f_ip (g x) < NINODE) \<Longrightarrow> typed (upd (set_file f g)) (\<lambda>_. True)"
  by (rule typed_upd) (simp add: tables_typed_def set_file_def)

lemma typed_fields [typed_intros]:
  "typed (upd (\<lambda>s. s\<lparr>pipes := a s\<rparr>)) (\<lambda>_. True)" "typed (upd (\<lambda>s. set_kmem (k s) s)) (\<lambda>_. True)"
  "typed (upd (tf_set i off v)) (\<lambda>_. True)" "typed (upd (\<lambda>s. s\<lparr>nextpid := n s\<rparr>)) (\<lambda>_. True)"
  by (rule typed_upd, simp add: tables_typed_def set_kmem_def tf_set_def)+

section \<open>Inodes\<close>

lemma iget_range: "typed (iget dev inum) (\<lambda>ip. ip < NINODE)"
proof -
  have "x < NINODE" if "iget dev inum s = Some (Ok (x, s'))" for s x s'
    using that by (auto simp: iget_def bindA_eq_Ok doM_eq_Ok find_Some_iff split: option.splits)
  then show ?thesis using typed_core [OF keeps_inodes(1), of dev inum] unfolding typed_def by blast
qed

abbreviation opt_range :: "nat option \<Rightarrow> bool" where
  "opt_range r \<equiv> (\<forall>ip. r = Some ip \<longrightarrow> ip < NINODE)"

lemma ialloc_range: "typed (ialloc dev type) opt_range"
proof -
  have "typed (ialloc_loop dev type n inum) opt_range" for n inum
    by (induction dev type n inum rule: ialloc_loop.induct)
      (subst ialloc_loop.simps, intro typed_bind [OF iget_range] typed_intros; simp)
  then show ?thesis unfolding ialloc_def by (intro typed_intros)
qed

lemma idup_range: "ip < NINODE \<Longrightarrow> typed (idup ip) (\<lambda>ip. ip < NINODE)"
  using typed_core [OF keeps_inodes(4), of ip] by (auto simp: typed_def idup_def doM_eq_Ok)

lemma dirlookup_range: "typed (dirlookup dp name) (\<lambda>r. \<forall>off ip. r = Some (off, ip) \<longrightarrow> ip < NINODE)"
proof -
  have "typed (dirlookup_loop dp name sz off) (\<lambda>r. \<forall>off ip. r = Some (off, ip) \<longrightarrow> ip < NINODE)" for sz off
    by (induction dp name sz off rule: dirlookup_loop.induct)
      (subst dirlookup_loop.simps, intro typed_bind [OF iget_range] typed_intros; simp)
  then show ?thesis unfolding dirlookup_def by (intro typed_intros)
qed

lemma namex_range: "typed (namex path par) (\<lambda>r. \<forall>ip nm. r = Some (ip, nm) \<longrightarrow> ip < NINODE)"
proof -
  let ?B = "\<lambda>r. \<forall>ip nm. r = Some (ip, nm) \<longrightarrow> ip < NINODE"
  have loop: "ip < NINODE \<Longrightarrow> typed (namex_loop path par ip nm) ?B" for path ip nm
    by (induction path par ip nm rule: namex_loop.induct)
      (subst namex_loop.simps, intro typed_bind [OF dirlookup_range] typed_intros; simp)
  have cwd: "typed (get (\<lambda>s. p_cwd (myproc s))) opt_range"
    by (rule typed_get) (simp add: tables_typed_def proc_typed_def)
  have "typed (if c then iget ROOTDEV ROOTINO else bindA (get (\<lambda>s. p_cwd (myproc s)))
      (\<lambda>c. case c of None \<Rightarrow> panic e | Some ip \<Rightarrow> idup ip)) (\<lambda>ip. ip < NINODE)" for c e
    by (rule typed_if, rule iget_range, rule typed_bind [OF cwd], rule typed_option, rule typed_stop, rule idup_range, blast)
  then show ?thesis unfolding namex_def by (rule typed_bind) (rule loop)
qed

lemma namei_range: "typed (namei path) opt_range"
  unfolding namei_def by (rule typed_bind [OF namex_range], rule typed_ret) auto

lemma create_range: "typed (create path type major minor) opt_range"
  unfolding create_def create_fail_def nameiparent_def
  by (intro typed_bind [OF ialloc_range] typed_bind [OF dirlookup_range] typed_intros; simp)

lemma open_inode_range: "typed (open_inode path omode) opt_range"
  unfolding open_inode_def by (intro create_range typed_bind [OF namei_range] typed_intros; simp)

section \<open>Files and descriptors\<close>

abbreviation opt_file :: "nat option \<Rightarrow> bool" where
  "opt_file r \<equiv> (\<forall>f. r = Some f \<longrightarrow> f < NFILE)"

lemma filealloc_range: "typed filealloc opt_file"
proof -
  have f: "typed (get (\<lambda>s. find (\<lambda>i. f_ref (ftable s i) = 0) [0..<NFILE])) opt_file" by (rule typed_get) (auto simp: find_Some_iff)
  show ?thesis unfolding filealloc_def by (intro typed_bind [OF f] typed_intros; simp)
qed

lemma argfd_range: "typed (argfd n) (\<lambda>r. \<forall>fd f. r = Some (fd, f) \<longrightarrow> f < NFILE)"
proof -
  have o: "typed (get (\<lambda>s. p_ofile (myproc s) fd)) opt_file" for fd
    by (rule typed_get) (auto simp: tables_typed_def proc_typed_def)
  show ?thesis unfolding argfd_def by (intro typed_bind [OF o] typed_intros; auto)
qed

lemma fdalloc_typed: "f < NFILE \<Longrightarrow> typed (fdalloc f) (\<lambda>_. True)"
  unfolding fdalloc_def by (intro typed_intros) (simp add: proc_typed_def)

lemma typed_wakeups [typed_intros]: "typed (wakeup ch) (\<lambda>_. True)" "typed (wakeups pi cs) (\<lambda>_. True)"
proof -
  have "proc_typed (wake ch p) = proc_typed p" for ch p by (simp add: wake_def proc_typed_def)
  then show w: "typed (wakeup ch) (\<lambda>_. True)" for ch unfolding wakeup_def by (intro typed_upd) (simp add: tables_typed_def)
  show "typed (wakeups pi cs) (\<lambda>_. True)" by (induction cs; simp only: wakeups.simps) (intro typed_intros w; assumption?)+
qed

lemma typed_pipes [typed_intros]:
  "typed (kmfree_act p n) (\<lambda>_. True)" "typed (kmalloc_act n) (\<lambda>_. True)" "typed (pipeclose_file pi w) (\<lambda>_. True)"
  "typed (piperead_file pi a m) (\<lambda>_. True)" "typed (pipewrite_file pi a m) (\<lambda>_. True)"
proof -
  have "core (s\<lparr>mm := y\<rparr>) = core s" for s y by (simp add: core_def)
  then have "keeps core (kmfree_act p n)" "keeps core (kmalloc_act n)" for p n
    unfolding keeps_def by (auto simp: kmfree_act_def kmalloc_act_def bindF_eq_Ok bindR_eq_Ok)
  then show k: "typed (kmfree_act p n) (\<lambda>_. True)" "typed (kmalloc_act n) (\<lambda>_. True)" for p n by (blast intro: typed_core)+
  show "typed (pipeclose_file pi w) (\<lambda>_. True)" unfolding pipeclose_file_def by (intro typed_intros k)
  have b: "typed (case r of Ret x \<Rightarrow> a x | Sleep c i \<Rightarrow> blocked) B" if "\<And>x. typed (a x) B" for r and a :: "'b \<Rightarrow> 'c kact" and B
    using that by (cases r) (auto intro: typed_intros)
  show "typed (piperead_file pi a m) (\<lambda>_. True)" unfolding piperead_file_def by (intro typed_intros b)
  show "typed (pipewrite_file pi a m) (\<lambda>_. True)" unfolding pipewrite_file_def by (intro typed_intros b)
qed

lemma typed_files [typed_intros]: "typed (filedup f) (\<lambda>x. x = f)" "typed (fileclose f) (\<lambda>_. True)" "typed (filestat f a) (\<lambda>_. True)"
proof -
  show "typed (filedup f) (\<lambda>x. x = f)" unfolding filedup_def by (intro typed_intros; simp)
  show "typed (fileclose f) (\<lambda>_. True)" unfolding fileclose_def by (intro typed_intros; simp)
  show "typed (filestat f a) (\<lambda>_. True)" unfolding filestat_def by (intro typed_intros)
qed

lemma pipealloc_range: "typed pipealloc (\<lambda>r. \<forall>f0 f1. r = Some (f0, f1) \<longrightarrow> f0 < NFILE \<and> f1 < NFILE)"
  unfolding pipealloc_def by (intro typed_bind [OF filealloc_range] typed_intros; simp)

lemma typed_read_write:
  assumes "dev_frames dev"
  shows "typed (fileread dev f a m) (\<lambda>_. True)" "typed (filewrite dev f a m) (\<lambda>_. True)"
proof -
  have type: "typed (case t of FD_NONE \<Rightarrow> k1 | FD_PIPE \<Rightarrow> k2 | FD_INODE \<Rightarrow> k3 | FD_DEVICE \<Rightarrow> k4) (\<lambda>_. True)"
    if "typed k1 (\<lambda>_. True)" "typed k2 (\<lambda>_. True)" "typed k3 (\<lambda>_. True)" "typed k4 (\<lambda>_. True)" for t and k1 k2 k3 k4 :: "int kact"
    using that by (cases t) auto
  have w: "typed (filewrite_loop f a n i) (\<lambda>_. True)" for n i
    by (induction f a n i rule: filewrite_loop.induct) (subst filewrite_loop.simps, intro typed_intros; simp)
  show "typed (fileread dev f a m) (\<lambda>_. True)" "typed (filewrite dev f a m) (\<lambda>_. True)"
    unfolding fileread_def filewrite_def by (intro typed_intros type w; use assms in \<open>simp add: dev_frames_def typed_core\<close>)+
qed

section \<open>Processes\<close>

lemma proc_typed_signals [simp]: "proc_typed (init_signals p) = proc_typed p" "proc_typed (post_signal n p) = proc_typed p"
  by (auto simp: init_signals_def post_signal_def proc_typed_def Let_def)

lemma typed_procs [typed_intros]:
  "typed (kkill pid n) (\<lambda>_. True)" "typed (setkilled i) (\<lambda>_. True)" "typed (killed i) (\<lambda>_. True)" "typed allocpid (\<lambda>_. True)"
  "typed (proc_pagetable i) (\<lambda>_. True)" "typed (proc_freepagetable pt sz) (\<lambda>_. True)" "typed (growproc n) (\<lambda>_. True)"
proof -
  show "typed (kkill pid n) (\<lambda>_. True)" unfolding kkill_def by (intro typed_intros; simp)
  show "typed (setkilled i) (\<lambda>_. True)" "typed (killed i) (\<lambda>_. True)" unfolding setkilled_def killed_def
    by (intro typed_intros; simp add: proc_typed_def init_signals_def)+
  show "typed allocpid (\<lambda>_. True)" unfolding allocpid_def by (intro typed_intros)
  show "typed (proc_pagetable i) (\<lambda>_. True)" "typed (proc_freepagetable pt sz) (\<lambda>_. True)"
    unfolding proc_pagetable_def proc_freepagetable_def by (intro typed_intros)+
  show "typed (growproc n) (\<lambda>_. True)" unfolding growproc_def by (intro typed_intros; simp add: proc_typed_def init_signals_def)
qed

lemma typed_freeproc [typed_intros]: "typed (freeproc i) (\<lambda>_. True)"
  unfolding freeproc_def by (intro typed_intros; simp add: proc_typed_def init_signals_def)

lemma typed_allocproc [typed_intros]: "typed allocproc (\<lambda>_. True)"
  unfolding allocproc_def by (intro typed_intros; simp add: proc_typed_def init_signals_def)

lemma typed_dup_fd: "typed (dup_fd me np i) (\<lambda>_. True)"
proof -
  have o: "typed (get (\<lambda>s. p_ofile (procs s me) i)) opt_file" by (rule typed_get) (auto simp: tables_typed_def proc_typed_def)
  show ?thesis unfolding dup_fd_def
    by (intro typed_bind [OF o] typed_bind [OF typed_files(1)] typed_intros) (simp add: proc_typed_def)
qed

lemma kfork_typed: "typed kfork (\<lambda>_. True)"
proof -
  have me: "typed (get cur) (\<lambda>i. i < NPROC)" by (rule typed_get) (simp add: tables_typed_def)
  have p: "typed (get myproc) (\<lambda>p. opt_range (p_cwd p))" by (rule typed_get) (simp add: tables_typed_def proc_typed_def)
  have c: "typed (case x of None \<Rightarrow> panic e | Some ip \<Rightarrow> idup ip) (\<lambda>ip. ip < NINODE)" if "opt_range x" for x e
    by (intro typed_option typed_stop idup_range) (use that in blast)
  have t: "typed (upd (copy_trapframe a b)) (\<lambda>_. True)" for a b
    by (rule typed_upd) (simp add: copy_trapframe_def tables_typed_def set_kmem_def)
  show ?thesis unfolding kfork_def
    by (intro typed_bind [OF me] typed_bind [OF p] typed_bind [OF c] t typed_dup_fd typed_intros; simp add: proc_typed_def)
qed

lemma kexit_typed: "typed (kexit status) (\<lambda>_. True)"
proof -
  have i: "typed (get (\<lambda>s. (p_parent (procs s pp), initproc s))) (\<lambda>r. snd r < NPROC)" for pp by (rule typed_get) (simp add: tables_typed_def)
  have "typed (reparent_one me pp) (\<lambda>_. True)" for me pp unfolding reparent_one_def
    by (intro typed_bind [OF i] typed_intros; simp add: proc_typed_def)
  then have r: "typed (reparent me) (\<lambda>_. True)" for me unfolding reparent_def by (intro typed_intros)
  have "typed (close_fd me fd) (\<lambda>_. True)" for me fd unfolding close_fd_def by (intro typed_intros; simp add: proc_typed_def init_signals_def)
  then show ?thesis unfolding kexit_def by (intro typed_intros r; simp add: proc_typed_def)
qed

lemma kwait_typed: "typed (kwait a) (\<lambda>_. True)"
  unfolding kwait_def by (intro typed_intros)

lemma kexec_typed: "typed (kexec path argv) (\<lambda>_. True)"
proof -
  have "keeps core (loadseg_loop pt va ip off sz i)" for pt va ip off sz i
    by (induction pt va ip off sz i rule: loadseg_loop.induct) (subst loadseg_loop.simps, intro keeps_intros, blast+)
  then have l: "keeps core (loadseg pt va ip off sz)" for pt va ip off sz unfolding loadseg_def .
  have s: "keeps core (load_segments ip pt off sz n)" for ip pt off sz n
    by (induction n arbitrary: off sz; simp only: load_segments.simps) (intro keeps_intros l; assumption?)+
  have p: "keeps core (push_args pt b as sp us)" for pt b as sp us
    by (induction as arbitrary: sp us; simp only: push_args.simps) (intro keeps_intros; assumption?)+
  have b: "typed (exec_bad pt sz ipo) (\<lambda>_. True)" for pt sz ipo unfolding exec_bad_def by (intro typed_intros)
  have "typed (exec_stack path argv pt sz e) (\<lambda>_. True)" for pt sz e
    unfolding exec_stack_def by (intro typed_intros p [THEN typed_core] b; simp add: proc_typed_def init_signals_def)
  then show ?thesis unfolding kexec_def by (intro typed_intros s [THEN typed_core] b)
qed

section \<open>System calls\<close>

lemma fd_calls_typed:
  "typed sys_dup (\<lambda>_. True)" "typed sys_close (\<lambda>_. True)" "typed sys_fstat (\<lambda>_. True)" "typed sys_pipe (\<lambda>_. True)"
proof -
  have c: "typed (clear_fd fd) (\<lambda>_. True)" for fd unfolding clear_fd_def by (intro typed_intros) (simp add: proc_typed_def)
  show "typed sys_dup (\<lambda>_. True)" unfolding sys_dup_def
    by (intro typed_bind [OF argfd_range] typed_bind [OF typed_files(1)] fdalloc_typed typed_intros; simp)
  show "typed sys_close (\<lambda>_. True)" "typed sys_fstat (\<lambda>_. True)" unfolding sys_close_def sys_fstat_def
    by (intro typed_bind [OF argfd_range] c typed_intros)+
  show "typed sys_pipe (\<lambda>_. True)" unfolding sys_pipe_def
    by (intro typed_bind [OF pipealloc_range] fdalloc_typed c typed_intros; simp)
qed

lemma path_calls_typed: "typed sys_open (\<lambda>_. True)" "typed sys_chdir (\<lambda>_. True)"
proof -
  have n: "typed (case x of None \<Rightarrow> ret None | Some path \<Rightarrow> namei path) opt_range" for x
    by (intro typed_option namei_range typed_ret) simp
  show "typed sys_open (\<lambda>_. True)" unfolding sys_open_def open_fail_def
    by (intro typed_bind [OF open_inode_range] typed_bind [OF filealloc_range] fdalloc_typed typed_intros; simp)
  show "typed sys_chdir (\<lambda>_. True)" unfolding sys_chdir_def
    by (intro typed_bind [OF n] typed_intros; simp add: proc_typed_def)
qed

lemma other_calls_typed:
  "typed sys_getpid (\<lambda>_. True)" "typed sys_sbrk (\<lambda>_. True)" "typed sys_pause (\<lambda>_. True)" "typed sys_kill (\<lambda>_. True)"
  "typed sys_signal (\<lambda>_. True)" "typed sys_sigreturn (\<lambda>_. True)" "typed sys_uptime (\<lambda>_. True)" "typed sys_exec (\<lambda>_. True)"
  "typed sys_wait (\<lambda>_. True)"
proof -
  have f: "typed (fetch_args u n i ps as) (\<lambda>_. True)" for u n i ps as
    by (induction n arbitrary: i ps as; simp only: fetch_args.simps) (intro typed_intros; assumption?)+
  have g: "typed (free_pages ps) (\<lambda>_. True)" for ps
    by (induction ps; simp only: free_pages.simps) (intro typed_intros; assumption?)+
  show "typed sys_getpid (\<lambda>_. True)" "typed sys_uptime (\<lambda>_. True)" "typed sys_pause (\<lambda>_. True)" "typed sys_kill (\<lambda>_. True)"
    unfolding sys_getpid_def sys_uptime_def sys_pause_def sys_kill_def by (intro typed_intros)+
  show "typed sys_sbrk (\<lambda>_. True)" "typed sys_signal (\<lambda>_. True)" "typed sys_sigreturn (\<lambda>_. True)"
    unfolding sys_sbrk_def sys_signal_def sys_sigreturn_def by (intro typed_intros; simp add: proc_typed_def)+
  show "typed sys_exec (\<lambda>_. True)" unfolding sys_exec_def by (intro typed_intros f g kexec_typed)
  show "typed sys_wait (\<lambda>_. True)" unfolding sys_wait_def by (intro typed_intros kwait_typed)
qed

lemma rw_calls_typed:
  assumes "dev_frames dev"
  shows "typed (sys_read dev) (\<lambda>_. True)" "typed (sys_write dev) (\<lambda>_. True)"
  unfolding sys_read_def sys_write_def by (intro typed_bind [OF argfd_range] typed_intros typed_read_write assms)+

lemma syscalls_typed:
  assumes "syscalls devread devwrite num = Some call" "dev_frames devread" "dev_frames devwrite"
  shows "typed call (\<lambda>_. True)"
proof -
  have ret: "typed (returning m) (\<lambda>_. True)" if "typed m (\<lambda>_. True)" for m unfolding returning_def by (intro typed_intros that)
  have exit: "typed sys_exit (\<lambda>_. True)" unfolding sys_exit_def by (intro typed_intros kexit_typed)
  have halt: "typed (ret None) (\<lambda>_. True)" by (rule typed_ret) simp
  note calls = exit halt ret [OF kfork_typed] fd_calls_typed [THEN ret] path_calls_typed [THEN ret] other_calls_typed [THEN ret]
    keeps_create(4-7) [THEN typed_core, THEN ret] rw_calls_typed(1) [OF assms(2), THEN ret] rw_calls_typed(2) [OF assms(3), THEN ret]
  show ?thesis
    using assms(1) unfolding syscalls_def sys_fork_def by (auto split: if_splits intro: calls)
qed

text \<open>
  (C36) The kernel's table pointers are well typed: after any system call every descriptor refers to
  an entry of the file table, every working directory and every open file to an entry of the inode
  table, every parent to an entry of the process table, if this held before the call.
\<close>

theorem syscall_keeps_tables_typed:
  assumes "dev_frames devread" "dev_frames devwrite" "tables_typed s" "syscall devread devwrite s = Some (Ok (go, s'))"
  shows "tables_typed s'"
proof -
  have call: "typed (bindA call (\<lambda>r. case r of None \<Rightarrow> ret False | Some v \<Rightarrow> doM (upd (tf_set me off (uint64 v))) (ret True))) (\<lambda>_. True)"
    if "syscalls devread devwrite n = Some call" for me off n call
    using syscalls_typed [OF that assms(1,2)] by (intro typed_intros)
  have "typed (syscall devread devwrite) (\<lambda>_. True)"
    unfolding syscall_def by (intro typed_bindA typed_prod typed_option typed_intros call) (auto split: if_splits)
  then show ?thesis using assms(3,4) by (auto simp: typed_def)
qed

theorem syscall_keeps_tables_typed_witness:
  "\<exists>s'. tables_typed dup_state \<and> syscall (\<lambda>_. None) (\<lambda>_. None) dup_state = Some (Ok (True, s')) \<and>
     p_ofile (procs s' 0) 1 = Some 0 \<and> tables_typed s'"
proof -
  have d: "dev_frames (\<lambda>_. None)" by (simp add: dev_frames_def)
  have t: "tables_typed dup_state"
    by (auto simp: tables_typed_def proc_typed_def zero_proc_def zero_file_def dup_state_def one_process_def set_file_def set_proc_def
        zero_kst_def split: if_splits)
  obtain s' where s': "syscall (\<lambda>_. None) (\<lambda>_. None) dup_state = Some (Ok (True, s'))" "p_ofile (procs s' 0) 1 = Some 0"
    using dup_state_call by blast
  show ?thesis using syscall_keeps_tables_typed [OF d d t s'(1)] t s' by blast
qed

end
