(* ===== verification/Signals.thy ===== *)
theory Signals
  imports Proc_Refs
begin

text \<open>
  Signal delivery (\<open>handle_signals\<close> in kernel/trap.c) and return (\<open>sys_sigreturn\<close> in kernel/sysproc.c,
  reached through \<open>syscall\<close>): the handler runs on a copy of the trap frame, and the interrupted program
  gets its own back.
\<close>

abbreviation frame :: "nat \<Rightarrow> kst \<Rightarrow> u8 list" where
  "frame tf s \<equiv> load_bytes tf TF_SIZE (kmem_of s)"

definition word_at :: "nat \<Rightarrow> nat \<Rightarrow> bool" where
  "word_at off k \<longleftrightarrow> off \<le> k \<and> k < off + 8"

lemma st_ld_same: "st_le n m a (ld_le n m a) = m"
proof (induction n arbitrary: a)
  case (Suc n)
  have u: "unat (m a) < 256" using unsigned_less [of "m a"] by simp
  then have "(unat (m a) + 256 * ld_le n m (Suc a)) div 256 = ld_le n m (Suc a)" by simp
  moreover have "(of_nat (unat (m a) + 256 * ld_le n m (Suc a)) :: u8) = m a"
    using u by (subst word_unat_eq_iff, subst unat_of_nat) simp
  ultimately show ?case using Suc.IH [of "Suc a"] by simp
qed simp

lemma tf_set_simps [simp]:
  "procs (tf_set i off v s) = procs s" "cur (tf_set i off v s) = cur s"
  "pmem (kmem_of (tf_set i off v s)) = st_le 8 (pmem (kmem_of s)) (p_trapframe (procs s i) + off) v"
  by (simp_all add: tf_set_def set_kmem_def kmem_of_def)

lemma tf_get_set:
  "tf_get i off (tf_set i off v s) = v mod 2 ^ 64"
  "off + 8 \<le> off' \<or> off' + 8 \<le> off \<Longrightarrow> tf_get i off' (tf_set i off v s) = tf_get i off' s"
  using ld_st_same [of 8] by (simp_all add: tf_get_def ld_st_other)

lemma tf_get_set_proc [simp]: "(\<And>p. p_trapframe (h p) = p_trapframe p) \<Longrightarrow> tf_get i off (set_proc j h s) = tf_get i off s"
  by (simp add: tf_get_def set_proc_def kmem_of_def)

lemma set_proc_same [simp]: "procs (set_proc i h s) i = h (procs s i)" "cur (set_proc i h s) = cur s"
  by (simp_all add: set_proc_def)

section \<open>Delivery\<close>

definition deliverable :: "nat \<Rightarrow> proc \<Rightarrow> bool" where
  "deliverable signum p \<longleftrightarrow> \<not> p_sigframe_valid p \<and> signum < NSIG \<and> signum \<noteq> SIGKILL \<and>
     bit (p_pending p) signum \<and> (\<forall>j < signum. \<not> bit (p_pending p) j) \<and> bit (p_valid_handlers p) signum"

definition in_handler :: "nat \<Rightarrow> nat \<Rightarrow> kst \<Rightarrow> kst \<Rightarrow> bool" where
  "in_handler i signum s s1 \<longleftrightarrow>
     (let p = procs s i; q = procs s1 i; tf = p_trapframe p in
      q = p\<lparr>p_pending := p_pending p AND NOT (push_bit signum 1), p_sigframe := p_sigframe q, p_sigframe_valid := True\<rparr> \<and>
      bytes_at (p_sigframe q) 0 TF_SIZE = frame tf s \<and>
      tf_get i TF_EPC s1 = p_handlers p signum mod 2 ^ 64 \<and> tf_get i (TF_A 0) s1 = signum \<and> tf_get i TF_RA s1 = 2 ^ 64 - 1 \<and>
      (\<forall>k. \<not> word_at TF_EPC k \<longrightarrow> \<not> word_at (TF_A 0) k \<longrightarrow> \<not> word_at TF_RA k \<longrightarrow>
         pmem (kmem_of s1) (tf + k) = pmem (kmem_of s) (tf + k)))"

lemma in_handlerD:
  assumes "in_handler i signum s s1"
  shows "p_sigframe_valid (procs s1 i)" "p_trapframe (procs s1 i) = p_trapframe (procs s i)"
    "bytes_at (p_sigframe (procs s1 i)) 0 TF_SIZE = frame (p_trapframe (procs s i)) s"
proof -
  have e: "procs s1 i = (procs s i)\<lparr>p_pending := p_pending (procs s i) AND NOT (push_bit signum 1),
      p_sigframe := p_sigframe (procs s1 i), p_sigframe_valid := True\<rparr>"
    using assms unfolding in_handler_def Let_def by blast
  show "p_sigframe_valid (procs s1 i)" "p_trapframe (procs s1 i) = p_trapframe (procs s i)" by (subst e, simp)+
  show "bytes_at (p_sigframe (procs s1 i)) 0 TF_SIZE = frame (p_trapframe (procs s i)) s"
    using assms unfolding in_handler_def Let_def by blast
qed

lemma and_bit_iff: "(w :: u64) AND 2 ^ n = 0 \<longleftrightarrow> \<not> bit w n" if "n < 64"
proof -
  have "w AND 2 ^ n = (if bit w n then 2 ^ n else 0)"
    by (rule bit_word_eqI) (auto simp: bit_and_iff bit_exp_iff)
  moreover have "bit (2 ^ n :: u64) n" using that by (simp add: bit_exp_iff)
  ultimately show ?thesis using that by (cases "bit w n") auto
qed

lemma find_pending:
  assumes "deliverable signum p"
  shows "find (\<lambda>sig. p_pending p AND push_bit sig 1 \<noteq> 0) [0..<NSIG] = Some signum"
  using assms by (auto simp: deliverable_def find_Some_iff and_bit_iff intro!: exI [of _ signum])

lemma handle_signals_delivers:
  assumes "deliverable signum (procs s i)"
  shows "\<exists>s1. handle_signals i s = Some (Ok ((), s1)) \<and> cur s1 = cur s \<and> in_handler i signum s s1"
proof -
  let ?p = "procs s i"
  let ?a = "set_proc i (\<lambda>p. p\<lparr>p_pending := p_pending p AND NOT (push_bit signum 1)\<rparr>) s"
  let ?b = "set_proc i (\<lambda>p. p\<lparr>p_sigframe := put_bytes 0 (load_bytes (p_trapframe p) TF_SIZE (kmem_of ?a)) (p_sigframe p),
            p_sigframe_valid := True\<rparr>) ?a"
  let ?c = "tf_set i TF_RA (uint64 (-1)) (tf_set i (TF_A 0) signum (tf_set i TF_EPC (p_handlers ?p signum) ?b))"
  have s: "signum < 64" "signum \<noteq> SIGKILL" "p_valid_handlers ?p AND push_bit signum 1 \<noteq> 0" "p_pending ?p \<noteq> 0" "\<not> p_sigframe_valid ?p"
    using assms and_bit_iff [of signum] by (auto simp: deliverable_def)
  have k: "kmem_of (set_proc i h t) = kmem_of t" for h t by (simp add: set_proc_def kmem_of_def)
  have "deliver i signum s = Some (Ok ((), ?c))"
    unfolding deliver_def using s by simp
  then have run: "handle_signals i s = Some (Ok ((), ?c))"
    using s find_pending [OF assms] by (simp add: handle_signals_def)
  have q: "procs ?c i = ?p\<lparr>p_pending := p_pending ?p AND NOT (push_bit signum 1),
      p_sigframe := put_bytes 0 (frame (p_trapframe ?p) s) (p_sigframe ?p), p_sigframe_valid := True\<rparr>"
    by (simp add: k)
  have len: "length (frame (p_trapframe ?p) s) = TF_SIZE" by (simp add: load_bytes_def)
  have tf: "p_trapframe (procs ?b i) = p_trapframe ?p" by simp
  have mem: "pmem (kmem_of ?c) = st_le 8 (st_le 8 (st_le 8 (pmem (kmem_of s)) (p_trapframe ?p + TF_EPC) (p_handlers ?p signum))
       (p_trapframe ?p + TF_A 0) signum) (p_trapframe ?p + TF_RA) (uint64 (-1))"
    using tf by (simp add: k)
  have "pmem (kmem_of ?c) (p_trapframe ?p + k) = pmem (kmem_of s) (p_trapframe ?p + k)"
    if "\<not> word_at TF_EPC k" "\<not> word_at (TF_A 0) k" "\<not> word_at TF_RA k" for k
    using that unfolding mem word_at_def by (auto simp: st_le_outside)
  moreover have "tf_get i TF_EPC ?c = p_handlers ?p signum mod 2 ^ 64" "tf_get i (TF_A 0) ?c = signum" "tf_get i TF_RA ?c = 2 ^ 64 - 1"
    using s(1) by (simp_all add: tf_get_set TF_EPC_def TF_A_def TF_RA_def uint64_def)
  ultimately have "in_handler i signum s ?c"
    unfolding in_handler_def Let_def q by (simp add: put_bytes_at_same [OF len])
  then show ?thesis using run by (intro exI [of _ ?c]) simp
qed

section \<open>Return\<close>

lemma store_frame:
  assumes "length bs = TF_SIZE"
  shows "frame tf (set_kmem (store_bytes tf bs (kmem_of s)) s) = bs"
  by (rule nth_equalityI) (use assms in \<open>auto simp: load_bytes_def store_bytes_def set_kmem_def kmem_of_def\<close>)

lemma sigreturn_restores:
  assumes "cur s = i" "p_sigframe_valid (procs s i)" "int32 (tf_get i (TF_A 7) s mod 2 ^ 32) = 24"
  shows "\<exists>s'. syscall devread devwrite s = Some (Ok (True, s')) \<and> cur s' = i \<and>
    procs s' i = (procs s i)\<lparr>p_sigframe_valid := False\<rparr> \<and>
    frame (p_trapframe (procs s i)) s' = bytes_at (p_sigframe (procs s i)) 0 TF_SIZE"
proof -
  let ?p = "procs s i"
  let ?a = "set_kmem (store_bytes (p_trapframe ?p) (bytes_at (p_sigframe ?p) 0 TF_SIZE) (kmem_of s)) s"
  let ?b = "set_proc i (\<lambda>p. p\<lparr>p_sigframe_valid := False\<rparr>) ?a"
  let ?r = "tf_get i (TF_A 0) ?a"
  let ?c = "tf_set i (TF_A 0) (uint64 (int ?r)) ?b"
  have pa: "procs ?a = procs s" "cur ?a = cur s" by (simp_all add: set_kmem_def)
  have "sys_sigreturn s = Some (Ok (int ?r, ?b))" using assms(1,2) by (simp add: sys_sigreturn_def)
  then have run: "syscall devread devwrite s = Some (Ok (True, ?c))"
    using assms(1,3) by (simp add: syscall_def syscalls_def returning_def)
  have kb: "kmem_of ?b = kmem_of ?a" by (simp add: set_proc_def kmem_of_def)
  have "?r < 2 ^ 64" by (simp add: tf_get_def)
  then have "uint64 (int ?r) = ?r" by (simp add: uint64_def nat_mod_distrib)
  then have "pmem (kmem_of ?c) = pmem (kmem_of ?a)"
    using kb by (simp add: tf_get_def pa st_ld_same)
  then have "frame (p_trapframe ?p) ?c = frame (p_trapframe ?p) ?a" unfolding load_bytes_def by (rule arg_cong)
  then have "frame (p_trapframe ?p) ?c = bytes_at (p_sigframe ?p) 0 TF_SIZE" by (simp add: store_frame)
  then show ?thesis using run assms(1) by (intro exI [of _ ?c]) (simp add: pa)
qed

text \<open>
  (C39) A signal with a handler is delivered once, lowest number first: the process continues in its
  handler with the signal number as argument and an invalid return address, everything else in its
  registers unchanged, and no other signal interrupts the handler. Whatever the handler does to the
  registers and to memory, when it calls \<open>sigreturn\<close> all 288 bytes of the trap frame, the register
  that carries system call results included, are those of the interrupted program.
\<close>

theorem signal_roundtrip:
  assumes "deliverable signum (procs s i)" "cur s = i"
  shows "\<exists>s1. handle_signals i s = Some (Ok ((), s1)) \<and> in_handler i signum s s1 \<and> handle_signals i s1 = Some (Ok ((), s1)) \<and>
    (\<forall>s2 devread devwrite. cur s2 = i \<longrightarrow> p_sigframe_valid (procs s2 i) \<longrightarrow> p_sigframe (procs s2 i) = p_sigframe (procs s1 i) \<longrightarrow>
      p_trapframe (procs s2 i) = p_trapframe (procs s1 i) \<longrightarrow> int32 (tf_get i (TF_A 7) s2 mod 2 ^ 32) = 24 \<longrightarrow>
      (\<exists>s3. syscall devread devwrite s2 = Some (Ok (True, s3)) \<and> \<not> p_sigframe_valid (procs s3 i) \<and>
         frame (p_trapframe (procs s3 i)) s3 = frame (p_trapframe (procs s i)) s))"
proof -
  obtain s1 where s1: "handle_signals i s = Some (Ok ((), s1))" "in_handler i signum s s1"
    using handle_signals_delivers [OF assms(1)] by blast
  have q: "p_sigframe_valid (procs s1 i)" "p_trapframe (procs s1 i) = p_trapframe (procs s i)"
    "bytes_at (p_sigframe (procs s1 i)) 0 TF_SIZE = frame (p_trapframe (procs s i)) s"
    using in_handlerD [OF s1(2)] by blast+
  have "handle_signals i s1 = Some (Ok ((), s1))" using q(1) by (simp add: handle_signals_def)
  moreover have "\<exists>s3. syscall devread devwrite s2 = Some (Ok (True, s3)) \<and> \<not> p_sigframe_valid (procs s3 i) \<and>
         frame (p_trapframe (procs s3 i)) s3 = frame (p_trapframe (procs s i)) s"
    if "cur s2 = i" "p_sigframe_valid (procs s2 i)" "p_sigframe (procs s2 i) = p_sigframe (procs s1 i)"
      "p_trapframe (procs s2 i) = p_trapframe (procs s1 i)" "int32 (tf_get i (TF_A 7) s2 mod 2 ^ 32) = 24" for s2 devread devwrite
    using sigreturn_restores [OF that(1,2,5), of devread devwrite] q that by auto
  ultimately show ?thesis using s1 by blast
qed

definition sig_state :: kst where
  "sig_state = one_process (\<lambda>p. p\<lparr>p_pending := 4, p_valid_handlers := 4, p_handlers := (\<lambda>_. 0)(2 := 64)\<rparr>) 4096 (\<lambda>_. 0) (\<lambda>_ _. 0)"

lemma sig_state_deliverable: "deliverable 2 (procs sig_state 0)" "cur sig_state = 0"
  by (auto simp: deliverable_def sig_state_def zero_proc_def less_2_cases_iff)

theorem signal_roundtrip_witness:
  "\<exists>s1 s3. handle_signals 0 sig_state = Some (Ok ((), s1)) \<and> tf_get 0 TF_EPC s1 = 64 \<and> tf_get 0 (TF_A 0) s1 = 2 \<and>
     syscall (\<lambda>_. None) (\<lambda>_. None) (tf_set 0 (TF_A 7) 24 s1) = Some (Ok (True, s3)) \<and> frame 4096 s3 = frame 4096 sig_state"
proof -
  obtain s1 where s1: "handle_signals 0 sig_state = Some (Ok ((), s1))" "in_handler 0 2 sig_state s1"
    and again: "\<forall>s2 devread devwrite. cur s2 = 0 \<longrightarrow> p_sigframe_valid (procs s2 0) \<longrightarrow> p_sigframe (procs s2 0) = p_sigframe (procs s1 0) \<longrightarrow>
      p_trapframe (procs s2 0) = p_trapframe (procs s1 0) \<longrightarrow> int32 (tf_get 0 (TF_A 7) s2 mod 2 ^ 32) = 24 \<longrightarrow>
      (\<exists>s3. syscall devread devwrite s2 = Some (Ok (True, s3)) \<and> \<not> p_sigframe_valid (procs s3 0) \<and>
         frame (p_trapframe (procs s3 0)) s3 = frame (p_trapframe (procs sig_state 0)) sig_state)"
    using signal_roundtrip [OF sig_state_deliverable] by blast
  have tf: "p_trapframe (procs sig_state 0) = 4096" "p_handlers (procs sig_state 0) 2 = 64" by (simp_all add: sig_state_def)
  have c: "cur s1 = 0" using handle_signals_delivers [OF sig_state_deliverable(1)] s1(1) sig_state_deliverable(2) by auto
  obtain s3 where s3: "syscall (\<lambda>_. None) (\<lambda>_. None) (tf_set 0 (TF_A 7) 24 s1) = Some (Ok (True, s3))"
    "frame (p_trapframe (procs s3 0)) s3 = frame 4096 sig_state"
    using again [rule_format, of "tf_set 0 (TF_A 7) 24 s1" "\<lambda>_. None" "\<lambda>_. None"] in_handlerD [OF s1(2)] c tf
    by (auto simp: tf_get_set int32_def)
  have "p_trapframe (procs s3 0) = 4096"
    using sigreturn_restores [of "tf_set 0 (TF_A 7) 24 s1" 0 "\<lambda>_. None" "\<lambda>_. None"] s3(1) c in_handlerD [OF s1(2)] tf
    by (auto simp: tf_get_set int32_def)
  then show ?thesis using s1 s3 tf unfolding in_handler_def Let_def by auto
qed

end
