(* ===== verification/Kill.thy ===== *)
theory Kill
  imports Signals
begin

text \<open>
  \<open>kkill\<close> of kernel/proc.c on the process identifier 0, which free slots of the process table have.
\<close>

abbreviation kview :: "nat \<Rightarrow> kst \<Rightarrow> bool" where
  "kview i \<equiv> (\<lambda>s. p_killed (procs s i))"

lemma keeps_killed: "keeps core m \<Longrightarrow> keeps (kview i) m"
proof -
  assume "keeps core m"
  then have "keeps (\<lambda>s. (\<lambda>c. p_killed (fst (snd c) i)) (core s)) m" by (rule keeps_comp)
  then show ?thesis by (simp add: core_def)
qed

lemmas kc = core_ops [THEN keeps_killed]

lemma kview_set [keeps_intros]:
  "(\<And>p. p_killed (h p) = p_killed p) \<Longrightarrow> keeps (kview i) (upd (set_proc j h))"
  "keeps (kview i) (upd (set_file f g))" "keeps (kview i) (upd (tf_set j off v))" "keeps (kview i) (upd (copy_trapframe me np))"
  "keeps (kview i) allocpid" "keeps (kview i) (proc_pagetable j)"
proof -
  show "keeps (kview i) (upd (set_proc j h))" if "\<And>p. p_killed (h p) = p_killed p" using that by (intro keeps_upd) (simp add: set_proc_def)
  show "keeps (kview i) (upd (set_file f g))" "keeps (kview i) (upd (tf_set j off v))" "keeps (kview i) (upd (copy_trapframe me np))"
    by (rule keeps_upd, simp add: set_file_def tf_set_def copy_trapframe_def set_kmem_def)+
  show "keeps (kview i) allocpid" unfolding allocpid_def by (intro keeps_intros keeps_upd) simp
  show "keeps (kview i) (proc_pagetable j)" unfolding proc_pagetable_def by (intro keeps_intros kc)
qed

lemma pres_killed: "keeps (kview i) m \<Longrightarrow> pres (kview i) m (\<lambda>_. kview i)"
  by (rule pres_keeps) auto

text \<open>The slot \<open>i\<close> is the next one that \<open>allocproc\<close> hands out.\<close>

definition next_free :: "nat \<Rightarrow> kst \<Rightarrow> bool" where
  "next_free i s \<longleftrightarrow> i < NPROC \<and> p_state (procs s i) = UNUSED \<and> (\<forall>j<i. p_state (procs s j) \<noteq> UNUSED)"

lemma allocproc_killed:
  "pres (\<lambda>s. next_free i s \<and> kview i s) allocproc (\<lambda>r s. case r of None \<Rightarrow> True | Some np \<Rightarrow> np = i \<and> kview i s)"
proof -
  have found: "find (\<lambda>j. p_state (procs s j) = UNUSED) [0..<NPROC] = Some i" if "next_free i s" for s
    using that by (auto simp: next_free_def find_Some_iff intro!: exI [of _ i])
  have fail: "pres P (doM (freeproc j) (ret None)) (\<lambda>r s. case r of None \<Rightarrow> True | Some np \<Rightarrow> Q np s)" for P j Q
    by (auto simp: pres_def doM_eq_Ok)
  show ?thesis
    unfolding allocproc_def
    apply (rule pres_bindA [where Q = "\<lambda>r s. r = Some i \<and> kview i s"], rule pres_get, blast intro: found)
    apply (rule pres_pure, hypsubst, simp only: option.case)
    apply (rule pres_bindA [OF pres_killed], rule keeps_intros)
    apply (rule pres_doM [OF pres_killed], intro keeps_intros, simp)
    apply (rule pres_bindA [OF pres_killed], rule kc)
    apply (rule pres_doM [OF pres_killed], intro keeps_intros, simp)
    apply (rule pres_if, rule fail)
    apply (rule pres_bindA [OF pres_killed], rule keeps_intros)
    apply (rule pres_doM [OF pres_killed], intro keeps_intros, simp)
    apply (rule pres_if, rule fail)
    apply (rule pres_doM [OF pres_killed], intro keeps_intros, simp add: init_signals_def)
    apply (rule pres_ret, simp)
    done
qed

lemma keeps_dup_fds: "keeps (kview i) (for_upto 0 NOFILE (dup_fd me np))"
  unfolding dup_fd_def filedup_def by (intro keeps_intros) simp

lemma kfork_killed:
  "pres (\<lambda>s. next_free i s \<and> kview i s) kfork (\<lambda>pid s. pid \<noteq> -1 \<longrightarrow> p_pid (procs s i) = pid \<and> kview i s)"
proof -
  have last: "pres (\<lambda>s. pid = p_pid (procs s i) \<and> kview i s) (doM (upd (set_proc i (\<lambda>q. q\<lparr>p_parent := Some me\<rparr>)))
     (doM (upd (set_proc i (\<lambda>q. q\<lparr>p_state := RUNNABLE\<rparr>))) (ret pid))) (\<lambda>pid s. pid \<noteq> -1 \<longrightarrow> p_pid (procs s i) = pid \<and> kview i s)" for pid me
    by (auto simp: pres_def doM_eq_Ok set_proc_def)
  have fail: "pres P (doM (freeproc j) (ret (-1))) (\<lambda>pid s. pid \<noteq> -1 \<longrightarrow> Q pid s)" "pres P (ret (-1)) (\<lambda>pid s. pid \<noteq> -1 \<longrightarrow> Q pid s)"
    for P j and Q :: "int \<Rightarrow> kst \<Rightarrow> bool"
    by (auto simp: pres_def doM_eq_Ok)
  show ?thesis
    unfolding kfork_def
    apply (rule pres_bindA [where Q = "\<lambda>_ s. next_free i s \<and> kview i s"], rule pres_get, simp)
    apply (rule pres_bindA [where Q = "\<lambda>_ s. next_free i s \<and> kview i s"], rule pres_get, simp)
    apply (rule pres_if, rule pres_panic)
    apply (rule pres_bindA [OF allocproc_killed], rule pres_split_option, rule fail, rule pres_pure, hypsubst)
    apply (rule pres_bindA [OF pres_killed], rule keeps_intros)
    apply (rule pres_bindA [OF pres_killed], rule kc)
    apply (rule pres_if, rule fail)
    apply (rule pres_doM [OF pres_killed], intro keeps_intros, simp)
    apply (rule pres_doM [OF pres_killed], intro keeps_intros)
    apply (rule pres_doM [OF pres_killed], intro keeps_intros)
    apply (rule pres_doM [OF pres_killed], intro keeps_intros, simp)
    apply (rule pres_doM [OF pres_killed], rule keeps_dup_fds)
    apply (rule pres_bindA [OF pres_killed], intro keeps_intros kc)
    apply (rule pres_doM [OF pres_killed], intro keeps_intros, simp)
    apply (rule pres_bindA [where Q = "\<lambda>pid s. pid = p_pid (procs s i) \<and> kview i s"], rule pres_get, simp)
    apply (rule last)
    done
qed



end
