(* ===== verification/Sched.thy ===== *)
theory Sched
  imports Kstate
begin

text \<open>
  The scheduler and sleeping of kernel/proc.c, one lock operation or assignment to the process table
  at a time, on any number of CPUs. \<open>swtch\<close> is the exchange of the running context: a CPU runs its
  scheduler or a process, and every process and every scheduler has a place where it will go on. A
  call of \<open>sleep\<close> or \<open>wakeup\<close> is made by a process that is otherwise in arbitrary kernel or user
  code; that code takes and drops condition locks.
\<close>

datatype lockid = PLock nat | Cond nat

datatype spc = Scan nat | Look nat | Back nat

datatype tpc =
    Body | Start
  | Sl1 nat nat | Sl2 nat nat | Sl3 nat nat | Sl4 nat nat | Sl5 nat | Sl6 nat | Sl7 nat
  | Y1 | Y2 | Y3 | Y4
  | Wk nat nat | Wk_hold nat nat

text \<open>
  \<open>pc_of\<close>, \<open>chold\<close> (the condition locks a process holds), \<open>calls_of\<close> (how often it has called \<open>sleep\<close>),
  \<open>asleep\<close> (not yet woken from the last call) and \<open>owed\<close> (the calls a \<open>wakeup\<close> in progress has to
  wake) describe the threads; the other fields are the kernel's.
\<close>

record sys =
  lks :: "lockid \<Rightarrow> spinlock"
  cpus :: "nat \<Rightarrow> cpu"
  c_proc :: "nat \<Rightarrow> nat option"
  spc_of :: "nat \<Rightarrow> spc"
  pstate :: "nat \<Rightarrow> procstate"
  pchan :: "nat \<Rightarrow> nat"
  pc_of :: "nat \<Rightarrow> tpc"
  saved_intena :: "nat \<Rightarrow> bool"
  chold :: "nat \<Rightarrow> nat set"
  calls_of :: "nat \<Rightarrow> nat"
  asleep :: "nat \<Rightarrow> (nat \<times> nat) option"
  owed :: "nat \<Rightarrow> (nat \<times> nat) set"

definition goto :: "nat \<Rightarrow> tpc \<Rightarrow> sys \<Rightarrow> sys" where
  "goto p x s = s\<lparr>pc_of := (pc_of s)(p := x)\<rparr>"

text \<open>Taking and dropping a lock on CPU \<open>c\<close>; no result while the lock is taken.\<close>

definition take_lock :: "nat \<Rightarrow> lockid \<Rightarrow> sys \<Rightarrow> sys res option" where
  "take_lock c l s =
     (case acquire c (lks s l) (cpus s c) of
        None \<Rightarrow> None
      | Some (Panic e) \<Rightarrow> Some (Panic e)
      | Some (Ok (k, u)) \<Rightarrow> Some (Ok (s\<lparr>lks := (lks s)(l := k), cpus := (cpus s)(c := u)\<rparr>)))"

definition drop_lock :: "nat \<Rightarrow> lockid \<Rightarrow> sys \<Rightarrow> sys res option" where
  "drop_lock c l s =
     Some (bindR (release c (lks s l) (cpus s c)) (\<lambda>(k, u). Ok (s\<lparr>lks := (lks s)(l := k), cpus := (cpus s)(c := u)\<rparr>)))"

definition andthen :: "sys res option \<Rightarrow> (sys \<Rightarrow> sys) \<Rightarrow> sys res option" where
  "andthen r f = (case r of Some (Ok s) \<Rightarrow> Some (Ok (f s)) | _ \<Rightarrow> r)"

section \<open>The scheduler\<close>

definition next_slot :: "nat \<Rightarrow> nat" where
  "next_slot i = (if i + 1 < NPROC then i + 1 else 0)"

definition scheduler :: "nat \<Rightarrow> sys \<Rightarrow> sys res option" where
  "scheduler c s =
     (case spc_of s c of
        Scan i \<Rightarrow> andthen (take_lock c (PLock i) s) (\<lambda>s. s\<lparr>spc_of := (spc_of s)(c := Look i)\<rparr>)
      | Look i \<Rightarrow>
          if pstate s i = RUNNABLE then
            Some (Ok (s\<lparr>pstate := (pstate s)(i := RUNNING), c_proc := (c_proc s)(c := Some i), spc_of := (spc_of s)(c := Back i),
              cpus := (cpus s)(c := (cpus s c)\<lparr>intena := (if pc_of s i = Start then intena (cpus s c) else saved_intena s i)\<rparr>)\<rparr>))
          else andthen (drop_lock c (PLock i) s) (\<lambda>s. s\<lparr>spc_of := (spc_of s)(c := Scan (next_slot i))\<rparr>)
      | Back i \<Rightarrow> andthen (drop_lock c (PLock i) s) (\<lambda>s. s\<lparr>spc_of := (spc_of s)(c := Scan (next_slot i))\<rparr>))"

text \<open>\<open>sched\<close> up to the switch; the end of \<open>sched\<close>, which restores \<open>intena\<close>, is part of the switch back.\<close>

definition sched :: "nat \<Rightarrow> nat \<Rightarrow> tpc \<Rightarrow> sys \<Rightarrow> sys res option" where
  "sched c p resume s =
     (if \<not> holding c (lks s (PLock p)) then Some (Panic ''sched p->lock'')
      else if noff (cpus s c) \<noteq> 1 then Some (Panic ''sched locks'')
      else if pstate s p = RUNNING then Some (Panic ''sched RUNNING'')
      else if sie (cpus s c) then Some (Panic ''sched interruptible'')
      else Some (Ok (goto p resume (s\<lparr>c_proc := (c_proc s)(c := None), saved_intena := (saved_intena s)(p := intena (cpus s c))\<rparr>))))"

section \<open>Threads\<close>

definition yield :: "nat \<Rightarrow> nat \<Rightarrow> sys \<Rightarrow> sys res option" where
  "yield c p s =
     (case pc_of s p of
        Y1 \<Rightarrow> andthen (take_lock c (PLock p) s) (goto p Y2)
      | Y2 \<Rightarrow> Some (Ok (goto p Y3 (s\<lparr>pstate := (pstate s)(p := RUNNABLE)\<rparr>)))
      | Y3 \<Rightarrow> sched c p Y4 s
      | Y4 \<Rightarrow> andthen (drop_lock c (PLock p) s) (goto p Body)
      | _ \<Rightarrow> None)"

definition sleep :: "nat \<Rightarrow> nat \<Rightarrow> sys \<Rightarrow> sys res option" where
  "sleep c p s =
     (case pc_of s p of
        Sl1 ch l \<Rightarrow> andthen (take_lock c (PLock p) s) (goto p (Sl2 ch l))
      | Sl2 ch l \<Rightarrow> andthen (drop_lock c (Cond l) s) (\<lambda>s. goto p (Sl3 ch l) (s\<lparr>chold := (chold s)(p := chold s p - {l})\<rparr>))
      | Sl3 ch l \<Rightarrow> Some (Ok (goto p (Sl4 ch l) (s\<lparr>pchan := (pchan s)(p := ch), pstate := (pstate s)(p := SLEEPING)\<rparr>)))
      | Sl4 ch l \<Rightarrow> sched c p (Sl5 l) s
      | Sl5 l \<Rightarrow> Some (Ok (goto p (Sl6 l) (s\<lparr>pchan := (pchan s)(p := 0)\<rparr>)))
      | Sl6 l \<Rightarrow> andthen (drop_lock c (PLock p) s) (goto p (Sl7 l))
      | Sl7 l \<Rightarrow> andthen (take_lock c (Cond l) s) (\<lambda>s. goto p Body (s\<lparr>chold := (chold s)(p := insert l (chold s p))\<rparr>))
      | _ \<Rightarrow> None)"

definition wake_one :: "nat \<Rightarrow> nat \<Rightarrow> sys \<Rightarrow> sys" where
  "wake_one ch i s =
     (if pstate s i = SLEEPING \<and> pchan s i = ch then s\<lparr>pstate := (pstate s)(i := RUNNABLE), asleep := (asleep s)(i := None)\<rparr> else s)"

definition wakeup_loop :: "nat \<Rightarrow> nat \<Rightarrow> sys \<Rightarrow> sys res option" where
  "wakeup_loop c p s =
     (case pc_of s p of
        Wk ch i \<Rightarrow>
          if i < NPROC then
            if i \<noteq> p then andthen (take_lock c (PLock i) s) (goto p (Wk_hold ch i)) else Some (Ok (goto p (Wk ch (i + 1)) s))
          else Some (Ok (goto p Body s))
      | Wk_hold ch i \<Rightarrow> andthen (drop_lock c (PLock i) (wake_one ch i s)) (goto p (Wk ch (i + 1)))
      | _ \<Rightarrow> None)"

text \<open>The first thing a new process does, in \<open>forkret\<close> or \<open>kthread_entry\<close>.\<close>

definition start_thread :: "nat \<Rightarrow> nat \<Rightarrow> sys \<Rightarrow> sys res option" where
  "start_thread c p s =
     (case pc_of s p of Start \<Rightarrow> andthen (drop_lock c (PLock p) s) (goto p Body) | _ \<Rightarrow> None)"

definition thread :: "nat \<Rightarrow> nat \<Rightarrow> sys \<Rightarrow> sys res option" where
  "thread c p s =
     (case start_thread c p s of Some r \<Rightarrow> Some r | None \<Rightarrow>
      case yield c p s of Some r \<Rightarrow> Some r | None \<Rightarrow>
      case sleep c p s of Some r \<Rightarrow> Some r | None \<Rightarrow> wakeup_loop c p s)"

section \<open>Steps\<close>

text \<open>
  Other code of a process takes and drops condition locks, turns interrupts on or off while it holds
  none, and starts the three calls. \<open>sleep\<close> is called with its condition lock and no other held,
  \<open>yield\<close> with none, and \<open>wakeup\<close> never with the lock of a process.
\<close>

inductive kstep :: "sys \<Rightarrow> sys \<Rightarrow> bool" where
  scheduler: "c_proc s c = None \<Longrightarrow> scheduler c s = Some (Ok s') \<Longrightarrow> kstep s s'"
| idle: "c_proc s c = None \<Longrightarrow> spc_of s c = Scan i \<Longrightarrow> kstep s (s\<lparr>cpus := (cpus s)(c := (cpus s c)\<lparr>sie := b\<rparr>)\<rparr>)"
| thread: "c_proc s c = Some p \<Longrightarrow> thread c p s = Some (Ok s') \<Longrightarrow> kstep s s'"
| body_take: "c_proc s c = Some p \<Longrightarrow> pc_of s p = Body \<Longrightarrow> l \<notin> chold s p \<Longrightarrow> take_lock c (Cond l) s = Some (Ok s') \<Longrightarrow>
    kstep s (s'\<lparr>chold := (chold s)(p := insert l (chold s p))\<rparr>)"
| body_drop: "c_proc s c = Some p \<Longrightarrow> pc_of s p = Body \<Longrightarrow> l \<in> chold s p \<Longrightarrow> drop_lock c (Cond l) s = Some (Ok s') \<Longrightarrow>
    kstep s (s'\<lparr>chold := (chold s)(p := chold s p - {l})\<rparr>)"
| body_intr: "c_proc s c = Some p \<Longrightarrow> pc_of s p = Body \<Longrightarrow> chold s p = {} \<Longrightarrow> kstep s (s\<lparr>cpus := (cpus s)(c := (cpus s c)\<lparr>sie := b\<rparr>)\<rparr>)"
| call_sleep: "c_proc s c = Some p \<Longrightarrow> pc_of s p = Body \<Longrightarrow> chold s p = {l} \<Longrightarrow>
    kstep s (goto p (Sl1 ch l) (s\<lparr>calls_of := (calls_of s)(p := calls_of s p + 1), asleep := (asleep s)(p := Some (ch, l))\<rparr>))"
| call_yield: "c_proc s c = Some p \<Longrightarrow> pc_of s p = Body \<Longrightarrow> chold s p = {} \<Longrightarrow> kstep s (goto p Y1 s)"
| call_wakeup: "c_proc s c = Some p \<Longrightarrow> pc_of s p = Body \<Longrightarrow>
    kstep s (goto p (Wk ch 0) (s\<lparr>owed := (owed s)(p := {(q, calls_of s q) | q l. q < NPROC \<and> asleep s q = Some (ch, l) \<and> l \<in> chold s p})\<rparr>))"

inductive kreach :: "sys \<Rightarrow> sys \<Rightarrow> bool" for s0 where
  kreach_here: "kreach s0 s0"
| kreach_step: "kreach s0 s1 \<Longrightarrow> kstep s1 s2 \<Longrightarrow> kreach s0 s2"

end
