(* ===== verification/Sched_Correct.thy ===== *)
theory Sched_Correct
  imports Sched
begin

text \<open>
  Scheduling is safe and \<open>sleep\<close> misses no \<open>wakeup\<close>: an invariant of the step relation.
\<close>

section \<open>Locks and interrupt nesting\<close>

text \<open>\<open>H c\<close> are the locks CPU \<open>c\<close> holds.\<close>

definition locks_ok :: "(nat \<Rightarrow> lockid set) \<Rightarrow> sys \<Rightarrow> bool" where
  "locks_ok H s \<longleftrightarrow>
     (\<forall>l c. holding c (lks s l) \<longleftrightarrow> l \<in> H c) \<and> (\<forall>l. sl_locked (lks s l) \<longrightarrow> (\<exists>c. l \<in> H c)) \<and>
     (\<forall>c. finite (H c) \<and> noff (cpus s c) = int (card (H c)) \<and> (H c \<noteq> {} \<longrightarrow> \<not> sie (cpus s c)))"

lemma locks_ok_unique: "locks_ok H s \<Longrightarrow> l \<in> H c \<Longrightarrow> l \<in> H c' \<Longrightarrow> c = c'"
  unfolding locks_ok_def holding_def by (metis option.inject)

lemma locked_some:
  assumes "locks_ok H s" "sl_locked (lks s l)" "\<And>c. l \<in> H c \<Longrightarrow> l \<in> H' c"
  shows "\<exists>c. l \<in> H' c"
  using assms unfolding locks_ok_def by blast

lemma locks_ok_cong: "lks s' = lks s \<Longrightarrow> cpus s' = cpus s \<Longrightarrow> locks_ok H s' = locks_ok H s"
  by (simp add: locks_ok_def)

lemma locks_ok_fields [simp]:
  "locks_ok H (s\<lparr>chold := a1\<rparr>) = locks_ok H s" "locks_ok H (s\<lparr>pc_of := a2\<rparr>) = locks_ok H s" "locks_ok H (s\<lparr>pstate := a3\<rparr>) = locks_ok H s"
  "locks_ok H (s\<lparr>pchan := a4\<rparr>) = locks_ok H s" "locks_ok H (s\<lparr>asleep := a5\<rparr>) = locks_ok H s" "locks_ok H (s\<lparr>owed := a6\<rparr>) = locks_ok H s"
  "locks_ok H (s\<lparr>calls_of := a7\<rparr>) = locks_ok H s" "locks_ok H (s\<lparr>spc_of := a8\<rparr>) = locks_ok H s" "locks_ok H (s\<lparr>c_proc := a9\<rparr>) = locks_ok H s"
  "locks_ok H (s\<lparr>saved_intena := a0\<rparr>) = locks_ok H s" "locks_ok H (goto p x s) = locks_ok H s"
  by (simp_all add: locks_ok_def goto_def)

lemma take_lock_no_panic: "locks_ok H s \<Longrightarrow> l \<notin> H c \<Longrightarrow> take_lock c l s \<noteq> Some (Panic e)"
  by (auto simp: locks_ok_def take_lock_def acquire_def acquire_begin_def Let_def split: option.splits res.splits)

lemma take_lock_ok:
  assumes "locks_ok H s" "take_lock c l s = Some (Ok s')"
  obtains k u where "s' = s\<lparr>lks := k, cpus := u\<rparr>" "locks_ok (H(c := insert l (H c))) s'" "\<And>c'. l \<notin> H c'"
proof -
  let ?k = "(lks s)(l := \<lparr>sl_locked = True, sl_cpu = Some c\<rparr>)" and ?u = "(cpus s)(c := push_off (cpus s c))"
  have free: "\<not> sl_locked (lks s l)" and s': "s' = s\<lparr>lks := ?k, cpus := ?u\<rparr>"
    using assms(2) by (auto simp: take_lock_def acquire_def acquire_begin_def acquire_swap_def Let_def split: option.splits res.splits if_splits)
  have no: "l \<notin> H c'" for c' using assms(1) free by (auto simp: locks_ok_def holding_def)
  have "locks_ok (H(c := insert l (H c))) s'"
    unfolding locks_ok_def
  proof (intro conjI allI)
    show "holding c' (lks s' l') = (l' \<in> (H(c := insert l (H c))) c')" for l' c'
      using assms(1) no unfolding locks_ok_def s' by (auto simp: holding_def)
    show "sl_locked (lks s' l') \<longrightarrow> (\<exists>c'. l' \<in> (H(c := insert l (H c))) c')" for l'
    proof (cases "l' = l")
      case True
      then show ?thesis by (intro impI exI [of _ c]) simp
    next
      case False
      then show ?thesis by (intro impI locked_some [OF assms(1)]) (auto simp: s')
    qed
    show "finite ((H(c := insert l (H c))) c')" "noff (cpus s' c') = int (card ((H(c := insert l (H c))) c'))"
      "(H(c := insert l (H c))) c' \<noteq> {} \<longrightarrow> \<not> sie (cpus s' c')" for c'
      using assms(1) no unfolding locks_ok_def s' by (simp_all add: push_off_def Let_def)
  qed
  then show thesis using that s' no by blast
qed

lemma drop_lock_ok:
  assumes "locks_ok H s" "l \<in> H c"
  obtains k u where "drop_lock c l s = Some (Ok (s\<lparr>lks := k, cpus := u\<rparr>))" "locks_ok (H(c := H c - {l})) (s\<lparr>lks := k, cpus := u\<rparr>)"
proof -
  let ?k = "(lks s)(l := \<lparr>sl_locked = False, sl_cpu = None\<rparr>)"
  have h: "holding c (lks s l)" and fin: "finite (H c)" and n: "noff (cpus s c) = int (card (H c))" and i: "\<not> sie (cpus s c)"
    using assms unfolding locks_ok_def by blast+
  have pos: "0 < card (H c)" using fin assms(2) by (auto simp: card_gt_0_iff)
  let ?c1 = "(cpus s c)\<lparr>noff := noff (cpus s c) - 1\<rparr>"
  let ?u1 = "if noff ?c1 = 0 \<and> intena ?c1 then ?c1\<lparr>sie := True\<rparr> else ?c1"
  let ?u = "(cpus s)(c := ?u1)"
  have run: "drop_lock c l s = Some (Ok (s\<lparr>lks := ?k, cpus := ?u\<rparr>))"
    using h i n pos by (simp add: drop_lock_def release_def pop_off_def Let_def)
  have only: "l \<notin> H c'" if "c' \<noteq> c" for c' using locks_ok_unique [OF assms(1,2), of c'] that by blast
  have card: "card (H c - {l}) = card (H c) - 1" using assms(2) fin by simp
  have "locks_ok (H(c := H c - {l})) (s\<lparr>lks := ?k, cpus := ?u\<rparr>)"
    unfolding locks_ok_def
  proof (intro conjI allI)
    show "holding c' (lks (s\<lparr>lks := ?k, cpus := ?u\<rparr>) l') = (l' \<in> (H(c := H c - {l})) c')" for l' c'
      using assms(1) only unfolding locks_ok_def by (auto simp: holding_def)
    show "sl_locked (lks (s\<lparr>lks := ?k, cpus := ?u\<rparr>) l') \<longrightarrow> (\<exists>c'. l' \<in> (H(c := H c - {l})) c')" for l'
    proof (cases "l' = l")
      case False
      then show ?thesis by (intro impI locked_some [OF assms(1)]) auto
    qed simp
    show "finite ((H(c := H c - {l})) c')" for c' using assms(1) unfolding locks_ok_def by simp
    show "noff (cpus (s\<lparr>lks := ?k, cpus := ?u\<rparr>) c') = int (card ((H(c := H c - {l})) c'))" for c'
    proof (cases "c' = c")
      case True
      then show ?thesis using n pos card by (auto simp: of_nat_diff)
    next
      case False
      then show ?thesis using assms(1) unfolding locks_ok_def by simp
    qed
    show "(H(c := H c - {l})) c' \<noteq> {} \<longrightarrow> \<not> sie (cpus (s\<lparr>lks := ?k, cpus := ?u\<rparr>) c')" for c'
    proof (cases "c' = c")
      case True
      have "H c - {l} = {}" if "card (H c) = 1" using that assms(2) by (auto simp: card_1_singleton_iff)
      then show ?thesis using True i n by auto
    next
      case False
      then show ?thesis using assms(1) unfolding locks_ok_def by simp
    qed
  qed
  then show thesis using that run by blast
qed

section \<open>The invariant\<close>

definition holds_own :: "tpc \<Rightarrow> bool" where
  "holds_own x \<longleftrightarrow> (case x of Start \<Rightarrow> True | Sl2 ch l \<Rightarrow> True | Sl3 ch l \<Rightarrow> True | Sl4 ch l \<Rightarrow> True | Sl5 l \<Rightarrow> True | Sl6 l \<Rightarrow> True
     | Y2 \<Rightarrow> True | Y3 \<Rightarrow> True | Y4 \<Rightarrow> True | _ \<Rightarrow> False)"

definition thread_locks :: "sys \<Rightarrow> nat \<Rightarrow> lockid set" where
  "thread_locks s p = Cond ` chold s p \<union> (if holds_own (pc_of s p) then {PLock p} else {}) \<union>
     (case pc_of s p of Wk_hold ch i \<Rightarrow> {PLock i} | _ \<Rightarrow> {})"

definition held :: "sys \<Rightarrow> nat \<Rightarrow> lockid set" where
  "held s c = (case c_proc s c of
     Some p \<Rightarrow> thread_locks s p
   | None \<Rightarrow> (case spc_of s c of Scan i \<Rightarrow> {} | Look i \<Rightarrow> {PLock i} | Back i \<Rightarrow> {PLock i}))"

definition on_cpu :: "sys \<Rightarrow> nat \<Rightarrow> bool" where
  "on_cpu s p \<longleftrightarrow> (\<exists>c. c_proc s c = Some p)"

definition running_ok :: "sys \<Rightarrow> nat \<Rightarrow> bool" where
  "running_ok s p \<longleftrightarrow>
     (case pc_of s p of
        Body \<Rightarrow> pstate s p = RUNNING \<and> asleep s p = None
      | Sl1 ch l \<Rightarrow> pstate s p = RUNNING \<and> asleep s p = Some (ch, l) \<and> chold s p = {l}
      | Sl2 ch l \<Rightarrow> pstate s p = RUNNING \<and> asleep s p = Some (ch, l) \<and> chold s p = {l}
      | Sl3 ch l \<Rightarrow> pstate s p = RUNNING \<and> asleep s p = Some (ch, l) \<and> chold s p = {}
      | Sl4 ch l \<Rightarrow> pstate s p = SLEEPING \<and> pchan s p = ch \<and> asleep s p = Some (ch, l) \<and> chold s p = {}
      | Y3 \<Rightarrow> pstate s p = RUNNABLE \<and> asleep s p = None \<and> chold s p = {}
      | Wk ch i \<Rightarrow> pstate s p = RUNNING \<and> asleep s p = None
      | Wk_hold ch i \<Rightarrow> pstate s p = RUNNING \<and> asleep s p = None \<and> i \<noteq> p \<and> i < NPROC
      | _ \<Rightarrow> pstate s p = RUNNING \<and> asleep s p = None \<and> chold s p = {})"

definition off_ok :: "sys \<Rightarrow> nat \<Rightarrow> bool" where
  "off_ok s p \<longleftrightarrow> chold s p = {} \<and>
     (case pc_of s p of
        Start \<Rightarrow> pstate s p \<noteq> RUNNING \<and> pstate s p \<noteq> SLEEPING \<and> asleep s p = None
      | Y4 \<Rightarrow> pstate s p = RUNNABLE \<and> asleep s p = None
      | Sl5 l \<Rightarrow> pstate s p = SLEEPING \<and> asleep s p = Some (pchan s p, l) \<or> pstate s p = RUNNABLE \<and> asleep s p = None
      | _ \<Rightarrow> False)"

text \<open>The calls of \<open>sleep\<close> that a \<open>wakeup\<close> at position \<open>i\<close> has still to wake lie ahead of it.\<close>

definition call_pending :: "sys \<Rightarrow> nat \<Rightarrow> nat \<Rightarrow> nat \<Rightarrow> nat \<Rightarrow> bool" where
  "call_pending s ch i p t \<longleftrightarrow> t \<le> calls_of s p \<and>
     (t = calls_of s p \<longrightarrow> asleep s p = None \<or>
        (\<exists>l. asleep s p = Some (ch, l) \<and> i \<le> p \<and> pc_of s p \<in> {Sl3 ch l, Sl4 ch l, Sl5 l}))"

definition owed_ok :: "sys \<Rightarrow> nat \<Rightarrow> bool" where
  "owed_ok s q \<longleftrightarrow> (\<forall>ch i p t. pc_of s q = Wk ch i \<or> pc_of s q = Wk_hold ch i \<longrightarrow> (p, t) \<in> owed s q \<longrightarrow> p < NPROC \<and> call_pending s ch i p t)"

definition sinv :: "sys \<Rightarrow> bool" where
  "sinv s \<longleftrightarrow> locks_ok (held s) s \<and>
     (\<forall>c p. c_proc s c = Some p \<longrightarrow> spc_of s c = Back p \<and> running_ok s p) \<and>
     (\<forall>p. \<not> on_cpu s p \<longrightarrow> off_ok s p) \<and>
     (\<forall>c c' p. c_proc s c = Some p \<longrightarrow> c_proc s c' = Some p \<longrightarrow> c = c') \<and>
     (\<forall>q. owed_ok s q)"

lemma sinvD:
  assumes "sinv s"
  shows "locks_ok (held s) s" "c_proc s c = Some p \<Longrightarrow> spc_of s c = Back p" "c_proc s c = Some p \<Longrightarrow> running_ok s p"
    "\<not> on_cpu s p \<Longrightarrow> off_ok s p" "c_proc s c = Some p \<Longrightarrow> c_proc s c' = Some p \<Longrightarrow> c = c'" "owed_ok s q"
  using assms unfolding sinv_def by blast+

lemma thread_view:
  assumes "pc_of s' q = pc_of s q" "pstate s' q = pstate s q" "pchan s' q = pchan s q" "chold s' q = chold s q" "asleep s' q = asleep s q"
  shows "running_ok s' q = running_ok s q" "off_ok s' q = off_ok s q" "thread_locks s' q = thread_locks s q"
  unfolding running_ok_def off_ok_def thread_locks_def assms by (rule refl)+

section \<open>Steps of one thread\<close>

text \<open>What a step of thread \<open>p\<close> leaves alone, and how it may change its own sleep.\<close>

definition only_thread :: "nat \<Rightarrow> sys \<Rightarrow> sys \<Rightarrow> bool" where
  "only_thread p s s' \<longleftrightarrow> c_proc s' = c_proc s \<and> spc_of s' = spc_of s \<and>
     (\<forall>q. q \<noteq> p \<longrightarrow> pc_of s' q = pc_of s q \<and> pstate s' q = pstate s q \<and> pchan s' q = pchan s q \<and> chold s' q = chold s q \<and>
        asleep s' q = asleep s q \<and> calls_of s' q = calls_of s q \<and> owed s' q = owed s q)"

definition advances :: "nat \<Rightarrow> sys \<Rightarrow> sys \<Rightarrow> bool" where
  "advances p s s' \<longleftrightarrow> calls_of s p < calls_of s' p \<or>
     calls_of s' p = calls_of s p \<and>
       (asleep s' p = None \<or> asleep s' p = asleep s p \<and>
          (\<forall>ch l. pc_of s p \<in> {Sl3 ch l, Sl4 ch l, Sl5 l} \<longrightarrow> pc_of s' p \<in> {Sl3 ch l, Sl4 ch l, Sl5 l}))"

lemma call_pending_step:
  assumes "only_thread p s s'" "advances p s s'" "call_pending s ch i q t"
  shows "call_pending s' ch i q t"
proof (cases "q = p")
  case True
  show ?thesis using assms(2,3) unfolding True advances_def call_pending_def by auto
next
  case False
  then show ?thesis using assms(1,3) by (simp add: only_thread_def call_pending_def)
qed

lemma thread_step_inv:
  assumes v: "sinv s" and c: "c_proc s c = Some p" and only: "only_thread p s s'" and adv: "advances p s s'"
    and locks: "locks_ok ((held s)(c := thread_locks s' p)) s'" and run: "running_ok s' p"
    and mine: "owed_ok s' p"
  shows "sinv s'"
proof -
  have cp: "c_proc s' = c_proc s" "spc_of s' = spc_of s" using only by (simp_all add: only_thread_def)
  have q: "running_ok s' q = running_ok s q" "off_ok s' q = off_ok s q" "thread_locks s' q = thread_locks s q" if "q \<noteq> p" for q
    using only that by (intro thread_view; simp add: only_thread_def)+
  have "held s' c' = ((held s)(c := thread_locks s' p)) c'" for c'
  proof (cases "c' = c")
    case True
    then show ?thesis using c by (simp add: held_def cp)
  next
    case False
    then have "c_proc s c' \<noteq> Some p" using sinvD(5) [OF v c] by blast
    then show ?thesis using False q(3) by (cases "c_proc s c'") (auto simp: held_def cp)
  qed
  then have h: "held s' = (held s)(c := thread_locks s' p)" by blast
  have "owed_ok s' q" for q
  proof (cases "q = p")
    case True
    then show ?thesis using mine by simp
  next
    case False
    then have "pc_of s' q = pc_of s q" "owed s' q = owed s q" using only by (simp_all add: only_thread_def)
    then show ?thesis using sinvD(6) [OF v, of q] call_pending_step [OF only adv] by (auto simp: owed_ok_def)
  qed
  moreover have "running_ok s' q" if "c_proc s' c' = Some q" for c' q
    using that run q(1) sinvD(3) [OF v] by (cases "q = p") (auto simp: cp)
  moreover have "off_ok s' q" if "\<not> on_cpu s' q" for q
    using that c q(2) sinvD(4) [OF v] by (cases "q = p") (auto simp: on_cpu_def cp)
  ultimately show ?thesis
    using v locks unfolding sinv_def h cp by blast
qed

lemma thread_take:
  assumes v: "sinv s" and c: "c_proc s c = Some p" and run: "take_lock c l s = Some (Ok s1)"
  obtains k u where "s1 = s\<lparr>lks := k, cpus := u\<rparr>" "locks_ok ((held s)(c := insert l (thread_locks s p))) (s\<lparr>lks := k, cpus := u\<rparr>)"
    "\<And>c'. l \<notin> held s c'"
proof -
  from take_lock_ok [OF sinvD(1) [OF v] run] obtain k u where
    "s1 = s\<lparr>lks := k, cpus := u\<rparr>" "locks_ok ((held s)(c := insert l (held s c))) s1" "\<And>c'. l \<notin> held s c'" by blast
  moreover have "held s c = thread_locks s p" using c by (simp add: held_def)
  ultimately show thesis using that by simp
qed

lemma thread_drop:
  assumes v: "sinv s" and c: "c_proc s c = Some p" and l: "l \<in> thread_locks s p"
  obtains k u where "drop_lock c l s = Some (Ok (s\<lparr>lks := k, cpus := u\<rparr>))"
    "locks_ok ((held s)(c := thread_locks s p - {l})) (s\<lparr>lks := k, cpus := u\<rparr>)"
proof -
  have h: "held s c = thread_locks s p" using c by (simp add: held_def)
  show thesis using drop_lock_ok [OF sinvD(1) [OF v], of l c] l that unfolding h by metis
qed

lemmas thread_moves = goto_def only_thread_def advances_def thread_locks_def holds_own_def running_ok_def
lemmas thread_simps = thread_moves owed_ok_def

lemma body_take_inv:
  assumes v: "sinv s" and c: "c_proc s c = Some p" and pc: "pc_of s p = Body" and run: "take_lock c (Cond l) s = Some (Ok s1)"
  shows "sinv (s1\<lparr>chold := (chold s)(p := insert l (chold s p))\<rparr>)"
proof -
  obtain k u where s1: "s1 = s\<lparr>lks := k, cpus := u\<rparr>" "locks_ok ((held s)(c := insert (Cond l) (thread_locks s p))) (s\<lparr>lks := k, cpus := u\<rparr>)"
    using thread_take [OF v c run] by blast
  let ?s = "s1\<lparr>chold := (chold s)(p := insert l (chold s p))\<rparr>"
  have "thread_locks ?s p = insert (Cond l) (thread_locks s p)" using pc by (simp add: s1 thread_simps)
  then have "locks_ok ((held s)(c := thread_locks ?s p)) ?s" using s1 by simp
  then show ?thesis
    by (rule thread_step_inv [OF v c, rotated 2]) (use pc sinvD(3) [OF v c] in \<open>simp_all add: s1 thread_simps\<close>)
qed

lemma body_drop_inv:
  assumes v: "sinv s" and c: "c_proc s c = Some p" and pc: "pc_of s p = Body" and l: "l \<in> chold s p"
    and run: "drop_lock c (Cond l) s = Some (Ok s1)"
  shows "sinv (s1\<lparr>chold := (chold s)(p := chold s p - {l})\<rparr>)"
proof -
  have "Cond l \<in> thread_locks s p" using l by (simp add: thread_locks_def)
  from thread_drop [OF v c this] obtain k u where
    s1: "s1 = s\<lparr>lks := k, cpus := u\<rparr>" "locks_ok ((held s)(c := thread_locks s p - {Cond l})) (s\<lparr>lks := k, cpus := u\<rparr>)"
    using run by (metis option.inject res.inject(1))
  let ?s = "s1\<lparr>chold := (chold s)(p := chold s p - {l})\<rparr>"
  have "thread_locks ?s p = thread_locks s p - {Cond l}" using pc by (auto simp: s1 thread_simps)
  then have "locks_ok ((held s)(c := thread_locks ?s p)) ?s" using s1 by simp
  then show ?thesis
    by (rule thread_step_inv [OF v c, rotated 2]) (use pc sinvD(3) [OF v c] in \<open>simp_all add: s1 thread_simps\<close>)
qed

text \<open>A step that only moves the program counter and the thread's own fields.\<close>

lemma move_inv:
  assumes v: "sinv s" and c: "c_proc s c = Some p" and "only_thread p s s'" "advances p s s'" "running_ok s' p" "owed_ok s' p"
    and "thread_locks s' p = thread_locks s p" "lks s' = lks s" "cpus s' = cpus s"
  shows "sinv s'"
proof -
  have "held s c = thread_locks s p" using c by (simp add: held_def)
  then have "locks_ok ((held s)(c := thread_locks s' p)) s'"
    using sinvD(1) [OF v] assms(7) locks_ok_cong [OF assms(8,9)] by (metis fun_upd_triv)
  then show ?thesis by (rule thread_step_inv [OF v c assms(3,4) _ assms(5,6)])
qed

lemma call_sleep_inv:
  assumes v: "sinv s" and c: "c_proc s c = Some p" and pc: "pc_of s p = Body" "chold s p = {l}"
  shows "sinv (goto p (Sl1 ch l) (s\<lparr>calls_of := (calls_of s)(p := calls_of s p + 1), asleep := (asleep s)(p := Some (ch, l))\<rparr>))"
  by (rule move_inv [OF v c]) (use pc sinvD(3) [OF v c] in \<open>simp_all add: thread_simps\<close>)

lemma call_yield_inv:
  assumes v: "sinv s" and c: "c_proc s c = Some p" and pc: "pc_of s p = Body" "chold s p = {}"
  shows "sinv (goto p Y1 s)"
  by (rule move_inv [OF v c]) (use pc sinvD(3) [OF v c] in \<open>simp_all add: thread_simps\<close>)

text \<open>When a thread calls \<open>wakeup\<close> with the condition lock, no sleeper is still on its way to release it.\<close>

lemma call_wakeup_inv:
  assumes v: "sinv s" and c: "c_proc s c = Some p" and pc: "pc_of s p = Body"
  shows "sinv (goto p (Wk ch 0) (s\<lparr>owed := (owed s)(p := {(q, calls_of s q) | q l. q < NPROC \<and> asleep s q = Some (ch, l) \<and> l \<in> chold s p})\<rparr>))"
proof (rule move_inv [OF v c])
  let ?s = "goto p (Wk ch 0) (s\<lparr>owed := (owed s)(p := {(q, calls_of s q) | q l. q < NPROC \<and> asleep s q = Some (ch, l) \<and> l \<in> chold s p})\<rparr>)"
  have me: "asleep s p = None" using sinvD(3) [OF v c] pc by (simp add: running_ok_def)
  have "pc_of s q \<in> {Sl3 ch l, Sl4 ch l, Sl5 l}" if q: "asleep s q = Some (ch, l)" "l \<in> chold s p" for q l
  proof (cases "on_cpu s q")
    case True
    then obtain c' where c': "c_proc s c' = Some q" by (auto simp: on_cpu_def)
    have "q \<noteq> p" using q me by auto
    then have "c' \<noteq> c" using c c' by auto
    then have "Cond l \<notin> held s c'" using locks_ok_unique [OF sinvD(1) [OF v], of "Cond l" c c'] c q(2) by (auto simp: held_def thread_locks_def)
    then have "l \<notin> chold s q" using c' by (auto simp: held_def thread_locks_def)
    then show ?thesis using sinvD(3) [OF v c'] q(1) by (auto simp: running_ok_def split: tpc.splits)
  next
    case False
    then show ?thesis using sinvD(4) [OF v False] q(1) by (auto simp: off_ok_def split: tpc.splits)
  qed
  then show "owed_ok ?s p"
    using me by (auto simp: owed_ok_def call_pending_def goto_def)
qed (use pc sinvD(3) [OF v c] in \<open>simp_all add: thread_simps\<close>)

text \<open>A step keeps the invariant and does not panic; it may have to wait.\<close>

definition good :: "sys res option \<Rightarrow> bool" where
  "good r \<longleftrightarrow> (case r of None \<Rightarrow> True | Some (Ok s) \<Rightarrow> sinv s | Some (Panic e) \<Rightarrow> False)"

lemma good_take:
  assumes v: "sinv s" and c: "c_proc s c = Some p" and l: "l \<notin> thread_locks s p"
    and f: "\<And>k u H. locks_ok H (f (s\<lparr>lks := k, cpus := u\<rparr>)) = locks_ok H (s\<lparr>lks := k, cpus := u\<rparr>)"
      "\<And>k u. thread_locks (f (s\<lparr>lks := k, cpus := u\<rparr>)) p = insert l (thread_locks s p)"
      "\<And>k u. only_thread p s (f (s\<lparr>lks := k, cpus := u\<rparr>))" "\<And>k u. advances p s (f (s\<lparr>lks := k, cpus := u\<rparr>))"
      "\<And>k u. running_ok (f (s\<lparr>lks := k, cpus := u\<rparr>)) p" "\<And>k u. owed_ok (f (s\<lparr>lks := k, cpus := u\<rparr>)) p"
  shows "good (andthen (take_lock c l s) f)"
proof -
  have h: "held s c = thread_locks s p" using c by (simp add: held_def)
  show ?thesis
  proof (cases "take_lock c l s")
    case (Some r)
    then obtain s1 where r: "take_lock c l s = Some (Ok s1)"
      using take_lock_no_panic [OF sinvD(1) [OF v], of l c] l unfolding h by (cases r) auto
    from thread_take [OF v c r] obtain k u where s1: "s1 = s\<lparr>lks := k, cpus := u\<rparr>"
      "locks_ok ((held s)(c := insert l (thread_locks s p))) (s\<lparr>lks := k, cpus := u\<rparr>)" by blast
    have "sinv (f s1)"
      unfolding s1(1) by (rule thread_step_inv [OF v c f(3,4) _ f(5,6)]) (simp only: f(1,2) s1(2))
    then show ?thesis using r by (simp add: good_def andthen_def)
  qed (simp add: good_def andthen_def)
qed

lemma good_drop:
  assumes v: "sinv s" and c: "c_proc s c = Some p" and l: "l \<in> thread_locks s p"
    and f: "\<And>k u H. locks_ok H (f (s\<lparr>lks := k, cpus := u\<rparr>)) = locks_ok H (s\<lparr>lks := k, cpus := u\<rparr>)"
      "\<And>k u. thread_locks (f (s\<lparr>lks := k, cpus := u\<rparr>)) p = thread_locks s p - {l}"
      "\<And>k u. only_thread p s (f (s\<lparr>lks := k, cpus := u\<rparr>))" "\<And>k u. advances p s (f (s\<lparr>lks := k, cpus := u\<rparr>))"
      "\<And>k u. running_ok (f (s\<lparr>lks := k, cpus := u\<rparr>)) p" "\<And>k u. owed_ok (f (s\<lparr>lks := k, cpus := u\<rparr>)) p"
  shows "good (andthen (drop_lock c l s) f)"
proof -
  from thread_drop [OF v c l] obtain k u where r: "drop_lock c l s = Some (Ok (s\<lparr>lks := k, cpus := u\<rparr>))"
    "locks_ok ((held s)(c := thread_locks s p - {l})) (s\<lparr>lks := k, cpus := u\<rparr>)" by blast
  have "sinv (f (s\<lparr>lks := k, cpus := u\<rparr>))"
    by (rule thread_step_inv [OF v c f(3,4) _ f(5,6)]) (simp only: f(1,2) r(2))
  then show ?thesis using r by (simp add: good_def andthen_def)
qed

lemma good_move:
  assumes "sinv s" "c_proc s c = Some p" "only_thread p s s'" "advances p s s'" "running_ok s' p" "owed_ok s' p"
    "thread_locks s' p = thread_locks s p" "lks s' = lks s" "cpus s' = cpus s"
  shows "good (Some (Ok s'))"
  using move_inv [OF assms] by (simp add: good_def)

section \<open>Switching\<close>

lemma sched_good:
  assumes v: "sinv s" and c: "c_proc s c = Some p" and pc: "pc_of s p = Y3 \<and> resume = Y4 \<or> pc_of s p = Sl4 ch l \<and> resume = Sl5 l"
  shows "good (sched c p resume s)"
proof -
  have r: "running_ok s p" by (rule sinvD(3) [OF v c])
  have st: "pstate s p \<noteq> RUNNING" "chold s p = {}" using r pc by (auto simp: running_ok_def)
  have h: "held s c = {PLock p}" using c pc st(2) by (auto simp: held_def thread_locks_def holds_own_def)
  have lk: "holding c (lks s (PLock p))" "noff (cpus s c) = 1" "\<not> sie (cpus s c)"
    using sinvD(1) [OF v] h by (auto simp: locks_ok_def)
  let ?s = "goto p resume (s\<lparr>c_proc := (c_proc s)(c := None), saved_intena := (saved_intena s)(p := intena (cpus s c))\<rparr>)"
  have run: "sched c p resume s = Some (Ok ?s)" using lk st by (simp add: sched_def)
  have only: "c_proc s c' \<noteq> Some p" if "c' \<noteq> c" for c' using sinvD(5) [OF v c] that by blast
  have fields: "pstate ?s = pstate s" "pchan ?s = pchan s" "chold ?s = chold s" "asleep ?s = asleep s" "calls_of ?s = calls_of s" "owed ?s = owed s"
    "pc_of ?s = (pc_of s)(p := resume)" "spc_of ?s = spc_of s" "c_proc ?s = (c_proc s)(c := None)" by (simp_all add: goto_def)
  have q: "running_ok ?s q = running_ok s q" "off_ok ?s q = off_ok s q" "thread_locks ?s q = thread_locks s q" if "q \<noteq> p" for q
    using that by (intro thread_view; simp add: fields)+
  have "held ?s c' = held s c'" for c'
  proof (cases "c' = c")
    case True
    then show ?thesis using sinvD(2) [OF v c] h by (simp add: held_def fields)
  next
    case False
    then show ?thesis using only [OF False] q(3) by (cases "c_proc s c'") (auto simp: held_def fields)
  qed
  then have hs: "held ?s = held s" by blast
  have "sinv ?s"
    unfolding sinv_def
  proof (intro conjI allI impI)
    show "locks_ok (held ?s) ?s" using sinvD(1) [OF v] unfolding hs by simp
    show "spc_of ?s c' = Back q" "running_ok ?s q" if "c_proc ?s c' = Some q" for c' q
    proof -
      have o: "c_proc s c' = Some q" "c' \<noteq> c" using that by (auto simp: fields split: if_splits)
      then have "q \<noteq> p" using only by blast
      then show "spc_of ?s c' = Back q" "running_ok ?s q" using sinvD(2,3) [OF v o(1)] q(1) by (simp_all add: fields)
    qed
    show "off_ok ?s q" if "\<not> on_cpu ?s q" for q
    proof (cases "q = p")
      case True
      then show ?thesis using pc r by (auto simp: off_ok_def goto_def running_ok_def)
    next
      case False
      then have "\<not> on_cpu s q" using that c unfolding on_cpu_def fields by (metis fun_upd_other option.inject)
      then show ?thesis using sinvD(4) [OF v] q(2) [OF False] by blast
    qed
    show "c1 = c2" if "c_proc ?s c1 = Some q" "c_proc ?s c2 = Some q" for c1 c2 q
      using that sinvD(5) [OF v] by (auto simp: fields split: if_splits)
    show "owed_ok ?s q" for q
    proof -
      have "call_pending s ch' i p' t \<Longrightarrow> call_pending ?s ch' i p' t" for ch' i p' t
        using pc r by (cases "p' = p") (auto simp: call_pending_def goto_def running_ok_def)
      then show ?thesis using sinvD(6) [OF v, of q] pc unfolding owed_ok_def fields by (cases "q = p") auto
    qed
  qed
  then show ?thesis using run by (simp add: good_def)
qed

section \<open>Threads\<close>

lemma start_good:
  assumes v: "sinv s" and c: "c_proc s c = Some p"
  shows "good (start_thread c p s)"
proof (cases "pc_of s p = Start")
  case True
  have "good (andthen (drop_lock c (PLock p) s) (goto p Body))"
    by (rule good_drop [OF v c]) (use True sinvD(3) [OF v c] in \<open>simp_all add: thread_simps\<close>)
  then show ?thesis using True by (simp add: start_thread_def)
qed (auto simp: start_thread_def good_def split: tpc.splits)

lemma yield_good:
  assumes v: "sinv s" and c: "c_proc s c = Some p"
  shows "good (yield c p s)"
proof -
  have r: "running_ok s p" by (rule sinvD(3) [OF v c])
  consider "pc_of s p = Y1" | "pc_of s p = Y2" | "pc_of s p = Y3" | "pc_of s p = Y4" | "yield c p s = None"
    by (cases "pc_of s p") (auto simp: yield_def)
  then show ?thesis
  proof cases
    case 1
    have "good (andthen (take_lock c (PLock p) s) (goto p Y2))"
      by (rule good_take [OF v c]) (use 1 r in \<open>simp_all add: thread_simps\<close>)
    then show ?thesis using 1 by (simp add: yield_def)
  next
    case 2
    have "good (Some (Ok (goto p Y3 (s\<lparr>pstate := (pstate s)(p := RUNNABLE)\<rparr>))))"
      by (rule good_move [OF v c]) (use 2 r in \<open>simp_all add: thread_simps\<close>)
    then show ?thesis using 2 by (simp add: yield_def)
  next
    case 3
    then show ?thesis using sched_good [OF v c, of Y4] by (simp add: yield_def)
  next
    case 4
    have "good (andthen (drop_lock c (PLock p) s) (goto p Body))"
      by (rule good_drop [OF v c]) (use 4 r in \<open>simp_all add: thread_simps\<close>)
    then show ?thesis using 4 by (simp add: yield_def)
  qed (simp add: good_def)
qed

lemma sleep_good:
  assumes v: "sinv s" and c: "c_proc s c = Some p"
  shows "good (sleep c p s)"
proof -
  have r: "running_ok s p" by (rule sinvD(3) [OF v c])
  show ?thesis
  proof (cases "pc_of s p")
    case (Sl1 ch l)
    have "good (andthen (take_lock c (PLock p) s) (goto p (Sl2 ch l)))"
      by (rule good_take [OF v c]) (use Sl1 r in \<open>simp_all add: thread_simps\<close>)
    then show ?thesis using Sl1 by (simp add: sleep_def)
  next
    case (Sl2 ch l)
    have "good (andthen (drop_lock c (Cond l) s) (\<lambda>s. goto p (Sl3 ch l) (s\<lparr>chold := (chold s)(p := chold s p - {l})\<rparr>)))"
      by (rule good_drop [OF v c]) (use Sl2 r in \<open>auto simp: thread_simps\<close>)
    then show ?thesis using Sl2 by (simp add: sleep_def)
  next
    case (Sl3 ch l)
    have "good (Some (Ok (goto p (Sl4 ch l) (s\<lparr>pchan := (pchan s)(p := ch), pstate := (pstate s)(p := SLEEPING)\<rparr>))))"
      by (rule good_move [OF v c]) (use Sl3 r in \<open>simp_all add: thread_simps\<close>)
    then show ?thesis using Sl3 by (simp add: sleep_def)
  next
    case (Sl4 ch l)
    then show ?thesis using sched_good [OF v c, of "Sl5 l" ch l] by (simp add: sleep_def)
  next
    case (Sl5 l)
    have "good (Some (Ok (goto p (Sl6 l) (s\<lparr>pchan := (pchan s)(p := 0)\<rparr>))))"
      by (rule good_move [OF v c]) (use Sl5 r in \<open>simp_all add: thread_simps\<close>)
    then show ?thesis using Sl5 by (simp add: sleep_def)
  next
    case (Sl6 l)
    have "good (andthen (drop_lock c (PLock p) s) (goto p (Sl7 l)))"
      by (rule good_drop [OF v c]) (use Sl6 r in \<open>simp_all add: thread_simps\<close>)
    then show ?thesis using Sl6 by (simp add: sleep_def)
  next
    case (Sl7 l)
    have "good (andthen (take_lock c (Cond l) s) (\<lambda>s. goto p Body (s\<lparr>chold := (chold s)(p := insert l (chold s p))\<rparr>)))"
      by (rule good_take [OF v c]) (use Sl7 r in \<open>simp_all add: thread_simps\<close>)
    then show ?thesis using Sl7 by (simp add: sleep_def)
  qed (auto simp: sleep_def good_def)
qed

section \<open>Wakeup\<close>

lemma locked_process:
  assumes v: "sinv s" and c: "PLock i \<in> held s c" "c_proc s c \<noteq> Some i" and on: "c_proc s c' = Some i"
  shows "\<not> holds_own (pc_of s i)"
proof
  assume "holds_own (pc_of s i)"
  then have "PLock i \<in> held s c'" using on by (simp add: held_def thread_locks_def)
  then have "c' = c" using locks_ok_unique [OF sinvD(1) [OF v] c(1)] by blast
  then show False using c(2) on by simp
qed

text \<open>The holder of a process's lock sees a sleeper only after it has given up its CPU.\<close>

lemma sleeper_off:
  assumes v: "sinv s" and c: "PLock i \<in> held s c" "c_proc s c \<noteq> Some i" and "pstate s i = SLEEPING \<or> (\<exists>ch l. asleep s i = Some (ch, l) \<and> pc_of s i \<in> {Sl3 ch l, Sl4 ch l, Sl5 l})"
  shows "\<not> on_cpu s i"
proof
  assume "on_cpu s i"
  then obtain c' where c': "c_proc s c' = Some i" by (auto simp: on_cpu_def)
  have "\<not> holds_own (pc_of s i)" by (rule locked_process [OF v c c'])
  then show False using sinvD(3) [OF v c'] assms(4) by (auto simp: running_ok_def holds_own_def split: tpc.splits)
qed

lemma wake_one_inv:
  assumes v: "sinv s" and c: "PLock i \<in> held s c" "c_proc s c \<noteq> Some i"
  shows "sinv (wake_one ch i s)"
proof (cases "pstate s i = SLEEPING \<and> pchan s i = ch")
  case True
  have off: "\<not> on_cpu s i" using sleeper_off [OF v c] True by blast
  obtain l where pc: "pc_of s i = Sl5 l" "chold s i = {}" using sinvD(4) [OF v off] True by (auto simp: off_ok_def split: tpc.splits)
  let ?s = "wake_one ch i s"
  have fields: "c_proc ?s = c_proc s" "spc_of ?s = spc_of s" "pc_of ?s = pc_of s" "chold ?s = chold s" "calls_of ?s = calls_of s" "owed ?s = owed s"
    "pchan ?s = pchan s" "pstate ?s = (pstate s)(i := RUNNABLE)" "asleep ?s = (asleep s)(i := None)" "lks ?s = lks s" "cpus ?s = cpus s"
    using True by (simp_all add: wake_one_def)
  have h: "held ?s = held s" unfolding held_def thread_locks_def fields by simp
  have q: "running_ok ?s q = running_ok s q" "off_ok ?s q = off_ok s q" if "q \<noteq> i" for q
    using that by (intro thread_view; simp add: fields)+
  have o: "on_cpu ?s q = on_cpu s q" for q by (simp add: on_cpu_def fields)
  show ?thesis
    unfolding sinv_def
  proof (intro conjI allI impI)
    show "locks_ok (held ?s) ?s" using sinvD(1) [OF v] locks_ok_cong [OF fields(10,11)] unfolding h by blast
    show "spc_of ?s c' = Back p" "running_ok ?s p" if "c_proc ?s c' = Some p" for c' p
    proof -
      have "p \<noteq> i" using that off by (auto simp: on_cpu_def fields)
      then show "spc_of ?s c' = Back p" "running_ok ?s p" using that sinvD(2,3) [OF v] q(1) by (auto simp: fields)
    qed
    show "off_ok ?s p" if "\<not> on_cpu ?s p" for p
      using that sinvD(4) [OF v] q(2) pc by (cases "p = i") (auto simp: o, auto simp: off_ok_def fields)
    show "c1 = c2" if "c_proc ?s c1 = Some p" "c_proc ?s c2 = Some p" for c1 c2 p using that sinvD(5) [OF v] by (simp add: fields)
    show "owed_ok ?s p" for p
      using sinvD(6) [OF v, of p] unfolding owed_ok_def call_pending_def fields by (metis fun_upd_apply)
  qed
next
  case False
  then have "wake_one ch i s = s" by (auto simp: wake_one_def)
  then show ?thesis using v by simp
qed

lemma owed_goto:
  assumes "asleep s p = None" "\<forall>q t. (q, t) \<in> owed s p \<longrightarrow> q < NPROC \<and> call_pending s ch j q t" "x = Wk ch j \<or> x = Wk_hold ch j"
  shows "owed_ok (goto p x (s\<lparr>lks := k, cpus := u\<rparr>)) p" "owed_ok (goto p x s) p"
proof -
  have "call_pending (goto p x (s\<lparr>lks := k, cpus := u\<rparr>)) ch j q t" "call_pending (goto p x s) ch j q t" if "call_pending s ch j q t" for q t
    using that assms(1) by (cases "q = p"; auto simp: call_pending_def goto_def)+
  then show "owed_ok (goto p x (s\<lparr>lks := k, cpus := u\<rparr>)) p" "owed_ok (goto p x s) p"
    using assms(2,3) unfolding owed_ok_def by (auto simp: goto_def)
qed

lemma wakeup_good:
  assumes v: "sinv s" and c: "c_proc s c = Some p"
  shows "good (wakeup_loop c p s)"
proof -
  have r: "running_ok s p" by (rule sinvD(3) [OF v c])
  have o: "owed_ok s p" by (rule sinvD(6) [OF v])
  show ?thesis
  proof (cases "pc_of s p")
    case (Wk ch i)
    have asl: "asleep s p = None" using r Wk by (simp add: running_ok_def)
    have ow: "\<forall>q t. (q, t) \<in> owed s p \<longrightarrow> q < NPROC \<and> call_pending s ch i q t" using o Wk by (simp add: owed_ok_def)
    consider "i < NPROC" "i \<noteq> p" | "i = p" "i < NPROC" | "\<not> i < NPROC" by blast
    then show ?thesis
    proof cases
      case 1
      have "good (andthen (take_lock c (PLock i) s) (goto p (Wk_hold ch i)))"
        by (rule good_take [OF v c]) (use Wk r 1 owed_goto(1) [OF asl ow] in \<open>auto simp: thread_moves\<close>)
      then show ?thesis using Wk 1 by (simp add: wakeup_loop_def)
    next
      case 2
      have "call_pending s ch (i + 1) q t" if "call_pending s ch i q t" for q t
        using that asl 2 unfolding call_pending_def by (cases "q = p") auto
      then have ow': "\<forall>q t. (q, t) \<in> owed s p \<longrightarrow> q < NPROC \<and> call_pending s ch (i + 1) q t" using ow by blast
      have "good (Some (Ok (goto p (Wk ch (i + 1)) s)))"
        by (rule good_move [OF v c]) (use Wk r 2 owed_goto(2) [OF asl ow'] in \<open>simp_all add: thread_moves\<close>)
      then show ?thesis using Wk 2 by (simp add: wakeup_loop_def)
    next
      case 3
      have "good (Some (Ok (goto p Body s)))"
        by (rule good_move [OF v c]) (use Wk r in \<open>simp_all add: thread_simps\<close>)
      then show ?thesis using Wk 3 by (simp add: wakeup_loop_def)
    qed
  next
    case (Wk_hold ch i)
    let ?s = "wake_one ch i s"
    have i: "i \<noteq> p" "i < NPROC" using r Wk_hold by (simp_all add: running_ok_def)
    have own: "PLock i \<in> held s c" using c Wk_hold by (simp add: held_def thread_locks_def)
    have v': "sinv ?s" by (rule wake_one_inv [OF v own]) (use c i in simp)
    have f: "c_proc ?s = c_proc s" "pc_of ?s = pc_of s" "owed ?s = owed s" "calls_of ?s = calls_of s" by (simp_all add: wake_one_def)
    have c': "c_proc ?s c = Some p" using c f by simp
    have asl': "asleep ?s p = None" using sinvD(3) [OF v' c'] Wk_hold f by (simp add: running_ok_def)
    have gone: "asleep ?s i = None" if "asleep ?s i = Some (ch, l)" "pc_of ?s i \<in> {Sl3 ch l, Sl4 ch l, Sl5 l}" for l
    proof -
      have a: "asleep s i = Some (ch, l)" using that(1) by (auto simp: wake_one_def split: if_splits)
      then have "\<not> on_cpu s i" using sleeper_off [OF v own] c i that(2) f by auto
      from sinvD(4) [OF v this] a have "pstate s i = SLEEPING" "pchan s i = ch" by (auto simp: off_ok_def split: tpc.splits)
      then show ?thesis by (simp add: wake_one_def)
    qed
    have "call_pending ?s ch (i + 1) q t" if "call_pending ?s ch i q t" for q t
      using that gone unfolding call_pending_def by (cases "q = i") auto
    then have o': "\<forall>q t. (q, t) \<in> owed ?s p \<longrightarrow> q < NPROC \<and> call_pending ?s ch (i + 1) q t"
      using sinvD(6) [OF v', of p] Wk_hold f by (auto simp: owed_ok_def)
    have "good (andthen (drop_lock c (PLock i) ?s) (goto p (Wk ch (i + 1))))"
      by (rule good_drop [OF v' c']) (use Wk_hold f sinvD(3) [OF v' c'] i owed_goto(1) [OF asl' o'] in \<open>auto simp: thread_moves\<close>)
    then show ?thesis using Wk_hold by (simp add: wakeup_loop_def)
  qed (auto simp: wakeup_loop_def good_def)
qed

section \<open>The scheduler\<close>

definition spc_locks :: "spc \<Rightarrow> lockid set" where
  "spc_locks x = (case x of Scan i \<Rightarrow> {} | Look i \<Rightarrow> {PLock i} | Back i \<Rightarrow> {PLock i})"

lemma cpu_step_inv:
  assumes v: "sinv s" and c: "c_proc s c = None" and l: "locks_ok ((held s)(c := spc_locks x)) (s\<lparr>lks := k, cpus := u\<rparr>)"
  shows "sinv (s\<lparr>lks := k, cpus := u, spc_of := (spc_of s)(c := x)\<rparr>)"
proof -
  let ?s = "s\<lparr>lks := k, cpus := u, spc_of := (spc_of s)(c := x)\<rparr>"
  have q: "running_ok ?s q = running_ok s q" "off_ok ?s q = off_ok s q" "thread_locks ?s q = thread_locks s q" for q
    by (intro thread_view; simp)+
  have "held ?s c' = ((held s)(c := spc_locks x)) c'" for c'
    using c by (cases "c' = c"; cases "c_proc s c'") (simp_all add: held_def q spc_locks_def)
  then have h: "held ?s = (held s)(c := spc_locks x)" by blast
  have o: "on_cpu ?s p = on_cpu s p" "owed_ok ?s p = owed_ok s p" for p by (simp_all add: on_cpu_def owed_ok_def call_pending_def)
  show ?thesis
    unfolding sinv_def h o q
  proof (intro conjI allI impI)
    show "locks_ok ((held s)(c := spc_locks x)) ?s" using l by simp
    show "spc_of ?s c' = Back p" if "c_proc ?s c' = Some p" for c' p using that sinvD(2) [OF v] c by auto
  qed (use sinvD [OF v] in auto)
qed

lemma sched_drop_good:
  assumes v: "sinv s" and c: "c_proc s c = None" and h: "spc_locks (spc_of s c) = {PLock i}"
  shows "good (andthen (drop_lock c (PLock i) s) (\<lambda>s. s\<lparr>spc_of := (spc_of s)(c := Scan j)\<rparr>))"
proof -
  have hc: "held s c = {PLock i}" using c h by (simp add: held_def spc_locks_def)
  obtain k u where r: "drop_lock c (PLock i) s = Some (Ok (s\<lparr>lks := k, cpus := u\<rparr>))"
    "locks_ok ((held s)(c := held s c - {PLock i})) (s\<lparr>lks := k, cpus := u\<rparr>)"
    by (rule drop_lock_ok [OF sinvD(1) [OF v], of "PLock i" c]) (simp add: hc)
  have "sinv (s\<lparr>lks := k, cpus := u, spc_of := (spc_of s)(c := Scan j)\<rparr>)"
    by (rule cpu_step_inv [OF v c]) (use r(2) in \<open>simp add: spc_locks_def hc\<close>)
  then show ?thesis using r by (simp add: good_def andthen_def)
qed

text \<open>The scheduler starts a process that is on no CPU.\<close>

lemma dispatch_inv:
  assumes v: "sinv s" and c: "c_proc s c = None" and pc: "spc_of s c = Look i" and st: "pstate s i = RUNNABLE"
    and u: "u = (cpus s)(c := (cpus s c)\<lparr>intena := b\<rparr>)"
  shows "sinv (s\<lparr>pstate := (pstate s)(i := RUNNING), c_proc := (c_proc s)(c := Some i), spc_of := (spc_of s)(c := Back i), cpus := u\<rparr>)"
proof -
  let ?s = "s\<lparr>pstate := (pstate s)(i := RUNNING), c_proc := (c_proc s)(c := Some i), spc_of := (spc_of s)(c := Back i), cpus := u\<rparr>"
  have hc: "held s c = {PLock i}" using c pc by (simp add: held_def)
  have off: "\<not> on_cpu s i"
  proof
    assume "on_cpu s i"
    then obtain c' where c': "c_proc s c' = Some i" by (auto simp: on_cpu_def)
    have "\<not> holds_own (pc_of s i)" by (rule locked_process [OF v _ _ c', of c]) (use hc c in simp_all)
    then show False using sinvD(3) [OF v c'] st by (auto simp: running_ok_def holds_own_def split: tpc.splits)
  qed
  have oi: "off_ok s i" by (rule sinvD(4) [OF v off])
  have q: "running_ok ?s q = running_ok s q" "off_ok ?s q = off_ok s q" "thread_locks ?s q = thread_locks s q" if "q \<noteq> i" for q
    using that by (intro thread_view; simp)+
  have ri: "running_ok ?s i" "thread_locks ?s i = {PLock i}"
    using oi st by (auto simp: off_ok_def running_ok_def thread_locks_def holds_own_def split: tpc.splits)
  have no: "c_proc s c' \<noteq> Some i" for c' using off by (auto simp: on_cpu_def)
  have "held ?s c' = held s c'" for c'
    using no [of c'] hc ri(2) q(3) by (cases "c' = c"; cases "c_proc s c'") (auto simp: held_def)
  then have h: "held ?s = held s" by blast
  have o: "owed_ok ?s p = owed_ok s p" for p by (simp add: owed_ok_def call_pending_def)
  show ?thesis
    unfolding sinv_def h o
  proof (intro conjI allI impI)
    show "locks_ok (held s) ?s" using sinvD(1) [OF v] unfolding locks_ok_def u by simp
    show "spc_of ?s c' = Back p" "running_ok ?s p" if p: "c_proc ?s c' = Some p" for c' p
    proof -
      show "spc_of ?s c' = Back p" using p sinvD(2) [OF v, of c'] by (auto split: if_splits)
      show "running_ok ?s p" using p ri(1) q(1) sinvD(3) [OF v, of c' p] by (cases "p = i") (auto split: if_splits)
    qed
    show "off_ok ?s p" if p: "\<not> on_cpu ?s p" for p
    proof -
      have "c_proc ?s c \<noteq> Some p" using p unfolding on_cpu_def by blast
      moreover have "c_proc s c' \<noteq> Some p" for c' using p c unfolding on_cpu_def by (cases "c' = c") (auto dest: spec [of _ c'])
      ultimately have "p \<noteq> i" "\<not> on_cpu s p" by (auto simp: on_cpu_def)
      then show ?thesis using sinvD(4) [OF v] q(2) by blast
    qed
    show "c1 = c2" if "c_proc ?s c1 = Some p" "c_proc ?s c2 = Some p" for c1 c2 p
      using that no sinvD(5) [OF v] by (auto split: if_splits)
    show "owed_ok s p" for p by (rule sinvD(6) [OF v])
  qed
qed

lemma scheduler_good:
  assumes v: "sinv s" and c: "c_proc s c = None"
  shows "good (scheduler c s)"
proof (cases "spc_of s c")
  case (Scan i)
  have hc: "held s c = {}" using c Scan by (simp add: held_def)
  show ?thesis
  proof (cases "take_lock c (PLock i) s")
    case None
    then show ?thesis using Scan by (simp add: scheduler_def good_def andthen_def)
  next
    case (Some r)
    then obtain s1 where r: "take_lock c (PLock i) s = Some (Ok s1)"
      using take_lock_no_panic [OF sinvD(1) [OF v], of "PLock i" c] hc by (cases r) auto
    from take_lock_ok [OF sinvD(1) [OF v] r] obtain k u where s1: "s1 = s\<lparr>lks := k, cpus := u\<rparr>"
      "locks_ok ((held s)(c := insert (PLock i) (held s c))) s1" by blast
    have "sinv (s\<lparr>lks := k, cpus := u, spc_of := (spc_of s)(c := Look i)\<rparr>)"
      by (rule cpu_step_inv [OF v c]) (use s1 hc in \<open>simp add: spc_locks_def\<close>)
    then show ?thesis using Scan r s1 by (simp add: scheduler_def good_def andthen_def)
  qed
next
  case (Look i)
  then show ?thesis
    using sched_drop_good [OF v c, of i "next_slot i"] dispatch_inv [OF v c Look _ refl]
    by (auto simp: scheduler_def spc_locks_def good_def)
next
  case (Back i)
  then show ?thesis using sched_drop_good [OF v c, of i "next_slot i"] by (simp add: scheduler_def spc_locks_def)
qed

section \<open>Every reachable state\<close>

lemma good_thread:
  assumes "sinv s" "c_proc s c = Some p"
  shows "good (thread c p s)"
  unfolding thread_def
  using start_good [OF assms] yield_good [OF assms] sleep_good [OF assms] wakeup_good [OF assms]
  by (auto split: option.splits)

lemma intr_inv:
  assumes v: "sinv s" and h: "held s c = {}"
  shows "sinv (s\<lparr>cpus := (cpus s)(c := (cpus s c)\<lparr>sie := b\<rparr>)\<rparr>)"
proof -
  let ?s = "s\<lparr>cpus := (cpus s)(c := (cpus s c)\<lparr>sie := b\<rparr>)\<rparr>"
  have q: "running_ok ?s q = running_ok s q" "off_ok ?s q = off_ok s q" "thread_locks ?s q = thread_locks s q" for q
    by (intro thread_view; simp)+
  have e: "held ?s = held s" by (rule ext) (simp add: held_def q cong: option.case_cong)
  have o: "on_cpu ?s p = on_cpu s p" "owed_ok ?s p = owed_ok s p" for p by (simp_all add: on_cpu_def owed_ok_def call_pending_def)
  have "locks_ok (held s) ?s" using sinvD(1) [OF v] h unfolding locks_ok_def by simp
  then show ?thesis using v unfolding sinv_def e o q by simp
qed

lemma kstep_inv:
  assumes v: "sinv s" and st: "kstep s s'"
  shows "sinv s'"
  using st
proof cases
  case (scheduler c)
  then show ?thesis using scheduler_good [OF v, of c] by (simp add: good_def)
next
  case (idle c i b)
  then have "held s c = {}" by (simp add: held_def)
  then show ?thesis using idle intr_inv [OF v] by simp
next
  case (thread c p)
  then show ?thesis using good_thread [OF v, of c p] by (simp add: good_def)
next
  case (body_take c p l s1)
  then show ?thesis using body_take_inv [OF v] by simp
next
  case (body_drop c p l s1)
  then show ?thesis using body_drop_inv [OF v] by simp
next
  case (body_intr c p b)
  then have "held s c = {}" by (simp add: held_def thread_locks_def holds_own_def)
  then show ?thesis using body_intr intr_inv [OF v] by simp
next
  case (call_sleep c p l ch)
  then show ?thesis using call_sleep_inv [OF v] by simp
next
  case (call_yield c p)
  then show ?thesis using call_yield_inv [OF v] by simp
next
  case (call_wakeup c p ch)
  then show ?thesis using call_wakeup_inv [OF v] by simp
qed

text \<open>All CPUs are in their schedulers and every process slot is free or new.\<close>

definition booted_sys :: "sys \<Rightarrow> bool" where
  "booted_sys s \<longleftrightarrow> (\<forall>l. lks s l = initlock) \<and> (\<forall>c. noff (cpus s c) = 0 \<and> c_proc s c = None \<and> spc_of s c = Scan 0) \<and>
     (\<forall>p. pc_of s p = Start \<and> (pstate s p = UNUSED \<or> pstate s p = RUNNABLE) \<and> chold s p = {} \<and> asleep s p = None)"

lemma sys_booted_inv:
  assumes "booted_sys s"
  shows "sinv s"
proof -
  have "pstate s p \<noteq> RUNNING \<and> pstate s p \<noteq> SLEEPING" for p
    using assms by (cases "pstate s p = UNUSED") (auto simp: booted_sys_def dest: spec [of _ p])
  then show ?thesis
    using assms unfolding sinv_def locks_ok_def on_cpu_def off_ok_def owed_ok_def held_def booted_sys_def
    by (auto simp: initlock_def holding_def)
qed

lemma kreach_inv:
  assumes "booted_sys s0" "kreach s0 s"
  shows "sinv s"
  using assms(2)
proof induction
  case kreach_here
  show ?case by (rule sys_booted_inv [OF assms(1)])
next
  case (kreach_step s1 s2)
  then show ?case using kstep_inv by blast
qed

section \<open>A run on one CPU\<close>

text \<open>Process 0 goes to sleep on channel 9 with condition lock 5, and process 1 wakes channel 9.\<close>

datatype move = Go nat | Lock nat nat | Sleep nat nat nat | Wake nat nat

definition move :: "move \<Rightarrow> sys \<Rightarrow> sys option" where
  "move m s =
     (case m of
        Go c \<Rightarrow> (case (case c_proc s c of None \<Rightarrow> scheduler c s | Some p \<Rightarrow> thread c p s) of Some (Ok s') \<Rightarrow> Some s' | _ \<Rightarrow> None)
      | Lock c l \<Rightarrow> (case c_proc s c of None \<Rightarrow> None | Some p \<Rightarrow>
          if pc_of s p = Body \<and> l \<notin> chold s p then
            case take_lock c (Cond l) s of Some (Ok s') \<Rightarrow> Some (s'\<lparr>chold := (chold s)(p := insert l (chold s p))\<rparr>) | _ \<Rightarrow> None
          else None)
      | Sleep c l ch \<Rightarrow> (case c_proc s c of None \<Rightarrow> None | Some p \<Rightarrow>
          if pc_of s p = Body \<and> chold s p = {l} then
            Some (goto p (Sl1 ch l) (s\<lparr>calls_of := (calls_of s)(p := calls_of s p + 1), asleep := (asleep s)(p := Some (ch, l))\<rparr>))
          else None)
      | Wake c ch \<Rightarrow> (case c_proc s c of None \<Rightarrow> None | Some p \<Rightarrow>
          if pc_of s p = Body then
            Some (goto p (Wk ch 0) (s\<lparr>owed := (owed s)(p := {(q, calls_of s q) | q l. q < NPROC \<and> asleep s q = Some (ch, l) \<and> l \<in> chold s p})\<rparr>))
          else None))"

lemma move_kstep: "move m s = Some s' \<Longrightarrow> kstep s s'"
  unfolding move_def
  using kstep.call_sleep [of s] kstep.call_wakeup [of s]
  by (cases m) (auto split: option.splits res.splits if_splits intro: kstep.scheduler kstep.thread kstep.body_take)

fun moves :: "move list \<Rightarrow> sys \<Rightarrow> sys option" where
  "moves [] s = Some s"
| "moves (m # ms) s = (case move m s of None \<Rightarrow> None | Some s' \<Rightarrow> moves ms s')"

lemma kreach_trans: "kreach b c \<Longrightarrow> kreach a b \<Longrightarrow> kreach a c"
  by (induction rule: kreach.induct) (auto intro: kreach_step)

lemma moves_kreach: "moves ms s = Some s' \<Longrightarrow> kreach s s'"
  by (induction ms arbitrary: s)
    (auto split: option.splits intro: kreach_here kreach_trans kreach_step [OF kreach_here move_kstep])

text \<open>While no other CPU holds the lock of a process, \<open>wakeup\<close> gets to the end of the table.\<close>

lemma wakeup_runs:
  assumes "c_proc s c = Some q" "pc_of s q = Wk ch i" "i \<le> NPROC" "\<forall>j. \<not> sl_locked (lks s (PLock j))"
    "noff (cpus s c) = 1" "\<not> sie (cpus s c)"
  shows "\<exists>s'. kreach s s' \<and> c_proc s' c = Some q \<and> pc_of s' q = Wk ch NPROC \<and> owed s' q = owed s q"
  using assms
proof (induction "NPROC - i" arbitrary: i s)
  case 0
  then show ?case using kreach_here by (metis diff_is_0_eq le_antisym)
next
  case (Suc n)
  have i: "i < NPROC" "n = NPROC - (i + 1)" using Suc(2) by arith+
  obtain s1 where s1: "kreach s s1" "c_proc s1 c = Some q" "pc_of s1 q = Wk ch (i + 1)" "owed s1 q = owed s q"
      "\<forall>j. \<not> sl_locked (lks s1 (PLock j))" "noff (cpus s1 c) = 1" "\<not> sie (cpus s1 c)"
  proof (cases "i = q")
    case True
    have "moves [Go c] s = Some (goto q (Wk ch (i + 1)) s)"
      using Suc.prems i True
      by (simp add: move_def thread_def start_thread_def yield_def sleep_def wakeup_loop_def)
    then show thesis using moves_kreach that Suc.prems by (fastforce simp: goto_def)
  next
    case False
    have "\<exists>s2. moves [Go c, Go c] s = Some s2 \<and> c_proc s2 c = Some q \<and> pc_of s2 q = Wk ch (i + 1) \<and> owed s2 q = owed s q \<and>
      (\<forall>j. \<not> sl_locked (lks s2 (PLock j))) \<and> noff (cpus s2 c) = 1 \<and> \<not> sie (cpus s2 c)"
      using Suc.prems i False
      by (cases "pstate s i = SLEEPING \<and> pchan s i = ch")
       (auto simp: move_def thread_def start_thread_def yield_def sleep_def wakeup_loop_def take_lock_def acquire_def acquire_begin_def
        acquire_swap_def push_off_def holding_def Let_def andthen_def goto_def drop_lock_def release_def pop_off_def wake_one_def bindR_def)
    then show thesis using moves_kreach that by blast
  qed
  have "\<exists>s'. kreach s1 s' \<and> c_proc s' c = Some q \<and> pc_of s' q = Wk ch NPROC \<and> owed s' q = owed s1 q"
    by (rule Suc(1) [OF i(2) s1(2,3) _ s1(5-7)]) (use i in simp)
  then show ?case using s1(1,4) kreach_trans by metis
qed

definition run_start :: sys where
  "run_start = \<lparr>lks = \<lambda>_. initlock, cpus = \<lambda>_. \<lparr>noff = 0, intena = False, sie = False\<rparr>, c_proc = \<lambda>_. None, spc_of = \<lambda>_. Scan 0,
     pstate = \<lambda>p. if p < 2 then RUNNABLE else UNUSED, pchan = \<lambda>_. 0, pc_of = \<lambda>_. Start, saved_intena = \<lambda>_. False,
     chold = \<lambda>_. {}, calls_of = \<lambda>_. 0, asleep = \<lambda>_. None, owed = \<lambda>_. {}\<rparr>"

lemma run_start_booted: "booted_sys run_start"
  by (simp add: booted_sys_def run_start_def)

lemma run_to_wakeup:
  "\<exists>s. kreach run_start s \<and> c_proc s 0 = Some 1 \<and> pc_of s 1 = Wk 9 0 \<and> (\<forall>j. \<not> sl_locked (lks s (PLock j))) \<and>
     noff (cpus s 0) = 1 \<and> \<not> sie (cpus s 0) \<and> (0, 1) \<in> owed s 1"
proof -
  have "\<exists>s. moves ([Go 0, Go 0, Go 0, Lock 0 5, Sleep 0 5 9] @ replicate 8 (Go 0) @ [Lock 0 5, Wake 0 9]) run_start = Some s \<and>
      c_proc s 0 = Some 1 \<and> pc_of s 1 = Wk 9 0 \<and> (\<forall>j. \<not> sl_locked (lks s (PLock j))) \<and>
      noff (cpus s 0) = 1 \<and> \<not> sie (cpus s 0) \<and> (0, 1) \<in> owed s 1"
    by (simp add: numeral_eq_Suc run_start_def initlock_def move_def scheduler_def next_slot_def sched_def thread_def start_thread_def
        yield_def sleep_def take_lock_def acquire_def acquire_begin_def acquire_swap_def push_off_def holding_def Let_def andthen_def
        goto_def drop_lock_def release_def pop_off_def bindR_def)
  then show ?thesis using moves_kreach by blast
qed



text \<open>
  (C38) \<open>sleep\<close> misses no \<open>wakeup\<close>. When \<open>wakeup(chan)\<close> starts in a thread that holds a condition lock,
  \<open>owed\<close> are the processes that have called \<open>sleep(chan, lk)\<close> with one of the locks it holds and have
  not been woken. In every reachable state in which that \<open>wakeup\<close> is about to return, none of these
  calls is asleep any more, whatever the other CPUs did in between: also a call that had released the
  condition lock but was not yet marked \<open>SLEEPING\<close> when \<open>wakeup\<close> started.
\<close>

theorem no_lost_wakeup:
  assumes "booted_sys s0" "kreach s0 s" "c_proc s c = Some q" "pc_of s q = Wk ch i" "i \<ge> NPROC" "(p, t) \<in> owed s q"
  shows "calls_of s p \<noteq> t \<or> asleep s p = None"
proof -
  have v: "sinv s" by (rule kreach_inv [OF assms(1,2)])
  have "p < NPROC" "call_pending s ch i p t" using sinvD(6) [OF v, of q] assms(4,6) unfolding owed_ok_def by blast+
  then show ?thesis using assms(5) by (auto simp: call_pending_def)
qed

theorem no_lost_wakeup_witness:
  "\<exists>s. kreach run_start s \<and> (0, 1) \<in> owed s 1 \<and> (calls_of s 0 \<noteq> 1 \<or> asleep s 0 = None)"
proof -
  obtain s where s: "kreach run_start s" "c_proc s 0 = Some 1" "pc_of s 1 = Wk 9 0" "\<forall>j. \<not> sl_locked (lks s (PLock j))"
      "noff (cpus s 0) = 1" "\<not> sie (cpus s 0)" "(0, 1) \<in> owed s 1"
    using run_to_wakeup by blast
  then obtain s' where s': "kreach s s'" "c_proc s' 0 = Some 1" "pc_of s' 1 = Wk 9 NPROC" "owed s' 1 = owed s 1"
    using wakeup_runs [OF s(2,3) _ s(4)] by auto
  have r: "kreach run_start s'" by (rule kreach_trans [OF s'(1) s(1)])
  have "(0, 1) \<in> owed s' 1" using s(7) s'(4) by simp
  then show ?thesis using no_lost_wakeup [OF run_start_booted r s'(2,3) le_refl] r by blast
qed

end
