(* ===== verification/Virtio.thy ===== *)
theory Virtio
  imports Kstate
begin

text \<open>
  kernel/virtio_disk.c and kernel/virtio.h: the driver of the disk. Buffers are indices, an address
  that the driver hands to the device names the object it points to. The device is not part of the
  kernel: it is a relation \<open>dev\<close> on states. A call of \<open>virtio_disk_rw\<close> holds \<open>vdisk_lock\<close> except
  while it sleeps, so it is two steps, up to the wait for the interrupt and after it; \<open>calls\<close> are the
  waiting calls.
\<close>

unbundle bit_operations_syntax

section \<open>Queues and driver state\<close>

definition NUM :: nat where "NUM = 8"
definition VRING_DESC_F_NEXT :: nat where "VRING_DESC_F_NEXT = 1"
definition VRING_DESC_F_WRITE :: nat where "VRING_DESC_F_WRITE = 2"
definition VIRTIO_BLK_T_IN :: nat where "VIRTIO_BLK_T_IN = 0"
definition VIRTIO_BLK_T_OUT :: nat where "VIRTIO_BLK_T_OUT = 1"

datatype dma = Dma_null | Dma_op nat | Dma_data nat | Dma_status nat

record virtq_desc =
  d_addr :: dma
  d_len :: nat
  d_flags :: nat
  d_next :: nat

record virtio_blk_req =
  r_type :: nat
  r_sector :: nat

text \<open>
  The rings are shared with the device. The last fields are outside the driver: the buffers (their
  block number, their contents and the flag \<open>disk\<close>), the disk, byte by byte, what the device has taken
  from the ring, and the waiting calls with the bytes the transfer is about.
\<close>

record vdisk =
  desc :: "nat \<Rightarrow> virtq_desc"
  avail_ring :: "nat \<Rightarrow> nat"
  avail_idx :: "16 word"
  usd_ring :: "nat \<Rightarrow> nat"
  usd_idx :: "16 word"
  dfree :: "nat \<Rightarrow> bool"
  used_idx :: "16 word"
  info_b :: "nat \<Rightarrow> nat option"
  info_status :: "nat \<Rightarrow> nat"
  ops :: "nat \<Rightarrow> virtio_blk_req"
  b_disk :: "nat \<Rightarrow> bool"
  b_blockno :: "nat \<Rightarrow> nat"
  b_data :: "nat \<Rightarrow> mem"
  platter :: mem
  dev_idx :: "16 word"
  dev_busy :: "nat list"
  calls :: "nat \<Rightarrow> (nat \<times> bool \<times> u8 list) option"

section \<open>Descriptors\<close>

definition alloc_desc :: "vdisk \<Rightarrow> nat option \<times> vdisk" where
  "alloc_desc d =
     (case find (dfree d) [0..<NUM] of
        None \<Rightarrow> (None, d)
      | Some i \<Rightarrow> (Some i, d\<lparr>dfree := (dfree d)(i := False)\<rparr>))"

definition free_desc :: "nat \<Rightarrow> vdisk \<Rightarrow> vdisk res" where
  "free_desc i d =
     (if i \<ge> NUM then Panic ''free_desc 1''
      else if dfree d i then Panic ''free_desc 2''
      else Ok (d\<lparr>desc := (desc d)(i := \<lparr>d_addr = Dma_null, d_len = 0, d_flags = 0, d_next = 0\<rparr>), dfree := (dfree d)(i := True)\<rparr>))"

lemma free_desc_decreases:
  assumes "free_desc i d = Ok d'"
  shows "card {j. j < NUM \<and> \<not> dfree d' j} < card {j. j < NUM \<and> \<not> dfree d j}"
proof (rule psubset_card_mono)
  show "finite {j. j < NUM \<and> \<not> dfree d j}" by simp
  have "i < NUM" "\<not> dfree d i" "d' = d\<lparr>desc := (desc d)(i := \<lparr>d_addr = Dma_null, d_len = 0, d_flags = 0, d_next = 0\<rparr>), dfree := (dfree d)(i := True)\<rparr>"
    using assms by (auto simp: free_desc_def split: if_splits)
  then have "{j. j < NUM \<and> \<not> dfree d' j} = {j. j < NUM \<and> \<not> dfree d j} - {i}" "i \<in> {j. j < NUM \<and> \<not> dfree d j}" by auto
  then show "{j. j < NUM \<and> \<not> dfree d' j} \<subset> {j. j < NUM \<and> \<not> dfree d j}" by blast
qed

function free_chain :: "nat \<Rightarrow> vdisk \<Rightarrow> vdisk res" where
  "free_chain i d =
     (let flag = d_flags (desc d i); nxt = d_next (desc d i) in
      case free_desc i d of
        Panic e \<Rightarrow> Panic e
      | Ok d1 \<Rightarrow> if flag AND VRING_DESC_F_NEXT \<noteq> 0 then free_chain nxt d1 else Ok d1)"
  by pat_completeness auto
termination
  by (relation "measure (\<lambda>(i, d). card {j. j < NUM \<and> \<not> dfree d j})") (auto dest: free_desc_decreases)

declare free_chain.simps [simp del]

text \<open>The loop of \<open>alloc3_desc\<close>: \<open>got\<close> are the descriptors allocated so far.\<close>

primrec free_all :: "nat list \<Rightarrow> vdisk \<Rightarrow> vdisk res" where
  "free_all [] d = Ok d"
| "free_all (i # is) d = bindR (free_desc i d) (free_all is)"

primrec alloc_loop :: "nat \<Rightarrow> nat list \<Rightarrow> vdisk \<Rightarrow> (nat list option \<times> vdisk) res" where
  "alloc_loop 0 got d = Ok (Some got, d)"
| "alloc_loop (Suc n) got d =
     (case alloc_desc d of
        (None, d1) \<Rightarrow> bindR (free_all got d1) (\<lambda>d2. Ok (None, d2))
      | (Some i, d1) \<Rightarrow> alloc_loop n (got @ [i]) d1)"

definition alloc3_desc :: "vdisk \<Rightarrow> (nat list option \<times> vdisk) res" where
  "alloc3_desc d = alloc_loop 3 [] d"

section \<open>Requests\<close>

text \<open>Filling in the descriptors and telling the device.\<close>

definition format_request :: "nat \<Rightarrow> bool \<Rightarrow> nat \<Rightarrow> nat \<Rightarrow> nat \<Rightarrow> vdisk \<Rightarrow> vdisk" where
  "format_request b wr i0 i1 i2 d =
     d\<lparr>ops := (ops d)(i0 := \<lparr>r_type = (if wr then VIRTIO_BLK_T_OUT else VIRTIO_BLK_T_IN), r_sector = b_blockno d b * (BSIZE div 512) mod 2 ^ 32\<rparr>),
       desc := (desc d)
         (i0 := \<lparr>d_addr = Dma_op i0, d_len = 16, d_flags = VRING_DESC_F_NEXT, d_next = i1\<rparr>,
          i1 := \<lparr>d_addr = Dma_data b, d_len = BSIZE, d_flags = (if wr then 0 else VRING_DESC_F_WRITE) OR VRING_DESC_F_NEXT, d_next = i2\<rparr>,
          i2 := \<lparr>d_addr = Dma_status i0, d_len = 1, d_flags = VRING_DESC_F_WRITE, d_next = 0\<rparr>),
       info_status := (info_status d)(i0 := 0xff),
       b_disk := (b_disk d)(b := True),
       info_b := (info_b d)(i0 := Some b),
       avail_ring := (avail_ring d)(unat (avail_idx d) mod NUM := i0),
       avail_idx := avail_idx d + 1\<rparr>"

text \<open>
  \<open>virtio_disk_rw\<close> up to its wait for the interrupt: the head of the chain, or nothing when there are
  not enough descriptors and the call sleeps to try again.
\<close>

definition disk_start :: "nat \<Rightarrow> bool \<Rightarrow> vdisk \<Rightarrow> (nat option \<times> vdisk) res" where
  "disk_start b wr d =
     bindR (alloc3_desc d) (\<lambda>(r, d1).
       case r of
         None \<Rightarrow> Ok (None, d1)
       | Some idx \<Rightarrow> Ok (Some (idx ! 0), format_request b wr (idx ! 0) (idx ! 1) (idx ! 2) d1))"

definition disk_finish :: "nat \<Rightarrow> vdisk \<Rightarrow> vdisk res" where
  "disk_finish i d = free_chain i (d\<lparr>info_b := (info_b d)(i := None)\<rparr>)"

lemma word16_step: "(i :: 16 word) \<noteq> j \<Longrightarrow> unat (j - i) = Suc (unat (j - (i + 1)))"
proof -
  assume "i \<noteq> j"
  then have "unat (j - i) > 0" by (simp add: unat_gt_0)
  then have "unat (j - i - 1) = unat (j - i) - 1" by (subst unat_minus_one) auto
  then show ?thesis using \<open>unat (j - i) > 0\<close> by (simp add: diff_diff_eq)
qed

function virtio_disk_intr :: "vdisk \<Rightarrow> vdisk res" where
  "virtio_disk_intr d =
     (if used_idx d \<noteq> usd_idx d then
        let i = usd_ring d (unat (used_idx d) mod NUM) in
        if info_status d i \<noteq> 0 then Panic ''virtio_disk_intr status''
        else case info_b d i of
          None \<Rightarrow> Panic ''kerneltrap''
        | Some b \<Rightarrow> virtio_disk_intr (d\<lparr>b_disk := (b_disk d)(b := False), used_idx := used_idx d + 1\<rparr>)
      else Ok d)"
  by pat_completeness auto

termination
  by (relation "measure (\<lambda>d. unat (usd_idx d - used_idx d))") (auto simp: word16_step)

declare virtio_disk_intr.simps [simp del]

section \<open>Initialisation\<close>

definition VIRTIO_MMIO_MAGIC_VALUE :: nat where "VIRTIO_MMIO_MAGIC_VALUE = 0x000"
definition VIRTIO_MMIO_VERSION :: nat where "VIRTIO_MMIO_VERSION = 0x004"
definition VIRTIO_MMIO_DEVICE_ID :: nat where "VIRTIO_MMIO_DEVICE_ID = 0x008"
definition VIRTIO_MMIO_VENDOR_ID :: nat where "VIRTIO_MMIO_VENDOR_ID = 0x00c"
definition VIRTIO_MMIO_DEVICE_FEATURES :: nat where "VIRTIO_MMIO_DEVICE_FEATURES = 0x010"
definition VIRTIO_MMIO_DRIVER_FEATURES :: nat where "VIRTIO_MMIO_DRIVER_FEATURES = 0x020"
definition VIRTIO_MMIO_QUEUE_SEL :: nat where "VIRTIO_MMIO_QUEUE_SEL = 0x030"
definition VIRTIO_MMIO_QUEUE_NUM_MAX :: nat where "VIRTIO_MMIO_QUEUE_NUM_MAX = 0x034"
definition VIRTIO_MMIO_QUEUE_NUM :: nat where "VIRTIO_MMIO_QUEUE_NUM = 0x038"
definition VIRTIO_MMIO_QUEUE_READY :: nat where "VIRTIO_MMIO_QUEUE_READY = 0x044"
definition VIRTIO_MMIO_STATUS :: nat where "VIRTIO_MMIO_STATUS = 0x070"
definition VIRTIO_MMIO_QUEUE_DESC_LOW :: nat where "VIRTIO_MMIO_QUEUE_DESC_LOW = 0x080"
definition VIRTIO_MMIO_DRIVER_DESC_LOW :: nat where "VIRTIO_MMIO_DRIVER_DESC_LOW = 0x090"
definition VIRTIO_MMIO_DEVICE_DESC_LOW :: nat where "VIRTIO_MMIO_DEVICE_DESC_LOW = 0x0a0"

definition accepted_features :: "u32 \<Rightarrow> u32" where
  "accepted_features f = fold (\<lambda>k w. w AND NOT (push_bit k 1)) [5, 7, 11, 12, 27, 29, 28] f"

text \<open>
  \<open>rd\<close> gives the values of the registers that are read, \<open>rd_status\<close> the value of the status register
  after the features have been accepted. The result has the register writes in order.
\<close>

definition queue_pages :: "kmem \<Rightarrow> (nat \<times> nat \<times> nat \<times> kmem) res" where
  "queue_pages k =
     bindR (kalloc k) (\<lambda>(p1, k1). bindR (kalloc k1) (\<lambda>(p2, k2). bindR (kalloc k2) (\<lambda>(p3, k3).
       if p1 = 0 \<or> p2 = 0 \<or> p3 = 0 then Panic ''virtio disk kalloc''
       else Ok (p1, p2, p3, zero_page p3 (zero_page p2 (zero_page p1 k3))))))"

definition queue_addrs :: "nat \<Rightarrow> nat \<Rightarrow> (nat \<times> nat) list" where
  "queue_addrs r p = [(r, p mod 2 ^ 32), (r + 4, p div 2 ^ 32)]"

definition virtio_disk_init :: "(nat \<Rightarrow> nat) \<Rightarrow> nat \<Rightarrow> kmem \<Rightarrow> vdisk \<Rightarrow> ((nat \<times> nat) list \<times> vdisk \<times> kmem) res" where
  "virtio_disk_init rd rd_status k d =
     (if rd VIRTIO_MMIO_MAGIC_VALUE \<noteq> 0x74726976 \<or> rd VIRTIO_MMIO_VERSION \<noteq> 2 \<or> rd VIRTIO_MMIO_DEVICE_ID \<noteq> 2 \<or> rd VIRTIO_MMIO_VENDOR_ID \<noteq> 0x554d4551 then
        Panic ''could not find virtio disk''
      else if (of_nat rd_status :: u32) AND 8 = 0 then Panic ''virtio disk FEATURES_OK unset''
      else if rd VIRTIO_MMIO_QUEUE_READY \<noteq> 0 then Panic ''virtio disk should not be ready''
      else if rd VIRTIO_MMIO_QUEUE_NUM_MAX = 0 then Panic ''virtio disk has no queue 0''
      else if rd VIRTIO_MMIO_QUEUE_NUM_MAX < NUM then Panic ''virtio disk max queue too short''
      else bindR (queue_pages k) (\<lambda>(p1, p2, p3, k1).
        Ok ([(VIRTIO_MMIO_STATUS, 0), (VIRTIO_MMIO_STATUS, 1), (VIRTIO_MMIO_STATUS, 3),
             (VIRTIO_MMIO_DRIVER_FEATURES, unat (accepted_features (of_nat (rd VIRTIO_MMIO_DEVICE_FEATURES)))),
             (VIRTIO_MMIO_STATUS, 11), (VIRTIO_MMIO_QUEUE_SEL, 0), (VIRTIO_MMIO_QUEUE_NUM, NUM)] @
            queue_addrs VIRTIO_MMIO_QUEUE_DESC_LOW p1 @ queue_addrs VIRTIO_MMIO_DRIVER_DESC_LOW p2 @ queue_addrs VIRTIO_MMIO_DEVICE_DESC_LOW p3 @
            [(VIRTIO_MMIO_QUEUE_READY, 1), (VIRTIO_MMIO_STATUS, unat ((of_nat rd_status :: u32) OR 4))],
            d\<lparr>desc := (\<lambda>_. \<lparr>d_addr = Dma_null, d_len = 0, d_flags = 0, d_next = 0\<rparr>), avail_ring := (\<lambda>_. 0), avail_idx := 0,
              usd_ring := (\<lambda>_. 0), usd_idx := 0, dfree := (\<lambda>i. if i < NUM then True else dfree d i)\<rparr>,
            k1)))"

section \<open>Ring buffers\<close>

definition vring_list :: "(nat \<Rightarrow> 'a) \<Rightarrow> 16 word \<Rightarrow> 16 word \<Rightarrow> 'a list" where
  "vring_list r i j = map (\<lambda>n. r ((unat i + n) mod NUM)) [0..<unat (j - i)]"

lemma vring_list_length [simp]: "length (vring_list r i j) = unat (j - i)"
  by (simp add: vring_list_def)

lemma unat16_Suc_mod: "(unat (i + 1 :: 16 word)) mod NUM = (unat i + 1) mod NUM"
proof -
  have "unat (i + 1) = (unat i + 1) mod 2 ^ 16" by (simp add: unat_word_ariths)
  moreover have "(x mod 2 ^ 16) mod 8 = x mod (8 :: nat)" for x by (rule mod_mod_cancel) simp
  ultimately show ?thesis by (simp add: NUM_def)
qed

lemma vring_list_empty: "vring_list r i i = []"
  by (simp add: vring_list_def)

lemma vring_list_pop:
  assumes "i \<noteq> j"
  shows "vring_list r i j = r (unat i mod NUM) # vring_list r (i + 1) j"
proof -
  have "(unat (i + 1) + n) mod NUM = (unat i + Suc n) mod NUM" for n
    using unat16_Suc_mod [of i] by (metis add_Suc_right add_Suc_shift mod_add_left_eq Suc_eq_plus1)
  then show ?thesis
    unfolding vring_list_def word16_step [OF assms] by (simp add: map_upt_Suc del: upt_Suc)
qed

lemma unat16_grow:
  assumes "unat (j - i :: 16 word) < NUM"
  shows "unat (j + 1 - i) = Suc (unat (j - i))"
proof -
  have "unat (w + 1) = unat w + 1" if "unat w < 8" for w :: "16 word" using that by (simp add: unat_word_ariths(1))
  from this [of "j - i"] show ?thesis using assms by (simp add: NUM_def algebra_simps)
qed

lemma vring_list_push:
  assumes "unat (j - i :: 16 word) < NUM"
  shows "vring_list (r(unat j mod NUM := x)) i (j + 1) = vring_list r i j @ [x]"
proof -
  let ?n = "unat (j - i)"
  have j: "unat j mod NUM = (unat i + ?n) mod NUM"
  proof -
    have "unat (i + (j - i)) = (unat i + ?n) mod 2 ^ 16" by (simp only: unat_word_ariths) simp
    moreover have "((unat i + ?n) mod 2 ^ 16) mod 8 = (unat i + ?n) mod 8" by (rule mod_mod_cancel) simp
    ultimately show ?thesis by (simp add: NUM_def)
  qed
  have "(unat i + m) mod NUM \<noteq> (unat i + ?n) mod NUM" if "m < ?n" for m
  proof
    assume "(unat i + m) mod NUM = (unat i + ?n) mod NUM"
    then have "NUM dvd (unat i + ?n) - (unat i + m)" using that by (intro mod_eq_dvd_iff_nat [THEN iffD1]) auto
    then show False using that assms by (auto dest: dvd_imp_le)
  qed
  then have "map (\<lambda>n. (r(unat j mod NUM := x)) ((unat i + n) mod NUM)) [0..<?n] = map (\<lambda>n. r ((unat i + n) mod NUM)) [0..<?n]"
    using j by simp
  then show ?thesis using j by (simp add: vring_list_def unat16_grow [OF assms])
qed

end
