(* ===== verification/Virtio_Correct.thy ===== *)
theory Virtio_Correct
  imports Virtio
begin

text \<open>
  The disk driver with any number of calls in progress, interrupts at any time and a device that
  works on the requests it has been given in any order. Every call ends with the block transferred,
  and the driver never panics.
\<close>

unbundle bit_operations_syntax

section \<open>The device\<close>

text \<open>
  What the virtio specification says of a block device and a request of three descriptors: the
  header, the data, and the status byte.
\<close>

definition request_ok :: "vdisk \<Rightarrow> nat \<Rightarrow> bool" where
  "request_ok d h \<longleftrightarrow>
     (\<exists>n b m. d_addr (desc d h) = Dma_op n \<and> d_flags (desc d h) = VRING_DESC_F_NEXT \<and>
        (let i1 = d_next (desc d h); i2 = d_next (desc d i1) in
         d_addr (desc d i1) = Dma_data b \<and> d_len (desc d i1) = BSIZE \<and>
         d_flags (desc d i1) = (if r_type (ops d n) = VIRTIO_BLK_T_OUT then 0 else VRING_DESC_F_WRITE) OR VRING_DESC_F_NEXT \<and>
         d_addr (desc d i2) = Dma_status m \<and> d_flags (desc d i2) = VRING_DESC_F_WRITE))"

definition transfer :: "virtio_blk_req \<Rightarrow> nat \<Rightarrow> nat \<Rightarrow> vdisk \<Rightarrow> vdisk" where
  "transfer r b len d =
     (if r_type r = VIRTIO_BLK_T_OUT then d\<lparr>platter := put_bytes (512 * r_sector r) (bytes_at (b_data d b) 0 len) (platter d)\<rparr>
      else d\<lparr>b_data := (b_data d)(b := put_bytes 0 (bytes_at (platter d) (512 * r_sector r) len) (b_data d b))\<rparr>)"

definition complete :: "nat \<Rightarrow> vdisk \<Rightarrow> vdisk" where
  "complete h d =
     (let i1 = d_next (desc d h); i2 = d_next (desc d i1) in
      case (d_addr (desc d h), d_addr (desc d i1), d_addr (desc d i2)) of
        (Dma_op n, Dma_data b, Dma_status m) \<Rightarrow>
          (transfer (ops d n) b (d_len (desc d i1)) d)\<lparr>info_status := (info_status d)(m := 0),
             usd_ring := (usd_ring d)(unat (usd_idx d) mod NUM := h), usd_idx := usd_idx d + 1, dev_busy := remove1 h (dev_busy d)\<rparr>
      | _ \<Rightarrow> d)"

definition fetch :: "vdisk \<Rightarrow> vdisk" where
  "fetch d = d\<lparr>dev_busy := dev_busy d @ [avail_ring d (unat (dev_idx d) mod NUM)], dev_idx := dev_idx d + 1\<rparr>"

text \<open>The device takes a request from the ring or completes one, as long as its requests are well formed.\<close>

definition follows_virtio :: "(vdisk \<Rightarrow> vdisk \<Rightarrow> bool) \<Rightarrow> bool" where
  "follows_virtio dev \<longleftrightarrow>
     (\<forall>d d'. dev d d' \<longrightarrow> (\<forall>h \<in> set (dev_busy d). request_ok d h) \<longrightarrow>
        dev_idx d \<noteq> avail_idx d \<and> d' = fetch d \<or> (\<exists>h \<in> set (dev_busy d). d' = complete h d))"

section \<open>Steps\<close>

abbreviation block_bytes :: "vdisk \<Rightarrow> nat \<Rightarrow> u8 list" where
  "block_bytes d b \<equiv> bytes_at (platter d) (BSIZE * b_blockno d b) BSIZE"

abbreviation buffer_bytes :: "vdisk \<Rightarrow> nat \<Rightarrow> u8 list" where
  "buffer_bytes d b \<equiv> bytes_at (b_data d b) 0 BSIZE"

text \<open>
  A process starts a transfer of a buffer that it has locked; the buffer cache has one buffer for a
  block. A buffer that no call is about may change.
\<close>

inductive vstep :: "(vdisk \<Rightarrow> vdisk \<Rightarrow> bool) \<Rightarrow> vdisk \<Rightarrow> vdisk \<Rightarrow> bool" for dev where
  start: "calls d b = None \<Longrightarrow> b_blockno d b < 2 ^ 31 \<Longrightarrow> (\<forall>b'. calls d b' \<noteq> None \<longrightarrow> b_blockno d b' \<noteq> b_blockno d b) \<Longrightarrow>
    disk_start b wr d = Ok (Some i, d') \<Longrightarrow>
    vstep dev d (d'\<lparr>calls := (calls d')(b := Some (i, wr, if wr then buffer_bytes d b else block_bytes d b))\<rparr>)"
| retry: "disk_start b wr d = Ok (None, d') \<Longrightarrow> vstep dev d d'"
| intr: "virtio_disk_intr d = Ok d' \<Longrightarrow> vstep dev d d'"
| finish: "calls d b = Some (i, wr, bs) \<Longrightarrow> \<not> b_disk d b \<Longrightarrow> disk_finish i d = Ok d' \<Longrightarrow> vstep dev d (d'\<lparr>calls := (calls d')(b := None)\<rparr>)"
| device: "dev d d' \<Longrightarrow> vstep dev d d'"
| others: "(\<forall>b. calls d b \<noteq> None \<longrightarrow> f b = b_data d b \<and> g b = b_blockno d b) \<Longrightarrow> vstep dev d (d\<lparr>b_data := f, b_blockno := g\<rparr>)"

inductive reachable :: "(vdisk \<Rightarrow> vdisk \<Rightarrow> bool) \<Rightarrow> vdisk \<Rightarrow> vdisk \<Rightarrow> bool" for dev d0 where
  here: "reachable dev d0 d0"
| there: "reachable dev d0 d1 \<Longrightarrow> vstep dev d1 d2 \<Longrightarrow> reachable dev d0 d2"

section \<open>The invariant\<close>

text \<open>The requests the device has not completed, and those the driver has not seen.\<close>

definition submitted :: "vdisk \<Rightarrow> nat list" where
  "submitted d = dev_busy d @ vring_list (avail_ring d) (dev_idx d) (avail_idx d)"

definition completed :: "vdisk \<Rightarrow> nat list" where
  "completed d = vring_list (usd_ring d) (used_idx d) (usd_idx d)"

definition chain :: "vdisk \<Rightarrow> nat \<Rightarrow> nat list" where
  "chain d i = [i, d_next (desc d i), d_next (desc d (d_next (desc d i)))]"

definition call_ok :: "vdisk \<Rightarrow> nat \<Rightarrow> nat \<Rightarrow> bool \<Rightarrow> u8 list \<Rightarrow> bool" where
  "call_ok d b i wr bs \<longleftrightarrow>
     (let i1 = d_next (desc d i); i2 = d_next (desc d i1) in
      distinct [i, i1, i2] \<and> i < NUM \<and> i1 < NUM \<and> i2 < NUM \<and> \<not> dfree d i \<and> \<not> dfree d i1 \<and> \<not> dfree d i2 \<and>
      d_addr (desc d i) = Dma_op i \<and> d_flags (desc d i) = VRING_DESC_F_NEXT \<and>
      d_addr (desc d i1) = Dma_data b \<and> d_len (desc d i1) = BSIZE \<and>
      d_flags (desc d i1) = (if wr then 0 else VRING_DESC_F_WRITE) OR VRING_DESC_F_NEXT \<and>
      d_addr (desc d i2) = Dma_status i \<and> d_flags (desc d i2) = VRING_DESC_F_WRITE) \<and>
     ops d i = \<lparr>r_type = (if wr then VIRTIO_BLK_T_OUT else VIRTIO_BLK_T_IN), r_sector = 2 * b_blockno d b\<rparr> \<and>
     info_b d i = Some b \<and> b_blockno d b < 2 ^ 31 \<and> length bs = BSIZE \<and>
     (if i \<in> set (submitted d) then bs = (if wr then buffer_bytes d b else block_bytes d b)
      else bs = buffer_bytes d b \<and> bs = block_bytes d b \<and> info_status d i = 0)"

definition pending :: "vdisk \<Rightarrow> nat set" where
  "pending d = {i. \<exists>b wr bs. calls d b = Some (i, wr, bs) \<and> b_disk d b}"

definition vinv :: "vdisk \<Rightarrow> bool" where
  "vinv d \<longleftrightarrow>
     (\<forall>b i wr bs. calls d b = Some (i, wr, bs) \<longrightarrow> call_ok d b i wr bs) \<and>
     (\<forall>b b' i i' wr wr' bs bs'. calls d b = Some (i, wr, bs) \<longrightarrow> calls d b' = Some (i', wr', bs') \<longrightarrow> b \<noteq> b' \<longrightarrow>
        set (chain d i) \<inter> set (chain d i') = {} \<and> b_blockno d b \<noteq> b_blockno d b') \<and>
     (\<forall>j<NUM. \<not> dfree d j \<longrightarrow> (\<exists>b i wr bs. calls d b = Some (i, wr, bs) \<and> j \<in> set (chain d i))) \<and>
     distinct (submitted d @ completed d) \<and> set (submitted d @ completed d) = pending d"

lemma vinvD:
  assumes "vinv d"
  shows "calls d b = Some (i, wr, bs) \<Longrightarrow> call_ok d b i wr bs"
    and "calls d b = Some (i, wr, bs) \<Longrightarrow> calls d b' = Some (i', wr', bs') \<Longrightarrow> b \<noteq> b' \<Longrightarrow>
      set (chain d i) \<inter> set (chain d i') = {} \<and> b_blockno d b \<noteq> b_blockno d b'"
    and "j < NUM \<Longrightarrow> \<not> dfree d j \<Longrightarrow> \<exists>b i wr bs. calls d b = Some (i, wr, bs) \<and> j \<in> set (chain d i)"
    and "distinct (submitted d)" "distinct (completed d)" "set (submitted d) \<inter> set (completed d) = {}"
    and "set (submitted d) \<union> set (completed d) = pending d"
  using assms unfolding vinv_def by (blast | simp)+

lemma vinvI:
  assumes "\<And>b i wr bs. calls d b = Some (i, wr, bs) \<Longrightarrow> call_ok d b i wr bs"
    and "\<And>b b' i i' wr wr' bs bs'. calls d b = Some (i, wr, bs) \<Longrightarrow> calls d b' = Some (i', wr', bs') \<Longrightarrow> b \<noteq> b' \<Longrightarrow>
      set (chain d i) \<inter> set (chain d i') = {} \<and> b_blockno d b \<noteq> b_blockno d b'"
    and "\<And>j. j < NUM \<Longrightarrow> \<not> dfree d j \<Longrightarrow> \<exists>b i wr bs. calls d b = Some (i, wr, bs) \<and> j \<in> set (chain d i)"
    and "distinct (submitted d @ completed d)" "set (submitted d @ completed d) = pending d"
  shows "vinv d"
  using assms unfolding vinv_def by blast

lemma chain_head [simp]: "i \<in> set (chain d i)"
  by (simp add: chain_def)

lemma same_head:
  assumes "vinv d" "calls d b = Some (i, wr, bs)" "calls d b' = Some (i, wr', bs')"
  shows "b' = b"
  using vinvD(2) [OF assms] chain_head [of i d] by (cases "b = b'") auto

lemma pending_call:
  assumes "vinv d" "i \<in> pending d"
  obtains b wr bs where "calls d b = Some (i, wr, bs)" "b_disk d b" "call_ok d b i wr bs" "i < NUM" "\<not> dfree d i"
proof -
  obtain b wr bs where c: "calls d b = Some (i, wr, bs)" "b_disk d b" using assms(2) by (auto simp: pending_def)
  then have "call_ok d b i wr bs" using vinvD(1) [OF assms(1)] by blast
  moreover from this have "i < NUM" "\<not> dfree d i" by (simp_all add: call_ok_def Let_def)
  ultimately show thesis using that c by blast
qed

lemma pending_bound:
  assumes "vinv d"
  shows "length (submitted d) + length (completed d) \<le> NUM"
    and "\<And>j. j < NUM \<Longrightarrow> j \<notin> pending d \<Longrightarrow> length (submitted d) + length (completed d) < NUM"
proof -
  have d: "distinct (submitted d @ completed d)" and p: "set (submitted d @ completed d) = pending d" using assms by (simp_all add: vinv_def)
  have sub: "pending d \<subseteq> {..<NUM}" using pending_call [OF assms] by blast
  have len: "length (submitted d) + length (completed d) = card (pending d)" using distinct_card [OF d] p by simp
  show "length (submitted d) + length (completed d) \<le> NUM" using card_mono [OF finite_lessThan sub] len by simp
  show "length (submitted d) + length (completed d) < NUM" if "j < NUM" "j \<notin> pending d" for j
    using psubset_card_mono [OF finite_lessThan, of "pending d" NUM] sub that len by auto
qed

lemma call_done:
  assumes "call_ok d b i wr bs" "i \<notin> set (submitted d)"
  shows "bs = buffer_bytes d b \<and> bs = block_bytes d b \<and> info_status d i = 0"
proof -
  have "if i \<in> set (submitted d) then bs = (if wr then buffer_bytes d b else block_bytes d b)
      else bs = buffer_bytes d b \<and> bs = block_bytes d b \<and> info_status d i = 0"
    using assms(1) unfolding call_ok_def by (elim conjE)
  then show ?thesis unfolding if_not_P [OF assms(2)] .
qed

text \<open>A call is as good in another state that agrees on what it is about.\<close>

lemma call_ok_cong:
  assumes "call_ok d b i wr bs"
    and "\<And>j. j \<in> set (chain d i) \<Longrightarrow> desc d' j = desc d j \<and> (dfree d' j = dfree d j)"
    and "ops d' i = ops d i" "info_b d' i = info_b d i" "info_status d' i = info_status d i"
    and "b_blockno d' b = b_blockno d b" "buffer_bytes d' b = buffer_bytes d b"
      "bytes_at (platter d') (BSIZE * b_blockno d b) BSIZE = block_bytes d b"
    and "i \<in> set (submitted d') \<longleftrightarrow> i \<in> set (submitted d)"
  shows "call_ok d' b i wr bs" "chain d' i = chain d i"
proof -
  have e: "desc d' i = desc d i" "desc d' (d_next (desc d i)) = desc d (d_next (desc d i))"
    "desc d' (d_next (desc d (d_next (desc d i)))) = desc d (d_next (desc d (d_next (desc d i))))"
    and f: "dfree d' i = dfree d i" "dfree d' (d_next (desc d i)) = dfree d (d_next (desc d i))"
    "dfree d' (d_next (desc d (d_next (desc d i)))) = dfree d (d_next (desc d (d_next (desc d i))))"
    using assms(2) by (simp_all add: chain_def)
  show "call_ok d' b i wr bs"
    using assms(1) unfolding call_ok_def Let_def e f assms(3-9) .
  show "chain d' i = chain d i" by (simp add: chain_def e)
qed

section \<open>The device keeps the invariant\<close>

lemma fetch_vinv:
  assumes "vinv d" "dev_idx d \<noteq> avail_idx d"
  shows "vinv (fetch d)"
proof -
  have s: "submitted (fetch d) = submitted d"
    using vring_list_pop [OF assms(2), of "avail_ring d"] by (simp add: submitted_def fetch_def)
  have c: "completed (fetch d) = completed d" "pending (fetch d) = pending d" "chain (fetch d) = chain d"
    by (simp_all add: completed_def pending_def chain_def fetch_def fun_eq_iff)
  have "call_ok (fetch d) b i wr bs = call_ok d b i wr bs" for b i wr bs
    unfolding call_ok_def s by (simp add: fetch_def)
  then show ?thesis using assms(1) unfolding vinv_def s c by (simp add: fetch_def)
qed

text \<open>Blocks with different numbers do not overlap on the disk.\<close>

lemma put_block_other:
  assumes "length bs = BSIZE" "n \<noteq> m"
  shows "bytes_at (put_bytes (BSIZE * n) bs p) (BSIZE * m) BSIZE = bytes_at p (BSIZE * m) BSIZE"
proof (rule nth_equalityI)
  fix k assume "k < length (bytes_at (put_bytes (BSIZE * n) bs p) (BSIZE * m) BSIZE)"
  then have k: "k < BSIZE" by simp
  have "n < m \<or> m < n" using assms(2) by arith
  then have "n + 1 \<le> m \<or> m + 1 \<le> n" by arith
  then have "BSIZE * n + BSIZE \<le> BSIZE * m + k \<or> BSIZE * m + k < BSIZE * n"
    using k by (auto simp: BSIZE_def)
  then show "bytes_at (put_bytes (BSIZE * n) bs p) (BSIZE * m) BSIZE ! k = bytes_at p (BSIZE * m) BSIZE ! k"
    using k assms(1) by (auto simp: put_bytes_outside)
qed simp

lemma call_request:
  assumes "call_ok d b i wr bs"
  shows "request_ok d i"
  using assms by (auto simp: call_ok_def request_ok_def Let_def VIRTIO_BLK_T_IN_def VIRTIO_BLK_T_OUT_def)

lemma complete_call:
  assumes "call_ok d b h wr bs" "h \<in> set (submitted d)"
  shows "complete h d = d\<lparr>platter := (if wr then put_bytes (BSIZE * b_blockno d b) bs (platter d) else platter d),
      b_data := (if wr then b_data d else (b_data d)(b := put_bytes 0 bs (b_data d b))),
      info_status := (info_status d)(h := 0), usd_ring := (usd_ring d)(unat (usd_idx d) mod NUM := h),
      usd_idx := usd_idx d + 1, dev_busy := remove1 h (dev_busy d)\<rparr>"
proof -
  have s: "512 * r_sector (ops d h) = BSIZE * b_blockno d b" "r_type (ops d h) = (if wr then VIRTIO_BLK_T_OUT else VIRTIO_BLK_T_IN)"
    and a: "d_addr (desc d h) = Dma_op h" "d_addr (desc d (d_next (desc d h))) = Dma_data b" "d_len (desc d (d_next (desc d h))) = BSIZE"
      "d_addr (desc d (d_next (desc d (d_next (desc d h))))) = Dma_status h"
    and b: "bs = (if wr then buffer_bytes d b else block_bytes d b)"
    using assms by (simp_all add: call_ok_def Let_def BSIZE_def)
  show ?thesis
    unfolding complete_def Let_def a
    by (simp add: transfer_def s b VIRTIO_BLK_T_IN_def VIRTIO_BLK_T_OUT_def)
qed

lemma complete_vinv:
  assumes v: "vinv d" and h: "h \<in> set (dev_busy d)"
  shows "vinv (complete h d)"
proof -
  have hs: "h \<in> set (submitted d)" using h by (simp add: submitted_def)
  then have "h \<in> pending d" using vinvD(7) [OF v] by blast
  then obtain b wr bs where c: "calls d b = Some (h, wr, bs)" "b_disk d b" "call_ok d b h wr bs" by (rule pending_call [OF v])
  let ?d = "complete h d"
  note d' = complete_call [OF c(3) hs]
  have bs: "bs = (if wr then buffer_bytes d b else block_bytes d b)" "length bs = BSIZE" using c(3) hs by (auto simp: call_ok_def)
  have sub: "submitted ?d = remove1 h (submitted d)" using h by (simp add: submitted_def d' remove1_append)
  have "length (submitted d) \<ge> 1" using hs by (cases "submitted d") auto
  then have "length (completed d) < NUM" using pending_bound(1) [OF v] by linarith
  then have comp: "completed ?d = completed d @ [h]" by (simp add: completed_def d' vring_list_push)
  have fields: "calls ?d = calls d" "pending ?d = pending d" "desc ?d = desc d" "dfree ?d = dfree d" "ops ?d = ops d" "info_b ?d = info_b d"
    "b_blockno ?d = b_blockno d" "chain ?d = chain d" by (simp_all add: d' pending_def chain_def fun_eq_iff)
  have dist: "distinct (submitted d)" "h \<notin> set (completed d)" using vinvD(4,6) [OF v] hs by blast+
  have mine: "call_ok ?d b h wr bs"
    using c(3) bs dist(1) unfolding call_ok_def Let_def fields sub by (simp add: d' put_bytes_at_same)
  have other: "call_ok ?d b' i' wr' bs'" if o: "calls d b' = Some (i', wr', bs')" "b' \<noteq> b" for b' i' wr' bs'
  proof (rule call_ok_cong(1) [OF vinvD(1) [OF v o(1)]])
    have n: "b_blockno d b \<noteq> b_blockno d b'" "i' \<noteq> h"
      using vinvD(2) [OF v c(1) o(1)] o(2) by (auto simp: chain_def)
    show "bytes_at (platter ?d) (BSIZE * b_blockno d b') BSIZE = block_bytes d b'"
      using put_block_other [OF bs(2) n(1)] by (simp add: d')
    show "(i' \<in> set (submitted ?d)) = (i' \<in> set (submitted d))" using n(2) by (simp add: sub)
    show "info_status ?d i' = info_status d i'" using n(2) by (simp add: d')
    show "buffer_bytes ?d b' = buffer_bytes d b'" using o(2) by (simp add: d')
  qed (simp_all add: fields)
  show ?thesis
  proof (rule vinvI)
    show "call_ok ?d b' i' wr' bs'" if "calls ?d b' = Some (i', wr', bs')" for b' i' wr' bs'
      using that other mine c(1) by (cases "b' = b") (auto simp: fields)
    show "distinct (submitted ?d @ completed ?d)" "set (submitted ?d @ completed ?d) = pending ?d"
      using vinvD(4-7) [OF v] hs dist by (auto simp: sub comp fields)
  qed (use vinvD [OF v] in \<open>simp_all add: fields\<close>)
qed

section \<open>The interrupt handler\<close>

lemma ack_vinv:
  assumes v: "vinv d" and ne: "used_idx d \<noteq> usd_idx d"
  defines "h \<equiv> usd_ring d (unat (used_idx d) mod NUM)"
  shows "info_status d h = 0 \<and> (\<exists>b. info_b d h = Some b \<and> vinv (d\<lparr>b_disk := (b_disk d)(b := False), used_idx := used_idx d + 1\<rparr>))"
proof -
  have comp: "completed d = h # vring_list (usd_ring d) (used_idx d + 1) (usd_idx d)"
    unfolding completed_def h_def by (rule vring_list_pop [OF ne])
  then have "h \<in> pending d" "h \<notin> set (submitted d)" using vinvD(6,7) [OF v] by auto
  obtain b wr bs where c: "calls d b = Some (h, wr, bs)" "b_disk d b" "call_ok d b h wr bs" by (rule pending_call [OF v \<open>h \<in> pending d\<close>])
  let ?d = "d\<lparr>b_disk := (b_disk d)(b := False), used_idx := used_idx d + 1\<rparr>"
  have st: "info_status d h = 0" "info_b d h = Some b" using c(3) \<open>h \<notin> set (submitted d)\<close> by (simp_all add: call_ok_def)
  have s: "submitted ?d = submitted d" "h # completed ?d = completed d" using comp by (simp_all add: submitted_def completed_def)
  have p: "pending ?d = pending d - {h}"
  proof (rule equalityI; rule subsetI)
    fix i assume "i \<in> pending ?d"
    then obtain b' wr' bs' where "calls d b' = Some (i, wr', bs')" "b' \<noteq> b" "b_disk d b'" by (auto simp: pending_def split: if_splits)
    then show "i \<in> pending d - {h}" using same_head [OF v c(1), of b'] unfolding pending_def by blast
  next
    fix i assume "i \<in> pending d - {h}"
    then obtain b' wr' bs' where "calls d b' = Some (i, wr', bs')" "b_disk d b'" "i \<noteq> h" by (auto simp: pending_def)
    then show "i \<in> pending ?d" using c(1) by (cases "b' = b") (auto simp: pending_def)
  qed
  have "distinct (h # completed ?d)" unfolding s(2) by (rule vinvD(5) [OF v])
  moreover have "set (submitted d) \<union> insert h (set (completed ?d)) = pending d" "set (submitted d) \<inter> insert h (set (completed ?d)) = {}"
    using vinvD(6,7) [OF v] s(2) [symmetric] by simp_all
  ultimately have "distinct (submitted ?d @ completed ?d)" "set (submitted ?d @ completed ?d) = pending ?d"
    using vinvD(4) [OF v] unfolding s(1) p by auto
  moreover have "call_ok ?d b' i wr bs = call_ok d b' i wr bs" for b' i wr bs unfolding call_ok_def s(1) by simp
  ultimately have "vinv ?d" using v unfolding vinv_def chain_def by simp
  then show ?thesis using st by blast
qed

lemma intr_vinv: "vinv d \<Longrightarrow> \<exists>d'. virtio_disk_intr d = Ok d' \<and> vinv d' \<and> completed d' = [] \<and> submitted d' = submitted d \<and>
  calls d' = calls d"
proof (induction d rule: virtio_disk_intr.induct)
  case (1 d)
  show ?case
  proof (cases "used_idx d = usd_idx d")
    case True
    then show ?thesis using 1(2) by (subst virtio_disk_intr.simps) (simp add: completed_def vring_list_empty)
  next
    case False
    from ack_vinv [OF 1(2) False] obtain b where a: "info_status d (usd_ring d (unat (used_idx d) mod NUM)) = 0"
      "info_b d (usd_ring d (unat (used_idx d) mod NUM)) = Some b" "vinv (d\<lparr>b_disk := (b_disk d)(b := False), used_idx := used_idx d + 1\<rparr>)"
      by blast
    from 1(1) [OF False refl _ a(2) a(3)] a show ?thesis by (subst virtio_disk_intr.simps) (simp add: Let_def False submitted_def)
  qed
qed

section \<open>Starting a request\<close>

lemma alloc_desc_cases:
  obtains "alloc_desc d = (None, d)" "\<forall>j<NUM. \<not> dfree d j"
  | i where "alloc_desc d = (Some i, d\<lparr>dfree := (dfree d)(i := False)\<rparr>)" "i < NUM" "dfree d i"
proof (cases "find (dfree d) [0..<NUM]")
  case None
  then have "alloc_desc d = (None, d)" by (simp add: alloc_desc_def)
  moreover from None have "\<forall>j<NUM. \<not> dfree d j" by (simp add: find_None_iff)
  ultimately show thesis by (rule that(1))
next
  case (Some i)
  moreover from this have "i < NUM" "dfree d i" by (auto simp: find_Some_iff)
  ultimately show thesis using that(2) [of i] by (simp add: alloc_desc_def)
qed

definition unalloc :: "nat list \<Rightarrow> vdisk \<Rightarrow> vdisk" where
  "unalloc is d = d\<lparr>dfree := (\<lambda>j. j \<in> set is \<or> dfree d j),
     desc := (\<lambda>j. if j \<in> set is then \<lparr>d_addr = Dma_null, d_len = 0, d_flags = 0, d_next = 0\<rparr> else desc d j)\<rparr>"

lemma free_all_ok:
  "distinct is \<Longrightarrow> (\<forall>i\<in>set is. i < NUM \<and> \<not> dfree d i) \<Longrightarrow> free_all is d = Ok (unalloc is d)"
proof (induction "is" arbitrary: d)
  case (Cons i "is")
  let ?d = "d\<lparr>desc := (desc d)(i := \<lparr>d_addr = Dma_null, d_len = 0, d_flags = 0, d_next = 0\<rparr>), dfree := (dfree d)(i := True)\<rparr>"
  have "free_desc i d = Ok ?d" using Cons.prems(2) by (simp add: free_desc_def)
  moreover have "free_all is ?d = Ok (unalloc is ?d)" by (rule Cons.IH) (use Cons.prems in auto)
  moreover have "unalloc is ?d = unalloc (i # is) d" by (simp add: unalloc_def fun_eq_iff)
  ultimately show ?case by simp
qed (simp add: unalloc_def)

lemma alloc_loop_ok:
  assumes "distinct got" "\<forall>i\<in>set got. i < NUM \<and> \<not> dfree d i"
  shows "(\<exists>is. length is = n \<and> distinct (got @ is) \<and> (\<forall>i\<in>set is. i < NUM \<and> dfree d i) \<and>
      alloc_loop n got d = Ok (Some (got @ is), d\<lparr>dfree := (\<lambda>j. j \<notin> set is \<and> dfree d j)\<rparr>)) \<or>
    (\<exists>is. (\<forall>i\<in>set is. i < NUM \<and> (i \<in> set got \<or> dfree d i)) \<and> set got \<subseteq> set is \<and> card {j. j < NUM \<and> dfree d j} < n \<and>
      alloc_loop n got d = Ok (None, unalloc is d))"
  using assms
proof (induction n arbitrary: got d)
  case 0
  then show ?case by (intro disjI1 exI [of _ "[]"]) simp
next
  case (Suc n)
  show ?case
  proof (cases rule: alloc_desc_cases [of d])
    case 1
    have e: "{j. j < NUM \<and> dfree d j} = {}" using 1(2) by blast
    show ?thesis using 1(1) free_all_ok [OF Suc.prems] Suc.prems(2) by (intro disjI2 exI [of _ got]) (simp add: e)
  next
    case (2 i)
    let ?d = "d\<lparr>dfree := (dfree d)(i := False)\<rparr>"
    have i: "i \<notin> set got" using Suc.prems(2) 2(3) by blast
    have run: "alloc_loop (Suc n) got d = alloc_loop n (got @ [i]) ?d" using 2(1) by simp
    have pre: "distinct (got @ [i])" "\<forall>j\<in>set (got @ [i]). j < NUM \<and> \<not> dfree ?d j" using Suc.prems i 2(2) by auto
    have un: "unalloc is ?d = unalloc is d" if "i \<in> set is" for "is"
      using that 2(3) by (auto simp: unalloc_def fun_eq_iff)
    have cd: "card {j. j < NUM \<and> dfree ?d j} = card {j. j < NUM \<and> dfree d j} - 1"
    proof -
      have "{j. j < NUM \<and> dfree ?d j} = {j. j < NUM \<and> dfree d j} - {i}" by auto
      then show ?thesis using 2 by simp
    qed
    from Suc.IH [OF pre] show ?thesis
    proof (elim disjE exE conjE)
      fix "is" assume a: "length is = n" "distinct ((got @ [i]) @ is)" "\<forall>j\<in>set is. j < NUM \<and> dfree ?d j"
        "alloc_loop n (got @ [i]) ?d = Ok (Some ((got @ [i]) @ is), ?d\<lparr>dfree := \<lambda>j. j \<notin> set is \<and> dfree ?d j\<rparr>)"
      have "?d\<lparr>dfree := \<lambda>j. j \<notin> set is \<and> dfree ?d j\<rparr> = d\<lparr>dfree := \<lambda>j. j \<notin> set (i # is) \<and> dfree d j\<rparr>" by (auto simp: fun_eq_iff)
      then show ?thesis using a 2 run by (intro disjI1 exI [of _ "i # is"]) (auto split: if_splits)
    next
      fix "is" assume "\<forall>j\<in>set is. j < NUM \<and> (j \<in> set (got @ [i]) \<or> dfree ?d j)" "set (got @ [i]) \<subseteq> set is"
        "card {j. j < NUM \<and> dfree ?d j} < n" "alloc_loop n (got @ [i]) ?d = Ok (None, unalloc is ?d)"
      then show ?thesis using run un 2 cd by (intro disjI2 exI [of _ "is"]) (auto split: if_splits)
    qed
  qed
qed

lemma disk_start_cases:
  obtains i0 i1 i2 where "distinct [i0, i1, i2]" "\<forall>i\<in>{i0, i1, i2}. i < NUM \<and> dfree d i"
    "disk_start b wr d = Ok (Some i0, format_request b wr i0 i1 i2 (d\<lparr>dfree := (\<lambda>j. j \<notin> {i0, i1, i2} \<and> dfree d j)\<rparr>))"
  | "is" where "\<forall>i\<in>set is. i < NUM \<and> dfree d i" "card {j. j < NUM \<and> dfree d j} < 3" "disk_start b wr d = Ok (None, unalloc is d)"
proof -
  from alloc_loop_ok [of "[]" d 3] consider
    "is" where "length is = 3" "distinct is" "\<forall>i\<in>set is. i < NUM \<and> dfree d i"
      "alloc3_desc d = Ok (Some is, d\<lparr>dfree := (\<lambda>j. j \<notin> set is \<and> dfree d j)\<rparr>)"
    | "is" where "\<forall>i\<in>set is. i < NUM \<and> dfree d i" "card {j. j < NUM \<and> dfree d j} < 3" "alloc3_desc d = Ok (None, unalloc is d)"
    by (auto simp: alloc3_desc_def)
  then show thesis
  proof cases
    case (1 "is")
    then obtain i0 i1 i2 where "is": "is = [i0, i1, i2]" by (auto simp: numeral_3_eq_3 length_Suc_conv)
    show thesis by (rule that(1) [of i0 i1 i2]) (use 1 in \<open>simp_all add: "is" disk_start_def\<close>)
  next
    case (2 "is")
    then show thesis using that(2) [of "is"] by (simp add: disk_start_def)
  qed
qed

text \<open>The chains of the calls are not free.\<close>

lemma chain_busy:
  assumes "vinv d" "calls d b = Some (i, wr, bs)" "j \<in> set (chain d i)"
  shows "j < NUM" "\<not> dfree d j"
  using vinvD(1) [OF assms(1,2)] assms(3) by (auto simp: call_ok_def chain_def Let_def)

lemma retry_vinv:
  assumes v: "vinv d" and "is": "\<forall>i\<in>set is. i < NUM \<and> dfree d i"
  shows "vinv (unalloc is d)"
proof -
  let ?d = "unalloc is d"
  have f: "dfree ?d = dfree d" using "is" by (auto simp: unalloc_def)
  have g: "calls ?d = calls d" "submitted ?d = submitted d" "completed ?d = completed d" "pending ?d = pending d" "b_blockno ?d = b_blockno d"
    by (simp_all add: unalloc_def submitted_def completed_def pending_def)
  have k: "call_ok ?d b i wr bs" "chain ?d i = chain d i" if c: "calls d b = Some (i, wr, bs)" for b i wr bs
  proof -
    have "desc ?d j = desc d j \<and> (dfree ?d j = dfree d j)" if "j \<in> set (chain d i)" for j
      using chain_busy [OF v c that] "is" unfolding f by (auto simp: unalloc_def)
    then show "call_ok ?d b i wr bs" "chain ?d i = chain d i"
      using call_ok_cong [OF vinvD(1) [OF v c], of ?d] g by (simp_all add: unalloc_def submitted_def)
  qed
  show ?thesis
  proof (rule vinvI)
    show "\<exists>b i wr bs. calls ?d b = Some (i, wr, bs) \<and> j \<in> set (chain ?d i)" if "j < NUM" "\<not> dfree ?d j" for j
      using vinvD(3) [OF v that [unfolded f]] k(2) unfolding g by metis
    show "set (chain ?d i) \<inter> set (chain ?d i') = {} \<and> b_blockno ?d b \<noteq> b_blockno ?d b'"
      if "calls ?d b = Some (i, wr, bs)" "calls ?d b' = Some (i', wr', bs')" "b \<noteq> b'" for b b' i i' wr wr' bs bs'
      using vinvD(2) [OF v that [unfolded g]] k(2) that unfolding g by metis
  qed (use v k(1) in \<open>auto simp: g vinv_def\<close>)
qed

lemma start_vinv:
  fixes wr :: bool
  assumes v: "vinv d" and new: "calls d b = None" "b_blockno d b < 2 ^ 31" "\<forall>b'. calls d b' \<noteq> None \<longrightarrow> b_blockno d b' \<noteq> b_blockno d b"
    and i: "distinct [i0, i1, i2]" "\<forall>i\<in>{i0, i1, i2}. i < NUM \<and> dfree d i"
  defines "d1 \<equiv> format_request b wr i0 i1 i2 (d\<lparr>dfree := (\<lambda>j. j \<notin> {i0, i1, i2} \<and> dfree d j)\<rparr>)"
  defines "d' \<equiv> d1\<lparr>calls := (calls d1)(b := Some (i0, wr, if wr then buffer_bytes d b else block_bytes d b))\<rparr>"
  shows "vinv d'"
proof -
  have i0: "i0 \<notin> pending d" using pending_call [OF v] i(2) by blast
  then have "length (submitted d) < NUM" using pending_bound(2) [OF v, of i0] i(2) by simp
  then have "unat (avail_idx d - dev_idx d) < NUM" by (simp add: submitted_def)
  then have sub: "submitted d' = submitted d @ [i0]"
    by (simp add: submitted_def d'_def d1_def format_request_def vring_list_push)
  have comp: "completed d' = completed d" by (simp add: completed_def d'_def d1_def format_request_def)
  have fields: "calls d' = (calls d)(b := Some (i0, wr, if wr then buffer_bytes d b else block_bytes d b))" "b_blockno d' = b_blockno d"
    "b_data d' = b_data d" "platter d' = platter d" "dfree d' = (\<lambda>j. j \<notin> {i0, i1, i2} \<and> dfree d j)"
    by (simp_all add: d'_def d1_def format_request_def)
  have n: "d_next (desc d' i0) = i1" "d_next (desc d' i1) = i2" using i(1) by (simp_all add: d'_def d1_def format_request_def)
  have mine: "call_ok d' b i0 wr (if wr then buffer_bytes d b else block_bytes d b)" "chain d' i0 = [i0, i1, i2]"
    using i new(2) unfolding call_ok_def sub fields n Let_def chain_def
    by (simp_all add: d'_def d1_def format_request_def BSIZE_def)
  have other: "call_ok d' b' i' wr' bs'" "chain d' i' = chain d i'" "set (chain d i') \<inter> {i0, i1, i2} = {}"
    if c: "calls d b' = Some (i', wr', bs')" for b' i' wr' bs'
  proof -
    have dj: "j \<notin> {i0, i1, i2}" if "j \<in> set (chain d i')" for j using chain_busy [OF v c that] i(2) by blast
    then show "set (chain d i') \<inter> {i0, i1, i2} = {}" by blast
    have "i' \<noteq> i0" using dj [OF chain_head] by blast
    moreover have "desc d' j = desc d j \<and> (dfree d' j = dfree d j)" if "j \<in> set (chain d i')" for j
      using dj [OF that] by (simp add: d'_def d1_def format_request_def)
    ultimately show "call_ok d' b' i' wr' bs'" "chain d' i' = chain d i'"
      using call_ok_cong [OF vinvD(1) [OF v c], of d'] by (simp_all add: sub fields, simp_all add: d'_def d1_def format_request_def)
  qed
  have pend: "pending d' = insert i0 (pending d)"
  proof (rule equalityI; rule subsetI)
    fix i assume "i \<in> pending d'"
    then obtain b' wr' bs' where "calls d' b' = Some (i, wr', bs')" "b_disk d' b'" by (auto simp: pending_def)
    then show "i \<in> insert i0 (pending d)"
      by (cases "b' = b") (auto simp: pending_def d'_def d1_def format_request_def)
  next
    fix i assume "i \<in> insert i0 (pending d)"
    then consider "i = i0" | b' wr' bs' where "calls d b' = Some (i, wr', bs')" "b_disk d b'" by (auto simp: pending_def)
    then show "i \<in> pending d'"
    proof cases
      case 2
      then have "b' \<noteq> b" using new(1) by auto
      then have "calls d' b' = Some (i, wr', bs')" "b_disk d' b'" using 2 by (simp_all add: d'_def d1_def format_request_def)
      then show ?thesis unfolding pending_def by blast
    qed (auto simp: pending_def d'_def d1_def format_request_def)
  qed
  show ?thesis
  proof (rule vinvI)
    show "call_ok d' b' i' wr' bs'" if "calls d' b' = Some (i', wr', bs')" for b' i' wr' bs'
      using that mine(1) other(1) by (auto simp: fields split: if_splits)
    show "distinct (submitted d' @ completed d')" "set (submitted d' @ completed d') = pending d'"
      using vinvD(4-7) [OF v] i0 by (auto simp: sub comp pend)
    show "\<exists>b' i' wr' bs'. calls d' b' = Some (i', wr', bs') \<and> j \<in> set (chain d' i')" if j: "j < NUM" "\<not> dfree d' j" for j
    proof (cases "j \<in> {i0, i1, i2}")
      case True
      then have "j \<in> set (chain d' i0)" using mine(2) by simp
      moreover have "calls d' b = Some (i0, wr, if wr then buffer_bytes d b else block_bytes d b)" by (simp add: fields)
      ultimately show ?thesis by blast
    next
      case False
      then obtain b' i' wr' bs' where "calls d b' = Some (i', wr', bs')" "j \<in> set (chain d i')" using vinvD(3) [OF v j(1)] j(2) by (auto simp: fields)
      moreover from this have "calls d' b' = Some (i', wr', bs')" using new(1) by (auto simp: fields)
      ultimately show ?thesis using other(2) by metis
    qed
    show "set (chain d' i) \<inter> set (chain d' i') = {} \<and> b_blockno d' b1 \<noteq> b_blockno d' b2"
      if c: "calls d' b1 = Some (i, wr1, bs1)" "calls d' b2 = Some (i', wr2, bs2)" "b1 \<noteq> b2" for b1 b2 i i' wr1 wr2 bs1 bs2
    proof (cases "b1 = b \<or> b2 = b")
      case True
      then show ?thesis using c other(2,3) mine(2) new(3) by (auto simp: fields split: if_splits)
    next
      case False
      then show ?thesis using vinvD(2) [OF v] c other(2) by (auto simp: fields)
    qed
  qed
qed

section \<open>Finishing a request\<close>

lemma disk_finish_ok:
  assumes "call_ok d b i wr bs"
  shows "disk_finish i d = Ok (unalloc (chain d i) (d\<lparr>info_b := (info_b d)(i := None)\<rparr>))"
proof -
  let ?d = "d\<lparr>info_b := (info_b d)(i := None)\<rparr>"
  define i1 i2 where "i1 = d_next (desc d i)" and "i2 = d_next (desc d i1)"
  let ?z = "\<lparr>d_addr = Dma_null, d_len = 0, d_flags = 0, d_next = 0\<rparr>"
  have c: "distinct [i, i1, i2]" "i < NUM" "i1 < NUM" "i2 < NUM" "\<not> dfree d i" "\<not> dfree d i1" "\<not> dfree d i2"
    and f: "d_flags (desc d i) AND VRING_DESC_F_NEXT \<noteq> 0" "d_flags (desc d i1) AND VRING_DESC_F_NEXT \<noteq> 0" "d_flags (desc d i2) AND VRING_DESC_F_NEXT = 0"
    using assms unfolding call_ok_def i2_def i1_def Let_def by (simp_all add: VRING_DESC_F_NEXT_def VRING_DESC_F_WRITE_def)
  let ?d1 = "?d\<lparr>desc := (desc d)(i := ?z), dfree := (dfree d)(i := True)\<rparr>"
  let ?d2 = "?d\<lparr>desc := (desc d)(i := ?z, i1 := ?z), dfree := (dfree d)(i := True, i1 := True)\<rparr>"
  let ?d3 = "?d\<lparr>desc := (desc d)(i := ?z, i1 := ?z, i2 := ?z), dfree := (dfree d)(i := True, i1 := True, i2 := True)\<rparr>"
  have "free_desc i ?d = Ok ?d1" "free_desc i1 ?d1 = Ok ?d2" "free_desc i2 ?d2 = Ok ?d3" using c by (simp_all add: free_desc_def)
  then have "free_chain i2 ?d2 = Ok ?d3" "free_chain i1 ?d1 = free_chain i2 ?d2" "free_chain i ?d = free_chain i1 ?d1"
    using c f by (simp_all add: free_chain.simps Let_def i1_def [symmetric] i2_def [symmetric])
  moreover have "?d3 = unalloc [i, i1, i2] ?d" by (auto simp: unalloc_def fun_eq_iff)
  ultimately show ?thesis by (simp add: disk_finish_def chain_def i1_def i2_def)
qed

lemma finish_vinv:
  assumes v: "vinv d" and c: "calls d b = Some (i, wr, bs)" "\<not> b_disk d b"
  defines "d1 \<equiv> unalloc (chain d i) (d\<lparr>info_b := (info_b d)(i := None)\<rparr>)"
  defines "d' \<equiv> d1\<lparr>calls := (calls d1)(b := None)\<rparr>"
  shows "vinv d'"
proof -
  have lists: "submitted d' = submitted d" "completed d' = completed d" by (simp_all add: d'_def d1_def unalloc_def submitted_def completed_def)
  have calls: "calls d' = (calls d)(b := None)" "b_blockno d' = b_blockno d" by (simp_all add: d'_def d1_def unalloc_def)
  have pend: "pending d' = pending d" using c by (auto simp: pending_def d'_def d1_def unalloc_def)
  have other: "call_ok d' b' i' wr' bs'" "chain d' i' = chain d i'" "set (chain d i') \<inter> set (chain d i) = {}"
    if o: "calls d b' = Some (i', wr', bs')" "b' \<noteq> b" for b' i' wr' bs'
  proof -
    show dj: "set (chain d i') \<inter> set (chain d i) = {}" using vinvD(2) [OF v o(1) c(1)] o(2) by blast
    then have "i' \<noteq> i" by (auto simp: chain_def)
    moreover have "desc d' j = desc d j \<and> (dfree d' j = dfree d j)" if "j \<in> set (chain d i')" for j
      using dj that by (auto simp: d'_def d1_def unalloc_def)
    ultimately show "call_ok d' b' i' wr' bs'" "chain d' i' = chain d i'"
      using call_ok_cong [OF vinvD(1) [OF v o(1)], of d'] by (simp_all add: lists, simp_all add: d'_def d1_def unalloc_def)
  qed
  show ?thesis
  proof (rule vinvI)
    show "call_ok d' b' i' wr' bs'" if "calls d' b' = Some (i', wr', bs')" for b' i' wr' bs'
      using that other(1) by (auto simp: calls split: if_splits)
    show "distinct (submitted d' @ completed d')" "set (submitted d' @ completed d') = pending d'"
      using v by (simp_all add: lists pend vinv_def)
    show "\<exists>b' i' wr' bs'. calls d' b' = Some (i', wr', bs') \<and> j \<in> set (chain d' i')" if j: "j < NUM" "\<not> dfree d' j" for j
    proof -
      have "j \<notin> set (chain d i)" "\<not> dfree d j" using j(2) by (auto simp: d'_def d1_def unalloc_def)
      moreover from this obtain b' i' wr' bs' where o: "calls d b' = Some (i', wr', bs')" "j \<in> set (chain d i')" using vinvD(3) [OF v j(1)] by blast
      ultimately have "b' \<noteq> b" using c(1) by auto
      then have "calls d' b' = Some (i', wr', bs')" "j \<in> set (chain d' i')" using o other(2) by (simp_all add: calls)
      then show ?thesis by blast
    qed
    show "set (chain d' i1) \<inter> set (chain d' i') = {} \<and> b_blockno d' b1 \<noteq> b_blockno d' b2"
      if "calls d' b1 = Some (i1, wr1, bs1)" "calls d' b2 = Some (i', wr2, bs2)" "b1 \<noteq> b2" for b1 b2 i1 i' wr1 wr2 bs1 bs2
      using vinvD(2) [OF v] that other(2) by (auto simp: calls split: if_splits)
  qed
qed

lemma others_vinv:
  assumes v: "vinv d" and "\<forall>b. calls d b \<noteq> None \<longrightarrow> f b = b_data d b \<and> g b = b_blockno d b"
  shows "vinv (d\<lparr>b_data := f, b_blockno := g\<rparr>)"
proof -
  let ?d = "d\<lparr>b_data := f, b_blockno := g\<rparr>"
  have eq: "f b = b_data d b" "g b = b_blockno d b" if "calls d b = Some x" for b x using assms(2) that by auto
  have lists: "submitted ?d = submitted d" "completed ?d = completed d" "pending ?d = pending d" "chain ?d = chain d"
    by (simp_all add: submitted_def completed_def pending_def chain_def fun_eq_iff)
  have "call_ok ?d b i wr bs" if "calls d b = Some (i, wr, bs)" for b i wr bs
    by (rule call_ok_cong(1) [OF vinvD(1) [OF v that]]) (use lists in \<open>simp_all add: eq [OF that]\<close>)
  moreover have "b_blockno ?d b \<noteq> b_blockno ?d b'" if "calls d b = Some (i, wr, bs)" "calls d b' = Some (i', wr', bs')" "b \<noteq> b'" for b b' i i' wr wr' bs bs'
    using vinvD(2) [OF v that] eq(2) [OF that(1)] eq(2) [OF that(2)] by simp
  ultimately show ?thesis using v unfolding vinv_def lists by simp
qed

section \<open>Every reachable state\<close>

lemma vstep_vinv:
  assumes "follows_virtio dev" "vinv d" "vstep dev d d'"
  shows "vinv d'"
  using assms(3)
proof cases
  case (start b wr i d1)
  show ?thesis
  proof (cases rule: disk_start_cases [of d b wr])
    case (1 i0 i1 i2)
    then show ?thesis using start_vinv [OF assms(2) start(2-4) 1(1,2), of wr] start by simp
  qed (use start in simp)
next
  case (retry b wr)
  show ?thesis
  proof (cases rule: disk_start_cases [of d b wr])
    case (2 "is")
    then show ?thesis using retry_vinv [OF assms(2)] retry by simp
  qed (use retry in simp)
next
  case intr
  then show ?thesis using intr_vinv [OF assms(2)] by auto
next
  case (finish b i wr bs d1)
  then show ?thesis using finish_vinv [OF assms(2) finish(2,3)] disk_finish_ok [OF vinvD(1) [OF assms(2) finish(2)]] by simp
next
  case device
  have "request_ok d h" if h: "h \<in> set (dev_busy d)" for h
  proof -
    have "h \<in> pending d" using vinvD(7) [OF assms(2)] h by (auto simp: submitted_def)
    then show ?thesis by (rule pending_call [OF assms(2)]) (rule call_request)
  qed
  then have "dev_idx d \<noteq> avail_idx d \<and> d' = fetch d \<or> (\<exists>h \<in> set (dev_busy d). d' = complete h d)"
    using assms(1) device unfolding follows_virtio_def by blast
  then show ?thesis using fetch_vinv [OF assms(2)] complete_vinv [OF assms(2)] by blast
next
  case (others f g)
  then show ?thesis using others_vinv [OF assms(2)] by simp
qed

definition quiet_disk :: "vdisk \<Rightarrow> bool" where
  "quiet_disk d \<longleftrightarrow> (\<forall>j<NUM. dfree d j) \<and> calls d = (\<lambda>_. None) \<and> dev_busy d = [] \<and> dev_idx d = avail_idx d \<and> used_idx d = usd_idx d"

lemma quiet_vinv: "quiet_disk d \<Longrightarrow> vinv d"
  by (simp add: quiet_disk_def vinv_def submitted_def completed_def vring_list_empty pending_def)

lemma init_quiet:
  assumes "virtio_disk_init rd rd_status k d = Ok (ws, d', k')" "used_idx d = 0" "calls d = (\<lambda>_. None)" "dev_busy d = []" "dev_idx d = 0"
  shows "quiet_disk d'"
  using assms by (auto simp: virtio_disk_init_def quiet_disk_def bindR_eq_Ok split: if_splits)

lemma reachable_vinv:
  assumes "follows_virtio dev" "quiet_disk d0" "reachable dev d0 d"
  shows "vinv d"
  using assms(3)
proof induction
  case here
  show ?case by (rule quiet_vinv [OF assms(2)])
next
  case (there d1 d2)
  then show ?case using vstep_vinv [OF assms(1)] by blast
qed


definition prompt_device :: "vdisk \<Rightarrow> vdisk \<Rightarrow> bool" where
  "prompt_device d d' \<longleftrightarrow> dev_idx d \<noteq> avail_idx d \<and> d' = fetch d \<or> (\<exists>h \<in> set (dev_busy d). d' = complete h d)"

definition disk0 :: vdisk where
  "disk0 = \<lparr>desc = (\<lambda>_. \<lparr>d_addr = Dma_null, d_len = 0, d_flags = 0, d_next = 0\<rparr>), avail_ring = (\<lambda>_. 0), avail_idx = 0, usd_ring = (\<lambda>_. 0),
     usd_idx = 0, dfree = (\<lambda>i. i < NUM), used_idx = 0, info_b = (\<lambda>_. None), info_status = (\<lambda>_. 0),
     ops = (\<lambda>_. \<lparr>r_type = 0, r_sector = 0\<rparr>), b_disk = (\<lambda>_. False), b_blockno = (\<lambda>b. b + 46), b_data = (\<lambda>_ _. 7),
     platter = (\<lambda>_. 0), dev_idx = 0, dev_busy = [], calls = (\<lambda>_. None)\<rparr>"

lemma disk0_quiet: "quiet_disk disk0"
  by (simp add: quiet_disk_def disk0_def)

lemma disk0_write:
  "\<exists>d i. reachable prompt_device disk0 d \<and> calls d 0 = Some (i, True, replicate BSIZE 7) \<and> \<not> b_disk d 0"
proof -
  have free: "{j. j < NUM \<and> dfree disk0 j} = {..<NUM}" by (auto simp: disk0_def)
  obtain i0 i1 i2 where i: "distinct [i0, i1, i2]" "\<forall>i\<in>{i0, i1, i2}. i < NUM \<and> dfree disk0 i"
    and st: "disk_start 0 True disk0 = Ok (Some i0, format_request 0 True i0 i1 i2 (disk0\<lparr>dfree := (\<lambda>j. j \<notin> {i0, i1, i2} \<and> dfree disk0 j)\<rparr>))"
  proof (cases rule: disk_start_cases [of disk0 0 True])
    case (2 "is")
    from 2(2) show thesis unfolding free by (simp add: NUM_def)
  qed (rule that)
  let ?f = "format_request 0 True i0 i1 i2 (disk0\<lparr>dfree := (\<lambda>j. j \<notin> {i0, i1, i2} \<and> dfree disk0 j)\<rparr>)"
  let ?d1 = "?f\<lparr>calls := (calls ?f)(0 := Some (i0, True, if True then buffer_bytes disk0 0 else block_bytes disk0 0))\<rparr>"
  have "vstep prompt_device disk0 ?d1" by (rule vstep.start [OF _ _ _ st]) (simp_all add: disk0_def)
  then have r1: "reachable prompt_device disk0 ?d1" using reachable.here reachable.there by blast
  have v1: "vinv ?d1" by (rule start_vinv [OF quiet_vinv [OF disk0_quiet] _ _ _ i]) (simp_all add: disk0_def)
  have s1: "dev_idx ?d1 = 0" "avail_idx ?d1 = 1" "dev_busy ?d1 = []" "avail_ring ?d1 0 = i0" by (simp_all add: format_request_def disk0_def)
  have c1: "calls ?d1 0 = Some (i0, True, replicate BSIZE 7)" by (simp add: disk0_def bytes_at_def map_replicate_const)
  let ?d2 = "fetch ?d1"
  have ne: "dev_idx ?d1 \<noteq> avail_idx ?d1" unfolding s1 by simp
  then have r2: "reachable prompt_device disk0 ?d2" using r1 reachable.there vstep.device prompt_device_def by blast
  have v2: "vinv ?d2" by (rule fetch_vinv [OF v1 ne])
  have s2: "dev_busy ?d2 = [i0]" "submitted ?d2 = [i0]" using s1 by (simp_all add: fetch_def submitted_def vring_list_empty NUM_def)
  let ?d3 = "complete i0 ?d2"
  have h: "i0 \<in> set (dev_busy ?d2)" using s2 by simp
  then have r3: "reachable prompt_device disk0 ?d3" using r2 reachable.there vstep.device prompt_device_def by blast
  have v3: "vinv ?d3" by (rule complete_vinv [OF v2 h])
  have c2: "calls ?d2 0 = Some (i0, True, replicate BSIZE 7)" using c1 by (simp add: fetch_def)
  have s3: "submitted ?d3 = []" "calls ?d3 = calls ?d2"
    using complete_call [OF vinvD(1) [OF v2 c2]] s2 by (simp_all add: submitted_def)
  obtain d4 where d4: "virtio_disk_intr ?d3 = Ok d4" "vinv d4" "completed d4 = []" "submitted d4 = []" "calls d4 = calls ?d3"
    using intr_vinv [OF v3] s3(1) by metis
  have "reachable prompt_device disk0 d4" using r3 d4(1) reachable.there vstep.intr by blast
  moreover have "pending d4 = {}" using vinvD(7) [OF d4(2)] d4(3,4) by simp
  then have "\<not> b_disk d4 0" using c2 d4(5) s3(2) by (auto simp: pending_def)
  ultimately show ?thesis using c2 d4(5) s3(2) by metis
qed


end
