(* ===== verification/Umalloc.thy ===== *)
theory Umalloc
  imports Log
begin

text \<open>
  The memory allocator of user programs, user/umalloc.c: a circular list of the free blocks in the
  order of their addresses, kept in the headers of the blocks. The memory is that of the user
  process; \<open>sbrk\<close> of user/ulib.c, which is a system call, is an argument that maps the size and the
  state of the kernel to the old break, or \<open>None\<close> for \<open>SBRK_ERROR\<close>, and the new state of the kernel.
\<close>

section \<open>Headers\<close>

abbreviation hdr_size :: nat where "hdr_size \<equiv> 16"

definition uptr :: "mem \<Rightarrow> nat \<Rightarrow> nat" where "uptr m a = ld_le 8 m a"
definition usize :: "mem \<Rightarrow> nat \<Rightarrow> nat" where "usize m a = ld_le 4 m (a + 8)"
definition set_uptr :: "nat \<Rightarrow> nat \<Rightarrow> mem \<Rightarrow> mem" where "set_uptr a v m = st_le 8 m a v"
definition set_usize :: "nat \<Rightarrow> nat \<Rightarrow> mem \<Rightarrow> mem" where "set_usize a v m = st_le 4 m (a + 8) v"

text \<open>Pointer arithmetic on headers.\<close>

definition hadd :: "nat \<Rightarrow> nat \<Rightarrow> nat" where "hadd p n = add64 p (hdr_size * n)"

section \<open>The allocator\<close>

text \<open>The static variables are \<open>freep\<close> and \<open>base\<close>, whose address is \<open>ubase\<close>.\<close>

record 'w uheap =
  umem :: mem
  ubase :: nat
  freep :: nat
  kern :: 'w

partial_function (option) free_loop :: "mem \<Rightarrow> nat \<Rightarrow> nat \<Rightarrow> nat option" where
  "free_loop m bp p =
     (if bp > p \<and> bp < uptr m p then Some p
      else if p \<ge> uptr m p \<and> (bp > p \<or> bp < uptr m p) then Some p
      else free_loop m bp (uptr m p))"

definition join_next :: "nat \<Rightarrow> nat \<Rightarrow> mem \<Rightarrow> mem" where
  "join_next bp p m =
     (if hadd bp (usize m bp) = uptr m p then
        let m1 = set_usize bp (usize m bp + usize m (uptr m p)) m in set_uptr bp (uptr m1 (uptr m1 p)) m1
      else set_uptr bp (uptr m p) m)"

definition join_prev :: "nat \<Rightarrow> nat \<Rightarrow> mem \<Rightarrow> mem" where
  "join_prev bp p m =
     (if hadd p (usize m p) = bp then
        let m1 = set_usize p (usize m p + usize m bp) m in set_uptr p (uptr m1 bp) m1
      else set_uptr p bp m)"

definition free :: "nat \<Rightarrow> 'w uheap \<Rightarrow> 'w uheap option" where
  "free ap s =
     (let bp = sub64 ap hdr_size in
      case free_loop (umem s) bp (freep s) of
        None \<Rightarrow> None
      | Some p \<Rightarrow> Some (s\<lparr>umem := join_prev bp p (join_next bp p (umem s)), freep := p\<rparr>))"

text \<open>\<open>morecore\<close> hands \<open>sbrk\<close> an \<open>int\<close>.\<close>

definition morecore :: "(int \<Rightarrow> 'w \<Rightarrow> nat option \<times> 'w) \<Rightarrow> nat \<Rightarrow> 'w uheap \<Rightarrow> (nat \<times> 'w uheap) option" where
  "morecore sbrk nu0 s =
     (let nu = (if nu0 < 4096 then 4096 else nu0) in
      case sbrk (int32 (nu * hdr_size mod 2 ^ 32)) (kern s) of
        (None, k) \<Rightarrow> Some (0, s\<lparr>kern := k\<rparr>)
      | (Some hp, k) \<Rightarrow>
          (case free (hadd hp 1) (s\<lparr>kern := k, umem := set_usize hp nu (umem s)\<rparr>) of
             None \<Rightarrow> None
           | Some s' \<Rightarrow> Some (freep s', s')))"

definition carve :: "nat \<Rightarrow> nat \<Rightarrow> nat \<Rightarrow> 'w uheap \<Rightarrow> nat \<times> 'w uheap" where
  "carve nunits prevp p s =
     (if usize (umem s) p = nunits then
        (hadd p 1, s\<lparr>umem := set_uptr prevp (uptr (umem s) p) (umem s), freep := prevp\<rparr>)
      else
        let n = usize (umem s) p - nunits; m = set_usize p n (umem s); p' = hadd p n in
        (hadd p' 1, s\<lparr>umem := set_usize p' nunits m, freep := prevp\<rparr>))"

partial_function (option) malloc_loop ::
  "(int \<Rightarrow> 'w \<Rightarrow> nat option \<times> 'w) \<Rightarrow> nat \<Rightarrow> nat \<Rightarrow> nat \<Rightarrow> 'w uheap \<Rightarrow> (nat \<times> 'w uheap) option" where
  "malloc_loop sbrk nunits prevp p s =
     (if usize (umem s) p \<ge> nunits then Some (carve nunits prevp p s)
      else if p = freep s then
        Option.bind (morecore sbrk nunits s) (\<lambda>(p', s'). if p' = 0 then Some (0, s') else malloc_loop sbrk nunits p' (uptr (umem s') p') s')
      else malloc_loop sbrk nunits p (uptr (umem s) p) s)"

definition nunits :: "nat \<Rightarrow> nat" where
  "nunits nbytes = (nbytes + hdr_size - 1) div hdr_size + 1"

definition malloc :: "(int \<Rightarrow> 'w \<Rightarrow> nat option \<times> 'w) \<Rightarrow> nat \<Rightarrow> 'w uheap \<Rightarrow> (nat \<times> 'w uheap) option" where
  "malloc sbrk nbytes s =
     (let s = (if freep s = 0
               then s\<lparr>freep := ubase s, umem := set_usize (ubase s) 0 (set_uptr (ubase s) (ubase s) (umem s))\<rparr> else s) in
      malloc_loop sbrk (nunits nbytes) (freep s) (uptr (umem s) (freep s)) s)"

section \<open>Reading headers after writing them\<close>

definition apart :: "nat \<Rightarrow> nat \<Rightarrow> bool" where
  "apart a b \<longleftrightarrow> a = b \<or> a + 16 \<le> b \<or> b + 16 \<le> a"

lemma hdr_simps:
  "apart a b \<Longrightarrow> v < 2 ^ 64 \<Longrightarrow> uptr (set_uptr a v m) b = (if b = a then v else uptr m b)"
  "apart a b \<Longrightarrow> usize (set_uptr a v m) b = usize m b"
  "apart a b \<Longrightarrow> uptr (set_usize a v m) b = uptr m b"
  "apart a b \<Longrightarrow> v < 2 ^ 32 \<Longrightarrow> usize (set_usize a v m) b = (if b = a then v else usize m b)"
  unfolding uptr_def usize_def set_uptr_def set_usize_def apart_def
  by (auto simp: ld_st_same intro!: ld_st_other)

lemma hdr_bytes:
  "x < a \<or> a + 16 \<le> x \<Longrightarrow> set_uptr a v m x = m x" "x < a \<or> a + 16 \<le> x \<Longrightarrow> set_usize a v m x = m x"
  unfolding set_uptr_def set_usize_def by (auto intro!: st_le_outside)

lemma uptr_less [simp]: "uptr m a < 18446744073709551616" and usize_less [simp]: "usize m a < 4294967296"
  using ld_le_less [of 8 m a] ld_le_less [of 4 m "a + 8"] by (simp_all add: uptr_def usize_def)

section \<open>Chains\<close>

text \<open>\<open>chain nx a xs e\<close>: from \<open>a\<close> the pointers lead through \<open>xs\<close> to \<open>e\<close>.\<close>

fun chain :: "(nat \<Rightarrow> nat) \<Rightarrow> nat \<Rightarrow> nat list \<Rightarrow> nat \<Rightarrow> bool" where
  "chain nx a [] e \<longleftrightarrow> nx a = e"
| "chain nx a (x # xs) e \<longleftrightarrow> nx a = x \<and> chain nx x xs e"

lemma chain_append:
  "chain nx a (xs @ ys) e \<longleftrightarrow> chain nx a xs (hd (ys @ [e])) \<and> chain nx (last (a # xs)) ys e"
proof (induction xs arbitrary: a)
  case Nil
  then show ?case by (cases ys) auto
qed auto

lemma chain_cong: "(\<And>x. x \<in> set (a # xs) \<Longrightarrow> nx x = nx' x) \<Longrightarrow> chain nx a xs e = chain nx' a xs e"
  by (induction xs arbitrary: a) auto

lemma chain_start: "chain nx a xs e \<Longrightarrow> nx b = nx a \<Longrightarrow> chain nx b xs e"
  by (cases xs) auto

lemma chain_end: "chain nx a xs e \<Longrightarrow> nx (last (a # xs)) = e"
  by (induction xs arbitrary: a) auto

lemma chain_redirect:
  assumes "chain nx a xs e" "distinct (a # xs)" "nx' (last (a # xs)) = e'" "\<And>x. x \<in> set (a # xs) \<Longrightarrow> x \<noteq> last (a # xs) \<Longrightarrow> nx' x = nx x"
  shows "chain nx' a xs e'"
  using assms
proof (induction xs arbitrary: a)
  case (Cons x xs)
  have "a \<noteq> last (x # xs)" using Cons.prems(2) last_in_set [of "x # xs"] by auto
  then show ?case using Cons by auto
qed simp

end
