(* ===== verification/Umalloc_Correct.thy ===== *)
theory Umalloc_Correct
  imports Umalloc
begin

text \<open>
  The allocator of user/umalloc.c divides the memory it got from \<open>sbrk\<close> into free and live blocks:
  \<open>malloc\<close> returns a block that no one else uses, \<open>free\<close> takes it back, neither touches a byte of
  another live block, and no memory is lost.
\<close>

section \<open>The invariant\<close>

type_synonym ublock = "nat \<times> nat"

definition span :: "ublock \<Rightarrow> nat set" where
  "span b = {fst b..<fst b + hdr_size * snd b}"

text \<open>The program's memory ends below \<open>utop\<close>, so that sizes in units fit 32 bits.\<close>

definition utop :: nat where "utop = 2 ^ 35"

definition block_ok :: "nat \<Rightarrow> ublock \<Rightarrow> bool" where
  "block_ok base b \<longleftrightarrow> 0 < snd b \<and> base + hdr_size \<le> fst b \<and> fst b + hdr_size * snd b \<le> utop"

text \<open>The free list: the blocks in the order of their addresses, no two of them adjacent.\<close>

definition gaps :: "ublock list \<Rightarrow> bool" where
  "gaps fl \<longleftrightarrow> sorted_wrt (\<lambda>b c. fst b + hdr_size * snd b < fst c) fl"

definition free_list :: "mem \<Rightarrow> nat \<Rightarrow> ublock list \<Rightarrow> bool" where
  "free_list m base fl \<longleftrightarrow> chain (uptr m) base (map fst fl) base \<and> usize m base = 0 \<and> (\<forall>b\<in>set fl. usize m (fst b) = snd b) \<and>
     gaps fl \<and> (\<forall>b\<in>set fl. block_ok base b)"

text \<open>\<open>R\<close> is the memory that came from \<open>sbrk\<close>.\<close>

definition heap_ok :: "'w uheap \<Rightarrow> ublock list \<Rightarrow> ublock set \<Rightarrow> nat set \<Rightarrow> bool" where
  "heap_ok s fl live R \<longleftrightarrow> 0 < ubase s \<and> free_list (umem s) (ubase s) fl \<and> freep s \<in> set (ubase s # map fst fl) \<and>
     (\<forall>b\<in>live. block_ok (ubase s) b \<and> usize (umem s) (fst b) = snd b) \<and>
     (\<forall>b\<in>live. \<forall>c\<in>live. b \<noteq> c \<longrightarrow> span b \<inter> span c = {}) \<and> (\<forall>b\<in>live. \<forall>c\<in>set fl. span b \<inter> span c = {}) \<and>
     R = \<Union> (span ` (set fl \<union> live))"

section \<open>Where blocks are\<close>

lemma block_hdr: "block_ok base b \<Longrightarrow> {fst b..<fst b + 16} \<subseteq> span b"
  by (auto simp: block_ok_def span_def)

lemma span_apart:
  assumes "block_ok base b" "block_ok base c" "span b \<inter> span c = {}"
  shows "fst b + 16 * snd b \<le> fst c \<or> fst c + 16 * snd c \<le> fst b"
proof (rule ccontr)
  assume "\<not> ?thesis"
  then have "max (fst b) (fst c) \<in> span b \<inter> span c" using assms(1,2) by (auto simp: span_def block_ok_def)
  then show False using assms(3) by blast
qed

lemma disjoint_apart: "block_ok base b \<Longrightarrow> block_ok base c \<Longrightarrow> span b \<inter> span c = {} \<Longrightarrow> fst b + 16 \<le> fst c \<or> fst c + 16 \<le> fst b"
  using span_apart [of base b c] unfolding block_ok_def by linarith

lemma gaps_append: "gaps (us @ vs) \<longleftrightarrow> gaps us \<and> gaps vs \<and> (\<forall>u\<in>set us. \<forall>v\<in>set vs. fst u + 16 * snd u < fst v)"
  by (simp add: gaps_def sorted_wrt_append)

lemma gaps_Cons: "gaps (u # vs) \<longleftrightarrow> gaps vs \<and> (\<forall>v\<in>set vs. fst u + 16 * snd u < fst v)"
  by (auto simp: gaps_def)

lemma gaps_distinct: "gaps fl \<Longrightarrow> distinct (map fst fl)"
  unfolding gaps_def by (induction fl) fastforce+

lemma gaps_apart:
  assumes "gaps fl" "\<forall>b\<in>set fl. block_ok base b" "x \<in> set (base # map fst fl)" "y \<in> set (base # map fst fl)"
  shows "apart x y"
  using assms
proof (induction fl)
  case (Cons b fl)
  have "apart (fst b) (fst c)" if "c \<in> set fl" for c using that Cons.prems(1,2) by (force simp: gaps_Cons apart_def block_ok_def)
  then show ?case using Cons by (auto simp: gaps_Cons block_ok_def apart_def)
qed (simp add: apart_def)

text \<open>The place of an address in the free list.\<close>

lemma gaps_split:
  assumes "gaps fl"
  obtains us vs where "fl = us @ vs" "\<forall>u\<in>set us. fst u < a" "\<forall>v\<in>set vs. a \<le> fst v"
proof
  show "fl = takeWhile (\<lambda>b. fst b < a) fl @ dropWhile (\<lambda>b. fst b < a) fl" by simp
  show "\<forall>u\<in>set (takeWhile (\<lambda>b. fst b < a) fl). fst u < a" by (auto dest: set_takeWhileD)
  show "\<forall>v\<in>set (dropWhile (\<lambda>b. fst b < a) fl). a \<le> fst v"
    using assms
  proof (induction fl)
    case (Cons b fl)
    have "fst b < fst c" if "c \<in> set fl" for c using Cons.prems that by (force simp: gaps_Cons)
    then show ?case using Cons by (auto simp: gaps_Cons intro: order_trans [OF _ less_imp_le])
  qed simp
qed

section \<open>The search of free\<close>

lemma chain_next:
  assumes "chain nx a xs z" "sorted_wrt (<) (a # xs)" "e \<in> set (a # xs)"
  shows "e = last (a # xs) \<and> nx e = z \<or> nx e \<in> set xs \<and> e < nx e"
  using assms
proof (induction xs arbitrary: a)
  case (Cons x xs)
  then show ?case by (cases "e = a") auto
qed simp

lemma ring_from:
  assumes "chain nx a xs a" "distinct (a # xs)" "f \<in> set (a # xs)"
  obtains ys where "chain nx f ys f" "set (f # ys) = set (a # xs)" "distinct (f # ys)"
proof (cases "f = a")
  case True
  then show ?thesis using assms that by blast
next
  case False
  then obtain bs cs where xs: "xs = bs @ f # cs" using assms(3) by (auto simp: in_set_conv_decomp)
  have "chain nx a bs f" "chain nx f cs a" using assms(1) unfolding xs chain_append by auto
  then have "chain nx f (cs @ a # bs) f" unfolding chain_append by (auto dest: chain_end)
  then show ?thesis using assms(2) xs by (intro that) auto
qed

definition stops :: "mem \<Rightarrow> nat \<Rightarrow> nat \<Rightarrow> bool" where
  "stops m bp p \<longleftrightarrow> bp > p \<and> bp < uptr m p \<or> p \<ge> uptr m p \<and> (bp > p \<or> bp < uptr m p)"

lemma free_loop_walk:
  assumes "chain (uptr m) p ys e" "q \<in> set (p # ys)" "\<And>x. x \<in> set (p # ys) \<Longrightarrow> stops m bp x \<longleftrightarrow> x = q"
  shows "free_loop m bp p = Some q"
  using assms
proof (induction ys arbitrary: p)
  case Nil
  then show ?case by (subst free_loop.simps) (auto simp: stops_def)
next
  case (Cons y ys)
  show ?case
  proof (cases "p = q")
    case True
    then show ?thesis using Cons.prems(3) [of p] by (subst free_loop.simps) (auto simp: stops_def)
  next
    case False
    then have "free_loop m bp y = Some q" using Cons.prems by (intro Cons.IH) auto
    then show ?thesis using False Cons.prems(1) Cons.prems(3) [of p] by (subst free_loop.simps) (auto simp: stops_def)
  qed
qed

lemma gaps_sorted:
  assumes "gaps fl" "\<forall>b\<in>set fl. block_ok base b"
  shows "sorted_wrt (<) (base # map fst fl)"
proof -
  have "sorted_wrt (<) (map fst fl)" using assms(1) unfolding gaps_def sorted_wrt_map by (rule sorted_wrt_mono_rel [rotated]) auto
  then show ?thesis using assms(2) by (auto simp: block_ok_def)
qed

lemma sorted_wrt_less_distinct: "sorted_wrt (<) xs \<Longrightarrow> distinct (xs :: nat list)"
  by (induction xs) auto

lemma last_node: "last (base # map fst us) \<in> set (base # map fst (us @ vs))"
proof -
  have "last (base # map fst us) \<in> set (base # map fst us)" by (rule last_in_set) simp
  moreover have "set (base # map fst us) \<subseteq> set (base # map fst (us @ vs))" by auto
  ultimately show ?thesis by blast
qed

lemma free_loop_finds:
  assumes fl: "free_list m base (us @ vs)" and u: "\<forall>u\<in>set us. fst u < bp" and v: "\<forall>v\<in>set vs. bp < fst v" and b: "base < bp"
    and p: "p \<in> set (base # map fst (us @ vs))"
  shows "free_loop m bp p = Some (last (base # map fst us))"
proof -
  let ?q = "last (base # map fst us)" and ?xs = "map fst (us @ vs)"
  have c: "chain (uptr m) base ?xs base" and g: "gaps (us @ vs)" "\<forall>b\<in>set (us @ vs). block_ok base b" using fl by (simp_all add: free_list_def)
  have so: "sorted_wrt (<) (base # ?xs)" by (rule gaps_sorted [OF g])
  then have d: "distinct (base # ?xs)" by (rule sorted_wrt_less_distinct)
  have cu: "chain (uptr m) base (map fst us) (hd (map fst vs @ [base]))" using c unfolding map_append chain_append by blast
  have sou: "sorted_wrt (<) (base # map fst us)" using so by (simp add: sorted_wrt_append)
  have qin: "?q \<in> set (base # map fst us)" by (rule last_in_set) simp
  then have q: "?q < bp" "base \<le> ?q" using u b sou by auto
  have e: "stops m bp x \<longleftrightarrow> x = ?q" if "x \<in> set (base # ?xs)" for x
  proof (cases "x \<in> set (base # map fst us)")
    case True
    from chain_next [OF cu sou True] consider "x = ?q" "uptr m x = hd (map fst vs @ [base])" | "uptr m x \<in> set (map fst us)" "x < uptr m x" by blast
    then show ?thesis
    proof cases
      case 1
      then show ?thesis using q v by (cases vs) (auto simp: stops_def)
    next
      case 2
      then have "uptr m x < bp" using u by auto
      moreover have "x \<noteq> ?q" using chain_end [OF cu] 2 v q calculation by (cases vs) auto
      ultimately show ?thesis using 2 by (auto simp: stops_def)
    qed
  next
    case False
    then have x: "bp < x" using that v by auto
    have "uptr m x = base \<or> x < uptr m x" using chain_next [OF c so that] by blast
    then show ?thesis using x q b by (auto simp: stops_def)
  qed
  obtain ys where ys: "chain (uptr m) p ys p" "set (p # ys) = set (base # ?xs)" using ring_from [OF c d p] by blast
  have "?q \<in> set (base # ?xs)" by (rule last_node)
  then show ?thesis using ys e by (intro free_loop_walk [OF ys(1)]) auto
qed

section \<open>Joining blocks\<close>

lemma hadd_block: "block_ok base b \<Longrightarrow> hadd (fst b) (snd b) = fst b + 16 * snd b"
  by (simp add: hadd_def block_ok_def utop_def add64_small)

text \<open>The block \<open>b\<close> between the free blocks \<open>us\<close>, which do not point to it yet, and \<open>vs\<close>.\<close>

definition mid_list :: "mem \<Rightarrow> nat \<Rightarrow> ublock list \<Rightarrow> ublock \<Rightarrow> ublock list \<Rightarrow> bool" where
  "mid_list m base us b vs \<longleftrightarrow> (\<exists>e. chain (uptr m) base (map fst us) e) \<and> chain (uptr m) (fst b) (map fst vs) base \<and> usize m base = 0 \<and>
     (\<forall>c\<in>set (us @ b # vs). usize m (fst c) = snd c \<and> block_ok base c) \<and> gaps (us @ vs) \<and> gaps (b # vs) \<and>
     (\<forall>u\<in>set us. fst u + 16 * snd u \<le> fst b)"

lemma span_join: "a + 16 * n = c \<Longrightarrow> span (a, n) \<union> span (c, k) = span (a, n + k)"
  by (auto simp: span_def)

lemma gaps_before:
  assumes "gaps vs" "\<forall>v\<in>set vs. e \<le> fst v" "e \<noteq> hd (map fst vs @ [base])" "v \<in> set vs"
  shows "e < fst v"
proof (cases vs)
  case (Cons a ws)
  then have "e < fst a" using assms(2,3) by force
  moreover have "fst a \<le> fst v" using assms(1,4) Cons by (force simp: gaps_Cons)
  ultimately show ?thesis by simp
qed (use assms in simp)

lemma join_next_ok:
  assumes fl: "free_list m base (us @ vs)" and b: "block_ok base b" "usize m (fst b) = snd b"
    and u: "\<forall>u\<in>set us. fst u + 16 * snd u \<le> fst b" and v: "\<forall>v\<in>set vs. fst b + 16 * snd b \<le> fst v"
    and p: "p = last (base # map fst us)"
  shows "\<exists>n vs'. mid_list (join_next (fst b) p m) base us (fst b, n) vs' \<and> snd b \<le> n \<and>
    span (fst b, n) \<union> \<Union> (span ` set vs') = span b \<union> \<Union> (span ` set vs)"
proof -
  let ?bp = "fst b" and ?q = "hd (map fst vs @ [base])"
  have F: "chain (uptr m) base (map fst us) ?q" "chain (uptr m) p (map fst vs) base" "usize m base = 0" "gaps (us @ vs)"
    "\<forall>c\<in>set (us @ vs). usize m (fst c) = snd c \<and> block_ok base c"
    using fl unfolding free_list_def map_append chain_append p by auto
  have q: "uptr m p = ?q" using chain_end [OF F(1)] p by simp
  have bb: "base + 16 \<le> ?bp" "0 < snd b" using b(1) by (simp_all add: block_ok_def)
  have ap: "apart ?bp x" "x \<noteq> ?bp" if "x \<in> set (base # map fst (us @ vs))" for x
    using that bb u v F(5) by (force simp: apart_def block_ok_def)+
  have apc: "apart ?bp (fst c)" "fst c \<noteq> ?bp" if "c \<in> set us \<or> c \<in> set vs" for c using ap [of "fst c"] that by auto
  have apb: "apart ?bp base" "apart ?bp ?bp" using bb by (simp_all add: apart_def)
  have pin: "p \<in> set (base # map fst (us @ vs))" unfolding p by (rule last_node)
  have qin: "?q \<in> set (base # map fst (us @ vs))" by (cases vs) auto
  show ?thesis
  proof (cases "?bp + 16 * snd b = ?q")
    case False
    let ?m = "set_uptr ?bp ?q m"
    have j: "join_next ?bp p m = ?m" using False q b hadd_block [OF b(1)] by (simp add: join_next_def)
    have r: "uptr ?m ?bp = ?q" "\<And>x. x \<in> set (base # map fst (us @ vs)) \<Longrightarrow> uptr ?m x = uptr m x"
      using ap q [symmetric] by (simp_all add: hdr_simps apart_def)
    have "usize ?m (fst c) = snd c \<and> block_ok base c" if "c \<in> set (us @ b # vs)" for c
      using F(5) b apc(1) [of c] apb that by (cases "c = b") (simp_all add: hdr_simps)
    then have sz: "\<forall>c\<in>set (us @ b # vs). usize ?m (fst c) = snd c \<and> block_ok base c" "usize ?m base = 0"
      using F(3) apb by (blast, simp add: hdr_simps)
    have "chain (uptr ?m) base (map fst us) ?q" using F(1) r(2) by (subst chain_cong [where nx' = "uptr m"]) auto
    moreover have "chain (uptr ?m) p (map fst vs) base" using F(2) r(2) pin by (subst chain_cong [where nx' = "uptr m"]) auto
    then have "chain (uptr ?m) ?bp (map fst vs) base" by (rule chain_start) (use r q pin in simp)
    moreover have "gaps (b # vs)" using F(4) gaps_before [OF _ v False] by (auto simp: gaps_append gaps_Cons)
    ultimately have "mid_list ?m base us b vs" using F(4) sz u unfolding mid_list_def by blast
    then show ?thesis unfolding j by (metis order_refl prod.collapse)
  next
    case True
    have "?q \<noteq> base" using True bb by simp
    then obtain x k ws where vs: "vs = (x, k) # ws" and xq: "?q = x" by (cases vs) auto
    note True = True [unfolded xq] and q = q [unfolded xq] and qin = qin [unfolded xq] and F = F [unfolded xq]
    let ?n = "snd b + k"
    let ?m = "set_uptr ?bp (uptr m x) (set_usize ?bp ?n m)" and ?b = "(?bp, ?n)"
    have k: "usize m x = k" "block_ok base (x, k)" using F(5) vs by auto
    then have b': "block_ok base ?b" "?n < 2 ^ 32" using True b(1) by (auto simp: block_ok_def utop_def)
    have j: "join_next ?bp p m = ?m"
      using True q k(1) b(2) hadd_block [OF b(1)] ap(1) [OF pin] ap(1) [OF qin] by (simp add: join_next_def Let_def hdr_simps)
    have r: "uptr ?m ?bp = uptr m x" "\<And>y. y \<in> set (base # map fst (us @ vs)) \<Longrightarrow> uptr ?m y = uptr m y"
      using ap by (simp_all add: hdr_simps apart_def)
    have "usize ?m (fst c) = snd c \<and> block_ok base c" if "c \<in> set (us @ ?b # ws)" for c
      using F(5) b' apc(1) [of c] apc(2) [of c] apb that vs by (cases "c = ?b") (auto simp: hdr_simps)
    then have sz: "\<forall>c\<in>set (us @ ?b # ws). usize ?m (fst c) = snd c \<and> block_ok base c" "usize ?m base = 0"
      using F(3) apb ap(2) [of base] b'(2) by (blast, simp add: hdr_simps)
    have "chain (uptr ?m) base (map fst us) x" using F(1) r(2) by (subst chain_cong [where nx' = "uptr m"]) auto
    moreover have "chain (uptr m) x (map fst ws) base" using F(2) unfolding vs by simp
    then have "chain (uptr ?m) x (map fst ws) base" using r(2) qin vs by (subst chain_cong [where nx' = "uptr m"]) auto
    then have "chain (uptr ?m) ?bp (map fst ws) base" by (rule chain_start) (use r qin in simp)
    moreover have "gaps (us @ ws)" "gaps (?b # ws)" using F(4) vs True by (auto simp: gaps_append gaps_Cons)
    ultimately have "mid_list ?m base us ?b ws" using sz u unfolding mid_list_def by auto
    moreover have "span ?b \<union> \<Union> (span ` set ws) = span b \<union> \<Union> (span ` set vs)"
      using span_join [OF True, of k] vs by (metis Sup_insert image_insert list.simps(15) prod.collapse sup_assoc)
    ultimately show ?thesis unfolding j by (intro exI [of _ ?n] exI [of _ ws]) simp
  qed
qed

lemma chain_hd: "chain nx a xs e \<Longrightarrow> nx a = hd (xs @ [e])"
  by (cases xs) auto

lemma mid_nodes:
  assumes "mid_list m base us b vs"
  shows "sorted_wrt (<) (base # map fst us @ fst b # map fst vs)" "x \<in> set (base # map fst (us @ b # vs)) \<Longrightarrow> y \<in> set (base # map fst (us @ b # vs)) \<Longrightarrow> apart x y"
proof -
  have M: "gaps (us @ vs)" "gaps (b # vs)" "\<forall>u\<in>set us. fst u + 16 * snd u \<le> fst b" "\<forall>c\<in>set (us @ b # vs). block_ok base c"
    using assms unfolding mid_list_def by blast+
  then have u: "fst u + 16 \<le> fst b" if "u \<in> set us" for u using that by (force simp: block_ok_def)
  have "sorted_wrt (<) (base # map fst (us @ vs))" by (rule gaps_sorted [OF M(1)]) (use M(4) in auto)
  moreover have "\<forall>v\<in>set vs. fst b < fst v" "base < fst b" using M(2,4) by (force simp: gaps_Cons block_ok_def)+
  ultimately show "sorted_wrt (<) (base # map fst us @ fst b # map fst vs)" using u by (force simp: sorted_wrt_append)
  have 1: "apart x y" if "x \<in> set (base # map fst (us @ vs))" "y \<in> set (base # map fst (us @ vs))" for x y
    by (rule gaps_apart [OF M(1) _ that]) (use M(4) in auto)
  have 2: "apart x y" if "x \<in> set (base # map fst (b # vs))" "y \<in> set (base # map fst (b # vs))" for x y
    by (rule gaps_apart [OF M(2) _ that]) (use M(4) in auto)
  have 3: "apart (fst u) (fst b)" "apart (fst b) (fst u)" if "u \<in> set us" for u using u [OF that] by (simp_all add: apart_def)
  show "apart x y" if "x \<in> set (base # map fst (us @ b # vs))" "y \<in> set (base # map fst (us @ b # vs))"
    using that 1 [of x y] 2 [of x y] 3 by auto
qed

lemma gaps_insert:
  assumes "gaps (us @ vs)" "gaps (b # vs)" "\<forall>u\<in>set us. fst u + 16 * snd u \<le> fst b" "us \<noteq> [] \<Longrightarrow> fst (last us) + 16 * snd (last us) \<noteq> fst b"
  shows "gaps (us @ b # vs)"
proof -
  have "fst u + 16 * snd u < fst b" if "u \<in> set us" for u
  proof (cases us rule: rev_cases)
    case (snoc us0 w)
    then have w: "fst w + 16 * snd w < fst b" using assms(3,4) by force
    show ?thesis
    proof (cases "u = w")
      case False
      then have "fst u + 16 * snd u < fst w" using that assms(1) snoc by (auto simp: gaps_append)
      then show ?thesis using w by linarith
    qed (use w in simp)
  qed (use that in simp)
  then show ?thesis using assms(1,2) by (auto simp: gaps_append gaps_Cons)
qed

lemma join_prev_ok:
  assumes mid: "mid_list m base us b vs" and p: "p = last (base # map fst us)"
  shows "\<exists>fl. free_list (join_prev (fst b) p m) base fl \<and> \<Union> (span ` set fl) = \<Union> (span ` set (us @ b # vs)) \<and>
    p \<in> set (base # map fst fl) \<and> (\<exists>c\<in>set fl. snd b \<le> snd c)"
proof -
  let ?bp = "fst b" and ?N = "set (base # map fst (us @ b # vs))"
  obtain e where M: "chain (uptr m) base (map fst us) e" "chain (uptr m) ?bp (map fst vs) base" "usize m base = 0"
    "\<forall>c\<in>set (us @ b # vs). usize m (fst c) = snd c \<and> block_ok base c" "gaps (us @ vs)" "gaps (b # vs)" "\<forall>u\<in>set us. fst u + 16 * snd u \<le> fst b"
    using mid unfolding mid_list_def by blast
  note so = mid_nodes(1) [OF mid] and ap = mid_nodes(2) [OF mid]
  have pus: "p \<in> set (base # map fst us)" unfolding p by (rule last_in_set) simp
  have D: "distinct ((base # map fst us) @ ?bp # map fst vs)" using sorted_wrt_less_distinct [OF so] by simp
  have "set (base # map fst us) \<inter> set (?bp # map fst vs) = {}" using D unfolding distinct_append by blast
  then have d: "distinct (base # map fst us)" "p \<notin> set (?bp # map fst vs)" using D pus unfolding distinct_append by blast+
  have pin: "p \<in> ?N" unfolding p by (rule last_node)
  have sub: "set (base # map fst us) \<subseteq> ?N" "set (?bp # map fst vs) \<subseteq> ?N" by auto
  show ?thesis
  proof (cases "hadd p (usize m p) = ?bp")
    case False
    let ?m = "set_uptr p ?bp m" and ?fl = "us @ b # vs"
    have j: "join_prev ?bp p m = ?m" using False by (simp add: join_prev_def)
    have r: "uptr ?m x = (if x = p then ?bp else uptr m x)" "usize ?m x = usize m x" if "x \<in> ?N" for x
      using ap [OF pin that] M(4) by (simp_all add: hdr_simps block_ok_def utop_def)
    have o1: "uptr ?m x = uptr m x" if "x \<in> ?N" "x \<noteq> p" for x using r(1) [OF that(1)] that(2) by simp
    have o2: "uptr ?m x = uptr m x" if "x \<in> set (?bp # map fst vs)" for x using o1 [OF subsetD [OF sub(2) that]] that d(2) by metis
    have "chain (uptr ?m) base (map fst us) ?bp"
      by (rule chain_redirect [OF M(1) d(1), folded p], simp add: r(1) [OF pin], rule o1 [OF subsetD [OF sub(1)]])
    moreover have "chain (uptr ?m) ?bp (map fst vs) base"
      using M(2) o2 by (subst chain_cong [where nx' = "uptr m"])
    ultimately have "chain (uptr ?m) base (map fst ?fl) base" unfolding map_append list.map chain_append by (auto dest: chain_end)
    moreover have "gaps ?fl"
    proof (rule gaps_insert [OF M(5-7)])
      assume us: "us \<noteq> []"
      then have "last us \<in> set us" by (rule last_in_set)
      then have "usize m (fst (last us)) = snd (last us)" "block_ok base (last us)" using M(4) by simp_all
      moreover have "p = fst (last us)" using p us by (simp add: last_map)
      ultimately show "fst (last us) + 16 * snd (last us) \<noteq> fst b" using False hadd_block [of base "last us"] by simp
    qed
    moreover have "usize ?m (fst c) = snd c \<and> block_ok base c" if "c \<in> set ?fl" for c using M(4) r(2) [of "fst c"] that by auto
    moreover have "usize ?m base = 0" using M(3) r(2) [of base] by simp
    ultimately have "free_list ?m base ?fl" unfolding free_list_def by blast
    then show ?thesis unfolding j using pin by (intro exI [of _ ?fl]) auto
  next
    case True
    have "block_ok base b" using M(4) by simp
    then have "us \<noteq> []" using True p M(3) by (auto simp: hadd_def add64_def block_ok_def)
    then obtain us0 w where us: "us = us0 @ [w]" by (cases us rule: rev_cases) auto
    then have w: "p = fst w" "usize m p = snd w" "block_ok base w" using p M(4) by simp_all
    have adj: "fst w + 16 * snd w = ?bp" using True w hadd_block [OF w(3)] by simp
    let ?n = "snd w + snd b"
    let ?m = "set_uptr p (uptr m ?bp) (set_usize p ?n m)" and ?fl = "us0 @ (p, ?n) # vs"
    have n: "?n < 2 ^ 32" "block_ok base (p, ?n)" using adj w \<open>block_ok base b\<close> by (auto simp: block_ok_def utop_def)
    have j: "join_prev ?bp p m = ?m"
      using True w(2) M(4) ap [OF pin, of ?bp] by (simp add: join_prev_def Let_def hdr_simps)
    have r: "uptr ?m x = (if x = p then uptr m ?bp else uptr m x)" "usize ?m x = (if x = p then ?n else usize m x)" if "x \<in> ?N" for x
      using ap [OF pin that] n(1) by (simp_all add: hdr_simps)
    have o1: "uptr ?m x = uptr m x" if "x \<in> ?N" "x \<noteq> p" for x using r(1) [OF that(1)] that(2) by simp
    have o2: "uptr ?m x = uptr m x" if "x \<in> set (?bp # map fst vs)" for x using o1 [OF subsetD [OF sub(2) that]] that d(2) by metis
    have mf: "map fst ?fl = map fst us @ map fst vs" using us w(1) by simp
    have "chain (uptr ?m) base (map fst us) (uptr m ?bp)"
      by (rule chain_redirect [OF M(1) d(1), folded p], simp add: r(1) [OF pin], rule o1 [OF subsetD [OF sub(1)]])
    moreover have "chain (uptr ?m) ?bp (map fst vs) base" using M(2) o2 by (subst chain_cong [where nx' = "uptr m"])
    then have "chain (uptr ?m) p (map fst vs) base" by (rule chain_start) (use r(1) [OF pin] o2 [of ?bp] in simp)
    ultimately have "chain (uptr ?m) base (map fst ?fl) base"
      unfolding mf chain_append p [symmetric] using chain_hd [OF M(2)] by simp
    moreover have "gaps ?fl" using M(5,6) us w(1) adj by (auto simp: gaps_append gaps_Cons)
    moreover have "usize ?m (fst c) = snd c \<and> block_ok base c" if "c \<in> set ?fl" for c
    proof (cases "c = (p, ?n)")
      case False
      then have c: "c \<in> set us0 \<or> c \<in> set vs" "fst c \<in> ?N" using that us by auto
      moreover have "p \<notin> fst ` set us0" "p \<notin> fst ` set vs" using d us w(1) by auto
      then have "fst c \<noteq> p" using c(1) by (metis imageI)
      ultimately show ?thesis using M(4) r(2) [OF c(2)] us by auto
    qed (use n r(2) [OF pin] in simp)
    moreover have "usize ?m base = 0" using M(3) r(2) [of base] d(1) us w(1) by auto
    ultimately have "free_list ?m base ?fl" unfolding free_list_def by blast
    moreover have "\<Union> (span ` set ?fl) = \<Union> (span ` set (us @ b # vs))" using span_join [of "fst w" "snd w" ?bp "snd b"] adj us w(1) by auto
    ultimately show ?thesis unfolding j by (intro exI [of _ ?fl]) auto
  qed
qed

section \<open>free\<close>

lemma join_bytes:
  "x < bp \<or> bp + 16 \<le> x \<Longrightarrow> join_next bp p m x = m x" "x < p \<or> p + 16 \<le> x \<Longrightarrow> join_prev bp p m x = m x"
  by (simp_all add: join_next_def join_prev_def Let_def hdr_bytes)

lemma usize_frame: "(\<And>x. x \<in> {a..<a + 16} \<Longrightarrow> m' x = m x) \<Longrightarrow> usize m' a = usize m a"
  unfolding usize_def by (rule ld_le_cong) simp

text \<open>The bytes that belong to the allocator: the header \<open>base\<close> and the free blocks.\<close>

definition own_bytes :: "nat \<Rightarrow> ublock list \<Rightarrow> nat set" where
  "own_bytes base fl = {base..<base + hdr_size} \<union> \<Union> (span ` set fl)"

lemma node_bytes:
  assumes "x \<in> set (base # map fst fl)" "\<forall>c\<in>set fl. block_ok base c"
  shows "{x..<x + 16} \<subseteq> own_bytes base fl"
proof (cases "x = base")
  case False
  then obtain c where "c \<in> set fl" "x = fst c" using assms(1) by auto
  then show ?thesis using block_hdr [of base c] assms(2) by (force simp: own_bytes_def)
qed (simp add: own_bytes_def)

lemma heap_okD:
  assumes "heap_ok s fl live R"
  shows "free_list (umem s) (ubase s) fl" "freep s \<in> set (ubase s # map fst fl)" "c \<in> live \<Longrightarrow> block_ok (ubase s) c"
    "c \<in> live \<Longrightarrow> usize (umem s) (fst c) = snd c" "c \<in> live \<Longrightarrow> d \<in> live \<Longrightarrow> c \<noteq> d \<Longrightarrow> span c \<inter> span d = {}"
    "c \<in> live \<Longrightarrow> d \<in> set fl \<Longrightarrow> span c \<inter> span d = {}" "R = \<Union> (span ` (set fl \<union> live))" "d \<in> set fl \<Longrightarrow> block_ok (ubase s) d" "0 < ubase s"
  using assms unfolding heap_ok_def free_list_def by simp_all

lemma base_apart: "block_ok base c \<Longrightarrow> x \<in> span c \<Longrightarrow> x \<notin> {base..<base + 16}"
  by (auto simp: block_ok_def span_def)

lemma free_link:
  assumes h: "heap_ok s fl live R" and b: "b \<in> live"
  shows "\<exists>fl' p m'. free_loop (umem s) (fst b) (freep s) = Some p \<and> m' = join_prev (fst b) p (join_next (fst b) p (umem s)) \<and>
    free_list m' (ubase s) fl' \<and> p \<in> set (ubase s # map fst fl') \<and> (\<exists>c\<in>set fl'. snd b \<le> snd c) \<and>
    \<Union> (span ` set fl') = \<Union> (span ` set fl) \<union> span b \<and> (\<forall>x. x \<notin> own_bytes (ubase s) (b # fl) \<longrightarrow> m' x = umem s x)"
proof -
  note H = heap_okD [OF h]
  let ?base = "ubase s" and ?m = "umem s"
  have "gaps fl" using H(1) by (simp add: free_list_def)
  then obtain us vs where fl: "fl = us @ vs" "\<forall>u\<in>set us. fst u < fst b" "\<forall>v\<in>set vs. fst b \<le> fst v" by (rule gaps_split)
  have bb: "block_ok ?base b" by (rule H(3) [OF b])
  have sp: "fst b + 16 * snd b \<le> fst c \<or> fst c + 16 * snd c \<le> fst b" if "c \<in> set fl" for c by (rule span_apart [OF bb H(8) [OF that] H(6) [OF b that]])
  have u: "\<forall>u\<in>set us. fst u + 16 * snd u \<le> fst b"
  proof
    fix c assume c: "c \<in> set us"
    then show "fst c + 16 * snd c \<le> fst b" using sp [of c] fl(1,2) bb by fastforce
  qed
  have v: "\<forall>v\<in>set vs. fst b + 16 * snd b \<le> fst v"
  proof
    fix c assume c: "c \<in> set vs"
    then show "fst b + 16 * snd b \<le> fst c" using sp [of c] fl(1,3) H(8) [of c] by (fastforce simp: block_ok_def)
  qed
  let ?p = "last (?base # map fst us)"
  have "\<forall>c\<in>set vs. fst b < fst c" using v bb by (force simp: block_ok_def)
  then have loop: "free_loop ?m (fst b) (freep s) = Some ?p"
    using H(1,2) fl(2) bb unfolding fl(1) by (intro free_loop_finds) (auto simp: block_ok_def)
  obtain n vs' where mid: "mid_list (join_next (fst b) ?p ?m) ?base us (fst b, n) vs'" "snd b \<le> n"
    "span (fst b, n) \<union> \<Union> (span ` set vs') = span b \<union> \<Union> (span ` set vs)"
    using join_next_ok [OF H(1) [unfolded fl(1)] bb H(4) [OF b] u v refl] by blast
  obtain fl' where fl': "free_list (join_prev (fst b) ?p (join_next (fst b) ?p ?m)) ?base fl'"
    "\<Union> (span ` set fl') = \<Union> (span ` set (us @ (fst b, n) # vs'))" "?p \<in> set (?base # map fst fl')" "\<exists>c\<in>set fl'. n \<le> snd c"
    using join_prev_ok [OF mid(1) refl] by auto
  have pn: "{?p..<?p + 16} \<subseteq> own_bytes ?base fl" using H(8) unfolding fl(1) by (intro node_bytes [OF last_node]) simp
  have bn: "{fst b..<fst b + 16} \<subseteq> span b" by (rule block_hdr [OF bb])
  have frame: "join_prev (fst b) ?p (join_next (fst b) ?p ?m) x = ?m x" if "x \<notin> own_bytes ?base (b # fl)" for x
  proof -
    have "x \<notin> {?p..<?p + 16}" "x \<notin> {fst b..<fst b + 16}" using that pn bn by (auto simp: own_bytes_def)
    then show ?thesis by (simp add: join_bytes not_le not_less)
  qed
  have un: "\<Union> (span ` set fl') = \<Union> (span ` set fl) \<union> span b" using fl'(2) mid(3) fl(1) by auto
  have big: "\<exists>c\<in>set fl'. snd b \<le> snd c" using fl'(4) mid(2) by (meson order_trans)
  show ?thesis by (intro exI conjI) (rule loop refl fl'(1,3) un big allI impI frame | assumption)+
qed

lemma free_ok:
  assumes h: "heap_ok s fl live R" and b: "b \<in> live"
  shows "\<exists>fl' s'. free (fst b + hdr_size) s = Some s' \<and> heap_ok s' fl' (live - {b}) R \<and> ubase s' = ubase s \<and> kern s' = kern s \<and>
    (\<exists>c\<in>set fl'. snd b \<le> snd c) \<and> (\<forall>x. x \<notin> own_bytes (ubase s) (b # fl) \<longrightarrow> umem s' x = umem s x)"
proof -
  note H = heap_okD [OF h]
  obtain fl' p m' where f: "free_loop (umem s) (fst b) (freep s) = Some p" "m' = join_prev (fst b) p (join_next (fst b) p (umem s))"
    "free_list m' (ubase s) fl'" "p \<in> set (ubase s # map fst fl')" "\<exists>c\<in>set fl'. snd b \<le> snd c"
    "\<Union> (span ` set fl') = \<Union> (span ` set fl) \<union> span b" "\<forall>x. x \<notin> own_bytes (ubase s) (b # fl) \<longrightarrow> m' x = umem s x"
    using free_link [OF h b] by (elim exE conjE) (rule that)
  let ?s = "s\<lparr>umem := m', freep := p\<rparr>"
  have "sub64 (fst b + 16) 16 = fst b" using H(3) [OF b] by (simp add: sub64_small block_ok_def utop_def)
  then have fr: "free (fst b + 16) s = Some ?s" using f(1,2) by (simp add: free_def Let_def)
  have dis: "span c \<inter> span b = {}" "span c \<inter> span d = {}" if "c \<in> live" "c \<noteq> b" "d \<in> set fl" for c d
    using H(5) [OF that(1) b that(2)] H(6) [OF that(1,3)] by blast+
  have out: "x \<notin> own_bytes (ubase s) (b # fl)" if "c \<in> live" "c \<noteq> b" "x \<in> span c" for c x
    using base_apart [OF H(3) [OF that(1)] that(3)] H(5) [OF that(1) b that(2)] H(6) [OF that(1)] that(3) unfolding own_bytes_def by auto
  have sz: "usize m' (fst c) = snd c" if "c \<in> live" "c \<noteq> b" for c
    using usize_frame [of "fst c" m' "umem s", OF f(7) [rule_format, OF out [OF that subsetD [OF block_hdr [OF H(3) [OF that(1)]]]]]]
      H(4) [OF that(1)] by simp
  have cov: "span c \<inter> span d = {}" if "c \<in> live" "c \<noteq> b" "d \<in> set fl'" for c d
  proof -
    have "span d \<subseteq> \<Union> (span ` set fl) \<union> span b" using that(3) f(6) by blast
    then show ?thesis using H(5) [OF that(1) b that(2)] H(6) [OF that(1)] by blast
  qed
  have "R = \<Union> (span ` (set fl' \<union> (live - {b})))" using H(7) f(6) b unfolding image_Un Union_Un_distrib by blast
  moreover have "p \<in> set (ubase s # map fst fl')" by (rule f(4))
  ultimately have "heap_ok ?s fl' (live - {b}) R"
    using f(3) H(3,5,9) sz cov unfolding heap_ok_def by simp
  then show ?thesis using fr f(5,7) by (intro exI [of _ fl'] exI [of _ ?s]) simp
qed

section \<open>Carving a block\<close>

text \<open>The block \<open>b\<close> is taken from the free block \<open>c\<close>.\<close>

lemma heap_ok_take:
  assumes h: "heap_ok s fl live R" and c: "c \<in> set fl" and b: "span b \<subseteq> span c" "block_ok (ubase s) b" "usize m' (fst b) = snd b"
    and f: "free_list m' (ubase s) fl'" "p \<in> set (ubase s # map fst fl')" and d: "\<forall>d\<in>set fl'. span b \<inter> span d = {}"
    and u: "\<Union> (span ` set fl') \<union> span b = \<Union> (span ` set fl)" and fr: "\<forall>x. x \<notin> own_bytes (ubase s) fl \<longrightarrow> m' x = umem s x"
  shows "heap_ok (s\<lparr>umem := m', freep := p\<rparr>) fl' (insert b live) R" "b \<notin> live"
proof -
  note H = heap_okD [OF h]
  have sb: "span b \<inter> span x = {}" if "x \<in> live" for x using H(6) [OF that c] b(1) by blast
  have ne: "span b \<noteq> {}" using b(2) by (auto simp: span_def block_ok_def)
  then show "b \<notin> live" using sb [of b] by blast
  have out: "x \<notin> own_bytes (ubase s) fl" if "y \<in> live" "x \<in> span y" for y x
    using base_apart [OF H(3) [OF that(1)] that(2)] H(6) [OF that(1)] that(2) unfolding own_bytes_def by auto
  have sz: "usize m' (fst y) = snd y" if "y \<in> live" for y
    using usize_frame [of "fst y" m' "umem s", OF fr [rule_format, OF out [OF that subsetD [OF block_hdr [OF H(3) [OF that]]]]]] H(4) [OF that] by simp
  have cov: "span y \<inter> span d = {}" if "y \<in> live" "d \<in> set fl'" for y d
  proof -
    have "span d \<subseteq> \<Union> (span ` set fl)" using that(2) u by blast
    then show ?thesis using H(6) [OF that(1)] by blast
  qed
  have "R = \<Union> (span ` (set fl' \<union> insert b live))" using H(7) u unfolding image_Un Union_Un_distrib by auto
  then show "heap_ok (s\<lparr>umem := m', freep := p\<rparr>) fl' (insert b live) R"
    using f b(2,3) d sb sz cov H(3,5,9) unfolding heap_ok_def by (simp add: Int_commute)
qed

lemma free_list_split:
  assumes "free_list m base (us @ c # vs)"
  shows "chain (uptr m) base (map fst us) (fst c)" "chain (uptr m) (fst c) (map fst vs) base" "distinct (base # map fst us)"
    "x \<in> set (base # map fst (us @ c # vs)) \<Longrightarrow> y \<in> set (base # map fst (us @ c # vs)) \<Longrightarrow> apart x y"
    "last (base # map fst us) \<notin> set (fst c # map fst vs)" "usize m base = 0" "\<forall>b\<in>set (us @ c # vs). usize m (fst b) = snd b \<and> block_ok base b"
    "gaps (us @ c # vs)"
proof -
  have F: "chain (uptr m) base (map fst (us @ c # vs)) base" "gaps (us @ c # vs)" "\<forall>b\<in>set (us @ c # vs). usize m (fst b) = snd b \<and> block_ok base b"
    "usize m base = 0" using assms unfolding free_list_def by auto
  show "chain (uptr m) base (map fst us) (fst c)" "chain (uptr m) (fst c) (map fst vs) base"
    using F(1) unfolding map_append list.map chain_append by simp_all
  have D: "distinct ((base # map fst us) @ fst c # map fst vs)"
    using sorted_wrt_less_distinct [OF gaps_sorted [OF F(2), of base]] F(3) by simp
  then show "distinct (base # map fst us)" unfolding distinct_append by blast
  have "set (base # map fst us) \<inter> set (fst c # map fst vs) = {}" using D unfolding distinct_append by blast
  moreover have "last (base # map fst us) \<in> set (base # map fst us)" by (rule last_in_set) simp
  ultimately show "last (base # map fst us) \<notin> set (fst c # map fst vs)" by blast
  show "x \<in> set (base # map fst (us @ c # vs)) \<Longrightarrow> y \<in> set (base # map fst (us @ c # vs)) \<Longrightarrow> apart x y"
    using gaps_apart [OF F(2), of base x y] F(3) by blast
qed (use assms in \<open>auto simp: free_list_def\<close>)

lemma unlink_block:
  assumes fl: "free_list m base (us @ c # vs)" and p: "p = last (base # map fst us)"
  shows "free_list (set_uptr p (uptr m (fst c)) m) base (us @ vs)" "usize (set_uptr p (uptr m (fst c)) m) (fst c) = snd c"
proof -
  let ?m = "set_uptr p (uptr m (fst c)) m" and ?N = "set (base # map fst (us @ c # vs))"
  note F = free_list_split [OF fl]
  have pin: "p \<in> ?N" unfolding p by (rule last_node)
  have r: "uptr ?m x = (if x = p then uptr m (fst c) else uptr m x)" "usize ?m x = usize m x" if "x \<in> ?N" for x
    using F(4) [OF pin that] by (simp_all add: hdr_simps)
  have sub: "set (base # map fst us) \<subseteq> ?N" "set (fst c # map fst vs) \<subseteq> ?N" by auto
  have o1: "uptr ?m x = uptr m x" if "x \<in> ?N" "x \<noteq> p" for x using r(1) [OF that(1)] that(2) by simp
  have o2: "uptr ?m x = uptr m x" if "x \<in> set (fst c # map fst vs)" for x using o1 [OF subsetD [OF sub(2) that]] that F(5) p by metis
  have "chain (uptr ?m) base (map fst us) (uptr m (fst c))"
    by (rule chain_redirect [OF F(1,3), folded p], simp add: r(1) [OF pin], rule o1 [OF subsetD [OF sub(1)]])
  moreover have "chain (uptr ?m) (fst c) (map fst vs) base" using F(2) o2 by (subst chain_cong [where nx' = "uptr m"])
  then have "chain (uptr ?m) p (map fst vs) base" by (rule chain_start) (use r(1) [OF pin] o2 [of "fst c"] in simp)
  ultimately have "chain (uptr ?m) base (map fst (us @ vs)) base"
    unfolding map_append chain_append p [symmetric] using chain_hd [OF F(2)] by simp
  moreover have "usize ?m (fst b) = snd b \<and> block_ok base b" if "b \<in> set (us @ vs)" for b using F(7) r(2) [of "fst b"] that by auto
  moreover have "usize ?m base = 0" using F(6) r(2) [of base] by simp
  moreover have "gaps (us @ vs)" using F(8) by (auto simp: gaps_append gaps_Cons)
  ultimately show "free_list ?m base (us @ vs)" unfolding free_list_def by blast
  show "usize ?m (fst c) = snd c" using F(7) r(2) [of "fst c"] by simp
qed

lemma split_block:
  assumes fl: "free_list m base (us @ c # vs)" and n: "0 < n" "n < snd c"
  defines "a \<equiv> fst c + 16 * (snd c - n)"
  defines "m' \<equiv> set_usize a n (set_usize (fst c) (snd c - n) m)"
  shows "free_list m' base (us @ (fst c, snd c - n) # vs)" "usize m' a = n" "block_ok base (a, n)" "span (a, n) \<subseteq> span c"
    "span (fst c, snd c - n) \<union> span (a, n) = span c" "span (a, n) \<inter> span (fst c, snd c - n) = {}"
proof -
  let ?N = "set (base # map fst (us @ c # vs))" and ?c = "(fst c, snd c - n)"
  note F = free_list_split [OF fl]
  have c: "block_ok base c" using F(7) by simp
  show b: "block_ok base (a, n)" using c n by (auto simp: block_ok_def a_def)
  show sp: "span (a, n) \<subseteq> span c" using n by (auto simp: span_def a_def)
  show "span ?c \<union> span (a, n) = span c" "span (a, n) \<inter> span ?c = {}" using n by (auto simp: span_def a_def)
  have sz: "snd c - n < 2 ^ 32" "n < 2 ^ 32" using c n by (auto simp: block_ok_def utop_def)
  have dis: "span b \<inter> span c = {}" if "b \<in> set us \<or> b \<in> set vs" for b
  proof -
    have "fst b + 16 * snd b \<le> fst c \<or> fst c + 16 * snd c \<le> fst b" using that F(8) by (auto simp: gaps_append gaps_Cons)
    then show ?thesis by (auto simp: span_def)
  qed
  have ap: "apart a x" "x \<noteq> a" if x: "x \<in> ?N" for x
  proof -
    consider "x = base" | "x = fst c" | b where "x = fst b" "b \<in> set us \<or> b \<in> set vs" using x by auto
    then have "a + 16 \<le> x \<or> x + 16 \<le> a"
    proof cases
      case 3
      then show ?thesis using disjoint_apart [of base "(a, n)" b] b F(7) dis [of b] sp by auto
    qed (use b n in \<open>auto simp: a_def block_ok_def\<close>)
    then show "apart a x" "x \<noteq> a" by (auto simp: apart_def)
  qed
  have cin: "fst c \<in> ?N" by simp
  have r: "uptr m' x = uptr m x" "usize m' x = (if x = fst c then snd c - n else usize m x)" if "x \<in> ?N" for x
    using ap [OF that] F(4) [OF cin that] sz unfolding m'_def by (simp_all add: hdr_simps)
  have mf: "map fst (us @ ?c # vs) = map fst (us @ c # vs)" by simp
  have "chain (uptr m') base (map fst (us @ c # vs)) base = chain (uptr m) base (map fst (us @ c # vs)) base" using r(1) by (rule chain_cong)
  then have "chain (uptr m') base (map fst (us @ ?c # vs)) base" using fl unfolding mf free_list_def by blast
  moreover have "usize m' (fst b) = snd b \<and> block_ok base b" if "b \<in> set (us @ ?c # vs)" for b
  proof (cases "b = ?c")
    case True
    then show ?thesis using r(2) [OF cin] c n by (auto simp: block_ok_def)
  next
    case False
    then have bn: "b \<in> set us \<or> b \<in> set vs" "fst b \<in> ?N" using that by auto
    moreover have "fst b \<noteq> fst c" using dis [OF bn(1)] block_hdr [of base b] block_hdr [OF c] F(7) bn(1) by fastforce
    ultimately show ?thesis using F(7) r(2) [OF bn(2)] by auto
  qed
  moreover have "usize m' base = 0" using F(6) r(2) [of base] c by (simp add: block_ok_def)
  moreover have "gaps (us @ ?c # vs)" using F(8) n by (auto simp: gaps_append gaps_Cons)
  ultimately show "free_list m' base (us @ ?c # vs)" unfolding free_list_def by blast
  show "usize m' a = n" using sz by (simp add: m'_def hdr_simps apart_def)
qed

lemma carve_ok:
  assumes h: "heap_ok s (us @ c # vs) live R" and n: "0 < n" "n \<le> snd c" and p: "prevp = last (ubase s # map fst us)"
  shows "\<exists>a fl' s'. carve n prevp (fst c) s = (a + hdr_size, s') \<and> heap_ok s' fl' (insert (a, n) live) R \<and> (a, n) \<notin> live \<and>
    ubase s' = ubase s \<and> kern s' = kern s \<and> (\<forall>x. x \<notin> own_bytes (ubase s) (us @ c # vs) \<longrightarrow> umem s' x = umem s x)"
proof -
  note H = heap_okD [OF h]
  let ?base = "ubase s" and ?m = "umem s" and ?fl = "us @ c # vs"
  note F = free_list_split [OF H(1)]
  have c: "block_ok ?base c" "usize ?m (fst c) = snd c" "c \<in> set ?fl" using F(7) by simp_all
  have pin: "prevp \<in> set (?base # map fst ?fl)" unfolding p by (rule last_node)
  have bytes: "{x..<x + 16} \<subseteq> own_bytes ?base ?fl" if "x \<in> set (?base # map fst ?fl)" for x using node_bytes [OF that] F(7) by blast
  have add: "hadd (fst b) 1 = fst b + 16" if "block_ok ?base b" for b using that by (simp add: hadd_def block_ok_def utop_def add64_small)
  show ?thesis
  proof (cases "snd c = n")
    case True
    let ?m' = "set_uptr prevp (uptr ?m (fst c)) ?m"
    note U = unlink_block [OF H(1) p]
    have fr: "\<forall>x. x \<notin> own_bytes ?base ?fl \<longrightarrow> ?m' x = ?m x" using bytes [OF pin] hdr_bytes(1) by (metis atLeastLessThan_iff not_le subsetD)
    have d: "\<forall>d\<in>set (us @ vs). span c \<inter> span d = {}" using F(8) by (auto simp: gaps_append gaps_Cons span_def)
    have pin': "prevp \<in> set (?base # map fst (us @ vs))" unfolding p by (rule last_node)
    have cn: "c = (fst c, n)" using True by (metis prod.collapse)
    have "heap_ok (s\<lparr>umem := ?m', freep := prevp\<rparr>) (us @ vs) (insert c live) R" "c \<notin> live"
      using heap_ok_take [OF h c(3) order_refl c(1) U(2,1) pin' d _ fr] by auto
    moreover have "carve n prevp (fst c) s = (fst c + 16, s\<lparr>umem := ?m', freep := prevp\<rparr>)"
      using True c(2) add [OF c(1)] by (simp add: carve_def)
    ultimately show ?thesis using fr cn
      by (intro exI [of _ "fst c"] exI [of _ "us @ vs"] exI [of _ "s\<lparr>umem := ?m', freep := prevp\<rparr>"]) simp
  next
    case False
    then have lt: "n < snd c" using n(2) by simp
    let ?k = "snd c - n"
    let ?a = "fst c + 16 * ?k"
    let ?m' = "set_usize ?a n (set_usize (fst c) ?k ?m)" and ?fl' = "us @ (fst c, ?k) # vs"
    note S = split_block [OF H(1) n(1) lt]
    have own: "{?a..<?a + 16} \<subseteq> own_bytes ?base ?fl" using block_hdr [OF S(3)] S(4) c(3) by (force simp: own_bytes_def)
    have cin: "fst c \<in> set (?base # map fst ?fl)" by simp
    have fr: "\<forall>x. x \<notin> own_bytes ?base ?fl \<longrightarrow> ?m' x = ?m x"
    proof (intro allI impI)
      fix x assume "x \<notin> own_bytes ?base ?fl"
      then have "x \<notin> {?a..<?a + 16}" "x \<notin> {fst c..<fst c + 16}" using own bytes [OF cin] by blast+
      then show "?m' x = ?m x" by (simp add: hdr_bytes not_le not_less)
    qed
    have d: "\<forall>d\<in>set ?fl'. span (?a, n) \<inter> span d = {}"
    proof
      fix d assume "d \<in> set ?fl'"
      then consider "d = (fst c, ?k)" | "span c \<inter> span d = {}" using F(8) by (auto simp: gaps_append gaps_Cons span_def)
      then show "span (?a, n) \<inter> span d = {}" using S(4,6) by cases auto
    qed
    have pin': "prevp \<in> set (?base # map fst ?fl')" unfolding p by (rule last_node)
    have u: "\<Union> (span ` set ?fl') \<union> span (?a, n) = \<Union> (span ` set ?fl)" using S(5) by auto
    have "usize ?m' (fst (?a, n)) = snd (?a, n)" using S(2) by simp
    note T = heap_ok_take [OF h c(3) S(4,3) this S(1) pin' d u fr]
    have "hadd (fst c) ?k = ?a" using hadd_block [of ?base "(fst c, ?k)"] S(1) by (simp add: free_list_def)
    then have "carve n prevp (fst c) s = (?a + 16, s\<lparr>umem := ?m', freep := prevp\<rparr>)"
      using False c(2) add [OF S(3)] by (simp add: carve_def Let_def)
    then show ?thesis using T fr
      by (intro exI [of _ ?a] exI [of _ ?fl'] exI [of _ "s\<lparr>umem := ?m', freep := prevp\<rparr>"]) simp
  qed
qed

end
