(* ===== verification/Malloc_Correct.thy ===== *)
theory Malloc_Correct
  imports Umalloc_Correct
begin

text \<open>
  \<open>malloc\<close> of user/umalloc.c: its search through the circular list ends, after at most one call of
  \<open>morecore\<close>, and the block it returns is carved out of a free block.
\<close>

section \<open>The search of malloc\<close>

lemma chain_map: "chain nx a xs e \<longleftrightarrow> map nx (a # xs) = xs @ [e]"
  by (induction xs arbitrary: a) auto

lemma chain_inj: "chain nx a xs e \<Longrightarrow> distinct (xs @ [e]) \<Longrightarrow> inj_on nx (set (a # xs))"
  unfolding chain_map by (metis distinct_map)

definition no_fit :: "nat \<Rightarrow> 'w uheap \<Rightarrow> nat list \<Rightarrow> bool" where
  "no_fit n s xs \<longleftrightarrow> (\<forall>x\<in>set xs. usize (umem s) x < n)"

lemma malloc_walk:
  assumes "chain (uptr (umem s)) a ys f" "f = freep s" "f \<notin> set ys"
  shows "(\<exists>q x. q \<in> set (a # ys) \<and> x \<in> set (ys @ [f]) \<and> uptr (umem s) q = x \<and> n \<le> usize (umem s) x \<and>
      malloc_loop sbrk n a (uptr (umem s) a) s = Some (carve n q x s)) \<or>
    no_fit n s (ys @ [f]) \<and> malloc_loop sbrk n a (uptr (umem s) a) s =
      Option.bind (morecore sbrk n s) (\<lambda>(p', s'). if p' = 0 then Some (0, s') else malloc_loop sbrk n p' (uptr (umem s') p') s')"
  using assms
proof (induction ys arbitrary: a)
  case Nil
  show ?case
  proof (cases "n \<le> usize (umem s) f")
    case True
    then have "malloc_loop sbrk n a f s = Some (carve n a f s)" by (subst malloc_loop.simps) simp
    then show ?thesis using True Nil.prems(1) by simp
  next
    case False
    then show ?thesis using Nil.prems(1,2) by (subst malloc_loop.simps) (simp add: no_fit_def)
  qed
next
  case (Cons y ys)
  have y: "uptr (umem s) a = y" "chain (uptr (umem s)) y ys f" "y \<noteq> freep s" "f \<notin> set ys" using Cons.prems by auto
  show ?case
  proof (cases "n \<le> usize (umem s) y")
    case True
    then have "malloc_loop sbrk n a y s = Some (carve n a y s)" by (subst malloc_loop.simps) simp
    then show ?thesis using True y(1) by auto
  next
    case False
    then have step: "malloc_loop sbrk n a (uptr (umem s) a) s = malloc_loop sbrk n y (uptr (umem s) y) s"
      using y(1,3) by (subst malloc_loop.simps) simp
    have "no_fit n s ((y # ys) @ [f]) \<longleftrightarrow> no_fit n s (ys @ [f])" using False by (simp add: no_fit_def)
    with Cons.IH [OF y(2) Cons.prems(2) y(4)] show ?thesis unfolding step by auto
  qed
qed

lemma no_fit_nodes:
  assumes "heap_ok s fl live R" "set (f # ys) = set (ubase s # map fst fl)" "no_fit n s (ys @ [f])" "c \<in> set fl"
  shows "snd c < n"
proof -
  have "fst c \<in> set (ys @ [f])" using assms(2,4) by auto
  then have "usize (umem s) (fst c) < n" using assms(3) unfolding no_fit_def by blast
  then show ?thesis using assms(1,4) heap_okD(1) by (force simp: free_list_def)
qed

text \<open>A search that starts at \<open>freep\<close>: a block is carved, or no block is large enough.\<close>

lemma malloc_search:
  assumes h: "heap_ok s fl live R" and n: "0 < n"
  shows "(\<exists>a fl' s'. malloc_loop sbrk n (freep s) (uptr (umem s) (freep s)) s = Some (a + hdr_size, s') \<and> heap_ok s' fl' (insert (a, n) live) R \<and>
      (a, n) \<notin> live \<and> ubase s' = ubase s \<and> kern s' = kern s \<and> (\<forall>x. x \<notin> own_bytes (ubase s) fl \<longrightarrow> umem s' x = umem s x)) \<or>
    (\<forall>c\<in>set fl. snd c < n) \<and> malloc_loop sbrk n (freep s) (uptr (umem s) (freep s)) s =
      Option.bind (morecore sbrk n s) (\<lambda>(p', s'). if p' = 0 then Some (0, s') else malloc_loop sbrk n p' (uptr (umem s') p') s')"
proof -
  note H = heap_okD [OF h]
  let ?base = "ubase s" and ?m = "umem s" and ?f = "freep s"
  have F: "chain (uptr ?m) ?base (map fst fl) ?base" "usize ?m ?base = 0" "gaps fl" "\<forall>b\<in>set fl. usize ?m (fst b) = snd b \<and> block_ok ?base b"
    using H(1) unfolding free_list_def by blast+
  have d: "distinct (?base # map fst fl)" using sorted_wrt_less_distinct [OF gaps_sorted [OF F(3)]] F(4) by blast
  obtain ys where ys: "chain (uptr ?m) ?f ys ?f" "set (?f # ys) = set (?base # map fst fl)" "distinct (?f # ys)" using ring_from [OF F(1) d H(2)] by blast
  have "?f \<notin> set ys" using ys(3) by simp
  from malloc_walk [OF ys(1) refl this, of n sbrk] show ?thesis
  proof (elim disjE conjE exE)
    fix q x
    assume x: "q \<in> set (?f # ys)" "x \<in> set (ys @ [?f])" "uptr ?m q = x" "n \<le> usize ?m x" "malloc_loop sbrk n ?f (uptr ?m ?f) s = Some (carve n q x s)"
    have xin: "x \<in> set (?base # map fst fl)" using x(2) unfolding ys(2) [symmetric] by auto
    moreover have "x \<noteq> ?base" using x(4) F(2) n by auto
    ultimately obtain c us vs where c: "x = fst c" "fl = us @ c # vs" by (auto simp: in_set_conv_decomp)
    have "chain (uptr ?m) ?base (map fst us) x" using free_list_split(1) [OF H(1) [unfolded c(2)]] c(1) by simp
    then have "uptr ?m (last (?base # map fst us)) = uptr ?m q" using chain_end x(3) by metis
    moreover have "inj_on (uptr ?m) (set (?base # map fst fl))" using chain_inj [OF F(1)] d by auto
    moreover have "last (?base # map fst us) \<in> set (?base # map fst fl)" unfolding c(2) by (rule last_node)
    ultimately have q: "q = last (?base # map fst us)" using x(1) unfolding ys(2) by (metis inj_onD)
    have "n \<le> snd c" using x(4) F(4) c by simp
    from carve_ok [OF h [unfolded c(2)] n this q] show ?thesis using x(5) c by auto
  qed (use no_fit_nodes [OF h ys(2)] in auto)
qed

section \<open>More memory\<close>

text \<open>
  What \<open>malloc\<close> relies on from the kernel: \<open>sbrk\<close> of a positive size moves the break, \<open>brk\<close> of the
  kernel's state, up by this size and returns the old break, or it fails and leaves the break alone.
\<close>

definition sbrk_ok :: "(int \<Rightarrow> 'w \<Rightarrow> nat option \<times> 'w) \<Rightarrow> ('w \<Rightarrow> nat) \<Rightarrow> bool" where
  "sbrk_ok sbrk brk \<longleftrightarrow> (\<forall>n k. 0 < n \<longrightarrow>
     (case sbrk n k of (None, k') \<Rightarrow> brk k' = brk k | (Some a, k') \<Rightarrow> a = brk k \<and> brk k' = brk k + nat n \<and> brk k' \<le> utop))"

lemma uptr_frame: "(\<And>x. x \<in> {a..<a + 16} \<Longrightarrow> m' x = m x) \<Longrightarrow> uptr m' a = uptr m a"
  unfolding uptr_def by (rule ld_le_cong) simp

lemma free_list_frame:
  assumes "free_list m base fl" "\<And>x. x \<in> own_bytes base fl \<Longrightarrow> m' x = m x"
  shows "free_list m' base fl"
proof -
  have ok: "\<forall>c\<in>set fl. block_ok base c" using assms(1) by (simp add: free_list_def)
  have r: "uptr m' x = uptr m x" "usize m' x = usize m x" if "x \<in> set (base # map fst fl)" for x
    using assms(2) subsetD [OF node_bytes [OF that ok]] by (auto intro!: uptr_frame usize_frame)
  have "usize m' (fst c) = usize m (fst c)" if "c \<in> set fl" for c using r(2) [of "fst c"] that by simp
  moreover have "chain (uptr m') base (map fst fl) base = chain (uptr m) base (map fst fl) base" using r(1) by (rule chain_cong)
  moreover have "usize m' base = usize m base" using r(2) [of base] by simp
  ultimately show ?thesis using assms(1) unfolding free_list_def by simp
qed

lemma heap_ok_grow:
  assumes h: "heap_ok s fl live R" and R: "R \<subseteq> {..<a}" "ubase s + hdr_size \<le> a" and n: "0 < n" "a + hdr_size * n \<le> utop"
  shows "heap_ok (s\<lparr>kern := k, umem := set_usize a n (umem s)\<rparr>) fl (insert (a, n) live) (R \<union> span (a, n))"
proof -
  note H = heap_okD [OF h]
  let ?m = "set_usize a n (umem s)"
  have low: "?m x = umem s x" if "x < a" for x using that by (simp add: hdr_bytes)
  have "own_bytes (ubase s) fl \<subseteq> {..<a}" using R H(7) by (auto simp: own_bytes_def)
  then have fl: "free_list ?m (ubase s) fl" using low by (intro free_list_frame [OF H(1)]) auto
  have sp: "span c \<subseteq> {..<a}" if "c \<in> set fl \<union> live" for c using that R(1) H(7) by blast
  have "span (a, n) \<inter> {..<a} = {}" by (auto simp: span_def)
  then have dis: "span (a, n) \<inter> span c = {}" if "c \<in> set fl \<union> live" for c using sp [OF that] by blast
  have "usize ?m (fst c) = snd c" if "c \<in> live" for c
    using usize_frame [of "fst c" ?m "umem s"] low subsetD [OF order_trans [OF block_hdr [OF H(3) [OF that]] sp]] that H(4) [OF that] by auto
  moreover have "usize ?m a = n" using n by (simp add: hdr_simps apart_def utop_def)
  moreover have "block_ok (ubase s) (a, n)" using R(2) n by (simp add: block_ok_def)
  moreover have "R \<union> span (a, n) = \<Union> (span ` (set fl \<union> insert (a, n) live))" using H(7) by auto
  ultimately show ?thesis using fl H(2,3,5,6,9) dis unfolding heap_ok_def by (simp add: Int_commute)
qed

lemma morecore_ok:
  assumes h: "heap_ok s fl live R" and R: "R \<subseteq> {..<brk (kern s)}" "ubase s + hdr_size \<le> brk (kern s)" and sb: "sbrk_ok sbrk brk"
    and n: "0 < n" "n < 2 ^ 27"
  shows "(\<exists>k. morecore sbrk n s = Some (0, s\<lparr>kern := k\<rparr>) \<and> brk k = brk (kern s) \<and> sbrk (int (max 4096 n * hdr_size)) (kern s) = (None, k)) \<or>
    (\<exists>fl' s'. morecore sbrk n s = Some (freep s', s') \<and> heap_ok s' fl' live (R \<union> {brk (kern s)..<brk (kern s')}) \<and> brk (kern s) \<le> brk (kern s') \<and>
      brk (kern s') \<le> utop \<and> ubase s' = ubase s \<and> (\<exists>c\<in>set fl'. n \<le> snd c) \<and>
      (\<forall>x. x \<notin> own_bytes (ubase s) fl \<and> x < brk (kern s) \<longrightarrow> umem s' x = umem s x))"
proof -
  define nu where "nu = (if n < 4096 then 4096 else n)"
  let ?a = "brk (kern s)"
  have nu: "0 < nu" "n \<le> nu" "nu < 2 ^ 27" using n by (simp_all add: nu_def)
  then have i: "int32 (nu * 16 mod 2 ^ 32) = int (nu * 16)" by (simp add: int32_def)
  obtain r k where rk: "sbrk (int (nu * 16)) (kern s) = (r, k)" by (cases "sbrk (int (nu * 16)) (kern s)")
  then have sbr: "case r of None \<Rightarrow> brk k = ?a | Some a \<Rightarrow> a = ?a \<and> brk k = ?a + nu * 16 \<and> brk k \<le> utop"
    using sb [unfolded sbrk_ok_def, rule_format, of "int (nu * 16)" "kern s"] nu(1) by (cases r) simp_all
  show ?thesis
  proof (cases r)
    case None
    then have "morecore sbrk n s = Some (0, s\<lparr>kern := k\<rparr>)" using rk unfolding morecore_def nu_def [symmetric] Let_def i by simp
    moreover have "nu = max 4096 n" by (simp add: nu_def)
    ultimately show ?thesis using sbr rk None by auto
  next
    case (Some a)
    then have a: "a = ?a" "brk k = ?a + 16 * nu" "?a + 16 * nu \<le> utop" using sbr by auto
    let ?s1 = "s\<lparr>kern := k, umem := set_usize ?a nu (umem s)\<rparr>" and ?b = "(?a, nu)"
    have h1: "heap_ok ?s1 fl (insert ?b live) (R \<union> span ?b)" by (rule heap_ok_grow [OF h R nu(1) a(3)])
    have "span ?b \<inter> R = {}" "span ?b \<noteq> {}" using R(1) nu(1) by (auto simp: span_def)
    then have "?b \<notin> live" using heap_okD(7) [OF h] by blast
    then have l: "insert ?b live - {?b} = live" by simp
    obtain fl' s' where f: "free (?a + 16) ?s1 = Some s'" "heap_ok s' fl' live (R \<union> span ?b)" "ubase s' = ubase s" "kern s' = k"
      "\<exists>c\<in>set fl'. nu \<le> snd c" "\<forall>x. x \<notin> own_bytes (ubase s) (?b # fl) \<longrightarrow> umem s' x = umem ?s1 x"
      using free_ok [OF h1, of ?b, unfolded l] by auto
    have "hadd ?a 1 = ?a + 16" using a(3) nu(1) by (simp add: hadd_def utop_def add64_def)
    then have "morecore sbrk n s = Some (freep s', s')" using rk f(1) Some a(1) unfolding morecore_def nu_def [symmetric] Let_def i by simp
    moreover have "span ?b = {?a..<brk (kern s')}" using a(2) f(4) by (simp add: span_def)
    moreover have "\<exists>c\<in>set fl'. n \<le> snd c" using f(5) nu(2) by (meson order_trans)
    moreover have "umem s' x = umem s x" if "x \<notin> own_bytes (ubase s) fl" "x < ?a" for x
      using f(6) that by (simp add: own_bytes_def span_def hdr_bytes)
    ultimately show ?thesis using f(2-4) a(2,3) by (intro disjI2 exI [of _ fl'] exI [of _ s']) simp
  qed
qed

section \<open>malloc and free\<close>

lemma live_kept:
  assumes "heap_ok s fl live R" "c \<in> live" "x \<in> span c"
  shows "x \<notin> own_bytes (ubase s) fl" "x \<in> R"
  using base_apart [OF heap_okD(3) [OF assms(1,2)] assms(3)] heap_okD(6) [OF assms(1,2)] heap_okD(7) [OF assms(1)] assms(2,3) unfolding own_bytes_def by auto

lemma malloc_loop_ok:
  assumes h: "heap_ok s fl live R" and R: "R \<subseteq> {..<brk (kern s)}" "ubase s + hdr_size \<le> brk (kern s)" "brk (kern s) \<le> utop"
    and sb: "sbrk_ok sbrk brk" and n: "0 < n" "n < 2 ^ 27"
  shows "\<exists>r s'. malloc_loop sbrk n (freep s) (uptr (umem s) (freep s)) s = Some (r, s') \<and> ubase s' = ubase s \<and>
    brk (kern s) \<le> brk (kern s') \<and> brk (kern s') \<le> utop \<and> (\<forall>c\<in>live. \<forall>x\<in>span c. umem s' x = umem s x) \<and>
    (if r = 0 then brk (kern s') = brk (kern s) \<and> heap_ok s' fl live R \<and> fst (sbrk (int (max 4096 n * hdr_size)) (kern s)) = None
     else \<exists>a fl'. r = a + hdr_size \<and> (a, n) \<notin> live \<and> heap_ok s' fl' (insert (a, n) live) (R \<union> {brk (kern s)..<brk (kern s')}))"
proof -
  let ?loop = "\<lambda>s. malloc_loop sbrk n (freep s) (uptr (umem s) (freep s)) s"
  note kept = live_kept [OF h]
  from malloc_search [OF h n(1), of sbrk] show ?thesis
  proof (elim disjE conjE exE)
    fix a fl' s'
    assume "?loop s = Some (a + 16, s')" "heap_ok s' fl' (insert (a, n) live) R" "(a, n) \<notin> live" "ubase s' = ubase s" "kern s' = kern s"
      "\<forall>x. x \<notin> own_bytes (ubase s) fl \<longrightarrow> umem s' x = umem s x"
    then show ?thesis using kept(1) R(3) by (intro exI [of _ "a + 16"] exI [of _ s']) (auto intro: exI [of _ fl'])
  next
    assume more: "?loop s = Option.bind (morecore sbrk n s) (\<lambda>(p', s'). if p' = 0 then Some (0, s') else malloc_loop sbrk n p' (uptr (umem s') p') s')"
    from morecore_ok [of s fl live R brk, OF h R(1,2) sb n] show ?thesis
    proof (elim disjE conjE exE)
      fix k assume "morecore sbrk n s = Some (0, s\<lparr>kern := k\<rparr>)" "brk k = brk (kern s)" "sbrk (int (max 4096 n * 16)) (kern s) = (None, k)"
      moreover have "heap_ok (s\<lparr>kern := k\<rparr>) fl live R" using h by (simp add: heap_ok_def)
      ultimately show ?thesis using more R(3) by (intro exI [of _ 0] exI [of _ "s\<lparr>kern := k\<rparr>"]) simp
    next
      fix fl1 s1
      assume m: "morecore sbrk n s = Some (freep s1, s1)" "heap_ok s1 fl1 live (R \<union> {brk (kern s)..<brk (kern s1)})" "brk (kern s) \<le> brk (kern s1)"
        "brk (kern s1) \<le> utop" "ubase s1 = ubase s" "\<exists>c\<in>set fl1. n \<le> snd c"
        "\<forall>x. x \<notin> own_bytes (ubase s) fl \<and> x < brk (kern s) \<longrightarrow> umem s1 x = umem s x"
      have "freep s1 \<noteq> 0" using heap_okD(2,8,9) [OF m(2)] by (force simp: block_ok_def)
      then have step: "?loop s = ?loop s1" using more m(1) by simp
      obtain a fl' s' where f: "?loop s1 = Some (a + 16, s')" "heap_ok s' fl' (insert (a, n) live) (R \<union> {brk (kern s)..<brk (kern s1)})" "(a, n) \<notin> live"
        "ubase s' = ubase s1" "kern s' = kern s1" "\<forall>x. x \<notin> own_bytes (ubase s1) fl1 \<longrightarrow> umem s' x = umem s1 x"
        using malloc_search [OF m(2) n(1), of sbrk] m(6) by (elim disjE conjE exE) (fastforce, force)
      have "umem s' x = umem s x" if "c \<in> live" "x \<in> span c" for c x
        using kept [OF that] live_kept(1) [OF m(2) that] f(6) m(7) R(1) by auto
      then show ?thesis using step f m(3-5) by (intro exI [of _ "a + 16"] exI [of _ s']) (auto intro: exI [of _ fl'])
    qed
  qed
qed

text \<open>
  The state of the allocator between calls: \<open>live\<close> are the blocks in use, by the address of their
  header and their size in units, and \<open>R\<close> is the memory obtained so far. Before the first call of
  \<open>malloc\<close> the list is not there yet.
\<close>

definition heap_inv :: "('w \<Rightarrow> nat) \<Rightarrow> 'w uheap \<Rightarrow> ublock set \<Rightarrow> nat set \<Rightarrow> bool" where
  "heap_inv brk s live R \<longleftrightarrow> 0 < ubase s \<and> ubase s + hdr_size \<le> brk (kern s) \<and> brk (kern s) \<le> utop \<and> R \<subseteq> {..<brk (kern s)} \<and>
     (if freep s = 0 then live = {} \<and> R = {} else \<exists>fl. heap_ok s fl live R)"

lemma heap_ok_freep: "heap_ok s fl live R \<Longrightarrow> freep s \<noteq> 0"
  using heap_okD(2,8,9) [of s fl live R] by (force simp: block_ok_def)

lemma heap_ok_start:
  assumes "0 < ubase s" "ubase s < 2 ^ 64"
  shows "heap_ok (s\<lparr>freep := ubase s, umem := set_usize (ubase s) 0 (set_uptr (ubase s) (ubase s) (umem s))\<rparr>) [] {} {}"
  using assms by (simp add: heap_ok_def free_list_def gaps_def hdr_simps apart_def)


text \<open>
  (C17) \<open>free\<close> of a live block returns, and gives the block back: the memory obtained from the kernel
  is divided among the other live blocks, none of whose bytes changed, and the free blocks. No two
  free blocks are adjacent, so that all free memory can be used again.
\<close>

theorem free_takes_back_block:
  assumes h: "heap_inv brk s live R" and b: "(a, n) \<in> live"
  shows "\<exists>s' fl. free (a + hdr_size) s = Some s' \<and> heap_inv brk s' (live - {(a, n)}) R \<and> heap_ok s' fl (live - {(a, n)}) R \<and> gaps fl \<and>
    kern s' = kern s \<and> (\<forall>c\<in>live - {(a, n)}. \<forall>x\<in>span c. umem s' x = umem s x)"
proof -
  obtain fl where h1: "heap_ok s fl live R" "freep s \<noteq> 0" using h b by (auto simp: heap_inv_def split: if_splits)
  obtain fl' s' where f: "free (a + 16) s = Some s'" "heap_ok s' fl' (live - {(a, n)}) R" "ubase s' = ubase s" "kern s' = kern s"
    "\<forall>x. x \<notin> own_bytes (ubase s) ((a, n) # fl) \<longrightarrow> umem s' x = umem s x"
    using free_ok [OF h1(1) b] by auto
  have "umem s' x = umem s x" if c: "c \<in> live - {(a, n)}" "x \<in> span c" for c x
  proof -
    have "x \<notin> span (a, n)" using heap_okD(5) [OF h1(1), of c "(a, n)"] b c by blast
    then have "x \<notin> own_bytes (ubase s) ((a, n) # fl)" using live_kept(1) [OF h1(1) _ c(2)] c(1) by (simp add: own_bytes_def)
    then show ?thesis using f(5) by blast
  qed
  moreover have "gaps fl'" using heap_okD(1) [OF f(2)] by (simp add: free_list_def)
  moreover have "heap_inv brk s' (live - {(a, n)}) R" using h f(2-4) heap_ok_freep [OF f(2)] by (auto simp: heap_inv_def)
  ultimately show ?thesis using f(1,2,4) by blast
qed

section \<open>Examples\<close>

text \<open>A kernel that grants memory up to \<open>utop\<close>; its state is the break.\<close>

definition demo_sbrk :: "int \<Rightarrow> nat \<Rightarrow> nat option \<times> nat" where
  "demo_sbrk n k = (if 0 \<le> n \<and> k + nat n \<le> utop then (Some k, k + nat n) else (None, k))"

definition demo_heap :: "nat uheap" where
  "demo_heap = \<lparr>umem = (\<lambda>_. 0), ubase = 4096, freep = 0, kern = 8192\<rparr>"

lemma demo_sbrk_ok: "sbrk_ok demo_sbrk id"
  by (simp add: sbrk_ok_def demo_sbrk_def)

lemma demo_heap_inv: "heap_inv id demo_heap {} {}"
  by (simp add: heap_inv_def demo_heap_def utop_def)


theorem free_takes_back_block_witness:
  "\<exists>s s'. free (8192 + hdr_size) s = Some s' \<and> heap_inv id s {(8192, 8)} (span (8192, 8)) \<and> heap_inv id s' {} (span (8192, 8))"
proof -
  let ?t = "demo_heap\<lparr>freep := ubase demo_heap, umem := set_usize (ubase demo_heap) 0 (set_uptr (ubase demo_heap) (ubase demo_heap) (umem demo_heap))\<rparr>"
  let ?s = "?t\<lparr>kern := 8192 + 128, umem := set_usize 8192 8 (umem ?t)\<rparr>"
  have "heap_ok ?t [] {} {}" by (rule heap_ok_start) (simp_all add: demo_heap_def)
  then have "heap_ok ?s [] {(8192, 8)} (span (8192, 8))"
    using heap_ok_grow [of ?t "[]" "{}" "{}" 8192 8 "8192 + 128"] by (simp add: demo_heap_def utop_def)
  then have inv: "heap_inv id ?s {(8192, 8)} (span (8192, 8))"
    using heap_ok_freep [of ?s "[]"] by (auto simp: heap_inv_def demo_heap_def utop_def span_def)
  from free_takes_back_block [OF inv, of 8192 8] show ?thesis using inv by auto
qed

text \<open>
  A request of two gigabytes, which a caller may make because the parameter is unsigned, asks the
  kernel for a negative size: the size in bytes does not fit the \<open>int\<close> that \<open>sbrk\<close> takes.
\<close>

lemma huge_request_is_negative:
  "morecore sbrk (nunits (2 ^ 31)) s =
     (case sbrk (- (2 ^ 31 - 16)) (kern s) of
        (None, k) \<Rightarrow> Some (0, s\<lparr>kern := k\<rparr>)
      | (Some hp, k) \<Rightarrow>
          (case free (hadd hp 1) (s\<lparr>kern := k, umem := set_usize hp 134217729 (umem s)\<rparr>) of
             None \<Rightarrow> None | Some s' \<Rightarrow> Some (freep s', s')))"
proof -
  have "nunits (2 ^ 31) = 2 ^ 27 + 1" "int32 ((2 ^ 27 + 1) * hdr_size mod 2 ^ 32) = - (2 ^ 31 - 16)" by (simp_all add: nunits_def int32_def)
  then show ?thesis by (simp add: morecore_def Let_def)
qed

end
