(* ===== verification/Spec2Isabelle.thy ===== *)
theory Spec2Isabelle
  imports Slab_Correct Pipe Console Sh_Print Vm_Collapse_Correct Fs_Dir Khugepaged Table_Types Kill Sched_Correct Virtio_Correct Malloc_Correct
begin

text \<open>
  A verification of xv6-plus: the xv6 teaching kernel for 64-bit RISC-V, extended by a buddy
  allocator for physical pages, a slab allocator, huge pages with a thread that builds them, signals
  and kernel threads, together with its C library, its shell and some of its user programs.

  \<^bold>\<open>How the program is modelled.\<close> Definitions follow the C functions under src/ by name. A routine that
  can panic returns \<open>'a res\<close> (\<open>Ok\<close> or \<open>Panic\<close> with the message); a routine that can sleep or whose
  loop may not end returns an option, with \<open>None\<close> for a call that does not return. Above the memory
  allocators kernel code is an action (\<open>Act\<close>): a function from the state to a result and a new state,
  composed by \<open>bindA\<close> and \<open>doM\<close>. Physical memory, blocks of the disk and local variables are functions
  from addresses to bytes, and C structures are decoded from their bytes wherever the code shares them
  with the hardware, with the disk or between two views of a page. Machine integers are words or
  naturals with the wrap-around written out (\<open>add64\<close>, \<open>add32\<close>, \<open>int32\<close>). Pointers into the static
  tables of the kernel are indices. A critical section under a spin lock is one atomic step, except in
  \<open>Sched\<close>, where every lock operation is a step. Console messages are left out.

  \<^bold>\<open>Foundations.\<close> \<open>Prelude\<close> has results, byte and word memory, list segments and the collections of
  simplification rules; \<open>Riscv\<close> the constants and macros of kernel/riscv.h, memlayout.h, param.h and
  signal.h; \<open>Kstring\<close> models kernel/string.c; \<open>Ring\<close> is the interface (a locale, interpreted for the
  pipe and the console) of ring buffers with free-running indices.

  \<^bold>\<open>Memory.\<close> \<open>Kalloc\<close> models kernel/kalloc.c with its free lists threaded through the free pages;
  \<open>Kalloc_Inv\<close> gives the invariant (every free block is on the list of its order, aligned, disjoint from
  the others), \<open>Kalloc_Spec\<close> what each operation does to the set of free pages, \<open>Kalloc_Correct\<close> the
  properties of start-up, allocation, release and of the double-free check. \<open>Slab\<close>, \<open>Slab_Spec\<close>,
  \<open>Slab_Free\<close> and \<open>Slab_Correct\<close> do the same for kernel/slab.c: objects never overlap, live objects are
  never touched, surplus pages go back. \<open>Vm\<close> models kernel/vm.c; \<open>Vm_Tree\<close>, \<open>Vm_Walk\<close> and \<open>Vm_Map\<close>
  relate it to the page walk of the hardware, \<open>Vm_Correct\<close> and \<open>Vm_Collapse_Correct\<close> show that mapping
  changes exactly the given range and that building a huge page changes nothing a process sees.
  \<open>Khugepaged\<close> models the scan of kernel/khugepaged.c.

  \<^bold>\<open>Devices and the disk.\<close> \<open>Console\<close> models kernel/console.c and kernel/uart.c and refines them to a
  terminal with an editable line; \<open>Printf\<close> both printf implementations. \<open>Virtio\<close> models
  kernel/virtio_disk.c; its device is a parameter, a relation on the shared memory, and \<open>Virtio_Correct\<close>
  assumes of it what the virtio specification says (\<open>follows_virtio\<close>): that it only works on requests
  in the ring, transfers the block, and reports the request once. \<open>Block_Cache\<close> is the interface
  between the buffer cache and its users, \<open>Bio\<close> models kernel/bio.c and interprets it; \<open>Log\<close> models
  kernel/log.c, and \<open>Log_Loops\<close>, \<open>Log_Correct\<close>, \<open>Log_Crash\<close> and \<open>Log_Txn\<close> show that a transaction is
  atomic when the machine stops at any of its disk writes, recovery included.

  \<^bold>\<open>Kernel calls.\<close> \<open>Kstate\<close> is the state above the log; \<open>Locks\<close> models kernel/spinlock.c and
  sleeplock.c, \<open>Fs\<close> and \<open>Fs_Data\<close> kernel/fs.c, \<open>Proc_Base\<close> and \<open>Proc\<close> kernel/proc.c, \<open>Ucopy\<close> the
  argument fetching of kernel/syscall.c, \<open>File\<close> kernel/file.c, \<open>Exec\<close> kernel/exec.c, \<open>Sysfile\<close>
  kernel/sysfile.c, and \<open>Trap\<close> kernel/sysproc.c, the dispatch of kernel/syscall.c and kernel/trap.c.
  \<open>Frames\<close> and \<open>Kernel_Frames\<close> have the frame rules. \<open>File_Refs\<close>, \<open>Syscall_Refs\<close> and \<open>Proc_Refs\<close> show
  that every system call keeps the reference counts of open files; \<open>Table_Types\<close> that it keeps the
  pointers between the tables within the tables; \<open>Signals\<close> that a signal handler returns to the
  interrupted code; \<open>Kill\<close> what \<open>kill(0)\<close> does. \<open>Boot_State\<close> has the initial state the examples use.
  \<open>Sched\<close> models scheduling and sleeping of kernel/proc.c as a step relation on any number of CPUs, and
  \<open>Sched_Correct\<close> shows that no check of the scheduler fails and that no wakeup is lost. \<open>Pipe\<close> models
  the data path of kernel/pipe.c under every interleaving of readers and writers.

  \<^bold>\<open>Files.\<close> \<open>Fs_Txn\<close> states the contract of the log and the buffer cache for the code above them
  (\<open>wp\<close>: an action returns and establishes a postcondition; \<open>txn\<close>: an open transaction with its logged
  and held blocks), \<open>Fs_Volume\<close> the layout of the disk, the bitmap and \<open>balloc\<close>, \<open>Fs_File\<close> a file as
  the list of its bytes and the blocks it owns, \<open>Fs_Bmap\<close> the block map, \<open>Fs_Read\<close>, \<open>Fs_Write\<close> and
  \<open>Fs_Inode\<close> the loops of \<open>readi\<close> and \<open>writei\<close> and the inode on the disk. \<open>Fs_Correct\<close> has the result: \<open>readi\<close>
  and \<open>writei\<close> read and replace slices of the list; \<open>Fs_Dir\<close> shows that \<open>dirlookup\<close> and \<open>dirlink\<close>
  are application and update of a map from names to inode numbers.

  \<^bold>\<open>User programs.\<close> \<open>Ulib\<close> models user/ulib.c, \<open>Textutils\<close> user/grep.c and user/wc.c,
  \<open>Umalloc\<close> user/umalloc.c, whose \<open>sbrk\<close> is an argument with the contract \<open>sbrk_ok\<close>; \<open>Umalloc_Correct\<close> and
  \<open>Malloc_Correct\<close> show that it divides its memory into free and live blocks. \<open>Sh\<close> models the lexer
  and parser of user/sh.c; \<open>Sh_Correct\<close> and \<open>Sh_Print\<close> show that the parser returns, what it returns,
  and that it reads back what is printed.

  \<^bold>\<open>Bounds and fuel.\<close> The shell's parser takes fuel; \<open>parsecmd\<close> starts it with more than the length of
  the line, and it is shown that this is always enough. \<open>strlen\<close> and the routines that run to a NUL
  byte are partial functions with a theorem that they return on a terminated string. All other loops
  are total functions with a termination proof. Reference counts of buffers are naturals that wrap below zero.

  \<^bold>\<open>Not modelled.\<close> Assembly (entry.S, kernelvec.S, trampoline.S, swtch.S, usys.pl) and what only
  programs the machine: start.c, main.c, plic.c, machine.c. The weak memory model, the TLB and the
  instruction cache. \<open>procdump\<close>, which only prints. The tests in the kernel (slab_test.c,
  kthread_test.c) and in user/ (usertests.c, grind.c, forktest.c, logstress.c, stressfs.c, sigtest.c,
  forphan.c, dorphan.c, zombie.c), the user programs that only make system calls, running
  commands in the shell, and mkfs/mkfs.c, a program of the build host. A user heap that
  reaches above 32 gigabytes is outside the theorems on \<open>malloc\<close> (\<open>utop\<close>).
\<close>

end
